(* ===== verification/Prelude.thy ===== *)
theory Prelude
  imports Main "HOL-Library.Word" "HOL-Library.Code_Target_Nat"
begin

unbundle bit_operations_syntax

text \<open>
  Shared ground of the development: the C scalar types of the build that is modelled (64-bit
  Apple targets, little endian), the collections of rewrite rules the component proofs draw on,
  little-endian byte sequences, and the arithmetic of \<open>size_t\<close>.
\<close>

section \<open>Types and collections\<close>

type_synonym byte = "8 word"
type_synonym u32 = "32 word"
type_synonym u64 = "64 word"
type_synonym addr = nat

named_theorems cdefs \<open>definitions of one-line C macros and casts\<close>
named_theorems stream_simps \<open>effect of a stream operation on the members of the stream\<close>
named_theorems mem_simps \<open>reads after writes in the byte memory\<close>

section \<open>\<open>size_t\<close>\<close>

text \<open>
  \<open>size_t\<close> is 64 bits wide. It is modelled as a natural number below \<open>2 ^ 64\<close>; the additions and
  multiplications that may wrap go through the two operations below.
\<close>

abbreviation SIZE_MAX :: nat where
  "SIZE_MAX \<equiv> 2 ^ 64 - 1"

definition size_add :: "nat \<Rightarrow> nat \<Rightarrow> nat" where
  "size_add a b = (a + b) mod 2 ^ 64"

definition size_mult :: "nat \<Rightarrow> nat \<Rightarrow> nat" where
  "size_mult a b = (a * b) mod 2 ^ 64"

lemma size_add_small: "a + b < 2 ^ 64 \<Longrightarrow> size_add a b = a + b"
  by (simp add: size_add_def)

lemma size_add_bound: "size_add a b < 2 ^ 64"
  by (simp add: size_add_def)

lemmas size_add_bound_numeral [simp] = size_add_bound [simplified]

lemma size_add_0: "a < 2 ^ 64 \<Longrightarrow> size_add a 0 = a"
  by (simp add: size_add_def)

lemma size_add_assoc: "size_add (size_add a b) c = size_add a (b + c)"
  by (simp add: size_add_def mod_simps add.assoc)

text \<open>The overflow test \<open>a + b < a\<close> of C detects exactly the sums that wrap.\<close>

lemma size_add_overflow_iff:
  assumes "a < 2 ^ 64" and "b < 2 ^ 64"
  shows "size_add a b < a \<longleftrightarrow> 2 ^ 64 \<le> a + b"
proof (cases "a + b < 2 ^ 64")
  case True
  then show ?thesis by (simp add: size_add_small)
next
  case False
  with assms have "(a + b) mod 2 ^ 64 = a + b - 2 ^ 64"
    by (simp add: mod_if)
  with False assms show ?thesis by (simp add: size_add_def)
qed

section \<open>Little-endian byte sequences\<close>

fun of_le :: "byte list \<Rightarrow> nat" where
  "of_le [] = 0"
| "of_le (b # bs) = unat b + 256 * of_le bs"

fun to_le :: "nat \<Rightarrow> nat \<Rightarrow> byte list" where
  "to_le 0 v = []"
| "to_le (Suc n) v = word_of_nat v # to_le n (v div 256)"

lemma length_to_le [simp]: "length (to_le n v) = n"
  by (induction n arbitrary: v) auto

lemma unat_byte_of_nat: "unat (word_of_nat v :: byte) = v mod 256"
  by (simp add: unat_of_nat)

lemma mod_256_Suc: "v mod 256 + 256 * (v div 256 mod 256 ^ n) = v mod 256 ^ Suc n" for v :: nat
  by (metis mod_mult2_eq add.commute mult.commute power_Suc)

lemma of_le_to_le: "of_le (to_le n v) = v mod 256 ^ n"
  by (induction n arbitrary: v) (simp_all add: unat_byte_of_nat mod_256_Suc del: power_Suc)

lemma unat_byte_less [simp]: "unat (b :: byte) < 256"
  using unsigned_less [of b] by simp

lemma of_le_bound: "of_le bs < 256 ^ length bs"
proof (induction bs)
  case Nil
  then show ?case by simp
next
  case (Cons b bs)
  have "unat b < 256" by simp
  with Cons have "unat b + 256 * of_le bs < 256 * Suc (of_le bs)" by simp
  also have "\<dots> \<le> 256 * 256 ^ length bs"
    by (rule mult_le_mono2) (use Cons in simp)
  finally show ?case by simp
qed

lemma unat_byte_mod [simp]: "unat (b :: byte) mod 256 = unat b"
  by (rule mod_less) (rule unat_byte_less)

lemma to_le_of_le: "to_le (length bs) (of_le bs) = bs"
proof (induction bs)
  case Nil
  then show ?case by simp
next
  case (Cons b bs)
  have "unat b < 256" by simp
  then have "(unat b + 256 * of_le bs) div 256 = of_le bs" by simp
  moreover have "word_of_nat (unat b + 256 * of_le bs) = b"
    by (rule word_unat_eq_iff [THEN iffD2]) (simp add: unat_of_nat del: of_nat_add of_nat_mult)
  ultimately show ?case using Cons by simp
qed

section \<open>Bytes of a word\<close>

lemma unat_drop_bit: "unat (drop_bit n w) = unat w div 2 ^ n" for w :: "'a::len word"
  unfolding unat_drop_bit_eq by (rule drop_bit_eq_div)

lemma byte_of_low: "ucast (w AND 0xFF) = (ucast w :: byte)" for w :: "'a::len word"
  by (rule bit_word_eqI) (auto simp: bit_simps numeral_eq_Suc less_Suc_eq dest: bit_imp_le_length)

lemma ucast_drop_bit: "(ucast (drop_bit n w) :: byte) = word_of_nat (unat w div 2 ^ n)" for w :: "'a::len word"
proof -
  have "(ucast (drop_bit n w) :: byte) = word_of_nat (unat (drop_bit n w))" by simp
  then show ?thesis by (simp only: unat_drop_bit)
qed

lemma ucast_0: "(ucast w :: byte) = word_of_nat (unat w)" for w :: "'a::len word"
  by simp

lemma to_le_Suc2: "to_le (Suc (Suc n)) v = word_of_nat v # word_of_nat (v div 256) # to_le n (v div 65536)"
  by (simp flip: div_mult2_eq)

lemma to_le_4: "to_le 4 v =
   [word_of_nat v, word_of_nat (v div 2 ^ 8), word_of_nat (v div 2 ^ 16), word_of_nat (v div 2 ^ 24)]"
proof -
  have "to_le 4 v = to_le (Suc (Suc (Suc (Suc 0)))) v" by (simp only: numeral_eq_Suc pred_numeral_simps Num.BitM.simps)
  also have "\<dots> = [word_of_nat v, word_of_nat (v div 2 ^ 8), word_of_nat (v div 2 ^ 16), word_of_nat (v div 2 ^ 24)]"
    unfolding to_le_Suc2 by (simp flip: div_mult2_eq)
  finally show ?thesis .
qed

lemma to_le_8: "to_le 8 v =
   [word_of_nat v, word_of_nat (v div 2 ^ 8), word_of_nat (v div 2 ^ 16), word_of_nat (v div 2 ^ 24),
    word_of_nat (v div 2 ^ 32), word_of_nat (v div 2 ^ 40), word_of_nat (v div 2 ^ 48), word_of_nat (v div 2 ^ 56)]"
proof -
  have "(8::nat) = Suc (Suc (Suc (Suc 4)))" by simp
  then have "to_le 8 v = to_le (Suc (Suc (Suc (Suc 4)))) v" by (rule arg_cong)
  then show ?thesis unfolding to_le_Suc2 to_le_4 by (simp flip: div_mult2_eq)
qed

text \<open>Assembling a word from little-endian bytes.\<close>

lemma bit_below: "bit x m \<Longrightarrow> x < 2 ^ n \<Longrightarrow> m < n" for x :: nat
proof (rule ccontr)
  assume "bit x m" "x < 2 ^ n" "\<not> m < n"
  then have "x < 2 ^ m" using power_increasing [of n m "2::nat"] by linarith
  with \<open>bit x m\<close> show False by (simp add: bit_iff_odd)
qed

lemma nat_add_push_bit: "x < 2 ^ n \<Longrightarrow> x + push_bit n y = x OR push_bit n y" for x y :: nat
  by (rule disjunctive_add) (auto simp: bit_push_bit_iff dest: bit_below)

lemma of_le_word: "(word_of_nat (of_le (b # bs)) :: 'a::len word) = ucast b OR push_bit 8 (word_of_nat (of_le bs))"
proof -
  have "of_le (b # bs) = unat b OR push_bit 8 (of_le bs)"
    using nat_add_push_bit [of "unat b" 8 "of_le bs"] by (simp add: push_bit_eq_mult mult.commute)
  then show ?thesis by (simp only: of_nat_or_eq push_bit_of_nat) simp
qed

lemma sint_small: "n < 2 ^ 31 \<Longrightarrow> sint (word_of_nat n :: 32 word) = int n"
  by (simp add: signed_of_nat signed_take_bit_int_eq_self)

lemma bit_nat_less: "bit m n \<Longrightarrow> m < 2 ^ k \<Longrightarrow> n < k" for m :: nat
proof (rule ccontr)
  assume "bit m n" "m < 2 ^ k" "\<not> n < k"
  then have "m < 2 ^ n" using power_increasing [of k n "2::nat"] by linarith
  then show False using \<open>bit m n\<close> by (simp add: bit_iff_odd)
qed

lemma bit_word_less: "bit w n \<Longrightarrow> unat w < 2 ^ k \<Longrightarrow> n < k" for w :: "'a::len word"
  using bit_nat_less [of "unat w" n k] by (simp add: bit_unsigned_iff bit_imp_possible_bit)

end
