(* ===== verification/C_Memory.thy ===== *)
theory C_Memory
  imports Prelude
begin

text \<open>
  The memory the C code works on: a byte-addressed store with the list of live heap blocks, the
  typed loads and stores of a little-endian 64-bit target, \<open>memset\<close>, and the C library's
  \<open>realloc\<close> and \<open>free\<close>, to which \<open>pb.h\<close> maps \<open>pb_realloc\<close> and \<open>pb_free\<close>. Where a new
  block is placed is the allocator's choice, a parameter; what the standard promises about the
  choice is the locale \<open>allocator\<close>.
\<close>

section \<open>Bytes\<close>

record cmem =
  mbytes :: "addr \<Rightarrow> byte"
  live :: "(addr \<times> nat) list"
  fault :: bool

definition load_bytes :: "cmem \<Rightarrow> addr \<Rightarrow> nat \<Rightarrow> byte list" where
  "load_bytes m a n = map (\<lambda>i. mbytes m (a + i)) [0..<n]"

definition store_bytes :: "cmem \<Rightarrow> addr \<Rightarrow> byte list \<Rightarrow> cmem" where
  "store_bytes m a bs =
     m\<lparr>mbytes := (\<lambda>x. if a \<le> x \<and> x < a + length bs then bs ! (x - a) else mbytes m x)\<rparr>"

definition load_uint :: "nat \<Rightarrow> cmem \<Rightarrow> addr \<Rightarrow> nat" where
  "load_uint n m a = of_le (load_bytes m a n)"

definition store_uint :: "nat \<Rightarrow> cmem \<Rightarrow> addr \<Rightarrow> nat \<Rightarrow> cmem" where
  "store_uint n m a v = store_bytes m a (to_le n v)"

text \<open>Loads and stores of the C types the library touches: \<open>pb_size_t\<close> is \<open>uint32_t\<close>
  (\<open>PB_FIELD_32BIT\<close>), pointers have eight bytes, \<open>bool\<close> has one.\<close>

abbreviation load_size :: "cmem \<Rightarrow> addr \<Rightarrow> nat" where
  "load_size m a \<equiv> load_uint 4 m a"

abbreviation store_size :: "cmem \<Rightarrow> addr \<Rightarrow> nat \<Rightarrow> cmem" where
  "store_size m a v \<equiv> store_uint 4 m a v"

abbreviation load_ptr :: "cmem \<Rightarrow> addr \<Rightarrow> addr" where
  "load_ptr m a \<equiv> load_uint 8 m a"

abbreviation store_ptr :: "cmem \<Rightarrow> addr \<Rightarrow> addr \<Rightarrow> cmem" where
  "store_ptr m a p \<equiv> store_uint 8 m a p"

definition store_bool :: "cmem \<Rightarrow> addr \<Rightarrow> bool \<Rightarrow> cmem" where
  "store_bool m a b = store_bytes m a [if b then 1 else 0]"

definition c_memset :: "cmem \<Rightarrow> addr \<Rightarrow> byte \<Rightarrow> nat \<Rightarrow> cmem" where
  "c_memset m a v n = store_bytes m a (replicate n v)"

text \<open>A memory of zeros without heap blocks, for closed examples.\<close>

definition zero_mem :: cmem where
  "zero_mem = \<lparr>mbytes = (\<lambda>_. 0), live = [], fault = False\<rparr>"

section \<open>Reads after writes\<close>

definition region :: "addr \<Rightarrow> nat \<Rightarrow> addr set" where
  "region a n = {a..<a + n}"

lemma in_region [simp]: "x \<in> region a n \<longleftrightarrow> a \<le> x \<and> x < a + n"
  by (simp add: region_def)

lemma region_0 [simp]: "region a 0 = {}"
  by (auto simp: region_def)

lemma region_mono: "a \<le> b \<Longrightarrow> b + k \<le> a + n \<Longrightarrow> region b k \<subseteq> region a n"
  by (auto simp: region_def)

lemma length_load_bytes [simp]: "length (load_bytes m a n) = n"
  by (simp add: load_bytes_def)

lemma store_bytes_frame [simp]:
  "live (store_bytes m a bs) = live m" "fault (store_bytes m a bs) = fault m"
  by (simp_all add: store_bytes_def)

lemma store_bytes_Nil [simp]: "store_bytes m a [] = m"
  by (rule cmem.equality) (auto simp: fun_eq_iff store_bytes_def)

lemma mbytes_store_bytes:
  "mbytes (store_bytes m a bs) x = (if x \<in> region a (length bs) then bs ! (x - a) else mbytes m x)"
  by (simp add: store_bytes_def)

lemma load_store_same [mem_simps]: "length bs = n \<Longrightarrow> load_bytes (store_bytes m a bs) a n = bs"
  by (rule nth_equalityI) (simp_all add: load_bytes_def mbytes_store_bytes)

lemma load_bytes_cong:
  assumes "\<And>x. x \<in> region a n \<Longrightarrow> mbytes m x = mbytes m' x"
  shows "load_bytes m a n = load_bytes m' a n"
  using assms by (simp add: load_bytes_def)

lemma load_store_disjoint [mem_simps]:
  "region a n \<inter> region b (length bs) = {} \<Longrightarrow> load_bytes (store_bytes m b bs) a n = load_bytes m a n"
  by (rule load_bytes_cong) (auto simp: mbytes_store_bytes disjoint_iff simp del: in_region)

lemma load_uint_store_uint [mem_simps]: "load_uint n (store_uint n m a v) a = v mod 256 ^ n"
  by (simp add: load_uint_def store_uint_def load_store_same of_le_to_le)

lemma load_uint_bound: "load_uint n m a < 256 ^ n"
  using of_le_bound [of "load_bytes m a n"] by (simp add: load_uint_def)

lemma unat_word_of_load:
  assumes "n * 8 = LENGTH('a)"
  shows "unat (word_of_nat (load_uint n m p) :: 'a::len word) = load_uint n m p"
proof -
  have "(256 :: nat) ^ n = 2 ^ LENGTH('a)"
    using assms [symmetric] by (simp add: power_mult mult.commute [of n])
  then show ?thesis using load_uint_bound [of n m p] by (simp add: unat_of_nat)
qed

lemma store_load_same [simp]: "store_bytes m a (load_bytes m a n) = m"
  by (rule cmem.equality) (auto simp: fun_eq_iff mbytes_store_bytes load_bytes_def)

section \<open>Frames\<close>

text \<open>\<open>changes_only R m m'\<close>: going from \<open>m\<close> to \<open>m'\<close> wrote no byte outside \<open>R\<close>.\<close>

definition changes_only :: "addr set \<Rightarrow> cmem \<Rightarrow> cmem \<Rightarrow> bool" where
  "changes_only R m m' \<longleftrightarrow> (\<forall>x. x \<notin> R \<longrightarrow> mbytes m' x = mbytes m x)"

lemma changes_only_refl [simp]: "changes_only R m m"
  by (simp add: changes_only_def)

lemma changes_only_trans [trans]:
  "changes_only R m m' \<Longrightarrow> changes_only R m' m'' \<Longrightarrow> changes_only R m m''"
  by (simp add: changes_only_def)

lemma changes_only_mono: "changes_only R m m' \<Longrightarrow> R \<subseteq> S \<Longrightarrow> changes_only S m m'"
  by (auto simp: changes_only_def)

lemma changes_only_store_bytes: "region a (length bs) \<subseteq> R \<Longrightarrow> changes_only R m (store_bytes m a bs)"
  by (auto simp: changes_only_def mbytes_store_bytes simp del: in_region)

lemma changes_only_store_uint: "region a n \<subseteq> R \<Longrightarrow> changes_only R m (store_uint n m a v)"
  by (simp add: store_uint_def changes_only_store_bytes)

lemma changes_only_store_bool: "region a 1 \<subseteq> R \<Longrightarrow> changes_only R m (store_bool m a b)"
  by (simp add: store_bool_def changes_only_store_bytes)

lemma changes_only_memset: "region a n \<subseteq> R \<Longrightarrow> changes_only R m (c_memset m a v n)"
  by (simp add: c_memset_def changes_only_store_bytes)

lemmas changes_only_stores =
  changes_only_store_bytes changes_only_store_uint changes_only_store_bool changes_only_memset

lemma changes_only_load:
  "changes_only R m m' \<Longrightarrow> region a n \<inter> R = {} \<Longrightarrow> load_bytes m' a n = load_bytes m a n"
  by (rule load_bytes_cong) (auto simp: changes_only_def simp del: in_region)

section \<open>The heap\<close>

type_synonym alloc = "(addr \<times> nat) list \<Rightarrow> addr \<Rightarrow> nat \<Rightarrow> addr"

definition block_size :: "cmem \<Rightarrow> addr \<Rightarrow> nat" where
  "block_size m p = (case map_of (live m) p of None \<Rightarrow> 0 | Some n \<Rightarrow> n)"

text \<open>\<open>free\<close>: nothing for the null pointer, the block is no longer live for a live one, and
  undefined behaviour, recorded in \<open>fault\<close>, for any other pointer.\<close>

definition c_free :: "cmem \<Rightarrow> addr \<Rightarrow> cmem" where
  "c_free m p =
     (if p = 0 then m
      else if p \<in> fst ` set (live m) then m\<lparr>live := filter (\<lambda>(q, n). q \<noteq> p) (live m)\<rparr>
      else m\<lparr>fault := True\<rparr>)"

text \<open>\<open>realloc\<close>: the allocator \<open>al\<close> is asked for a block of \<open>n\<close> bytes, knowing the live blocks
  and the old one; \<open>0\<close> is a failure, which leaves the old block. Otherwise the old contents move
  to the new block and the old block is no longer live.\<close>

definition c_realloc :: "alloc \<Rightarrow> cmem \<Rightarrow> addr \<Rightarrow> nat \<Rightarrow> addr \<times> cmem" where
  "c_realloc al m p n =
     (let q = al (live m) p n
      in if q = 0 then (0, m)
         else let old = load_bytes m p (min (block_size m p) n);
                  m1 = c_free m p
              in (q, store_bytes (m1\<lparr>live := (q, n) # live m1\<rparr>) q old))"

lemma mbytes_c_free [simp]: "mbytes (c_free m p) = mbytes m"
  by (simp add: c_free_def)

lemma c_free_null [simp]: "c_free m 0 = m"
  by (simp add: c_free_def)

definition blocks_disjoint :: "(addr \<times> nat) list \<Rightarrow> bool" where
  "blocks_disjoint bs \<longleftrightarrow>
     distinct (map fst bs) \<and> 0 \<notin> fst ` set bs \<and>
     (\<forall>(a, j) \<in> set bs. \<forall>(b, k) \<in> set bs. a \<noteq> b \<longrightarrow> region a j \<inter> region b k = {})"

lemma blocks_disjointD:
  assumes "blocks_disjoint bs" and "(a, j) \<in> set bs" and "(b, k) \<in> set bs" and "a \<noteq> b"
  shows "region a j \<inter> region b k = {}"
proof -
  from assms(1) have "\<forall>(a, j) \<in> set bs. \<forall>(b, k) \<in> set bs. a \<noteq> b \<longrightarrow> region a j \<inter> region b k = {}"
    by (simp add: blocks_disjoint_def)
  from bspec [OF this assms(2)] show ?thesis using assms(3,4) by blast
qed

text \<open>What the standard promises about a successful allocation: the new block overlaps no live
  block (the one it replaces excepted), and comes from the heap.\<close>

locale allocator =
  fixes al :: alloc and heap :: "addr set"
  assumes al_fresh: "al bs p n = q \<Longrightarrow> q \<noteq> 0 \<Longrightarrow> (b, k) \<in> set bs \<Longrightarrow> b \<noteq> p \<Longrightarrow>
      b \<noteq> q \<and> region b k \<inter> region q n = {}"
    and al_heap: "al bs p n = q \<Longrightarrow> q \<noteq> 0 \<Longrightarrow> region q n \<subseteq> heap"
begin

lemma realloc_changes_only: "changes_only heap m (snd (c_realloc al m p n))"
proof (cases "al (live m) p n = 0")
  case True
  then show ?thesis by (simp add: c_realloc_def)
next
  case False
  let ?q = "al (live m) p n" and ?k = "min (block_size m p) n"
  from False have "region ?q n \<subseteq> heap" by (rule al_heap [OF refl])
  moreover have "region ?q ?k \<subseteq> region ?q n" by (rule region_mono) auto
  ultimately have "region ?q ?k \<subseteq> heap" by blast
  with False show ?thesis
    by (auto simp: c_realloc_def Let_def changes_only_def mbytes_store_bytes simp del: in_region)
qed

lemma realloc_live:
  assumes "c_realloc al m p n = (q, m')" and "q \<noteq> 0"
  shows "live m' = (q, n) # filter (\<lambda>(b, k). b \<noteq> p) (live m) \<or>
         live m' = (q, n) # live m \<and> (p = 0 \<or> p \<notin> fst ` set (live m))"
  using assms by (auto simp: c_realloc_def Let_def c_free_def split: if_splits)

lemma realloc_blocks_disjoint:
  assumes "blocks_disjoint (live m)" and "c_realloc al m p n = (q, m')"
  shows "blocks_disjoint (live m')"
proof (cases "q = 0")
  case True
  with assms show ?thesis
    by (auto simp: c_realloc_def Let_def split: if_splits)
next
  case False
  from assms(2) False have q: "al (live m) p n = q"
    by (auto simp: c_realloc_def Let_def split: if_splits)
  have fresh: "b \<noteq> q \<and> region b k \<inter> region q n = {}" if "(b, k) \<in> set (live m)" "b \<noteq> p" for b k
    using al_fresh [OF q False that] .
  from assms(1) have no0: "0 \<notin> fst ` set (live m)" by (simp add: blocks_disjoint_def)
  have live': "live m' = (q, n) # filter (\<lambda>(b, k). b \<noteq> p) (live m)"
  proof -
    have "filter (\<lambda>(b, k). b \<noteq> p) (live m) = live m" if "p = 0 \<or> p \<notin> fst ` set (live m)"
      using that no0 by (intro filter_True) force
    with realloc_live [OF assms(2) False] show ?thesis by auto
  qed
  let ?rest = "filter (\<lambda>(b, k). b \<noteq> p) (live m)"
  have "distinct (map fst ?rest)"
    using assms(1) by (simp add: blocks_disjoint_def distinct_map_filter)
  moreover have "q \<notin> fst ` set ?rest" and "0 \<notin> fst ` set ?rest"
    using fresh no0 by force+
  moreover have "region a j \<inter> region b k = {}"
    if "(a, j) \<in> set (live m')" "(b, k) \<in> set (live m')" "a \<noteq> b" for a j b k
  proof -
    have "region c i \<inter> region q n = {}" if "(c, i) \<in> set ?rest" for c i
      using fresh [of c i] that by auto
    moreover have "region a j \<inter> region b k = {}" if "(a, j) \<in> set ?rest" "(b, k) \<in> set ?rest"
      using blocks_disjointD [OF assms(1) _ _ \<open>a \<noteq> b\<close>] that by (simp del: in_region)
    ultimately show ?thesis
      using that \<open>a \<noteq> b\<close> unfolding live' by (auto simp del: in_region)
  qed
  ultimately show ?thesis
    using False unfolding blocks_disjoint_def live' by (auto simp del: in_region)
qed

end

text \<open>A first-fit-above-everything allocator: it satisfies the contract with the heap above
  \<open>base\<close>, and refuses requests that do not fit below \<open>limit\<close>.\<close>

definition bump_alloc :: "addr \<Rightarrow> addr \<Rightarrow> alloc" where
  "bump_alloc base limit bs p n =
     (let q = fold (\<lambda>(b, k) t. max t (b + max k 1)) bs (max 16 base)
      in if q + n \<le> limit then q else 0)"

lemma fold_max_ge: "t \<le> fold (\<lambda>(b, k) t. max t (b + max k 1)) bs t" for t :: nat
proof (induction bs arbitrary: t)
  case Nil
  then show ?case by simp
next
  case (Cons x bs)
  obtain b k where x: "x = (b, k)" by (cases x)
  have "t \<le> max t (b + max k 1)" by simp
  also have "\<dots> \<le> fold (\<lambda>(b, k) t. max t (b + max k 1)) bs (max t (b + max k 1))"
    by (rule Cons.IH)
  finally show ?case by (simp add: x)
qed

lemma fold_max_above:
  "(b, k) \<in> set bs \<Longrightarrow> b + max k 1 \<le> fold (\<lambda>(b, k) t. max t (b + max k 1)) bs t" for t :: nat
proof (induction bs arbitrary: t)
  case Nil
  then show ?case by simp
next
  case (Cons x bs)
  show ?case
  proof (cases "x = (b, k)")
    case True
    have "b + max k 1 \<le> max t (b + max k 1)" by simp
    also have "\<dots> \<le> fold (\<lambda>(b, k) t. max t (b + max k 1)) bs (max t (b + max k 1))"
      by (rule fold_max_ge)
    finally show ?thesis by (simp add: True)
  next
    case False
    with Cons show ?thesis by (cases x) auto
  qed
qed

interpretation bump: allocator "bump_alloc base limit" "{max 16 base..<limit}" for base limit
proof unfold_locales
  fix bs p n q b k
  assume q: "bump_alloc base limit bs p n = q" "q \<noteq> 0" and bk: "(b, k) \<in> set bs"
  from q have "q = fold (\<lambda>(b, k) t. max t (b + max k 1)) bs (max 16 base)"
    by (auto simp: bump_alloc_def Let_def split: if_splits)
  with fold_max_above [OF bk] have "b + max k 1 \<le> q" by simp
  then show "b \<noteq> q \<and> region b k \<inter> region q n = {}" by auto
next
  fix bs p n q
  assume q: "bump_alloc base limit bs p n = q" "q \<noteq> 0"
  then have "q = fold (\<lambda>(b, k) t. max t (b + max k 1)) bs (max 16 base)" and "q + n \<le> limit"
    by (auto simp: bump_alloc_def Let_def split: if_splits)
  moreover have "max 16 base \<le> fold (\<lambda>(b, k) t. max t (b + max k 1)) bs (max 16 base)"
    by (rule fold_max_ge)
  ultimately show "region q n \<subseteq> {max 16 base..<limit}" by auto
qed

end
