(* ===== verification/Pb_Types.thy ===== *)
theory Pb_Types
  imports C_Memory
begin

unbundle bit_operations_syntax

text \<open>
  The declarations of \<open>nanopb/pb.h\<close>: the type byte of a field and its three parts, the field
  descriptors, the macros that generate them from the layout of a C struct, wire types, and the
  error macros. The build defines \<open>PB_FIELD_32BIT\<close>, \<open>PB_NO_PACKED_STRUCTS\<close> and
  \<open>PB_ENABLE_MALLOC\<close> (Target Support Files/nanopb/nanopb.release.xcconfig).
\<close>

section \<open>The type byte\<close>

abbreviation (input) PB_MAX_REQUIRED_FIELDS :: nat where
  "PB_MAX_REQUIRED_FIELDS \<equiv> 64"

text \<open>Field data types: the low four bits.\<close>

abbreviation (input) PB_LTYPE_BOOL :: byte where "PB_LTYPE_BOOL \<equiv> 0x00"
abbreviation (input) PB_LTYPE_VARINT :: byte where "PB_LTYPE_VARINT \<equiv> 0x01"
abbreviation (input) PB_LTYPE_UVARINT :: byte where "PB_LTYPE_UVARINT \<equiv> 0x02"
abbreviation (input) PB_LTYPE_SVARINT :: byte where "PB_LTYPE_SVARINT \<equiv> 0x03"
abbreviation (input) PB_LTYPE_FIXED32 :: byte where "PB_LTYPE_FIXED32 \<equiv> 0x04"
abbreviation (input) PB_LTYPE_FIXED64 :: byte where "PB_LTYPE_FIXED64 \<equiv> 0x05"
abbreviation (input) PB_LTYPE_LAST_PACKABLE :: byte where "PB_LTYPE_LAST_PACKABLE \<equiv> 0x05"
abbreviation (input) PB_LTYPE_BYTES :: byte where "PB_LTYPE_BYTES \<equiv> 0x06"
abbreviation (input) PB_LTYPE_STRING :: byte where "PB_LTYPE_STRING \<equiv> 0x07"
abbreviation (input) PB_LTYPE_SUBMESSAGE :: byte where "PB_LTYPE_SUBMESSAGE \<equiv> 0x08"
abbreviation (input) PB_LTYPE_EXTENSION :: byte where "PB_LTYPE_EXTENSION \<equiv> 0x09"
abbreviation (input) PB_LTYPE_FIXED_LENGTH_BYTES :: byte where "PB_LTYPE_FIXED_LENGTH_BYTES \<equiv> 0x0A"

text \<open>Repetition rules and allocation types: the high four bits.\<close>

abbreviation (input) PB_HTYPE_REQUIRED :: byte where "PB_HTYPE_REQUIRED \<equiv> 0x00"
abbreviation (input) PB_HTYPE_OPTIONAL :: byte where "PB_HTYPE_OPTIONAL \<equiv> 0x10"
abbreviation (input) PB_HTYPE_REPEATED :: byte where "PB_HTYPE_REPEATED \<equiv> 0x20"
abbreviation (input) PB_HTYPE_ONEOF :: byte where "PB_HTYPE_ONEOF \<equiv> 0x30"

abbreviation (input) PB_ATYPE_STATIC :: byte where "PB_ATYPE_STATIC \<equiv> 0x00"
abbreviation (input) PB_ATYPE_POINTER :: byte where "PB_ATYPE_POINTER \<equiv> 0x80"
abbreviation (input) PB_ATYPE_CALLBACK :: byte where "PB_ATYPE_CALLBACK \<equiv> 0x40"

definition PB_ATYPE :: "byte \<Rightarrow> byte" where
  "PB_ATYPE x = x AND 0xC0"

definition PB_HTYPE :: "byte \<Rightarrow> byte" where
  "PB_HTYPE x = x AND 0x30"

definition PB_LTYPE :: "byte \<Rightarrow> byte" where
  "PB_LTYPE x = x AND 0x0F"

lemmas PB_TYPE_defs = PB_ATYPE_def PB_HTYPE_def PB_LTYPE_def

text \<open>\<open>pb_size_t\<close> is \<open>uint32_t\<close>.\<close>

abbreviation (input) PB_SIZE_MAX :: nat where
  "PB_SIZE_MAX \<equiv> 2 ^ 32 - 1"

text \<open>Every type byte has one of the four repetition rules, so the \<open>default\<close> branch of a switch
  over \<open>PB_HTYPE\<close> is dead code; \<open>PB_ATYPE\<close> has a fourth value, \<open>0xC0\<close>, which is not.\<close>

lemma PB_HTYPE_cases:
  obtains "PB_HTYPE x = PB_HTYPE_REQUIRED" | "PB_HTYPE x = PB_HTYPE_OPTIONAL"
        | "PB_HTYPE x = PB_HTYPE_REPEATED" | "PB_HTYPE x = PB_HTYPE_ONEOF"
proof -
  have "PB_HTYPE x = (if bit x 4 then 0x10 else 0) OR (if bit x 5 then 0x20 else 0)"
    unfolding PB_HTYPE_def by (rule bit_word_eqI) (auto simp: bit_simps numeral_eq_Suc less_Suc_eq)
  then show thesis using that by (auto split: if_splits)
qed

section \<open>Descriptors\<close>

text \<open>
  \<open>struct pb_field_s\<close>. The member \<open>ptr\<close> points to the descriptors of a submessage type, or to a
  default value, or is null; the members of type \<open>pb_size_t\<close> that enter address arithmetic only
  are natural numbers. A descriptor array is the list of its entries, the terminator included.
\<close>

datatype pb_field = PbField
  (tag: u32) (ftype: byte) (data_offset: nat) (size_offset: int)
  (data_size: nat) (array_size: nat) (fptr: pb_ptr)
and pb_ptr = Null | Default_value "byte list" | Submsg_fields "pb_field list"

definition PB_LAST_FIELD :: pb_field where
  "PB_LAST_FIELD = PbField 0 0 0 0 0 0 Null"

text \<open>Casts of \<open>ptr\<close>: to a descriptor array, and to a default value.\<close>

fun submsg_fields :: "pb_ptr \<Rightarrow> pb_field list" where
  "submsg_fields (Submsg_fields fs) = fs"
| "submsg_fields _ = [PB_LAST_FIELD]"

text \<open>\<open>fields[i]\<close>. Reading past the array is undefined in C; the model finds the terminator there.\<close>

definition field_at :: "pb_field list \<Rightarrow> nat \<Rightarrow> pb_field" where
  "field_at fs i = (if i < length fs then fs ! i else PB_LAST_FIELD)"

section \<open>Struct layout and the descriptor macros\<close>

text \<open>
  A struct is the list of its members with the size and alignment of each, and the size of the
  element \<open>m[0]\<close> for arrays and pointers. Members are placed in order, each at the next multiple
  of its alignment.
\<close>

datatype cmember = Member (mname: string) (msize: nat) (malign: nat) (melem: nat)

type_synonym cstruct = "cmember list"

definition align_up :: "nat \<Rightarrow> nat \<Rightarrow> nat" where
  "align_up off al = ((off + al - 1) div al) * al"

fun offset_from :: "nat \<Rightarrow> cstruct \<Rightarrow> string \<Rightarrow> nat" where
  "offset_from off [] m = off"
| "offset_from off (x # xs) m =
     (let start = align_up off (malign x)
      in if mname x = m then start else offset_from (start + msize x) xs m)"

definition c_offsetof :: "cstruct \<Rightarrow> string \<Rightarrow> nat" where
  "c_offsetof st m = offset_from 0 st m"

fun end_from :: "nat \<Rightarrow> cstruct \<Rightarrow> nat" where
  "end_from off [] = off"
| "end_from off (x # xs) = end_from (align_up off (malign x) + msize x) xs"

definition c_alignof :: "cstruct \<Rightarrow> nat" where
  "c_alignof st = foldr (\<lambda>x. max (malign x)) st 1"

definition c_sizeof :: "cstruct \<Rightarrow> nat" where
  "c_sizeof st = align_up (end_from 0 st) (c_alignof st)"

fun find_member :: "cstruct \<Rightarrow> string \<Rightarrow> cmember" where
  "find_member [] m = Member m 0 1 0"
| "find_member (x # xs) m = (if mname x = m then x else find_member xs m)"

definition pb_membersize :: "cstruct \<Rightarrow> string \<Rightarrow> nat" where
  "pb_membersize st m = msize (find_member st m)"

definition pb_elemsize :: "cstruct \<Rightarrow> string \<Rightarrow> nat" where
  "pb_elemsize st m = melem (find_member st m)"

definition pb_arraysize :: "cstruct \<Rightarrow> string \<Rightarrow> nat" where
  "pb_arraysize st m = pb_membersize st m div pb_elemsize st m"

definition pb_delta :: "cstruct \<Rightarrow> string \<Rightarrow> string \<Rightarrow> int" where
  "pb_delta st m1 m2 = int (c_offsetof st m1) - int (c_offsetof st m2)"

definition PB_DATAOFFSET_FIRST :: "cstruct \<Rightarrow> string \<Rightarrow> string \<Rightarrow> nat" where
  "PB_DATAOFFSET_FIRST st m1 m2 = c_offsetof st m1"

definition PB_DATAOFFSET_OTHER :: "cstruct \<Rightarrow> string \<Rightarrow> string \<Rightarrow> nat" where
  "PB_DATAOFFSET_OTHER st m1 m2 = c_offsetof st m1 - c_offsetof st m2 - pb_membersize st m2"

definition PB_DATAOFFSET_UNION :: "cstruct \<Rightarrow> string \<Rightarrow> string \<Rightarrow> nat" where
  "PB_DATAOFFSET_UNION st m1 m2 = PB_SIZE_MAX"

definition PB_DATAOFFSET_CHOOSE :: "cstruct \<Rightarrow> string \<Rightarrow> string \<Rightarrow> nat" where
  "PB_DATAOFFSET_CHOOSE st m1 m2 =
     (if c_offsetof st m1 = c_offsetof st m2 then PB_DATAOFFSET_FIRST st m1 m2
      else PB_DATAOFFSET_OTHER st m1 m2)"

definition PB_REQUIRED_STATIC :: "u32 \<Rightarrow> cstruct \<Rightarrow> string \<Rightarrow> nat \<Rightarrow> byte \<Rightarrow> pb_ptr \<Rightarrow> pb_field" where
  "PB_REQUIRED_STATIC tg st m fd lt p =
     PbField tg (PB_ATYPE_STATIC OR PB_HTYPE_REQUIRED OR lt) fd 0 (pb_membersize st m) 0 p"

definition PB_OPTIONAL_STATIC :: "u32 \<Rightarrow> cstruct \<Rightarrow> string \<Rightarrow> nat \<Rightarrow> byte \<Rightarrow> pb_ptr \<Rightarrow> pb_field" where
  "PB_OPTIONAL_STATIC tg st m fd lt p =
     PbField tg (PB_ATYPE_STATIC OR PB_HTYPE_OPTIONAL OR lt) fd (pb_delta st (''has_'' @ m) m)
       (pb_membersize st m) 0 p"

definition PB_SINGULAR_STATIC :: "u32 \<Rightarrow> cstruct \<Rightarrow> string \<Rightarrow> nat \<Rightarrow> byte \<Rightarrow> pb_ptr \<Rightarrow> pb_field" where
  "PB_SINGULAR_STATIC tg st m fd lt p =
     PbField tg (PB_ATYPE_STATIC OR PB_HTYPE_OPTIONAL OR lt) fd 0 (pb_membersize st m) 0 p"

definition PB_REPEATED_STATIC :: "u32 \<Rightarrow> cstruct \<Rightarrow> string \<Rightarrow> nat \<Rightarrow> byte \<Rightarrow> pb_ptr \<Rightarrow> pb_field" where
  "PB_REPEATED_STATIC tg st m fd lt p =
     PbField tg (PB_ATYPE_STATIC OR PB_HTYPE_REPEATED OR lt) fd (pb_delta st (m @ ''_count'') m)
       (pb_elemsize st m) (pb_arraysize st m) p"

definition PB_REQUIRED_POINTER :: "u32 \<Rightarrow> cstruct \<Rightarrow> string \<Rightarrow> nat \<Rightarrow> byte \<Rightarrow> pb_ptr \<Rightarrow> pb_field" where
  "PB_REQUIRED_POINTER tg st m fd lt p =
     PbField tg (PB_ATYPE_POINTER OR PB_HTYPE_REQUIRED OR lt) fd 0 (pb_elemsize st m) 0 p"

definition PB_OPTIONAL_POINTER :: "u32 \<Rightarrow> cstruct \<Rightarrow> string \<Rightarrow> nat \<Rightarrow> byte \<Rightarrow> pb_ptr \<Rightarrow> pb_field" where
  "PB_OPTIONAL_POINTER tg st m fd lt p =
     PbField tg (PB_ATYPE_POINTER OR PB_HTYPE_OPTIONAL OR lt) fd 0 (pb_elemsize st m) 0 p"

definition PB_SINGULAR_POINTER :: "u32 \<Rightarrow> cstruct \<Rightarrow> string \<Rightarrow> nat \<Rightarrow> byte \<Rightarrow> pb_ptr \<Rightarrow> pb_field" where
  "PB_SINGULAR_POINTER tg st m fd lt p =
     PbField tg (PB_ATYPE_POINTER OR PB_HTYPE_OPTIONAL OR lt) fd 0 (pb_elemsize st m) 0 p"

definition PB_REPEATED_POINTER :: "u32 \<Rightarrow> cstruct \<Rightarrow> string \<Rightarrow> nat \<Rightarrow> byte \<Rightarrow> pb_ptr \<Rightarrow> pb_field" where
  "PB_REPEATED_POINTER tg st m fd lt p =
     PbField tg (PB_ATYPE_POINTER OR PB_HTYPE_REPEATED OR lt) fd (pb_delta st (m @ ''_count'') m)
       (pb_elemsize st m) 0 p"

definition PB_REQUIRED_CALLBACK :: "u32 \<Rightarrow> cstruct \<Rightarrow> string \<Rightarrow> nat \<Rightarrow> byte \<Rightarrow> pb_ptr \<Rightarrow> pb_field" where
  "PB_REQUIRED_CALLBACK tg st m fd lt p =
     PbField tg (PB_ATYPE_CALLBACK OR PB_HTYPE_REQUIRED OR lt) fd 0 (pb_membersize st m) 0 p"

definition PB_OPTIONAL_CALLBACK :: "u32 \<Rightarrow> cstruct \<Rightarrow> string \<Rightarrow> nat \<Rightarrow> byte \<Rightarrow> pb_ptr \<Rightarrow> pb_field" where
  "PB_OPTIONAL_CALLBACK tg st m fd lt p =
     PbField tg (PB_ATYPE_CALLBACK OR PB_HTYPE_OPTIONAL OR lt) fd 0 (pb_membersize st m) 0 p"

definition PB_REPEATED_CALLBACK :: "u32 \<Rightarrow> cstruct \<Rightarrow> string \<Rightarrow> nat \<Rightarrow> byte \<Rightarrow> pb_ptr \<Rightarrow> pb_field" where
  "PB_REPEATED_CALLBACK tg st m fd lt p =
     PbField tg (PB_ATYPE_CALLBACK OR PB_HTYPE_REPEATED OR lt) fd 0 (pb_membersize st m) 0 p"

definition PB_OPTEXT_STATIC :: "u32 \<Rightarrow> cstruct \<Rightarrow> string \<Rightarrow> nat \<Rightarrow> byte \<Rightarrow> pb_ptr \<Rightarrow> pb_field" where
  "PB_OPTEXT_STATIC tg st m fd lt p =
     PbField tg (PB_ATYPE_STATIC OR PB_HTYPE_REQUIRED OR lt) 0 0 (pb_membersize st m) 0 p"

definition PB_REPEATED_FIXED_COUNT :: "u32 \<Rightarrow> cstruct \<Rightarrow> string \<Rightarrow> nat \<Rightarrow> byte \<Rightarrow> pb_ptr \<Rightarrow> pb_field" where
  "PB_REPEATED_FIXED_COUNT tg st m fd lt p =
     PbField tg (PB_ATYPE_STATIC OR PB_HTYPE_REPEATED OR lt) fd 0
       (pb_elemsize st m) (pb_arraysize st m) p"

definition PB_ONEOF_STATIC :: "string \<Rightarrow> u32 \<Rightarrow> cstruct \<Rightarrow> string \<Rightarrow> nat \<Rightarrow> byte \<Rightarrow> pb_ptr \<Rightarrow> pb_field" where
  "PB_ONEOF_STATIC u tg st m fd lt p =
     PbField tg (PB_ATYPE_STATIC OR PB_HTYPE_ONEOF OR lt) fd (pb_delta st (''which_'' @ u) m)
       (pb_membersize st m) 0 p"

definition PB_ONEOF_POINTER :: "string \<Rightarrow> u32 \<Rightarrow> cstruct \<Rightarrow> string \<Rightarrow> nat \<Rightarrow> byte \<Rightarrow> pb_ptr \<Rightarrow> pb_field" where
  "PB_ONEOF_POINTER u tg st m fd lt p =
     PbField tg (PB_ATYPE_POINTER OR PB_HTYPE_ONEOF OR lt) fd (pb_delta st (''which_'' @ u) m)
       (pb_elemsize st m) 0 p"

definition PB_SINGULAR_CALLBACK :: "u32 \<Rightarrow> cstruct \<Rightarrow> string \<Rightarrow> nat \<Rightarrow> byte \<Rightarrow> pb_ptr \<Rightarrow> pb_field" where
  "PB_SINGULAR_CALLBACK tg st m fd lt p =
     PbField tg (PB_ATYPE_CALLBACK OR PB_HTYPE_OPTIONAL OR lt) fd 0 (pb_membersize st m) 0 p"

definition PB_OPTEXT_POINTER :: "u32 \<Rightarrow> cstruct \<Rightarrow> string \<Rightarrow> nat \<Rightarrow> byte \<Rightarrow> pb_ptr \<Rightarrow> pb_field" where
  "PB_OPTEXT_POINTER tg st m fd lt p = PB_OPTIONAL_POINTER tg st m fd lt p"

definition PB_OPTEXT_CALLBACK :: "u32 \<Rightarrow> cstruct \<Rightarrow> string \<Rightarrow> nat \<Rightarrow> byte \<Rightarrow> pb_ptr \<Rightarrow> pb_field" where
  "PB_OPTEXT_CALLBACK tg st m fd lt p = PB_OPTIONAL_CALLBACK tg st m fd lt p"

text \<open>The arguments of \<open>PB_FIELD\<close> that the preprocessor pastes into macro names.\<close>

datatype pb_type_name =
  BOOL | BYTES | DOUBLE | ENUM | UENUM | FIXED32 | FIXED64 | FLOAT | INT32 | INT64 | MESSAGE
| SFIXED32 | SFIXED64 | SINT32 | SINT64 | STRING | UINT32 | UINT64 | EXTENSION
| FIXED_LENGTH_BYTES

datatype pb_rules = REQUIRED | OPTIONAL | SINGULAR | REPEATED | OPTEXT
datatype pb_allocation = STATIC | POINTER | CALLBACK
datatype pb_placement = FIRST | OTHER | UNION | CHOOSE

fun PB_LTYPE_MAP :: "pb_type_name \<Rightarrow> byte" where
  "PB_LTYPE_MAP BOOL = PB_LTYPE_BOOL"
| "PB_LTYPE_MAP BYTES = PB_LTYPE_BYTES"
| "PB_LTYPE_MAP DOUBLE = PB_LTYPE_FIXED64"
| "PB_LTYPE_MAP ENUM = PB_LTYPE_VARINT"
| "PB_LTYPE_MAP UENUM = PB_LTYPE_UVARINT"
| "PB_LTYPE_MAP FIXED32 = PB_LTYPE_FIXED32"
| "PB_LTYPE_MAP FIXED64 = PB_LTYPE_FIXED64"
| "PB_LTYPE_MAP FLOAT = PB_LTYPE_FIXED32"
| "PB_LTYPE_MAP INT32 = PB_LTYPE_VARINT"
| "PB_LTYPE_MAP INT64 = PB_LTYPE_VARINT"
| "PB_LTYPE_MAP MESSAGE = PB_LTYPE_SUBMESSAGE"
| "PB_LTYPE_MAP SFIXED32 = PB_LTYPE_FIXED32"
| "PB_LTYPE_MAP SFIXED64 = PB_LTYPE_FIXED64"
| "PB_LTYPE_MAP SINT32 = PB_LTYPE_SVARINT"
| "PB_LTYPE_MAP SINT64 = PB_LTYPE_SVARINT"
| "PB_LTYPE_MAP STRING = PB_LTYPE_STRING"
| "PB_LTYPE_MAP UINT32 = PB_LTYPE_UVARINT"
| "PB_LTYPE_MAP UINT64 = PB_LTYPE_UVARINT"
| "PB_LTYPE_MAP EXTENSION = PB_LTYPE_EXTENSION"
| "PB_LTYPE_MAP FIXED_LENGTH_BYTES = PB_LTYPE_FIXED_LENGTH_BYTES"

fun PB_DATAOFFSET :: "pb_placement \<Rightarrow> cstruct \<Rightarrow> string \<Rightarrow> string \<Rightarrow> nat" where
  "PB_DATAOFFSET FIRST = PB_DATAOFFSET_FIRST"
| "PB_DATAOFFSET OTHER = PB_DATAOFFSET_OTHER"
| "PB_DATAOFFSET UNION = PB_DATAOFFSET_UNION"
| "PB_DATAOFFSET CHOOSE = PB_DATAOFFSET_CHOOSE"

fun PB_RULES :: "pb_rules \<Rightarrow> pb_allocation \<Rightarrow>
    u32 \<Rightarrow> cstruct \<Rightarrow> string \<Rightarrow> nat \<Rightarrow> byte \<Rightarrow> pb_ptr \<Rightarrow> pb_field" where
  "PB_RULES REQUIRED STATIC = PB_REQUIRED_STATIC"
| "PB_RULES REQUIRED POINTER = PB_REQUIRED_POINTER"
| "PB_RULES REQUIRED CALLBACK = PB_REQUIRED_CALLBACK"
| "PB_RULES OPTIONAL STATIC = PB_OPTIONAL_STATIC"
| "PB_RULES OPTIONAL POINTER = PB_OPTIONAL_POINTER"
| "PB_RULES OPTIONAL CALLBACK = PB_OPTIONAL_CALLBACK"
| "PB_RULES SINGULAR STATIC = PB_SINGULAR_STATIC"
| "PB_RULES SINGULAR POINTER = PB_SINGULAR_POINTER"
| "PB_RULES SINGULAR CALLBACK = PB_SINGULAR_CALLBACK"
| "PB_RULES REPEATED STATIC = PB_REPEATED_STATIC"
| "PB_RULES REPEATED POINTER = PB_REPEATED_POINTER"
| "PB_RULES REPEATED CALLBACK = PB_REPEATED_CALLBACK"
| "PB_RULES OPTEXT STATIC = PB_OPTEXT_STATIC"
| "PB_RULES OPTEXT POINTER = PB_OPTEXT_POINTER"
| "PB_RULES OPTEXT CALLBACK = PB_OPTEXT_CALLBACK"

definition PB_FIELD :: "u32 \<Rightarrow> pb_type_name \<Rightarrow> pb_rules \<Rightarrow> pb_allocation \<Rightarrow> pb_placement \<Rightarrow>
    cstruct \<Rightarrow> string \<Rightarrow> string \<Rightarrow> pb_ptr \<Rightarrow> pb_field" where
  "PB_FIELD tg ty rules allocation placement message field prevfield p =
     PB_RULES rules allocation tg message field
       (PB_DATAOFFSET placement message field prevfield) (PB_LTYPE_MAP ty) p"

lemmas PB_FIELD_defs = PB_FIELD_def PB_SINGULAR_CALLBACK_def PB_OPTEXT_POINTER_def
  PB_OPTEXT_CALLBACK_def PB_DATAOFFSET_CHOOSE_def
  PB_DATAOFFSET_FIRST_def PB_DATAOFFSET_OTHER_def PB_DATAOFFSET_UNION_def
  PB_REQUIRED_STATIC_def PB_OPTIONAL_STATIC_def PB_SINGULAR_STATIC_def PB_REPEATED_STATIC_def
  PB_REQUIRED_POINTER_def PB_OPTIONAL_POINTER_def PB_SINGULAR_POINTER_def PB_REPEATED_POINTER_def
  PB_REQUIRED_CALLBACK_def PB_OPTIONAL_CALLBACK_def PB_REPEATED_CALLBACK_def PB_OPTEXT_STATIC_def
  PB_REPEATED_FIXED_COUNT_def PB_ONEOF_STATIC_def PB_ONEOF_POINTER_def

section \<open>Wire types\<close>

text \<open>\<open>pb_wire_type_t\<close>; a decoded wire type is the cast of any value from 0 to 7.\<close>

abbreviation (input) PB_WT_VARINT :: u32 where "PB_WT_VARINT \<equiv> 0"
abbreviation (input) PB_WT_64BIT :: u32 where "PB_WT_64BIT \<equiv> 1"
abbreviation (input) PB_WT_STRING :: u32 where "PB_WT_STRING \<equiv> 2"
abbreviation (input) PB_WT_32BIT :: u32 where "PB_WT_32BIT \<equiv> 5"

section \<open>Error messages\<close>

text \<open>\<open>PB_SET_ERROR\<close> on the member \<open>errmsg\<close>: the first message stays.\<close>

definition PB_SET_ERROR :: "string option \<Rightarrow> string \<Rightarrow> string option" where
  "PB_SET_ERROR e msg = (case e of None \<Rightarrow> Some msg | Some old \<Rightarrow> Some old)"

definition PB_GET_ERROR :: "string option \<Rightarrow> string" where
  "PB_GET_ERROR e = (case e of None \<Rightarrow> ''(none)'' | Some msg \<Rightarrow> msg)"

lemma PB_SET_ERROR_not_None [simp]: "PB_SET_ERROR e msg \<noteq> None"
  by (simp add: PB_SET_ERROR_def split: option.splits)

lemma PB_SET_ERROR_keeps [simp]: "e \<noteq> None \<Longrightarrow> PB_SET_ERROR e msg = e"
  by (auto simp: PB_SET_ERROR_def)

section \<open>Extensions\<close>

text \<open>
  \<open>struct pb_extension_s\<close> lives in memory: \<open>type\<close>, \<open>dest\<close>, \<open>next\<close> and \<open>found\<close> at offsets 0,
  8, 16 and 24. The constant \<open>pb_extension_type_t\<close> it points to holds two function pointers
  (0 is null) and the descriptor array \<open>arg\<close>.
\<close>

record pb_extension_type =
  ext_decode :: nat
  ext_encode :: nat
  ext_arg :: "pb_field list"

definition ext_type_ptr :: "cmem \<Rightarrow> addr \<Rightarrow> addr" where
  "ext_type_ptr m e = load_ptr m e"

definition ext_dest_addr :: "addr \<Rightarrow> addr" where
  "ext_dest_addr e = e + 8"

definition ext_next :: "cmem \<Rightarrow> addr \<Rightarrow> addr" where
  "ext_next m e = load_ptr m (e + 16)"

definition ext_found_addr :: "addr \<Rightarrow> addr" where
  "ext_found_addr e = e + 24"

section \<open>Byte arrays and callbacks\<close>

text \<open>\<open>struct pb_bytes_array_s\<close> has the member \<open>size\<close> at offset 0 and the bytes at offset 4.\<close>

definition PB_BYTES_ARRAY_T_ALLOCSIZE :: "nat \<Rightarrow> nat" where
  "PB_BYTES_ARRAY_T_ALLOCSIZE n = size_add n 4"

text \<open>\<open>struct pb_callback_s\<close>: the function pointer at offset 0 (the union \<open>funcs\<close>), \<open>arg\<close> at 8.\<close>

definition callback_funcs :: "cmem \<Rightarrow> addr \<Rightarrow> addr" where
  "callback_funcs m p = load_ptr m p"

definition callback_arg_addr :: "addr \<Rightarrow> addr" where
  "callback_arg_addr p = p + 8"

end
