(* ===== verification/Pb_Common.thy ===== *)
theory Pb_Common
  imports Pb_Types
begin

text \<open>
  The field iterator of \<open>nanopb/pb_common.c\<close>: it walks a descriptor array together with the
  addresses of the fields of one message struct. Shown here: the iterator visits the fields in
  order and wraps around, its addresses are a function of its position, and a search finds a field
  with the wanted tag from any position or leaves the iterator as it was.
\<close>

section \<open>The iterator\<close>

text \<open>\<open>pSize\<close> points into memory, or to the local variable \<open>fixed_count_size\<close> of
  \<open>pb_decode_noinit\<close>, which has no address in the model.\<close>

datatype psize = At addr | Fixed_count_size

record pb_field_iter =
  start :: "pb_field list"
  pos :: nat
  required_field_index :: nat
  dest_struct :: addr
  pData :: addr
  pSize :: psize

abbreviation cur :: "pb_field_iter \<Rightarrow> pb_field" where
  "cur it \<equiv> field_at (start it) (pos it)"

text \<open>\<open>(char*)p + size_offset\<close>.\<close>

definition ptr_offset :: "addr \<Rightarrow> int \<Rightarrow> addr" where
  "ptr_offset p d = nat (int p + d)"

definition pb_field_iter_begin :: "pb_field list \<Rightarrow> addr \<Rightarrow> bool \<times> pb_field_iter" where
  "pb_field_iter_begin fs dest =
     (let f = field_at fs 0;
          pd = dest + data_offset f
      in (tag f \<noteq> 0,
          \<lparr>start = fs, pos = 0, required_field_index = 0, dest_struct = dest,
           pData = pd, pSize = At (ptr_offset pd (size_offset f))\<rparr>))"

text \<open>The bytes the previous field takes in the struct.\<close>

definition pb_prev_size :: "pb_field \<Rightarrow> nat" where
  "pb_prev_size f =
     (if PB_ATYPE (ftype f) = PB_ATYPE_STATIC \<and> PB_HTYPE (ftype f) = PB_HTYPE_REPEATED
      then data_size f * array_size f
      else if PB_ATYPE (ftype f) = PB_ATYPE_POINTER then 8
      else data_size f)"

definition pb_field_iter_next :: "pb_field_iter \<Rightarrow> bool \<times> pb_field_iter" where
  "pb_field_iter_next it =
     (let prev = cur it in
      if tag prev = 0 then (False, it)
      else
        let it1 = it\<lparr>pos := pos it + 1\<rparr>; f = cur it1 in
        if tag f = 0 then (False, snd (pb_field_iter_begin (start it) (dest_struct it)))
        else if PB_HTYPE (ftype prev) = PB_HTYPE_ONEOF \<and> PB_HTYPE (ftype f) = PB_HTYPE_ONEOF
                \<and> data_offset f = PB_SIZE_MAX
        then (True, it1)
        else
          let it2 = (if PB_HTYPE (ftype prev) = PB_HTYPE_REQUIRED
                     then it1\<lparr>required_field_index := required_field_index it1 + 1\<rparr> else it1);
              pd = pData it2 + pb_prev_size prev + data_offset f
          in (True, it2\<lparr>pData := pd, pSize := At (ptr_offset pd (size_offset f))\<rparr>))"

text \<open>The \<open>do ... while\<close> loop of \<open>pb_field_iter_find\<close>; \<open>n\<close> bounds the number of rounds.\<close>

fun iter_find_loop :: "nat \<Rightarrow> (pb_field \<Rightarrow> bool) \<Rightarrow> nat \<Rightarrow> pb_field_iter \<Rightarrow> bool \<times> pb_field_iter" where
  "iter_find_loop 0 P st it = (False, it)"
| "iter_find_loop (Suc n) P st it =
     (if P (cur it) then (True, it)
      else let it1 = snd (pb_field_iter_next it)
           in if pos it1 \<noteq> st then iter_find_loop n P st it1 else (False, it1))"

definition pb_field_iter_find :: "pb_field_iter \<Rightarrow> u32 \<Rightarrow> bool \<times> pb_field_iter" where
  "pb_field_iter_find it tg =
     iter_find_loop (length (start it) + 1)
       (\<lambda>f. tag f = tg \<and> PB_LTYPE (ftype f) \<noteq> PB_LTYPE_EXTENSION) (pos it) it"

section \<open>Positions\<close>

text \<open>A descriptor array is terminated: the last entry, and no other, has tag zero.\<close>

definition terminated :: "pb_field list \<Rightarrow> bool" where
  "terminated fs \<longleftrightarrow> fs \<noteq> [] \<and> tag (last fs) = 0 \<and> list_all (\<lambda>f. tag f \<noteq> 0) (butlast fs)"

abbreviation nfields :: "pb_field list \<Rightarrow> nat" where
  "nfields fs \<equiv> length fs - 1"

text \<open>The iterator after \<open>k\<close> steps from the start of the struct at \<open>base\<close>.\<close>

fun iter_at :: "pb_field list \<Rightarrow> addr \<Rightarrow> nat \<Rightarrow> pb_field_iter" where
  "iter_at fs base 0 = snd (pb_field_iter_begin fs base)"
| "iter_at fs base (Suc k) = snd (pb_field_iter_next (iter_at fs base k))"

lemma terminated_tag:
  assumes "terminated fs"
  shows "tag (field_at fs k) = 0 \<longleftrightarrow> nfields fs \<le> k"
proof (cases "k < nfields fs")
  case True
  then have "field_at fs k \<in> set (butlast fs)"
    by (auto simp: field_at_def in_set_conv_nth nth_butlast intro!: exI [of _ k])
  with assms True show ?thesis by (auto simp: terminated_def list_all_iff)
next
  case False
  show ?thesis
  proof (cases "k < length fs")
    case True
    with False have "k = length fs - 1" by simp
    with True assms have "field_at fs k = last fs"
      by (simp add: field_at_def terminated_def last_conv_nth)
    with assms False show ?thesis by (simp add: terminated_def)
  next
    case False
    with \<open>\<not> k < nfields fs\<close> show ?thesis by (simp add: field_at_def PB_LAST_FIELD_def)
  qed
qed

lemma iter_begin_simps [simp]:
  "start (snd (pb_field_iter_begin fs b)) = fs"
  "pos (snd (pb_field_iter_begin fs b)) = 0"
  "required_field_index (snd (pb_field_iter_begin fs b)) = 0"
  "dest_struct (snd (pb_field_iter_begin fs b)) = b"
  "pData (snd (pb_field_iter_begin fs b)) = b + data_offset (field_at fs 0)"
  "pSize (snd (pb_field_iter_begin fs b)) =
     At (ptr_offset (b + data_offset (field_at fs 0)) (size_offset (field_at fs 0)))"
  "fst (pb_field_iter_begin fs b) \<longleftrightarrow> tag (field_at fs 0) \<noteq> 0"
  by (simp_all add: pb_field_iter_begin_def Let_def)

lemma iter_next_frame [simp]:
  "start (snd (pb_field_iter_next it)) = start it"
  "dest_struct (snd (pb_field_iter_next it)) = dest_struct it"
  by (simp_all add: pb_field_iter_next_def Let_def)

lemma iter_next_pos:
  assumes "terminated (start it)" and "pos it < nfields (start it)"
  shows "pos (snd (pb_field_iter_next it)) = (if pos it + 1 < nfields (start it) then pos it + 1 else 0)"
    and "fst (pb_field_iter_next it) \<longleftrightarrow> pos it + 1 < nfields (start it)"
  using assms by (auto simp: pb_field_iter_next_def Let_def terminated_tag)

lemma iter_at_frame [simp]:
  "start (iter_at fs b k) = fs" "dest_struct (iter_at fs b k) = b"
  by (induction k) simp_all

lemma iter_at_pos [simp]: "terminated fs \<Longrightarrow> k < nfields fs \<Longrightarrow> pos (iter_at fs b k) = k"
  by (induction k) (simp_all add: iter_next_pos)

lemma iter_at_wrap:
  assumes "terminated fs" and "k < nfields fs"
  shows "snd (pb_field_iter_next (iter_at fs b k)) =
     (if k + 1 < nfields fs then iter_at fs b (k + 1) else iter_at fs b 0)"
  using assms
  by (auto simp: pb_field_iter_next_def [of "iter_at fs b k"] Let_def terminated_tag)

text \<open>The required-field index of the iterator counts the required fields before it.\<close>

lemma iter_at_required:
  assumes "terminated fs" and "k < nfields fs"
  shows "required_field_index (iter_at fs b k) =
     length (filter (\<lambda>f. PB_HTYPE (ftype f) = PB_HTYPE_REQUIRED) (take k fs))"
  using assms
proof (induction k)
  case 0
  then show ?case by simp
next
  case (Suc k)
  then have k: "k < nfields fs" "k < length fs" "Suc k < length fs" by auto
  let ?req = "\<lambda>f. PB_HTYPE (ftype f) = PB_HTYPE_REQUIRED"
  have IH: "required_field_index (iter_at fs b k) = length (filter ?req (take k fs))"
    using Suc k by simp
  have tags: "tag (field_at fs k) \<noteq> 0" "tag (field_at fs (Suc k)) \<noteq> 0"
    using terminated_tag [OF Suc.prems(1)] Suc.prems(2) by simp_all
  have "required_field_index (iter_at fs b (Suc k)) =
      required_field_index (iter_at fs b k) + (if ?req (field_at fs k) then 1 else 0)"
    using tags k Suc.prems
    by (auto simp: pb_field_iter_next_def [of "iter_at fs b k"] Let_def)
  with IH k show ?case by (simp add: take_Suc_conv_app_nth field_at_def)
qed

section \<open>Searching\<close>

text \<open>One round of the search moves to the cyclically next position.\<close>

definition cyc_next :: "nat \<Rightarrow> nat \<Rightarrow> nat" where
  "cyc_next n k = (if k + 1 < n then k + 1 else 0)"

lemma cyc_next_less [simp]: "k < n \<Longrightarrow> cyc_next n k < n"
  by (simp add: cyc_next_def)

declare iter_at.simps [simp del]

lemma iter_find_loop_step:
  assumes "terminated fs" and "k < nfields fs"
  shows "iter_find_loop (Suc n) P st (iter_at fs b k) =
     (if P (field_at fs k) then (True, iter_at fs b k)
      else if cyc_next (nfields fs) k \<noteq> st
      then iter_find_loop n P st (iter_at fs b (cyc_next (nfields fs) k))
      else (False, iter_at fs b (cyc_next (nfields fs) k)))"
proof -
  let ?k' = "cyc_next (nfields fs) k"
  have nxt: "snd (pb_field_iter_next (iter_at fs b k)) = iter_at fs b ?k'"
    using iter_at_wrap [OF assms] by (simp add: cyc_next_def)
  have "pos (iter_at fs b ?k') = ?k'" using assms by simp
  with assms show ?thesis by (simp add: Let_def nxt)
qed

declare iter_find_loop.simps(2) [simp del]

lemma iter_find_loop_sound:
  assumes "terminated fs"
  shows "k < nfields fs \<Longrightarrow> iter_find_loop n P st (iter_at fs b k) = (True, it) \<Longrightarrow>
    \<exists>j < nfields fs. P (field_at fs j) \<and> it = iter_at fs b j"
proof (induction n arbitrary: k)
  case 0
  then show ?case by simp
next
  case (Suc n)
  show ?case
  proof (cases "P (field_at fs k)")
    case True
    with Suc.prems assms have "it = iter_at fs b k" by (simp add: iter_find_loop_step)
    with True Suc.prems(1) show ?thesis by blast
  next
    case False
    with Suc.prems assms
    have "iter_find_loop n P st (iter_at fs b (cyc_next (nfields fs) k)) = (True, it)"
      by (simp add: iter_find_loop_step split: if_splits)
    with Suc.IH Suc.prems(1) cyc_next_less show ?thesis by blast
  qed
qed

text \<open>The positions still to visit before the search is back at its start.\<close>

definition to_visit :: "nat \<Rightarrow> nat \<Rightarrow> nat \<Rightarrow> nat \<Rightarrow> bool" where
  "to_visit k st n j \<longleftrightarrow> j < n \<and> (if k < st then k \<le> j \<and> j < st else k \<le> j \<or> j < st)"

definition cyc_dist :: "nat \<Rightarrow> nat \<Rightarrow> nat \<Rightarrow> nat" where
  "cyc_dist n k st = (if k < st then st - k else n - k + st)"

lemma to_visit_step:
  "k < n \<Longrightarrow> st < n \<Longrightarrow> to_visit k st n j \<Longrightarrow>
     j = k \<or> cyc_next n k \<noteq> st \<and> to_visit (cyc_next n k) st n j"
  by (auto simp: to_visit_def cyc_next_def split: if_splits)

lemma cyc_dist_step:
  "k < n \<Longrightarrow> st < n \<Longrightarrow> cyc_next n k \<noteq> st \<Longrightarrow> cyc_dist n k st \<le> Suc i \<Longrightarrow>
     cyc_dist n (cyc_next n k) st \<le> i"
  by (auto simp: cyc_dist_def cyc_next_def split: if_splits)

lemma iter_find_loop_complete:
  assumes fs: "terminated fs" and st: "st < nfields fs"
  shows "k < nfields fs \<Longrightarrow> cyc_dist (nfields fs) k st \<le> n \<Longrightarrow>
     iter_find_loop n P st (iter_at fs b k) = (False, it) \<Longrightarrow>
     it = iter_at fs b st \<and> (\<forall>j. to_visit k st (nfields fs) j \<longrightarrow> \<not> P (field_at fs j))"
proof (induction n arbitrary: k)
  case 0
  with st have False by (auto simp: cyc_dist_def split: if_splits)
  then show ?case ..
next
  case (Suc n)
  let ?N = "nfields fs"
  note step = iter_find_loop_step [OF fs Suc.prems(1), of n P st b]
  from Suc.prems(3) step have notP: "\<not> P (field_at fs k)" by (auto split: if_splits)
  show ?case
  proof (cases "cyc_next ?N k = st")
    case True
    with Suc.prems(3) step notP have "it = iter_at fs b st" by simp
    with to_visit_step [OF Suc.prems(1) st] True notP show ?thesis by metis
  next
    case False
    with Suc.prems(3) step notP
    have "iter_find_loop n P st (iter_at fs b (cyc_next ?N k)) = (False, it)" by simp
    from Suc.IH [OF cyc_next_less [OF Suc.prems(1)] cyc_dist_step [OF Suc.prems(1) st False Suc.prems(2)] this]
    show ?thesis using to_visit_step [OF Suc.prems(1) st] notP by metis
  qed
qed

text \<open>A search from position \<open>k\<close>: what it returns says whether a matching field exists, and
  where the iterator is left.\<close>

lemma iter_find_spec:
  assumes fs: "terminated fs" and k: "k < nfields fs" and n: "length fs \<le> n"
    and r: "iter_find_loop n P k (iter_at fs b k) = (ok, it)"
  shows "ok \<longleftrightarrow> (\<exists>j < nfields fs. P (field_at fs j))"
    and "ok \<Longrightarrow> \<exists>j < nfields fs. P (field_at fs j) \<and> it = iter_at fs b j"
    and "\<not> ok \<Longrightarrow> it = iter_at fs b k"
proof -
  have sound: "\<exists>j < nfields fs. P (field_at fs j) \<and> it = iter_at fs b j" if ok
    using iter_find_loop_sound [OF fs k, of n P k b it] r that by simp
  have dist: "cyc_dist (nfields fs) k k \<le> n" using k n by (simp add: cyc_dist_def)
  have fail: "it = iter_at fs b k \<and> (\<forall>j < nfields fs. \<not> P (field_at fs j))" if "\<not> ok"
    using iter_find_loop_complete [OF fs k k dist, of P b it] that r
    by (auto simp: to_visit_def)
  show "ok \<longleftrightarrow> (\<exists>j < nfields fs. P (field_at fs j))" using sound fail by blast
  show "ok \<Longrightarrow> \<exists>j < nfields fs. P (field_at fs j) \<and> it = iter_at fs b j" by (rule sound)
  show "\<not> ok \<Longrightarrow> it = iter_at fs b k" using fail by blast
qed

section \<open>Walking over all fields\<close>

text \<open>The loop \<open>if (begin) do ... while (next)\<close> of the callers that do not touch the iterator: the
  iterators the body sees, in order.\<close>

fun iter_run :: "nat \<Rightarrow> pb_field_iter \<Rightarrow> pb_field_iter list" where
  "iter_run 0 it = []"
| "iter_run (Suc n) it =
     it # (case pb_field_iter_next it of (again, it1) \<Rightarrow> if again then iter_run n it1 else [])"

definition iter_all :: "pb_field list \<Rightarrow> addr \<Rightarrow> pb_field_iter list" where
  "iter_all fs dest =
     (case pb_field_iter_begin fs dest of (ok, it) \<Rightarrow> if ok then iter_run (length fs) it else [])"

lemma field_at_mem: "tag (field_at fs k) \<noteq> 0 \<Longrightarrow> field_at fs k \<in> set fs"
  by (auto simp: field_at_def PB_LAST_FIELD_def split: if_splits)

lemma iter_next_tag: "fst (pb_field_iter_next it) \<Longrightarrow> tag (cur (snd (pb_field_iter_next it))) \<noteq> 0"
  by (auto simp: pb_field_iter_next_def Let_def split: if_splits)

lemma iter_run_mem:
  "tag (cur it) \<noteq> 0 \<Longrightarrow> it' \<in> set (iter_run n it) \<Longrightarrow> start it' = start it \<and> tag (cur it') \<noteq> 0"
proof (induction n arbitrary: it)
  case 0
  then show ?case by simp
next
  case (Suc n)
  obtain again it1 where nxt: "pb_field_iter_next it = (again, it1)" by (cases "pb_field_iter_next it")
  have "again \<Longrightarrow> tag (cur it1) \<noteq> 0" "start it1 = start it"
    using iter_next_tag [of it] iter_next_frame(1) [of it] nxt by auto
  moreover have "it' = it \<or> again \<and> it' \<in> set (iter_run n it1)"
    using Suc.prems nxt by (auto split: if_splits)
  ultimately show ?case using Suc.IH [of it1] Suc.prems(1) by metis
qed

lemma iter_all_mem: "it \<in> set (iter_all fs b) \<Longrightarrow> start it = fs \<and> tag (cur it) \<noteq> 0 \<and> cur it \<in> set fs"
proof -
  assume it: "it \<in> set (iter_all fs b)"
  let ?it0 = "snd (pb_field_iter_begin fs b)"
  have "it \<in> set (iter_run (length fs) ?it0)" "tag (field_at fs 0) \<noteq> 0"
    using it iter_begin_simps(7) [of fs b]
    by (cases "pb_field_iter_begin fs b"; simp add: iter_all_def split: if_splits)+
  then have "start it = fs \<and> tag (cur it) \<noteq> 0"
    using iter_run_mem [of ?it0 it "length fs"] by auto
  then show ?thesis using field_at_mem [of fs "pos it"] by auto
qed

lemma iter_run_at:
  assumes "terminated fs"
  shows "k < nfields fs \<Longrightarrow> nfields fs \<le> k + n \<Longrightarrow>
     iter_run n (iter_at fs b k) = map (iter_at fs b) [k..<nfields fs]"
proof (induction n arbitrary: k)
  case 0
  then show ?case by simp
next
  case (Suc n)
  have "fst (pb_field_iter_next (iter_at fs b k)) \<longleftrightarrow> Suc k < nfields fs"
    using iter_next_pos(2) [of "iter_at fs b k"] assms Suc.prems by simp
  moreover have "snd (pb_field_iter_next (iter_at fs b k)) = iter_at fs b (Suc k)" if "Suc k < nfields fs"
    using iter_at_wrap [OF assms Suc.prems(1), of b] that by simp
  moreover have "[k..<nfields fs] = k # [Suc k..<nfields fs]"
    using Suc.prems by (simp add: upt_conv_Cons)
  ultimately show ?case using Suc.IH [of "Suc k"] Suc.prems by (auto split: prod.splits)
qed

text \<open>Every field is visited once, in the order of the descriptors.\<close>

lemma iter_all_eq: "terminated fs \<Longrightarrow> iter_all fs b = map (iter_at fs b) [0..<nfields fs]"
proof -
  assume fs: "terminated fs"
  have "fst (pb_field_iter_begin fs b) \<longleftrightarrow> 0 < nfields fs"
    using terminated_tag [OF fs, of 0] by (simp add: not_le)
  moreover have "snd (pb_field_iter_begin fs b) = iter_at fs b 0" by (simp add: iter_at.simps)
  ultimately have "pb_field_iter_begin fs b = (0 < nfields fs, iter_at fs b 0)" by (simp only: prod_eq_iff) simp
  then show ?thesis
    using iter_run_at [OF fs, of 0 "length fs" b] by (simp add: iter_all_def)
qed

lemma length_iter_all: "terminated fs \<Longrightarrow> length (iter_all fs b) = nfields fs"
  by (simp add: iter_all_eq)

end
