(* ===== verification/Pb_Streams.thy ===== *)
theory Pb_Streams
  imports Pb_Common
begin

text \<open>
  The two stream structs of \<open>nanopb/pb_decode.h\<close> and \<open>nanopb/pb_encode.h\<close>, and everything the
  library calls but does not contain: user stream callbacks, field and extension callbacks, the
  constant extension types, and the allocator. Those are the members of the record \<open>env\<close>, a
  parameter of the model.
\<close>

section \<open>Streams\<close>

text \<open>
  Function pointers are \<open>buf_read\<close>, \<open>buf_write\<close>, null, or a number for client code. The
  pointer \<open>state\<close> of a buffer stream points into a byte array. For input the array is constant, and
  the pointer is represented by the bytes from it to the end of the array; for output it is
  represented by the bytes stored before it.
\<close>

datatype in_callback = Buf_read | In_fn nat
datatype out_callback = Out_null | Buf_write | Out_fn nat

record pb_istream =
  icallback :: in_callback
  istate :: "byte list"
  bytes_left :: nat
  ierrmsg :: "string option"

record pb_ostream =
  ocallback :: out_callback
  ostate :: "byte list"
  max_size :: nat
  bytes_written :: nat
  oerrmsg :: "string option"

section \<open>Client code\<close>

text \<open>
  \<^item> \<open>in_fn i\<close>: the user's read callback number \<open>i\<close>, from its state and a byte count to the bytes
    it stores (\<open>None\<close> for a false return) and its new state;
  \<^item> \<open>out_fn i\<close>: the user's write callback, from its state and the bytes to success and new state;
  \<^item> \<open>dec_cb p\<close>, \<open>enc_cb p\<close>: the field callback with address \<open>p\<close>, given the descriptor, the
    address of \<open>arg\<close>, memory and stream;
  \<^item> \<open>ext_types p\<close>: the constant extension type at \<open>p\<close>; \<open>ext_dec_cb\<close>, \<open>ext_enc_cb\<close>: its
    custom handlers;
  \<^item> \<open>allocf\<close>: the allocator.
\<close>

record env =
  in_fn :: "nat \<Rightarrow> byte list \<Rightarrow> nat \<Rightarrow> byte list option \<times> byte list"
  out_fn :: "nat \<Rightarrow> byte list \<Rightarrow> byte list \<Rightarrow> bool \<times> byte list"
  dec_cb :: "addr \<Rightarrow> pb_field \<Rightarrow> addr \<Rightarrow> cmem \<Rightarrow> pb_istream \<Rightarrow> bool \<times> cmem \<times> pb_istream"
  enc_cb :: "addr \<Rightarrow> pb_field \<Rightarrow> addr \<Rightarrow> cmem \<Rightarrow> pb_ostream \<Rightarrow> bool \<times> pb_ostream"
  ext_types :: "addr \<Rightarrow> pb_extension_type"
  ext_dec_cb :: "nat \<Rightarrow> addr \<Rightarrow> u32 \<Rightarrow> u32 \<Rightarrow> cmem \<Rightarrow> pb_istream \<Rightarrow> bool \<times> cmem \<times> pb_istream"
  ext_enc_cb :: "nat \<Rightarrow> addr \<Rightarrow> cmem \<Rightarrow> pb_ostream \<Rightarrow> bool \<times> pb_ostream"
  allocf :: alloc

text \<open>\<open>PB_RETURN_ERROR\<close> on either kind of stream.\<close>

definition ierr :: "string \<Rightarrow> pb_istream \<Rightarrow> pb_istream" where
  "ierr msg s = s\<lparr>ierrmsg := PB_SET_ERROR (ierrmsg s) msg\<rparr>"

definition oerr :: "string \<Rightarrow> pb_ostream \<Rightarrow> bool \<times> pb_ostream" where
  "oerr msg s = (False, s\<lparr>oerrmsg := PB_SET_ERROR (oerrmsg s) msg\<rparr>)"

lemma ierr_simps [simp]:
  "icallback (ierr msg s) = icallback s" "istate (ierr msg s) = istate s"
  "bytes_left (ierr msg s) = bytes_left s" "ierrmsg (ierr msg s) = PB_SET_ERROR (ierrmsg s) msg"
  by (simp_all add: ierr_def)

lemma oerr_simps [simp]:
  "fst (oerr msg s) = False" "ocallback (snd (oerr msg s)) = ocallback s"
  "ostate (snd (oerr msg s)) = ostate s" "max_size (snd (oerr msg s)) = max_size s"
  "bytes_written (snd (oerr msg s)) = bytes_written s"
  "oerrmsg (snd (oerr msg s)) = PB_SET_ERROR (oerrmsg s) msg"
  by (simp_all add: oerr_def)

text \<open>An environment without client code, for closed examples.\<close>

definition plain_env :: "addr \<Rightarrow> addr \<Rightarrow> env" where
  "plain_env base limit =
     \<lparr>in_fn = (\<lambda>_ st _. (None, st)), out_fn = (\<lambda>_ st _. (False, st)),
      dec_cb = (\<lambda>_ _ _ m s. (False, m, s)), enc_cb = (\<lambda>_ _ _ _ s. (False, s)),
      ext_types = (\<lambda>_. \<lparr>ext_decode = 0, ext_encode = 0, ext_arg = [PB_LAST_FIELD]\<rparr>),
      ext_dec_cb = (\<lambda>_ _ _ _ m s. (False, m, s)), ext_enc_cb = (\<lambda>_ _ _ s. (False, s)),
      allocf = bump_alloc base limit\<rparr>"

end
