(* ===== verification/Varint.thy ===== *)
theory Varint
  imports Prelude
begin

unbundle bit_operations_syntax

text \<open>
  The base-128 numbers that both nanopb and leveldb write: their byte sequence, its length, and the
  bit-level facts the encoders and decoders of either library are verified with.
\<close>

section \<open>The byte sequence\<close>

text \<open>The base-128 representation of a number, least significant group first; every byte but the
  last has its top bit set.\<close>

fun varint_spec :: "nat \<Rightarrow> byte list" where
  "varint_spec v = (if v < 128 then [word_of_nat v] else word_of_nat (v mod 128 + 128) # varint_spec (v div 128))"

declare varint_spec.simps [simp del]

lemma low7: "unat (ucast (v AND 0x7F) :: byte) = unat v mod 128" for v :: u64
proof -
  have "(v AND 0x7F) = take_bit 7 v" by (simp add: take_bit_eq_mask mask_numeral)
  then have "unat (ucast (v AND 0x7F) :: byte) = take_bit 8 (take_bit 7 (unat v))"
    by (simp add: unsigned_ucast_eq unsigned_take_bit_eq)
  then show ?thesis by (simp add: take_bit_eq_mod)
qed

lemma or_80: "(x AND 0x80 = 0) \<Longrightarrow> x OR 0x80 = x + 0x80" for x :: byte
  using word_plus_and_or [of x "0x80"] by simp

lemma low7_and_80: "(ucast (v AND 0x7F) :: byte) AND 0x80 = 0" for v :: u64
  by (rule bit_word_eqI) (auto simp: bit_simps numeral_eq_Suc less_Suc_eq)

lemma more_byte: "(ucast (v AND 0x7F) OR 0x80 :: byte) = word_of_nat (unat v mod 128 + 128)" for v :: u64
proof -
  have "(ucast (v AND 0x7F) :: byte) = word_of_nat (unat v mod 128)"
    by (simp flip: low7)
  then show ?thesis using or_80 [OF low7_and_80 [of v]] by simp
qed

lemma last_byte: "((ucast (v AND 0x7F) OR 0x80) AND 0x7F :: byte) = word_of_nat (unat v mod 128)" for v :: u64
proof -
  have "((ucast (v AND 0x7F) OR 0x80) AND 0x7F :: byte) = ucast (v AND 0x7F)"
    by (rule bit_word_eqI) (auto simp: bit_simps numeral_eq_Suc less_Suc_eq)
  then show ?thesis by (simp flip: low7)
qed

lemma length_varint_spec: "v < 128 ^ Suc n \<Longrightarrow> length (varint_spec v) \<le> Suc n"
proof (induction n arbitrary: v)
  case 0
  then show ?case by (simp add: varint_spec.simps)
next
  case (Suc n)
  then have "v div 128 < 128 ^ Suc n"
    by (metis less_mult_imp_div_less mult.commute power_Suc)
  with Suc.IH show ?case by (subst varint_spec.simps) simp
qed

lemma varint_spec_max10: "length (varint_spec (unat (v :: u64))) \<le> 10"
proof -
  have "unat v < 2 ^ 64" using unsigned_less [of v] by simp
  also have "(2 :: nat) ^ 64 < 128 ^ Suc 9" by simp
  finally show ?thesis using length_varint_spec [of "unat v" 9] by simp
qed

lemma varint_spec_small: "length (varint_spec (unat (v :: u64))) < 2 ^ 63"
  using varint_spec_max10 [of v] by simp

section \<open>Bytes of a varint\<close>

definition more_byte :: "nat \<Rightarrow> byte" where
  "more_byte v = word_of_nat (v mod 128 + 128)"

lemma and_7F: "x AND 0x7F = take_bit 7 x" for x :: byte
  by (simp add: take_bit_eq_mask mask_numeral)

lemma and_80: "x AND 0x80 = 0 \<longleftrightarrow> \<not> bit x 7" for x :: byte
proof -
  have "x AND 0x80 = (if bit x 7 then 0x80 else 0)"
    by (rule bit_word_eqI) (auto simp: bit_simps numeral_eq_Suc less_Suc_eq)
  then show ?thesis by simp
qed

lemma byte_nat_and_7F: "(word_of_nat n :: byte) AND 0x7F = word_of_nat (n mod 128)"
proof -
  have "(word_of_nat n :: byte) AND 0x7F = word_of_nat (take_bit 7 n)"
    unfolding and_7F by (rule take_bit_of_nat)
  then show ?thesis by (simp add: take_bit_eq_mod)
qed

lemma byte_nat_and_80: "(word_of_nat n :: byte) AND 0x80 = 0 \<longleftrightarrow> even (n div 128)"
  unfolding and_80 by (simp add: bit_of_nat_iff) (simp add: bit_iff_odd)

lemma more_byte_simps [simp]:
  "more_byte v AND 0x7F = word_of_nat (v mod 128)" "more_byte v AND 0x80 \<noteq> 0"
proof -
  have "(v mod 128 + 128) div 128 = 1" by (subst div_add_self2) simp_all
  then show "more_byte v AND 0x80 \<noteq> 0"
    unfolding more_byte_def byte_nat_and_80 by simp
  show "more_byte v AND 0x7F = word_of_nat (v mod 128)"
    unfolding more_byte_def byte_nat_and_7F by simp
qed

lemma last_byte_simps:
  "v < 128 \<Longrightarrow> (word_of_nat v :: byte) AND 0x7F = word_of_nat v"
  "v < 128 \<Longrightarrow> (word_of_nat v :: byte) AND 0x80 = 0"
  by (simp_all add: byte_nat_and_7F byte_nat_and_80)

lemma ucast_byte_nat: "v < 256 \<Longrightarrow> ucast (word_of_nat v :: byte) = (word_of_nat v :: 'a::len word)"
  by (simp add: unsigned_of_nat take_bit_eq_mod)

lemma varint_spec_step: "128 \<le> v \<Longrightarrow> varint_spec v = more_byte v # varint_spec (v div 128)"
  by (subst varint_spec.simps) (simp add: more_byte_def)

lemma varint_spec_last: "v < 128 \<Longrightarrow> varint_spec v = [word_of_nat v]"
  by (simp add: varint_spec.simps)

lemma push_bit_split_7:
  "push_bit b (word_of_nat (v mod 128)) OR push_bit (b + 7) (word_of_nat (v div 128)) =
   push_bit b (word_of_nat v :: 'a::len word)"
proof (rule bit_word_eqI)
  fix n assume n: "n < LENGTH('a)"
  have v: "v mod 128 = take_bit 7 v" "v div 128 = drop_bit 7 v"
    by (simp_all add: take_bit_eq_mod drop_bit_eq_div)
  show "bit (push_bit b (word_of_nat (v mod 128)) OR push_bit (b + 7) (word_of_nat (v div 128)) :: 'a word) n =
      bit (push_bit b (word_of_nat v :: 'a word)) n"
  proof (cases "n < b")
    case True
    then show ?thesis by (simp add: bit_simps)
  next
    case False
    then obtain i where i: "n = b + i" by (metis le_add_diff_inverse not_less)
    have "i < 7 \<and> bit v i \<or> 7 \<le> i \<and> bit v (7 + (i - 7)) \<longleftrightarrow> bit v i"
      by (cases "i < 7") auto
    with n i show ?thesis
      unfolding v by (auto simp: bit_push_bit_iff bit_or_iff bit_of_nat_iff bit_take_bit_iff bit_drop_bit_eq)
  qed
qed

lemma div_128_less: "(v :: nat) < 2 ^ (n - b) \<Longrightarrow> 128 \<le> v \<Longrightarrow> b + 7 < n \<and> v div 128 < 2 ^ (n - (b + 7))"
proof -
  assume v: "v < 2 ^ (n - b)" "128 \<le> v"
  then have "(2::nat) ^ 7 < 2 ^ (n - b)" by simp
  then have "7 < n - b" by (simp only: power_strict_increasing_iff)
  moreover from this have "(2::nat) ^ (n - b) = 2 ^ (n - (b + 7)) * 128"
    using power_add [of "2::nat" "n - (b + 7)" 7] by simp
  with v have "v div 128 < 2 ^ (n - (b + 7))" by (simp add: less_mult_imp_div_less)
  ultimately show ?thesis by simp
qed

end
