(* ===== verification/Pb_Ostream.thy ===== *)
theory Pb_Ostream
  imports Pb_Streams Varint
begin

unbundle bit_operations_syntax

text \<open>
  Output streams and the primitive encoders of \<open>nanopb/pb_encode.c\<close>: writing to a buffer, to a
  client callback or to a sizing stream, varints, zig-zag integers, fixed-width integers, tags and
  strings. The contract of every encoder is the locale \<open>emitter\<close>: a sizing stream counts exactly
  the bytes a buffer stream stores, and a buffer that is too small gives an error without a byte
  past its end.
\<close>

section \<open>Writing\<close>

type_synonym writer = "pb_ostream \<Rightarrow> bool \<times> pb_ostream"

text \<open>\<open>if (!f(stream)) return false; return g(stream);\<close>\<close>

definition seq_ok :: "writer \<Rightarrow> writer \<Rightarrow> writer" where
  "seq_ok f g s = (case f s of (ok, s1) \<Rightarrow> if ok then g s1 else (False, s1))"

definition buf_write :: "byte list \<Rightarrow> nat \<Rightarrow> writer" where
  "buf_write buf count s = (True, s\<lparr>ostate := ostate s @ take count buf\<rparr>)"

definition pb_ostream_from_buffer :: "nat \<Rightarrow> pb_ostream" where
  "pb_ostream_from_buffer bufsize =
     \<lparr>ocallback = Buf_write, ostate = [], max_size = bufsize, bytes_written = 0, oerrmsg = None\<rparr>"

definition PB_OSTREAM_SIZING :: pb_ostream where
  "PB_OSTREAM_SIZING =
     \<lparr>ocallback = Out_null, ostate = [], max_size = 0, bytes_written = 0, oerrmsg = None\<rparr>"

text \<open>\<open>stream->callback(stream, buf, count)\<close>; a null callback is never called.\<close>

fun call_out :: "env \<Rightarrow> out_callback \<Rightarrow> byte list \<Rightarrow> nat \<Rightarrow> writer" where
  "call_out e Out_null buf count s = (False, s)"
| "call_out e Buf_write buf count s = buf_write buf count s"
| "call_out e (Out_fn i) buf count s =
     (case out_fn e i (ostate s) (take count buf) of (ok, st) \<Rightarrow> (ok, s\<lparr>ostate := st\<rparr>))"

definition pb_write :: "env \<Rightarrow> byte list \<Rightarrow> nat \<Rightarrow> writer" where
  "pb_write e buf count s =
     (if count > 0 \<and> ocallback s \<noteq> Out_null then
        if size_add (bytes_written s) count < bytes_written s \<or>
           size_add (bytes_written s) count > max_size s
        then oerr ''stream full'' s
        else case call_out e (ocallback s) buf count s of (ok, s1) \<Rightarrow>
          if \<not> ok then oerr ''io error'' s1
          else (True, s1\<lparr>bytes_written := size_add (bytes_written s1) count\<rparr>)
      else (True, s\<lparr>bytes_written := size_add (bytes_written s) count\<rparr>))"

section \<open>Primitive encoders\<close>

text \<open>The loop \<open>while (value)\<close> that fills \<open>buffer\<close>.\<close>

function varint_fill :: "u64 \<Rightarrow> byte list" where
  "varint_fill value =
     (if value = 0 then []
      else (ucast (value AND 0x7F) OR 0x80) # varint_fill (drop_bit 7 value))"
  by pat_completeness auto

lemma unat_drop_bit_7_less: "(value :: u64) \<noteq> 0 \<Longrightarrow> unat (drop_bit 7 value) < unat value"
proof -
  assume "value \<noteq> 0"
  then have "0 < unat value" by (simp add: unat_gt_0)
  then show ?thesis by (simp add: unat_drop_bit)
qed

termination varint_fill
  by (relation "measure unat") (simp_all add: unat_drop_bit_7_less)

declare varint_fill.simps [simp del]

definition varint_buffer :: "u64 \<Rightarrow> byte list" where
  "varint_buffer value =
     (let buffer = varint_fill value; i = length buffer
      in buffer[i - 1 := buffer ! (i - 1) AND 0x7F])"

definition pb_encode_varint :: "env \<Rightarrow> u64 \<Rightarrow> writer" where
  "pb_encode_varint e value s =
     (if value \<le> 0x7F then pb_write e [ucast value] 1 s
      else let buffer = varint_buffer value in pb_write e buffer (length buffer) s)"

definition zigzag :: "u64 \<Rightarrow> u64" where
  "zigzag value = (if sint value < 0 then NOT (push_bit 1 value) else push_bit 1 value)"

definition pb_encode_svarint :: "env \<Rightarrow> u64 \<Rightarrow> writer" where
  "pb_encode_svarint e value = pb_encode_varint e (zigzag value)"

definition fixed32_bytes :: "u32 \<Rightarrow> byte list" where
  "fixed32_bytes val =
     [ucast (val AND 0xFF), ucast (drop_bit 8 val AND 0xFF), ucast (drop_bit 16 val AND 0xFF),
      ucast (drop_bit 24 val AND 0xFF)]"

definition pb_encode_fixed32 :: "env \<Rightarrow> cmem \<Rightarrow> addr \<Rightarrow> writer" where
  "pb_encode_fixed32 e m p =
     (let val = word_of_nat (load_uint 4 m p) in pb_write e (fixed32_bytes val) 4)"

definition fixed64_bytes :: "u64 \<Rightarrow> byte list" where
  "fixed64_bytes val =
     [ucast (val AND 0xFF), ucast (drop_bit 8 val AND 0xFF), ucast (drop_bit 16 val AND 0xFF),
      ucast (drop_bit 24 val AND 0xFF), ucast (drop_bit 32 val AND 0xFF),
      ucast (drop_bit 40 val AND 0xFF), ucast (drop_bit 48 val AND 0xFF),
      ucast (drop_bit 56 val AND 0xFF)]"

definition pb_encode_fixed64 :: "env \<Rightarrow> cmem \<Rightarrow> addr \<Rightarrow> writer" where
  "pb_encode_fixed64 e m p =
     (let val = word_of_nat (load_uint 8 m p) in pb_write e (fixed64_bytes val) 8)"

definition pb_encode_tag :: "env \<Rightarrow> u32 \<Rightarrow> u32 \<Rightarrow> writer" where
  "pb_encode_tag e wiretype field_number =
     pb_encode_varint e (push_bit 3 (ucast field_number) OR ucast wiretype)"

definition pb_encode_tag_for_field :: "env \<Rightarrow> pb_field \<Rightarrow> writer" where
  "pb_encode_tag_for_field e f s =
     (let lt = PB_LTYPE (ftype f) in
      if lt = PB_LTYPE_BOOL \<or> lt = PB_LTYPE_VARINT \<or> lt = PB_LTYPE_UVARINT \<or> lt = PB_LTYPE_SVARINT
      then pb_encode_tag e PB_WT_VARINT (tag f) s
      else if lt = PB_LTYPE_FIXED32 then pb_encode_tag e PB_WT_32BIT (tag f) s
      else if lt = PB_LTYPE_FIXED64 then pb_encode_tag e PB_WT_64BIT (tag f) s
      else if lt = PB_LTYPE_BYTES \<or> lt = PB_LTYPE_STRING \<or> lt = PB_LTYPE_SUBMESSAGE \<or>
              lt = PB_LTYPE_FIXED_LENGTH_BYTES
      then pb_encode_tag e PB_WT_STRING (tag f) s
      else oerr ''invalid field type'' s)"

definition pb_encode_string :: "env \<Rightarrow> byte list \<Rightarrow> nat \<Rightarrow> writer" where
  "pb_encode_string e buffer n =
     seq_ok (pb_encode_varint e (word_of_nat n)) (pb_write e buffer n)"

section \<open>The contract of an encoder\<close>

text \<open>A buffer stream in use: within its size, which is that of a C object, and without error.\<close>

definition obuf_ok :: "pb_ostream \<Rightarrow> bool" where
  "obuf_ok s \<longleftrightarrow> ocallback s = Buf_write \<and> bytes_written s \<le> max_size s \<and> max_size s < 2 ^ 63 \<and>
     oerrmsg s = None"

text \<open>The stream after \<open>bs\<close> has been stored.\<close>

definition put :: "byte list \<Rightarrow> pb_ostream \<Rightarrow> pb_ostream" where
  "put bs s = s\<lparr>ostate := ostate s @ bs, bytes_written := bytes_written s + length bs\<rparr>"

text \<open>What is left when \<open>bs\<close> does not fit: an error, and a proper prefix stored within bounds.\<close>

definition overflowed :: "byte list \<Rightarrow> pb_ostream \<Rightarrow> bool \<times> pb_ostream \<Rightarrow> bool" where
  "overflowed bs s r \<longleftrightarrow> \<not> fst r \<and>
     (\<exists>k < length bs. bytes_written s + k \<le> max_size s \<and>
        snd r = (put (take k bs) s)\<lparr>oerrmsg := Some ''stream full''\<rparr>)"

locale emitter =
  fixes f :: writer and bs :: "byte list"
  assumes emit_small: "length bs < 2 ^ 63"
    and emit_sizing: "ocallback s = Out_null \<Longrightarrow> bytes_written s < 2 ^ 64 \<Longrightarrow>
      f s = (True, s\<lparr>bytes_written := size_add (bytes_written s) (length bs)\<rparr>)"
    and emit_room: "obuf_ok s \<Longrightarrow> bytes_written s + length bs \<le> max_size s \<Longrightarrow> f s = (True, put bs s)"
    and emit_full: "obuf_ok s \<Longrightarrow> max_size s < bytes_written s + length bs \<Longrightarrow> overflowed bs s (f s)"
begin

text \<open>The sizing pass predicts the outcome of the writing pass.\<close>

lemma sizing_then_writing:
  assumes "f PB_OSTREAM_SIZING = (True, s0)" and "obuf_ok s"
  shows "fst (f s) \<longleftrightarrow> bytes_written s + bytes_written s0 \<le> max_size s"
proof -
  have "bytes_written s0 = length bs"
    using assms(1) emit_sizing [of PB_OSTREAM_SIZING] emit_small
    by (auto simp: PB_OSTREAM_SIZING_def size_add_def)
  then show ?thesis
    using emit_room [OF assms(2)] emit_full [OF assms(2)] by (fastforce simp: overflowed_def)
qed

lemma never_past_end:
  assumes "obuf_ok s"
  shows "bytes_written (snd (f s)) \<le> max_size s \<and> max_size (snd (f s)) = max_size s"
proof (cases "bytes_written s + length bs \<le> max_size s")
  case True
  with emit_room [OF assms] show ?thesis by (simp add: put_def)
next
  case False
  with emit_full [OF assms] show ?thesis by (auto simp: overflowed_def put_def)
qed

lemma success_stores:
  assumes "obuf_ok s" and "f s = (True, s')"
  shows "s' = put bs s"
proof (cases "bytes_written s + length bs \<le> max_size s")
  case True
  with emit_room [OF assms(1)] assms(2) show ?thesis by simp
next
  case False
  with emit_full [OF assms(1)] assms(2) show ?thesis by (simp add: overflowed_def)
qed

lemma stored_prefix:
  assumes "obuf_ok s"
  shows "\<exists>k \<le> length bs. ostate (snd (f s)) = ostate s @ take k bs \<and>
     bytes_written (snd (f s)) = bytes_written s + k"
proof (cases "bytes_written s + length bs \<le> max_size s")
  case True
  with emit_room [OF assms] show ?thesis by (auto simp: put_def intro!: exI [of _ "length bs"])
next
  case False
  with emit_full [OF assms] obtain k where "k < length bs"
    "snd (f s) = (put (take k bs) s)\<lparr>oerrmsg := Some ''stream full''\<rparr>"
    by (auto simp: overflowed_def)
  then show ?thesis by (auto simp: put_def intro!: exI [of _ k])
qed

end

lemma obuf_ok_from_buffer [simp]: "obuf_ok (pb_ostream_from_buffer n) \<longleftrightarrow> n < 2 ^ 63"
  by (simp add: obuf_ok_def pb_ostream_from_buffer_def)

lemma put_Nil [simp]: "put [] s = s"
  by (simp add: put_def)

lemma put_put: "put cs (put bs s) = put (bs @ cs) s"
  by (simp add: put_def)

lemma obuf_ok_put: "obuf_ok s \<Longrightarrow> bytes_written s + length bs \<le> max_size s \<Longrightarrow> obuf_ok (put bs s)"
  by (simp add: obuf_ok_def put_def)

lemma put_simps [simp]:
  "ocallback (put bs s) = ocallback s" "max_size (put bs s) = max_size s"
  "oerrmsg (put bs s) = oerrmsg s" "bytes_written (put bs s) = bytes_written s + length bs"
  "ostate (put bs s) = ostate s @ bs"
  by (simp_all add: put_def)

text \<open>Encoders compose: the bytes of a sequence are the concatenation.\<close>

lemma emitter_seq:
  assumes f: "emitter f bs" and g: "emitter g cs" and small: "length (bs @ cs) < 2 ^ 63"
  shows "emitter (seq_ok f g) (bs @ cs)"
proof
  show "length (bs @ cs) < 2 ^ 63" by (rule small)
next
  fix s :: pb_ostream assume "ocallback s = Out_null" and "bytes_written s < 2 ^ 64"
  then show "seq_ok f g s = (True, s\<lparr>bytes_written := size_add (bytes_written s) (length (bs @ cs))\<rparr>)"
    by (simp add: seq_ok_def emitter.emit_sizing [OF f] emitter.emit_sizing [OF g] size_add_assoc)
next
  fix s :: pb_ostream assume s: "obuf_ok s" and room: "bytes_written s + length (bs @ cs) \<le> max_size s"
  then have "f s = (True, put bs s)" by (simp add: emitter.emit_room [OF f])
  moreover from s room have "g (put bs s) = (True, put cs (put bs s))"
    by (intro emitter.emit_room [OF g] obuf_ok_put) simp_all
  ultimately show "seq_ok f g s = (True, put (bs @ cs) s)" by (simp add: seq_ok_def put_put)
next
  fix s :: pb_ostream assume s: "obuf_ok s" and full: "max_size s < bytes_written s + length (bs @ cs)"
  show "overflowed (bs @ cs) s (seq_ok f g s)"
  proof (cases "bytes_written s + length bs \<le> max_size s")
    case True
    then have fs: "f s = (True, put bs s)" by (simp add: emitter.emit_room [OF f s])
    have "overflowed cs (put bs s) (g (put bs s))"
      using s full True by (intro emitter.emit_full [OF g] obuf_ok_put) simp_all
    then obtain k where k: "k < length cs" "bytes_written s + length bs + k \<le> max_size s"
      "\<not> fst (g (put bs s))"
      "snd (g (put bs s)) = (put (take k cs) (put bs s))\<lparr>oerrmsg := Some ''stream full''\<rparr>"
      by (auto simp: overflowed_def)
    with fs show ?thesis
      by (auto simp: overflowed_def seq_ok_def put_put intro!: exI [of _ "length bs + k"])
  next
    case False
    then have "overflowed bs s (f s)" by (simp add: emitter.emit_full [OF f s])
    then obtain k where k: "k < length bs" "bytes_written s + k \<le> max_size s" "\<not> fst (f s)"
      "snd (f s) = (put (take k bs) s)\<lparr>oerrmsg := Some ''stream full''\<rparr>"
      by (auto simp: overflowed_def)
    then have "seq_ok f g s = (False, (put (take k bs) s)\<lparr>oerrmsg := Some ''stream full''\<rparr>)"
      by (cases "f s") (simp add: seq_ok_def)
    with k show ?thesis by (auto simp: overflowed_def intro!: exI [of _ k])
  qed
qed

lemma emitter_skip: "emitter (\<lambda>s. (True, s)) []"
  by unfold_locales (auto simp: size_add_0 obuf_ok_def)

text \<open>The contract looks at sizing streams and at buffer streams in use only.\<close>

definition stream_ok :: "pb_ostream \<Rightarrow> bool" where
  "stream_ok s \<longleftrightarrow> ocallback s = Out_null \<and> bytes_written s < 2 ^ 64 \<or> obuf_ok s"

lemma stream_ok_sizing [simp]: "stream_ok PB_OSTREAM_SIZING"
  by (simp add: stream_ok_def PB_OSTREAM_SIZING_def)

lemma emitter_cong:
  assumes f: "emitter f bs" and eq: "\<And>s. stream_ok s \<Longrightarrow> g s = f s"
  shows "emitter g bs"
  using emitter.emit_small [OF f]
  by unfold_locales (simp_all add: eq stream_ok_def emitter.emit_sizing [OF f] emitter.emit_room [OF f]
      emitter.emit_full [OF f])

lemma emitter_pb_write:
  assumes "count \<le> length buf" and "count < 2 ^ 63"
  shows "emitter (pb_write e buf count) (take count buf)"
proof
  show "length (take count buf) < 2 ^ 63" using assms by simp
next
  fix s :: pb_ostream assume "ocallback s = Out_null" and "bytes_written s < 2 ^ 64"
  then show "pb_write e buf count s =
      (True, s\<lparr>bytes_written := size_add (bytes_written s) (length (take count buf))\<rparr>)"
    using assms by (simp add: pb_write_def min_absorb2)
next
  fix s :: pb_ostream assume "obuf_ok s" and "bytes_written s + length (take count buf) \<le> max_size s"
  then show "pb_write e buf count s = (True, put (take count buf) s)"
    using assms by (auto simp: pb_write_def obuf_ok_def size_add_def buf_write_def put_def min_absorb2)
next
  fix s :: pb_ostream assume "obuf_ok s" and "max_size s < bytes_written s + length (take count buf)"
  then show "overflowed (take count buf) s (pb_write e buf count s)"
    using assms
    by (auto simp: pb_write_def obuf_ok_def size_add_def overflowed_def oerr_def PB_SET_ERROR_def
          min_absorb2 intro!: exI [of _ 0])
qed

lemma emitter_pb_write_all:
  "length buf = count \<Longrightarrow> count < 2 ^ 63 \<Longrightarrow> emitter (pb_write e buf count) buf"
  using emitter_pb_write [of count buf e] by simp

section \<open>Varints\<close>

lemma varint_fill_Nil: "varint_fill v = [] \<longleftrightarrow> v = 0"
  by (subst varint_fill.simps) simp

lemma varint_buffer_spec: "v \<noteq> 0 \<Longrightarrow> varint_buffer v = varint_spec (unat v)"
proof (induction v rule: varint_fill.induct)
  case (1 v)
  let ?r = "drop_bit 7 v"
  have rest: "unat ?r = unat v div 128" by (simp add: unat_drop_bit)
  show ?case
  proof (cases "?r = 0")
    case True
    then have "unat v < 128" using rest by (metis div_eq_0_iff unat_0 zero_neq_numeral)
    then show ?thesis using 1(2) True
      by (simp add: varint_buffer_def varint_fill.simps [of v] varint_fill.simps [of 0] last_byte
           varint_spec.simps)
  next
    case False
    then have big: "\<not> unat v < 128" using rest by (metis div_less unat_eq_zero)
    from False have ne: "varint_fill ?r \<noteq> []" by (simp add: varint_fill_Nil)
    have "varint_buffer v = word_of_nat (unat v mod 128 + 128) # varint_buffer ?r"
      using 1(2) ne
      by (cases "varint_fill ?r") (simp_all add: varint_buffer_def varint_fill.simps [of v] more_byte Let_def)
    with 1(1) [OF 1(2) False] big rest show ?thesis
      by (simp add: varint_spec.simps [of "unat v"])
  qed
qed

lemma length_varint_fill: "length (varint_fill v) = (if v = 0 then 0 else length (varint_spec (unat v)))"
proof (cases "v = 0")
  case True
  then show ?thesis by (simp add: varint_fill_Nil)
next
  case False
  then have "length (varint_spec (unat v)) = length (varint_buffer v)"
    by (simp add: varint_buffer_spec)
  with False show ?thesis by (simp add: varint_buffer_def Let_def)
qed

lemma emitter_varint: "emitter (pb_encode_varint e v) (varint_spec (unat v))"
proof (cases "v \<le> 0x7F")
  case True
  then have "unat v < 128" by (simp add: word_le_nat_alt)
  then have "varint_spec (unat v) = [ucast v]"
    by (simp add: varint_spec.simps)
  moreover have "pb_encode_varint e v = pb_write e [ucast v] 1"
    using True by (simp add: fun_eq_iff pb_encode_varint_def)
  ultimately show ?thesis by (simp add: emitter_pb_write_all)
next
  case False
  then have "v \<noteq> 0" by auto
  then have buf: "varint_buffer v = varint_spec (unat v)" by (rule varint_buffer_spec)
  have "pb_encode_varint e v = pb_write e (varint_spec (unat v)) (length (varint_spec (unat v)))"
    using False by (simp add: fun_eq_iff pb_encode_varint_def buf Let_def)
  then show ?thesis using varint_spec_small [of v] by (simp add: emitter_pb_write_all)
qed

lemma emitter_svarint: "emitter (pb_encode_svarint e v) (varint_spec (unat (zigzag v)))"
  unfolding pb_encode_svarint_def by (rule emitter_varint)

section \<open>Fixed-width values, tags and strings\<close>

lemma fixed32_bytes_le: "fixed32_bytes v = to_le 4 (unat v)"
  unfolding fixed32_bytes_def byte_of_low ucast_drop_bit to_le_4 by simp

lemma fixed64_bytes_le: "fixed64_bytes v = to_le 8 (unat v)"
  unfolding fixed64_bytes_def byte_of_low ucast_drop_bit to_le_8 by simp

lemma fixed32_load: "fixed32_bytes (word_of_nat (load_uint 4 m p)) = load_bytes m p 4"
proof -
  have "unat (word_of_nat (load_uint 4 m p) :: u32) = of_le (load_bytes m p 4)"
    by (simp add: unat_word_of_load) (simp add: load_uint_def)
  then show ?thesis using to_le_of_le [of "load_bytes m p 4"] by (simp add: fixed32_bytes_le)
qed

lemma fixed64_load: "fixed64_bytes (word_of_nat (load_uint 8 m p)) = load_bytes m p 8"
proof -
  have "unat (word_of_nat (load_uint 8 m p) :: u64) = of_le (load_bytes m p 8)"
    by (simp add: unat_word_of_load) (simp add: load_uint_def)
  then show ?thesis using to_le_of_le [of "load_bytes m p 8"] by (simp add: fixed64_bytes_le)
qed

lemma emitter_fixed32: "emitter (pb_encode_fixed32 e m p) (load_bytes m p 4)"
  unfolding pb_encode_fixed32_def Let_def fixed32_load by (rule emitter_pb_write_all) simp_all

lemma emitter_fixed64: "emitter (pb_encode_fixed64 e m p) (load_bytes m p 8)"
  unfolding pb_encode_fixed64_def Let_def fixed64_load by (rule emitter_pb_write_all) simp_all

text \<open>A tag is the field number shifted by three bits, with the wire type below.\<close>

definition tag_value :: "u32 \<Rightarrow> u32 \<Rightarrow> nat" where
  "tag_value wt n = 8 * unat n + unat wt"

lemma unat_tag:
  fixes n wt :: u32
  assumes "unat wt < 8"
  shows "unat (push_bit 3 (ucast n) OR ucast wt :: u64) = tag_value wt n"
proof -
  let ?a = "push_bit 3 (ucast n) :: u64" and ?b = "ucast wt :: u64"
  have n: "unat n < 2 ^ 32" using unsigned_less [of n] by simp
  have wt: "\<not> bit wt i" if "3 \<le> i" for i
  proof -
    have "take_bit 3 (unat wt) = unat wt" using assms by (simp add: take_bit_eq_mod)
    then have "bit (unat wt) i = bit (take_bit 3 (unat wt)) i" by simp
    with that show ?thesis by (simp add: bit_take_bit_iff bit_unsigned_iff)
  qed
  have "?a AND ?b = 0" by (rule bit_word_eqI) (auto simp: bit_simps dest: wt)
  then have "?a OR ?b = ?a + ?b" using word_plus_and_or [of ?a ?b] by simp
  moreover have "unat ?a = 8 * unat n"
    using n by (simp add: push_bit_eq_mult unat_word_ariths unsigned_ucast_eq take_bit_eq_mod)
  moreover have "unat ?b = unat wt"
    using assms by (simp add: unsigned_ucast_eq take_bit_eq_mod)
  ultimately show ?thesis using n assms by (simp add: unat_word_ariths tag_value_def)
qed

interpretation enc_varint: emitter "pb_encode_varint e v" "varint_spec (unat v)" for e v
  by (rule emitter_varint)

interpretation enc_svarint: emitter "pb_encode_svarint e v" "varint_spec (unat (zigzag v))" for e v
  by (rule emitter_svarint)

interpretation enc_fixed32: emitter "pb_encode_fixed32 e m p" "load_bytes m p 4" for e m p
  by (rule emitter_fixed32)

interpretation enc_fixed64: emitter "pb_encode_fixed64 e m p" "load_bytes m p 8" for e m p
  by (rule emitter_fixed64)

lemma emitter_tag: "unat wt < 8 \<Longrightarrow> emitter (pb_encode_tag e wt n) (varint_spec (tag_value wt n))"
  using emitter_varint [of e "push_bit 3 (ucast n) OR ucast wt"]
  by (simp add: pb_encode_tag_def unat_tag)

lemma emitter_string:
  assumes "n \<le> length buf" and "n < 2 ^ 62"
  shows "emitter (pb_encode_string e buf n) (varint_spec n @ take n buf)"
proof -
  have n: "unat (word_of_nat n :: u64) = n" using assms by (simp add: unat_of_nat)
  have "length (varint_spec n) \<le> 10" using varint_spec_max10 [of "word_of_nat n"] n by simp
  then show ?thesis
    unfolding pb_encode_string_def
    using assms emitter_varint [of e "word_of_nat n"] n
    by (intro emitter_seq emitter_pb_write) simp_all
qed

end
