(* ===== verification/Pb_Encode.thy ===== *)
theory Pb_Encode
  imports Pb_Ostream
begin

unbundle bit_operations_syntax

text \<open>
  The message encoder of \<open>nanopb/pb_encode.c\<close>: the leaf encoders that read a value from memory, the
  array encoder with its packing, the test for proto3 default values, fields with static, pointer
  and callback allocation, extensions, submessages with their sizing pass, and the entry points.
  The message struct is read from the byte memory.

  \<open>pb_encode\<close> calls itself for submessages. Every function takes the recursive call as the
  argument \<open>sub\<close>, and the knot is tied by recursion on a fuel argument. A result \<open>None\<close> is a run
  that does not come back: the fuel is used up, which happens for a cyclic list of extensions, or a
  null function pointer is called.
\<close>

section \<open>Sequencing\<close>

type_synonym owriter = "pb_ostream \<Rightarrow> (bool \<times> pb_ostream) option"

definition lift_w :: "writer \<Rightarrow> owriter" where
  "lift_w w s = Some (w s)"

definition ok_w :: owriter where
  "ok_w s = Some (True, s)"

definition err_w :: "string \<Rightarrow> owriter" where
  "err_w msg s = Some (oerr msg s)"

text \<open>\<open>if (!f(stream)) return false; return g(stream);\<close>\<close>

definition oseq :: "owriter \<Rightarrow> owriter \<Rightarrow> owriter" where
  "oseq f g s = (case f s of None \<Rightarrow> None | Some (ok, s1) \<Rightarrow> if ok then g s1 else Some (False, s1))"

section \<open>Field encoders\<close>

text \<open>\<open>sizeof(bool)\<close> is 1.\<close>

definition safe_read_bool :: "cmem \<Rightarrow> addr \<Rightarrow> bool" where
  "safe_read_bool m p = (mbytes m p \<noteq> 0)"

text \<open>The recursive call: \<open>pb_encode(stream, fields, src_struct)\<close>.\<close>

type_synonym sub_encoder = "pb_field list \<Rightarrow> addr \<Rightarrow> owriter"

type_synonym field_encoder = "pb_field \<Rightarrow> addr \<Rightarrow> owriter"

definition pb_enc_bool :: "env \<Rightarrow> cmem \<Rightarrow> field_encoder" where
  "pb_enc_bool e m f src =
     (let value = (if safe_read_bool m src then 1 else 0) in lift_w (pb_encode_varint e value))"

text \<open>A signed load of \<open>n\<close> bytes, converted to \<open>int64_t\<close>.\<close>

definition load_sint :: "nat \<Rightarrow> cmem \<Rightarrow> addr \<Rightarrow> u64" where
  "load_sint n m p =
     (let v = load_uint n m p in
      if n = 1 then scast (word_of_nat v :: 8 word)
      else if n = 2 then scast (word_of_nat v :: 16 word)
      else if n = 4 then scast (word_of_nat v :: 32 word)
      else word_of_nat v)"

definition pb_enc_varint :: "env \<Rightarrow> cmem \<Rightarrow> field_encoder" where
  "pb_enc_varint e m f src =
     (if data_size f = 1 then lift_w (pb_encode_varint e (load_sint 1 m src))
      else if data_size f = 2 then lift_w (pb_encode_varint e (load_sint 2 m src))
      else if data_size f = 4 then lift_w (pb_encode_varint e (load_sint 4 m src))
      else if data_size f = 8 then lift_w (pb_encode_varint e (load_sint 8 m src))
      else err_w ''invalid data_size'')"

definition pb_enc_uvarint :: "env \<Rightarrow> cmem \<Rightarrow> field_encoder" where
  "pb_enc_uvarint e m f src =
     (if data_size f = 1 then lift_w (pb_encode_varint e (word_of_nat (load_uint 1 m src)))
      else if data_size f = 2 then lift_w (pb_encode_varint e (word_of_nat (load_uint 2 m src)))
      else if data_size f = 4 then lift_w (pb_encode_varint e (word_of_nat (load_uint 4 m src)))
      else if data_size f = 8 then lift_w (pb_encode_varint e (word_of_nat (load_uint 8 m src)))
      else err_w ''invalid data_size'')"

definition pb_enc_svarint :: "env \<Rightarrow> cmem \<Rightarrow> field_encoder" where
  "pb_enc_svarint e m f src =
     (if data_size f = 1 then lift_w (pb_encode_svarint e (load_sint 1 m src))
      else if data_size f = 2 then lift_w (pb_encode_svarint e (load_sint 2 m src))
      else if data_size f = 4 then lift_w (pb_encode_svarint e (load_sint 4 m src))
      else if data_size f = 8 then lift_w (pb_encode_svarint e (load_sint 8 m src))
      else err_w ''invalid data_size'')"

definition pb_enc_fixed64 :: "env \<Rightarrow> cmem \<Rightarrow> field_encoder" where
  "pb_enc_fixed64 e m f src = lift_w (pb_encode_fixed64 e m src)"

definition pb_enc_fixed32 :: "env \<Rightarrow> cmem \<Rightarrow> field_encoder" where
  "pb_enc_fixed32 e m f src = lift_w (pb_encode_fixed32 e m src)"

definition pb_enc_bytes :: "env \<Rightarrow> cmem \<Rightarrow> field_encoder" where
  "pb_enc_bytes e m f src =
     (if src = 0 then lift_w (pb_encode_string e [] 0)
      else
        let bsize = load_size m src;
            allocsize = PB_BYTES_ARRAY_T_ALLOCSIZE bsize
        in if allocsize < bsize \<or> PB_ATYPE (ftype f) = PB_ATYPE_STATIC \<and> allocsize > data_size f
           then err_w ''bytes size exceeded''
           else lift_w (pb_encode_string e (load_bytes m (src + 4) bsize) bsize))"

text \<open>The loop \<open>while (size < max_size && *p != '\0')\<close>.\<close>

function strnlen_loop :: "cmem \<Rightarrow> nat \<Rightarrow> addr \<Rightarrow> nat \<Rightarrow> nat" where
  "strnlen_loop m maxsize p sz =
     (if sz < maxsize \<and> mbytes m p \<noteq> 0 then strnlen_loop m maxsize (p + 1) (sz + 1) else sz)"
  by pat_completeness auto
termination
  by (relation "measure (\<lambda>(m, maxsize, p, sz). maxsize - sz)") auto

declare strnlen_loop.simps [simp del]

definition pb_enc_string :: "env \<Rightarrow> cmem \<Rightarrow> field_encoder" where
  "pb_enc_string e m f src =
     (let maxsize = (if PB_ATYPE (ftype f) = PB_ATYPE_POINTER then SIZE_MAX else data_size f);
          sz = (if src = 0 then 0 else strnlen_loop m maxsize src 0)
      in lift_w (pb_encode_string e (load_bytes m src sz) sz))"

definition pb_enc_fixed_length_bytes :: "env \<Rightarrow> cmem \<Rightarrow> field_encoder" where
  "pb_enc_fixed_length_bytes e m f src =
     lift_w (pb_encode_string e (load_bytes m src (data_size f)) (data_size f))"

text \<open>The first pass sizes the message, the second writes it to a substream of that size.\<close>

definition pb_encode_submessage :: "env \<Rightarrow> sub_encoder \<Rightarrow> pb_field list \<Rightarrow> addr \<Rightarrow> owriter" where
  "pb_encode_submessage e sub fs src s =
     (case sub fs src PB_OSTREAM_SIZING of
        None \<Rightarrow> None
      | Some (ok, sizes) \<Rightarrow>
          if \<not> ok then Some (False, s\<lparr>oerrmsg := oerrmsg sizes\<rparr>)
          else
            let sz = bytes_written sizes in
            case pb_encode_varint e (word_of_nat sz) s of (ok1, s1) \<Rightarrow>
            if \<not> ok1 then Some (False, s1)
            else if ocallback s1 = Out_null then Some (pb_write e [] sz s1)
            else if size_add (bytes_written s1) sz > max_size s1 then Some (oerr ''stream full'' s1)
            else
              case sub fs src
                (sizes\<lparr>ocallback := ocallback s1, ostate := ostate s1, max_size := sz,
                  bytes_written := 0, oerrmsg := None\<rparr>) of
                None \<Rightarrow> None
              | Some (status, ss) \<Rightarrow>
                  let s2 = s1\<lparr>bytes_written := size_add (bytes_written s1) (bytes_written ss),
                              ostate := ostate ss, oerrmsg := oerrmsg ss\<rparr>
                  in if bytes_written ss \<noteq> sz then Some (oerr ''submsg size changed'' s2)
                     else Some (status, s2))"

definition pb_enc_submessage :: "env \<Rightarrow> sub_encoder \<Rightarrow> field_encoder" where
  "pb_enc_submessage e sub f src =
     (if fptr f = Null then err_w ''invalid field descriptor''
      else pb_encode_submessage e sub (submsg_fields (fptr f)) src)"

text \<open>The table of function pointers, indexed by \<open>PB_LTYPE\<close>; calling the null entry for extensions,
  or one past the table, does not come back.\<close>

definition PB_ENCODERS :: "env \<Rightarrow> sub_encoder \<Rightarrow> cmem \<Rightarrow> byte \<Rightarrow> field_encoder" where
  "PB_ENCODERS e sub m lt =
     (if lt = PB_LTYPE_BOOL then pb_enc_bool e m
      else if lt = PB_LTYPE_VARINT then pb_enc_varint e m
      else if lt = PB_LTYPE_UVARINT then pb_enc_uvarint e m
      else if lt = PB_LTYPE_SVARINT then pb_enc_svarint e m
      else if lt = PB_LTYPE_FIXED32 then pb_enc_fixed32 e m
      else if lt = PB_LTYPE_FIXED64 then pb_enc_fixed64 e m
      else if lt = PB_LTYPE_BYTES then pb_enc_bytes e m
      else if lt = PB_LTYPE_STRING then pb_enc_string e m
      else if lt = PB_LTYPE_SUBMESSAGE then pb_enc_submessage e sub
      else if lt = PB_LTYPE_FIXED_LENGTH_BYTES then pb_enc_fixed_length_bytes e m
      else (\<lambda>_ _ _. None))"

section \<open>Arrays\<close>

text \<open>\<open>for (i = 0; i < count; i++) { if (!step(p)) return false; p += data_size; }\<close>\<close>

fun items_loop :: "nat \<Rightarrow> (addr \<Rightarrow> owriter) \<Rightarrow> addr \<Rightarrow> nat \<Rightarrow> owriter" where
  "items_loop sz step p 0 = ok_w"
| "items_loop sz step p (Suc n) = oseq (step p) (items_loop sz step (p + sz) n)"

text \<open>The size of a packed array; \<open>Some None\<close> when an item fails on the sizing stream.\<close>

definition packed_size :: "pb_field \<Rightarrow> addr \<Rightarrow> nat \<Rightarrow> field_encoder \<Rightarrow> nat option option" where
  "packed_size f pdata count func =
     (if PB_LTYPE (ftype f) = PB_LTYPE_FIXED32 then Some (Some (size_mult 4 count))
      else if PB_LTYPE (ftype f) = PB_LTYPE_FIXED64 then Some (Some (size_mult 8 count))
      else case items_loop (data_size f) (func f) pdata count PB_OSTREAM_SIZING of
        None \<Rightarrow> None
      | Some (ok, sizes) \<Rightarrow> Some (if ok then Some (bytes_written sizes) else None))"

definition encode_array :: "env \<Rightarrow> cmem \<Rightarrow> pb_field \<Rightarrow> addr \<Rightarrow> nat \<Rightarrow> field_encoder \<Rightarrow> owriter" where
  "encode_array e m f pdata count func s =
     (if count = 0 then Some (True, s)
      else if PB_ATYPE (ftype f) \<noteq> PB_ATYPE_POINTER \<and> count > array_size f
      then Some (oerr ''array max size exceeded'' s)
      else if PB_LTYPE (ftype f) \<le> PB_LTYPE_LAST_PACKABLE then
        case pb_encode_tag e PB_WT_STRING (tag f) s of (ok, s1) \<Rightarrow>
        if \<not> ok then Some (False, s1)
        else case packed_size f pdata count func of
          None \<Rightarrow> None
        | Some None \<Rightarrow> Some (False, s1)
        | Some (Some sz) \<Rightarrow>
            case pb_encode_varint e (word_of_nat sz) s1 of (ok2, s2) \<Rightarrow>
            if \<not> ok2 then Some (False, s2)
            else if ocallback s2 = Out_null then Some (pb_write e [] sz s2)
            else items_loop (data_size f) (func f) pdata count s2
      else
        items_loop (data_size f)
          (\<lambda>p. oseq (lift_w (pb_encode_tag_for_field e f))
             (if PB_ATYPE (ftype f) = PB_ATYPE_POINTER \<and>
                 (PB_LTYPE (ftype f) = PB_LTYPE_STRING \<or> PB_LTYPE (ftype f) = PB_LTYPE_BYTES)
              then func f (load_ptr m p) else func f p))
          pdata count s)"

section \<open>Default values\<close>

text \<open>\<open>p[0..n-1]\<close> are all zero.\<close>

definition all_zero :: "cmem \<Rightarrow> addr \<Rightarrow> nat \<Rightarrow> bool" where
  "all_zero m p n = list_all (\<lambda>b. b = 0) (load_bytes m p n)"

lemma size_field_submsg: "f' \<in> set (submsg_fields (fptr f)) \<Longrightarrow> f' = PB_LAST_FIELD \<or> size f' < size f"
proof (cases f)
  case (PbField tg ty off so ds as ptr)
  assume f': "f' \<in> set (submsg_fields (fptr f))"
  show ?thesis
  proof (cases ptr)
    case (Submsg_fields fs)
    with f' PbField have "f' \<in> set fs" by simp
    then have "size f' < Suc (size_list size fs)" by (simp add: size_list_estimation' less_Suc_eq_le)
    with PbField Submsg_fields show ?thesis by simp
  qed (use f' PbField in simp_all)
qed

function pb_check_proto3_default_value :: "cmem \<Rightarrow> pb_field \<Rightarrow> addr \<Rightarrow> bool" where
  "pb_check_proto3_default_value m f pdata =
     (let ty = ftype f; psize = ptr_offset pdata (size_offset f);
          singular =
            (if PB_ATYPE ty = PB_ATYPE_STATIC \<and> PB_LTYPE ty = PB_LTYPE_BYTES then load_size m pdata = 0
             else if PB_ATYPE ty = PB_ATYPE_STATIC \<and> PB_LTYPE ty = PB_LTYPE_STRING then mbytes m pdata = 0
             else if PB_ATYPE ty = PB_ATYPE_STATIC \<and> PB_LTYPE ty = PB_LTYPE_FIXED_LENGTH_BYTES
             then data_size f = 0
             else if PB_ATYPE ty = PB_ATYPE_STATIC \<and> PB_LTYPE ty = PB_LTYPE_SUBMESSAGE
             then list_all (\<lambda>it. pb_check_proto3_default_value m (cur it) (pData it))
                    (iter_all (submsg_fields (fptr f)) pdata)
             else if PB_ATYPE ty = PB_ATYPE_POINTER \<and> PB_LTYPE ty > PB_LTYPE_LAST_PACKABLE
             then load_ptr m pdata = 0
             else all_zero m pdata (data_size f))
      in if PB_HTYPE ty = PB_HTYPE_REQUIRED then False
         else if PB_HTYPE ty = PB_HTYPE_REPEATED \<and> size_offset f \<noteq> 0 then load_size m psize = 0
         else if PB_HTYPE ty = PB_HTYPE_REPEATED \<and> PB_ATYPE ty = PB_ATYPE_STATIC then False
         else if PB_HTYPE ty = PB_HTYPE_ONEOF then load_size m psize = 0
         else if PB_HTYPE ty = PB_HTYPE_OPTIONAL \<and> size_offset f \<noteq> 0
         then safe_read_bool m psize = False
         else singular)"
  by pat_completeness auto
termination
proof (relation "measure (\<lambda>(m, f, p). size f)", goal_cases)
  case (2 m f p ty psize it)
  then have "cur it \<in> set (submsg_fields (fptr f))" "tag (cur it) \<noteq> 0"
    using iter_all_mem by blast+
  then show ?case using size_field_submsg [of "cur it" f] by (auto simp: PB_LAST_FIELD_def)
qed simp

declare pb_check_proto3_default_value.simps [simp del]

section \<open>Fields\<close>

text \<open>A field with static or pointer allocation. \<open>pSize\<close> is the address \<open>psize\<close> in the struct if
  \<open>size_offset\<close> is not zero, and else the local \<open>implicit_has\<close>. A oneof has a non-zero
  \<open>size_offset\<close>; without it the code reads four bytes of the one-byte local, which has no defined
  result.\<close>

definition encode_basic_field :: "env \<Rightarrow> sub_encoder \<Rightarrow> cmem \<Rightarrow> field_encoder" where
  "encode_basic_field e sub m f pdata s =
     (let ty = ftype f;
          func = PB_ENCODERS e sub m (PB_LTYPE ty);
          psize = ptr_offset pdata (size_offset f);
          implicit_has =
            (if PB_ATYPE ty = PB_ATYPE_POINTER then load_ptr m pdata \<noteq> 0
             else if PB_HTYPE ty = PB_HTYPE_OPTIONAL then \<not> pb_check_proto3_default_value m f pdata
             else True);
          p = (if PB_ATYPE ty = PB_ATYPE_POINTER then load_ptr m pdata else pdata);
          tag_and_data = oseq (lift_w (pb_encode_tag_for_field e f)) (func f p)
      in if PB_HTYPE ty = PB_HTYPE_REQUIRED then
           (if p = 0 then Some (oerr ''missing required field'' s) else tag_and_data s)
         else if PB_HTYPE ty = PB_HTYPE_OPTIONAL then
           (if (if size_offset f \<noteq> 0 then safe_read_bool m psize else implicit_has)
            then tag_and_data s else Some (True, s))
         else if PB_HTYPE ty = PB_HTYPE_REPEATED then
           encode_array e m f p (if size_offset f \<noteq> 0 then load_size m psize else array_size f) func s
         else if PB_HTYPE ty = PB_HTYPE_ONEOF then
           (if size_offset f = 0 then None
            else if load_size m psize = unat (tag f) then tag_and_data s else Some (True, s))
         else Some (oerr ''invalid field type'' s))"

definition encode_callback_field :: "env \<Rightarrow> cmem \<Rightarrow> field_encoder" where
  "encode_callback_field e m f pdata s =
     (let encode = callback_funcs m pdata in
      if encode \<noteq> 0 then
        case enc_cb e encode f (callback_arg_addr pdata) m s of (ok, s1) \<Rightarrow>
          if \<not> ok then Some (oerr ''callback error'' s1) else Some (True, s1)
      else Some (True, s))"

definition encode_field :: "env \<Rightarrow> sub_encoder \<Rightarrow> cmem \<Rightarrow> field_encoder" where
  "encode_field e sub m f pdata s =
     (if PB_ATYPE (ftype f) = PB_ATYPE_STATIC \<or> PB_ATYPE (ftype f) = PB_ATYPE_POINTER
      then encode_basic_field e sub m f pdata s
      else if PB_ATYPE (ftype f) = PB_ATYPE_CALLBACK then encode_callback_field e m f pdata s
      else Some (oerr ''invalid field type'' s))"

definition default_extension_encoder :: "env \<Rightarrow> sub_encoder \<Rightarrow> cmem \<Rightarrow> addr \<Rightarrow> owriter" where
  "default_extension_encoder e sub m ext =
     (let f = field_at (ext_arg (ext_types e (ext_type_ptr m ext))) 0 in
      if PB_ATYPE (ftype f) = PB_ATYPE_POINTER then encode_field e sub m f (ext_dest_addr ext)
      else encode_field e sub m f (load_ptr m (ext_dest_addr ext)))"

text \<open>The loop over the linked list of extensions, with fuel.\<close>

fun extension_enc_loop :: "env \<Rightarrow> sub_encoder \<Rightarrow> cmem \<Rightarrow> nat \<Rightarrow> addr \<Rightarrow> owriter" where
  "extension_enc_loop e sub m 0 ext s = (if ext = 0 then Some (True, s) else None)"
| "extension_enc_loop e sub m (Suc k) ext s =
     (if ext = 0 then Some (True, s)
      else
        let ty = ext_types e (ext_type_ptr m ext) in
        oseq (if ext_encode ty \<noteq> 0 then lift_w (ext_enc_cb e (ext_encode ty) ext m)
              else default_extension_encoder e sub m ext)
          (extension_enc_loop e sub m k (ext_next m ext)) s)"

definition encode_extension_field :: "env \<Rightarrow> sub_encoder \<Rightarrow> cmem \<Rightarrow> nat \<Rightarrow> field_encoder" where
  "encode_extension_field e sub m k f pdata = extension_enc_loop e sub m k (load_ptr m pdata)"

section \<open>Messages\<close>

definition encode_one :: "env \<Rightarrow> sub_encoder \<Rightarrow> cmem \<Rightarrow> nat \<Rightarrow> field_encoder" where
  "encode_one e sub m k f pdata =
     (if PB_LTYPE (ftype f) = PB_LTYPE_EXTENSION then encode_extension_field e sub m k f pdata
      else encode_field e sub m f pdata)"

fun encode_all :: "env \<Rightarrow> sub_encoder \<Rightarrow> cmem \<Rightarrow> nat \<Rightarrow> pb_field_iter list \<Rightarrow> owriter" where
  "encode_all e sub m k [] = ok_w"
| "encode_all e sub m k (it # its) =
     oseq (encode_one e sub m k (cur it) (pData it)) (encode_all e sub m k its)"

fun pb_encode :: "env \<Rightarrow> cmem \<Rightarrow> nat \<Rightarrow> pb_field list \<Rightarrow> addr \<Rightarrow> owriter" where
  "pb_encode e m 0 fs src = (\<lambda>s. None)"
| "pb_encode e m (Suc n) fs src = encode_all e (pb_encode e m n) m n (iter_all fs src)"

definition pb_encode_delimited :: "env \<Rightarrow> cmem \<Rightarrow> nat \<Rightarrow> pb_field list \<Rightarrow> addr \<Rightarrow> owriter" where
  "pb_encode_delimited e m n = pb_encode_submessage e (pb_encode e m n)"

definition pb_encode_nullterminated :: "env \<Rightarrow> cmem \<Rightarrow> nat \<Rightarrow> pb_field list \<Rightarrow> addr \<Rightarrow> owriter" where
  "pb_encode_nullterminated e m n fs src = oseq (pb_encode e m n fs src) (lift_w (pb_write e [0] 1))"

text \<open>\<open>Some None\<close> is the return value \<open>false\<close>, \<open>Some (Some n)\<close> is success with \<open>*size = n\<close>.\<close>

definition pb_get_encoded_size :: "env \<Rightarrow> cmem \<Rightarrow> nat \<Rightarrow> pb_field list \<Rightarrow> addr \<Rightarrow> nat option option" where
  "pb_get_encoded_size e m n fs src =
     map_option (\<lambda>(ok, s). if ok then Some (bytes_written s) else None)
       (pb_encode e m n fs src PB_OSTREAM_SIZING)"

end
