(* ===== verification/Pb_Plain.thy ===== *)
theory Pb_Plain
  imports Pb_Common
begin

text \<open>
  Plain descriptors: no callbacks and no extensions at any depth, only the types the tables of
  encoders and decoders have, a \<open>which_\<close> member for every oneof and a size for what a pointer points
  to. Every array the generator emits without callback or extension options is plain. The nesting depth
  of a descriptor array bounds the recursion over submessages.
\<close>

definition known_ltype :: "byte \<Rightarrow> bool" where
  "known_ltype lt \<longleftrightarrow> lt \<in> {PB_LTYPE_BOOL, PB_LTYPE_VARINT, PB_LTYPE_UVARINT, PB_LTYPE_SVARINT, PB_LTYPE_FIXED32,
     PB_LTYPE_FIXED64, PB_LTYPE_BYTES, PB_LTYPE_STRING, PB_LTYPE_SUBMESSAGE, PB_LTYPE_FIXED_LENGTH_BYTES}"

fun plain_field :: "pb_field \<Rightarrow> bool" and plain_ptr :: "pb_ptr \<Rightarrow> bool" where
  "plain_field (PbField tg ty off so ds as p) =
     ((PB_ATYPE ty = PB_ATYPE_STATIC \<or> PB_ATYPE ty = PB_ATYPE_POINTER \<and> ds \<noteq> 0) \<and> known_ltype (PB_LTYPE ty) \<and>
      (PB_HTYPE ty = PB_HTYPE_ONEOF \<longrightarrow> so \<noteq> 0) \<and> plain_ptr p)"
| "plain_ptr (Submsg_fields fs) = list_all plain_field fs"
| "plain_ptr _ = True"

fun depth_field :: "pb_field \<Rightarrow> nat" and depth_ptr :: "pb_ptr \<Rightarrow> nat" where
  "depth_field (PbField tg ty off so ds as p) = depth_ptr p"
| "depth_ptr (Submsg_fields fs) = Suc (foldr (\<lambda>f d. max (depth_field f) d) fs 0)"
| "depth_ptr _ = 1"

definition depth_fields :: "pb_field list \<Rightarrow> nat" where
  "depth_fields fs = foldr (\<lambda>f d. max (depth_field f) d) fs 0"

lemma depth_fields_mem: "f \<in> set fs \<Longrightarrow> depth_field f \<le> depth_fields fs"
  by (induction fs) (auto simp: depth_fields_def)

lemma depth_submsg: "f \<in> set fs \<Longrightarrow> fptr f = Submsg_fields fs' \<Longrightarrow> depth_fields fs' < depth_fields fs"
  using depth_fields_mem [of f fs] by (cases f) (simp add: depth_fields_def)

lemma plain_submsg: "plain_field f \<Longrightarrow> fptr f = Submsg_fields fs' \<Longrightarrow> list_all plain_field fs'"
  by (cases f) simp

lemma plain_fieldD:
  assumes "plain_field f"
  shows "PB_ATYPE (ftype f) = PB_ATYPE_STATIC \<or> PB_ATYPE (ftype f) = PB_ATYPE_POINTER"
    and "PB_LTYPE (ftype f) \<noteq> PB_LTYPE_EXTENSION"
    and "PB_HTYPE (ftype f) = PB_HTYPE_ONEOF \<Longrightarrow> size_offset f \<noteq> 0"
    and "known_ltype (PB_LTYPE (ftype f))"
    and "PB_ATYPE (ftype f) = PB_ATYPE_POINTER \<Longrightarrow> data_size f \<noteq> 0"
  using assms by (cases f; auto simp: known_ltype_def)+

text \<open>The descriptors an iterator over a plain array can stand on, the terminator included.\<close>

lemma plain_last: "plain_field PB_LAST_FIELD"
  by (simp add: PB_LAST_FIELD_def PB_TYPE_defs known_ltype_def)

lemma plain_field_at: "list_all plain_field fs \<Longrightarrow> plain_field (field_at fs k)"
  by (simp add: field_at_def plain_last list_all_length)

lemma plain_submsg_fields: "plain_field f \<Longrightarrow> list_all plain_field (submsg_fields (fptr f))"
  by (cases "fptr f") (simp_all add: plain_last plain_submsg)

lemma depth_last [simp]: "depth_fields [PB_LAST_FIELD] = 1" "depth_field PB_LAST_FIELD = 1"
  by (simp_all add: depth_fields_def PB_LAST_FIELD_def)

lemma depth_submsg_fields: "depth_fields (submsg_fields (fptr f)) \<le> depth_field f"
  by (cases f) (cases "fptr f"; simp add: depth_fields_def [symmetric])

end
