(* ===== verification/Pb_Wire.thy ===== *)
theory Pb_Wire
  imports Pb_Encode Pb_Plain
begin

unbundle bit_operations_syntax

text \<open>
  What the message encoder promises. \<open>message_bytes\<close> specifies the wire format of a message in
  memory as a function from the descriptors and the struct to a byte string, without streams, passes
  or buffers. The refinement \<open>encodes_message\<close> says that \<open>pb_encode\<close> emits exactly these bytes, for
  every plain descriptor array (no callbacks, no extensions) and fuel above its nesting depth.
\<close>

section \<open>The contract of the message encoder\<close>

text \<open>\<open>f\<close> comes back on every stream the contract looks at, and emits \<open>bs\<close>.\<close>

definition emits :: "owriter \<Rightarrow> byte list \<Rightarrow> bool" where
  "emits f bs \<longleftrightarrow> emitter (\<lambda>s. the (f s)) bs \<and> (\<forall>s. stream_ok s \<longrightarrow> f s \<noteq> None)"

lemma emits_lift: "emitter w bs \<Longrightarrow> emits (lift_w w) bs"
  by (simp add: emits_def lift_w_def)

lemma emits_ok: "emits ok_w []"
  by (simp add: emits_def ok_w_def emitter_skip)

lemma emits_cong: "emits f bs \<Longrightarrow> (\<And>s. stream_ok s \<Longrightarrow> g s = f s) \<Longrightarrow> emits g bs"
  by (auto simp: emits_def intro: emitter_cong)

lemma emitter_stream_ok:
  assumes "emitter f bs" and "stream_ok s" and "f s = (True, s')"
  shows "stream_ok s'"
proof (cases "obuf_ok s")
  case True
  have "bytes_written s + length bs \<le> max_size s"
  proof (rule ccontr)
    assume "\<not> ?thesis"
    with emitter.emit_full [OF assms(1) True] assms(3) show False by (simp add: overflowed_def)
  qed
  with emitter.emit_room [OF assms(1) True] obuf_ok_put [OF True] assms(3) show ?thesis
    by (auto simp: stream_ok_def)
next
  case False
  with assms(2) have "ocallback s = Out_null" "bytes_written s < 2 ^ 64" by (auto simp: stream_ok_def)
  with emitter.emit_sizing [OF assms(1)] assms(3) show ?thesis
    by (auto simp: stream_ok_def)
qed

lemma emits_oseq:
  assumes f: "emits f bs" and g: "emits g cs" and small: "length (bs @ cs) < 2 ^ 63"
  shows "emits (oseq f g) (bs @ cs)"
proof -
  let ?f = "\<lambda>s. the (f s)" and ?g = "\<lambda>s. the (g s)"
  have eq: "oseq f g s = Some (seq_ok ?f ?g s)" if s: "stream_ok s" for s
  proof -
    from f s obtain ok s1 where fs: "f s = Some (ok, s1)" by (auto simp: emits_def)
    have "stream_ok s1" if ok
      using emitter_stream_ok [of ?f bs s s1] f s fs that by (simp add: emits_def)
    with g fs show ?thesis by (cases ok) (auto simp: oseq_def seq_ok_def emits_def)
  qed
  have "emitter (seq_ok ?f ?g) (bs @ cs)"
    using f g small by (auto simp: emits_def intro: emitter_seq)
  then have "emitter (\<lambda>s. the (oseq f g s)) (bs @ cs)"
    by (rule emitter_cong) (simp add: eq)
  then show ?thesis by (simp add: emits_def eq)
qed

lemma emits_sizing:
  assumes "emits f bs"
  shows "f PB_OSTREAM_SIZING = Some (True, PB_OSTREAM_SIZING\<lparr>bytes_written := length bs\<rparr>)"
proof -
  from assms have em: "emitter (\<lambda>s. the (f s)) bs" and some: "f PB_OSTREAM_SIZING \<noteq> None"
    by (simp_all add: emits_def)
  have "size_add 0 (length bs) = length bs"
    using emitter.emit_small [OF em] by (simp add: size_add_def)
  then show ?thesis
    using emitter.emit_sizing [OF em, of PB_OSTREAM_SIZING] some
    by (auto simp: PB_OSTREAM_SIZING_def)
qed

lemma emits_room:
  "emits f bs \<Longrightarrow> obuf_ok s \<Longrightarrow> bytes_written s + length bs \<le> max_size s \<Longrightarrow> f s = Some (True, put bs s)"
  using emitter.emit_room [of "\<lambda>s. the (f s)" bs s] by (auto simp: emits_def stream_ok_def)

text \<open>Writing to a fresh buffer of any size: success exactly if the bytes fit, and a prefix of them in
  any case.\<close>

lemma emits_from_buffer:
  assumes f: "emits f bs" and size: "bufsize < 2 ^ 63"
  shows "\<exists>ok s. f (pb_ostream_from_buffer bufsize) = Some (ok, s) \<and>
     (ok \<longleftrightarrow> length bs \<le> bufsize) \<and> length (ostate s) \<le> bufsize \<and>
     ostate s = take (length (ostate s)) bs \<and> bytes_written s = length (ostate s) \<and>
     oerrmsg s = (if ok then None else Some ''stream full'')"
proof -
  let ?s = "pb_ostream_from_buffer bufsize"
  from size have ok: "obuf_ok ?s" by simp
  have init: "bytes_written ?s = 0" "max_size ?s = bufsize" "ostate ?s = []" "oerrmsg ?s = None"
    by (simp_all add: pb_ostream_from_buffer_def)
  show ?thesis
  proof (cases "length bs \<le> bufsize")
    case True
    then have "f ?s = Some (True, put bs ?s)" using init by (intro emits_room [OF f ok]) simp
    with True init show ?thesis by (auto simp: init)
  next
    case False
    from f ok obtain r where r: "f ?s = Some r"
      unfolding emits_def stream_ok_def by (metis option.exhaust)
    with False f ok init have "overflowed bs ?s r"
      using emitter.emit_full [of "\<lambda>s. the (f s)" bs ?s] by (simp add: emits_def)
    then obtain k where k: "k < length bs" "k \<le> bufsize"
      "r = (False, (put (take k bs) ?s)\<lparr>oerrmsg := Some ''stream full''\<rparr>)"
      unfolding overflowed_def using init by (cases r) auto
    with r False init show ?thesis by auto
  qed
qed

text \<open>The payload of a length-delimited value whose size is known: counted on a sizing stream,
  written by \<open>f\<close> on another one.\<close>

lemma emits_payload:
  assumes small: "length bs < 2 ^ 62"
    and wr: "\<And>s. obuf_ok s \<Longrightarrow> (if bytes_written s + length bs \<le> max_size s
        then f s = Some (True, put bs s) else \<exists>r. f s = Some r \<and> overflowed bs s r)"
  shows "emits (\<lambda>s. if ocallback s = Out_null then Some (pb_write e [] (length bs) s) else f s) bs"
    (is "emits ?g bs")
proof -
  have not_null: "obuf_ok s \<Longrightarrow> ocallback s \<noteq> Out_null" for s by (simp add: obuf_ok_def)
  have "emitter (\<lambda>s. the (?g s)) bs"
  proof
    show "length bs < 2 ^ 63" using small by simp
  next
    fix s :: pb_ostream assume "ocallback s = Out_null" and "bytes_written s < 2 ^ 64"
    then show "the (?g s) = (True, s\<lparr>bytes_written := size_add (bytes_written s) (length bs)\<rparr>)"
      by (simp add: pb_write_def)
  next
    fix s assume "obuf_ok s" and "bytes_written s + length bs \<le> max_size s"
    then show "the (?g s) = (True, put bs s)" using wr [of s] not_null by simp
  next
    fix s assume "obuf_ok s" and "max_size s < bytes_written s + length bs"
    then show "overflowed bs s (the (?g s))" using wr [of s] not_null by auto
  qed
  moreover have "?g s \<noteq> None" if "stream_ok s" for s
    using that wr [of s] by (auto simp: stream_ok_def split: if_splits)
  ultimately show ?thesis by (simp add: emits_def)
qed

abbreviation delimited :: "byte list \<Rightarrow> byte list" where
  "delimited bs \<equiv> varint_spec (length bs) @ bs"

lemma length_prefix: "n < 2 ^ 62 \<Longrightarrow> length (varint_spec n) \<le> 10"
  using varint_spec_max10 [of "word_of_nat n"] by (simp add: unat_of_nat)

lemma emits_length: "n < 2 ^ 62 \<Longrightarrow> emits (lift_w (pb_encode_varint e (word_of_nat n))) (varint_spec n)"
  using emitter_varint [of e "word_of_nat n"] by (intro emits_lift) (simp add: unat_of_nat)

lemma emits_submessage:
  assumes sub: "emits (sub fs src) bs" and small: "length bs < 2 ^ 62"
  shows "emits (pb_encode_submessage e sub fs src) (delimited bs)"
proof -
  define body where "body = (\<lambda>s1. 
            if size_add (bytes_written s1) (length bs) > max_size s1 then Some (oerr ''stream full'' s1)
            else
              case sub fs src
                (PB_OSTREAM_SIZING\<lparr>ocallback := ocallback s1, ostate := ostate s1, max_size := length bs,
                  bytes_written := 0, oerrmsg := None\<rparr>) of
                None \<Rightarrow> None
              | Some (status, ss) \<Rightarrow>
                  let s2 = s1\<lparr>bytes_written := size_add (bytes_written s1) (bytes_written ss),
                              ostate := ostate ss, oerrmsg := oerrmsg ss\<rparr>
                  in if bytes_written ss \<noteq> length bs then Some (oerr ''submsg size changed'' s2)
                     else Some (status, s2))"
  have "if bytes_written s + length bs \<le> max_size s then body s = Some (True, put bs s)
      else \<exists>r. body s = Some r \<and> overflowed bs s r" if s: "obuf_ok s" for s
  proof -
    have nowrap: "size_add (bytes_written s) (length bs) = bytes_written s + length bs"
      using s small by (simp add: obuf_ok_def size_add_def)
    let ?ss = "PB_OSTREAM_SIZING\<lparr>ocallback := ocallback s, ostate := ostate s, max_size := length bs,
                  bytes_written := 0, oerrmsg := None\<rparr>"
    have "obuf_ok ?ss" using s small by (simp add: obuf_ok_def)
    then have "sub fs src ?ss = Some (True, put bs ?ss)" by (rule emits_room [OF sub]) simp
    moreover have "s\<lparr>oerrmsg := None\<rparr> = s" using s by (simp add: obuf_ok_def)
    ultimately show ?thesis using s nowrap
      by (auto simp: body_def put_def obuf_ok_def overflowed_def oerr_def PB_SET_ERROR_def not_le
          intro!: exI [of _ 0])
  qed
  then have "emits (\<lambda>s. if ocallback s = Out_null then Some (pb_write e [] (length bs) s) else body s) bs"
    by (rule emits_payload [OF small])
  then have "emits (oseq (lift_w (pb_encode_varint e (word_of_nat (length bs))))
       (\<lambda>s. if ocallback s = Out_null then Some (pb_write e [] (length bs) s) else body s)) (delimited bs)"
    using length_prefix [OF small] small by (intro emits_oseq emits_length) simp_all
  then show ?thesis
    by (rule emits_cong)
      (auto simp: pb_encode_submessage_def emits_sizing [OF sub] oseq_def lift_w_def body_def Let_def
        split: prod.splits option.splits)
qed

section \<open>The wire format of a message\<close>

text \<open>Sequencing of optional byte strings.\<close>

definition app_opt :: "byte list option \<Rightarrow> byte list option \<Rightarrow> byte list option" where
  "app_opt x y = (case x of None \<Rightarrow> None | Some bs \<Rightarrow> map_option (\<lambda>cs. bs @ cs) y)"

fun concat_opt :: "byte list option list \<Rightarrow> byte list option" where
  "concat_opt [] = Some []"
| "concat_opt (x # xs) = app_opt x (concat_opt xs)"

definition int_size :: "nat \<Rightarrow> bool" where
  "int_size n \<longleftrightarrow> n \<in> {1, 2, 4, 8}"

text \<open>The encoding of one value at \<open>src\<close>, without its tag. \<open>payload\<close> gives the encoding of a
  submessage.\<close>

definition value_bytes :: "cmem \<Rightarrow> (addr \<Rightarrow> byte list option) \<Rightarrow> pb_field \<Rightarrow> addr \<Rightarrow> byte list option" where
  "value_bytes m payload f src =
     (let lt = PB_LTYPE (ftype f); n = data_size f in
      if lt = PB_LTYPE_BOOL then Some (varint_spec (if mbytes m src \<noteq> 0 then 1 else 0))
      else if lt = PB_LTYPE_VARINT then
        (if int_size n then Some (varint_spec (unat (load_sint n m src))) else None)
      else if lt = PB_LTYPE_UVARINT then
        (if int_size n then Some (varint_spec (load_uint n m src)) else None)
      else if lt = PB_LTYPE_SVARINT then
        (if int_size n then Some (varint_spec (unat (zigzag (load_sint n m src)))) else None)
      else if lt = PB_LTYPE_FIXED32 then Some (load_bytes m src 4)
      else if lt = PB_LTYPE_FIXED64 then Some (load_bytes m src 8)
      else if lt = PB_LTYPE_BYTES then
        (let k = (if src = 0 then 0 else load_size m src) in
         if src \<noteq> 0 \<and> PB_ATYPE (ftype f) = PB_ATYPE_STATIC \<and> k + 4 > n then None
         else Some (delimited (load_bytes m (src + 4) k)))
      else if lt = PB_LTYPE_STRING then
        Some (delimited (load_bytes m src (if src = 0 then 0 else
          strnlen_loop m (if PB_ATYPE (ftype f) = PB_ATYPE_POINTER then SIZE_MAX else n) src 0)))
      else if lt = PB_LTYPE_SUBMESSAGE then map_option delimited (payload src)
      else if lt = PB_LTYPE_FIXED_LENGTH_BYTES then Some (delimited (load_bytes m src n))
      else None)"

definition wire_type_of :: "byte \<Rightarrow> u32 option" where
  "wire_type_of lt =
     (if lt \<in> {PB_LTYPE_BOOL, PB_LTYPE_VARINT, PB_LTYPE_UVARINT, PB_LTYPE_SVARINT} then Some PB_WT_VARINT
      else if lt = PB_LTYPE_FIXED32 then Some PB_WT_32BIT
      else if lt = PB_LTYPE_FIXED64 then Some PB_WT_64BIT
      else if lt \<in> {PB_LTYPE_BYTES, PB_LTYPE_STRING, PB_LTYPE_SUBMESSAGE, PB_LTYPE_FIXED_LENGTH_BYTES}
      then Some PB_WT_STRING
      else None)"

definition tag_bytes :: "pb_field \<Rightarrow> byte list option" where
  "tag_bytes f = map_option (\<lambda>wt. varint_spec (tag_value wt (tag f))) (wire_type_of (PB_LTYPE (ftype f)))"

fun item_bytes :: "nat \<Rightarrow> (addr \<Rightarrow> byte list option) \<Rightarrow> addr \<Rightarrow> nat \<Rightarrow> byte list option" where
  "item_bytes sz val p 0 = Some []"
| "item_bytes sz val p (Suc n) = app_opt (val p) (item_bytes sz val (p + sz) n)"

definition array_bytes :: "cmem \<Rightarrow> (addr \<Rightarrow> byte list option) \<Rightarrow> pb_field \<Rightarrow> addr \<Rightarrow> nat \<Rightarrow> byte list option" where
  "array_bytes m payload f p count =
     (let lt = PB_LTYPE (ftype f) in
      if count = 0 then Some []
      else if PB_ATYPE (ftype f) \<noteq> PB_ATYPE_POINTER \<and> count > array_size f then None
      else if lt \<le> PB_LTYPE_LAST_PACKABLE then
        map_option (\<lambda>bs. varint_spec (tag_value PB_WT_STRING (tag f)) @ delimited bs)
          (item_bytes (data_size f) (value_bytes m payload f) p count)
      else item_bytes (data_size f)
        (\<lambda>q. app_opt (tag_bytes f) (value_bytes m payload f
           (if PB_ATYPE (ftype f) = PB_ATYPE_POINTER \<and> (lt = PB_LTYPE_STRING \<or> lt = PB_LTYPE_BYTES)
            then load_ptr m q else q))) p count)"

text \<open>Whether an optional field is present.\<close>

definition field_present :: "cmem \<Rightarrow> pb_field \<Rightarrow> addr \<Rightarrow> bool" where
  "field_present m f pdata =
     (if size_offset f \<noteq> 0 then mbytes m (ptr_offset pdata (size_offset f)) \<noteq> 0
      else if PB_ATYPE (ftype f) = PB_ATYPE_POINTER then load_ptr m pdata \<noteq> 0
      else \<not> pb_check_proto3_default_value m f pdata)"

definition field_bytes :: "cmem \<Rightarrow> (addr \<Rightarrow> byte list option) \<Rightarrow> pb_field \<Rightarrow> addr \<Rightarrow> byte list option" where
  "field_bytes m payload f pdata =
     (let ty = ftype f;
          p = (if PB_ATYPE ty = PB_ATYPE_POINTER then load_ptr m pdata else pdata);
          psize = ptr_offset pdata (size_offset f);
          tagged = app_opt (tag_bytes f) (value_bytes m payload f p)
      in if PB_HTYPE ty = PB_HTYPE_REQUIRED then (if p = 0 then None else tagged)
         else if PB_HTYPE ty = PB_HTYPE_OPTIONAL then (if field_present m f pdata then tagged else Some [])
         else if PB_HTYPE ty = PB_HTYPE_REPEATED then
           array_bytes m payload f p (if size_offset f \<noteq> 0 then load_size m psize else array_size f)
         else (if load_size m psize = unat (tag f) then tagged else Some []))"

lemma size_submsg_less: "fptr f = Submsg_fields fs' \<Longrightarrow> f \<in> set fs \<Longrightarrow> size_list size fs' < size_list size fs"
proof -
  assume f: "fptr f = Submsg_fields fs'" "f \<in> set fs"
  then have "size_list size fs' < size f" by (cases f) simp
  also have "size f \<le> size_list size fs" using f(2) by (simp add: size_list_estimation')
  finally show ?thesis .
qed

function message_bytes :: "cmem \<Rightarrow> pb_field list \<Rightarrow> addr \<Rightarrow> byte list option" where
  "message_bytes m fs src =
     concat_opt (map (\<lambda>it. field_bytes m
        (\<lambda>q. case fptr (cur it) of
           Submsg_fields fs' \<Rightarrow> message_bytes m fs' q
         | Default_value _ \<Rightarrow> Some []
         | Null \<Rightarrow> None) (cur it) (pData it)) (iter_all fs src))"
  by pat_completeness auto

termination
  by (relation "measure (\<lambda>(m, fs, src). size_list size fs)") (auto dest!: iter_all_mem size_submsg_less)

declare message_bytes.simps [simp del]

section \<open>The encoder implements the wire format\<close>

text \<open>\<open>f\<close> emits the bytes of the specification, if there are not too many of them to be counted.\<close>

definition encodes :: "owriter \<Rightarrow> byte list option \<Rightarrow> bool" where
  "encodes f r \<longleftrightarrow> (\<forall>bs. r = Some bs \<longrightarrow> length bs < 2 ^ 62 \<longrightarrow> emits f bs)"

lemma encodes_Some: "encodes f (Some bs) \<longleftrightarrow> (length bs < 2 ^ 62 \<longrightarrow> emits f bs)"
  by (simp add: encodes_def)

lemma encodes_None [simp]: "encodes f None"
  by (simp add: encodes_def)

lemma encodes_ok [simp]: "encodes ok_w (Some [])" "encodes (\<lambda>s. Some (True, s)) (Some [])"
  using emits_ok by (simp_all add: encodes_def ok_w_def [abs_def])

lemma encodes_oseq: "encodes f x \<Longrightarrow> encodes g y \<Longrightarrow> encodes (oseq f g) (app_opt x y)"
  by (auto simp: encodes_def app_opt_def intro!: emits_oseq split: option.splits)

lemma encodes_lift: "emitter w bs \<Longrightarrow> encodes (lift_w w) (Some bs)"
  by (simp add: encodes_def emits_lift)

lemma encodes_string: "length bs = n \<Longrightarrow> encodes (lift_w (pb_encode_string e bs n)) (Some (varint_spec n @ bs))"
  using emitter_string [of n bs e] by (auto simp: encodes_def intro!: emits_lift)

lemma encodes_varint_load:
  "n \<le> 8 \<Longrightarrow> encodes (lift_w (pb_encode_varint e (word_of_nat (load_uint n m p)))) (Some (varint_spec (load_uint n m p)))"
proof -
  assume "n \<le> 8"
  then have "load_uint n m p < 256 ^ 8"
    using load_uint_bound [of n m p] power_increasing [of n 8 "256::nat"] by simp
  then have "unat (word_of_nat (load_uint n m p) :: u64) = load_uint n m p" by (simp add: unat_of_nat)
  then show ?thesis using emitter_varint [of e "word_of_nat (load_uint n m p)"] by (simp add: encodes_lift)
qed

text \<open>The descriptor's encoder function emits the value.\<close>

lemma encodes_value:
  assumes sub: "\<And>q. fptr f \<noteq> Null \<Longrightarrow> encodes (sub (submsg_fields (fptr f)) q) (payload q)"
    and null: "\<And>q. fptr f = Null \<Longrightarrow> payload q = None"
  shows "encodes (PB_ENCODERS e sub m (PB_LTYPE (ftype f)) f src) (value_bytes m payload f src)"
proof -
  have subm: "encodes (pb_enc_submessage e sub f src) (map_option delimited (payload src))"
    using sub [of src] null [of src] emits_submessage
    by (auto simp: encodes_def pb_enc_submessage_def)
  have bytes: "encodes (pb_enc_bytes e m f src)
     (let k = (if src = 0 then 0 else load_size m src) in
         if src \<noteq> 0 \<and> PB_ATYPE (ftype f) = PB_ATYPE_STATIC \<and> k + 4 > data_size f then None
         else Some (delimited (load_bytes m (src + 4) k)))"
  proof (cases "src = 0")
    case True
    then show ?thesis using encodes_string [of "[]" 0 e] by (simp add: pb_enc_bytes_def load_bytes_def)
  next
    case False
    have "load_size m src < 256 ^ 4" by (rule load_uint_bound)
    then have "PB_BYTES_ARRAY_T_ALLOCSIZE (load_size m src) = load_size m src + 4"
      by (simp add: PB_BYTES_ARRAY_T_ALLOCSIZE_def size_add_def)
    with False show ?thesis by (auto simp: pb_enc_bytes_def Let_def encodes_string)
  qed
  have str: "encodes (pb_enc_string e m f src) (Some (delimited (load_bytes m src (if src = 0 then 0 else
          strnlen_loop m (if PB_ATYPE (ftype f) = PB_ATYPE_POINTER then SIZE_MAX else data_size f) src 0))))"
    unfolding pb_enc_string_def Let_def by (simp add: encodes_string)
  consider "data_size f = 1" | "data_size f = 2" | "data_size f = 4" | "data_size f = 8" | "\<not> int_size (data_size f)"
    by (auto simp: int_size_def)
  then have ints: "encodes (pb_enc_varint e m f src) (if int_size (data_size f) then Some (varint_spec (unat (load_sint (data_size f) m src))) else None)"
      "encodes (pb_enc_uvarint e m f src) (if int_size (data_size f) then Some (varint_spec (load_uint (data_size f) m src)) else None)"
      "encodes (pb_enc_svarint e m f src) (if int_size (data_size f) then Some (varint_spec (unat (zigzag (load_sint (data_size f) m src)))) else None)"
    by (cases; simp add: int_size_def pb_enc_varint_def pb_enc_uvarint_def pb_enc_svarint_def
         encodes_lift emitter_varint emitter_svarint encodes_varint_load)+
  have bool: "encodes (pb_enc_bool e m f src) (Some (varint_spec (if mbytes m src \<noteq> 0 then 1 else 0)))"
    using encodes_lift [OF emitter_varint [of e 1]] encodes_lift [OF emitter_varint [of e 0]]
    by (simp add: pb_enc_bool_def safe_read_bool_def)
  show ?thesis
    unfolding PB_ENCODERS_def value_bytes_def Let_def
    using subm bytes str ints bool
    by (simp add: Let_def pb_enc_fixed32_def pb_enc_fixed64_def encodes_lift emitter_fixed32 emitter_fixed64
        pb_enc_fixed_length_bytes_def encodes_string)
qed

lemma encodes_cong: "encodes f r \<Longrightarrow> (\<And>s. stream_ok s \<Longrightarrow> g s = f s) \<Longrightarrow> encodes g r"
  by (auto simp: encodes_def intro: emits_cong)

lemma encodes_skip: "(\<And>s. f s = Some (True, s)) \<Longrightarrow> encodes f (Some [])"
  using encodes_ok(2) by (rule encodes_cong) simp

lemma encodes_items:
  "(\<And>q. encodes (step q) (val q)) \<Longrightarrow> encodes (items_loop sz step p n) (item_bytes sz val p n)"
  by (induction n arbitrary: p) (auto intro: encodes_oseq)

lemma encodes_tag: "encodes (lift_w (pb_encode_tag_for_field e f)) (tag_bytes f)"
proof (cases "wire_type_of (PB_LTYPE (ftype f))")
  case None
  then show ?thesis by (simp add: tag_bytes_def)
next
  case (Some wt)
  then have "unat wt < 8" by (auto simp: wire_type_of_def split: if_splits)
  moreover have "pb_encode_tag_for_field e f = pb_encode_tag e wt (tag f)"
    using Some by (auto simp: fun_eq_iff pb_encode_tag_for_field_def Let_def wire_type_of_def split: if_splits)
  ultimately show ?thesis using Some by (simp add: tag_bytes_def encodes_lift emitter_tag)
qed

text \<open>The size computed before a packed array is the number of bytes of its items.\<close>

lemma item_bytes_length:
  assumes "\<And>q bs. val q = Some bs \<Longrightarrow> length bs = k"
  shows "item_bytes sz val p n = Some bs \<Longrightarrow> length bs = k * n"
proof (induction n arbitrary: p bs)
  case 0
  then show ?case by simp
next
  case (Suc n)
  then obtain x y where "val p = Some x" "item_bytes sz val (p + sz) n = Some y" "bs = x @ y"
    by (auto simp: app_opt_def split: option.splits)
  with Suc.IH [of "p + sz" y] assms [of p x] show ?case by simp
qed

lemma packed_size_eq:
  assumes val: "\<And>q. encodes (func f q) (value_bytes m payload f q)"
    and bs: "item_bytes (data_size f) (value_bytes m payload f) p n = Some bs" and small: "length bs < 2 ^ 62"
  shows "packed_size f p n func = Some (Some (length bs))"
proof -
  have "emits (items_loop (data_size f) (func f) p n) bs"
    using encodes_items [of "func f" "value_bytes m payload f", OF val, of "data_size f" p n] bs small
    by (simp add: encodes_def)
  moreover have "length bs = 4 * n" if "PB_LTYPE (ftype f) = PB_LTYPE_FIXED32"
    by (rule item_bytes_length [OF _ bs]) (auto simp: value_bytes_def that)
  moreover have "length bs = 8 * n" if "PB_LTYPE (ftype f) = PB_LTYPE_FIXED64"
    by (rule item_bytes_length [OF _ bs]) (auto simp: value_bytes_def that)
  ultimately show ?thesis using small
    by (auto simp: packed_size_def emits_sizing size_mult_def)
qed

lemma emits_payload_same:
  assumes f: "emits f bs" and small: "length bs < 2 ^ 62"
  shows "emits (\<lambda>s. if ocallback s = Out_null then Some (pb_write e [] (length bs) s) else f s) bs"
proof (rule emits_payload [OF small])
  fix s assume s: "obuf_ok s"
  then obtain r where "f s = Some r" using f by (cases "f s") (auto simp: emits_def stream_ok_def)
  with s f emits_room [OF f s] show "if bytes_written s + length bs \<le> max_size s
        then f s = Some (True, put bs s) else \<exists>r. f s = Some r \<and> overflowed bs s r"
    using emitter.emit_full [of "\<lambda>s. the (f s)" bs s] by (auto simp: emits_def)
qed

lemma encodes_array:
  assumes val: "\<And>q. encodes (func f q) (value_bytes m payload f q)"
  shows "encodes (encode_array e m f p n func) (array_bytes m payload f p n)"
proof -
  let ?lt = "PB_LTYPE (ftype f)"
  consider "n = 0" | "n \<noteq> 0" "PB_ATYPE (ftype f) \<noteq> PB_ATYPE_POINTER \<and> n > array_size f"
    | (packed) "n \<noteq> 0" "\<not> (PB_ATYPE (ftype f) \<noteq> PB_ATYPE_POINTER \<and> n > array_size f)" "?lt \<le> PB_LTYPE_LAST_PACKABLE"
    | (plain) "n \<noteq> 0" "\<not> (PB_ATYPE (ftype f) \<noteq> PB_ATYPE_POINTER \<and> n > array_size f)" "\<not> ?lt \<le> PB_LTYPE_LAST_PACKABLE"
    by blast
  then show ?thesis
  proof cases
    case 1
    then show ?thesis using encodes_ok(2) by (simp add: array_bytes_def encode_array_def [abs_def])
  next
    case 2
    then show ?thesis by (simp add: array_bytes_def)
  next
    case packed
    have "emits (encode_array e m f p n func) (varint_spec (tag_value 2 (tag f)) @ delimited bs)"
      if bs: "item_bytes (data_size f) (value_bytes m payload f) p n = Some bs"
        and small: "length (varint_spec (tag_value 2 (tag f)) @ delimited bs) < 2 ^ 62" for bs
    proof -
      let ?pay = "\<lambda>s. if ocallback s = Out_null then Some (pb_write e [] (length bs) s)
          else items_loop (data_size f) (func f) p n s"
      from small have small': "length bs < 2 ^ 62" by simp
      have "emits (items_loop (data_size f) (func f) p n) bs"
        using encodes_items [of "func f" "value_bytes m payload f", OF val, of "data_size f" p n] bs small'
        by (simp add: encodes_def)
      then have "emits ?pay bs" by (rule emits_payload_same [OF _ small'])
      then have "emits (oseq (lift_w (pb_encode_tag e 2 (tag f)))
          (oseq (lift_w (pb_encode_varint e (word_of_nat (length bs)))) ?pay))
        (varint_spec (tag_value 2 (tag f)) @ delimited bs)"
        using small length_prefix [OF small']
        by (intro emits_oseq emits_lift emitter_tag emits_length) simp_all
      then show ?thesis
        by (rule emits_cong)
          (use packed packed_size_eq [of func f, OF val bs small'] in
            \<open>auto simp: encode_array_def oseq_def lift_w_def split: prod.splits\<close>)
    qed
    with packed show ?thesis by (auto simp: array_bytes_def encodes_def)
  next
    case plain
    have "encodes (items_loop (data_size f)
          (\<lambda>p. oseq (lift_w (pb_encode_tag_for_field e f))
             (if PB_ATYPE (ftype f) = PB_ATYPE_POINTER \<and> (?lt = PB_LTYPE_STRING \<or> ?lt = PB_LTYPE_BYTES)
              then func f (load_ptr m p) else func f p)) p n)
       (item_bytes (data_size f)
        (\<lambda>q. app_opt (tag_bytes f) (value_bytes m payload f
           (if PB_ATYPE (ftype f) = PB_ATYPE_POINTER \<and> (?lt = PB_LTYPE_STRING \<or> ?lt = PB_LTYPE_BYTES)
            then load_ptr m q else q))) p n)"
      by (intro encodes_items encodes_oseq encodes_tag) (auto simp: val)
    with plain show ?thesis
      by (auto simp: array_bytes_def Let_def encode_array_def intro: encodes_cong)
  qed
qed

lemma encodes_basic_field:
  assumes val: "\<And>q. encodes (PB_ENCODERS e sub m (PB_LTYPE (ftype f)) f q) (value_bytes m payload f q)"
    and oneof: "PB_HTYPE (ftype f) = PB_HTYPE_ONEOF \<Longrightarrow> size_offset f \<noteq> 0"
  shows "encodes (encode_basic_field e sub m f p) (field_bytes m payload f p)"
proof -
  let ?q = "if PB_ATYPE (ftype f) = PB_ATYPE_POINTER then load_ptr m p else p"
  let ?func = "PB_ENCODERS e sub m (PB_LTYPE (ftype f))"
  let ?both = "oseq (lift_w (pb_encode_tag_for_field e f)) (?func f ?q)"
  let ?tagged = "app_opt (tag_bytes f) (value_bytes m payload f ?q)"
  have tagged: "encodes ?both ?tagged" by (intro encodes_oseq encodes_tag val)
  note array = encodes_array [of ?func f, OF val]
  show ?thesis
  proof (rule PB_HTYPE_cases [of "ftype f"])
    assume "PB_HTYPE (ftype f) = PB_HTYPE_REQUIRED"
    with tagged show ?thesis
      by (auto simp: field_bytes_def Let_def encode_basic_field_def intro: encodes_cong)
  next
    assume h: "PB_HTYPE (ftype f) = PB_HTYPE_OPTIONAL"
    then have "encode_basic_field e sub m f p s = (if field_present m f p then ?both s else Some (True, s))" for s
      by (simp add: encode_basic_field_def Let_def field_present_def safe_read_bool_def)
    with h tagged show ?thesis
      by (auto simp: field_bytes_def Let_def intro: encodes_cong encodes_skip)
  next
    assume h: "PB_HTYPE (ftype f) = PB_HTYPE_REPEATED"
    let ?n = "if size_offset f \<noteq> 0 then load_size m (ptr_offset p (size_offset f)) else array_size f"
    have "encode_basic_field e sub m f p s = encode_array e m f ?q ?n ?func s" for s
      using h by (simp add: encode_basic_field_def Let_def)
    then have "encodes (encode_basic_field e sub m f p) (array_bytes m payload f ?q ?n)"
      by (rule encodes_cong [OF array])
    with h show ?thesis by (simp add: field_bytes_def Let_def)
  next
    assume h: "PB_HTYPE (ftype f) = PB_HTYPE_ONEOF"
    with oneof tagged show ?thesis
      by (auto simp: field_bytes_def Let_def encode_basic_field_def intro: encodes_cong encodes_skip)
  qed
qed

section \<open>Messages\<close>

lemma encodes_all:
  assumes "\<And>it. it \<in> set its \<Longrightarrow> encodes (encode_one e sub m k (cur it) (pData it)) (spec it)"
  shows "encodes (encode_all e sub m k its) (concat_opt (map spec its))"
  using assms by (induction its) (auto intro: encodes_oseq)

lemma encodes_message:
  "list_all plain_field fs \<Longrightarrow> depth_fields fs < n \<Longrightarrow>
     encodes (pb_encode e m n fs src) (message_bytes m fs src)"
proof (induction n arbitrary: fs src)
  case 0
  then show ?case by simp
next
  case (Suc n)
  let ?payload = "\<lambda>f q. case fptr f of Submsg_fields fs' \<Rightarrow> message_bytes m fs' q
         | Default_value _ \<Rightarrow> Some [] | Null \<Rightarrow> None"
  have empty: "encodes (pb_encode e m n [PB_LAST_FIELD] q) (Some [])" if "0 < n" for q
    using that by (cases n) (simp_all add: iter_all_def pb_field_iter_begin_def field_at_def PB_LAST_FIELD_def)
  have "encodes (encode_one e (pb_encode e m n) m n (cur it) (pData it))
      (field_bytes m (?payload (cur it)) (cur it) (pData it))" if "it \<in> set (iter_all fs src)" for it
  proof -
    let ?f = "cur it"
    from that have f: "?f \<in> set fs" using iter_all_mem by blast
    then have pl: "plain_field ?f" using Suc.prems by (simp add: list_all_iff)
    have "encodes (pb_encode e m n (submsg_fields (fptr ?f)) q) (?payload ?f q)" if "fptr ?f \<noteq> Null" for q
    proof (cases "fptr ?f")
      case (Submsg_fields fs')
      with Suc.IH [OF plain_submsg [OF pl this]] depth_submsg [OF f this] Suc.prems show ?thesis by simp
    next
      case (Default_value x)
      then have "depth_field ?f = 1" by (cases ?f) simp
      with depth_fields_mem [OF f] Suc.prems have "0 < n" by simp
      with empty Default_value show ?thesis by simp
    qed (use that in simp)
    then have "encodes (encode_basic_field e (pb_encode e m n) m ?f (pData it))
        (field_bytes m (?payload ?f) ?f (pData it))"
      by (intro encodes_basic_field encodes_value) (use plain_fieldD(3) [OF pl] in auto)
    then show ?thesis
      using plain_fieldD [OF pl] by (auto simp: encode_one_def encode_field_def intro: encodes_cong)
  qed
  then show ?case by (subst message_bytes.simps) (simp add: encodes_all)
qed

end
