(* ===== verification/Pb_Heap.thy ===== *)
theory Pb_Heap
  imports Pb_Streams
begin

unbundle bit_operations_syntax

text \<open>
  The parts of \<open>nanopb/pb_decode.c\<close> that work on a message in memory without a stream: setting a
  message to its default values and releasing what it owns. Both walk over the descriptors, into
  submessages and along the linked lists of extensions, so they take fuel; \<open>None\<close> is a walk that
  does not come back.
\<close>

section \<open>Extensions\<close>

definition iter_from_extension :: "env \<Rightarrow> cmem \<Rightarrow> addr \<Rightarrow> pb_field_iter" where
  "iter_from_extension e m ext =
     (let fs = ext_arg (ext_types e (ext_type_ptr m ext));
          dest = load_ptr m (ext_dest_addr ext);
          it = (snd (pb_field_iter_begin fs dest))\<lparr>pData := dest, pSize := At (ext_found_addr ext)\<rparr>
      in if PB_ATYPE (ftype (field_at fs 0)) = PB_ATYPE_POINTER
         then it\<lparr>pData := ext_dest_addr ext\<rparr> else it)"

section \<open>Default values\<close>

text \<open>\<open>do body(&iter); while (pb_field_iter_next(&iter));\<close>\<close>

fun walk :: "(pb_field_iter \<Rightarrow> cmem \<Rightarrow> cmem option) \<Rightarrow> pb_field_iter list \<Rightarrow> cmem \<Rightarrow> cmem option" where
  "walk body [] m = Some m"
| "walk body (it # its) m = (case body it m of None \<Rightarrow> None | Some m1 \<Rightarrow> walk body its m1)"

text \<open>Initialising the data of a static field: a submessage, a default value of \<open>data_size\<close> bytes, or
  zeros.\<close>

definition init_value :: "pb_field_iter \<Rightarrow> cmem \<Rightarrow> cmem" where
  "init_value it m =
     (case fptr (cur it) of
        Null \<Rightarrow> c_memset m (pData it) 0 (data_size (cur it))
      | Default_value bs \<Rightarrow> store_bytes m (pData it) (take (data_size (cur it)) bs)
      | Submsg_fields _ \<Rightarrow> m)"

fun pb_field_set_to_default :: "env \<Rightarrow> nat \<Rightarrow> pb_field_iter \<Rightarrow> cmem \<Rightarrow> cmem option"
  and extension_default_loop :: "env \<Rightarrow> nat \<Rightarrow> addr \<Rightarrow> cmem \<Rightarrow> cmem option"
  and pb_message_set_to_defaults :: "env \<Rightarrow> nat \<Rightarrow> pb_field list \<Rightarrow> addr \<Rightarrow> cmem \<Rightarrow> cmem option" where
  "pb_field_set_to_default e 0 it m = None"
| "pb_field_set_to_default e (Suc n) it m =
     (let ty = ftype (cur it) in
      case pSize it of
        Fixed_count_size \<Rightarrow> None
      | At psize \<Rightarrow>
          if PB_LTYPE ty = PB_LTYPE_EXTENSION then
            extension_default_loop e n (load_ptr m (pData it)) m
          else if PB_ATYPE ty = PB_ATYPE_STATIC then
            (let optional = (PB_HTYPE ty = PB_HTYPE_OPTIONAL \<and> psize \<noteq> pData it);
                 counted = (\<not> optional \<and> (PB_HTYPE ty = PB_HTYPE_REPEATED \<or> PB_HTYPE ty = PB_HTYPE_ONEOF));
                 m1 = (if optional then store_bool m psize False
                       else if counted then store_size m psize 0 else m)
             in if counted then Some m1
                else if PB_LTYPE ty = PB_LTYPE_SUBMESSAGE
                then pb_message_set_to_defaults e n (submsg_fields (fptr (cur it))) (pData it) m1
                else Some (init_value it m1))
          else if PB_ATYPE ty = PB_ATYPE_POINTER then
            (let m1 = store_ptr m (pData it) 0
             in Some (if PB_HTYPE ty = PB_HTYPE_REPEATED \<or> PB_HTYPE ty = PB_HTYPE_ONEOF
                      then store_size m1 psize 0 else m1))
          else Some m)"
| "extension_default_loop e 0 ext m = (if ext = 0 then Some m else None)"
| "extension_default_loop e (Suc n) ext m =
     (if ext = 0 then Some m
      else
        let m1 = store_bool m (ext_found_addr ext) False in
        case pb_field_set_to_default e n (iter_from_extension e m1 ext) m1 of
          None \<Rightarrow> None
        | Some m2 \<Rightarrow> extension_default_loop e n (ext_next m2 ext) m2)"
| "pb_message_set_to_defaults e 0 fs dest m = None"
| "pb_message_set_to_defaults e (Suc n) fs dest m =
     walk (\<lambda>it m. pb_field_set_to_default e n it m) (iter_all fs dest) m"

section \<open>Releasing\<close>

text \<open>\<open>while (count--) { pb_free(*pItem); *pItem++ = NULL; }\<close>\<close>

fun free_items :: "addr \<Rightarrow> nat \<Rightarrow> cmem \<Rightarrow> cmem" where
  "free_items p 0 m = m"
| "free_items p (Suc k) m = free_items (p + 8) k (store_ptr (c_free m (load_ptr m p)) p 0)"

text \<open>\<open>while (count--) { pb_release(fields, pItem); pItem += data_size; }\<close>\<close>

fun release_items :: "(addr \<Rightarrow> cmem \<Rightarrow> cmem option) \<Rightarrow> nat \<Rightarrow> addr \<Rightarrow> nat \<Rightarrow> cmem \<Rightarrow> cmem option" where
  "release_items rel sz p 0 m = Some m"
| "release_items rel sz p (Suc k) m =
     (case rel p m of None \<Rightarrow> None | Some m1 \<Rightarrow> release_items rel sz (p + sz) k m1)"

text \<open>The number of submessages in a field.\<close>

definition submsg_count :: "cmem \<Rightarrow> pb_field_iter \<Rightarrow> addr \<Rightarrow> nat" where
  "submsg_count m it psize =
     (let ty = ftype (cur it);
          static = (PB_ATYPE ty = PB_ATYPE_STATIC);
          count = (if static \<and> psize = pData it then array_size (cur it) else load_size m psize)
      in if PB_HTYPE ty \<noteq> PB_HTYPE_REPEATED then 1
         else if static \<and> count > array_size (cur it) then array_size (cur it)
         else count)"

text \<open>The last part of \<open>pb_release_single_field\<close>: the blocks of a pointer field.\<close>

definition release_pointer :: "pb_field_iter \<Rightarrow> addr \<Rightarrow> cmem \<Rightarrow> cmem" where
  "release_pointer it psize m =
     (let ty = ftype (cur it); repeated = (PB_HTYPE ty = PB_HTYPE_REPEATED) in
      if PB_ATYPE ty = PB_ATYPE_POINTER then
        let m1 = (if repeated \<and> (PB_LTYPE ty = PB_LTYPE_STRING \<or> PB_LTYPE ty = PB_LTYPE_BYTES)
                  then free_items (load_ptr m (pData it)) (load_size m psize) m else m);
            m2 = (if repeated then store_size m1 psize 0 else m1);
            m3 = c_free m2 (load_ptr m2 (pData it))
        in store_ptr m3 (pData it) 0
      else m)"

fun pb_release_single_field :: "env \<Rightarrow> nat \<Rightarrow> pb_field_iter \<Rightarrow> cmem \<Rightarrow> cmem option"
  and extension_release_loop :: "env \<Rightarrow> nat \<Rightarrow> addr \<Rightarrow> cmem \<Rightarrow> cmem option"
  and pb_release :: "env \<Rightarrow> nat \<Rightarrow> pb_field list \<Rightarrow> addr \<Rightarrow> cmem \<Rightarrow> cmem option" where
  "pb_release_single_field e 0 it m = None"
| "pb_release_single_field e (Suc n) it m =
     (let ty = ftype (cur it) in
      case pSize it of
        Fixed_count_size \<Rightarrow> None
      | At psize \<Rightarrow>
          if PB_HTYPE ty = PB_HTYPE_ONEOF \<and> load_size m psize \<noteq> unat (tag (cur it)) then Some m
          else
            let inner =
              (if PB_LTYPE ty = PB_LTYPE_EXTENSION then
                 extension_release_loop e n (load_ptr m (pData it)) m
               else if PB_LTYPE ty = PB_LTYPE_SUBMESSAGE \<and> PB_ATYPE ty \<noteq> PB_ATYPE_CALLBACK then
                 (let pItem = (if PB_ATYPE ty = PB_ATYPE_POINTER then load_ptr m (pData it) else pData it)
                  in if pItem = 0 then Some m
                     else release_items (\<lambda>p m. pb_release e n (submsg_fields (fptr (cur it))) p m)
                       (data_size (cur it)) pItem (submsg_count m it psize) m)
               else Some m)
            in map_option (release_pointer it psize) inner)"
| "extension_release_loop e 0 ext m = (if ext = 0 then Some m else None)"
| "extension_release_loop e (Suc n) ext m =
     (if ext = 0 then Some m
      else case pb_release_single_field e n (iter_from_extension e m ext) m of
        None \<Rightarrow> None
      | Some m1 \<Rightarrow> extension_release_loop e n (ext_next m1 ext) m1)"
| "pb_release e 0 fs dest m = (if dest = 0 then Some m else None)"
| "pb_release e (Suc n) fs dest m =
     (if dest = 0 then Some m
      else walk (\<lambda>it m. pb_release_single_field e n it m) (iter_all fs dest) m)"

end
