(* ===== verification/Pb_Istream.thy ===== *)
theory Pb_Istream
  imports Pb_Ostream
begin

unbundle bit_operations_syntax

text \<open>
  Input streams and the primitive decoders of \<open>nanopb/pb_decode.c\<close>: reading and skipping bytes,
  varints of 32 and 64 bits, tags, skipping a field, substreams of limited length, zig-zag and
  fixed-width integers.
\<close>

section \<open>Reading\<close>

text \<open>A decoder that stores a value through a pointer returns the value: \<open>None\<close> is \<open>false\<close>.\<close>

type_synonym 'a reader = "pb_istream \<Rightarrow> 'a option \<times> pb_istream"

text \<open>Past the end of the array the read of C is undefined; the model reads zeros there.\<close>

definition buf_read :: "nat \<Rightarrow> byte list reader" where
  "buf_read count s =
     (Some (take count (istate s @ replicate count 0)), s\<lparr>istate := drop count (istate s)\<rparr>)"

definition pb_istream_from_buffer :: "byte list \<Rightarrow> nat \<Rightarrow> pb_istream" where
  "pb_istream_from_buffer buf bufsize =
     \<lparr>icallback = Buf_read, istate = buf, bytes_left = bufsize, ierrmsg = None\<rparr>"

text \<open>\<open>stream->callback(stream, buf, count)\<close>.\<close>

definition call_in :: "env \<Rightarrow> nat \<Rightarrow> byte list reader" where
  "call_in e count s =
     (case icallback s of
        Buf_read \<Rightarrow> buf_read count s
      | In_fn i \<Rightarrow> (case in_fn e i (istate s) count of (r, st) \<Rightarrow> (r, s\<lparr>istate := st\<rparr>)))"

text \<open>\<open>pb_read\<close> after the test for a null buffer.\<close>

definition pb_read_bytes :: "env \<Rightarrow> nat \<Rightarrow> byte list reader" where
  "pb_read_bytes e count s =
     (if bytes_left s < count then (None, ierr ''end-of-stream'' s)
      else case call_in e count s of
        (None, s1) \<Rightarrow> (None, ierr ''io error'' s1)
      | (Some bs, s1) \<Rightarrow> (Some bs, s1\<lparr>bytes_left := bytes_left s1 - count\<rparr>))"

text \<open>The loop that skips input sixteen bytes at a time into \<open>tmp\<close>.\<close>

fun skip_loop :: "env \<Rightarrow> nat \<Rightarrow> byte list reader" where
  "skip_loop e count s =
     (if count > 16 then
        case pb_read_bytes e 16 s of
          (None, s1) \<Rightarrow> (None, s1)
        | (Some _, s1) \<Rightarrow> skip_loop e (count - 16) s1
      else pb_read_bytes e count s)"

declare skip_loop.simps [simp del]

text \<open>\<open>null\<close> says whether the argument \<open>buf\<close> is the null pointer.\<close>

definition pb_read :: "env \<Rightarrow> bool \<Rightarrow> nat \<Rightarrow> byte list reader" where
  "pb_read e null count s =
     (if count = 0 then (Some [], s)
      else if null \<and> icallback s \<noteq> Buf_read then skip_loop e count s
      else pb_read_bytes e count s)"

text \<open>The first byte a callback stored.\<close>

definition first_byte :: "byte list \<Rightarrow> byte" where
  "first_byte bs = (case bs of [] \<Rightarrow> 0 | b # _ \<Rightarrow> b)"

definition pb_readbyte :: "env \<Rightarrow> byte reader" where
  "pb_readbyte e s =
     (if bytes_left s = 0 then (None, ierr ''end-of-stream'' s)
      else case call_in e 1 s of
        (None, s1) \<Rightarrow> (None, ierr ''io error'' s1)
      | (Some bs, s1) \<Rightarrow> (Some (first_byte bs), s1\<lparr>bytes_left := bytes_left s1 - 1\<rparr>))"

lemma call_in_bytes_left [simp]: "bytes_left (snd (call_in e n s)) = bytes_left s"
  by (auto simp: call_in_def buf_read_def split: in_callback.splits prod.splits)

lemma pb_readbyte_less: "pb_readbyte e s = (Some b, s') \<Longrightarrow> bytes_left s' < bytes_left s"
  using call_in_bytes_left [of e 1 s]
  by (auto simp: pb_readbyte_def split: if_splits prod.splits option.splits simp del: call_in_bytes_left)

lemma pb_read_bytes_less:
  "pb_read_bytes e n s = (Some bs, s') \<Longrightarrow> n \<le> bytes_left s \<and> bytes_left s' = bytes_left s - n"
  using call_in_bytes_left [of e n s]
  by (auto simp: pb_read_bytes_def split: if_splits prod.splits option.splits simp del: call_in_bytes_left)

lemma pb_read_1_less: "pb_read e False (Suc 0) s = (Some bs, s') \<Longrightarrow> bytes_left s' < bytes_left s"
  using pb_read_bytes_less [of e 1 s bs s'] by (auto simp: pb_read_def)

section \<open>Varints\<close>

text \<open>The multibyte loop of \<open>pb_decode_varint32_eof\<close>, with the check after it. The bit position is
  a \<open>uint_fast8_t\<close>, eight bits wide on the modelled targets.\<close>

function varint32_loop :: "env \<Rightarrow> nat \<Rightarrow> u32 \<Rightarrow> u32 reader" where
  "varint32_loop e bitpos result s =
     (case pb_readbyte e s of
        (None, s1) \<Rightarrow> (None, s1)
      | (Some b, s1) \<Rightarrow>
          let sign_extension = (if bitpos < 63 then 0xFF else 0x01) in
          if bitpos \<ge> 32 \<and> b AND 0x7F \<noteq> 0 \<and> (drop_bit 31 result = 0 \<or> b \<noteq> sign_extension)
          then (None, ierr ''varint overflow'' s1)
          else
            let result' = (if bitpos \<ge> 32 then result
                           else result OR push_bit bitpos (ucast (b AND 0x7F)));
                bitpos' = (bitpos + 7) mod 256
            in if b AND 0x80 \<noteq> 0 then varint32_loop e bitpos' result' s1
               else if bitpos' = 35 \<and> b AND 0x70 \<noteq> 0 then (None, ierr ''varint overflow'' s1)
               else (Some result', s1))"
  by pat_completeness auto
termination
  by (relation "measure (\<lambda>(e, bitpos, result, s). bytes_left s)") (auto dest: pb_readbyte_less [OF sym])

declare varint32_loop.simps [simp del]

text \<open>Returns also the value left in \<open>*eof\<close>, which the function only ever sets.\<close>

definition pb_decode_varint32_eof :: "env \<Rightarrow> pb_istream \<Rightarrow> u32 option \<times> bool \<times> pb_istream" where
  "pb_decode_varint32_eof e s =
     (case pb_readbyte e s of
        (None, s1) \<Rightarrow> (None, bytes_left s1 = 0, s1)
      | (Some b, s1) \<Rightarrow>
          if b AND 0x80 = 0 then (Some (ucast b), False, s1)
          else case varint32_loop e 7 (ucast (b AND 0x7F)) s1 of (r, s2) \<Rightarrow> (r, False, s2))"

definition pb_decode_varint32 :: "env \<Rightarrow> u32 reader" where
  "pb_decode_varint32 e s = (case pb_decode_varint32_eof e s of (r, eof, s1) \<Rightarrow> (r, s1))"

function varint64_loop :: "env \<Rightarrow> nat \<Rightarrow> u64 \<Rightarrow> u64 reader" where
  "varint64_loop e bitpos result s =
     (if bitpos \<ge> 64 then (None, ierr ''varint overflow'' s)
      else case pb_readbyte e s of
        (None, s1) \<Rightarrow> (None, s1)
      | (Some b, s1) \<Rightarrow>
          let result' = result OR push_bit bitpos (ucast (b AND 0x7F));
              bitpos' = (bitpos + 7) mod 256
          in if b AND 0x80 \<noteq> 0 then varint64_loop e bitpos' result' s1 else (Some result', s1))"
  by pat_completeness auto
termination
  by (relation "measure (\<lambda>(e, bitpos, result, s). bytes_left s)") (auto dest: pb_readbyte_less [OF sym])

declare varint64_loop.simps [simp del]

definition pb_decode_varint :: "env \<Rightarrow> u64 reader" where
  "pb_decode_varint e = varint64_loop e 0 0"

function pb_skip_varint :: "env \<Rightarrow> unit reader" where
  "pb_skip_varint e s =
     (case pb_read e False 1 s of
        (None, s1) \<Rightarrow> (None, s1)
      | (Some bs, s1) \<Rightarrow>
          if first_byte bs AND 0x80 \<noteq> 0 then pb_skip_varint e s1 else (Some (), s1))"
  by pat_completeness auto
termination
  by (relation "measure (\<lambda>(e, s). bytes_left s)") (auto dest: pb_read_1_less [OF sym])

declare pb_skip_varint.simps [simp del]

definition pb_skip_string :: "env \<Rightarrow> unit reader" where
  "pb_skip_string e s =
     (case pb_decode_varint32 e s of
        (None, s1) \<Rightarrow> (None, s1)
      | (Some n, s1) \<Rightarrow> (case pb_read e True (unat n) s1 of (r, s2) \<Rightarrow> (map_option (\<lambda>_. ()) r, s2)))"

text \<open>The wire type, the tag and the value left in \<open>*eof\<close>.\<close>

definition pb_decode_tag :: "env \<Rightarrow> pb_istream \<Rightarrow> (u32 \<times> u32) option \<times> bool \<times> pb_istream" where
  "pb_decode_tag e s =
     (case pb_decode_varint32_eof e s of
        (None, eof, s1) \<Rightarrow> (None, eof, s1)
      | (Some temp, eof, s1) \<Rightarrow>
          if temp = 0 then (None, True, s1)
          else (Some (temp AND 7, drop_bit 3 temp), eof, s1))"

definition pb_skip_field :: "env \<Rightarrow> u32 \<Rightarrow> unit reader" where
  "pb_skip_field e wire_type s =
     (if wire_type = PB_WT_VARINT then pb_skip_varint e s
      else if wire_type = PB_WT_64BIT then
        (case pb_read e True 8 s of (r, s1) \<Rightarrow> (map_option (\<lambda>_. ()) r, s1))
      else if wire_type = PB_WT_STRING then pb_skip_string e s
      else if wire_type = PB_WT_32BIT then
        (case pb_read e True 4 s of (r, s1) \<Rightarrow> (map_option (\<lambda>_. ()) r, s1))
      else (None, ierr ''invalid wire_type'' s))"

text \<open>The varint case of \<open>read_raw_value\<close>: \<open>acc\<close> holds the bytes stored so far.\<close>

function raw_varint_loop :: "env \<Rightarrow> nat \<Rightarrow> byte list \<Rightarrow> byte list reader" where
  "raw_varint_loop e max_size' acc s =
     (if length acc + 1 > max_size' then (None, s)
      else case pb_read e False 1 s of
        (None, s1) \<Rightarrow> (None, s1)
      | (Some bs, s1) \<Rightarrow>
          let b = first_byte bs in
          if b AND 0x80 \<noteq> 0 then raw_varint_loop e max_size' (acc @ [b]) s1
          else (Some (acc @ [b]), s1))"
  by pat_completeness auto
termination
  by (relation "measure (\<lambda>(e, n, acc, s). n - length acc)") auto

declare raw_varint_loop.simps [simp del]

definition read_raw_value :: "env \<Rightarrow> u32 \<Rightarrow> nat \<Rightarrow> byte list reader" where
  "read_raw_value e wire_type n s =
     (if wire_type = PB_WT_VARINT then raw_varint_loop e n [] s
      else if wire_type = PB_WT_64BIT then pb_read e False 8 s
      else if wire_type = PB_WT_32BIT then pb_read e False 4 s
      else (None, ierr ''invalid wire_type'' s))"

section \<open>Substreams\<close>

definition pb_make_string_substream :: "env \<Rightarrow> pb_istream reader" where
  "pb_make_string_substream e s =
     (case pb_decode_varint32 e s of
        (None, s1) \<Rightarrow> (None, s1)
      | (Some n, s1) \<Rightarrow>
          if bytes_left s1 < unat n then (None, ierr ''parent stream too short'' s1)
          else (Some (s1\<lparr>bytes_left := unat n\<rparr>), s1\<lparr>bytes_left := bytes_left s1 - unat n\<rparr>))"

definition pb_close_string_substream :: "env \<Rightarrow> pb_istream \<Rightarrow> pb_istream \<Rightarrow> bool \<times> pb_istream" where
  "pb_close_string_substream e substream s =
     (if bytes_left substream \<noteq> 0 then
        case pb_read e True (bytes_left substream) substream of
          (None, sub1) \<Rightarrow> (False, s)
        | (Some _, sub1) \<Rightarrow> (True, s\<lparr>istate := istate sub1, ierrmsg := ierrmsg sub1\<rparr>)
      else (True, s\<lparr>istate := istate substream, ierrmsg := ierrmsg substream\<rparr>))"

section \<open>Scalar values\<close>

definition unzigzag :: "u64 \<Rightarrow> u64" where
  "unzigzag value = (if value AND 1 \<noteq> 0 then NOT (drop_bit 1 value) else drop_bit 1 value)"

definition pb_decode_svarint :: "env \<Rightarrow> u64 reader" where
  "pb_decode_svarint e s =
     (case pb_decode_varint e s of
        (None, s1) \<Rightarrow> (None, s1)
      | (Some value, s1) \<Rightarrow> (Some (unzigzag value), s1))"

definition byte_at :: "byte list \<Rightarrow> nat \<Rightarrow> byte" where
  "byte_at bs i = (if i < length bs then bs ! i else 0)"

definition fixed32_value :: "byte list \<Rightarrow> u32" where
  "fixed32_value bs =
     push_bit 0 (ucast (byte_at bs 0)) OR push_bit 8 (ucast (byte_at bs 1)) OR
     push_bit 16 (ucast (byte_at bs 2)) OR push_bit 24 (ucast (byte_at bs 3))"

definition pb_decode_fixed32 :: "env \<Rightarrow> u32 reader" where
  "pb_decode_fixed32 e s =
     (case pb_read e False 4 s of
        (None, s1) \<Rightarrow> (None, s1)
      | (Some bs, s1) \<Rightarrow> (Some (fixed32_value bs), s1))"

definition fixed64_value :: "byte list \<Rightarrow> u64" where
  "fixed64_value bs =
     push_bit 0 (ucast (byte_at bs 0)) OR push_bit 8 (ucast (byte_at bs 1)) OR
     push_bit 16 (ucast (byte_at bs 2)) OR push_bit 24 (ucast (byte_at bs 3)) OR
     push_bit 32 (ucast (byte_at bs 4)) OR push_bit 40 (ucast (byte_at bs 5)) OR
     push_bit 48 (ucast (byte_at bs 6)) OR push_bit 56 (ucast (byte_at bs 7))"

definition pb_decode_fixed64 :: "env \<Rightarrow> u64 reader" where
  "pb_decode_fixed64 e s =
     (case pb_read e False 8 s of
        (None, s1) \<Rightarrow> (None, s1)
      | (Some bs, s1) \<Rightarrow> (Some (fixed64_value bs), s1))"

definition pb_decode_bool :: "env \<Rightarrow> bool reader" where
  "pb_decode_bool e s =
     (case pb_decode_varint32 e s of
        (None, s1) \<Rightarrow> (None, s1)
      | (Some value, s1) \<Rightarrow> (Some (value \<noteq> 0), s1))"

section \<open>The contract of a decoder: reading back\<close>

text \<open>\<open>got n s\<close>: the stream after its next \<open>n\<close> bytes have been read.\<close>

definition got :: "nat \<Rightarrow> pb_istream \<Rightarrow> pb_istream" where
  "got n s = s\<lparr>istate := drop n (istate s), bytes_left := bytes_left s - n\<rparr>"

text \<open>The next bytes of a buffer stream.\<close>

definition holds_next :: "byte list \<Rightarrow> pb_istream \<Rightarrow> bool" where
  "holds_next bs s \<longleftrightarrow> icallback s = Buf_read \<and> length bs \<le> bytes_left s \<and>
     take (length bs) (istate s) = bs"

text \<open>A decoder that turns the bytes \<open>bs\<close> at the front of a stream into the value \<open>v\<close>.\<close>

locale parser =
  fixes f :: "'a reader" and bs :: "byte list" and v :: 'a
  assumes parse: "holds_next bs s \<Longrightarrow> f s = (Some v, got (length bs) s)"

lemma got_0 [simp]: "got 0 s = s"
  by (simp add: got_def)

lemma got_simps [simp]:
  "icallback (got n s) = icallback s" "istate (got n s) = drop n (istate s)"
  "bytes_left (got n s) = bytes_left s - n" "ierrmsg (got n s) = ierrmsg s"
  by (simp_all add: got_def)

lemma got_got: "got n (got k s) = got (k + n) s"
  by (simp add: got_def add.commute)

lemma holds_next_Nil [simp]: "holds_next [] s \<longleftrightarrow> icallback s = Buf_read"
  by (simp add: holds_next_def)

lemma holds_next_append:
  "holds_next (bs @ cs) s \<longleftrightarrow> holds_next bs s \<and> holds_next cs (got (length bs) s)"
  (is "?l \<longleftrightarrow> ?r")
proof
  assume l: ?l
  then have tk: "take (length bs + length cs) (istate s) = bs @ cs" by (simp add: holds_next_def)
  then have "take (length bs) (istate s) = bs"
    by (metis append_eq_conv_conj min.absorb1 le_add1 take_take)
  moreover have "take (length cs) (drop (length bs) (istate s)) = cs"
    using tk by (metis append_eq_conv_conj take_drop add.commute)
  ultimately show ?r using l by (auto simp: holds_next_def)
next
  assume ?r
  then show ?l by (auto simp: holds_next_def take_add)
qed

lemma holds_next_Cons:
  "holds_next (b # bs) s \<longleftrightarrow> holds_next [b] s \<and> holds_next bs (got 1 s)"
  using holds_next_append [of "[b]" bs s] by simp

lemma holds_next_from_buffer:
  "length bs \<le> n \<Longrightarrow> holds_next bs (pb_istream_from_buffer (bs @ rest) n)"
  by (simp add: holds_next_def pb_istream_from_buffer_def)

lemma readbyte_parse: "holds_next [b] s \<Longrightarrow> pb_readbyte e s = (Some b, got 1 s)"
  by (cases "istate s")
    (auto simp: holds_next_def pb_readbyte_def call_in_def buf_read_def first_byte_def got_def)

lemma read_parse: "holds_next bs s \<Longrightarrow> pb_read e null (length bs) s = (Some bs, got (length bs) s)"
  by (auto simp: holds_next_def pb_read_def pb_read_bytes_def call_in_def buf_read_def got_def
      dest: arg_cong [where f = length])

interpretation readbyte: parser "pb_readbyte e" "[b]" b for e b
  by unfold_locales (simp add: readbyte_parse)

interpretation read: parser "pb_read e null (length bs)" bs bs for e null bs
  by unfold_locales (rule read_parse)

subsection \<open>Round trips\<close>

lemma varint64_loop_parse:
  "v < 2 ^ (64 - b) \<Longrightarrow> b < 64 \<Longrightarrow> holds_next (varint_spec v) s \<Longrightarrow>
     varint64_loop e b r s = (Some (r OR push_bit b (word_of_nat v)), got (length (varint_spec v)) s)"
proof (induction v arbitrary: b r s rule: varint_spec.induct)
  case (1 v)
  show ?case
  proof (cases "v < 128")
    case True
    with "1.prems" have "holds_next [word_of_nat v] s" by (simp add: varint_spec_last)
    with True "1.prems" show ?thesis
      by (subst varint64_loop.simps)
        (simp add: readbyte_parse last_byte_simps varint_spec_last ucast_byte_nat)
  next
    case False
    then have vs: "varint_spec v = more_byte v # varint_spec (v div 128)" by (simp add: varint_spec_step)
    from "1.prems"(3) have h: "holds_next [more_byte v] s" "holds_next (varint_spec (v div 128)) (got 1 s)"
      using holds_next_Cons unfolding vs by blast+
    from div_128_less [OF "1.prems"(1)] False have b: "b + 7 < 64" "v div 128 < 2 ^ (64 - (b + 7))" by auto
    have "varint64_loop e b r s = varint64_loop e (b + 7) (r OR push_bit b (word_of_nat (v mod 128))) (got 1 s)"
      using b "1.prems"(2) h(1)
      by (subst varint64_loop.simps) (simp add: readbyte_parse ucast_byte_nat less_imp_le_nat)
    also have "\<dots> = (Some ((r OR push_bit b (word_of_nat (v mod 128))) OR push_bit (b + 7) (word_of_nat (v div 128))),
        got (length (varint_spec (v div 128))) (got 1 s))"
      by (rule "1.IH" [OF False b(2) b(1) h(2)])
    also have "\<dots> = (Some (r OR push_bit b (word_of_nat v)), got (length (varint_spec v)) s)"
      by (simp add: or.assoc push_bit_split_7 got_got vs)
    finally show ?thesis .
  qed
qed

lemma varint_parse:
  "holds_next (varint_spec (unat v)) s \<Longrightarrow>
     pb_decode_varint e s = (Some v, got (length (varint_spec (unat v))) s)"
  using varint64_loop_parse [of "unat v" 0 s e 0] unsigned_less [of v]
  by (simp add: pb_decode_varint_def)

lemma sint_neg_bit: "sint (v :: u64) < 0 \<longleftrightarrow> bit v 63"
  by (simp add: bit_last_iff [symmetric])

lemma zigzag_inverse: "unzigzag (zigzag v) = v"
proof (cases "bit v 63")
  case True
  then have z: "zigzag v = NOT (push_bit 1 v)" by (simp add: zigzag_def sint_neg_bit)
  have "bit (NOT (push_bit 1 v)) 0" by (simp only: bit_not_iff bit_push_bit_iff) simp
  then have "NOT (push_bit 1 v) AND 1 \<noteq> 0" by (simp only: and_one_eq bit_0 odd_iff_mod_2_eq_one) simp
  moreover have "NOT (drop_bit 1 (NOT (push_bit 1 v))) = v"
  proof (rule bit_word_eqI)
    fix n assume "n < LENGTH(64)"
    with True show "bit (NOT (drop_bit 1 (NOT (push_bit 1 v)))) n = bit v n"
      by (cases "n = 63") (simp_all only: bit_not_iff bit_drop_bit_eq bit_push_bit_iff o_def, auto)
  qed
  ultimately show ?thesis unfolding unzigzag_def z by simp
next
  case False
  then have z: "zigzag v = push_bit 1 v" by (simp add: zigzag_def sint_neg_bit)
  have "push_bit 1 v AND 1 = 0"
    by (rule bit_word_eqI) (simp only: bit_and_iff bit_push_bit_iff, auto simp: bit_simps)
  moreover have "drop_bit 1 (push_bit 1 v) = v"
  proof (rule bit_word_eqI)
    fix n assume "n < LENGTH(64)"
    with False show "bit (drop_bit 1 (push_bit 1 v)) n = bit v n"
      by (cases "n = 63") (simp_all only: bit_drop_bit_eq bit_push_bit_iff o_def, auto)
  qed
  ultimately show ?thesis unfolding unzigzag_def z by simp
qed

lemma fixed32_value_le: "length bs = 4 \<Longrightarrow> fixed32_value bs = word_of_nat (of_le bs)"
proof -
  assume "length bs = 4"
  then obtain a b c d where bs: "bs = [a, b, c, d]"
    by (auto simp: numeral_eq_Suc length_Suc_conv)
  show ?thesis
    unfolding fixed32_value_def bs of_le_word by (simp add: byte_at_def push_bit_or or.assoc)
qed

lemma fixed64_value_le: "length bs = 8 \<Longrightarrow> fixed64_value bs = word_of_nat (of_le bs)"
proof -
  assume "length bs = 8"
  then obtain a b c d e f g h where bs: "bs = [a, b, c, d, e, f, g, h]"
    by (auto simp: numeral_eq_Suc length_Suc_conv)
  show ?thesis
    unfolding fixed64_value_def bs of_le_word by (simp add: byte_at_def push_bit_or or.assoc)
qed

lemma and_70: "v < 16 \<Longrightarrow> (word_of_nat v :: byte) AND 0x70 = 0"
proof (rule bit_word_eqI)
  fix n assume v: "v < 16"
  then have "bit v n \<Longrightarrow> n < 4" using bit_below [of v n 4] by simp
  then show "bit ((word_of_nat v :: byte) AND 0x70) n = bit (0 :: byte) n"
    by (auto simp: bit_and_iff bit_of_nat_iff numeral_eq_Suc less_Suc_eq bit_simps)
qed

lemma varint32_loop_parse:
  "v < 2 ^ (32 - b) \<Longrightarrow> b < 32 \<Longrightarrow> holds_next (varint_spec v) s \<Longrightarrow>
     varint32_loop e b r s = (Some (r OR push_bit b (word_of_nat v)), got (length (varint_spec v)) s)"
proof (induction v arbitrary: b r s rule: varint_spec.induct)
  case (1 v)
  show ?case
  proof (cases "v < 128")
    case True
    with "1.prems" have "holds_next [word_of_nat v] s" by (simp add: varint_spec_last)
    moreover have "(word_of_nat v :: byte) AND 0x70 = 0" if "b = 28"
      using "1.prems" that by (simp add: and_70)
    ultimately show ?thesis using True "1.prems"
      by (subst varint32_loop.simps)
        (auto simp: readbyte_parse last_byte_simps varint_spec_last ucast_byte_nat Let_def)
  next
    case False
    then have vs: "varint_spec v = more_byte v # varint_spec (v div 128)" by (simp add: varint_spec_step)
    from "1.prems"(3) have h: "holds_next [more_byte v] s" "holds_next (varint_spec (v div 128)) (got 1 s)"
      using holds_next_Cons unfolding vs by blast+
    from div_128_less [OF "1.prems"(1)] False have b: "b + 7 < 32" "v div 128 < 2 ^ (32 - (b + 7))" by auto
    have "varint32_loop e b r s = varint32_loop e (b + 7) (r OR push_bit b (word_of_nat (v mod 128))) (got 1 s)"
      using b "1.prems"(2) h(1)
      by (subst varint32_loop.simps) (simp add: readbyte_parse ucast_byte_nat less_imp_le_nat Let_def)
    also have "\<dots> = (Some ((r OR push_bit b (word_of_nat (v mod 128))) OR push_bit (b + 7) (word_of_nat (v div 128))),
        got (length (varint_spec (v div 128))) (got 1 s))"
      by (rule "1.IH" [OF False b(2) b(1) h(2)])
    also have "\<dots> = (Some (r OR push_bit b (word_of_nat v)), got (length (varint_spec v)) s)"
      by (simp add: or.assoc push_bit_split_7 got_got vs)
    finally show ?thesis .
  qed
qed

lemma varint32_eof_parse:
  assumes "holds_next (varint_spec (unat v)) s"
  shows "pb_decode_varint32_eof e s = (Some v, False, got (length (varint_spec (unat v))) s)"
proof (cases "unat v < 128")
  case True
  with assms have "holds_next [word_of_nat (unat v)] s" by (simp only: varint_spec_last)
  then have "pb_readbyte e s = (Some (word_of_nat (unat v)), got 1 s)" by (rule readbyte_parse)
  moreover have "ucast (word_of_nat (unat v) :: byte) = v"
    using ucast_byte_nat [of "unat v", where 'a = 32] True by simp
  ultimately show ?thesis using True last_byte_simps(2) [OF True]
    by (simp add: pb_decode_varint32_eof_def varint_spec_last)
next
  case False
  let ?r = "unat v div 128"
  have vs: "varint_spec (unat v) = more_byte (unat v) # varint_spec ?r"
    using False by (simp add: varint_spec_step)
  from assms have h: "holds_next [more_byte (unat v)] s" "holds_next (varint_spec ?r) (got 1 s)"
    using holds_next_Cons unfolding vs by blast+
  have "?r < 2 ^ (32 - 7)"
    using unsigned_less [of v, where 'a = nat] by (simp add: less_mult_imp_div_less)
  note varint32_loop_parse [OF this _ h(2), of e "word_of_nat (unat v mod 128)"]
  moreover have "word_of_nat (unat v mod 128) OR push_bit 7 (word_of_nat ?r) = v"
    using push_bit_split_7 [of 0 "unat v", where 'a = 32] by simp
  ultimately show ?thesis using h(1)
    by (simp add: pb_decode_varint32_eof_def readbyte_parse ucast_byte_nat vs got_got)
qed

lemma varint32_parse:
  "holds_next (varint_spec (unat v)) s \<Longrightarrow>
     pb_decode_varint32 e s = (Some v, got (length (varint_spec (unat v))) s)"
  by (simp add: pb_decode_varint32_def varint32_eof_parse)

text \<open>Tags: field numbers have 29 bits.\<close>

lemma tag_parse:
  assumes h: "holds_next (varint_spec (tag_value wt n)) s" and wt: "unat wt < 8"
    and n: "0 < unat n" "unat n < 2 ^ 29"
  shows "pb_decode_tag e s = (Some (wt, n), False, got (length (varint_spec (tag_value wt n))) s)"
proof -
  let ?t = "word_of_nat (tag_value wt n) :: u32"
  have "tag_value wt n < 2 ^ 32" using n wt by (simp add: tag_value_def)
  then have u: "unat ?t = tag_value wt n" by (simp add: unat_of_nat)
  have "?t \<noteq> 0" using u n by (auto simp: tag_value_def)
  moreover have "?t AND 7 = wt"
  proof (rule word_unat_eq_iff [THEN iffD2])
    have and7: "?t AND 7 = take_bit 3 ?t" by (simp add: take_bit_eq_mask mask_numeral)
    have "unat (?t AND 7) = take_bit 3 (tag_value wt n)"
      unfolding and7 unsigned_take_bit_eq u ..
    then have "unat (?t AND 7) = tag_value wt n mod 8" by (simp add: take_bit_eq_mod)
    then show "unat (?t AND 7) = unat wt" using wt by (simp add: tag_value_def)
  qed
  moreover have "drop_bit 3 ?t = n"
    by (rule word_unat_eq_iff [THEN iffD2]) (use wt in \<open>simp only: unat_drop_bit u\<close>, simp add: tag_value_def)
  ultimately show ?thesis
    using varint32_eof_parse [of ?t s e] h by (simp add: pb_decode_tag_def u)
qed

lemma svarint_parse:
  "holds_next (varint_spec (unat (zigzag v))) s \<Longrightarrow>
     pb_decode_svarint e s = (Some v, got (length (varint_spec (unat (zigzag v)))) s)"
  by (simp add: pb_decode_svarint_def varint_parse zigzag_inverse)

lemma fixed32_parse:
  assumes "holds_next (fixed32_bytes v) s"
  shows "pb_decode_fixed32 e s = (Some v, got (length (fixed32_bytes v)) s)"
proof -
  have len: "length (fixed32_bytes v) = 4" by (simp add: fixed32_bytes_def)
  have "of_le (fixed32_bytes v) = unat v"
    using unsigned_less [of v, where 'a = nat] by (simp add: fixed32_bytes_le of_le_to_le)
  then show ?thesis using read_parse [OF assms, of e False] len
    by (simp add: pb_decode_fixed32_def fixed32_value_le)
qed

lemma fixed64_parse:
  assumes "holds_next (fixed64_bytes v) s"
  shows "pb_decode_fixed64 e s = (Some v, got (length (fixed64_bytes v)) s)"
proof -
  have len: "length (fixed64_bytes v) = 8" by (simp add: fixed64_bytes_def)
  have "of_le (fixed64_bytes v) = unat v"
    using unsigned_less [of v, where 'a = nat] by (simp add: fixed64_bytes_le of_le_to_le)
  then show ?thesis using read_parse [OF assms, of e False] len
    by (simp add: pb_decode_fixed64_def fixed64_value_le)
qed

subsection \<open>Skipping\<close>

lemma skip_varint_parse:
  "holds_next (varint_spec v) s \<Longrightarrow> pb_skip_varint e s = (Some (), got (length (varint_spec v)) s)"
proof (induction v arbitrary: s rule: varint_spec.induct)
  case (1 v)
  show ?case
  proof (cases "v < 128")
    case True
    with "1.prems" have "holds_next [word_of_nat v] s" by (simp add: varint_spec_last)
    from read_parse [OF this, of e False] True show ?thesis
      by (subst pb_skip_varint.simps) (simp add: varint_spec_last first_byte_def last_byte_simps)
  next
    case False
    then have vs: "varint_spec v = more_byte v # varint_spec (v div 128)" by (simp add: varint_spec_step)
    from "1.prems" have h: "holds_next [more_byte v] s" "holds_next (varint_spec (v div 128)) (got 1 s)"
      using holds_next_Cons unfolding vs by blast+
    from read_parse [OF h(1), of e False] "1.IH" [OF False h(2)] show ?thesis
      by (subst pb_skip_varint.simps) (simp add: vs first_byte_def got_got)
  qed
qed

text \<open>The values of each wire type, as the protocol defines them.\<close>

inductive wire_value :: "u32 \<Rightarrow> byte list \<Rightarrow> bool" where
  varint: "wire_value PB_WT_VARINT (varint_spec v)"
| fixed64: "length bs = 8 \<Longrightarrow> wire_value PB_WT_64BIT bs"
| delimited: "length bs < 2 ^ 32 \<Longrightarrow> wire_value PB_WT_STRING (varint_spec (length bs) @ bs)"
| fixed32: "length bs = 4 \<Longrightarrow> wire_value PB_WT_32BIT bs"

lemma varint32_length_parse:
  assumes "n < 2 ^ 32" and "holds_next (varint_spec n) s"
  shows "pb_decode_varint32 e s = (Some (word_of_nat n), got (length (varint_spec n)) s)"
proof -
  have "unat (word_of_nat n :: u32) = n" using assms by (simp add: unat_of_nat)
  with varint32_parse [of "word_of_nat n" s e] assms(2) show ?thesis by simp
qed

lemma skip_field_parse:
  assumes "wire_value wt bs" and h: "holds_next bs s"
  shows "pb_skip_field e wt s = (Some (), got (length bs) s)"
  using assms(1)
proof cases
  case (varint v)
  with h show ?thesis by (simp add: pb_skip_field_def skip_varint_parse)
next
  case fixed64
  with read_parse [OF h, of e True] show ?thesis by (simp add: pb_skip_field_def)
next
  case (delimited cs)
  with h have h2: "holds_next (varint_spec (length cs)) s"
    "holds_next cs (got (length (varint_spec (length cs))) s)"
    by (simp_all add: holds_next_append)
  have "unat (word_of_nat (length cs) :: u32) = length cs" using delimited by (simp add: unat_of_nat)
  with read_parse [OF h2(2), of e True] varint32_length_parse [OF delimited(3) h2(1), of e]
  show ?thesis using delimited by (simp add: pb_skip_field_def pb_skip_string_def got_got)
next
  case fixed32
  with read_parse [OF h, of e True] show ?thesis by (simp add: pb_skip_field_def)
qed

text \<open>An encoder and a decoder of the same bytes: what the first stores in a buffer, the second reads
  back from it, and it stops exactly at the end.\<close>

locale codec = emitter w bs + parser r bs v for w bs and r :: "'a reader" and v
begin

lemma write_then_read:
  assumes "n < 2 ^ 63" and "w (pb_ostream_from_buffer n) = (True, s)"
  shows "r (pb_istream_from_buffer (ostate s @ rest) (bytes_written s + k)) =
     (Some v, pb_istream_from_buffer rest k)"
proof -
  from assms have s: "s = put bs (pb_ostream_from_buffer n)" by (intro success_stores) simp_all
  then have "ostate s = bs" "bytes_written s = length bs"
    by (simp_all add: pb_ostream_from_buffer_def)
  then show ?thesis
    using parse [OF holds_next_from_buffer [of bs "length bs + k" rest]]
    by (simp add: got_def pb_istream_from_buffer_def)
qed

end

interpretation varint: codec "pb_encode_varint e v" "varint_spec (unat v)" "pb_decode_varint e" v for e v
  by unfold_locales (rule varint_parse)

interpretation svarint: codec "pb_encode_svarint e v" "varint_spec (unat (zigzag v))" "pb_decode_svarint e" v
  for e v
  by unfold_locales (rule svarint_parse)

interpretation varint32: codec "pb_encode_varint e (ucast v)" "varint_spec (unat v)" "pb_decode_varint32 e" v
  for e and v :: u32
proof (intro codec.intro parser.intro varint32_parse)
  have "unat (ucast v :: u64) = unat v"
    using unsigned_less [of v, where 'a = nat] by (simp add: unsigned_ucast_eq take_bit_eq_mod)
  with emitter_varint [of e "ucast v"] show "emitter (pb_encode_varint e (ucast v)) (varint_spec (unat v))"
    by simp
qed

interpretation fixed32: codec "pb_encode_fixed32 e m p" "load_bytes m p 4" "pb_decode_fixed32 e"
    "word_of_nat (load_uint 4 m p)" for e m p
  using fixed32_parse [of "word_of_nat (load_uint 4 m p)"] by unfold_locales (simp add: fixed32_load)

interpretation fixed64: codec "pb_encode_fixed64 e m p" "load_bytes m p 8" "pb_decode_fixed64 e"
    "word_of_nat (load_uint 8 m p)" for e m p
  using fixed64_parse [of "word_of_nat (load_uint 8 m p)"] by unfold_locales (simp add: fixed64_load)

subsection \<open>Substreams\<close>

text \<open>Opening a substream on a length-delimited value: the substream sees exactly the payload, and
  closing it, whatever part has been read, leaves the parent just after the payload.\<close>

lemma substream_open:
  assumes h: "holds_next (varint_spec (length bs) @ bs) s" and len: "length bs < 2 ^ 32"
  defines "k \<equiv> length (varint_spec (length bs))"
  shows "pb_make_string_substream e s =
     (Some ((got k s)\<lparr>bytes_left := length bs\<rparr>),
      (got k s)\<lparr>bytes_left := bytes_left s - k - length bs\<rparr>)"
proof -
  have h2: "holds_next (varint_spec (length bs)) s" "holds_next bs (got k s)"
    using h by (simp_all add: holds_next_append k_def)
  have "unat (word_of_nat (length bs) :: u32) = length bs" using len by (simp add: unat_of_nat)
  with h2 varint32_length_parse [OF len h2(1), of e] show ?thesis
    by (simp add: pb_make_string_substream_def holds_next_def k_def)
qed

lemma substream_close:
  assumes "icallback sub = Buf_read" and "bytes_left sub \<le> length (istate sub)"
  shows "pb_close_string_substream e sub s =
     (True, s\<lparr>istate := drop (bytes_left sub) (istate sub), ierrmsg := ierrmsg sub\<rparr>)"
  using assms
  by (auto simp: pb_close_string_substream_def pb_read_def pb_read_bytes_def call_in_def buf_read_def)

end
