(* ===== verification/Pb_Decode.thy ===== *)
theory Pb_Decode
  imports Pb_Heap Pb_Istream
begin

unbundle bit_operations_syntax

text \<open>
  The message decoder of \<open>nanopb/pb_decode.c\<close>: the leaf decoders that store a value in memory,
  allocation of pointer fields, fields with static, pointer and callback allocation, oneofs,
  extensions, the main loop with its bookkeeping of required and fixed-count fields, and the entry
  points. The recursive call of \<open>pb_decode_noinit\<close> is the argument \<open>rec\<close> of the functions below it;
  the knot is tied by recursion on fuel, which also bounds the loops whose end depends on client
  code or on lists in memory. \<open>None\<close> is a run that does not come back.
\<close>

section \<open>Leaf decoders\<close>

type_synonym dec_result = "bool \<times> cmem \<times> pb_istream"

text \<open>The recursive call \<open>pb_decode_noinit(stream, fields, dest_struct)\<close>.\<close>

type_synonym sub_decoder = "pb_field list \<Rightarrow> addr \<Rightarrow> cmem \<Rightarrow> pb_istream \<Rightarrow> dec_result option"

type_synonym field_decoder = "pb_field \<Rightarrow> addr \<Rightarrow> cmem \<Rightarrow> pb_istream \<Rightarrow> dec_result option"

definition fail :: "string \<Rightarrow> cmem \<Rightarrow> pb_istream \<Rightarrow> dec_result" where
  "fail msg m s = (False, m, ierr msg s)"

text \<open>\<open>pb_read(stream, dest, size)\<close> into memory. A read that fails stores nothing.\<close>

definition read_into :: "env \<Rightarrow> addr \<Rightarrow> nat \<Rightarrow> cmem \<Rightarrow> pb_istream \<Rightarrow> dec_result" where
  "read_into e dest n m s =
     (case pb_read e False n s of
        (None, s1) \<Rightarrow> (False, m, s1)
      | (Some bs, s1) \<Rightarrow> (True, store_bytes m dest bs, s1))"

definition pb_dec_bool :: "env \<Rightarrow> field_decoder" where
  "pb_dec_bool e f dest m s =
     (case pb_decode_varint32 e s of
        (None, s1) \<Rightarrow> Some (False, m, s1)
      | (Some value, s1) \<Rightarrow> Some (True, store_bool m dest (value \<noteq> 0), s1))"

text \<open>Conversion to a signed or unsigned integer of \<open>n\<close> bytes, read back as 64 bits.\<close>

definition sclamp :: "nat \<Rightarrow> u64 \<Rightarrow> u64" where
  "sclamp n v =
     (if n = 1 then scast (ucast v :: 8 word)
      else if n = 2 then scast (ucast v :: 16 word)
      else if n = 4 then scast (ucast v :: 32 word)
      else v)"

definition uclamp :: "nat \<Rightarrow> u64 \<Rightarrow> u64" where
  "uclamp n v =
     (if n = 1 then ucast (ucast v :: 8 word)
      else if n = 2 then ucast (ucast v :: 16 word)
      else if n = 4 then ucast (ucast v :: 32 word)
      else v)"

text \<open>\<open>clamped = *(type*)dest = value; if (clamped != value) error\<close>, by the field's \<open>data_size\<close>.\<close>

definition store_clamped :: "(nat \<Rightarrow> u64 \<Rightarrow> u64) \<Rightarrow> pb_field \<Rightarrow> addr \<Rightarrow> u64 \<Rightarrow> cmem \<Rightarrow> pb_istream \<Rightarrow> dec_result" where
  "store_clamped clamp f dest value m s =
     (if data_size f = 8 \<or> data_size f = 4 \<or> data_size f = 2 \<or> data_size f = 1 then
        let m1 = store_uint (data_size f) m dest (unat value) in
        if clamp (data_size f) value \<noteq> value then fail ''integer too large'' m1 s else (True, m1, s)
      else fail ''invalid data_size'' m s)"

definition pb_dec_varint :: "env \<Rightarrow> field_decoder" where
  "pb_dec_varint e f dest m s =
     (case pb_decode_varint e s of
        (None, s1) \<Rightarrow> Some (False, m, s1)
      | (Some value, s1) \<Rightarrow>
          let svalue = (if data_size f = 8 then value else scast (ucast value :: u32))
          in Some (store_clamped sclamp f dest svalue m s1))"

definition pb_dec_uvarint :: "env \<Rightarrow> field_decoder" where
  "pb_dec_uvarint e f dest m s =
     (case pb_decode_varint e s of
        (None, s1) \<Rightarrow> Some (False, m, s1)
      | (Some value, s1) \<Rightarrow> Some (store_clamped uclamp f dest value m s1))"

definition pb_dec_svarint :: "env \<Rightarrow> field_decoder" where
  "pb_dec_svarint e f dest m s =
     (case pb_decode_svarint e s of
        (None, s1) \<Rightarrow> Some (False, m, s1)
      | (Some value, s1) \<Rightarrow> Some (store_clamped sclamp f dest value m s1))"

definition pb_dec_fixed32 :: "env \<Rightarrow> field_decoder" where
  "pb_dec_fixed32 e f dest m s =
     (case pb_decode_fixed32 e s of
        (None, s1) \<Rightarrow> Some (False, m, s1)
      | (Some value, s1) \<Rightarrow> Some (True, store_uint 4 m dest (unat value), s1))"

definition pb_dec_fixed64 :: "env \<Rightarrow> field_decoder" where
  "pb_dec_fixed64 e f dest m s =
     (case pb_decode_fixed64 e s of
        (None, s1) \<Rightarrow> Some (False, m, s1)
      | (Some value, s1) \<Rightarrow> Some (True, store_uint 8 m dest (unat value), s1))"

text \<open>\<open>check_limit\<close> is \<open>1 << 32\<close>.\<close>

definition allocate_field :: "env \<Rightarrow> addr \<Rightarrow> nat \<Rightarrow> nat \<Rightarrow> cmem \<Rightarrow> pb_istream \<Rightarrow> dec_result" where
  "allocate_field e pdata dsize asize m s =
     (if dsize = 0 \<or> asize = 0 then fail ''invalid size'' m s
      else if (dsize \<ge> 2 ^ 32 \<or> asize \<ge> 2 ^ 32) \<and> SIZE_MAX div asize < dsize
      then fail ''size too large'' m s
      else case c_realloc (allocf e) m (load_ptr m pdata) (size_mult asize dsize) of (p, m1) \<Rightarrow>
        if p = 0 then fail ''realloc failed'' m1 s
        else (True, store_ptr m1 pdata p, s))"

text \<open>The test \<open>size > PB_SIZE_MAX\<close> of a \<open>uint32_t\<close> never holds in this build.\<close>

definition pb_dec_bytes :: "env \<Rightarrow> field_decoder" where
  "pb_dec_bytes e f dest m s =
     (case pb_decode_varint32 e s of
        (None, s1) \<Rightarrow> Some (False, m, s1)
      | (Some n, s1) \<Rightarrow>
          let sz = unat n; alloc_size = PB_BYTES_ARRAY_T_ALLOCSIZE sz in
          if sz > PB_SIZE_MAX then Some (fail ''bytes overflow'' m s1)
          else if sz > alloc_size then Some (fail ''size too large'' m s1)
          else if PB_ATYPE (ftype f) = PB_ATYPE_POINTER then
            (if bytes_left s1 < sz then Some (fail ''end-of-stream'' m s1)
             else case allocate_field e dest alloc_size 1 m s1 of (ok, m2, s2) \<Rightarrow>
               if \<not> ok then Some (False, m2, s2)
               else let bdest = load_ptr m2 dest
                    in Some (read_into e (bdest + 4) sz (store_size m2 bdest sz) s2))
          else if alloc_size > data_size f then Some (fail ''bytes overflow'' m s1)
          else Some (read_into e (dest + 4) sz (store_size m dest sz) s1))"

text \<open>\<open>size + 1\<close> is computed in 32 bits before it is widened to \<open>size_t\<close>.\<close>

definition read_string :: "env \<Rightarrow> addr \<Rightarrow> nat \<Rightarrow> cmem \<Rightarrow> pb_istream \<Rightarrow> dec_result" where
  "read_string e dest sz m s =
     (case read_into e dest sz m s of (status, m1, s1) \<Rightarrow>
        (status, store_bytes m1 (dest + sz) [0], s1))"

definition pb_dec_string :: "env \<Rightarrow> field_decoder" where
  "pb_dec_string e f dest m s =
     (case pb_decode_varint32 e s of
        (None, s1) \<Rightarrow> Some (False, m, s1)
      | (Some n, s1) \<Rightarrow>
          let sz = unat n; alloc_size = unat (n + 1) in
          if alloc_size < sz then Some (fail ''size too large'' m s1)
          else if PB_ATYPE (ftype f) = PB_ATYPE_POINTER then
            (if bytes_left s1 < sz then Some (fail ''end-of-stream'' m s1)
             else case allocate_field e dest alloc_size 1 m s1 of (ok, m2, s2) \<Rightarrow>
               if \<not> ok then Some (False, m2, s2)
               else Some (read_string e (load_ptr m2 dest) sz m2 s2))
          else if alloc_size > data_size f then Some (fail ''string overflow'' m s1)
          else Some (read_string e dest sz m s1))"

definition pb_dec_fixed_length_bytes :: "env \<Rightarrow> field_decoder" where
  "pb_dec_fixed_length_bytes e f dest m s =
     (case pb_decode_varint32 e s of
        (None, s1) \<Rightarrow> Some (False, m, s1)
      | (Some n, s1) \<Rightarrow>
          if unat n > PB_SIZE_MAX then Some (fail ''bytes overflow'' m s1)
          else if n = 0 then Some (True, c_memset m dest 0 (data_size f), s1)
          else if unat n \<noteq> data_size f then Some (fail ''incorrect fixed length bytes size'' m s1)
          else Some (read_into e dest (data_size f) m s1))"

text \<open>\<open>pb_decode\<close> over a given \<open>pb_decode_noinit\<close>: defaults first, and a failed message is released.\<close>

definition decode_init :: "env \<Rightarrow> nat \<Rightarrow> sub_decoder \<Rightarrow> sub_decoder" where
  "decode_init e n rec fs dest m s =
     (case pb_message_set_to_defaults e n fs dest m of
        None \<Rightarrow> None
      | Some m1 \<Rightarrow>
          (case rec fs dest m1 s of
             None \<Rightarrow> None
           | Some (status, m2, s2) \<Rightarrow>
               if status then Some (True, m2, s2)
               else (case pb_release e n fs dest m2 of
                       None \<Rightarrow> None
                     | Some m3 \<Rightarrow> Some (False, m3, s2))))"

text \<open>Closing a substream after the decoder of its contents returned \<open>status\<close>.\<close>

definition close_with :: "env \<Rightarrow> bool \<Rightarrow> cmem \<Rightarrow> pb_istream \<Rightarrow> pb_istream \<Rightarrow> dec_result" where
  "close_with e status m sub s =
     (case pb_close_string_substream e sub s of (ok, s1) \<Rightarrow> (ok \<and> status, m, s1))"

definition pb_dec_submessage :: "env \<Rightarrow> nat \<Rightarrow> sub_decoder \<Rightarrow> field_decoder" where
  "pb_dec_submessage e n rec f dest m s =
     (case pb_make_string_substream e s of
        (None, s1) \<Rightarrow> Some (False, m, s1)
      | (Some sub, s1) \<Rightarrow>
          if fptr f = Null then Some (fail ''invalid field descriptor'' m s1)
          else case (if PB_HTYPE (ftype f) = PB_HTYPE_REPEATED then decode_init e n rec else rec)
              (submsg_fields (fptr f)) dest m sub of
            None \<Rightarrow> None
          | Some (status, m1, sub1) \<Rightarrow> Some (close_with e status m1 sub1 s1))"

definition PB_DECODERS :: "env \<Rightarrow> nat \<Rightarrow> sub_decoder \<Rightarrow> byte \<Rightarrow> field_decoder" where
  "PB_DECODERS e n rec lt =
     (if lt = PB_LTYPE_BOOL then pb_dec_bool e
      else if lt = PB_LTYPE_VARINT then pb_dec_varint e
      else if lt = PB_LTYPE_UVARINT then pb_dec_uvarint e
      else if lt = PB_LTYPE_SVARINT then pb_dec_svarint e
      else if lt = PB_LTYPE_FIXED32 then pb_dec_fixed32 e
      else if lt = PB_LTYPE_FIXED64 then pb_dec_fixed64 e
      else if lt = PB_LTYPE_BYTES then pb_dec_bytes e
      else if lt = PB_LTYPE_STRING then pb_dec_string e
      else if lt = PB_LTYPE_SUBMESSAGE then pb_dec_submessage e n rec
      else if lt = PB_LTYPE_FIXED_LENGTH_BYTES then pb_dec_fixed_length_bytes e
      else (\<lambda>_ _ _ _. None))"

section \<open>Counters\<close>

text \<open>The variables a field decoder may change: \<open>fixed_count_size\<close> of the calling
  \<open>pb_decode_noinit\<close> and the memory. \<open>*size\<close> is one of the two.\<close>

type_synonym vars = "nat \<times> cmem"

type_synonym var_result = "bool \<times> vars \<times> pb_istream"

fun read_size :: "psize \<Rightarrow> vars \<Rightarrow> nat" where
  "read_size (At a) (fcs, m) = load_size m a"
| "read_size Fixed_count_size (fcs, m) = fcs"

fun write_size :: "psize \<Rightarrow> nat \<Rightarrow> vars \<Rightarrow> vars" where
  "write_size (At a) v (fcs, m) = (fcs, store_size m a v)"
| "write_size Fixed_count_size v (fcs, m) = (v mod 2 ^ 32, m)"

definition vfail :: "string \<Rightarrow> vars \<Rightarrow> pb_istream \<Rightarrow> var_result" where
  "vfail msg v s = (False, v, ierr msg s)"

text \<open>A leaf decoder does not see the counter.\<close>

definition keep_fcs :: "nat \<Rightarrow> dec_result option \<Rightarrow> var_result option" where
  "keep_fcs fcs r = map_option (\<lambda>(ok, m, s). (ok, (fcs, m), s)) r"

text \<open>\<open>pData + data_size * (*size)\<close>: the product is one of 32-bit numbers.\<close>

definition item_addr :: "addr \<Rightarrow> pb_field \<Rightarrow> nat \<Rightarrow> addr" where
  "item_addr p f k = p + (data_size f * k) mod 2 ^ 32"

section \<open>Static fields\<close>

text \<open>The loop over a packed array.\<close>

fun static_packed_loop :: "nat \<Rightarrow> field_decoder \<Rightarrow> pb_field_iter \<Rightarrow> vars \<Rightarrow> pb_istream \<Rightarrow> var_result option" where
  "static_packed_loop 0 func it v sub = None"
| "static_packed_loop (Suc k) func it v sub =
     (let n = read_size (pSize it) v in
      if bytes_left sub > 0 \<and> n < array_size (cur it) then
        case keep_fcs (fst v) (func (cur it) (item_addr (pData it) (cur it) n) (snd v) sub) of
          None \<Rightarrow> None
        | Some (ok, v1, sub1) \<Rightarrow>
            if \<not> ok then Some (False, v1, sub1)
            else static_packed_loop k func it (write_size (pSize it) (read_size (pSize it) v1 + 1) v1) sub1
      else Some (True, v, sub))"

definition decode_static_field ::
    "env \<Rightarrow> nat \<Rightarrow> sub_decoder \<Rightarrow> u32 \<Rightarrow> pb_field_iter \<Rightarrow> vars \<Rightarrow> pb_istream \<Rightarrow> var_result option" where
  "decode_static_field e n rec wire_type it v s =
     (let f = cur it; ty = ftype f; func = PB_DECODERS e n rec (PB_LTYPE ty);
          run = (\<lambda>p v. keep_fcs (fst v) (func f p (snd v) s))
      in if PB_HTYPE ty = PB_HTYPE_REQUIRED then run (pData it) v
         else if PB_HTYPE ty = PB_HTYPE_OPTIONAL then
           run (pData it)
             (case pSize it of
                Fixed_count_size \<Rightarrow> v
              | At ps \<Rightarrow> if ps \<noteq> pData it then (fst v, store_bool (snd v) ps True) else v)
         else if PB_HTYPE ty = PB_HTYPE_REPEATED then
           (if wire_type = PB_WT_STRING \<and> PB_LTYPE ty \<le> PB_LTYPE_LAST_PACKABLE then
              case pb_make_string_substream e s of
                (None, s1) \<Rightarrow> Some (False, v, s1)
              | (Some sub, s1) \<Rightarrow>
                  (case static_packed_loop n func it v sub of
                     None \<Rightarrow> None
                   | Some (status, v1, sub1) \<Rightarrow>
                       if bytes_left sub1 \<noteq> 0 then Some (vfail ''array overflow'' v1 s1)
                       else keep_fcs (fst v1) (Some (close_with e status (snd v1) sub1 s1)))
            else
              let k = read_size (pSize it) v; v1 = write_size (pSize it) (k + 1) v in
              if k \<ge> array_size f then Some (vfail ''array overflow'' v1 s)
              else run (item_addr (pData it) f k) v1)
         else if PB_HTYPE ty = PB_HTYPE_ONEOF then
           (if PB_LTYPE ty = PB_LTYPE_SUBMESSAGE \<and> read_size (pSize it) v \<noteq> unat (tag f) then
              case pb_message_set_to_defaults e n (submsg_fields (fptr f)) (pData it)
                  (c_memset (snd v) (pData it) 0 (data_size f)) of
                None \<Rightarrow> None
              | Some m1 \<Rightarrow> run (pData it) (write_size (pSize it) (unat (tag f)) (fst v, m1))
            else run (pData it) (write_size (pSize it) (unat (tag f)) v))
         else Some (vfail ''invalid field type'' v s))"

section \<open>Pointer fields\<close>

definition initialize_pointer_field :: "env \<Rightarrow> nat \<Rightarrow> pb_field \<Rightarrow> addr \<Rightarrow> cmem \<Rightarrow> cmem option" where
  "initialize_pointer_field e n f pItem m =
     (if PB_LTYPE (ftype f) = PB_LTYPE_STRING \<or> PB_LTYPE (ftype f) = PB_LTYPE_BYTES
      then Some (store_ptr m pItem 0)
      else if PB_LTYPE (ftype f) = PB_LTYPE_SUBMESSAGE
      then pb_message_set_to_defaults e n (submsg_fields (fptr f)) pItem (c_memset m pItem 0 (data_size f))
      else Some m)"

text \<open>\<open>initialize_pointer_field(pItem, iter); func(stream, iter->pos, pItem)\<close>.\<close>

definition decode_item :: "env \<Rightarrow> nat \<Rightarrow> field_decoder \<Rightarrow> field_decoder" where
  "decode_item e n func f pItem m s =
     (case initialize_pointer_field e n f pItem m of None \<Rightarrow> None | Some m1 \<Rightarrow> func f pItem m1 s)"

text \<open>The size of the next allocation for a packed array with \<open>left\<close> bytes to come.\<close>

definition grow :: "pb_field \<Rightarrow> nat \<Rightarrow> nat \<Rightarrow> nat" where
  "grow f allocated left =
     (let remain = (left - 1) div data_size f + 1
      in if remain < PB_SIZE_MAX - allocated then allocated + remain else allocated + 1)"

text \<open>The loop over a packed array; it may leave a message in the parent stream \<open>s\<close>. A \<open>data_size\<close>
  of zero is a division by zero.\<close>

fun pointer_packed_loop :: "env \<Rightarrow> nat \<Rightarrow> nat \<Rightarrow> field_decoder \<Rightarrow> pb_field_iter \<Rightarrow> nat \<Rightarrow> vars \<Rightarrow>
    pb_istream \<Rightarrow> pb_istream \<Rightarrow> (bool \<times> vars \<times> pb_istream \<times> pb_istream) option" where
  "pointer_packed_loop e n 0 func it allocated v sub s = None"
| "pointer_packed_loop e n (Suc k) func it allocated v sub s =
     (let f = cur it; sz = read_size (pSize it) v in
      if bytes_left sub = 0 then Some (True, v, sub, s)
      else if sz = PB_SIZE_MAX
      then Some (False, v, sub, s\<lparr>ierrmsg := Some ''too many array entries''\<rparr>)
      else if sz + 1 > allocated \<and> data_size f = 0 then None
      else
        let allocated1 = (if sz + 1 > allocated then grow f allocated (bytes_left sub) else allocated) in
        case (if sz + 1 > allocated then allocate_field e (pData it) (data_size f) allocated1 (snd v) sub
              else (True, snd v, sub)) of (ok, m1, sub1) \<Rightarrow>
        if \<not> ok then Some (False, (fst v, m1), sub1, s)
        else
          let v1 = (fst v, m1) in
          case decode_item e n func f (item_addr (load_ptr m1 (pData it)) f (read_size (pSize it) v1)) m1 sub1 of
            None \<Rightarrow> None
          | Some (ok, m2, sub2) \<Rightarrow>
              if \<not> ok then Some (False, (fst v, m2), sub2, s)
              else
                let v2 = (fst v, m2) in
                pointer_packed_loop e n k func it allocated1
                  (write_size (pSize it) (read_size (pSize it) v2 + 1) v2) sub2 s)"

definition decode_pointer_field ::
    "env \<Rightarrow> nat \<Rightarrow> sub_decoder \<Rightarrow> u32 \<Rightarrow> pb_field_iter \<Rightarrow> vars \<Rightarrow> pb_istream \<Rightarrow> var_result option" where
  "decode_pointer_field e n rec wire_type it v s =
     (let f = cur it; ty = ftype f; func = PB_DECODERS e n rec (PB_LTYPE ty) in
      if PB_HTYPE ty = PB_HTYPE_REQUIRED \<or> PB_HTYPE ty = PB_HTYPE_OPTIONAL \<or> PB_HTYPE ty = PB_HTYPE_ONEOF then
        case (if PB_LTYPE ty = PB_LTYPE_SUBMESSAGE \<and> load_ptr (snd v) (pData it) \<noteq> 0
              then pb_release_single_field e n it (snd v) else Some (snd v)) of
          None \<Rightarrow> None
        | Some m1 \<Rightarrow>
            let v2 = (if PB_HTYPE ty = PB_HTYPE_ONEOF
                      then write_size (pSize it) (unat (tag f)) (fst v, m1) else (fst v, m1))
            in keep_fcs (fst v2)
                 (if PB_LTYPE ty = PB_LTYPE_STRING \<or> PB_LTYPE ty = PB_LTYPE_BYTES
                  then func f (pData it) (snd v2) s
                  else case allocate_field e (pData it) (data_size f) 1 (snd v2) s of (ok, m3, s3) \<Rightarrow>
                    if \<not> ok then Some (False, m3, s3)
                    else decode_item e n func f (load_ptr m3 (pData it)) m3 s3)
      else if PB_HTYPE ty = PB_HTYPE_REPEATED then
        (if wire_type = PB_WT_STRING \<and> PB_LTYPE ty \<le> PB_LTYPE_LAST_PACKABLE then
           case pb_make_string_substream e s of
             (None, s1) \<Rightarrow> Some (False, v, s1)
           | (Some sub, s1) \<Rightarrow>
               (case pointer_packed_loop e n n func it (read_size (pSize it) v) v sub s1 of
                  None \<Rightarrow> None
                | Some (status, v1, sub1, s2) \<Rightarrow>
                    keep_fcs (fst v1) (Some (close_with e status (snd v1) sub1 s2)))
         else
           let sz = read_size (pSize it) v in
           if sz = PB_SIZE_MAX then Some (vfail ''too many array entries'' v s)
           else case allocate_field e (pData it) (data_size f) (sz + 1) (snd v) s of (ok, m1, s1) \<Rightarrow>
             if \<not> ok then Some (False, (fst v, m1), s1)
             else
               let v1 = (fst v, m1); k = read_size (pSize it) v1;
                   pItem = item_addr (load_ptr m1 (pData it)) f k;
                   v2 = write_size (pSize it) (k + 1) v1
               in keep_fcs (fst v2) (decode_item e n func f pItem (snd v2) s1))
      else Some (vfail ''invalid field type'' v s))"

section \<open>Callback fields\<close>

text \<open>\<open>do { if (!decode(&substream, field, arg)) ... } while (substream.bytes_left);\<close>\<close>

fun callback_loop :: "env \<Rightarrow> nat \<Rightarrow> addr \<Rightarrow> pb_field \<Rightarrow> cmem \<Rightarrow> pb_istream \<Rightarrow> dec_result option" where
  "callback_loop e 0 cb f m sub = None"
| "callback_loop e (Suc k) cb f m sub =
     (let fn = callback_funcs m cb in
      if fn = 0 then None
      else case dec_cb e fn f (callback_arg_addr cb) m sub of (ok, m1, sub1) \<Rightarrow>
        if \<not> ok then Some (False, m1, sub1)
        else if bytes_left sub1 \<noteq> 0 then callback_loop e k cb f m1 sub1
        else Some (True, m1, sub1))"

definition decode_callback_field ::
    "env \<Rightarrow> nat \<Rightarrow> u32 \<Rightarrow> pb_field_iter \<Rightarrow> cmem \<Rightarrow> pb_istream \<Rightarrow> dec_result option" where
  "decode_callback_field e n wire_type it m s =
     (let fn = callback_funcs m (pData it); arg = callback_arg_addr (pData it) in
      if pData it = 0 \<or> fn = 0 then
        (case pb_skip_field e wire_type s of (r, s1) \<Rightarrow> Some (r \<noteq> None, m, s1))
      else if wire_type = PB_WT_STRING then
        (case pb_make_string_substream e s of
           (None, s1) \<Rightarrow> Some (False, m, s1)
         | (Some sub, s1) \<Rightarrow>
             (case callback_loop e n (pData it) (cur it) m sub of
                None \<Rightarrow> None
              | Some (ok, m1, sub1) \<Rightarrow>
                  if \<not> ok then Some (fail ''callback failed'' m1 s1)
                  else Some (close_with e True m1 sub1 s1)))
      else
        (case read_raw_value e wire_type 10 s of
           (None, s1) \<Rightarrow> Some (False, m, s1)
         | (Some buffer, s1) \<Rightarrow>
             (case dec_cb e fn (cur it) arg m (pb_istream_from_buffer buffer (length buffer)) of
                (ok, m1, sub1) \<Rightarrow> Some (ok, m1, s1))))"

section \<open>Fields\<close>

text \<open>Releasing the old member of a union; the result holds the iterator too.\<close>

definition pb_release_union_field ::
    "env \<Rightarrow> nat \<Rightarrow> pb_field_iter \<Rightarrow> vars \<Rightarrow> pb_istream \<Rightarrow> (bool \<times> pb_field_iter \<times> vars \<times> pb_istream) option" where
  "pb_release_union_field e n it v s =
     (let old_tag = read_size (pSize it) v; new_tag = tag (cur it) in
      if old_tag = 0 \<or> old_tag = unat new_tag then Some (True, it, v, s)
      else case pb_field_iter_find it (word_of_nat old_tag) of (found, it1) \<Rightarrow>
        if \<not> found then Some (False, it1, v, ierr ''invalid union tag'' s)
        else case pb_release_single_field e n it1 (snd v) of
          None \<Rightarrow> None
        | Some m1 \<Rightarrow>
            (case pb_field_iter_find it1 new_tag of (found2, it2) \<Rightarrow>
               if \<not> found2 then Some (False, it2, (fst v, m1), ierr ''iterator error'' s)
               else Some (True, it2,
                 (fst v, if PB_ATYPE (ftype (cur it2)) = PB_ATYPE_POINTER
                         then store_ptr m1 (pData it2) 0 else m1), s)))"

text \<open>Returns the iterator as well, which the union case moves.\<close>

definition decode_field :: "env \<Rightarrow> nat \<Rightarrow> sub_decoder \<Rightarrow> u32 \<Rightarrow> pb_field_iter \<Rightarrow> vars \<Rightarrow> pb_istream \<Rightarrow>
    (pb_field_iter \<times> var_result) option" where
  "decode_field e n rec wire_type it v s =
     (case (if PB_HTYPE (ftype (cur it)) = PB_HTYPE_ONEOF then pb_release_union_field e n it v s
            else Some (True, it, v, s)) of
        None \<Rightarrow> None
      | Some (ok, it1, v1, s1) \<Rightarrow>
          if \<not> ok then Some (it1, False, v1, s1)
          else map_option (\<lambda>r. (it1, r))
            (let aty = PB_ATYPE (ftype (cur it1)) in
             if aty = PB_ATYPE_STATIC then decode_static_field e n rec wire_type it1 v1 s1
             else if aty = PB_ATYPE_POINTER then decode_pointer_field e n rec wire_type it1 v1 s1
             else if aty = PB_ATYPE_CALLBACK
             then keep_fcs (fst v1) (decode_callback_field e n wire_type it1 (snd v1) s1)
             else Some (vfail ''invalid field type'' v1 s1)))"

section \<open>Extension fields\<close>

definition default_extension_decoder ::
    "env \<Rightarrow> nat \<Rightarrow> sub_decoder \<Rightarrow> addr \<Rightarrow> u32 \<Rightarrow> u32 \<Rightarrow> cmem \<Rightarrow> pb_istream \<Rightarrow> dec_result option" where
  "default_extension_decoder e n rec ext tg wire_type m s =
     (let f = field_at (ext_arg (ext_types e (ext_type_ptr m ext))) 0 in
      if tag f \<noteq> tg then Some (True, m, s)
      else
        let it = iter_from_extension e m ext; m1 = store_bool m (ext_found_addr ext) True in
        map_option (\<lambda>(it1, ok, v, s1). (ok, snd v, s1)) (decode_field e n rec wire_type it (0, m1) s))"

text \<open>The loop of \<open>decode_extension\<close>: it ends when an extension has read from the stream.\<close>

fun extension_dec_loop :: "env \<Rightarrow> nat \<Rightarrow> sub_decoder \<Rightarrow> nat \<Rightarrow> nat \<Rightarrow> addr \<Rightarrow> u32 \<Rightarrow> u32 \<Rightarrow>
    cmem \<Rightarrow> pb_istream \<Rightarrow> dec_result option" where
  "extension_dec_loop e n rec 0 left ext tg wire_type m s =
     (if ext \<noteq> 0 \<and> left = bytes_left s then None else Some (True, m, s))"
| "extension_dec_loop e n rec (Suc k) left ext tg wire_type m s =
     (if ext \<noteq> 0 \<and> left = bytes_left s then
        let ty = ext_types e (ext_type_ptr m ext) in
        case (if ext_decode ty \<noteq> 0 then Some (ext_dec_cb e (ext_decode ty) ext tg wire_type m s)
              else default_extension_decoder e n rec ext tg wire_type m s) of
          None \<Rightarrow> None
        | Some (ok, m1, s1) \<Rightarrow>
            if \<not> ok then Some (False, m1, s1)
            else extension_dec_loop e n rec k left (ext_next m1 ext) tg wire_type m1 s1
      else Some (True, m, s))"

definition decode_extension :: "env \<Rightarrow> nat \<Rightarrow> sub_decoder \<Rightarrow> u32 \<Rightarrow> u32 \<Rightarrow> pb_field_iter \<Rightarrow>
    cmem \<Rightarrow> pb_istream \<Rightarrow> dec_result option" where
  "decode_extension e n rec tg wire_type it m s =
     extension_dec_loop e n rec n (bytes_left s) (load_ptr m (pData it)) tg wire_type m s"

definition find_extension_field :: "pb_field_iter \<Rightarrow> bool \<times> pb_field_iter" where
  "find_extension_field it =
     iter_find_loop (length (start it) + 1) (\<lambda>f. PB_LTYPE (ftype f) = PB_LTYPE_EXTENSION) (pos it) it"

section \<open>Messages\<close>

text \<open>The local variables of \<open>pb_decode_noinit\<close>, with the memory and the stream. The pointer
  \<open>fixed_count_field\<close> is a position in the descriptor array.\<close>

record dec_state =
  d_iter :: pb_field_iter
  d_seen :: "u32 list"
  d_ext_start :: u32
  d_fixed :: "nat option"
  d_vars :: vars
  d_stream :: pb_istream

datatype dec_step = Continue | Break | Return_false

text \<open>The check of a fixed-count field that has been left or that the message ends with.\<close>

definition fixed_count_short :: "pb_field list \<Rightarrow> nat option \<Rightarrow> nat \<Rightarrow> bool" where
  "fixed_count_short fs fixed fcs =
     (case fixed of None \<Rightarrow> False | Some p \<Rightarrow> fcs \<noteq> array_size (field_at fs p))"

text \<open>The branch for a tag that no field has.\<close>

definition unknown_field :: "env \<Rightarrow> nat \<Rightarrow> sub_decoder \<Rightarrow> u32 \<Rightarrow> u32 \<Rightarrow> dec_state \<Rightarrow> (dec_step \<times> dec_state) option" where
  "unknown_field e n rec tg wire_type st =
     (let (found, it1) = (if tg \<ge> d_ext_start st then find_extension_field (d_iter st) else (False, d_iter st));
          st1 = (if tg \<ge> d_ext_start st
                 then st\<lparr>d_iter := it1, d_ext_start := (if found then tag (cur it1) else -1)\<rparr> else st);
          try_ext = (tg \<ge> d_ext_start st \<and> tg \<ge> d_ext_start st1);
          left = bytes_left (d_stream st1);
          skip = (\<lambda>st. case pb_skip_field e wire_type (d_stream st) of (r, s1) \<Rightarrow>
                    Some (if r = None then Return_false else Continue, st\<lparr>d_stream := s1\<rparr>))
      in if try_ext then
           case decode_extension e n rec tg wire_type (d_iter st1) (snd (d_vars st1)) (d_stream st1) of
             None \<Rightarrow> None
           | Some (ok, m1, s1) \<Rightarrow>
               let st2 = st1\<lparr>d_vars := (fst (d_vars st1), m1), d_stream := s1\<rparr> in
               if \<not> ok then Some (Return_false, st2)
               else if left \<noteq> bytes_left s1 then Some (Continue, st2)
               else skip st2
         else skip st1)"

text \<open>The branch for a known tag, with the iterator on its field.\<close>

definition known_field :: "env \<Rightarrow> nat \<Rightarrow> sub_decoder \<Rightarrow> u32 \<Rightarrow> dec_state \<Rightarrow> (dec_step \<times> dec_state) option" where
  "known_field e n rec wire_type st =
     (let it = d_iter st; ty = ftype (cur it); (fcs, m) = d_vars st;
          fixed = (PB_HTYPE ty = PB_HTYPE_REPEATED \<and> pSize it = At (pData it));
          fresh = (fixed \<and> d_fixed st \<noteq> Some (pos it))
      in if fresh \<and> fixed_count_short (start it) (d_fixed st) fcs
         then Some (Return_false, st\<lparr>d_stream := ierr ''wrong size for fixed count field'' (d_stream st)\<rparr>)
         else
           let v = (if fresh then 0 else fcs, m);
               it1 = (if fixed then it\<lparr>pSize := Fixed_count_size\<rparr> else it);
               i = required_field_index it1;
               seen = (if PB_HTYPE ty = PB_HTYPE_REQUIRED \<and> i < PB_MAX_REQUIRED_FIELDS
                       then (d_seen st)[i div 32 := (d_seen st ! (i div 32)) OR push_bit (i mod 32) 1]
                       else d_seen st);
               st1 = st\<lparr>d_iter := it1, d_seen := seen, d_vars := v,
                        d_fixed := (if fresh then Some (pos it) else d_fixed st)\<rparr>
           in case decode_field e n rec wire_type it1 v (d_stream st1) of
                None \<Rightarrow> None
              | Some (it2, ok, v2, s2) \<Rightarrow>
                  Some (if ok then Continue else Return_false,
                    st1\<lparr>d_iter := it2, d_vars := v2, d_stream := s2\<rparr>))"

text \<open>One round of the main loop, for a stream that is not at its end.\<close>

definition noinit_step :: "env \<Rightarrow> nat \<Rightarrow> sub_decoder \<Rightarrow> dec_state \<Rightarrow> (dec_step \<times> dec_state) option" where
  "noinit_step e n rec st =
     (case pb_decode_tag e (d_stream st) of
        (None, eof, s1) \<Rightarrow> Some (if eof then Break else Return_false, st\<lparr>d_stream := s1\<rparr>)
      | (Some (wire_type, tg), eof, s1) \<Rightarrow>
          (case pb_field_iter_find (d_iter st) tg of (found, it1) \<Rightarrow>
             let st1 = st\<lparr>d_iter := it1, d_stream := s1\<rparr> in
             if found then known_field e n rec wire_type st1
             else unknown_field e n rec tg wire_type st1))"

fun noinit_loop :: "env \<Rightarrow> nat \<Rightarrow> sub_decoder \<Rightarrow> nat \<Rightarrow> dec_state \<Rightarrow> (bool \<times> dec_state) option" where
  "noinit_loop e n rec 0 st = (if bytes_left (d_stream st) = 0 then Some (True, st) else None)"
| "noinit_loop e n rec (Suc k) st =
     (if bytes_left (d_stream st) = 0 then Some (True, st)
      else case noinit_step e n rec st of
        None \<Rightarrow> None
      | Some (Continue, st1) \<Rightarrow> noinit_loop e n rec k st1
      | Some (Break, st1) \<Rightarrow> Some (True, st1)
      | Some (Return_false, st1) \<Rightarrow> Some (False, st1))"

text \<open>The number of required fields, found by walking from the iterator to the end of the array.\<close>

definition req_field_count :: "pb_field_iter \<Rightarrow> nat" where
  "req_field_count it =
     (let it1 = last (iter_run (length (start it)) it);
          it2 = snd (pb_field_iter_next it1);
          k = required_field_index it1 +
              (if PB_HTYPE (ftype (cur it1)) = PB_HTYPE_REQUIRED \<and> tag (cur it2) \<noteq> 0 then 1 else 0)
      in min k PB_MAX_REQUIRED_FIELDS)"

text \<open>All of the first \<open>k\<close> bits of \<open>fields_seen\<close> are set, word by word and then the remaining bits.\<close>

definition all_seen :: "nat \<Rightarrow> u32 list \<Rightarrow> bool" where
  "all_seen k seen =
     (list_all (\<lambda>w. w = -1) (take (k div 32) seen) \<and>
      (k mod 32 \<noteq> 0 \<longrightarrow> seen ! (k div 32) = drop_bit (32 - k mod 32) (-1)))"

definition noinit_finish :: "dec_state \<Rightarrow> dec_result" where
  "noinit_finish st =
     (let (fcs, m) = d_vars st in
      if fixed_count_short (start (d_iter st)) (d_fixed st) fcs
      then fail ''wrong size for fixed count field'' m (d_stream st)
      else if req_field_count (d_iter st) > 0 \<and> \<not> all_seen (req_field_count (d_iter st)) (d_seen st)
      then fail ''missing required field'' m (d_stream st)
      else (True, m, d_stream st))"

definition noinit_start :: "pb_field list \<Rightarrow> addr \<Rightarrow> cmem \<Rightarrow> pb_istream \<Rightarrow> dec_state" where
  "noinit_start fs dest m s =
     \<lparr>d_iter = snd (pb_field_iter_begin fs dest), d_seen = [0, 0], d_ext_start = 0, d_fixed = None,
      d_vars = (0, m), d_stream = s\<rparr>"

fun pb_decode_noinit :: "env \<Rightarrow> nat \<Rightarrow> sub_decoder" where
  "pb_decode_noinit e 0 fs dest m s = None"
| "pb_decode_noinit e (Suc n) fs dest m s =
     (case noinit_loop e n (pb_decode_noinit e n) n (noinit_start fs dest m s) of
        None \<Rightarrow> None
      | Some (ok, st) \<Rightarrow>
          Some (if ok then noinit_finish st else (False, snd (d_vars st), d_stream st)))"

definition pb_decode :: "env \<Rightarrow> nat \<Rightarrow> sub_decoder" where
  "pb_decode e n = decode_init e n (pb_decode_noinit e n)"

text \<open>A message behind its length.\<close>

definition decode_delimited :: "env \<Rightarrow> sub_decoder \<Rightarrow> sub_decoder" where
  "decode_delimited e rec fs dest m s =
     (case pb_make_string_substream e s of
        (None, s1) \<Rightarrow> Some (False, m, s1)
      | (Some sub, s1) \<Rightarrow>
          (case rec fs dest m sub of
             None \<Rightarrow> None
           | Some (status, m1, sub1) \<Rightarrow> Some (close_with e status m1 sub1 s1)))"

definition pb_decode_delimited_noinit :: "env \<Rightarrow> nat \<Rightarrow> sub_decoder" where
  "pb_decode_delimited_noinit e n = decode_delimited e (pb_decode_noinit e n)"

definition pb_decode_delimited :: "env \<Rightarrow> nat \<Rightarrow> sub_decoder" where
  "pb_decode_delimited e n = decode_delimited e (pb_decode e n)"

definition pb_decode_nullterminated :: "env \<Rightarrow> nat \<Rightarrow> sub_decoder" where
  "pb_decode_nullterminated e n = pb_decode e n"

end
