(* ===== verification/Pb_Progress.thy ===== *)
theory Pb_Progress
  imports Pb_Decode Pb_Plain
begin

unbundle bit_operations_syntax

text \<open>
  Termination of the decoder. No decoder gives bytes back to the stream and every field that is
  decoded has consumed some, so the main loop ends; the walks that set defaults and release a message
  end because the descriptors are nested finitely deep. For plain descriptors the fuel needed is a
  number that can be read off the input: the bytes left and the nesting depth.
\<close>

section \<open>Progress of the primitive decoders\<close>

text \<open>No decoder gives bytes back, and one that succeeds has consumed at least one.\<close>

definition consumes :: "'a reader \<Rightarrow> bool" where
  "consumes f \<longleftrightarrow> (\<forall>s r s1. f s = (r, s1) \<longrightarrow> bytes_left s1 \<le> bytes_left s \<and>
     (r \<noteq> None \<longrightarrow> bytes_left s1 < bytes_left s))"

lemma consumesD: "consumes f \<Longrightarrow> f s = (r, s1) \<Longrightarrow> bytes_left s1 \<le> bytes_left s"
  "consumes f \<Longrightarrow> f s = (Some x, s1) \<Longrightarrow> bytes_left s1 < bytes_left s"
  by (auto simp: consumes_def)

lemma call_in_left: "call_in e n s = (r, s1) \<Longrightarrow> bytes_left s1 = bytes_left s"
  using call_in_bytes_left [of e n s] by simp

lemma consumes_readbyte: "consumes (pb_readbyte e)"
  by (auto simp: consumes_def pb_readbyte_def dest: call_in_left split: if_splits option.splits prod.splits)

lemma read_bytes_left:
  "pb_read_bytes e n s = (r, s1) \<Longrightarrow> bytes_left s1 \<le> bytes_left s \<and>
     (r \<noteq> None \<longrightarrow> n \<le> bytes_left s \<and> bytes_left s1 = bytes_left s - n)"
  by (auto simp: pb_read_bytes_def dest: call_in_left split: if_splits option.splits prod.splits)

lemma skip_loop_left:
  "skip_loop e n s = (r, s1) \<Longrightarrow> bytes_left s1 \<le> bytes_left s \<and>
     (r \<noteq> None \<longrightarrow> n \<le> bytes_left s \<and> bytes_left s1 = bytes_left s - n)"
proof (induction e n s arbitrary: r s1 rule: skip_loop.induct)
  case (1 e n s)
  show ?case
  proof (cases "n > 16")
    case True
    obtain r0 s0 where r0: "pb_read_bytes e 16 s = (r0, s0)" by (cases "pb_read_bytes e 16 s")
    show ?thesis
    proof (cases r0)
      case None
      with "1.prems" r0 True read_bytes_left [OF r0] show ?thesis by (auto simp: skip_loop.simps [of e n s])
    next
      case (Some bs)
      with "1.prems" r0 True have "skip_loop e (n - 16) s0 = (r, s1)" by (simp add: skip_loop.simps [of e n s])
      from "1.IH" [OF True r0 [symmetric] Some this] read_bytes_left [OF r0] Some True show ?thesis by auto
    qed
  next
    case False
    with "1.prems" have "pb_read_bytes e n s = (r, s1)" by (simp add: skip_loop.simps [of e n s])
    then show ?thesis by (rule read_bytes_left)
  qed
qed

lemma read_left:
  "pb_read e null n s = (r, s1) \<Longrightarrow> bytes_left s1 \<le> bytes_left s \<and>
     (r \<noteq> None \<longrightarrow> n \<le> bytes_left s \<and> bytes_left s1 = bytes_left s - n)"
  using skip_loop_left [of e n s r s1] read_bytes_left [of e n s r s1]
  by (auto simp: pb_read_def split: if_splits)

lemma consumes_read: "0 < n \<Longrightarrow> consumes (pb_read e null n)"
  unfolding consumes_def by (auto dest!: read_left)

lemma readbyte_split:
  obtains s0 where "pb_readbyte e s = (None, s0)" "bytes_left s0 \<le> bytes_left s"
  | c s0 where "pb_readbyte e s = (Some c, s0)" "bytes_left s0 < bytes_left s"
proof -
  obtain r0 s0 where r0: "pb_readbyte e s = (r0, s0)" by (cases "pb_readbyte e s")
  with that consumesD(1) [OF consumes_readbyte r0] consumesD(2) [OF consumes_readbyte] show thesis
    by (cases r0) blast+
qed

text \<open>\<open>pb_decode_varint\<close> gives up when the bit position has passed 63, so it reads at most ten bytes.\<close>

lemma readbyte_left:
  "pb_readbyte e s = (r, s1) \<Longrightarrow> bytes_left s = bytes_left s1 + (if r = None then 0 else 1)"
  using call_in_bytes_left [of e 1 s]
  by (auto simp: pb_readbyte_def split: if_splits prod.splits option.splits simp del: call_in_bytes_left)

lemma varint64_loop_length:
  "varint64_loop e bitpos result s = (r, s') \<Longrightarrow> bitpos \<le> 70 \<Longrightarrow>
     7 * bytes_left s \<le> 7 * bytes_left s' + (70 - bitpos)"
proof (induction e bitpos result s arbitrary: r s' rule: varint64_loop.induct)
  case (1 e bitpos result s)
  obtain b s1 where rb: "pb_readbyte e s = (b, s1)" by (cases "pb_readbyte e s")
  note left = readbyte_left [OF rb]
  show ?case
  proof (cases "bitpos \<ge> 64 \<or> b = None")
    case True
    then show ?thesis using "1.prems" rb left by (subst (asm) varint64_loop.simps) (auto split: if_splits)
  next
    case False
    then obtain v where b: "b = Some v" and bp: "bitpos < 64" by auto
    note IH = "1.IH" [OF _ rb [symmetric] b refl refl]
    show ?thesis
    proof (cases "v AND 0x80 = 0")
      case True
      then show ?thesis using "1.prems" rb left b bp
        by (subst (asm) varint64_loop.simps) (auto simp: Let_def)
    next
      case more: False
      then have "varint64_loop e (bitpos + 7) (result OR push_bit bitpos (ucast (v AND 0x7F))) s1 = (r, s')"
        using "1.prems"(1) rb b bp by (subst (asm) varint64_loop.simps) (simp add: Let_def)
      with IH more bp have "7 * bytes_left s1 \<le> 7 * bytes_left s' + (70 - (bitpos + 7))" by simp
      with left b bp show ?thesis by simp
    qed
  qed
qed

lemma varint32_loop_left:
  "varint32_loop e b r s = (x, s1) \<Longrightarrow> bytes_left s1 \<le> bytes_left s \<and> (x \<noteq> None \<longrightarrow> bytes_left s1 < bytes_left s)"
proof (induction "bytes_left s" arbitrary: b r s x s1 rule: less_induct)
  case less
  show ?case
  proof (rule readbyte_split [of e s])
    fix s0 assume "pb_readbyte e s = (None, s0)" "bytes_left s0 \<le> bytes_left s"
    with less.prems show ?thesis by (subst (asm) varint32_loop.simps) auto
  next
    fix c s0 assume r: "pb_readbyte e s = (Some c, s0)" and lt: "bytes_left s0 < bytes_left s"
    with less.prems less.hyps [OF lt] show ?thesis
      by (subst (asm) varint32_loop.simps) (fastforce simp: Let_def split: if_splits)
  qed
qed

lemma varint64_loop_left:
  "varint64_loop e b r s = (x, s1) \<Longrightarrow> bytes_left s1 \<le> bytes_left s \<and> (x \<noteq> None \<longrightarrow> bytes_left s1 < bytes_left s)"
proof (induction "bytes_left s" arbitrary: b r s x s1 rule: less_induct)
  case less
  show ?case
  proof (rule readbyte_split [of e s])
    fix s0 assume "pb_readbyte e s = (None, s0)" "bytes_left s0 \<le> bytes_left s"
    with less.prems show ?thesis by (subst (asm) varint64_loop.simps) (auto split: if_splits)
  next
    fix c s0 assume r: "pb_readbyte e s = (Some c, s0)" and lt: "bytes_left s0 < bytes_left s"
    with less.prems less.hyps [OF lt] show ?thesis
      by (subst (asm) varint64_loop.simps) (fastforce simp: Let_def split: if_splits)
  qed
qed

lemma consumes_varint: "consumes (pb_decode_varint e)"
  using varint64_loop_left by (simp add: consumes_def pb_decode_varint_def)

lemma varint32_eof_left:
  "pb_decode_varint32_eof e s = (r, eof, s1) \<Longrightarrow>
     bytes_left s1 \<le> bytes_left s \<and> (r \<noteq> None \<longrightarrow> bytes_left s1 < bytes_left s)"
  by (rule readbyte_split [of e s])
    (auto simp: pb_decode_varint32_eof_def dest!: varint32_loop_left split: if_splits prod.splits)

lemma consumes_varint32: "consumes (pb_decode_varint32 e)"
  unfolding consumes_def pb_decode_varint32_def
  by (auto dest: varint32_eof_left split: prod.splits)

lemma decode_tag_left:
  "pb_decode_tag e s = (r, eof, s1) \<Longrightarrow>
     bytes_left s1 \<le> bytes_left s \<and> (r \<noteq> None \<longrightarrow> bytes_left s1 < bytes_left s)"
  by (auto simp: pb_decode_tag_def dest!: varint32_eof_left split: prod.splits option.splits if_splits)

lemma skip_varint_left:
  "pb_skip_varint e s = (x, s1) \<Longrightarrow> bytes_left s1 \<le> bytes_left s"
proof (induction "bytes_left s" arbitrary: s x s1 rule: less_induct)
  case less
  obtain r s0 where r: "pb_read e False 1 s = (r, s0)" by (cases "pb_read e False 1 s")
  note left = read_left [OF r]
  show ?case
  proof (cases r)
    case None
    with less.prems r left show ?thesis by (subst (asm) pb_skip_varint.simps) auto
  next
    case (Some bs)
    with left have lt: "bytes_left s0 < bytes_left s" by auto
    with less.prems r Some less.hyps [OF lt] show ?thesis
      by (subst (asm) pb_skip_varint.simps) (fastforce split: if_splits)
  qed
qed

lemma skip_string_left: "pb_skip_string e s = (r, s1) \<Longrightarrow> bytes_left s1 \<le> bytes_left s"
  by (auto simp: pb_skip_string_def dest!: consumesD(1) [OF consumes_varint32] read_left
      split: prod.splits option.splits)

lemma skip_field_left: "pb_skip_field e wt s = (r, s1) \<Longrightarrow> bytes_left s1 \<le> bytes_left s"
  by (auto simp: pb_skip_field_def dest: read_left skip_varint_left skip_string_left
      split: if_splits prod.splits)

lemma consumes_svarint: "consumes (pb_decode_svarint e)"
  unfolding consumes_def pb_decode_svarint_def
  by (auto dest: consumesD [OF consumes_varint] split: prod.splits option.splits)

lemma consumes_fixed32: "consumes (pb_decode_fixed32 e)"
  unfolding consumes_def pb_decode_fixed32_def
  by (auto dest: read_left split: prod.splits option.splits)

lemma consumes_fixed64: "consumes (pb_decode_fixed64 e)"
  unfolding consumes_def pb_decode_fixed64_def
  by (auto dest: read_left split: prod.splits option.splits)

text \<open>A substream and what is left of its parent are together smaller than the parent was.\<close>

lemma make_substream_left:
  "pb_make_string_substream e s = (r, s1) \<Longrightarrow> bytes_left s1 \<le> bytes_left s \<and>
     (\<forall>sub. r = Some sub \<longrightarrow> bytes_left sub + bytes_left s1 < bytes_left s)"
  by (auto simp: pb_make_string_substream_def dest: consumesD [OF consumes_varint32]
      split: prod.splits option.splits if_splits)

lemma close_substream_left:
  "pb_close_string_substream e sub s = (ok, s1) \<Longrightarrow> bytes_left s1 = bytes_left s"
  by (auto simp: pb_close_string_substream_def split: if_splits prod.splits option.splits)

section \<open>Progress of the leaf decoders\<close>

text \<open>\<open>stays s r\<close>: a decoder started on \<open>s\<close> has come back without giving bytes back. \<open>progress s r\<close>: in
  addition, a success has consumed some.\<close>

definition stays :: "pb_istream \<Rightarrow> dec_result option \<Rightarrow> bool" where
  "stays s r \<longleftrightarrow> (\<exists>ok m s1. r = Some (ok, m, s1) \<and> bytes_left s1 \<le> bytes_left s)"

definition progress :: "pb_istream \<Rightarrow> dec_result option \<Rightarrow> bool" where
  "progress s r \<longleftrightarrow> (\<exists>ok m s1. r = Some (ok, m, s1) \<and> bytes_left s1 \<le> bytes_left s \<and>
     (ok \<longrightarrow> bytes_left s1 < bytes_left s))"

lemma stays_Some [simp]: "stays s (Some (ok, m, s1)) \<longleftrightarrow> bytes_left s1 \<le> bytes_left s"
  by (auto simp: stays_def)

lemma progress_Some [simp]:
  "progress s (Some (ok, m, s1)) \<longleftrightarrow> bytes_left s1 \<le> bytes_left s \<and> (ok \<longrightarrow> bytes_left s1 < bytes_left s)"
  by (auto simp: progress_def)

lemma not_progress_None [simp]: "\<not> progress s None" "\<not> stays s None"
  by (simp_all add: progress_def stays_def)

lemma progress_stays: "progress s r \<Longrightarrow> stays s r"
  by (auto simp: progress_def)

lemma stays_trans: "stays s1 r \<Longrightarrow> bytes_left s1 \<le> bytes_left s \<Longrightarrow> stays s r"
  by (auto simp: stays_def)

lemma stays_progress: "stays s1 r \<Longrightarrow> bytes_left s1 < bytes_left s \<Longrightarrow> progress s r"
  by (auto simp: stays_def)

lemma fail_eq [simp]: "fail msg m s = (False, m, ierr msg s)"
  by (simp add: fail_def)

lemma progress_after:
  assumes "consumes f" and "\<And>x s1. f s = (Some x, s1) \<Longrightarrow> stays s1 (g x s1)"
  shows "progress s (case f s of (None, s1) \<Rightarrow> Some (False, m, s1) | (Some x, s1) \<Rightarrow> g x s1)"
proof (cases "f s")
  case (Pair r s1)
  then show ?thesis
    using consumesD [OF assms(1), of s] assms(2)
    by (cases r) (auto intro: stays_progress)
qed

lemma stays_read_into: "stays s (Some (read_into e p n m s))"
  by (auto simp: read_into_def dest: read_left split: prod.splits option.splits)

lemma stays_read_string: "stays s (Some (read_string e p n m s))"
  using stays_read_into [of s e p n m] by (auto simp: read_string_def split: prod.splits)

lemma stays_store_clamped: "stays s (Some (store_clamped c f p x m s))"
  by (simp add: store_clamped_def Let_def)

lemma allocate_field_left: "allocate_field e p d a m s = (ok, m1, s1) \<Longrightarrow> bytes_left s1 = bytes_left s"
  by (auto simp: allocate_field_def split: if_splits prod.splits)

lemma stays_case:
  "(\<And>ok m1 s1. r = (ok, m1, s1) \<Longrightarrow> stays s (g ok m1 s1)) \<Longrightarrow> stays s (case r of (ok, m1, s1) \<Rightarrow> g ok m1 s1)"
  by (cases r) auto

lemma progress_bool: "progress s (pb_dec_bool e f p m s)"
  unfolding pb_dec_bool_def by (rule progress_after [OF consumes_varint32]) simp

lemma progress_varint: "progress s (pb_dec_varint e f p m s)"
  unfolding pb_dec_varint_def Let_def by (rule progress_after [OF consumes_varint]) (rule stays_store_clamped)

lemma progress_uvarint: "progress s (pb_dec_uvarint e f p m s)"
  unfolding pb_dec_uvarint_def by (rule progress_after [OF consumes_varint]) (rule stays_store_clamped)

lemma progress_svarint: "progress s (pb_dec_svarint e f p m s)"
  unfolding pb_dec_svarint_def by (rule progress_after [OF consumes_svarint]) (rule stays_store_clamped)

lemma progress_fixed32: "progress s (pb_dec_fixed32 e f p m s)"
  unfolding pb_dec_fixed32_def by (rule progress_after [OF consumes_fixed32]) simp

lemma progress_fixed64: "progress s (pb_dec_fixed64 e f p m s)"
  unfolding pb_dec_fixed64_def by (rule progress_after [OF consumes_fixed64]) simp

lemma stays_allocate:
  assumes "\<And>m1 s1. bytes_left s1 = bytes_left s \<Longrightarrow> stays s (g m1 s1)"
  shows "stays s (case allocate_field e p d a m s of (ok, m1, s1) \<Rightarrow> if \<not> ok then Some (False, m1, s1) else g m1 s1)"
  using assms by (auto dest: allocate_field_left split: prod.splits)

lemma progress_bytes: "progress s (pb_dec_bytes e f p m s)"
  unfolding pb_dec_bytes_def Let_def
proof (rule progress_after [OF consumes_varint32], goal_cases)
  case (1 n s1)
  show ?case
    by (auto intro!: stays_allocate intro: stays_trans [OF stays_read_into] simp: stays_read_into simp del: stays_Some)
      (simp_all)
qed

lemma progress_string: "progress s (pb_dec_string e f p m s)"
  unfolding pb_dec_string_def Let_def
proof (rule progress_after [OF consumes_varint32], goal_cases)
  case (1 n s1)
  show ?case
    by (auto intro!: stays_allocate intro: stays_trans [OF stays_read_string] simp: stays_read_string simp del: stays_Some)
      (simp_all)
qed

lemma progress_fixed_length: "progress s (pb_dec_fixed_length_bytes e f p m s)"
  unfolding pb_dec_fixed_length_bytes_def
  by (rule progress_after [OF consumes_varint32]) (auto simp: stays_read_into)

end
