(* ===== verification/Pb_Total.thy ===== *)
theory Pb_Total
  imports Pb_Progress
begin

unbundle bit_operations_syntax

text \<open>
  The decoder comes back. Over a plain descriptor array the walks of \<open>pb_message_set_to_defaults\<close> and
  \<open>pb_release\<close> need fuel in proportion to the nesting depth, and every field decoder that succeeds has
  consumed input, so the main loop and its recursion end on every input, whatever the stream callback,
  the allocator and the memory do.
\<close>

section \<open>Defaults and release come back\<close>

lemma Ex_Not [simp]: "Ex Not"
  by (rule exI [of _ False]) simp

lemma iter_next_pSize:
  "\<exists>a. pSize it = At a \<Longrightarrow> \<exists>a. pSize (snd (pb_field_iter_next it)) = At a"
  by (auto simp: pb_field_iter_next_def pb_field_iter_begin_def Let_def)

lemma iter_run_pSize:
  "\<exists>a. pSize it = At a \<Longrightarrow> it' \<in> set (iter_run n it) \<Longrightarrow> \<exists>a. pSize it' = At a"
proof (induction n arbitrary: it)
  case 0
  then show ?case by simp
next
  case (Suc n)
  obtain again it1 where nxt: "pb_field_iter_next it = (again, it1)" by (cases "pb_field_iter_next it")
  with Suc.prems have "it' = it \<or> it' \<in> set (iter_run n it1)" by (auto split: if_splits)
  then show ?case using Suc.IH [of it1] Suc.prems(1) iter_next_pSize [of it] nxt by auto
qed

lemma iter_all_pSize: "it \<in> set (iter_all fs b) \<Longrightarrow> \<exists>a. pSize it = At a"
  by (auto simp: iter_all_def pb_field_iter_begin_def Let_def split: if_splits)
    (rule iter_run_pSize [rotated], assumption, simp)

lemma walk_total:
  "(\<And>it m. it \<in> set its \<Longrightarrow> \<exists>m'. body it m = Some m') \<Longrightarrow> \<exists>m'. walk body its m = Some m'"
proof (induction its arbitrary: m)
  case Nil
  then show ?case by simp
next
  case (Cons it its)
  then obtain m1 where "body it m = Some m1" by (meson list.set_intros(1))
  with Cons show ?case by simp
qed

lemma release_items_total:
  "(\<And>p m. \<exists>m'. rel p m = Some m') \<Longrightarrow> \<exists>m'. release_items rel sz p k m = Some m'"
proof (induction k arbitrary: p m)
  case 0
  then show ?case by simp
next
  case (Suc k)
  obtain m1 where "rel p m = Some m1" using Suc.prems by blast
  with Suc show ?case by simp
qed

lemma iter_all_last [simp]: "iter_all [PB_LAST_FIELD] b = []"
  by (simp add: iter_all_def pb_field_iter_begin_def field_at_def PB_LAST_FIELD_def)

lemma defaults_last: "0 < n \<Longrightarrow> pb_message_set_to_defaults e n [PB_LAST_FIELD] p m = Some m"
  by (cases n) simp_all

lemma release_last: "0 < n \<Longrightarrow> pb_release e n [PB_LAST_FIELD] p m = Some m"
  by (cases n) simp_all

lemma iter_plain:
  assumes "list_all plain_field fs" and "it \<in> set (iter_all fs b)"
  shows "plain_field (cur it)" and "1 \<le> depth_fields fs"
    and "fptr (cur it) = Submsg_fields fs' \<Longrightarrow> list_all plain_field fs' \<and> depth_fields fs' < depth_fields fs"
proof -
  from assms(2) have mem: "cur it \<in> set fs" using iter_all_mem by blast
  with assms(1) show pl: "plain_field (cur it)" by (simp add: list_all_iff)
  have "1 \<le> depth_field (cur it)" by (cases "cur it") (cases "fptr (cur it)"; simp)
  with depth_fields_mem [OF mem] show "1 \<le> depth_fields fs" by linarith
  show "fptr (cur it) = Submsg_fields fs' \<Longrightarrow> list_all plain_field fs' \<and> depth_fields fs' < depth_fields fs"
    using plain_submsg [OF pl] depth_submsg [OF mem] by blast
qed

lemma defaults_total:
  "list_all plain_field fs \<Longrightarrow> 2 * depth_fields fs < n \<Longrightarrow>
     \<exists>m'. pb_message_set_to_defaults e n fs dest m = Some m'"
proof (induction n arbitrary: fs dest m rule: less_induct)
  case (less n)
  then obtain n1 where n1: "n = Suc n1" by (cases n) simp_all
  have "\<exists>m'. pb_field_set_to_default e n1 it m = Some m'" if it: "it \<in> set (iter_all fs dest)" for it m
  proof -
    note pl = iter_plain [OF less.prems(1) it]
    obtain n2 where n2: "n1 = Suc n2" "0 < n2" using pl(2) less.prems(2) n1 by (cases n1) auto
    obtain a where a: "pSize it = At a" using iter_all_pSize [OF it] by blast
    have "\<exists>m'. pb_message_set_to_defaults e n2 (submsg_fields (fptr (cur it))) p m = Some m'" for p m
    proof (cases "fptr (cur it)")
      case (Submsg_fields fs')
      with pl(3) [OF this] less.IH [of n2 fs' p m] less.prems(2) n1 n2 show ?thesis by simp
    qed (use n2 defaults_last in simp_all)
    then show ?thesis using plain_fieldD(2) [OF pl(1)] a by (simp add: n2 Let_def)
  qed
  then show ?case unfolding n1 by (simp add: walk_total)
qed

lemma release_single_total:
  assumes pl: "plain_field (cur it)" and a: "pSize it = At a"
    and sub: "\<And>p m. \<exists>m'. pb_release e n (submsg_fields (fptr (cur it))) p m = Some m'"
  shows "\<exists>m'. pb_release_single_field e (Suc n) it m = Some m'"
  using plain_fieldD(2) [OF pl] a
    release_items_total [of "pb_release e n (submsg_fields (fptr (cur it)))", OF sub]
  by (auto simp: Let_def)

lemma release_total:
  "list_all plain_field fs \<Longrightarrow> 2 * depth_fields fs < n \<Longrightarrow> \<exists>m'. pb_release e n fs dest m = Some m'"
proof (induction n arbitrary: fs dest m rule: less_induct)
  case (less n)
  then obtain n1 where n1: "n = Suc n1" by (cases n) simp_all
  have "\<exists>m'. pb_release_single_field e n1 it m = Some m'" if it: "it \<in> set (iter_all fs dest)" for it m
  proof -
    note pl = iter_plain [OF less.prems(1) it]
    obtain n2 where n2: "n1 = Suc n2" "0 < n2" using pl(2) less.prems(2) n1 by (cases n1) auto
    obtain a where a: "pSize it = At a" using iter_all_pSize [OF it] by blast
    have "\<exists>m'. pb_release e n2 (submsg_fields (fptr (cur it))) p m = Some m'" for p m
    proof (cases "fptr (cur it)")
      case (Submsg_fields fs')
      with pl(3) [OF this] less.IH [of n2 fs' p m] less.prems(2) n1 n2 show ?thesis by simp
    qed (use n2 release_last in simp_all)
    with release_single_total [OF pl(1) a] show ?thesis unfolding n2 by blast
  qed
  then show ?case unfolding n1 by (simp add: walk_total)
qed

section \<open>Progress of the field decoders\<close>

text \<open>What the decoder of a field needs of the recursion: on every stream shorter than \<open>B\<close> the nested
  message comes back, and so do the walks over it.\<close>

definition submsg_ok :: "env \<Rightarrow> nat \<Rightarrow> sub_decoder \<Rightarrow> nat \<Rightarrow> pb_field \<Rightarrow> bool" where
  "submsg_ok e n rec B f \<longleftrightarrow>
     (\<forall>p m s. bytes_left s < B \<longrightarrow> stays s (rec (submsg_fields (fptr f)) p m s)) \<and>
     (\<forall>p m. \<exists>m'. pb_message_set_to_defaults e n (submsg_fields (fptr f)) p m = Some m') \<and>
     (\<forall>p m. \<exists>m'. pb_release e n (submsg_fields (fptr f)) p m = Some m') \<and>
     0 < n \<and> (\<forall>p m. \<exists>m'. pb_release e (n - 1) (submsg_fields (fptr f)) p m = Some m')"

lemma stays_close_with:
  "stays s (Some (close_with e status m sub s))"
  by (auto simp: close_with_def dest: close_substream_left split: prod.splits)

lemma stays_decode_init:
  assumes ok: "submsg_ok e n rec B f" and "bytes_left s < B"
  shows "stays s (decode_init e n rec (submsg_fields (fptr f)) p m s)"
proof -
  obtain m1 where m1: "pb_message_set_to_defaults e n (submsg_fields (fptr f)) p m = Some m1"
    using ok unfolding submsg_ok_def by blast
  have "stays s (rec (submsg_fields (fptr f)) p m1 s)" using assms by (simp add: submsg_ok_def)
  then obtain ok2 m2 s2 where r: "rec (submsg_fields (fptr f)) p m1 s = Some (ok2, m2, s2)"
    and le: "bytes_left s2 \<le> bytes_left s" by (auto simp: stays_def)
  obtain m3 where "pb_release e n (submsg_fields (fptr f)) p m2 = Some m3"
    using ok unfolding submsg_ok_def by blast
  with m1 r le show ?thesis by (simp add: decode_init_def)
qed

lemma progress_submessage:
  assumes ok: "submsg_ok e n rec B f" and B: "bytes_left s \<le> B"
  shows "progress s (pb_dec_submessage e n rec f p m s)"
proof -
  obtain r s1 where mk: "pb_make_string_substream e s = (r, s1)" by (cases "pb_make_string_substream e s")
  note left = make_substream_left [OF mk]
  show ?thesis
  proof (cases r)
    case None
    with mk left show ?thesis by (simp add: pb_dec_submessage_def)
  next
    case (Some sub)
    with left have sub: "bytes_left sub < B" "bytes_left s1 < bytes_left s" using B by auto
    let ?r = "(if PB_HTYPE (ftype f) = PB_HTYPE_REPEATED then decode_init e n rec else rec) (submsg_fields (fptr f)) p m sub"
    have "stays sub ?r" using stays_decode_init [OF ok sub(1)] ok sub(1) by (simp add: submsg_ok_def)
    then obtain st m1 sub1 where "?r = Some (st, m1, sub1)" by (auto simp: stays_def)
    with mk Some sub stays_close_with [of s1 e st m1 sub1] show ?thesis
      by (auto simp: pb_dec_submessage_def intro: stays_progress)
  qed
qed

lemma progress_decoder:
  assumes "submsg_ok e n rec B f" and "bytes_left s \<le> B" and "known_ltype lt"
  shows "progress s (PB_DECODERS e n rec lt f p m s)"
  using assms progress_bool progress_varint progress_uvarint progress_svarint progress_fixed32
    progress_fixed64 progress_bytes progress_string progress_submessage [OF assms(1,2)] progress_fixed_length
  by (auto simp: PB_DECODERS_def known_ltype_def)

text \<open>The same for results with the counter.\<close>

definition vprogress :: "pb_istream \<Rightarrow> var_result option \<Rightarrow> bool" where
  "vprogress s r \<longleftrightarrow> (\<exists>ok v s1. r = Some (ok, v, s1) \<and> bytes_left s1 \<le> bytes_left s \<and>
     (ok \<longrightarrow> bytes_left s1 < bytes_left s))"

lemma vprogress_Some [simp]:
  "vprogress s (Some (ok, v, s1)) \<longleftrightarrow> bytes_left s1 \<le> bytes_left s \<and> (ok \<longrightarrow> bytes_left s1 < bytes_left s)"
  by (auto simp: vprogress_def)

lemma vprogress_keep: "progress s r \<Longrightarrow> vprogress s (keep_fcs fcs r)"
  by (auto simp: progress_def keep_fcs_def)

lemma vfail_eq [simp]: "vfail msg v s = (False, v, ierr msg s)"
  by (simp add: vfail_def)

definition func_ok :: "nat \<Rightarrow> field_decoder \<Rightarrow> pb_field \<Rightarrow> bool" where
  "func_ok B func f \<longleftrightarrow> (\<forall>p m s. bytes_left s \<le> B \<longrightarrow> progress s (func f p m s))"

lemma func_okD: "func_ok B func f \<Longrightarrow> bytes_left s \<le> B \<Longrightarrow> progress s (func f p m s)"
  by (simp add: func_ok_def)

lemma func_ok_decoder:
  "submsg_ok e n rec B f \<Longrightarrow> plain_field f \<Longrightarrow> func_ok B (PB_DECODERS e n rec (PB_LTYPE (ftype f))) f"
  by (simp add: func_ok_def progress_decoder plain_fieldD(4))

lemma static_packed_loop_left:
  assumes func: "func_ok B func (cur it)"
  shows "bytes_left sub < k \<Longrightarrow> bytes_left sub \<le> B \<Longrightarrow>
     \<exists>ok v1 sub1. static_packed_loop k func it v sub = Some (ok, v1, sub1)"
proof (induction k arbitrary: v sub)
  case 0
  then show ?case by simp
next
  case (Suc k)
  show ?case
  proof (cases "bytes_left sub > 0 \<and> read_size (pSize it) v < array_size (cur it)")
    case True
    let ?r = "func (cur it) (item_addr (pData it) (cur it) (read_size (pSize it) v)) (snd v) sub"
    from func Suc.prems(2) have "progress sub ?r" by (rule func_okD)
    then obtain ok m1 sub1 where r: "?r = Some (ok, m1, sub1)"
      and le: "bytes_left sub1 \<le> bytes_left sub" "ok \<Longrightarrow> bytes_left sub1 < bytes_left sub"
      by (auto simp: progress_def)
    show ?thesis
    proof (cases ok)
      case False
      with True r show ?thesis by (auto simp: Let_def keep_fcs_def)
    next
      case ok: True
      with le Suc.prems have "bytes_left sub1 < k" "bytes_left sub1 \<le> B" by auto
      with Suc.IH True r ok show ?thesis by (simp add: Let_def keep_fcs_def)
    qed
  next
    case False
    then show ?thesis by (auto simp: Let_def)
  qed
qed

lemma vprogress_static:
  assumes pl: "plain_field (cur it)" and ok: "submsg_ok e n rec B (cur it)"
    and B: "bytes_left s \<le> B" "B \<le> n"
  shows "vprogress s (decode_static_field e n rec wt it v s)"
proof -
  let ?f = "cur it" and ?func = "PB_DECODERS e n rec (PB_LTYPE (ftype (cur it)))"
  have func: "func_ok B ?func ?f" by (rule func_ok_decoder [OF ok pl])
  have run: "vprogress s (keep_fcs (fst v) (?func ?f p (snd v) s))" for p v
    by (rule vprogress_keep) (rule func_okD [OF func B(1)])
  have packed: "vprogress s (case pb_make_string_substream e s of
                (None, s1) \<Rightarrow> Some (False, v, s1)
              | (Some sub, s1) \<Rightarrow>
                  (case static_packed_loop n ?func it v sub of
                     None \<Rightarrow> None
                   | Some (status, v1, sub1) \<Rightarrow>
                       if bytes_left sub1 \<noteq> 0 then Some (vfail ''array overflow'' v1 s1)
                       else keep_fcs (fst v1) (Some (close_with e status (snd v1) sub1 s1))))"
  proof -
    obtain r s1 where mk: "pb_make_string_substream e s = (r, s1)" by (cases "pb_make_string_substream e s")
    note left = make_substream_left [OF mk]
    show ?thesis
    proof (cases r)
      case None
      with mk left show ?thesis by simp
    next
      case (Some sub)
      with left have sub: "bytes_left sub < n" "bytes_left sub \<le> B" "bytes_left s1 < bytes_left s"
        using B by auto
      obtain st v1 sub1 where lp: "static_packed_loop n ?func it v sub = Some (st, v1, sub1)"
        using static_packed_loop_left [OF func sub(1,2), of v] by auto
      have "progress s (Some (close_with e st (snd v1) sub1 s1))"
        using stays_close_with sub(3) by (rule stays_progress)
      with mk Some lp sub show ?thesis by (auto intro: vprogress_keep)
    qed
  qed
  obtain m1 where m1: "pb_message_set_to_defaults e n (submsg_fields (fptr ?f)) (pData it)
      (c_memset (snd v) (pData it) 0 (data_size ?f)) = Some m1"
    using ok unfolding submsg_ok_def by blast
  show ?thesis unfolding decode_static_field_def Let_def
    using packed run m1 by (auto split: psize.splits)
qed

lemma progress_decode_item:
  assumes func: "func_ok B func f"
    and ok: "submsg_ok e n rec B f" and "bytes_left s \<le> B"
  shows "progress s (decode_item e n func f p m s)"
proof -
  obtain m1 where "initialize_pointer_field e n f p m = Some m1"
    using ok unfolding submsg_ok_def initialize_pointer_field_def by (metis option.exhaust)
  with assms show ?thesis by (simp add: decode_item_def func_okD)
qed

lemma pointer_packed_loop_left:
  assumes func: "func_ok B func (cur it)"
    and ok: "submsg_ok e n rec B (cur it)" and size: "data_size (cur it) \<noteq> 0"
  shows "bytes_left sub < k \<Longrightarrow> bytes_left sub \<le> B \<Longrightarrow>
     \<exists>ok v1 sub1 s1. pointer_packed_loop e n k func it al v sub s = Some (ok, v1, sub1, s1) \<and>
       bytes_left s1 = bytes_left s"
proof (induction k arbitrary: al v sub)
  case 0
  then show ?case by simp
next
  case (Suc k)
  let ?f = "cur it" and ?sz = "read_size (pSize it) v"
  let ?al = "if ?sz + 1 > al then grow ?f al (bytes_left sub) else al"
  obtain aok m1 sub1 where a: "(if ?sz + 1 > al then allocate_field e (pData it) (data_size ?f) ?al (snd v) sub
      else (True, snd v, sub)) = (aok, m1, sub1)" by (metis prod.exhaust)
  then have left1: "bytes_left sub1 = bytes_left sub"
    by (auto dest: allocate_field_left split: if_splits)
  let ?r = "decode_item e n func ?f (item_addr (load_ptr m1 (pData it)) ?f (read_size (pSize it) (fst v, m1))) m1 sub1"
  have "progress sub1 ?r"
    by (rule progress_decode_item [OF func ok]) (use Suc.prems left1 in auto)
  then obtain ok2 m2 sub2 where r: "?r = Some (ok2, m2, sub2)"
    and le: "bytes_left sub2 \<le> bytes_left sub1" "ok2 \<Longrightarrow> bytes_left sub2 < bytes_left sub1"
    by (auto simp: progress_def)
  have "\<exists>ok v1 sub1 s1. pointer_packed_loop e n k func it ?al
      (write_size (pSize it) (read_size (pSize it) (fst v, m2) + 1) (fst v, m2)) sub2 s = Some (ok, v1, sub1, s1) \<and>
       bytes_left s1 = bytes_left s" if ok2
    using Suc.IH [of sub2] le(2) [OF that] left1 Suc.prems by simp
  then show ?case using a r size by (auto simp: Let_def split: prod.splits)
qed

text \<open>The three branches of \<open>decode_pointer_field\<close>: not repeated, packed, and one more item.\<close>

lemma vprogress_pointer_single:
  assumes pl: "plain_field (cur it)" and ok: "submsg_ok e n rec B (cur it)"
    and htype: "PB_HTYPE (ftype (cur it)) \<noteq> PB_HTYPE_REPEATED" and at: "pSize it = At a"
    and B: "bytes_left s \<le> B"
  shows "vprogress s (decode_pointer_field e n rec wt it v s)"
proof -
  let ?f = "cur it" and ?func = "PB_DECODERS e n rec (PB_LTYPE (ftype (cur it)))"
  have func: "func_ok B ?func ?f" by (rule func_ok_decoder [OF ok pl])
  have alloc: "progress s (case allocate_field e (pData it) (data_size ?f) a m s of (ok, m3, s3) \<Rightarrow>
       if \<not> ok then Some (False, m3, s3) else decode_item e n ?func ?f (p m3) (q m3) s3)" for a m p q
  proof -
    obtain ok3 m3 s3 where al: "allocate_field e (pData it) (data_size ?f) a m s = (ok3, m3, s3)"
      by (metis prod.exhaust)
    with allocate_field_left [OF al] B progress_decode_item [OF func ok, of s3 "p m3" "q m3"] show ?thesis
      by (auto simp: progress_def)
  qed
  obtain n' where n': "n = Suc n'" using ok by (cases n) (auto simp: submsg_ok_def)
  have single: "\<exists>m1. pb_release_single_field e n it m = Some m1" for m
    using release_single_total [OF pl at, of e n' m] ok unfolding n' submsg_ok_def by auto
  obtain m1 where m1: "(if PB_LTYPE (ftype ?f) = PB_LTYPE_SUBMESSAGE \<and> load_ptr (snd v) (pData it) \<noteq> 0
            then pb_release_single_field e n it (snd v) else Some (snd v)) = Some m1"
    using single [of "snd v"] by (cases "PB_LTYPE (ftype ?f) = PB_LTYPE_SUBMESSAGE \<and> load_ptr (snd v) (pData it) \<noteq> 0") auto
  let ?v2 = "if PB_HTYPE (ftype ?f) = PB_HTYPE_ONEOF
     then write_size (pSize it) (unat (tag ?f)) (fst v, m1) else (fst v, m1)"
  have "decode_pointer_field e n rec wt it v s = keep_fcs (fst ?v2)
               (if PB_LTYPE (ftype ?f) = PB_LTYPE_STRING \<or> PB_LTYPE (ftype ?f) = PB_LTYPE_BYTES
                then ?func ?f (pData it) (snd ?v2) s
                else case allocate_field e (pData it) (data_size ?f) 1 (snd ?v2) s of (ok, m3, s3) \<Rightarrow>
                  if \<not> ok then Some (False, m3, s3)
                  else decode_item e n ?func ?f (load_ptr m3 (pData it)) m3 s3)"
    using htype m1 PB_HTYPE_cases [of "ftype ?f"] unfolding decode_pointer_field_def Let_def m1 by auto
  also have "vprogress s \<dots>"
    by (rule vprogress_keep) (use alloc func_okD [OF func B(1)] in auto)
  finally show ?thesis .
qed

lemma vprogress_pointer_packed:
  assumes pl: "plain_field (cur it)" and size: "data_size (cur it) \<noteq> 0" and ok: "submsg_ok e n rec B (cur it)"
    and htype: "PB_HTYPE (ftype (cur it)) = PB_HTYPE_REPEATED"
    and packed: "wt = PB_WT_STRING" "PB_LTYPE (ftype (cur it)) \<le> PB_LTYPE_LAST_PACKABLE"
    and B: "bytes_left s \<le> B" "B \<le> n"
  shows "vprogress s (decode_pointer_field e n rec wt it v s)"
proof -
  let ?f = "cur it" and ?func = "PB_DECODERS e n rec (PB_LTYPE (ftype (cur it)))"
  have func: "func_ok B ?func ?f" by (rule func_ok_decoder [OF ok pl])
  obtain r s1 where mk: "pb_make_string_substream e s = (r, s1)" by (cases "pb_make_string_substream e s")
  note left = make_substream_left [OF mk]
  show ?thesis
  proof (cases r)
    case None
    with mk left htype packed show ?thesis by (simp add: decode_pointer_field_def)
  next
    case (Some sub)
    with left have sub: "bytes_left sub < n" "bytes_left sub \<le> B" "bytes_left s1 < bytes_left s"
      using B by auto
    obtain st v1 sub1 s2 where lp: "pointer_packed_loop e n n ?func it (read_size (pSize it) v) v sub s1 =
        Some (st, v1, sub1, s2)" "bytes_left s2 = bytes_left s1"
      using pointer_packed_loop_left [OF func ok size sub(1,2)] by blast
    have "progress s (Some (close_with e st (snd v1) sub1 s2))"
      using stays_close_with by (rule stays_progress) (use sub lp in simp)
    with mk Some lp htype packed show ?thesis
      by (simp add: decode_pointer_field_def vprogress_keep)
  qed
qed

lemma vprogress_pointer_item:
  assumes pl: "plain_field (cur it)" and ok: "submsg_ok e n rec B (cur it)"
    and htype: "PB_HTYPE (ftype (cur it)) = PB_HTYPE_REPEATED"
    and single: "\<not> (wt = PB_WT_STRING \<and> PB_LTYPE (ftype (cur it)) \<le> PB_LTYPE_LAST_PACKABLE)"
    and B: "bytes_left s \<le> B"
  shows "vprogress s (decode_pointer_field e n rec wt it v s)"
proof -
  let ?f = "cur it" and ?func = "PB_DECODERS e n rec (PB_LTYPE (ftype (cur it)))"
  have func: "func_ok B ?func ?f" by (rule func_ok_decoder [OF ok pl])
  obtain ok3 m3 s3 where al: "allocate_field e (pData it) (data_size ?f) (read_size (pSize it) v + 1) (snd v) s = (ok3, m3, s3)"
    by (metis prod.exhaust)
  from allocate_field_left [OF al] have left: "bytes_left s3 = bytes_left s" .
  then have "vprogress s3 (keep_fcs c (decode_item e n ?func ?f p q s3))" for c p q
    using B(1) by (intro vprogress_keep progress_decode_item [OF func ok]) simp
  with al left htype single show ?thesis
    unfolding decode_pointer_field_def Let_def by (auto simp: vprogress_def)
qed

lemma vprogress_pointer:
  assumes pl: "plain_field (cur it)" "PB_ATYPE (ftype (cur it)) = PB_ATYPE_POINTER"
    and ok: "submsg_ok e n rec B (cur it)"
    and at: "PB_HTYPE (ftype (cur it)) \<noteq> PB_HTYPE_REPEATED \<Longrightarrow> \<exists>a. pSize it = At a"
    and B: "bytes_left s \<le> B" "B \<le> n"
  shows "vprogress s (decode_pointer_field e n rec wt it v s)"
  using vprogress_pointer_single [OF pl(1) ok _ _ B(1)] at vprogress_pointer_item [OF pl(1) ok _ _ B(1)]
    vprogress_pointer_packed [OF pl(1) plain_fieldD(5) [OF pl] ok _ _ _ B] by blast

section \<open>Progress of the main loop\<close>

text \<open>The iterator of the main loop: \<open>pSize\<close> is the local counter only on a repeated field.\<close>

definition iter_ok :: "pb_field list \<Rightarrow> pb_field_iter \<Rightarrow> bool" where
  "iter_ok fs it \<longleftrightarrow> start it = fs \<and>
     (PB_HTYPE (ftype (cur it)) \<noteq> PB_HTYPE_REPEATED \<longrightarrow> (\<exists>a. pSize it = At a))"

lemma iter_ok_next: "iter_ok fs it \<Longrightarrow> iter_ok fs (snd (pb_field_iter_next it))"
  by (auto simp: iter_ok_def pb_field_iter_next_def pb_field_iter_begin_def Let_def)

lemma iter_ok_find_loop: "iter_ok fs it \<Longrightarrow> iter_ok fs (snd (iter_find_loop k P st it))"
proof (induction k arbitrary: it)
  case 0
  then show ?case by simp
next
  case (Suc k)
  with iter_ok_next [OF Suc.prems] show ?case by (simp add: iter_find_loop.simps Let_def)
qed

lemma iter_ok_find: "iter_ok fs it \<Longrightarrow> iter_ok fs (snd (pb_field_iter_find it tg))"
  unfolding pb_field_iter_find_def by (rule iter_ok_find_loop)

lemma find_loop_false:
  assumes "\<And>k. \<not> P (field_at fs k)" and "start it = fs"
  shows "\<not> fst (iter_find_loop k P st it)"
  using assms(2)
proof (induction k arbitrary: it)
  case 0
  then show ?case by simp
next
  case (Suc k)
  with assms(1) show ?case by (simp add: iter_find_loop.simps Let_def)
qed

text \<open>What the main loop needs of the recursion, for every field of the array.\<close>

definition fields_ok :: "env \<Rightarrow> nat \<Rightarrow> sub_decoder \<Rightarrow> nat \<Rightarrow> pb_field list \<Rightarrow> bool" where
  "fields_ok e n rec B fs \<longleftrightarrow> list_all plain_field fs \<and> (\<forall>k. submsg_ok e n rec B (field_at fs k))"

lemma release_single_ok:
  assumes fs: "fields_ok e n rec B fs" and "iter_ok fs it" and "\<exists>a. pSize it = At a"
  shows "\<exists>m1. pb_release_single_field e n it m = Some m1"
proof -
  have pl: "plain_field (cur it)" and ok: "submsg_ok e n rec B (cur it)"
    using assms by (simp_all add: fields_ok_def iter_ok_def plain_field_at)
  obtain n' where n': "n = Suc n'" using ok by (cases n) (auto simp: submsg_ok_def)
  from assms(3) obtain a where "pSize it = At a" ..
  from release_single_total [OF pl this, of e n' m] ok show ?thesis unfolding n' submsg_ok_def by simp
qed

lemma find_loop_At:
  "\<exists>a. pSize it = At a \<Longrightarrow> \<exists>a. pSize (snd (iter_find_loop k P st it)) = At a"
proof (induction k arbitrary: it)
  case 0
  then show ?case by simp
next
  case (Suc k)
  with iter_next_pSize [OF Suc.prems] show ?case by (simp add: iter_find_loop.simps Let_def)
qed

lemma find_At: "\<exists>a. pSize it = At a \<Longrightarrow> \<exists>a. pSize (snd (pb_field_iter_find it tg)) = At a"
  unfolding pb_field_iter_find_def by (rule find_loop_At)

lemma union_field_total:
  assumes fs: "fields_ok e n rec B fs" and it: "iter_ok fs it" and at: "\<exists>a. pSize it = At a"
  shows "\<exists>ok it1 v1 s1. pb_release_union_field e n it v s = Some (ok, it1, v1, s1) \<and>
     iter_ok fs it1 \<and> bytes_left s1 = bytes_left s"
proof -
  let ?old = "word_of_nat (read_size (pSize it) v)"
  obtain found it1 where f1: "pb_field_iter_find it ?old = (found, it1)" by (metis prod.exhaust)
  obtain found2 it2 where f2: "pb_field_iter_find it1 (tag (cur it)) = (found2, it2)" by (metis prod.exhaust)
  have it1: "iter_ok fs it1" "\<exists>a. pSize it1 = At a"
    using iter_ok_find [OF it, of ?old] find_At [OF at, of ?old] by (simp_all add: f1)
  have it2: "iter_ok fs it2"
    using iter_ok_find [OF it1(1), of "tag (cur it)"] by (simp add: f2)
  obtain m1 where "pb_release_single_field e n it1 (snd v) = Some m1"
    using release_single_ok [OF fs it1] by blast
  with f1 f2 it it1 it2 show ?thesis by (auto simp: pb_release_union_field_def Let_def)
qed

lemma decode_field_progress:
  assumes fs: "fields_ok e n rec B fs" and it: "iter_ok fs it" and B: "bytes_left s \<le> B" "B \<le> n"
  shows "\<exists>it1 r. decode_field e n rec wt it v s = Some (it1, r) \<and> iter_ok fs it1 \<and> vprogress s (Some r)"
proof -
  have "\<exists>ok it1 v1 s1. (if PB_HTYPE (ftype (cur it)) = PB_HTYPE_ONEOF then pb_release_union_field e n it v s
            else Some (True, it, v, s)) = Some (ok, it1, v1, s1) \<and> iter_ok fs it1 \<and> bytes_left s1 = bytes_left s"
    using union_field_total [OF fs it] it by (auto simp: iter_ok_def)
  then obtain ok it1 v1 s1 where u: "(if PB_HTYPE (ftype (cur it)) = PB_HTYPE_ONEOF then pb_release_union_field e n it v s
            else Some (True, it, v, s)) = Some (ok, it1, v1, s1)" and it1: "iter_ok fs it1"
    and left: "bytes_left s1 = bytes_left s" by blast
  have pl: "plain_field (cur it1)" and sub: "submsg_ok e n rec B (cur it1)"
    using fs it1 by (simp_all add: fields_ok_def iter_ok_def plain_field_at)
  have s1: "bytes_left s1 \<le> B" using left B by simp
  have st: "vprogress s1 (decode_static_field e n rec wt it1 v1 s1)"
    by (rule vprogress_static [OF pl sub s1 B(2)])
  have po: "vprogress s1 (decode_pointer_field e n rec wt it1 v1 s1)" if "PB_ATYPE (ftype (cur it1)) = PB_ATYPE_POINTER"
    by (rule vprogress_pointer [OF pl that sub _ s1 B(2)]) (use it1 in \<open>simp add: iter_ok_def\<close>)
  from plain_fieldD(1) [OF pl] st po u it1 left show ?thesis
    unfolding decode_field_def Let_def vprogress_def by auto
qed

text \<open>One round: it comes back, keeps the iterator in order and has consumed the tag at least.\<close>

definition step_ok :: "pb_field list \<Rightarrow> dec_state \<Rightarrow> (dec_step \<times> dec_state) option \<Rightarrow> bool" where
  "step_ok fs st r \<longleftrightarrow> (\<exists>x st1. r = Some (x, st1) \<and> iter_ok fs (d_iter st1) \<and>
     bytes_left (d_stream st1) \<le> bytes_left (d_stream st))"

lemma known_field_ok:
  assumes fs: "fields_ok e n rec B fs" and it: "iter_ok fs (d_iter st)"
    and B: "bytes_left (d_stream st) \<le> B" "B \<le> n"
  shows "step_ok fs st (known_field e n rec wt st)"
proof -
  let ?it = "d_iter st"
  obtain fcs m where v: "d_vars st = (fcs, m)" by (cases "d_vars st")
  define fixed where "fixed = (PB_HTYPE (ftype (cur ?it)) = PB_HTYPE_REPEATED \<and> pSize ?it = At (pData ?it))"
  define fresh where "fresh = (fixed \<and> d_fixed st \<noteq> Some (pos ?it))"
  define it1 where "it1 = (if fixed then ?it\<lparr>pSize := Fixed_count_size\<rparr> else ?it)"
  have it1: "iter_ok fs it1" using it by (auto simp: iter_ok_def it1_def fixed_def)
  obtain it2 r where d: "decode_field e n rec wt it1 (if fresh then 0 else fcs, m) (d_stream st) = Some (it2, r)"
    and it2: "iter_ok fs it2" and pr: "vprogress (d_stream st) (Some r)"
    using decode_field_progress [OF fs it1 B] by blast
  obtain ok v2 s2 where r: "r = (ok, v2, s2)" by (cases r)
  with pr have le: "bytes_left s2 \<le> bytes_left (d_stream st)" by simp
  show ?thesis
  proof (cases "fresh \<and> fixed_count_short (start ?it) (d_fixed st) fcs")
    case True
    then show ?thesis using it
      unfolding known_field_def Let_def v by (simp add: step_ok_def fresh_def fixed_def)
  next
    case False
    then show ?thesis using d it2 le it
      unfolding known_field_def Let_def v prod.case fixed_def [symmetric] fresh_def [symmetric] it1_def [symmetric]
      by (auto simp: step_ok_def r)
  qed
qed

lemma tag_not_max: "drop_bit 3 (w :: u32) \<noteq> -1"
proof
  assume "drop_bit 3 w = -1"
  then have "unat (drop_bit 3 w) = unat (-1 :: u32)" by simp
  moreover have "unat (drop_bit 3 w) < 2 ^ 29"
    using unsigned_less [of w, where 'a = nat] unfolding unat_drop_bit by (simp add: less_mult_imp_div_less)
  ultimately show False by (simp add: unsigned_minus_1_eq_mask mask_eq_exp_minus_1)
qed

lemma unknown_field_ok:
  assumes fs: "fields_ok e n rec B fs" and it: "iter_ok fs (d_iter st)" and tg: "tg \<noteq> -1"
  shows "step_ok fs st (unknown_field e n rec tg wt st)"
proof -
  have "\<not> fst (find_extension_field (d_iter st))"
    unfolding find_extension_field_def
    by (rule find_loop_false [of _ fs])
      (use fs it plain_fieldD(2) [OF plain_field_at] in \<open>auto simp: fields_ok_def iter_ok_def\<close>)
  then obtain it1 where f: "find_extension_field (d_iter st) = (False, it1)"
    by (cases "find_extension_field (d_iter st)") simp
  have it1: "iter_ok fs it1"
    using iter_ok_find_loop [OF it] f unfolding find_extension_field_def by (metis snd_conv)
  have "\<not> tg \<ge> -1" using tg by (metis word_order.extremum_uniqueI)
  with f it it1 show ?thesis
    by (auto simp: unknown_field_def step_ok_def Let_def dest: skip_field_left split: prod.splits)
qed

lemma noinit_step_ok:
  assumes fs: "fields_ok e n rec B fs" and it: "iter_ok fs (d_iter st)"
    and B: "bytes_left (d_stream st) \<le> B" "B \<le> n"
  shows "\<exists>x st1. noinit_step e n rec st = Some (x, st1) \<and> iter_ok fs (d_iter st1) \<and>
     bytes_left (d_stream st1) \<le> bytes_left (d_stream st) \<and>
     (x = Continue \<longrightarrow> bytes_left (d_stream st1) < bytes_left (d_stream st))"
proof -
  obtain r eof s1 where tg: "pb_decode_tag e (d_stream st) = (r, eof, s1)" by (metis prod.exhaust)
  note left = decode_tag_left [OF tg]
  show ?thesis
  proof (cases r)
    case None
    with tg left it show ?thesis by (auto simp: noinit_step_def)
  next
    case (Some wtt)
    obtain wt t where wtt: "wtt = (wt, t)" by (cases wtt)
    have t: "t \<noteq> -1" using tg Some wtt tag_not_max
      by (auto simp: pb_decode_tag_def split: prod.splits option.splits if_splits)
    obtain found it1 where f: "pb_field_iter_find (d_iter st) t = (found, it1)" by (metis prod.exhaust)
    have it1: "iter_ok fs it1" using iter_ok_find [OF it, of t] by (simp add: f)
    let ?st1 = "st\<lparr>d_iter := it1, d_stream := s1\<rparr>"
    have lt: "bytes_left s1 < bytes_left (d_stream st)" using left Some by simp
    have "step_ok fs ?st1 (if found then known_field e n rec wt ?st1 else unknown_field e n rec t wt ?st1)"
      using known_field_ok [OF fs, of ?st1] unknown_field_ok [OF fs, of ?st1, OF _ t] it1 lt B by simp
    then show ?thesis using tg Some wtt f lt by (auto simp: noinit_step_def step_ok_def Let_def)
  qed
qed

lemma noinit_loop_ok:
  assumes fs: "fields_ok e n rec B fs" and "B \<le> n"
  shows "iter_ok fs (d_iter st) \<Longrightarrow> bytes_left (d_stream st) \<le> B \<Longrightarrow> bytes_left (d_stream st) \<le> k \<Longrightarrow>
     \<exists>ok st1. noinit_loop e n rec k st = Some (ok, st1) \<and> bytes_left (d_stream st1) \<le> bytes_left (d_stream st)"
proof (induction k arbitrary: st)
  case 0
  then show ?case by auto
next
  case (Suc k)
  show ?case
  proof (cases "bytes_left (d_stream st) = 0")
    case True
    then show ?thesis by auto
  next
    case False
    obtain x st1 where st1: "noinit_step e n rec st = Some (x, st1)" "iter_ok fs (d_iter st1)"
      "bytes_left (d_stream st1) \<le> bytes_left (d_stream st)"
      "x = Continue \<Longrightarrow> bytes_left (d_stream st1) < bytes_left (d_stream st)"
      using noinit_step_ok [OF fs Suc.prems(1,2) assms(2)] by blast
    show ?thesis
    proof (cases x)
      case Continue
      with st1 Suc.IH [of st1] Suc.prems False show ?thesis by fastforce
    qed (use st1 False in auto)
  qed
qed

lemma depth_field_at: "depth_fields (submsg_fields (fptr (field_at fs k))) \<le> max 1 (depth_fields fs)"
proof -
  have "depth_field (field_at fs k) \<le> max 1 (depth_fields fs)"
    using depth_fields_mem [of "field_at fs k" fs] by (auto simp: field_at_def)
  with depth_submsg_fields [of "field_at fs k"] show ?thesis by (rule le_trans)
qed

lemma noinit_total:
  "list_all plain_field fs \<Longrightarrow> bytes_left s + 2 * max 1 (depth_fields fs) + 2 < n \<Longrightarrow>
     stays s (pb_decode_noinit e n fs dest m s)"
proof (induction n arbitrary: fs dest m s)
  case 0
  then show ?case by simp
next
  case (Suc n)
  have "submsg_ok e n (pb_decode_noinit e n) (bytes_left s) (field_at fs k)" for k
  proof -
    let ?f = "field_at fs k" and ?fs = "submsg_fields (fptr (field_at fs k))"
    have pl: "list_all plain_field ?fs" using Suc.prems plain_submsg_fields plain_field_at by blast
    have d: "max 1 (depth_fields ?fs) \<le> max 1 (depth_fields fs)" using depth_field_at by simp
    have n: "2 * depth_fields ?fs < n - 1" "0 < n" using d Suc.prems(2) by linarith+
    have "stays s' (pb_decode_noinit e n ?fs p m s')" if "bytes_left s' < bytes_left s" for p m s'
      by (rule Suc.IH [OF pl]) (use that d Suc.prems(2) in linarith)
    moreover have "\<exists>m'. pb_message_set_to_defaults e n ?fs p m = Some m'" for p m
      by (rule defaults_total [OF pl]) (use n in simp)
    moreover have "\<exists>m'. pb_release e n ?fs p m = Some m'" for p m
      by (rule release_total [OF pl]) (use n in simp)
    moreover have "\<exists>m'. pb_release e (n - 1) ?fs p m = Some m'" for p m
      by (rule release_total [OF pl n(1)])
    ultimately show ?thesis using n(2) by (simp add: submsg_ok_def)
  qed
  then have fs: "fields_ok e n (pb_decode_noinit e n) (bytes_left s) fs"
    using Suc.prems by (simp add: fields_ok_def)
  have it: "iter_ok fs (d_iter (noinit_start fs dest m s))" by (simp add: noinit_start_def iter_ok_def)
  have le: "bytes_left s \<le> n" using Suc.prems(2) by linarith
  obtain ok st1 where lp: "noinit_loop e n (pb_decode_noinit e n) n (noinit_start fs dest m s) = Some (ok, st1)"
    "bytes_left (d_stream st1) \<le> bytes_left s"
    using noinit_loop_ok [OF fs le it, of n] le by (auto simp: noinit_start_def)
  then show ?case by (auto simp: noinit_finish_def Let_def split: prod.splits)
qed

text \<open>\<open>pb_decode\<close> adds the walks of the defaults and, after a failure, of the release.\<close>

lemma decode_total:
  assumes pl: "list_all plain_field fs" and n: "bytes_left s + 2 * max 1 (depth_fields fs) + 2 < n"
  shows "stays s (pb_decode e n fs dest m s)"
proof -
  have d: "2 * depth_fields fs < n" using n by linarith
  obtain m1 where m1: "pb_message_set_to_defaults e n fs dest m = Some m1"
    using defaults_total [OF pl d] by blast
  obtain ok m2 s2 where r: "pb_decode_noinit e n fs dest m1 s = Some (ok, m2, s2)" "bytes_left s2 \<le> bytes_left s"
    using noinit_total [OF pl n, of e dest m1] by (auto simp: stays_def)
  obtain m3 where "pb_release e n fs dest m2 = Some m3" using release_total [OF pl d] by blast
  with m1 r show ?thesis by (simp add: pb_decode_def decode_init_def)
qed

end
