(* ===== verification/Pb_Required.thy ===== *)
theory Pb_Required
  imports Pb_Total
begin

unbundle bit_operations_syntax

text \<open>
  The bookkeeping of required fields in \<open>pb_decode_noinit\<close>. The main loop is viewed as a transition
  system, \<open>dec_run\<close>, whose label is the sequence of tags read. An invariant of its reachable states says
  that the bits of \<open>fields_seen\<close> are those of the required fields among these tags, so the word-wise test
  at the end succeeds exactly if every required field has occurred.
\<close>

section \<open>The set of required fields seen\<close>

text \<open>Bit \<open>i\<close> of the array \<open>fields_seen\<close>.\<close>

definition seen_bit :: "u32 list \<Rightarrow> nat \<Rightarrow> bool" where
  "seen_bit seen i \<longleftrightarrow> bit (seen ! (i div 32)) (i mod 32)"

lemma all_words:
  "(\<forall>i<k. P i) \<longleftrightarrow> (\<forall>w < k div 32. \<forall>j<32. P (32 * w + j)) \<and> (\<forall>j < k mod 32. P (32 * (k div 32) + j))"
  for k :: nat
proof (intro iffI conjI allI impI)
  fix w j :: nat assume "\<forall>i<k. P i" "w < k div 32" "j < 32"
  moreover have "32 * w + j < 32 * (k div 32)" using \<open>w < k div 32\<close> \<open>j < 32\<close> by linarith
  ultimately show "P (32 * w + j)" using times_div_less_eq_dividend [of 32 k] by (meson order_less_le_trans)
next
  fix j assume "\<forall>i<k. P i" "j < k mod 32"
  then show "P (32 * (k div 32) + j)" using mult_div_mod_eq [of 32 k] by (metis nat_add_left_cancel_less)
next
  fix i assume a: "(\<forall>w < k div 32. \<forall>j<32. P (32 * w + j)) \<and> (\<forall>j < k mod 32. P (32 * (k div 32) + j))" and "i < k"
  have i: "32 * (i div 32) + i mod 32 = i" by simp
  show "P i"
  proof (cases "i div 32 < k div 32")
    case True
    with a i show ?thesis by (metis mod_less_divisor zero_less_numeral)
  next
    case False
    then have eq: "i div 32 = k div 32" using \<open>i < k\<close> div_le_mono [of i k 32] by linarith
    then have "i mod 32 < k mod 32" using \<open>i < k\<close> i mult_div_mod_eq [of 32 k] by linarith
    with a i eq show ?thesis by metis
  qed
qed

lemma word_is_mask:
  assumes "r \<le> 32"
  shows "w = drop_bit (32 - r) (-1 :: u32) \<longleftrightarrow> (\<forall>j<32. bit w j \<longleftrightarrow> j < r)"
proof -
  have "bit (drop_bit (32 - r) (-1 :: u32)) j \<longleftrightarrow> j < r" for j
    using assms by (simp only: bit_drop_bit_eq comp_def bit_minus_1_iff) auto
  then show ?thesis using bit_word_eqI [of w "drop_bit (32 - r) (-1)"] by (auto simp only: len_num1 len_bit0 len_num0)
qed

text \<open>If no bit from \<open>k\<close> on is set, the word-wise test of \<open>pb_decode_noinit\<close> is the test of all bits
  below \<open>k\<close>.\<close>

lemma all_seen_iff:
  assumes len: "length seen = 2" and k: "k \<le> 64" and above: "\<And>i. k \<le> i \<Longrightarrow> i < 64 \<Longrightarrow> \<not> seen_bit seen i"
  shows "all_seen k seen \<longleftrightarrow> (\<forall>i<k. seen_bit seen i)"
proof -
  have bits: "seen_bit seen (32 * w + j) \<longleftrightarrow> bit (seen ! w) j" if "j < 32" for w j
    using that by (simp add: seen_bit_def)
  have full: "w = -1 \<longleftrightarrow> (\<forall>j<32. bit w j)" for w :: u32 using word_is_mask [of 32 w] by simp
  have q: "k div 32 \<le> length seen" using k len by linarith
  have whole: "list_all (\<lambda>w. w = -1) (take (k div 32) seen) \<longleftrightarrow> (\<forall>w < k div 32. \<forall>j<32. seen_bit seen (32 * w + j))"
    using q by (simp add: list_all_length full bits)
  have rest: "(k mod 32 \<noteq> 0 \<longrightarrow> seen ! (k div 32) = drop_bit (32 - k mod 32) (-1)) \<longleftrightarrow>
      (\<forall>j < k mod 32. seen_bit seen (32 * (k div 32) + j))"
  proof (cases "k mod 32 = 0")
    case False
    have "\<not> bit (seen ! (k div 32)) j" if "k mod 32 \<le> j" "j < 32" for j
    proof -
      have "k \<le> 32 * (k div 32) + j" using that mult_div_mod_eq [of 32 k] by linarith
      moreover have "32 * (k div 32) + j < 64" using that k False mult_div_mod_eq [of 32 k] by presburger
      ultimately show ?thesis using above bits [OF that(2)] by blast
    qed
    note above_r = this
    have r: "k mod 32 < 32" by simp
    have "(\<forall>j<32. bit (seen ! (k div 32)) j \<longleftrightarrow> j < k mod 32) \<longleftrightarrow> (\<forall>j < k mod 32. bit (seen ! (k div 32)) j)"
      using above_r r by (meson less_trans not_less)
    also have "\<dots> \<longleftrightarrow> (\<forall>j < k mod 32. seen_bit seen (32 * (k div 32) + j))"
      using bits r by (meson less_trans)
    finally show ?thesis
      using False word_is_mask [OF less_imp_le [OF r], of "seen ! (k div 32)"] by blast
  qed simp
  show ?thesis unfolding all_seen_def whole rest using all_words [of k "seen_bit seen"] by blast
qed
section \<open>The iterator in the main loop\<close>

text \<open>The iterator stands on field \<open>k\<close>; on a repeated field its \<open>pSize\<close> may have been redirected to the local
  counter.\<close>

definition on_field :: "pb_field list \<Rightarrow> addr \<Rightarrow> nat \<Rightarrow> pb_field_iter \<Rightarrow> bool" where
  "on_field fs b k it \<longleftrightarrow> k < nfields fs \<and>
     (it = iter_at fs b k \<or>
      PB_HTYPE (ftype (field_at fs k)) = PB_HTYPE_REPEATED \<and> it = (iter_at fs b k)\<lparr>pSize := Fixed_count_size\<rparr>)"

definition on_some_field :: "pb_field list \<Rightarrow> addr \<Rightarrow> pb_field_iter \<Rightarrow> bool" where
  "on_some_field fs b it \<longleftrightarrow> (\<exists>k. on_field fs b k it)"

lemma on_field_at: "k < nfields fs \<Longrightarrow> on_field fs b k (iter_at fs b k)"
  by (simp add: on_field_def)

lemma on_fieldD:
  assumes "terminated fs" and "on_field fs b k it"
  shows "k < nfields fs" "pos it = k" "start it = fs" "required_field_index it = required_field_index (iter_at fs b k)"
    "pData it = pData (iter_at fs b k)"
  using assms by (auto simp: on_field_def)

lemma iter_next_pSize_irrelevant:
  assumes "PB_HTYPE (ftype (cur it)) \<noteq> PB_HTYPE_ONEOF" and "tag (cur it) \<noteq> 0"
  shows "pb_field_iter_next (it\<lparr>pSize := x\<rparr>) = pb_field_iter_next it"
  using assms by (simp add: pb_field_iter_next_def Let_def)

lemma on_field_next:
  assumes fs: "terminated fs" and it: "on_field fs b k it"
  shows "pb_field_iter_next it = pb_field_iter_next (iter_at fs b k)"
  using it fs terminated_tag [OF fs, of k]
  by (auto simp: on_field_def intro!: iter_next_pSize_irrelevant)

lemma on_field_find_loop:
  assumes fs: "terminated fs" and it: "on_field fs b k it"
  shows "iter_find_loop (Suc n) P k it =
     (if P (field_at fs k) then (True, it) else iter_find_loop (Suc n) P k (iter_at fs b k))"
  using on_fieldD [OF fs it] fs by (simp add: iter_find_loop.simps on_field_next [OF fs it] Let_def)

lemma on_field_find:
  assumes fs: "terminated fs" and it: "on_field fs b k it" and n: "length fs \<le> n"
    and r: "iter_find_loop (Suc n) P k it = (found, it1)"
  shows "found \<longleftrightarrow> (\<exists>j < nfields fs. P (field_at fs j))"
    and "found \<Longrightarrow> \<exists>j. on_field fs b j it1 \<and> P (field_at fs j)"
    and "\<not> found \<Longrightarrow> on_field fs b k it1"
proof -
  have k: "k < nfields fs" using on_fieldD(1) [OF fs it] .
  have n1: "length fs \<le> Suc n" using n by simp
  have "(found \<longleftrightarrow> (\<exists>j < nfields fs. P (field_at fs j))) \<and> (found \<longrightarrow> (\<exists>j. on_field fs b j it1 \<and> P (field_at fs j))) \<and>
      (\<not> found \<longrightarrow> on_field fs b k it1)"
  proof (cases "P (field_at fs k)")
    case True
    with r on_field_find_loop [OF fs it, of n P] have "found" "it1 = it" by simp_all
    with True it k show ?thesis by blast
  next
    case False
    with r on_field_find_loop [OF fs it, of n P] have "iter_find_loop (Suc n) P k (iter_at fs b k) = (found, it1)" by simp
    from iter_find_spec [OF fs k n1 this] on_field_at k show ?thesis by metis
  qed
  then show "found \<longleftrightarrow> (\<exists>j < nfields fs. P (field_at fs j))"
    "found \<Longrightarrow> \<exists>j. on_field fs b j it1 \<and> P (field_at fs j)" "\<not> found \<Longrightarrow> on_field fs b k it1" by blast+
qed

lemma field_find:
  assumes fs: "terminated fs" and it: "on_field fs b k it" and r: "pb_field_iter_find it tg = (found, it1)"
  shows "found \<longleftrightarrow> (\<exists>j < nfields fs. tag (field_at fs j) = tg \<and> PB_LTYPE (ftype (field_at fs j)) \<noteq> PB_LTYPE_EXTENSION)"
    and "found \<Longrightarrow> \<exists>j. on_field fs b j it1 \<and> tag (field_at fs j) = tg"
    and "\<not> found \<Longrightarrow> on_field fs b k it1"
  using on_field_find [OF fs it order_refl, of "\<lambda>f. tag f = tg \<and> PB_LTYPE (ftype f) \<noteq> PB_LTYPE_EXTENSION" found it1] r
    on_fieldD [OF fs it] by (auto simp: pb_field_iter_find_def)

lemma extension_find:
  assumes fs: "terminated fs" and it: "on_field fs b k it" and r: "find_extension_field it = (found, it1)"
  shows "on_some_field fs b it1" and "list_all plain_field fs \<Longrightarrow> \<not> found \<and> on_field fs b k it1"
proof -
  note find = on_field_find [OF fs it order_refl, of "\<lambda>f. PB_LTYPE (ftype f) = PB_LTYPE_EXTENSION" found it1]
  have r1: "iter_find_loop (Suc (length fs)) (\<lambda>f. PB_LTYPE (ftype f) = PB_LTYPE_EXTENSION) k it = (found, it1)"
    using r on_fieldD [OF fs it] by (simp add: find_extension_field_def)
  show "on_some_field fs b it1" using find [OF r1] by (cases found) (auto simp: on_some_field_def)
  assume "list_all plain_field fs"
  then have "\<not> (\<exists>j < nfields fs. PB_LTYPE (ftype (field_at fs j)) = PB_LTYPE_EXTENSION)"
    using plain_fieldD(2) [OF plain_field_at] by blast
  with find [OF r1] show "\<not> found \<and> on_field fs b k it1" by blast
qed

lemma union_field_iter:
  assumes fs: "terminated fs" and it: "on_some_field fs b it"
    and r: "pb_release_union_field e n it v s = Some (ok, it1, v1, s1)"
  shows "on_some_field fs b it1"
proof -
  have find: "on_some_field fs b j" if "on_some_field fs b i" "pb_field_iter_find i tg = (found, j)" for i j tg found
  proof -
    from that(1) obtain k where "on_field fs b k i" by (auto simp: on_some_field_def)
    from field_find(2,3) [OF fs this that(2)] show ?thesis by (cases found) (auto simp: on_some_field_def)
  qed
  from it r show ?thesis
    by (auto simp: pb_release_union_field_def Let_def split: if_splits prod.splits option.splits dest: find)
qed

lemma decode_field_iter:
  assumes fs: "terminated fs" and it: "on_some_field fs b it"
    and r: "decode_field e n rec wt it v s = Some (it1, x)"
  shows "on_some_field fs b it1"
proof -
  obtain ok it2 v2 s2 where u: "(if PB_HTYPE (ftype (cur it)) = PB_HTYPE_ONEOF then pb_release_union_field e n it v s
      else Some (True, it, v, s)) = Some (ok, it2, v2, s2)"
    using r by (auto simp: decode_field_def split: option.splits prod.splits)
  have "on_some_field fs b it2" using u it union_field_iter [OF fs it] by (auto split: if_splits)
  moreover have "it1 = it2" using r unfolding decode_field_def u by (auto split: if_splits)
  ultimately show ?thesis by simp
qed

section \<open>Counting the required fields\<close>

abbreviation required :: "pb_field \<Rightarrow> bool" where
  "required f \<equiv> PB_HTYPE (ftype f) = PB_HTYPE_REQUIRED"

abbreviation req_index :: "pb_field list \<Rightarrow> nat \<Rightarrow> nat" where
  "req_index fs k \<equiv> length (filter required (take k fs))"

lemma iter_run_last:
  assumes fs: "terminated fs" and k: "on_field fs b k it"
  shows "on_field fs b (nfields fs - 1) (last (iter_run (length fs) it))"
proof -
  note d = on_fieldD [OF fs k]
  have "0 < length fs" using d(1) by linarith
  then obtain len where len: "length fs = Suc len" by (cases "length fs") auto
  have run: "iter_run (length fs) it = it # tl (iter_run (length fs) (iter_at fs b k))"
    unfolding len by (simp add: on_field_next [OF fs k])
  have all: "iter_run (length fs) (iter_at fs b k) = map (iter_at fs b) [k..<nfields fs]"
    by (rule iter_run_at [OF fs d(1)]) simp
  show ?thesis
  proof (cases "Suc k = nfields fs")
    case True
    have "[k..<Suc k] = [k]" by simp
    then have "[k..<nfields fs] = [k]" unfolding True .
    then have "iter_run (length fs) it = [it]" using run all by simp
    moreover have "nfields fs - 1 = k" using True by linarith
    ultimately show ?thesis using k by simp
  next
    case False
    then have up: "[k..<nfields fs] = k # [Suc k..<nfields fs]" "[Suc k..<nfields fs] \<noteq> []"
      using d(1) by (auto simp: upt_conv_Cons)
    then have "iter_run (length fs) it = it # map (iter_at fs b) [Suc k..<nfields fs]"
      using run all by simp
    moreover have "nfields fs - 1 < nfields fs" using d(1) by simp
    ultimately show ?thesis using up on_field_at by (simp add: last_map)
  qed
qed

lemma required_butlast:
  assumes "0 < nfields fs"
  shows "req_index fs (nfields fs - 1) + (if required (field_at fs (nfields fs - 1)) then 1 else 0) =
      length (filter required (butlast fs))"
proof -
  have "2 \<le> length fs" using assms by linarith
  then obtain q where q: "length fs = Suc (Suc q)" by (metis Suc_le_D numeral_2_eq_2 Suc_le_mono)
  then have "butlast fs = take (Suc q) fs" by (simp add: butlast_conv_take)
  with q show ?thesis by (simp add: take_Suc_conv_app_nth field_at_def)
qed

lemma req_field_count_eq:
  assumes fs: "terminated fs" and it: "on_some_field fs b it"
  shows "req_field_count it = min (length (filter required (butlast fs))) PB_MAX_REQUIRED_FIELDS"
proof -
  obtain k where k: "on_field fs b k it" using it by (auto simp: on_some_field_def)
  note d = on_fieldD [OF fs k]
  let ?l = "nfields fs - 1"
  have l: "?l < nfields fs" using d(1) by simp
  note last = iter_run_last [OF fs k]
  note dl = on_fieldD [OF fs last]
  have nxt: "snd (pb_field_iter_next (last (iter_run (length fs) it))) = iter_at fs b 0"
    using on_field_next [OF fs last] iter_at_wrap [OF fs l, of b] by simp
  have pos0: "pos (iter_at fs b 0) = 0" using fs l by (intro iter_at_pos) auto
  have "tag (cur (iter_at fs b 0)) \<noteq> 0"
    using terminated_tag [OF fs, of 0] l unfolding pos0 by simp
  then have "req_field_count it = min (req_index fs ?l + (if required (field_at fs ?l) then 1 else 0)) PB_MAX_REQUIRED_FIELDS"
    unfolding req_field_count_def Let_def d(3) nxt dl(2-4) iter_at_required [OF fs l] by (simp only: simp_thms)
  then show ?thesis using required_butlast [of fs] l by simp
qed

section \<open>Runs of the main loop\<close>

text \<open>\<open>dec_run e n rec st ts st'\<close>: rounds of the main loop lead from \<open>st\<close> to \<open>st'\<close>, and the tags they have read
  are \<open>ts\<close>.\<close>

inductive dec_run :: "env \<Rightarrow> nat \<Rightarrow> sub_decoder \<Rightarrow> dec_state \<Rightarrow> u32 list \<Rightarrow> dec_state \<Rightarrow> bool"
  for e n rec where
  stop: "dec_run e n rec st [] st"
| round: "bytes_left (d_stream st) \<noteq> 0 \<Longrightarrow> pb_decode_tag e (d_stream st) = (Some (wt, tg), eof, s1) \<Longrightarrow>
    noinit_step e n rec st = Some (Continue, st1) \<Longrightarrow> dec_run e n rec st1 ts st2 \<Longrightarrow>
    dec_run e n rec st (tg # ts) st2"

text \<open>A loop that ends normally is a run, up to the stream, which the last read of a tag may have moved.\<close>

lemma run_stop: "\<exists>ts st2. dec_run e n rec st ts st2 \<and> st = st2\<lparr>d_stream := d_stream st\<rparr>"
  by (rule exI [of _ "[]"], rule exI [of _ st]) (simp add: dec_run.stop)

lemma noinit_loop_run:
  "noinit_loop e n rec k st = Some (True, st1) \<Longrightarrow>
     \<exists>ts st2. dec_run e n rec st ts st2 \<and> st1 = st2\<lparr>d_stream := d_stream st1\<rparr>"
proof (induction k arbitrary: st)
  case 0
  then show ?case using run_stop [of e n rec st] by (auto split: if_splits)
next
  case (Suc k)
  show ?case
  proof (cases "bytes_left (d_stream st) = 0")
    case True
    then show ?thesis using Suc.prems run_stop [of e n rec st] by auto
  next
    case False
    then obtain x st0 where st0: "noinit_step e n rec st = Some (x, st0)"
      using Suc.prems by (auto split: option.splits)
    show ?thesis
    proof (cases x)
      case Continue
      with Suc.IH [of st0] Suc.prems False st0 obtain ts st2 where
        r: "dec_run e n rec st0 ts st2" "st1 = st2\<lparr>d_stream := d_stream st1\<rparr>" by auto
      from st0 Continue obtain wt tg eof s1 where "pb_decode_tag e (d_stream st) = (Some (wt, tg), eof, s1)"
        by (auto simp: noinit_step_def split: prod.splits option.splits if_splits)
      from dec_run.round [OF False this st0 [unfolded Continue] r(1)] r(2) show ?thesis by blast
    next
      case Break
      then have "st1 = st0" using Suc.prems False st0 by simp
      moreover have "st0 = st\<lparr>d_stream := d_stream st0\<rparr>"
        using st0 Break
        by (auto simp: noinit_step_def unknown_field_def known_field_def Let_def
            split: prod.splits option.splits if_splits)
      ultimately show ?thesis using dec_run.stop by blast
    next
      case Return_false
      then show ?thesis using Suc.prems False st0 by simp
    qed
  qed
qed

section \<open>What a run has seen\<close>

text \<open>The bits of \<open>fields_seen\<close> are those of the required fields among the tags read.\<close>

definition seen_inv :: "pb_field list \<Rightarrow> addr \<Rightarrow> u32 set \<Rightarrow> dec_state \<Rightarrow> bool" where
  "seen_inv fs b T st \<longleftrightarrow> on_some_field fs b (d_iter st) \<and> length (d_seen st) = 2 \<and>
     (\<forall>i<64. seen_bit (d_seen st) i \<longleftrightarrow>
        (\<exists>k < nfields fs. required (field_at fs k) \<and> req_index fs k = i \<and> tag (field_at fs k) \<in> T))"

lemma seen_bit_update:
  assumes "length seen = 2" and "i < 64" and "j < 64"
  shows "seen_bit (seen[i div 32 := (seen ! (i div 32)) OR push_bit (i mod 32) 1]) j \<longleftrightarrow> j = i \<or> seen_bit seen j"
proof -
  have "i div 32 < length seen" using assms by linarith
  have one: "bit (push_bit (i mod 32) (1 :: u32)) (j mod 32) \<longleftrightarrow> i mod 32 = j mod 32"
    by (simp add: bit_simps) linarith
  show ?thesis
  proof (cases "i div 32 = j div 32")
    case True
    then have "i mod 32 = j mod 32 \<longleftrightarrow> j = i" by (metis mult_div_mod_eq)
    with True one \<open>i div 32 < length seen\<close> show ?thesis by (auto simp: seen_bit_def bit_or_iff)
  next
    case False
    then show ?thesis by (auto simp: seen_bit_def)
  qed
qed

text \<open>What a round on a known field does to the iterator and to \<open>fields_seen\<close>.\<close>

definition mark_seen :: "pb_field_iter \<Rightarrow> u32 list \<Rightarrow> u32 list" where
  "mark_seen it seen =
     (let i = required_field_index it in
      if required (cur it) \<and> i < PB_MAX_REQUIRED_FIELDS
      then seen[i div 32 := (seen ! (i div 32)) OR push_bit (i mod 32) 1] else seen)"

lemma known_field_state:
  assumes "known_field e n rec wt st = Some (Continue, st1)"
  shows "d_seen st1 = mark_seen (d_iter st) (d_seen st)"
    and "\<exists>v s r. decode_field e n rec wt
      (if PB_HTYPE (ftype (cur (d_iter st))) = PB_HTYPE_REPEATED \<and> pSize (d_iter st) = At (pData (d_iter st))
       then (d_iter st)\<lparr>pSize := Fixed_count_size\<rparr> else d_iter st) v s = Some (d_iter st1, r)"
proof -
  let ?it = "d_iter st"
  obtain fcs m where v: "d_vars st = (fcs, m)" by (cases "d_vars st")
  define fixed where "fixed = (PB_HTYPE (ftype (cur ?it)) = PB_HTYPE_REPEATED \<and> pSize ?it = At (pData ?it))"
  define fresh where "fresh = (fixed \<and> d_fixed st \<noteq> Some (pos ?it))"
  define it1 where "it1 = (if fixed then ?it\<lparr>pSize := Fixed_count_size\<rparr> else ?it)"
  have it1: "required_field_index it1 = required_field_index ?it" by (simp add: it1_def)
  note eq = assms(1) [unfolded known_field_def Let_def v prod.case, folded fixed_def fresh_def it1_def]
  then obtain it2 v2 s2 where d: "decode_field e n rec wt it1 (if fresh then 0 else fcs, m) (d_stream st) = Some (it2, True, v2, s2)"
    and st1: "d_iter st1 = it2" "d_seen st1 = mark_seen ?it (d_seen st)"
    by (auto simp: it1 mark_seen_def Let_def split: if_splits option.splits)
  show "d_seen st1 = mark_seen ?it (d_seen st)" by (rule st1)
  show "\<exists>v s r. decode_field e n rec wt
      (if PB_HTYPE (ftype (cur ?it)) = PB_HTYPE_REPEATED \<and> pSize ?it = At (pData ?it)
       then ?it\<lparr>pSize := Fixed_count_size\<rparr> else ?it) v s = Some (d_iter st1, r)"
    using d st1(1) unfolding it1_def fixed_def by blast
qed

lemma filter_index:
  "i < length (filter P xs) \<Longrightarrow> \<exists>k < length xs. P (xs ! k) \<and> length (filter P (take k xs)) = i"
proof (induction xs arbitrary: i)
  case Nil
  then show ?case by simp
next
  case (Cons x xs)
  show ?case
  proof (cases "P x \<and> i = 0")
    case True
    then show ?thesis by (intro exI [of _ 0]) simp
  next
    case False
    then have "i - (if P x then 1 else 0) < length (filter P xs)" using Cons.prems by (auto split: if_splits)
    from Cons.IH [OF this] obtain k where "k < length xs" "P (xs ! k)"
      "length (filter P (take k xs)) = i - (if P x then 1 else 0)" by blast
    with False show ?thesis by (intro exI [of _ "Suc k"]) auto
  qed
qed

lemma req_index_inj:
  assumes "j < length fs" and "k < length fs" and "required (fs ! j)" and "required (fs ! k)" and "req_index fs j = req_index fs k"
  shows "j = k"
proof -
  have less: "req_index fs a < req_index fs b" if "a < b" "b < length fs" "required (fs ! a)" for a b
  proof -
    have "take b fs = take (Suc a) fs @ take (b - Suc a) (drop (Suc a) fs)"
      using that by (metis Suc_leI le_add_diff_inverse take_add)
    then show ?thesis using that by (simp add: take_Suc_conv_app_nth)
  qed
  show ?thesis using assms less [of j k] less [of k j] by (metis less_irrefl linorder_neqE_nat)
qed

lemma seen_inv_mark:
  assumes fs: "terminated fs" and dist: "distinct (map tag fs)"
    and inv: "seen_inv fs b T st" and k: "on_field fs b k (d_iter st)"
    and st1: "on_some_field fs b (d_iter st1)" "d_seen st1 = mark_seen (d_iter st) (d_seen st)"
  shows "seen_inv fs b (insert (tag (field_at fs k)) T) st1"
proof -
  note d = on_fieldD [OF fs k]
  have r: "required_field_index (d_iter st) = req_index fs k" using d(4) iter_at_required [OF fs d(1)] by simp
  have len: "length (d_seen st) = 2" using inv by (simp add: seen_inv_def)
  have same_tag: "tag (field_at fs j) = tag (field_at fs k) \<longleftrightarrow> j = k" if "j < nfields fs" for j
    using dist that d(1) nth_eq_iff_index_eq [OF dist, of j k] by (auto simp: field_at_def)
  have bits: "seen_bit (d_seen st1) i \<longleftrightarrow> seen_bit (d_seen st) i \<or> required (field_at fs k) \<and> i = req_index fs k" if "i < 64" for i
    using seen_bit_update [OF len _ that, of "req_index fs k"] that d r
    by (auto simp: st1(2) mark_seen_def Let_def)
  have "seen_bit (d_seen st1) i \<longleftrightarrow>
        (\<exists>j < nfields fs. required (field_at fs j) \<and> req_index fs j = i \<and> tag (field_at fs j) \<in> insert (tag (field_at fs k)) T)" if "i < 64" for i
  proof -
    have "seen_bit (d_seen st) i \<longleftrightarrow> (\<exists>j < nfields fs. required (field_at fs j) \<and> req_index fs j = i \<and> tag (field_at fs j) \<in> T)"
      using inv that by (simp add: seen_inv_def)
    with bits [OF that] same_tag d(1) show ?thesis by auto
  qed
  moreover have "length (d_seen st1) = 2" using len by (simp add: st1(2) mark_seen_def Let_def)
  ultimately show ?thesis using st1(1) by (simp add: seen_inv_def)
qed

text \<open>A tag that is not in the descriptors changes nothing here.\<close>

lemma seen_inv_other:
  assumes fs: "terminated fs" and inv: "seen_inv fs b T st"
    and st1: "on_some_field fs b (d_iter st1)" "d_seen st1 = d_seen st"
    and tg: "\<And>j. j < nfields fs \<Longrightarrow> tag (field_at fs j) \<noteq> tg"
  shows "seen_inv fs b (insert tg T) st1"
  using inv st1 tg by (auto simp: seen_inv_def)

lemma unknown_field_state:
  assumes fs: "terminated fs" and it: "on_some_field fs b (d_iter st)"
    and r: "unknown_field e n rec tg wt st = Some (Continue, st1)"
  shows "on_some_field fs b (d_iter st1)" and "d_seen st1 = d_seen st"
proof -
  obtain k where k: "on_field fs b k (d_iter st)" using it by (auto simp: on_some_field_def)
  obtain found it1 where f: "find_extension_field (d_iter st) = (found, it1)" by (metis prod.exhaust)
  from extension_find(1) [OF fs k f] it r f show "on_some_field fs b (d_iter st1)"
    by (auto simp: unknown_field_def Let_def split: prod.splits option.splits if_splits)
  from r f show "d_seen st1 = d_seen st"
    by (auto simp: unknown_field_def Let_def split: prod.splits option.splits if_splits)
qed

lemma seen_inv_step:
  assumes fs: "terminated fs" "list_all plain_field fs" and dist: "distinct (map tag fs)"
    and inv: "seen_inv fs b T st" and tg: "pb_decode_tag e (d_stream st) = (Some (wt, tg), eof, s1)"
    and r: "noinit_step e n rec st = Some (Continue, st1)"
  shows "seen_inv fs b (insert tg T) st1"
proof -
  obtain k where k: "on_field fs b k (d_iter st)" using inv by (auto simp: seen_inv_def on_some_field_def)
  obtain found it1 where f: "pb_field_iter_find (d_iter st) tg = (found, it1)" by (metis prod.exhaust)
  let ?st1 = "st\<lparr>d_iter := it1, d_stream := s1\<rparr>"
  note find = field_find [OF fs(1) k f]
  have on1: "on_some_field fs b it1" using find by (cases found) (auto simp: on_some_field_def)
  then have inv1: "seen_inv fs b T ?st1" using inv by (simp add: seen_inv_def)
  show ?thesis
  proof (cases found)
    case True
    then have kf: "known_field e n rec wt ?st1 = Some (Continue, st1)" using r tg f by (simp add: noinit_step_def)
    obtain j where j: "on_field fs b j it1" "tag (field_at fs j) = tg" using find True by blast
    note st = known_field_state [OF kf]
    let ?it = "if PB_HTYPE (ftype (cur it1)) = PB_HTYPE_REPEATED \<and> pSize it1 = At (pData it1)
       then it1\<lparr>pSize := Fixed_count_size\<rparr> else it1"
    have "on_field fs b j ?it" using j(1) fs(1) by (auto simp: on_field_def)
    then have on2: "on_some_field fs b ?it" by (auto simp only: on_some_field_def)
    obtain v s r where "decode_field e n rec wt ?it v s = Some (d_iter st1, r)"
      using st(2) by (simp del: split_paired_Ex cong: if_cong) blast
    from decode_field_iter [OF fs(1) on2 this] have "on_some_field fs b (d_iter st1)" .
    with seen_inv_mark [OF fs(1) dist inv1 _ _ st(1), of j] j show ?thesis by simp
  next
    case False
    then have "unknown_field e n rec tg wt ?st1 = Some (Continue, st1)" using r tg f by (simp add: noinit_step_def)
    from unknown_field_state [OF fs(1) _ this] on1
    have "on_some_field fs b (d_iter st1)" "d_seen st1 = d_seen ?st1" by simp_all
    moreover have "tag (field_at fs j) \<noteq> tg" if "j < nfields fs" for j
      using find(1) False that plain_fieldD(2) [OF plain_field_at [OF fs(2)]] by blast
    ultimately show ?thesis using seen_inv_other [OF fs(1) inv1] by blast
  qed
qed

lemma seen_inv_run:
  assumes fs: "terminated fs" "list_all plain_field fs" and dist: "distinct (map tag fs)"
  shows "dec_run e n rec st ts st' \<Longrightarrow> seen_inv fs b T st \<Longrightarrow> seen_inv fs b (set ts \<union> T) st'"
proof (induction arbitrary: T rule: dec_run.induct)
  case (stop st)
  then show ?case by simp
next
  case (round st wt tg eof s1 st1 ts st2)
  from seen_inv_step [OF fs dist round.prems round.hyps(2,3)] round.IH show ?case by fastforce
qed

lemma seen_inv_start:
  assumes "terminated fs" and "0 < nfields fs"
  shows "seen_inv fs b {} (noinit_start fs b m s)"
proof -
  have on: "on_field fs b 0 (iter_at fs b 0)" by (rule on_field_at [OF assms(2)])
  have "seen_bit [0, 0] i = False" if "i < 64" for i
  proof -
    have "i div 32 = 0 \<or> i div 32 = 1" using that by linarith
    then show ?thesis by (auto simp: seen_bit_def)
  qed
  moreover from on have "on_some_field fs b (snd (pb_field_iter_begin fs b))"
    unfolding on_some_field_def iter_at.simps by blast
  ultimately show ?thesis by (simp add: seen_inv_def noinit_start_def)
qed

lemma req_index_less:
  assumes "k < nfields fs" and "required (field_at fs k)"
  shows "req_index fs k < length (filter required (butlast fs))"
proof -
  have "req_index fs (Suc k) \<le> length (filter required (butlast fs))"
    unfolding butlast_conv_take using assms(1)
    by (metis Suc_leI diff_le_self filter_append le_add1 le_add_diff_inverse length_append take_add)
  moreover have "req_index fs (Suc k) = Suc (req_index fs k)"
    using assms by (auto simp: take_Suc_conv_app_nth field_at_def split: if_splits)
  ultimately show ?thesis by simp
qed

text \<open>The required fields are all among the tags exactly if their bits are all set.\<close>

lemma all_required_seen:
  assumes fs: "terminated fs" and inv: "seen_inv fs b T st"
    and few: "length (filter required (butlast fs)) \<le> PB_MAX_REQUIRED_FIELDS"
  shows "all_seen (length (filter required (butlast fs))) (d_seen st) \<longleftrightarrow>
     (\<forall>f \<in> set (butlast fs). required f \<longrightarrow> tag f \<in> T)"
proof -
  let ?R = "length (filter required (butlast fs))"
  have at: "field_at fs k = butlast fs ! k" "k < length fs" if "k < nfields fs" for k
    using that by (auto simp: field_at_def nth_butlast)
  note index = req_index_less
  have bit: "seen_bit (d_seen st) i \<longleftrightarrow>
        (\<exists>k < nfields fs. required (field_at fs k) \<and> req_index fs k = i \<and> tag (field_at fs k) \<in> T)" if "i < 64" for i
    using inv that by (simp add: seen_inv_def)
  have above: "\<not> seen_bit (d_seen st) i" if "?R \<le> i" "i < 64" for i
    using bit [OF that(2)] index that(1) by (meson leD)
  have "all_seen ?R (d_seen st) \<longleftrightarrow> (\<forall>i < ?R. seen_bit (d_seen st) i)"
    by (rule all_seen_iff [OF _ few above]) (use inv in \<open>simp add: seen_inv_def\<close>)
  also have "\<dots> \<longleftrightarrow> (\<forall>k < nfields fs. required (field_at fs k) \<longrightarrow> tag (field_at fs k) \<in> T)"
  proof (intro iffI allI impI)
    fix k assume a: "\<forall>i < ?R. seen_bit (d_seen st) i" and k: "k < nfields fs" "required (field_at fs k)"
    from index [OF k] a have "seen_bit (d_seen st) (req_index fs k)" by blast
    then obtain j where j: "j < nfields fs" "required (field_at fs j)" "req_index fs j = req_index fs k" "tag (field_at fs j) \<in> T"
      using bit [of "req_index fs k"] index [OF k] few by auto
    then have "j = k" using req_index_inj [of j fs k] k at by (auto simp: nth_butlast)
    with j show "tag (field_at fs k) \<in> T" by simp
  next
    fix i assume a: "\<forall>k < nfields fs. required (field_at fs k) \<longrightarrow> tag (field_at fs k) \<in> T" and i: "i < ?R"
    have "\<exists>k < nfields fs. required (field_at fs k) \<and> req_index fs k = i"
      using filter_index [OF i] at by (auto simp: take_butlast)
    with a bit [of i] i few show "seen_bit (d_seen st) i" by auto
  qed
  also have "\<dots> \<longleftrightarrow> (\<forall>f \<in> set (butlast fs). required f \<longrightarrow> tag f \<in> T)"
    using at by (simp add: all_set_conv_all_nth)
  finally show ?thesis .
qed

lemma noinit_finish_iff:
  assumes fs: "terminated fs" and inv: "seen_inv fs b T st"
    and few: "length (filter required (butlast fs)) \<le> PB_MAX_REQUIRED_FIELDS"
  shows "fst (noinit_finish st) \<longleftrightarrow> \<not> fixed_count_short fs (d_fixed st) (fst (d_vars st)) \<and>
     (\<forall>f \<in> set (butlast fs). required f \<longrightarrow> tag f \<in> T)"
proof -
  have on: "on_some_field fs b (d_iter st)" using inv by (simp add: seen_inv_def)
  then have st: "start (d_iter st) = fs" using on_fieldD(3) [OF fs] by (auto simp: on_some_field_def)
  have cnt: "req_field_count (d_iter st) = length (filter required (butlast fs))"
    using req_field_count_eq [OF fs on] few by simp
  have zero: "length (filter required (butlast fs)) = 0 \<Longrightarrow> \<forall>f \<in> set (butlast fs). required f \<longrightarrow> tag f \<in> T"
    by (simp add: filter_empty_conv)
  show ?thesis
    using all_required_seen [OF fs inv few] zero
    by (auto simp: noinit_finish_def cnt st fail_def split: prod.splits)
qed

end
