(* ===== verification/Pb_Layout.thy ===== *)
theory Pb_Layout
  imports Pb_Common
begin

text \<open>
  Members of the generated message structs: sizes and alignments of the C types on the modelled
  target, and the object representation of constants. What a descriptor array has to satisfy to
  describe a struct is \<open>describes\<close>: the iterator finds every member at its offset.
\<close>

definition c_bool :: "string \<Rightarrow> cmember" where
  "c_bool m = Member m 1 1 1"

definition c_int32 :: "string \<Rightarrow> cmember" where
  "c_int32 m = Member m 4 4 4"

definition c_int64 :: "string \<Rightarrow> cmember" where
  "c_int64 m = Member m 8 8 8"

text \<open>\<open>pb_size_t\<close> is \<open>uint32_t\<close>; the enumerations fit an \<open>int\<close>.\<close>

definition c_pb_size :: "string \<Rightarrow> cmember" where
  "c_pb_size m = Member m 4 4 4"

definition c_enum :: "string \<Rightarrow> cmember" where
  "c_enum m = Member m 4 4 4"

text \<open>A pointer member, with the size of what it points to.\<close>

definition c_pointer :: "string \<Rightarrow> nat \<Rightarrow> cmember" where
  "c_pointer m n = Member m 8 8 n"

text \<open>A nested struct.\<close>

definition c_member :: "string \<Rightarrow> cstruct \<Rightarrow> cmember" where
  "c_member m st = Member m (c_sizeof st) (c_alignof st) (c_sizeof st)"

text \<open>\<open>struct pb_bytes_array_s { pb_size_t size; pb_byte_t bytes[1]; }\<close>.\<close>

definition pb_bytes_array :: cstruct where
  "pb_bytes_array = [c_pb_size ''size'', Member ''bytes'' 1 1 1]"

definition pb_bytes_array_sizeof :: nat where
  "pb_bytes_array_sizeof = c_sizeof pb_bytes_array"

text \<open>The object representation of an integer constant of \<open>n\<close> bytes.\<close>

definition c_int_image :: "nat \<Rightarrow> int \<Rightarrow> byte list" where
  "c_int_image n v = to_le n (nat (v mod 256 ^ n))"

lemmas c_member_defs = c_bool_def c_int32_def c_int64_def c_pb_size_def c_enum_def c_pointer_def
  c_member_def pb_bytes_array_def pb_bytes_array_sizeof_def

text \<open>\<open>describes fs st ms\<close>: walking over a struct with the descriptors \<open>fs\<close> visits the members \<open>ms\<close>
  of \<open>st\<close>, each at its offset.\<close>

definition describes :: "pb_field list \<Rightarrow> cstruct \<Rightarrow> string list \<Rightarrow> bool" where
  "describes fs st ms \<longleftrightarrow> terminated fs \<and> distinct (map tag fs) \<and>
     (\<forall>b. map pData (iter_all fs b) = map (\<lambda>m. b + c_offsetof st m) ms)"

text \<open>The offsets do not depend on where the struct is.\<close>

definition shifted :: "addr \<Rightarrow> pb_field_iter \<Rightarrow> pb_field_iter \<Rightarrow> bool" where
  "shifted b it0 it \<longleftrightarrow> start it = start it0 \<and> pos it = pos it0 \<and> pData it = b + pData it0 \<and>
     dest_struct it = b + dest_struct it0"

lemma shifted_next:
  "shifted b it0 it \<Longrightarrow> fst (pb_field_iter_next it) = fst (pb_field_iter_next it0) \<and>
     shifted b (snd (pb_field_iter_next it0)) (snd (pb_field_iter_next it))"
  by (auto simp: shifted_def pb_field_iter_next_def pb_field_iter_begin_def Let_def)

lemma shifted_run:
  "shifted b it0 it \<Longrightarrow> map pData (iter_run n it) = map (\<lambda>i. b + pData i) (iter_run n it0)"
proof (induction n arbitrary: it0 it)
  case 0
  then show ?case by simp
next
  case (Suc n)
  obtain again it1 again0 it2 where nxt: "pb_field_iter_next it = (again, it1)"
    "pb_field_iter_next it0 = (again0, it2)" by (metis surj_pair)
  with shifted_next [OF Suc.prems] have "again = again0" "shifted b it2 it1" by simp_all
  moreover have "pData it = b + pData it0" using Suc.prems by (simp add: shifted_def)
  ultimately show ?case using Suc.IH [of it2 it1] nxt by simp
qed

lemma iter_all_shift: "map pData (iter_all fs b) = map (\<lambda>i. b + pData i) (iter_all fs 0)"
proof -
  have "shifted b (snd (pb_field_iter_begin fs 0)) (snd (pb_field_iter_begin fs b))"
    by (simp add: shifted_def)
  from shifted_run [OF this] show ?thesis
    by (simp add: iter_all_def pb_field_iter_begin_def Let_def)
qed

lemma describesI:
  assumes "terminated fs \<and> distinct (map tag fs) \<and> map pData (iter_all fs 0) = map (c_offsetof st) ms"
  shows "describes fs st ms"
proof -
  have "map pData (iter_all fs b) = map (\<lambda>m. b + c_offsetof st m) ms" for b
  proof -
    have "map pData (iter_all fs b) = map ((+) b) (map pData (iter_all fs 0))"
      unfolding iter_all_shift [of fs b] by (simp add: comp_def)
    also have "\<dots> = map (\<lambda>m. b + c_offsetof st m) ms" using assms by simp
    finally show ?thesis .
  qed
  with assms show ?thesis by (simp add: describes_def)
qed

end
