(* ===== verification/Cct_Messages.thy ===== *)
theory Cct_Messages
  imports Pb_Layout
begin

text \<open>
  The message types of the CCT log transport, \<open>GDTCCTLibrary/Protogen/nanopb/cct.nanopb.h\<close> and
  \<open>cct.nanopb.c\<close>: enumerations with their numbers, the C structs as member lists, the default values
  and the field descriptors, built with the macros of \<open>pb.h\<close>.
\<close>

section \<open>Enumerations\<close>

datatype gdt_cct_NetworkConnectionInfo_NetworkType =
  gdt_cct_NetworkConnectionInfo_NetworkType_NONE
| gdt_cct_NetworkConnectionInfo_NetworkType_MOBILE
| gdt_cct_NetworkConnectionInfo_NetworkType_WIFI
| gdt_cct_NetworkConnectionInfo_NetworkType_MOBILE_MMS
| gdt_cct_NetworkConnectionInfo_NetworkType_MOBILE_SUPL
| gdt_cct_NetworkConnectionInfo_NetworkType_MOBILE_DUN
| gdt_cct_NetworkConnectionInfo_NetworkType_MOBILE_HIPRI
| gdt_cct_NetworkConnectionInfo_NetworkType_WIMAX
| gdt_cct_NetworkConnectionInfo_NetworkType_BLUETOOTH
| gdt_cct_NetworkConnectionInfo_NetworkType_DUMMY
| gdt_cct_NetworkConnectionInfo_NetworkType_ETHERNET
| gdt_cct_NetworkConnectionInfo_NetworkType_MOBILE_FOTA
| gdt_cct_NetworkConnectionInfo_NetworkType_MOBILE_IMS
| gdt_cct_NetworkConnectionInfo_NetworkType_MOBILE_CBS
| gdt_cct_NetworkConnectionInfo_NetworkType_WIFI_P2P
| gdt_cct_NetworkConnectionInfo_NetworkType_MOBILE_IA
| gdt_cct_NetworkConnectionInfo_NetworkType_MOBILE_EMERGENCY
| gdt_cct_NetworkConnectionInfo_NetworkType_PROXY
| gdt_cct_NetworkConnectionInfo_NetworkType_VPN

fun gdt_cct_NetworkConnectionInfo_NetworkType_value :: "gdt_cct_NetworkConnectionInfo_NetworkType \<Rightarrow> int" where
  "gdt_cct_NetworkConnectionInfo_NetworkType_value gdt_cct_NetworkConnectionInfo_NetworkType_NONE = -1"
| "gdt_cct_NetworkConnectionInfo_NetworkType_value gdt_cct_NetworkConnectionInfo_NetworkType_MOBILE = 0"
| "gdt_cct_NetworkConnectionInfo_NetworkType_value gdt_cct_NetworkConnectionInfo_NetworkType_WIFI = 1"
| "gdt_cct_NetworkConnectionInfo_NetworkType_value gdt_cct_NetworkConnectionInfo_NetworkType_MOBILE_MMS = 2"
| "gdt_cct_NetworkConnectionInfo_NetworkType_value gdt_cct_NetworkConnectionInfo_NetworkType_MOBILE_SUPL = 3"
| "gdt_cct_NetworkConnectionInfo_NetworkType_value gdt_cct_NetworkConnectionInfo_NetworkType_MOBILE_DUN = 4"
| "gdt_cct_NetworkConnectionInfo_NetworkType_value gdt_cct_NetworkConnectionInfo_NetworkType_MOBILE_HIPRI = 5"
| "gdt_cct_NetworkConnectionInfo_NetworkType_value gdt_cct_NetworkConnectionInfo_NetworkType_WIMAX = 6"
| "gdt_cct_NetworkConnectionInfo_NetworkType_value gdt_cct_NetworkConnectionInfo_NetworkType_BLUETOOTH = 7"
| "gdt_cct_NetworkConnectionInfo_NetworkType_value gdt_cct_NetworkConnectionInfo_NetworkType_DUMMY = 8"
| "gdt_cct_NetworkConnectionInfo_NetworkType_value gdt_cct_NetworkConnectionInfo_NetworkType_ETHERNET = 9"
| "gdt_cct_NetworkConnectionInfo_NetworkType_value gdt_cct_NetworkConnectionInfo_NetworkType_MOBILE_FOTA = 10"
| "gdt_cct_NetworkConnectionInfo_NetworkType_value gdt_cct_NetworkConnectionInfo_NetworkType_MOBILE_IMS = 11"
| "gdt_cct_NetworkConnectionInfo_NetworkType_value gdt_cct_NetworkConnectionInfo_NetworkType_MOBILE_CBS = 12"
| "gdt_cct_NetworkConnectionInfo_NetworkType_value gdt_cct_NetworkConnectionInfo_NetworkType_WIFI_P2P = 13"
| "gdt_cct_NetworkConnectionInfo_NetworkType_value gdt_cct_NetworkConnectionInfo_NetworkType_MOBILE_IA = 14"
| "gdt_cct_NetworkConnectionInfo_NetworkType_value gdt_cct_NetworkConnectionInfo_NetworkType_MOBILE_EMERGENCY = 15"
| "gdt_cct_NetworkConnectionInfo_NetworkType_value gdt_cct_NetworkConnectionInfo_NetworkType_PROXY = 16"
| "gdt_cct_NetworkConnectionInfo_NetworkType_value gdt_cct_NetworkConnectionInfo_NetworkType_VPN = 17"

datatype gdt_cct_NetworkConnectionInfo_MobileSubtype =
  gdt_cct_NetworkConnectionInfo_MobileSubtype_UNKNOWN_MOBILE_SUBTYPE
| gdt_cct_NetworkConnectionInfo_MobileSubtype_GPRS
| gdt_cct_NetworkConnectionInfo_MobileSubtype_EDGE
| gdt_cct_NetworkConnectionInfo_MobileSubtype_UMTS
| gdt_cct_NetworkConnectionInfo_MobileSubtype_CDMA
| gdt_cct_NetworkConnectionInfo_MobileSubtype_EVDO_0
| gdt_cct_NetworkConnectionInfo_MobileSubtype_EVDO_A
| gdt_cct_NetworkConnectionInfo_MobileSubtype_RTT
| gdt_cct_NetworkConnectionInfo_MobileSubtype_HSDPA
| gdt_cct_NetworkConnectionInfo_MobileSubtype_HSUPA
| gdt_cct_NetworkConnectionInfo_MobileSubtype_HSPA
| gdt_cct_NetworkConnectionInfo_MobileSubtype_IDEN
| gdt_cct_NetworkConnectionInfo_MobileSubtype_EVDO_B
| gdt_cct_NetworkConnectionInfo_MobileSubtype_LTE
| gdt_cct_NetworkConnectionInfo_MobileSubtype_EHRPD
| gdt_cct_NetworkConnectionInfo_MobileSubtype_HSPAP
| gdt_cct_NetworkConnectionInfo_MobileSubtype_GSM
| gdt_cct_NetworkConnectionInfo_MobileSubtype_TD_SCDMA
| gdt_cct_NetworkConnectionInfo_MobileSubtype_IWLAN
| gdt_cct_NetworkConnectionInfo_MobileSubtype_LTE_CA
| gdt_cct_NetworkConnectionInfo_MobileSubtype_COMBINED

fun gdt_cct_NetworkConnectionInfo_MobileSubtype_value :: "gdt_cct_NetworkConnectionInfo_MobileSubtype \<Rightarrow> int" where
  "gdt_cct_NetworkConnectionInfo_MobileSubtype_value gdt_cct_NetworkConnectionInfo_MobileSubtype_UNKNOWN_MOBILE_SUBTYPE = 0"
| "gdt_cct_NetworkConnectionInfo_MobileSubtype_value gdt_cct_NetworkConnectionInfo_MobileSubtype_GPRS = 1"
| "gdt_cct_NetworkConnectionInfo_MobileSubtype_value gdt_cct_NetworkConnectionInfo_MobileSubtype_EDGE = 2"
| "gdt_cct_NetworkConnectionInfo_MobileSubtype_value gdt_cct_NetworkConnectionInfo_MobileSubtype_UMTS = 3"
| "gdt_cct_NetworkConnectionInfo_MobileSubtype_value gdt_cct_NetworkConnectionInfo_MobileSubtype_CDMA = 4"
| "gdt_cct_NetworkConnectionInfo_MobileSubtype_value gdt_cct_NetworkConnectionInfo_MobileSubtype_EVDO_0 = 5"
| "gdt_cct_NetworkConnectionInfo_MobileSubtype_value gdt_cct_NetworkConnectionInfo_MobileSubtype_EVDO_A = 6"
| "gdt_cct_NetworkConnectionInfo_MobileSubtype_value gdt_cct_NetworkConnectionInfo_MobileSubtype_RTT = 7"
| "gdt_cct_NetworkConnectionInfo_MobileSubtype_value gdt_cct_NetworkConnectionInfo_MobileSubtype_HSDPA = 8"
| "gdt_cct_NetworkConnectionInfo_MobileSubtype_value gdt_cct_NetworkConnectionInfo_MobileSubtype_HSUPA = 9"
| "gdt_cct_NetworkConnectionInfo_MobileSubtype_value gdt_cct_NetworkConnectionInfo_MobileSubtype_HSPA = 10"
| "gdt_cct_NetworkConnectionInfo_MobileSubtype_value gdt_cct_NetworkConnectionInfo_MobileSubtype_IDEN = 11"
| "gdt_cct_NetworkConnectionInfo_MobileSubtype_value gdt_cct_NetworkConnectionInfo_MobileSubtype_EVDO_B = 12"
| "gdt_cct_NetworkConnectionInfo_MobileSubtype_value gdt_cct_NetworkConnectionInfo_MobileSubtype_LTE = 13"
| "gdt_cct_NetworkConnectionInfo_MobileSubtype_value gdt_cct_NetworkConnectionInfo_MobileSubtype_EHRPD = 14"
| "gdt_cct_NetworkConnectionInfo_MobileSubtype_value gdt_cct_NetworkConnectionInfo_MobileSubtype_HSPAP = 15"
| "gdt_cct_NetworkConnectionInfo_MobileSubtype_value gdt_cct_NetworkConnectionInfo_MobileSubtype_GSM = 16"
| "gdt_cct_NetworkConnectionInfo_MobileSubtype_value gdt_cct_NetworkConnectionInfo_MobileSubtype_TD_SCDMA = 17"
| "gdt_cct_NetworkConnectionInfo_MobileSubtype_value gdt_cct_NetworkConnectionInfo_MobileSubtype_IWLAN = 18"
| "gdt_cct_NetworkConnectionInfo_MobileSubtype_value gdt_cct_NetworkConnectionInfo_MobileSubtype_LTE_CA = 19"
| "gdt_cct_NetworkConnectionInfo_MobileSubtype_value gdt_cct_NetworkConnectionInfo_MobileSubtype_COMBINED = 100"

datatype gdt_cct_ClientInfo_ClientType =
  gdt_cct_ClientInfo_ClientType_CLIENT_UNKNOWN
| gdt_cct_ClientInfo_ClientType_IOS_FIREBASE

fun gdt_cct_ClientInfo_ClientType_value :: "gdt_cct_ClientInfo_ClientType \<Rightarrow> int" where
  "gdt_cct_ClientInfo_ClientType_value gdt_cct_ClientInfo_ClientType_CLIENT_UNKNOWN = 0"
| "gdt_cct_ClientInfo_ClientType_value gdt_cct_ClientInfo_ClientType_IOS_FIREBASE = 15"

datatype gdt_cct_QosTierConfiguration_QosTier =
  gdt_cct_QosTierConfiguration_QosTier_DEFAULT
| gdt_cct_QosTierConfiguration_QosTier_UNMETERED_ONLY
| gdt_cct_QosTierConfiguration_QosTier_UNMETERED_OR_DAILY
| gdt_cct_QosTierConfiguration_QosTier_FAST_IF_RADIO_AWAKE
| gdt_cct_QosTierConfiguration_QosTier_NEVER

fun gdt_cct_QosTierConfiguration_QosTier_value :: "gdt_cct_QosTierConfiguration_QosTier \<Rightarrow> int" where
  "gdt_cct_QosTierConfiguration_QosTier_value gdt_cct_QosTierConfiguration_QosTier_DEFAULT = 0"
| "gdt_cct_QosTierConfiguration_QosTier_value gdt_cct_QosTierConfiguration_QosTier_UNMETERED_ONLY = 1"
| "gdt_cct_QosTierConfiguration_QosTier_value gdt_cct_QosTierConfiguration_QosTier_UNMETERED_OR_DAILY = 2"
| "gdt_cct_QosTierConfiguration_QosTier_value gdt_cct_QosTierConfiguration_QosTier_FAST_IF_RADIO_AWAKE = 3"
| "gdt_cct_QosTierConfiguration_QosTier_value gdt_cct_QosTierConfiguration_QosTier_NEVER = 4"

section \<open>Structs\<close>

definition gdt_cct_IosClientInfo :: cstruct where
  "gdt_cct_IosClientInfo =
     [c_pointer ''os_major_version'' pb_bytes_array_sizeof,
      c_pointer ''os_full_version'' pb_bytes_array_sizeof,
      c_pointer ''application_build'' pb_bytes_array_sizeof,
      c_pointer ''country'' pb_bytes_array_sizeof,
      c_pointer ''model'' pb_bytes_array_sizeof,
      c_pointer ''language_code'' pb_bytes_array_sizeof,
      c_pointer ''application_bundle_id'' pb_bytes_array_sizeof]"

definition gdt_cct_ClientInfo :: cstruct where
  "gdt_cct_ClientInfo =
     [c_bool ''has_client_type'',
      c_enum ''client_type'',
      c_bool ''has_ios_client_info'',
      c_member ''ios_client_info'' gdt_cct_IosClientInfo]"

definition gdt_cct_NetworkConnectionInfo :: cstruct where
  "gdt_cct_NetworkConnectionInfo =
     [c_bool ''has_network_type'',
      c_enum ''network_type'',
      c_bool ''has_mobile_subtype'',
      c_enum ''mobile_subtype'']"

definition gdt_cct_LogEvent :: cstruct where
  "gdt_cct_LogEvent =
     [c_bool ''has_event_time_ms'',
      c_int64 ''event_time_ms'',
      c_pointer ''source_extension'' pb_bytes_array_sizeof,
      c_bool ''has_event_code'',
      c_int32 ''event_code'',
      c_bool ''has_timezone_offset_seconds'',
      c_int64 ''timezone_offset_seconds'',
      c_bool ''has_event_uptime_ms'',
      c_int64 ''event_uptime_ms'',
      c_bool ''has_network_connection_info'',
      c_member ''network_connection_info'' gdt_cct_NetworkConnectionInfo]"

definition gdt_cct_LogRequest :: cstruct where
  "gdt_cct_LogRequest =
     [c_bool ''has_client_info'',
      c_member ''client_info'' gdt_cct_ClientInfo,
      c_bool ''has_log_source'',
      c_int32 ''log_source'',
      c_pb_size ''log_event_count'',
      c_pointer ''log_event'' (c_sizeof gdt_cct_LogEvent),
      c_bool ''has_request_time_ms'',
      c_int64 ''request_time_ms'',
      c_bool ''has_request_uptime_ms'',
      c_int64 ''request_uptime_ms'',
      c_bool ''has_qos_tier'',
      c_enum ''qos_tier'']"

definition gdt_cct_BatchedLogRequest :: cstruct where
  "gdt_cct_BatchedLogRequest =
     [c_pb_size ''log_request_count'',
      c_pointer ''log_request'' (c_sizeof gdt_cct_LogRequest)]"

definition gdt_cct_QosTierConfiguration :: cstruct where
  "gdt_cct_QosTierConfiguration =
     [c_bool ''has_qos_tier'',
      c_enum ''qos_tier'',
      c_bool ''has_log_source'',
      c_int32 ''log_source'']"

definition gdt_cct_QosTiersOverride :: cstruct where
  "gdt_cct_QosTiersOverride =
     [c_pb_size ''qos_tier_configuration_count'',
      c_pointer ''qos_tier_configuration'' (c_sizeof gdt_cct_QosTierConfiguration),
      c_bool ''has_qos_tier_fingerprint'',
      c_int64 ''qos_tier_fingerprint'']"

definition gdt_cct_LogResponse :: cstruct where
  "gdt_cct_LogResponse =
     [c_bool ''has_next_request_wait_millis'',
      c_int64 ''next_request_wait_millis'',
      c_bool ''has_qos_tier'',
      c_member ''qos_tier'' gdt_cct_QosTiersOverride]"

section \<open>Default values\<close>

definition gdt_cct_NetworkConnectionInfo_network_type_default :: "byte list" where
  "gdt_cct_NetworkConnectionInfo_network_type_default = c_int_image 4 (gdt_cct_NetworkConnectionInfo_NetworkType_value gdt_cct_NetworkConnectionInfo_NetworkType_NONE)"

definition gdt_cct_NetworkConnectionInfo_mobile_subtype_default :: "byte list" where
  "gdt_cct_NetworkConnectionInfo_mobile_subtype_default = c_int_image 4 (gdt_cct_NetworkConnectionInfo_MobileSubtype_value gdt_cct_NetworkConnectionInfo_MobileSubtype_UNKNOWN_MOBILE_SUBTYPE)"

definition gdt_cct_LogRequest_qos_tier_default :: "byte list" where
  "gdt_cct_LogRequest_qos_tier_default = c_int_image 4 (gdt_cct_QosTierConfiguration_QosTier_value gdt_cct_QosTierConfiguration_QosTier_DEFAULT)"

definition gdt_cct_QosTierConfiguration_log_source_default :: "byte list" where
  "gdt_cct_QosTierConfiguration_log_source_default = c_int_image 4 (0)"

section \<open>Field descriptors\<close>

definition gdt_cct_NetworkConnectionInfo_fields :: "pb_field list" where
  "gdt_cct_NetworkConnectionInfo_fields =
     [PB_FIELD 1 ENUM OPTIONAL STATIC FIRST gdt_cct_NetworkConnectionInfo ''network_type'' ''network_type'' (Default_value gdt_cct_NetworkConnectionInfo_network_type_default),
      PB_FIELD 2 UENUM OPTIONAL STATIC OTHER gdt_cct_NetworkConnectionInfo ''mobile_subtype'' ''network_type'' (Default_value gdt_cct_NetworkConnectionInfo_mobile_subtype_default),
      PB_LAST_FIELD]"

definition gdt_cct_LogEvent_fields :: "pb_field list" where
  "gdt_cct_LogEvent_fields =
     [PB_FIELD 1 INT64 OPTIONAL STATIC FIRST gdt_cct_LogEvent ''event_time_ms'' ''event_time_ms'' Null,
      PB_FIELD 6 BYTES OPTIONAL POINTER OTHER gdt_cct_LogEvent ''source_extension'' ''event_time_ms'' Null,
      PB_FIELD 11 INT32 OPTIONAL STATIC OTHER gdt_cct_LogEvent ''event_code'' ''source_extension'' Null,
      PB_FIELD 15 SINT64 OPTIONAL STATIC OTHER gdt_cct_LogEvent ''timezone_offset_seconds'' ''event_code'' Null,
      PB_FIELD 17 INT64 OPTIONAL STATIC OTHER gdt_cct_LogEvent ''event_uptime_ms'' ''timezone_offset_seconds'' Null,
      PB_FIELD 23 MESSAGE OPTIONAL STATIC OTHER gdt_cct_LogEvent ''network_connection_info'' ''event_uptime_ms'' (Submsg_fields gdt_cct_NetworkConnectionInfo_fields),
      PB_LAST_FIELD]"

definition gdt_cct_IosClientInfo_fields :: "pb_field list" where
  "gdt_cct_IosClientInfo_fields =
     [PB_FIELD 3 BYTES OPTIONAL POINTER FIRST gdt_cct_IosClientInfo ''os_major_version'' ''os_major_version'' Null,
      PB_FIELD 4 BYTES OPTIONAL POINTER OTHER gdt_cct_IosClientInfo ''os_full_version'' ''os_major_version'' Null,
      PB_FIELD 5 BYTES OPTIONAL POINTER OTHER gdt_cct_IosClientInfo ''application_build'' ''os_full_version'' Null,
      PB_FIELD 6 BYTES OPTIONAL POINTER OTHER gdt_cct_IosClientInfo ''country'' ''application_build'' Null,
      PB_FIELD 7 BYTES OPTIONAL POINTER OTHER gdt_cct_IosClientInfo ''model'' ''country'' Null,
      PB_FIELD 8 BYTES OPTIONAL POINTER OTHER gdt_cct_IosClientInfo ''language_code'' ''model'' Null,
      PB_FIELD 11 BYTES OPTIONAL POINTER OTHER gdt_cct_IosClientInfo ''application_bundle_id'' ''language_code'' Null,
      PB_LAST_FIELD]"

definition gdt_cct_ClientInfo_fields :: "pb_field list" where
  "gdt_cct_ClientInfo_fields =
     [PB_FIELD 1 UENUM OPTIONAL STATIC FIRST gdt_cct_ClientInfo ''client_type'' ''client_type'' Null,
      PB_FIELD 4 MESSAGE OPTIONAL STATIC OTHER gdt_cct_ClientInfo ''ios_client_info'' ''client_type'' (Submsg_fields gdt_cct_IosClientInfo_fields),
      PB_LAST_FIELD]"

definition gdt_cct_LogRequest_fields :: "pb_field list" where
  "gdt_cct_LogRequest_fields =
     [PB_FIELD 1 MESSAGE OPTIONAL STATIC FIRST gdt_cct_LogRequest ''client_info'' ''client_info'' (Submsg_fields gdt_cct_ClientInfo_fields),
      PB_FIELD 2 INT32 OPTIONAL STATIC OTHER gdt_cct_LogRequest ''log_source'' ''client_info'' Null,
      PB_FIELD 3 MESSAGE REPEATED POINTER OTHER gdt_cct_LogRequest ''log_event'' ''log_source'' (Submsg_fields gdt_cct_LogEvent_fields),
      PB_FIELD 4 INT64 OPTIONAL STATIC OTHER gdt_cct_LogRequest ''request_time_ms'' ''log_event'' Null,
      PB_FIELD 8 INT64 OPTIONAL STATIC OTHER gdt_cct_LogRequest ''request_uptime_ms'' ''request_time_ms'' Null,
      PB_FIELD 9 UENUM OPTIONAL STATIC OTHER gdt_cct_LogRequest ''qos_tier'' ''request_uptime_ms'' (Default_value gdt_cct_LogRequest_qos_tier_default),
      PB_LAST_FIELD]"

definition gdt_cct_BatchedLogRequest_fields :: "pb_field list" where
  "gdt_cct_BatchedLogRequest_fields =
     [PB_FIELD 1 MESSAGE REPEATED POINTER FIRST gdt_cct_BatchedLogRequest ''log_request'' ''log_request'' (Submsg_fields gdt_cct_LogRequest_fields),
      PB_LAST_FIELD]"

definition gdt_cct_QosTierConfiguration_fields :: "pb_field list" where
  "gdt_cct_QosTierConfiguration_fields =
     [PB_FIELD 2 UENUM OPTIONAL STATIC FIRST gdt_cct_QosTierConfiguration ''qos_tier'' ''qos_tier'' Null,
      PB_FIELD 3 INT32 OPTIONAL STATIC OTHER gdt_cct_QosTierConfiguration ''log_source'' ''qos_tier'' (Default_value gdt_cct_QosTierConfiguration_log_source_default),
      PB_LAST_FIELD]"

definition gdt_cct_QosTiersOverride_fields :: "pb_field list" where
  "gdt_cct_QosTiersOverride_fields =
     [PB_FIELD 1 MESSAGE REPEATED POINTER FIRST gdt_cct_QosTiersOverride ''qos_tier_configuration'' ''qos_tier_configuration'' (Submsg_fields gdt_cct_QosTierConfiguration_fields),
      PB_FIELD 2 INT64 OPTIONAL STATIC OTHER gdt_cct_QosTiersOverride ''qos_tier_fingerprint'' ''qos_tier_configuration'' Null,
      PB_LAST_FIELD]"

definition gdt_cct_LogResponse_fields :: "pb_field list" where
  "gdt_cct_LogResponse_fields =
     [PB_FIELD 1 INT64 OPTIONAL STATIC FIRST gdt_cct_LogResponse ''next_request_wait_millis'' ''next_request_wait_millis'' Null,
      PB_FIELD 3 MESSAGE OPTIONAL STATIC OTHER gdt_cct_LogResponse ''qos_tier'' ''next_request_wait_millis'' (Submsg_fields gdt_cct_QosTiersOverride_fields),
      PB_LAST_FIELD]"

lemmas cct_struct_defs = gdt_cct_IosClientInfo_def gdt_cct_ClientInfo_def gdt_cct_NetworkConnectionInfo_def gdt_cct_LogEvent_def gdt_cct_LogRequest_def gdt_cct_BatchedLogRequest_def gdt_cct_QosTierConfiguration_def gdt_cct_QosTiersOverride_def gdt_cct_LogResponse_def

lemmas cct_fields_defs = gdt_cct_NetworkConnectionInfo_fields_def gdt_cct_LogEvent_fields_def gdt_cct_IosClientInfo_fields_def gdt_cct_ClientInfo_fields_def gdt_cct_LogRequest_fields_def gdt_cct_BatchedLogRequest_fields_def gdt_cct_QosTierConfiguration_fields_def gdt_cct_QosTiersOverride_fields_def gdt_cct_LogResponse_fields_def

section \<open>The descriptors, evaluated\<close>

lemma gdt_cct_NetworkConnectionInfo_fields_eval:
  "gdt_cct_NetworkConnectionInfo_fields =
     [PbField 1 0x11 4 (-4) 4 0 (Default_value gdt_cct_NetworkConnectionInfo_network_type_default),
      PbField 2 0x12 4 (-4) 4 0 (Default_value gdt_cct_NetworkConnectionInfo_mobile_subtype_default),
      PbField 0 0 0 0 0 0 Null]"
  by code_simp

lemma gdt_cct_LogEvent_fields_eval:
  "gdt_cct_LogEvent_fields =
     [PbField 1 0x11 8 (-8) 8 0 Null,
      PbField 6 0x96 0 0 8 0 Null,
      PbField 11 0x11 4 (-4) 4 0 Null,
      PbField 15 0x13 8 (-8) 8 0 Null,
      PbField 17 0x11 8 (-8) 8 0 Null,
      PbField 23 0x18 4 (-4) 16 0 (Submsg_fields gdt_cct_NetworkConnectionInfo_fields),
      PbField 0 0 0 0 0 0 Null]"
  by code_simp

lemma gdt_cct_IosClientInfo_fields_eval:
  "gdt_cct_IosClientInfo_fields =
     [PbField 3 0x96 0 0 8 0 Null,
      PbField 4 0x96 0 0 8 0 Null,
      PbField 5 0x96 0 0 8 0 Null,
      PbField 6 0x96 0 0 8 0 Null,
      PbField 7 0x96 0 0 8 0 Null,
      PbField 8 0x96 0 0 8 0 Null,
      PbField 11 0x96 0 0 8 0 Null,
      PbField 0 0 0 0 0 0 Null]"
  by code_simp

lemma gdt_cct_ClientInfo_fields_eval:
  "gdt_cct_ClientInfo_fields =
     [PbField 1 0x12 4 (-4) 4 0 Null,
      PbField 4 0x18 8 (-8) 56 0 (Submsg_fields gdt_cct_IosClientInfo_fields),
      PbField 0 0 0 0 0 0 Null]"
  by code_simp

lemma gdt_cct_LogRequest_fields_eval:
  "gdt_cct_LogRequest_fields =
     [PbField 1 0x18 8 (-8) 72 0 (Submsg_fields gdt_cct_ClientInfo_fields),
      PbField 2 0x11 4 (-4) 4 0 Null,
      PbField 3 0xA8 8 (-8) 88 0 (Submsg_fields gdt_cct_LogEvent_fields),
      PbField 4 0x11 8 (-8) 8 0 Null,
      PbField 8 0x11 8 (-8) 8 0 Null,
      PbField 9 0x12 4 (-4) 4 0 (Default_value gdt_cct_LogRequest_qos_tier_default),
      PbField 0 0 0 0 0 0 Null]"
  by code_simp

lemma gdt_cct_BatchedLogRequest_fields_eval:
  "gdt_cct_BatchedLogRequest_fields =
     [PbField 1 0xA8 8 (-8) 144 0 (Submsg_fields gdt_cct_LogRequest_fields),
      PbField 0 0 0 0 0 0 Null]"
  by code_simp

lemma gdt_cct_QosTierConfiguration_fields_eval:
  "gdt_cct_QosTierConfiguration_fields =
     [PbField 2 0x12 4 (-4) 4 0 Null,
      PbField 3 0x11 4 (-4) 4 0 (Default_value gdt_cct_QosTierConfiguration_log_source_default),
      PbField 0 0 0 0 0 0 Null]"
  by code_simp

lemma gdt_cct_QosTiersOverride_fields_eval:
  "gdt_cct_QosTiersOverride_fields =
     [PbField 1 0xA8 8 (-8) 16 0 (Submsg_fields gdt_cct_QosTierConfiguration_fields),
      PbField 2 0x11 8 (-8) 8 0 Null,
      PbField 0 0 0 0 0 0 Null]"
  by code_simp

lemma gdt_cct_LogResponse_fields_eval:
  "gdt_cct_LogResponse_fields =
     [PbField 1 0x11 8 (-8) 8 0 Null,
      PbField 3 0x18 8 (-8) 32 0 (Submsg_fields gdt_cct_QosTiersOverride_fields),
      PbField 0 0 0 0 0 0 Null]"
  by code_simp

lemmas cct_eval = gdt_cct_NetworkConnectionInfo_fields_eval gdt_cct_LogEvent_fields_eval gdt_cct_IosClientInfo_fields_eval gdt_cct_ClientInfo_fields_eval gdt_cct_LogRequest_fields_eval gdt_cct_BatchedLogRequest_fields_eval gdt_cct_QosTierConfiguration_fields_eval gdt_cct_QosTiersOverride_fields_eval gdt_cct_LogResponse_fields_eval

text \<open>Every descriptor array finds the members of its struct.\<close>

lemma gdt_cct_NetworkConnectionInfo_fields_describes: "describes gdt_cct_NetworkConnectionInfo_fields gdt_cct_NetworkConnectionInfo
     [''network_type'', ''mobile_subtype'']"
  unfolding gdt_cct_NetworkConnectionInfo_fields_eval
  by (rule describesI) code_simp

lemma gdt_cct_LogEvent_fields_describes: "describes gdt_cct_LogEvent_fields gdt_cct_LogEvent
     [''event_time_ms'', ''source_extension'', ''event_code'', ''timezone_offset_seconds'', ''event_uptime_ms'', ''network_connection_info'']"
  unfolding gdt_cct_LogEvent_fields_eval
  by (rule describesI) code_simp

lemma gdt_cct_IosClientInfo_fields_describes: "describes gdt_cct_IosClientInfo_fields gdt_cct_IosClientInfo
     [''os_major_version'', ''os_full_version'', ''application_build'', ''country'', ''model'', ''language_code'', ''application_bundle_id'']"
  unfolding gdt_cct_IosClientInfo_fields_eval
  by (rule describesI) code_simp

lemma gdt_cct_ClientInfo_fields_describes: "describes gdt_cct_ClientInfo_fields gdt_cct_ClientInfo
     [''client_type'', ''ios_client_info'']"
  unfolding gdt_cct_ClientInfo_fields_eval
  by (rule describesI) code_simp

lemma gdt_cct_LogRequest_fields_describes: "describes gdt_cct_LogRequest_fields gdt_cct_LogRequest
     [''client_info'', ''log_source'', ''log_event'', ''request_time_ms'', ''request_uptime_ms'', ''qos_tier'']"
  unfolding gdt_cct_LogRequest_fields_eval
  by (rule describesI) code_simp

lemma gdt_cct_BatchedLogRequest_fields_describes: "describes gdt_cct_BatchedLogRequest_fields gdt_cct_BatchedLogRequest
     [''log_request'']"
  unfolding gdt_cct_BatchedLogRequest_fields_eval
  by (rule describesI) code_simp

lemma gdt_cct_QosTierConfiguration_fields_describes: "describes gdt_cct_QosTierConfiguration_fields gdt_cct_QosTierConfiguration
     [''qos_tier'', ''log_source'']"
  unfolding gdt_cct_QosTierConfiguration_fields_eval
  by (rule describesI) code_simp

lemma gdt_cct_QosTiersOverride_fields_describes: "describes gdt_cct_QosTiersOverride_fields gdt_cct_QosTiersOverride
     [''qos_tier_configuration'', ''qos_tier_fingerprint'']"
  unfolding gdt_cct_QosTiersOverride_fields_eval
  by (rule describesI) code_simp

lemma gdt_cct_LogResponse_fields_describes: "describes gdt_cct_LogResponse_fields gdt_cct_LogResponse
     [''next_request_wait_millis'', ''qos_tier'']"
  unfolding gdt_cct_LogResponse_fields_eval
  by (rule describesI) code_simp

end
