(* ===== verification/Firebasecore_Messages.thy ===== *)
theory Firebasecore_Messages
  imports Pb_Layout
begin

text \<open>
  The message type of Core Diagnostics, \<open>FIRCDLibrary/Protogen/nanopb/firebasecore.nanopb.h\<close> and
  \<open>firebasecore.nanopb.c\<close>: enumerations, the C struct and the field descriptors.
\<close>

section \<open>Enumerations\<close>

datatype logs_proto_mobilesdk_ios_ICoreConfiguration_ConfigurationType =
  logs_proto_mobilesdk_ios_ICoreConfiguration_ConfigurationType_UNKNOWN_CONFIGURATION_TYPE
| logs_proto_mobilesdk_ios_ICoreConfiguration_ConfigurationType_CORE
| logs_proto_mobilesdk_ios_ICoreConfiguration_ConfigurationType_SDK

fun logs_proto_mobilesdk_ios_ICoreConfiguration_ConfigurationType_value :: "logs_proto_mobilesdk_ios_ICoreConfiguration_ConfigurationType \<Rightarrow> int" where
  "logs_proto_mobilesdk_ios_ICoreConfiguration_ConfigurationType_value logs_proto_mobilesdk_ios_ICoreConfiguration_ConfigurationType_UNKNOWN_CONFIGURATION_TYPE = 0"
| "logs_proto_mobilesdk_ios_ICoreConfiguration_ConfigurationType_value logs_proto_mobilesdk_ios_ICoreConfiguration_ConfigurationType_CORE = 1"
| "logs_proto_mobilesdk_ios_ICoreConfiguration_ConfigurationType_value logs_proto_mobilesdk_ios_ICoreConfiguration_ConfigurationType_SDK = 2"

datatype logs_proto_mobilesdk_ios_ICoreConfiguration_BuildType =
  logs_proto_mobilesdk_ios_ICoreConfiguration_BuildType_UNKNOWN_BUILD_TYPE
| logs_proto_mobilesdk_ios_ICoreConfiguration_BuildType_INTERNAL
| logs_proto_mobilesdk_ios_ICoreConfiguration_BuildType_EAP
| logs_proto_mobilesdk_ios_ICoreConfiguration_BuildType_PROD

fun logs_proto_mobilesdk_ios_ICoreConfiguration_BuildType_value :: "logs_proto_mobilesdk_ios_ICoreConfiguration_BuildType \<Rightarrow> int" where
  "logs_proto_mobilesdk_ios_ICoreConfiguration_BuildType_value logs_proto_mobilesdk_ios_ICoreConfiguration_BuildType_UNKNOWN_BUILD_TYPE = 0"
| "logs_proto_mobilesdk_ios_ICoreConfiguration_BuildType_value logs_proto_mobilesdk_ios_ICoreConfiguration_BuildType_INTERNAL = 1"
| "logs_proto_mobilesdk_ios_ICoreConfiguration_BuildType_value logs_proto_mobilesdk_ios_ICoreConfiguration_BuildType_EAP = 2"
| "logs_proto_mobilesdk_ios_ICoreConfiguration_BuildType_value logs_proto_mobilesdk_ios_ICoreConfiguration_BuildType_PROD = 3"

datatype logs_proto_mobilesdk_ios_ICoreConfiguration_ServiceType =
  logs_proto_mobilesdk_ios_ICoreConfiguration_ServiceType_UNKNOWN_SDK_SERVICE
| logs_proto_mobilesdk_ios_ICoreConfiguration_ServiceType_ICORE
| logs_proto_mobilesdk_ios_ICoreConfiguration_ServiceType_ADMOB
| logs_proto_mobilesdk_ios_ICoreConfiguration_ServiceType_APP_INVITE
| logs_proto_mobilesdk_ios_ICoreConfiguration_ServiceType_SIGN_IN
| logs_proto_mobilesdk_ios_ICoreConfiguration_ServiceType_GCM
| logs_proto_mobilesdk_ios_ICoreConfiguration_ServiceType_MAPS
| logs_proto_mobilesdk_ios_ICoreConfiguration_ServiceType_SCION
| logs_proto_mobilesdk_ios_ICoreConfiguration_ServiceType_ANALYTICS
| logs_proto_mobilesdk_ios_ICoreConfiguration_ServiceType_APP_INDEXING
| logs_proto_mobilesdk_ios_ICoreConfiguration_ServiceType_CONFIG
| logs_proto_mobilesdk_ios_ICoreConfiguration_ServiceType_DURABLE_DEEP_LINKS
| logs_proto_mobilesdk_ios_ICoreConfiguration_ServiceType_CRASH
| logs_proto_mobilesdk_ios_ICoreConfiguration_ServiceType_AUTH
| logs_proto_mobilesdk_ios_ICoreConfiguration_ServiceType_DATABASE
| logs_proto_mobilesdk_ios_ICoreConfiguration_ServiceType_STORAGE
| logs_proto_mobilesdk_ios_ICoreConfiguration_ServiceType_MESSAGING
| logs_proto_mobilesdk_ios_ICoreConfiguration_ServiceType_MEASUREMENT
| logs_proto_mobilesdk_ios_ICoreConfiguration_ServiceType_REMOTE_CONFIG
| logs_proto_mobilesdk_ios_ICoreConfiguration_ServiceType_DYNAMIC_LINKS
| logs_proto_mobilesdk_ios_ICoreConfiguration_ServiceType_INVITES
| logs_proto_mobilesdk_ios_ICoreConfiguration_ServiceType_AUTH_UI
| logs_proto_mobilesdk_ios_ICoreConfiguration_ServiceType_FIRESTORE
| logs_proto_mobilesdk_ios_ICoreConfiguration_ServiceType_PERFORMANCE
| logs_proto_mobilesdk_ios_ICoreConfiguration_ServiceType_ML_VISION_ON_DEVICE_FACE
| logs_proto_mobilesdk_ios_ICoreConfiguration_ServiceType_ML_VISION_ON_DEVICE_BARCODE
| logs_proto_mobilesdk_ios_ICoreConfiguration_ServiceType_ML_VISION_ON_DEVICE_TEXT
| logs_proto_mobilesdk_ios_ICoreConfiguration_ServiceType_ML_VISION_ON_DEVICE_LABEL
| logs_proto_mobilesdk_ios_ICoreConfiguration_ServiceType_ML_MODEL_INTERPRETER
| logs_proto_mobilesdk_ios_ICoreConfiguration_ServiceType_IN_APP_MESSAGING
| logs_proto_mobilesdk_ios_ICoreConfiguration_ServiceType_FUNCTIONS
| logs_proto_mobilesdk_ios_ICoreConfiguration_ServiceType_ML_NATURAL_LANGUAGE
| logs_proto_mobilesdk_ios_ICoreConfiguration_ServiceType_ML_VISION_ON_DEVICE_AUTOML
| logs_proto_mobilesdk_ios_ICoreConfiguration_ServiceType_ML_VISION_ON_DEVICE_OBJECT_DETECTION

fun logs_proto_mobilesdk_ios_ICoreConfiguration_ServiceType_value :: "logs_proto_mobilesdk_ios_ICoreConfiguration_ServiceType \<Rightarrow> int" where
  "logs_proto_mobilesdk_ios_ICoreConfiguration_ServiceType_value logs_proto_mobilesdk_ios_ICoreConfiguration_ServiceType_UNKNOWN_SDK_SERVICE = 0"
| "logs_proto_mobilesdk_ios_ICoreConfiguration_ServiceType_value logs_proto_mobilesdk_ios_ICoreConfiguration_ServiceType_ICORE = 1"
| "logs_proto_mobilesdk_ios_ICoreConfiguration_ServiceType_value logs_proto_mobilesdk_ios_ICoreConfiguration_ServiceType_ADMOB = 2"
| "logs_proto_mobilesdk_ios_ICoreConfiguration_ServiceType_value logs_proto_mobilesdk_ios_ICoreConfiguration_ServiceType_APP_INVITE = 3"
| "logs_proto_mobilesdk_ios_ICoreConfiguration_ServiceType_value logs_proto_mobilesdk_ios_ICoreConfiguration_ServiceType_SIGN_IN = 5"
| "logs_proto_mobilesdk_ios_ICoreConfiguration_ServiceType_value logs_proto_mobilesdk_ios_ICoreConfiguration_ServiceType_GCM = 6"
| "logs_proto_mobilesdk_ios_ICoreConfiguration_ServiceType_value logs_proto_mobilesdk_ios_ICoreConfiguration_ServiceType_MAPS = 7"
| "logs_proto_mobilesdk_ios_ICoreConfiguration_ServiceType_value logs_proto_mobilesdk_ios_ICoreConfiguration_ServiceType_SCION = 8"
| "logs_proto_mobilesdk_ios_ICoreConfiguration_ServiceType_value logs_proto_mobilesdk_ios_ICoreConfiguration_ServiceType_ANALYTICS = 9"
| "logs_proto_mobilesdk_ios_ICoreConfiguration_ServiceType_value logs_proto_mobilesdk_ios_ICoreConfiguration_ServiceType_APP_INDEXING = 10"
| "logs_proto_mobilesdk_ios_ICoreConfiguration_ServiceType_value logs_proto_mobilesdk_ios_ICoreConfiguration_ServiceType_CONFIG = 11"
| "logs_proto_mobilesdk_ios_ICoreConfiguration_ServiceType_value logs_proto_mobilesdk_ios_ICoreConfiguration_ServiceType_DURABLE_DEEP_LINKS = 12"
| "logs_proto_mobilesdk_ios_ICoreConfiguration_ServiceType_value logs_proto_mobilesdk_ios_ICoreConfiguration_ServiceType_CRASH = 13"
| "logs_proto_mobilesdk_ios_ICoreConfiguration_ServiceType_value logs_proto_mobilesdk_ios_ICoreConfiguration_ServiceType_AUTH = 14"
| "logs_proto_mobilesdk_ios_ICoreConfiguration_ServiceType_value logs_proto_mobilesdk_ios_ICoreConfiguration_ServiceType_DATABASE = 15"
| "logs_proto_mobilesdk_ios_ICoreConfiguration_ServiceType_value logs_proto_mobilesdk_ios_ICoreConfiguration_ServiceType_STORAGE = 16"
| "logs_proto_mobilesdk_ios_ICoreConfiguration_ServiceType_value logs_proto_mobilesdk_ios_ICoreConfiguration_ServiceType_MESSAGING = 17"
| "logs_proto_mobilesdk_ios_ICoreConfiguration_ServiceType_value logs_proto_mobilesdk_ios_ICoreConfiguration_ServiceType_MEASUREMENT = 18"
| "logs_proto_mobilesdk_ios_ICoreConfiguration_ServiceType_value logs_proto_mobilesdk_ios_ICoreConfiguration_ServiceType_REMOTE_CONFIG = 19"
| "logs_proto_mobilesdk_ios_ICoreConfiguration_ServiceType_value logs_proto_mobilesdk_ios_ICoreConfiguration_ServiceType_DYNAMIC_LINKS = 20"
| "logs_proto_mobilesdk_ios_ICoreConfiguration_ServiceType_value logs_proto_mobilesdk_ios_ICoreConfiguration_ServiceType_INVITES = 21"
| "logs_proto_mobilesdk_ios_ICoreConfiguration_ServiceType_value logs_proto_mobilesdk_ios_ICoreConfiguration_ServiceType_AUTH_UI = 22"
| "logs_proto_mobilesdk_ios_ICoreConfiguration_ServiceType_value logs_proto_mobilesdk_ios_ICoreConfiguration_ServiceType_FIRESTORE = 23"
| "logs_proto_mobilesdk_ios_ICoreConfiguration_ServiceType_value logs_proto_mobilesdk_ios_ICoreConfiguration_ServiceType_PERFORMANCE = 24"
| "logs_proto_mobilesdk_ios_ICoreConfiguration_ServiceType_value logs_proto_mobilesdk_ios_ICoreConfiguration_ServiceType_ML_VISION_ON_DEVICE_FACE = 26"
| "logs_proto_mobilesdk_ios_ICoreConfiguration_ServiceType_value logs_proto_mobilesdk_ios_ICoreConfiguration_ServiceType_ML_VISION_ON_DEVICE_BARCODE = 27"
| "logs_proto_mobilesdk_ios_ICoreConfiguration_ServiceType_value logs_proto_mobilesdk_ios_ICoreConfiguration_ServiceType_ML_VISION_ON_DEVICE_TEXT = 28"
| "logs_proto_mobilesdk_ios_ICoreConfiguration_ServiceType_value logs_proto_mobilesdk_ios_ICoreConfiguration_ServiceType_ML_VISION_ON_DEVICE_LABEL = 29"
| "logs_proto_mobilesdk_ios_ICoreConfiguration_ServiceType_value logs_proto_mobilesdk_ios_ICoreConfiguration_ServiceType_ML_MODEL_INTERPRETER = 30"
| "logs_proto_mobilesdk_ios_ICoreConfiguration_ServiceType_value logs_proto_mobilesdk_ios_ICoreConfiguration_ServiceType_IN_APP_MESSAGING = 31"
| "logs_proto_mobilesdk_ios_ICoreConfiguration_ServiceType_value logs_proto_mobilesdk_ios_ICoreConfiguration_ServiceType_FUNCTIONS = 32"
| "logs_proto_mobilesdk_ios_ICoreConfiguration_ServiceType_value logs_proto_mobilesdk_ios_ICoreConfiguration_ServiceType_ML_NATURAL_LANGUAGE = 33"
| "logs_proto_mobilesdk_ios_ICoreConfiguration_ServiceType_value logs_proto_mobilesdk_ios_ICoreConfiguration_ServiceType_ML_VISION_ON_DEVICE_AUTOML = 34"
| "logs_proto_mobilesdk_ios_ICoreConfiguration_ServiceType_value logs_proto_mobilesdk_ios_ICoreConfiguration_ServiceType_ML_VISION_ON_DEVICE_OBJECT_DETECTION = 35"

datatype logs_proto_mobilesdk_ios_ICoreConfiguration_PodName =
  logs_proto_mobilesdk_ios_ICoreConfiguration_PodName_UNKNOWN_POD_NAME
| logs_proto_mobilesdk_ios_ICoreConfiguration_PodName_GOOGLE
| logs_proto_mobilesdk_ios_ICoreConfiguration_PodName_FIREBASE

fun logs_proto_mobilesdk_ios_ICoreConfiguration_PodName_value :: "logs_proto_mobilesdk_ios_ICoreConfiguration_PodName \<Rightarrow> int" where
  "logs_proto_mobilesdk_ios_ICoreConfiguration_PodName_value logs_proto_mobilesdk_ios_ICoreConfiguration_PodName_UNKNOWN_POD_NAME = 0"
| "logs_proto_mobilesdk_ios_ICoreConfiguration_PodName_value logs_proto_mobilesdk_ios_ICoreConfiguration_PodName_GOOGLE = 1"
| "logs_proto_mobilesdk_ios_ICoreConfiguration_PodName_value logs_proto_mobilesdk_ios_ICoreConfiguration_PodName_FIREBASE = 2"

datatype logs_proto_mobilesdk_ios_ICoreConfiguration_DeploymentType =
  logs_proto_mobilesdk_ios_ICoreConfiguration_DeploymentType_UNKNOWN
| logs_proto_mobilesdk_ios_ICoreConfiguration_DeploymentType_COCOAPODS
| logs_proto_mobilesdk_ios_ICoreConfiguration_DeploymentType_ZIP_FILE
| logs_proto_mobilesdk_ios_ICoreConfiguration_DeploymentType_CARTHAGE
| logs_proto_mobilesdk_ios_ICoreConfiguration_DeploymentType_SPM

fun logs_proto_mobilesdk_ios_ICoreConfiguration_DeploymentType_value :: "logs_proto_mobilesdk_ios_ICoreConfiguration_DeploymentType \<Rightarrow> int" where
  "logs_proto_mobilesdk_ios_ICoreConfiguration_DeploymentType_value logs_proto_mobilesdk_ios_ICoreConfiguration_DeploymentType_UNKNOWN = 0"
| "logs_proto_mobilesdk_ios_ICoreConfiguration_DeploymentType_value logs_proto_mobilesdk_ios_ICoreConfiguration_DeploymentType_COCOAPODS = 1"
| "logs_proto_mobilesdk_ios_ICoreConfiguration_DeploymentType_value logs_proto_mobilesdk_ios_ICoreConfiguration_DeploymentType_ZIP_FILE = 2"
| "logs_proto_mobilesdk_ios_ICoreConfiguration_DeploymentType_value logs_proto_mobilesdk_ios_ICoreConfiguration_DeploymentType_CARTHAGE = 3"
| "logs_proto_mobilesdk_ios_ICoreConfiguration_DeploymentType_value logs_proto_mobilesdk_ios_ICoreConfiguration_DeploymentType_SPM = 4"

section \<open>Structs\<close>

definition logs_proto_mobilesdk_ios_ICoreConfiguration :: cstruct where
  "logs_proto_mobilesdk_ios_ICoreConfiguration =
     [c_bool ''has_configuration_type'',
      c_enum ''configuration_type'',
      c_pb_size ''sdk_service_installed_count'',
      c_pointer ''sdk_service_installed'' 4,
      c_pointer ''device_model'' pb_bytes_array_sizeof,
      c_pointer ''app_id'' pb_bytes_array_sizeof,
      c_pointer ''bundle_id'' pb_bytes_array_sizeof,
      c_bool ''has_pod_name'',
      c_enum ''pod_name'',
      c_pointer ''icore_version'' pb_bytes_array_sizeof,
      c_pointer ''sdk_version'' pb_bytes_array_sizeof,
      c_bool ''has_sdk_name'',
      c_enum ''sdk_name'',
      c_bool ''has_app_count'',
      c_int32 ''app_count'',
      c_pointer ''os_version'' pb_bytes_array_sizeof,
      c_pointer ''min_supported_ios_version'' pb_bytes_array_sizeof,
      c_bool ''has_use_default_app'',
      c_bool ''use_default_app'',
      c_bool ''has_deployed_in_app_store'',
      c_bool ''deployed_in_app_store'',
      c_bool ''has_dynamic_framework_count'',
      c_int32 ''dynamic_framework_count'',
      c_pointer ''apple_framework_version'' pb_bytes_array_sizeof,
      c_bool ''has_using_zip_file'',
      c_bool ''using_zip_file'',
      c_bool ''has_deployment_type'',
      c_enum ''deployment_type'',
      c_pointer ''platform_info'' pb_bytes_array_sizeof,
      c_bool ''has_swizzling_enabled'',
      c_bool ''swizzling_enabled'',
      c_bool ''has_using_gdt'',
      c_bool ''using_gdt'']"

section \<open>Field descriptors\<close>

definition logs_proto_mobilesdk_ios_ICoreConfiguration_fields :: "pb_field list" where
  "logs_proto_mobilesdk_ios_ICoreConfiguration_fields =
     [PB_FIELD 1 UENUM OPTIONAL STATIC FIRST logs_proto_mobilesdk_ios_ICoreConfiguration ''configuration_type'' ''configuration_type'' Null,
      PB_FIELD 7 UENUM REPEATED POINTER OTHER logs_proto_mobilesdk_ios_ICoreConfiguration ''sdk_service_installed'' ''configuration_type'' Null,
      PB_FIELD 9 BYTES OPTIONAL POINTER OTHER logs_proto_mobilesdk_ios_ICoreConfiguration ''device_model'' ''sdk_service_installed'' Null,
      PB_FIELD 10 BYTES OPTIONAL POINTER OTHER logs_proto_mobilesdk_ios_ICoreConfiguration ''app_id'' ''device_model'' Null,
      PB_FIELD 12 BYTES OPTIONAL POINTER OTHER logs_proto_mobilesdk_ios_ICoreConfiguration ''bundle_id'' ''app_id'' Null,
      PB_FIELD 16 UENUM OPTIONAL STATIC OTHER logs_proto_mobilesdk_ios_ICoreConfiguration ''pod_name'' ''bundle_id'' Null,
      PB_FIELD 18 BYTES OPTIONAL POINTER OTHER logs_proto_mobilesdk_ios_ICoreConfiguration ''icore_version'' ''pod_name'' Null,
      PB_FIELD 19 BYTES OPTIONAL POINTER OTHER logs_proto_mobilesdk_ios_ICoreConfiguration ''sdk_version'' ''icore_version'' Null,
      PB_FIELD 20 UENUM OPTIONAL STATIC OTHER logs_proto_mobilesdk_ios_ICoreConfiguration ''sdk_name'' ''sdk_version'' Null,
      PB_FIELD 21 INT32 OPTIONAL STATIC OTHER logs_proto_mobilesdk_ios_ICoreConfiguration ''app_count'' ''sdk_name'' Null,
      PB_FIELD 22 BYTES OPTIONAL POINTER OTHER logs_proto_mobilesdk_ios_ICoreConfiguration ''os_version'' ''app_count'' Null,
      PB_FIELD 24 BYTES OPTIONAL POINTER OTHER logs_proto_mobilesdk_ios_ICoreConfiguration ''min_supported_ios_version'' ''os_version'' Null,
      PB_FIELD 25 BOOL OPTIONAL STATIC OTHER logs_proto_mobilesdk_ios_ICoreConfiguration ''use_default_app'' ''min_supported_ios_version'' Null,
      PB_FIELD 26 BOOL OPTIONAL STATIC OTHER logs_proto_mobilesdk_ios_ICoreConfiguration ''deployed_in_app_store'' ''use_default_app'' Null,
      PB_FIELD 27 INT32 OPTIONAL STATIC OTHER logs_proto_mobilesdk_ios_ICoreConfiguration ''dynamic_framework_count'' ''deployed_in_app_store'' Null,
      PB_FIELD 28 BYTES OPTIONAL POINTER OTHER logs_proto_mobilesdk_ios_ICoreConfiguration ''apple_framework_version'' ''dynamic_framework_count'' Null,
      PB_FIELD 29 BOOL OPTIONAL STATIC OTHER logs_proto_mobilesdk_ios_ICoreConfiguration ''using_zip_file'' ''apple_framework_version'' Null,
      PB_FIELD 30 UENUM OPTIONAL STATIC OTHER logs_proto_mobilesdk_ios_ICoreConfiguration ''deployment_type'' ''using_zip_file'' Null,
      PB_FIELD 31 BYTES OPTIONAL POINTER OTHER logs_proto_mobilesdk_ios_ICoreConfiguration ''platform_info'' ''deployment_type'' Null,
      PB_FIELD 33 BOOL OPTIONAL STATIC OTHER logs_proto_mobilesdk_ios_ICoreConfiguration ''swizzling_enabled'' ''platform_info'' Null,
      PB_FIELD 36 BOOL OPTIONAL STATIC OTHER logs_proto_mobilesdk_ios_ICoreConfiguration ''using_gdt'' ''swizzling_enabled'' Null,
      PB_LAST_FIELD]"

lemmas icore_struct_defs = logs_proto_mobilesdk_ios_ICoreConfiguration_def

lemmas icore_fields_defs = logs_proto_mobilesdk_ios_ICoreConfiguration_fields_def

section \<open>The descriptors, evaluated\<close>

lemma logs_proto_mobilesdk_ios_ICoreConfiguration_fields_eval:
  "logs_proto_mobilesdk_ios_ICoreConfiguration_fields =
     [PbField 1 0x12 4 (-4) 4 0 Null,
      PbField 7 0xA2 8 (-8) 4 0 Null,
      PbField 9 0x96 0 0 8 0 Null,
      PbField 10 0x96 0 0 8 0 Null,
      PbField 12 0x96 0 0 8 0 Null,
      PbField 16 0x12 4 (-4) 4 0 Null,
      PbField 18 0x96 0 0 8 0 Null,
      PbField 19 0x96 0 0 8 0 Null,
      PbField 20 0x12 4 (-4) 4 0 Null,
      PbField 21 0x11 4 (-4) 4 0 Null,
      PbField 22 0x96 0 0 8 0 Null,
      PbField 24 0x96 0 0 8 0 Null,
      PbField 25 0x10 1 (-1) 1 0 Null,
      PbField 26 0x10 1 (-1) 1 0 Null,
      PbField 27 0x11 4 (-4) 4 0 Null,
      PbField 28 0x96 4 0 8 0 Null,
      PbField 29 0x10 1 (-1) 1 0 Null,
      PbField 30 0x12 2 (-2) 4 0 Null,
      PbField 31 0x96 0 0 8 0 Null,
      PbField 33 0x10 1 (-1) 1 0 Null,
      PbField 36 0x10 1 (-1) 1 0 Null,
      PbField 0 0 0 0 0 0 Null]"
  by code_simp

lemmas icore_eval = logs_proto_mobilesdk_ios_ICoreConfiguration_fields_eval

text \<open>Every descriptor array finds the members of its struct.\<close>

lemma logs_proto_mobilesdk_ios_ICoreConfiguration_fields_describes: "describes logs_proto_mobilesdk_ios_ICoreConfiguration_fields logs_proto_mobilesdk_ios_ICoreConfiguration
     [''configuration_type'', ''sdk_service_installed'', ''device_model'', ''app_id'', ''bundle_id'', ''pod_name'', ''icore_version'', ''sdk_version'', ''sdk_name'', ''app_count'', ''os_version'', ''min_supported_ios_version'', ''use_default_app'', ''deployed_in_app_store'', ''dynamic_framework_count'', ''apple_framework_version'', ''using_zip_file'', ''deployment_type'', ''platform_info'', ''swizzling_enabled'', ''using_gdt'']"
  unfolding logs_proto_mobilesdk_ios_ICoreConfiguration_fields_eval
  by (rule describesI) code_simp

end
