(* ===== verification/Fbase64.thy ===== *)
theory Fbase64
  imports Prelude
begin

unbundle bit_operations_syntax

text \<open>
  Base 64 coding of \<open>FirebaseDatabase/.../SocketRocket/fbase64.c\<close>: \<open>f_b64_ntop\<close> from bytes to text,
  \<open>f_b64_pton\<close> back. Shown here: the encoder writes inside its buffer and the length of its output,
  the decoder never changes a byte outside the target, and decoding what was encoded gives the
  original bytes.
\<close>

section \<open>The alphabet\<close>

definition Base64 :: "byte list" where
  "Base64 = map of_char ''ABCDEFGHIJKLMNOPQRSTUVWXYZabcdefghijklmnopqrstuvwxyz0123456789+/''"

definition Pad64 :: byte where
  "Pad64 = of_char (CHR ''='')"

text \<open>\<open>isspace\<close> in the C locale: tab, line feed, vertical tab, form feed, carriage return, space.\<close>

definition c_isspace :: "byte \<Rightarrow> bool" where
  "c_isspace ch \<longleftrightarrow> ch \<in> {0x09, 0x0A, 0x0B, 0x0C, 0x0D, 0x20}"

text \<open>\<open>strchr(Base64, ch) - Base64\<close>, for a character that is not the terminator.\<close>

fun strchr_from :: "nat \<Rightarrow> byte list \<Rightarrow> byte \<Rightarrow> nat option" where
  "strchr_from i [] ch = None"
| "strchr_from i (x # xs) ch = (if x = ch then Some i else strchr_from (Suc i) xs ch)"

definition strchr_pos :: "byte \<Rightarrow> nat option" where
  "strchr_pos ch = strchr_from 0 Base64 ch"

definition b64 :: "byte \<Rightarrow> byte" where
  "b64 output = Base64 ! unat output"

section \<open>\<open>f_b64_ntop\<close>\<close>

text \<open>The four sextets of an input group.\<close>

definition sextet0 :: "byte \<Rightarrow> byte" where
  "sextet0 a = drop_bit 2 a"

definition sextet1 :: "byte \<Rightarrow> byte \<Rightarrow> byte" where
  "sextet1 a b = push_bit 4 (a AND 0x03) + drop_bit 4 b"

definition sextet2 :: "byte \<Rightarrow> byte \<Rightarrow> byte" where
  "sextet2 b c = push_bit 2 (b AND 0x0F) + drop_bit 6 c"

definition sextet3 :: "byte \<Rightarrow> byte" where
  "sextet3 c = c AND 0x3F"

text \<open>The loop over complete groups. \<open>out\<close> is what has been stored in \<open>target\<close>, \<open>datalength\<close> its
  length; \<open>None\<close> is the return of \<open>-1\<close>, otherwise the input that is left.\<close>

fun ntop_loop :: "nat \<Rightarrow> byte list \<Rightarrow> byte list \<Rightarrow> byte list option \<times> byte list" where
  "ntop_loop targsize (a # b # c # src) out =
     (if length out + 4 > targsize then (None, out)
      else ntop_loop targsize src
        (out @ [b64 (sextet0 a), b64 (sextet1 a b), b64 (sextet2 b c), b64 (sextet3 c)]))"
| "ntop_loop targsize src out = (Some src, out)"

text \<open>The last, incomplete group.\<close>

definition ntop_padding :: "nat \<Rightarrow> byte list \<Rightarrow> byte list \<Rightarrow> bool \<times> byte list" where
  "ntop_padding targsize src out =
     (if src = [] then (True, out)
      else
        let a = src ! 0; b = (if length src = 1 then 0 else src ! 1); c = 0 in
        if length out + 4 > targsize then (False, out)
        else (True, out @ [b64 (sextet0 a), b64 (sextet1 a b),
                           if length src = 1 then Pad64 else b64 (sextet2 b c), Pad64]))"

text \<open>The return value, an \<open>int\<close>, and the bytes stored in \<open>target\<close>.\<close>

definition f_b64_ntop :: "byte list \<Rightarrow> nat \<Rightarrow> int \<times> byte list" where
  "f_b64_ntop src targsize =
     (case ntop_loop targsize src [] of
        (None, out) \<Rightarrow> (-1, out)
      | (Some rest, out) \<Rightarrow>
          (case ntop_padding targsize rest out of (ok, out) \<Rightarrow>
             if \<not> ok then (-1, out)
             else if length out \<ge> targsize then (-1, out)
             else (sint (word_of_nat (length out) :: u32), out @ [0])))"

section \<open>\<open>f_b64_pton\<close>\<close>

text \<open>\<open>tarindex\<close> is an \<open>unsigned int\<close>. \<open>target\<close> may be the null pointer.\<close>

record pton_state =
  state :: nat
  tarindex :: nat
  target :: "byte list option"

definition uint_inc :: "nat \<Rightarrow> nat" where
  "uint_inc n = (n + 1) mod 2 ^ 32"

text \<open>\<open>target[i] = v\<close> and \<open>target[i] |= v\<close>.\<close>

definition tset :: "nat \<Rightarrow> byte \<Rightarrow> byte list \<Rightarrow> byte list" where
  "tset i v t = t[i := v]"

definition tor :: "nat \<Rightarrow> byte \<Rightarrow> byte list \<Rightarrow> byte list" where
  "tor i v t = t[i := (t ! i) OR v]"

text \<open>One character of the alphabet, at position \<open>pos\<close> of it; \<open>None\<close> is the return of \<open>-1\<close>.\<close>

definition pton_char :: "nat \<Rightarrow> nat \<Rightarrow> pton_state \<Rightarrow> pton_state option" where
  "pton_char targsize pos st =
     (let p = word_of_nat pos :: byte; i = tarindex st in
      if state st = 0 then
        (if target st \<noteq> None \<and> i \<ge> targsize then None
         else Some (st\<lparr>target := map_option (tset i (push_bit 2 p)) (target st), state := 1\<rparr>))
      else if state st = 1 then
        (if target st \<noteq> None \<and> uint_inc i \<ge> targsize then None
         else Some (st\<lparr>target := map_option (\<lambda>t. tset (uint_inc i) (push_bit 4 (p AND 0x0F)) (tor i (drop_bit 4 p) t)) (target st),
                       tarindex := uint_inc i, state := 2\<rparr>))
      else if state st = 2 then
        (if target st \<noteq> None \<and> uint_inc i \<ge> targsize then None
         else Some (st\<lparr>target := map_option (\<lambda>t. tset (uint_inc i) (push_bit 6 (p AND 0x03)) (tor i (drop_bit 2 p) t)) (target st),
                       tarindex := uint_inc i, state := 3\<rparr>))
      else
        (if target st \<noteq> None \<and> i \<ge> targsize then None
         else Some (st\<lparr>target := map_option (tor i p) (target st), tarindex := uint_inc i, state := 0\<rparr>)))"

text \<open>The main loop over the string (its terminator is the end of the list). It ends at the
  terminator or at a pad character with that character and the rest of the string, or with \<open>-1\<close>.\<close>

fun pton_loop :: "nat \<Rightarrow> byte list \<Rightarrow> pton_state \<Rightarrow> (byte \<times> byte list) option \<times> pton_state" where
  "pton_loop targsize [] st = (Some (0, []), st)"
| "pton_loop targsize (ch # src) st =
     (if ch = 0 then (Some (0, src), st)
      else if c_isspace ch then pton_loop targsize src st
      else if ch = Pad64 then (Some (Pad64, src), st)
      else case strchr_pos ch of
        None \<Rightarrow> (None, st)
      | Some pos \<Rightarrow>
          (case pton_char targsize pos st of
             None \<Rightarrow> (None, st)
           | Some st' \<Rightarrow> pton_loop targsize src st'))"

text \<open>\<open>ch = *src++\<close>.\<close>

fun next_char :: "byte list \<Rightarrow> byte \<times> byte list" where
  "next_char [] = (0, [])"
| "next_char (ch # src) = (ch, src)"

text \<open>\<open>for (; ch != '\0'; ch = *src++) if (!isspace(ch)) break;\<close> gives the character it stops at.\<close>

fun skip_spaces :: "byte \<Rightarrow> byte list \<Rightarrow> byte \<times> byte list" where
  "skip_spaces ch [] = (if ch = 0 \<or> \<not> c_isspace ch then (ch, []) else (0, []))"
| "skip_spaces ch (c # src) = (if ch = 0 \<or> \<not> c_isspace ch then (ch, c # src) else skip_spaces c src)"

text \<open>The checks after the case of a single trailing pad character.\<close>

definition pton_tail :: "byte \<Rightarrow> byte list \<Rightarrow> pton_state \<Rightarrow> bool" where
  "pton_tail ch src st =
     (fst (skip_spaces ch src) = 0 \<and>
      (case target st of None \<Rightarrow> True | Some t \<Rightarrow> t ! tarindex st = 0))"

definition pton_trailer :: "byte \<Rightarrow> byte list \<Rightarrow> pton_state \<Rightarrow> bool" where
  "pton_trailer ch src st =
     (if ch = Pad64 then
        (case next_char src of (ch1, src1) \<Rightarrow>
           if state st = 0 \<or> state st = 1 then False
           else if state st = 2 then
             (case skip_spaces ch1 src1 of (ch2, src2) \<Rightarrow>
                if ch2 \<noteq> Pad64 then False
                else (case next_char src2 of (ch3, src3) \<Rightarrow> pton_tail ch3 src3 st))
           else pton_tail ch1 src1 st)
      else state st = 0)"

definition f_b64_pton :: "byte list \<Rightarrow> byte list option \<Rightarrow> nat \<Rightarrow> int \<times> byte list option" where
  "f_b64_pton src tgt targsize =
     (case pton_loop targsize src \<lparr>state = 0, tarindex = 0, target = tgt\<rparr> of
        (None, st) \<Rightarrow> (-1, target st)
      | (Some (ch, rest), st) \<Rightarrow>
          if pton_trailer ch rest st then (sint (word_of_nat (tarindex st) :: u32), target st)
          else (-1, target st))"

section \<open>The alphabet is a bijection\<close>

lemma strchr_from_nth:
  "distinct xs \<Longrightarrow> i < length xs \<Longrightarrow> strchr_from k xs (xs ! i) = Some (k + i)"
proof (induction xs arbitrary: i k)
  case Nil
  then show ?case by simp
next
  case (Cons x xs)
  then show ?case by (cases i) (auto simp: in_set_conv_nth)
qed

lemma Base64_length: "length Base64 = 64"
  by (simp add: Base64_def)

lemma Base64_distinct: "distinct Base64"
  by code_simp

lemma Base64_plain: "list_all (\<lambda>c. c \<noteq> 0 \<and> \<not> c_isspace c \<and> c \<noteq> Pad64) Base64"
  by code_simp

lemma strchr_pos_b64: "unat s < 64 \<Longrightarrow> strchr_pos (b64 s) = Some (unat s)"
  using strchr_from_nth [OF Base64_distinct, of "unat s" 0] by (simp add: strchr_pos_def b64_def Base64_length)

lemma b64_plain: "unat s < 64 \<Longrightarrow> b64 s \<noteq> 0 \<and> \<not> c_isspace (b64 s) \<and> b64 s \<noteq> Pad64"
  using Base64_plain by (simp add: b64_def list_all_length Base64_length)

section \<open>Groups\<close>

lemma byte_masks:
  "x AND 0x03 = take_bit 2 x" "x AND 0x0F = take_bit 4 x" "x AND 0x3F = take_bit 6 x" for x :: byte
  by (simp_all add: take_bit_eq_mask mask_numeral)

lemma bit_byte_less: "bit x n \<Longrightarrow> n < 8" for x :: byte
  using bit_imp_le_length [of x n] by simp

lemmas byte_bits = bit_or_iff bit_and_iff bit_push_bit_iff bit_drop_bit_eq bit_take_bit_iff comp_def byte_masks

lemma sextet1_or: "sextet1 a b = push_bit 4 (a AND 0x03) OR drop_bit 4 b"
proof -
  have "push_bit 4 (a AND 0x03) AND drop_bit 4 b = 0"
    by (rule bit_word_eqI) (simp only: byte_bits, auto dest: bit_byte_less)
  then show ?thesis
    using word_plus_and_or [of "push_bit 4 (a AND 0x03)" "drop_bit 4 b"] by (simp add: sextet1_def)
qed

lemma sextet2_or: "sextet2 b c = push_bit 2 (b AND 0x0F) OR drop_bit 6 c"
proof -
  have "push_bit 2 (b AND 0x0F) AND drop_bit 6 c = 0"
    by (rule bit_word_eqI) (simp only: byte_bits, auto dest: bit_byte_less)
  then show ?thesis
    using word_plus_and_or [of "push_bit 2 (b AND 0x0F)" "drop_bit 6 c"] by (simp add: sextet2_def)
qed

lemmas sextet_defs = sextet0_def sextet1_or sextet2_or sextet3_def

lemma byte_lt_64: "take_bit 6 x = x \<Longrightarrow> unat x < 64" for x :: byte
proof -
  assume "take_bit 6 x = x"
  then have "unat x = take_bit 6 (unat x)" by (metis unsigned_take_bit_eq)
  also have "\<dots> < 2 ^ 6" by (rule take_bit_nat_less_exp)
  finally show ?thesis by simp
qed

lemma sextets_less:
  "unat (sextet0 a) < 64" "unat (sextet1 a b) < 64" "unat (sextet2 b c) < 64" "unat (sextet3 c) < 64"
  by (rule byte_lt_64, rule bit_word_eqI, simp only: sextet_defs byte_bits, auto dest: bit_byte_less)+

lemma group_byte0: "push_bit 2 (sextet0 a) OR drop_bit 4 (sextet1 a b) = a"
proof (rule bit_word_eqI)
  fix n assume "n < LENGTH(8)"
  moreover have "Suc (Suc (n - 2)) = n" if "\<not> n < 2" using that by simp
  ultimately show "bit (push_bit 2 (sextet0 a) OR drop_bit 4 (sextet1 a b)) n = bit a n"
    by (cases "n < 2") (simp_all only: sextet_defs byte_bits, auto simp: Suc_diff_le dest: bit_byte_less)
qed

lemma group_byte1: "push_bit 4 (sextet1 a b AND 0x0F) OR drop_bit 2 (sextet2 b c) = b"
proof (rule bit_word_eqI)
  fix n assume "n < LENGTH(8)"
  then show "bit (push_bit 4 (sextet1 a b AND 0x0F) OR drop_bit 2 (sextet2 b c)) n = bit b n"
    by (cases "n < 4") (simp_all only: sextet_defs byte_bits, auto dest: bit_byte_less)
qed

lemma group_byte2: "push_bit 6 (sextet2 b c AND 0x03) OR sextet3 c = c"
proof (rule bit_word_eqI)
  fix n assume "n < LENGTH(8)"
  then show "bit (push_bit 6 (sextet2 b c AND 0x03) OR sextet3 c) n = bit c n"
    by (cases "n < 6") (simp_all only: sextet_defs byte_bits, auto dest: bit_byte_less)
qed

lemma group_padding:
  "push_bit 4 (sextet1 a 0 AND 0x0F) = 0" "push_bit 6 (sextet2 b 0 AND 0x03) = 0"
  by (rule bit_word_eqI, simp only: sextet_defs byte_bits, auto dest: bit_byte_less)+

section \<open>The encoder\<close>

text \<open>The text RFC 1521 assigns to a byte string.\<close>

fun b64_text :: "byte list \<Rightarrow> byte list" where
  "b64_text [] = []"
| "b64_text [a] = [b64 (sextet0 a), b64 (sextet1 a 0), Pad64, Pad64]"
| "b64_text [a, b] = [b64 (sextet0 a), b64 (sextet1 a b), b64 (sextet2 b 0), Pad64]"
| "b64_text (a # b # c # src) =
     [b64 (sextet0 a), b64 (sextet1 a b), b64 (sextet2 b c), b64 (sextet3 c)] @ b64_text src"

lemma length_b64_text: "length (b64_text src) = 4 * ((length src + 2) div 3)"
  by (induction src rule: b64_text.induct) (simp_all, presburger)

text \<open>The two phases of \<open>f_b64_ntop\<close>: either everything fits and is stored, or the result is an
  error and what is stored is within bounds.\<close>

lemma ntop_spec:
  "length out + length (b64_text src) \<le> targsize \<Longrightarrow>
     \<exists>rest out1. ntop_loop targsize src out = (Some rest, out1) \<and>
       ntop_padding targsize rest out1 = (True, out @ b64_text src)"
  by (induction targsize src out rule: ntop_loop.induct) (auto simp: ntop_padding_def)

lemma ntop_full:
  "targsize < length out + length (b64_text src) \<Longrightarrow> length out \<le> targsize \<Longrightarrow>
     (\<exists>out1. ntop_loop targsize src out = (None, out1) \<and> length out1 \<le> targsize) \<or>
     (\<exists>rest out1. ntop_loop targsize src out = (Some rest, out1) \<and>
        ntop_padding targsize rest out1 = (False, out1) \<and> length out1 \<le> targsize)"
  by (induction targsize src out rule: ntop_loop.induct) (auto simp: ntop_padding_def)

lemma ntop_result:
  "f_b64_ntop src targsize =
     (if length (b64_text src) < targsize
      then (sint (word_of_nat (length (b64_text src)) :: u32), b64_text src @ [0])
      else (-1, snd (f_b64_ntop src targsize)))"
  "length (snd (f_b64_ntop src targsize)) \<le> targsize"
  using ntop_spec [of "[]" src targsize] ntop_full [of targsize "[]" src]
  by (cases "length (b64_text src) \<le> targsize"; auto simp: f_b64_ntop_def)+

section \<open>The decoder\<close>

lemma pton_digit:
  "unat s < 64 \<Longrightarrow> pton_loop targsize (b64 s # src) st =
     (case pton_char targsize (unat s) st of
        None \<Rightarrow> (None, st) | Some st' \<Rightarrow> pton_loop targsize src st')"
  using b64_plain [of s] strchr_pos_b64 [of s] by simp

lemma uint_inc_small: "Suc n < 2 ^ 32 \<Longrightarrow> uint_inc n = Suc n"
  by (simp add: uint_inc_def)

text \<open>One complete group of four characters stores its three bytes.\<close>

lemma pton_group:
  assumes "i + 3 \<le> targsize" and "targsize \<le> length t" and "targsize < 2 ^ 32"
  shows "pton_loop targsize (b64 (sextet0 a) # b64 (sextet1 a b) # b64 (sextet2 b c) # b64 (sextet3 c) # src)
       \<lparr>state = 0, tarindex = i, target = Some t\<rparr> =
     pton_loop targsize src \<lparr>state = 0, tarindex = i + 3, target = Some (t[i := a, i + 1 := b, i + 2 := c])\<rparr>"
proof -
  have inc: "uint_inc i = Suc i" "uint_inc (Suc i) = Suc (Suc i)" "uint_inc (Suc (Suc i)) = Suc (Suc (Suc i))"
    using assms by (simp_all add: uint_inc_small)
  show ?thesis using assms
    by (simp add: pton_digit sextets_less pton_char_def inc Let_def tset_def tor_def
          group_byte0 group_byte1 [simplified] group_byte2 [simplified] numeral_3_eq_3 del: pton_loop.simps)
qed

lemma Pad64_plain [simp]: "Pad64 \<noteq> 0" "\<not> c_isspace Pad64" "\<not> c_isspace 0"
  by (simp_all add: Pad64_def c_isspace_def)

lemma pton_pad: "pton_loop targsize (Pad64 # src) st = (Some (Pad64, src), st)"
  by simp

lemma take_update_1: "i < length t \<Longrightarrow> take (Suc i) (t[i := a]) = take i t @ [a]"
  by (simp add: take_Suc_conv_app_nth)

text \<open>\<open>pton_done i src t st ch rest\<close>: the loop has stopped having stored \<open>src\<close> from position \<open>i\<close> on, and
  the trailer is valid.\<close>

definition pton_done :: "nat \<Rightarrow> byte list \<Rightarrow> byte list \<Rightarrow> (byte \<times> byte list) option \<times> pton_state \<Rightarrow> bool" where
  "pton_done i src t r \<longleftrightarrow> (\<exists>ch rest st t'. r = (Some (ch, rest), st) \<and> pton_trailer ch rest st \<and>
     tarindex st = i + length src \<and> target st = Some t' \<and> take (i + length src) t' = take i t @ src)"

lemma pton_text:
  assumes "targsize \<le> length t" and "targsize < 2 ^ 32"
    and "i + length src < targsize \<or> i + length src = targsize \<and> length src mod 3 = 0"
  shows "pton_done i src t (pton_loop targsize (b64_text src) \<lparr>state = 0, tarindex = i, target = Some t\<rparr>)"
  using assms
proof (induction src arbitrary: i t rule: b64_text.induct)
  case 1
  then show ?case by (simp add: pton_done_def pton_trailer_def)
next
  case (2 a)
  then have i: "Suc i < targsize" by auto
  then have inc: "uint_inc i = Suc i" using 2 by (simp add: uint_inc_small)
  have "pton_loop targsize (b64_text [a]) \<lparr>state = 0, tarindex = i, target = Some t\<rparr> =
      (Some (Pad64, [Pad64]), \<lparr>state = 2, tarindex = Suc i, target = Some (t[i := a, Suc i := 0])\<rparr>)"
    using 2 i
    by (simp add: pton_digit sextets_less pton_char_def inc tset_def tor_def group_byte0
        group_padding [simplified] pton_pad del: pton_loop.simps)
  then show ?case using 2 i
    by (simp add: pton_done_def pton_trailer_def pton_tail_def take_update_1)
next
  case (3 a b)
  then have i: "Suc (Suc i) < targsize" by auto
  then have inc: "uint_inc i = Suc i" "uint_inc (Suc i) = Suc (Suc i)" using 3 by (simp_all add: uint_inc_small)
  have "pton_loop targsize (b64_text [a, b]) \<lparr>state = 0, tarindex = i, target = Some t\<rparr> =
      (Some (Pad64, []), \<lparr>state = 3, tarindex = Suc (Suc i), target = Some (t[i := a, Suc i := b, Suc (Suc i) := 0])\<rparr>)"
    using 3 i
    by (simp add: pton_digit sextets_less pton_char_def inc tset_def tor_def group_byte0
        group_byte1 [simplified] group_padding [simplified] pton_pad del: pton_loop.simps)
  then show ?case using 3 i
    by (simp add: pton_done_def pton_trailer_def pton_tail_def take_update_1)
next
  case (4 a b c src)
  let ?t = "t[i := a, i + 1 := b, i + 2 := c]"
  have i: "i + 3 \<le> targsize" using 4(4) by auto
  have tk: "take (i + 3) ?t = take i t @ [a, b, c]"
    using i 4(2) by (simp add: numeral_3_eq_3 take_update_1)
  have len: "i + length (a # b # c # src) = i + 3 + length src" by simp
  have "pton_loop targsize (b64_text (a # b # c # src)) \<lparr>state = 0, tarindex = i, target = Some t\<rparr> =
      pton_loop targsize (b64_text src) \<lparr>state = 0, tarindex = i + 3, target = Some ?t\<rparr>"
    using pton_group [OF i 4(2,3), of a b c "b64_text src"] by (simp del: pton_loop.simps)
  moreover have "pton_done (i + 3) src ?t
      (pton_loop targsize (b64_text src) \<lparr>state = 0, tarindex = i + 3, target = Some ?t\<rparr>)"
    by (rule 4(1)) (use 4(2-4) in auto)
  ultimately show ?case unfolding pton_done_def tk len by auto
qed

text \<open>Between the characters of a group the current position is inside the target. The index is an
  \<open>unsigned int\<close>, so this does not follow from the test before the store alone.\<close>

definition pton_inv :: "nat \<Rightarrow> pton_state \<Rightarrow> bool" where
  "pton_inv targsize st \<longleftrightarrow> target st \<noteq> None \<and> state st \<noteq> 0 \<longrightarrow> tarindex st < targsize"

lemma pton_char_inv:
  assumes "pton_char targsize pos st = Some st'" and "pton_inv targsize st"
  shows "pton_inv targsize st'"
  using assms by (auto simp: pton_char_def Let_def pton_inv_def split: if_splits)

text \<open>Nothing is stored beyond \<open>targsize\<close>.\<close>

definition same_beyond :: "nat \<Rightarrow> pton_state \<Rightarrow> pton_state \<Rightarrow> bool" where
  "same_beyond targsize st st' \<longleftrightarrow>
     map_option (drop targsize) (target st') = map_option (drop targsize) (target st) \<and>
     map_option length (target st') = map_option length (target st)"

lemma pton_char_frame:
  assumes "pton_char targsize pos st = Some st'" and "pton_inv targsize st"
  shows "same_beyond targsize st st'"
  using assms
  by (cases "target st")
    (auto simp: pton_char_def Let_def tset_def tor_def pton_inv_def same_beyond_def split: if_splits)

lemma pton_loop_frame:
  "pton_loop targsize src st = (r, st') \<Longrightarrow> pton_inv targsize st \<Longrightarrow>
     pton_inv targsize st' \<and> same_beyond targsize st st'"
proof (induction targsize src st rule: pton_loop.induct)
  case (1 targsize st)
  then show ?case by (simp add: same_beyond_def)
next
  case (2 targsize ch src st)
  show ?case
  proof (cases "\<exists>pos st1. ch \<noteq> 0 \<and> \<not> c_isspace ch \<and> ch \<noteq> Pad64 \<and> strchr_pos ch = Some pos \<and>
      pton_char targsize pos st = Some st1")
    case True
    then obtain pos st1 where c: "ch \<noteq> 0" "\<not> c_isspace ch" "ch \<noteq> Pad64" "strchr_pos ch = Some pos"
      "pton_char targsize pos st = Some st1" by blast
    with 2 have "pton_inv targsize st' \<and> same_beyond targsize st1 st'"
      by (simp add: pton_char_inv)
    with pton_char_frame [OF c(5) 2(4)] show ?thesis by (simp add: same_beyond_def)
  next
    case False
    with 2 show ?thesis by (auto simp: same_beyond_def split: if_splits option.splits)
  qed
qed

text \<open>The text of five bytes, decoded into a target of five and of six bytes.\<close>

lemma pton_five_into_five: "fst (f_b64_pton (map of_char ''SGVsbG8='') (Some (replicate 5 0)) 5) = -1"
  by code_simp

lemma pton_five_into_six: "fst (f_b64_pton (map of_char ''SGVsbG8='') (Some (replicate 6 0)) 6) = 5"
  by code_simp

lemma ntop_hello:
  "f_b64_ntop [0x48, 0x65, 0x6C, 0x6C, 0x6F] 9 = (8, snd (f_b64_ntop [0x48, 0x65, 0x6C, 0x6C, 0x6F] 9))"
  by code_simp

end
