(* ===== verification/Ldb_Coding.thy ===== *)
theory Ldb_Coding
  imports Varint
begin

unbundle bit_operations_syntax

text \<open>
  \<open>leveldb/util/coding.cc\<close>, \<open>coding.h\<close> and \<open>slice.h\<close>: fixed-width numbers, varints and length-prefixed slices.
  A \<open>Slice\<close> and a \<open>std::string\<close> are byte lists. A \<open>Put\<close> function appends to a string; a \<open>Get\<close> function returns the
  value and the rest of the slice, \<open>None\<close> is \<open>false\<close>. A pointer pair \<open>p, limit\<close> is the list of the bytes between
  them. Shown here: each \<open>Get\<close> inverts its \<open>Put\<close> whatever follows, the unrolled 32-bit encoder agrees with the
  loop of the 64-bit one, and the lengths.
\<close>

section \<open>Slices\<close>

type_synonym slice = "byte list"

definition remove_prefix :: "nat \<Rightarrow> slice \<Rightarrow> slice" where
  "remove_prefix n s = drop n s"

definition starts_with :: "slice \<Rightarrow> slice \<Rightarrow> bool" where
  "starts_with s x \<longleftrightarrow> length x \<le> length s \<and> take (length x) s = x"

text \<open>\<open>memcmp\<close> compares as unsigned bytes; only the sign of its result is defined.\<close>

fun memcmp :: "slice \<Rightarrow> slice \<Rightarrow> nat \<Rightarrow> int" where
  "memcmp (x # xs) (y # ys) (Suc n) = (if x < y then -1 else if y < x then 1 else memcmp xs ys n)"
| "memcmp _ _ _ = 0"

definition slice_compare :: "slice \<Rightarrow> slice \<Rightarrow> int" where
  "slice_compare a b =
     (let min_len = (if length a < length b then length a else length b);
          r = memcmp a b min_len
      in if r = 0 then (if length a < length b then -1 else if length a > length b then 1 else 0) else r)"

section \<open>Fixed-width numbers\<close>

definition kLittleEndian :: bool where
  "kLittleEndian = True"

definition EncodeFixed32 :: "u32 \<Rightarrow> byte list" where
  "EncodeFixed32 value =
     (if kLittleEndian then to_le 4 (unat value)
      else [ucast (value AND 0xFF), ucast (drop_bit 8 value AND 0xFF), ucast (drop_bit 16 value AND 0xFF),
            ucast (drop_bit 24 value AND 0xFF)])"

definition EncodeFixed64 :: "u64 \<Rightarrow> byte list" where
  "EncodeFixed64 value =
     (if kLittleEndian then to_le 8 (unat value)
      else [ucast (value AND 0xFF), ucast (drop_bit 8 value AND 0xFF), ucast (drop_bit 16 value AND 0xFF),
            ucast (drop_bit 24 value AND 0xFF), ucast (drop_bit 32 value AND 0xFF),
            ucast (drop_bit 40 value AND 0xFF), ucast (drop_bit 48 value AND 0xFF),
            ucast (drop_bit 56 value AND 0xFF)])"

definition PutFixed32 :: "byte list \<Rightarrow> u32 \<Rightarrow> byte list" where
  "PutFixed32 dst value = dst @ EncodeFixed32 value"

definition PutFixed64 :: "byte list \<Rightarrow> u64 \<Rightarrow> byte list" where
  "PutFixed64 dst value = dst @ EncodeFixed64 value"

text \<open>Reads of four and eight bytes at the front of \<open>p\<close>, which has to have them.\<close>

definition DecodeFixed32 :: "byte list \<Rightarrow> u32" where
  "DecodeFixed32 p =
     (if kLittleEndian then word_of_nat (of_le (take 4 p))
      else ucast (p ! 0) OR push_bit 8 (ucast (p ! 1)) OR push_bit 16 (ucast (p ! 2)) OR push_bit 24 (ucast (p ! 3)))"

definition DecodeFixed64 :: "byte list \<Rightarrow> u64" where
  "DecodeFixed64 p =
     (if kLittleEndian then word_of_nat (of_le (take 8 p))
      else push_bit 32 (ucast (DecodeFixed32 (drop 4 p))) OR ucast (DecodeFixed32 p))"

section \<open>Varints\<close>

text \<open>A store of an integer through an \<open>unsigned char*\<close> keeps its low byte.\<close>

definition EncodeVarint32 :: "u32 \<Rightarrow> byte list" where
  "EncodeVarint32 v =
     (if unat v < 2 ^ 7 then [ucast v]
      else if unat v < 2 ^ 14 then [ucast (v OR 128), ucast (drop_bit 7 v)]
      else if unat v < 2 ^ 21 then [ucast (v OR 128), ucast (drop_bit 7 v OR 128), ucast (drop_bit 14 v)]
      else if unat v < 2 ^ 28 then
        [ucast (v OR 128), ucast (drop_bit 7 v OR 128), ucast (drop_bit 14 v OR 128), ucast (drop_bit 21 v)]
      else
        [ucast (v OR 128), ucast (drop_bit 7 v OR 128), ucast (drop_bit 14 v OR 128), ucast (drop_bit 21 v OR 128),
         ucast (drop_bit 28 v)])"

lemma memcmp_code [code]:
  "memcmp xs ys n = (case xs of [] \<Rightarrow> 0 | x # xs \<Rightarrow> (case ys of [] \<Rightarrow> 0 | y # ys \<Rightarrow>
     if n = 0 then 0 else if x < y then -1 else if y < x then 1 else memcmp xs ys (n - 1)))"
  by (cases n) (auto split: list.splits)

lemma unat_drop_7_less: "128 \<le> unat v \<Longrightarrow> unat (drop_bit 7 v) < unat v" for v :: u64
  unfolding unat_drop_bit by simp

function EncodeVarint64 :: "u64 \<Rightarrow> byte list" where
  "EncodeVarint64 v =
     (if unat v \<ge> 128 then ucast (v OR 128) # EncodeVarint64 (drop_bit 7 v) else [ucast v])"
  by pat_completeness auto
termination
  by (relation "measure unat") (auto simp: unat_drop_7_less simp del: unat_drop_bit)

declare EncodeVarint64.simps [simp del]

definition PutVarint32 :: "byte list \<Rightarrow> u32 \<Rightarrow> byte list" where
  "PutVarint32 dst v = dst @ EncodeVarint32 v"

definition PutVarint64 :: "byte list \<Rightarrow> u64 \<Rightarrow> byte list" where
  "PutVarint64 dst v = dst @ EncodeVarint64 v"

text \<open>\<open>value.size()\<close> is converted to \<open>uint32_t\<close>.\<close>

definition PutLengthPrefixedSlice :: "byte list \<Rightarrow> slice \<Rightarrow> byte list" where
  "PutLengthPrefixedSlice dst value = PutVarint32 dst (word_of_nat (length value)) @ value"

function varint_length_loop :: "u64 \<Rightarrow> nat \<Rightarrow> nat" where
  "varint_length_loop v len = (if unat v \<ge> 128 then varint_length_loop (drop_bit 7 v) (len + 1) else len)"
  by pat_completeness auto
termination
  by (relation "measure (\<lambda>(v, len). unat v)") (auto simp: unat_drop_7_less simp del: unat_drop_bit)

declare varint_length_loop.simps [simp del]

definition VarintLength :: "u64 \<Rightarrow> nat" where
  "VarintLength v = varint_length_loop v 1"

fun varint32_ptr_loop :: "nat \<Rightarrow> u32 \<Rightarrow> byte list \<Rightarrow> (u32 \<times> byte list) option" where
  "varint32_ptr_loop shift result [] = None"
| "varint32_ptr_loop shift result (b # p) =
     (if shift \<le> 28 then
        if b AND 128 \<noteq> 0 then varint32_ptr_loop (shift + 7) (result OR push_bit shift (ucast b AND 127)) p
        else Some (result OR push_bit shift (ucast b), p)
      else None)"

definition GetVarint32PtrFallback :: "byte list \<Rightarrow> (u32 \<times> byte list) option" where
  "GetVarint32PtrFallback p = varint32_ptr_loop 0 0 p"

definition GetVarint32Ptr :: "byte list \<Rightarrow> (u32 \<times> byte list) option" where
  "GetVarint32Ptr p =
     (case p of
        [] \<Rightarrow> GetVarint32PtrFallback p
      | b # q \<Rightarrow> if (ucast b :: u32) AND 128 = 0 then Some (ucast b, q) else GetVarint32PtrFallback p)"

definition GetVarint32 :: "slice \<Rightarrow> (u32 \<times> slice) option" where
  "GetVarint32 input = GetVarint32Ptr input"

fun varint64_ptr_loop :: "nat \<Rightarrow> u64 \<Rightarrow> byte list \<Rightarrow> (u64 \<times> byte list) option" where
  "varint64_ptr_loop shift result [] = None"
| "varint64_ptr_loop shift result (b # p) =
     (if shift \<le> 63 then
        if b AND 128 \<noteq> 0 then varint64_ptr_loop (shift + 7) (result OR push_bit shift (ucast b AND 127)) p
        else Some (result OR push_bit shift (ucast b), p)
      else None)"

definition GetVarint64Ptr :: "byte list \<Rightarrow> (u64 \<times> byte list) option" where
  "GetVarint64Ptr p = varint64_ptr_loop 0 0 p"

definition GetVarint64 :: "slice \<Rightarrow> (u64 \<times> slice) option" where
  "GetVarint64 input = GetVarint64Ptr input"

text \<open>The variant on a slice; the one on pointers makes the same test as \<open>p + len > limit\<close>.\<close>

definition GetLengthPrefixedSlice :: "slice \<Rightarrow> (slice \<times> slice) option" where
  "GetLengthPrefixedSlice input =
     (case GetVarint32 input of
        None \<Rightarrow> None
      | Some (len, rest) \<Rightarrow>
          if length rest \<ge> unat len then Some (take (unat len) rest, remove_prefix (unat len) rest) else None)"

section \<open>The contract of an encoding\<close>

text \<open>A writer and a reader of the same format: the reader returns the value and stops at the first byte behind it.
  Values outside \<open>valid\<close> need not survive.\<close>

locale put_get =
  fixes put :: "'a \<Rightarrow> byte list" and get :: "byte list \<Rightarrow> ('a \<times> byte list) option" and valid :: "'a \<Rightarrow> bool"
  assumes get_put: "valid x \<Longrightarrow> get (put x @ rest) = Some (x, rest)"
begin

lemma put_injective: "valid x \<Longrightarrow> valid y \<Longrightarrow> put x = put y \<Longrightarrow> x = y"
  using get_put [of x "[]"] get_put [of y "[]"] by simp

text \<open>No encoding is a proper prefix of another, so a concatenation can be split in only one way.\<close>

lemma put_prefix_free: "valid x \<Longrightarrow> valid y \<Longrightarrow> put x @ r = put y @ t \<Longrightarrow> x = y \<and> r = t"
  using get_put [of x r] get_put [of y t] by (metis Pair_inject option.inject)

end

section \<open>Varints are base-128 numbers\<close>

lemma bit_more_byte: "n < 8 \<Longrightarrow> bit (more_byte v) n \<longleftrightarrow> n = 7 \<or> bit v n"
proof -
  assume n: "n < 8"
  have "v mod 128 + 128 = take_bit 7 v OR push_bit 7 1"
    using nat_add_push_bit [of "take_bit 7 v" 7 1] by (simp add: take_bit_eq_mod push_bit_eq_mult)
  then have "more_byte v = word_of_nat (take_bit 7 v OR push_bit 7 1)" by (simp add: more_byte_def)
  then show ?thesis using n
    by (simp only: bit_of_nat_iff bit_or_iff bit_take_bit_iff bit_push_bit_iff bit_1_iff) auto
qed

lemma or_128_byte: "(ucast (v OR 128) :: byte) = more_byte (unat v)" if "8 \<le> LENGTH('a)" for v :: "'a::len word"
proof (rule bit_word_eqI)
  fix n assume "n < LENGTH(8)"
  then have n: "n < 8" by simp
  have "bit (128 :: 'a word) n \<longleftrightarrow> n = 7"
  proof -
    have "(128 :: 'a word) = push_bit 7 1" by (simp add: push_bit_eq_mult)
    moreover have "bit (push_bit 7 (1 :: 'a word)) n \<longleftrightarrow> n = 7"
      using that n by (simp only: bit_push_bit_iff bit_1_iff) auto
    ultimately show ?thesis by simp
  qed
  then show "bit (ucast (v OR 128) :: byte) n = bit (more_byte (unat v)) n"
    using n that by (auto simp: bit_more_byte bit_unsigned_iff bit_or_iff)
qed

lemmas or_128_byte32 = or_128_byte [where 'a = 32, simplified]
lemmas or_128_byte64 = or_128_byte [where 'a = 64, simplified]

lemma EncodeVarint64_spec: "EncodeVarint64 v = varint_spec (unat v)"
proof (induction v rule: EncodeVarint64.induct)
  case (1 v)
  show ?case
  proof (cases "unat v < 128")
    case True
    then show ?thesis by (simp add: EncodeVarint64.simps varint_spec_last)
  next
    case False
    with 1 show ?thesis
      by (subst EncodeVarint64.simps) (simp add: varint_spec_step or_128_byte64 unat_drop_bit)
  qed
qed

text \<open>The four thresholds of the unrolled encoder are the lengths of the base-128 number.\<close>

lemma div_128_128: "n div 128 div 128 = n div 16384" "n div 16384 div 128 = n div 2097152"
  "n div 2097152 div 128 = n div 268435456" for n :: nat
  by (simp_all flip: div_mult2_eq)

lemma EncodeVarint32_spec: "EncodeVarint32 v = varint_spec (unat v)"
proof -
  have bytes: "(ucast (drop_bit k v OR 128) :: byte) = more_byte (unat v div 2 ^ k)"
    "(ucast (drop_bit k v) :: byte) = word_of_nat (unat v div 2 ^ k)" for k
    by (simp_all only: or_128_byte32 unat_drop_bit ucast_drop_bit)
  have top: "unat v < 2 ^ 32" using unsigned_less [of v, where 'a = nat] by simp
  consider "unat v < 2 ^ 7" | "2 ^ 7 \<le> unat v" "unat v < 2 ^ 14" | "2 ^ 14 \<le> unat v" "unat v < 2 ^ 21"
    | "2 ^ 21 \<le> unat v" "unat v < 2 ^ 28" | "2 ^ 28 \<le> unat v" by linarith
  then show ?thesis
    by cases (use top in \<open>simp_all add: EncodeVarint32_def or_128_byte32 unat_drop_bit bytes varint_spec_step varint_spec_last
      div_128_128 less_mult_imp_div_less less_eq_div_iff_mult_less_eq\<close>)
qed

lemma varint_length_loop_spec: "varint_length_loop v n = n + (length (varint_spec (unat v)) - 1)"
proof (induction v n rule: varint_length_loop.induct)
  case (1 v n)
  have pos: "0 < length (varint_spec k)" for k by (subst varint_spec.simps) simp
  show ?case
  proof (cases "unat v < 128")
    case True
    then show ?thesis by (simp add: varint_length_loop.simps varint_spec_last)
  next
    case False
    with 1 pos [of "unat v div 128"] show ?thesis
      by (subst varint_length_loop.simps) (simp add: varint_spec_step unat_drop_bit)
  qed
qed

lemma VarintLength_spec: "VarintLength v = length (EncodeVarint64 v)"
proof -
  have "0 < length (varint_spec (unat v))" by (subst varint_spec.simps) simp
  then show ?thesis by (simp add: VarintLength_def varint_length_loop_spec EncodeVarint64_spec)
qed

section \<open>Reading back\<close>

lemma ucast_and_127: "(ucast b :: 'a::len word) AND 127 = ucast (b AND 127)" for b :: byte
  by (simp add: unsigned_and_eq)

lemma more_byte_value: "(ucast (more_byte v) :: 'a::len word) AND 127 = word_of_nat (v mod 128)"
  unfolding ucast_and_127 more_byte_simps by (simp add: ucast_byte_nat)

lemma more_byte_continues: "more_byte v AND 128 \<noteq> 0"
  using more_byte_simps(2) by simp

lemma varint32_ptr_loop_spec:
  "v < 2 ^ (32 - b) \<Longrightarrow> b < 32 \<Longrightarrow> b mod 7 = 0 \<Longrightarrow>
     varint32_ptr_loop b r (varint_spec v @ rest) = Some (r OR push_bit b (word_of_nat v), rest)"
proof (induction v arbitrary: b r rule: varint_spec.induct)
  case (1 v)
  then have b28: "b \<le> 28" by presburger
  show ?case
  proof (cases "v < 128")
    case True
    with b28 show ?thesis by (simp add: varint_spec_last last_byte_simps ucast_byte_nat)
  next
    case False
    then have vs: "varint_spec v = more_byte v # varint_spec (v div 128)" by (simp add: varint_spec_step)
    have b: "b + 7 < 32" "v div 128 < 2 ^ (32 - (b + 7))" "(b + 7) mod 7 = 0"
      using div_128_less [OF "1.prems"(1)] False "1.prems"(3) by simp_all
    from "1.IH" [OF False b(2) b(1) b(3)] b28 show ?thesis
      by (simp add: vs more_byte_value more_byte_continues or.assoc push_bit_split_7)
  qed
qed

lemma varint64_ptr_loop_spec:
  "v < 2 ^ (64 - b) \<Longrightarrow> b < 64 \<Longrightarrow>
     varint64_ptr_loop b r (varint_spec v @ rest) = Some (r OR push_bit b (word_of_nat v), rest)"
proof (induction v arbitrary: b r rule: varint_spec.induct)
  case (1 v)
  show ?case
  proof (cases "v < 128")
    case True
    with "1.prems" show ?thesis by (simp add: varint_spec_last last_byte_simps ucast_byte_nat)
  next
    case False
    then have vs: "varint_spec v = more_byte v # varint_spec (v div 128)" by (simp add: varint_spec_step)
    have b: "b + 7 < 64" "v div 128 < 2 ^ (64 - (b + 7))"
      using div_128_less [OF "1.prems"(1)] False by simp_all
    from "1.IH" [OF False b(2) b(1)] "1.prems"(2) show ?thesis
      by (simp add: vs more_byte_value more_byte_continues or.assoc push_bit_split_7)
  qed
qed

lemma GetVarint32_fallback: "GetVarint32Ptr p = GetVarint32PtrFallback p"
proof (cases p)
  case (Cons b q)
  have "(ucast b :: u32) AND 128 = ucast (b AND 128)" by (simp add: unsigned_and_eq)
  moreover have "(ucast (b AND 128) :: u32) = 0 \<longleftrightarrow> b AND 128 = 0"
  proof -
    have "unat (ucast (b AND 128) :: u32) = unat (b AND 128)"
    proof -
      have "unat (b AND 128) < 256" by (rule unat_byte_less)
      then show ?thesis by (simp add: unsigned_ucast_eq take_bit_eq_mod del: unat_byte_less)
    qed
    then show ?thesis by (metis unat_eq_zero)
  qed
  ultimately show ?thesis using Cons by (simp add: GetVarint32Ptr_def GetVarint32PtrFallback_def)
qed (simp add: GetVarint32Ptr_def)

interpretation varint32_codec: put_get EncodeVarint32 GetVarint32 "\<lambda>_. True"
proof
  fix v :: u32 and rest
  have "unat v < 2 ^ (32 - 0)" using unsigned_less [of v, where 'a = nat] by simp
  from varint32_ptr_loop_spec [OF this, of 0 rest]
  show "GetVarint32 (EncodeVarint32 v @ rest) = Some (v, rest)"
    by (simp add: GetVarint32_def GetVarint32_fallback GetVarint32PtrFallback_def EncodeVarint32_spec)
qed

interpretation varint64_codec: put_get EncodeVarint64 GetVarint64 "\<lambda>_. True"
proof
  fix v :: u64 and rest
  have "unat v < 2 ^ (64 - 0)" using unsigned_less [of v, where 'a = nat] by simp
  from varint64_ptr_loop_spec [OF this, of 0 rest]
  show "GetVarint64 (EncodeVarint64 v @ rest) = Some (v, rest)"
    by (simp add: GetVarint64_def GetVarint64Ptr_def EncodeVarint64_spec)
qed

text \<open>A length-prefixed slice: its length has to fit 32 bits.\<close>

definition lps :: "slice \<Rightarrow> byte list" where
  "lps value = PutLengthPrefixedSlice [] value"

lemma PutLengthPrefixedSlice_lps: "PutLengthPrefixedSlice dst value = dst @ lps value"
  by (simp add: lps_def PutLengthPrefixedSlice_def PutVarint32_def)

interpretation slice_codec: put_get lps GetLengthPrefixedSlice "\<lambda>s. length s < 2 ^ 32"
proof
  fix s rest assume "length (s :: slice) < 2 ^ 32"
  then have "unat (word_of_nat (length s) :: u32) = length s" by (simp add: unat_of_nat)
  then show "GetLengthPrefixedSlice (lps s @ rest) = Some (s, rest)"
    by (simp add: lps_def PutLengthPrefixedSlice_def PutVarint32_def GetLengthPrefixedSlice_def
        varint32_codec.get_put remove_prefix_def)
qed

section \<open>Fixed-width numbers\<close>

text \<open>The portable branches agree with the loads and stores of a little-endian machine.\<close>

lemma EncodeFixed32_portable:
  "to_le 4 (unat v) = [ucast (v AND 0xFF), ucast (drop_bit 8 v AND 0xFF), ucast (drop_bit 16 v AND 0xFF),
     ucast (drop_bit 24 v AND 0xFF)]" for v :: u32
  unfolding to_le_4 byte_of_low ucast_drop_bit by simp

lemma DecodeFixed32_portable:
  assumes "4 \<le> length p"
  shows "word_of_nat (of_le (take 4 p)) = (ucast (p ! 0) OR push_bit 8 (ucast (p ! 1)) OR
     push_bit 16 (ucast (p ! 2)) OR push_bit 24 (ucast (p ! 3)) :: u32)"
proof -
  from assms obtain a b c d q where p: "p = a # b # c # d # q"
    by (metis Suc_le_length_iff numeral_eq_Suc pred_numeral_simps(2) BitM.simps pred_numeral_simps(3) numeral_One One_nat_def numeral_3_eq_3 numeral_2_eq_2)
  have "take 4 p = [a, b, c, d]" by (simp add: p)
  then show ?thesis unfolding p by (simp add: of_le_word push_bit_or or.assoc del: of_le.simps(2))
qed

lemma DecodeFixed32_encode [simp]: "DecodeFixed32 (EncodeFixed32 v @ rest) = v"
  using unsigned_less [of v, where 'a = nat]
  by (simp add: DecodeFixed32_def EncodeFixed32_def kLittleEndian_def of_le_to_le)

lemma DecodeFixed64_encode [simp]: "DecodeFixed64 (EncodeFixed64 v @ rest) = v"
  using unsigned_less [of v, where 'a = nat]
  by (simp add: DecodeFixed64_def EncodeFixed64_def kLittleEndian_def of_le_to_le)

lemma length_EncodeFixed [simp]: "length (EncodeFixed32 v) = 4" "length (EncodeFixed64 w) = 8"
  by (simp_all add: EncodeFixed32_def EncodeFixed64_def)

text \<open>Arrays of fixed-width numbers, which end blocks of both kinds.\<close>

lemma drop_concat_fixed:
  "i < length J \<Longrightarrow> drop (i * 4) (concat (map (\<lambda>j. EncodeFixed32 (f j)) J) @ r) =
     EncodeFixed32 (f (J ! i)) @ concat (map (\<lambda>j. EncodeFixed32 (f j)) (drop (Suc i) J)) @ r"
proof (induction J arbitrary: i)
  case (Cons a J)
  show ?case
  proof (cases i)
    case (Suc k)
    have "drop (Suc k * 4) (concat (map (\<lambda>j. EncodeFixed32 (f j)) (a # J)) @ r) =
        drop (k * 4) (concat (map (\<lambda>j. EncodeFixed32 (f j)) J) @ r)" by simp
    with Cons Suc show ?thesis by simp
  qed simp
qed simp

lemma length_concat_fixed: "length (concat (map (\<lambda>j. EncodeFixed32 (f j)) J)) = 4 * length J"
  by (induction J) simp_all

lemma foldl_PutFixed32: "foldl PutFixed32 d (map f J) = d @ concat (map (\<lambda>j. EncodeFixed32 (f j)) J)"
  by (induction J arbitrary: d) (simp_all add: PutFixed32_def)

end
