(* ===== verification/Ldb_Status.thy ===== *)
theory Ldb_Status
  imports Ldb_Coding
begin

unbundle bit_operations_syntax

text \<open>
  \<open>leveldb/status.h\<close> and \<open>util/status.cc\<close>: the outcome of an operation. \<open>state_\<close> is null for success and otherwise
  an array of the length of the message, the code and the message. Shown here: what the accessors return for
  every constructed status. Decimal numerals, which \<open>snprintf\<close> prints for several components, are here too.
\<close>

abbreviation str :: "string \<Rightarrow> byte list" where
  "str s \<equiv> map of_char s"

section \<open>Decimal numerals\<close>

fun decimal :: "nat \<Rightarrow> byte list" where
  "decimal n = (if n < 10 then [] else decimal (n div 10)) @ [word_of_nat (48 + n mod 10)]"

declare decimal.simps [simp del]

text \<open>\<open>%d\<close>\<close>

definition decimal_int :: "int \<Rightarrow> byte list" where
  "decimal_int i = (if i < 0 then str ''-'' @ decimal (nat (- i)) else decimal (nat i))"

lemma decimal_nonempty [simp]: "decimal n \<noteq> []"
  by (subst decimal.simps) simp

section \<open>Status\<close>

datatype Code = kOk | kNotFound | kCorruption | kNotSupported | kInvalidArgument | kIOError

fun code_number :: "Code \<Rightarrow> byte" where
  "code_number kOk = 0"
| "code_number kNotFound = 1"
| "code_number kCorruption = 2"
| "code_number kNotSupported = 3"
| "code_number kInvalidArgument = 4"
| "code_number kIOError = 5"

text \<open>\<open>state_\<close>, \<open>None\<close> for a null pointer.\<close>

type_synonym status = "byte list option"

definition OK :: status where
  "OK = None"

definition new_Status :: "Code \<Rightarrow> slice \<Rightarrow> slice \<Rightarrow> status" where
  "new_Status c msg msg2 =
     (let len1 = word_of_nat (length msg) :: u32;
          len2 = word_of_nat (length msg2) :: u32;
          sz = len1 + (if len2 \<noteq> 0 then 2 + len2 else 0)
      in Some (to_le 4 (unat sz) @ [code_number c] @ take (unat len1) msg @
               (if len2 \<noteq> 0 then str '': '' @ take (unat len2) msg2 else [])))"

definition NotFound :: "slice \<Rightarrow> slice \<Rightarrow> status" where
  "NotFound msg msg2 = new_Status kNotFound msg msg2"

definition Corruption :: "slice \<Rightarrow> slice \<Rightarrow> status" where
  "Corruption msg msg2 = new_Status kCorruption msg msg2"

definition NotSupported :: "slice \<Rightarrow> slice \<Rightarrow> status" where
  "NotSupported msg msg2 = new_Status kNotSupported msg msg2"

definition InvalidArgument :: "slice \<Rightarrow> slice \<Rightarrow> status" where
  "InvalidArgument msg msg2 = new_Status kInvalidArgument msg msg2"

definition IOError :: "slice \<Rightarrow> slice \<Rightarrow> status" where
  "IOError msg msg2 = new_Status kIOError msg msg2"

definition ok :: "status \<Rightarrow> bool" where
  "ok s \<longleftrightarrow> s = None"

text \<open>\<open>code()\<close> casts the byte to the enumeration without a check; it is compared by its number.\<close>

definition status_code :: "status \<Rightarrow> byte" where
  "status_code s = (case s of None \<Rightarrow> code_number kOk | Some state \<Rightarrow> state ! 4)"

definition IsNotFound :: "status \<Rightarrow> bool" where
  "IsNotFound s \<longleftrightarrow> status_code s = code_number kNotFound"

definition IsCorruption :: "status \<Rightarrow> bool" where
  "IsCorruption s \<longleftrightarrow> status_code s = code_number kCorruption"

definition IsIOError :: "status \<Rightarrow> bool" where
  "IsIOError s \<longleftrightarrow> status_code s = code_number kIOError"

definition IsNotSupportedError :: "status \<Rightarrow> bool" where
  "IsNotSupportedError s \<longleftrightarrow> status_code s = code_number kNotSupported"

definition IsInvalidArgument :: "status \<Rightarrow> bool" where
  "IsInvalidArgument s \<longleftrightarrow> status_code s = code_number kInvalidArgument"

text \<open>\<open>CopyState\<close> reads the length from the array and copies that many bytes after the five of the header.\<close>

definition CopyState :: "byte list \<Rightarrow> byte list" where
  "CopyState state = take (of_le (take 4 state) + 5) state"

definition status_type :: "byte \<Rightarrow> byte list" where
  "status_type c =
     (if c = 0 then str ''OK''
      else if c = 1 then str ''NotFound: ''
      else if c = 2 then str ''Corruption: ''
      else if c = 3 then str ''Not implemented: ''
      else if c = 4 then str ''Invalid argument: ''
      else if c = 5 then str ''IO error: ''
      else str ''Unknown code('' @ decimal_int (sint c) @ str ''): '')"

definition ToString :: "status \<Rightarrow> byte list" where
  "ToString s =
     (case s of None \<Rightarrow> str ''OK''
      | Some state \<Rightarrow> status_type (status_code s) @ take (of_le (take 4 state)) (drop 5 state))"

section \<open>Properties\<close>

lemma ok_OK [simp]: "ok OK"
  by (simp add: ok_def OK_def)

lemma not_ok_new [simp]: "\<not> ok (new_Status c msg msg2)"
  by (simp add: ok_def new_Status_def Let_def)

lemma not_ok_error [simp]:
  "\<not> ok (NotFound msg msg2)" "\<not> ok (Corruption msg msg2)" "\<not> ok (NotSupported msg msg2)"
  "\<not> ok (InvalidArgument msg msg2)" "\<not> ok (IOError msg msg2)"
  by (simp_all add: NotFound_def Corruption_def NotSupported_def InvalidArgument_def IOError_def)

lemma status_code_new [simp]: "status_code (new_Status c msg msg2) = code_number c"
  by (simp add: status_code_def new_Status_def Let_def nth_append)

lemma ok_iff_OK: "ok s \<longleftrightarrow> s = OK"
  by (simp add: ok_def OK_def)

text \<open>The message of a status, and that a copy is the same status.\<close>

definition joined :: "slice \<Rightarrow> slice \<Rightarrow> byte list" where
  "joined msg msg2 = msg @ (if msg2 = [] then [] else str '': '' @ msg2)"

lemma new_Status_form:
  assumes "length (joined msg msg2) < 2 ^ 32"
  shows "new_Status c msg msg2 = Some (to_le 4 (length (joined msg msg2)) @ code_number c # joined msg msg2)"
proof -
  have bounds: "length msg < 2 ^ 32" "length msg2 < 2 ^ 32"
    using assms by (auto simp: joined_def split: if_splits)
  then have len: "unat (word_of_nat (length msg) :: u32) = length msg" "unat (word_of_nat (length msg2) :: u32) = length msg2"
    by (simp_all add: unsigned_of_nat take_bit_nat_eq_self)
  then have nz: "(word_of_nat (length msg2) :: u32) = 0 \<longleftrightarrow> msg2 = []"
    using bounds(2) by (auto simp: word_of_nat_eq_0_iff dest: dvd_imp_le)
  have "(word_of_nat (length msg) + (if (word_of_nat (length msg2) :: u32) \<noteq> 0 then 2 + word_of_nat (length msg2) else 0) :: u32) =
      word_of_nat (length (joined msg msg2))"
    by (simp add: nz joined_def)
  then show ?thesis
    using assms bounds by (simp add: new_Status_def Let_def nz unsigned_of_nat take_bit_nat_eq_self) (simp add: joined_def)
qed

lemma status_facts:
  assumes "length (joined msg msg2) < 2 ^ 32" and "new_Status c msg msg2 = Some state"
  shows "CopyState state = state"
    and "c \<noteq> kOk \<Longrightarrow> ToString (Some state) = status_type (code_number c) @ joined msg msg2"
proof -
  have state: "state = to_le 4 (length (joined msg msg2)) @ code_number c # joined msg msg2"
    using new_Status_form [OF assms(1), of c] assms(2) by simp
  then have "of_le (take 4 state) = length (joined msg msg2)" using assms(1) by (simp add: of_le_to_le)
  with state show "CopyState state = state"
    and "c \<noteq> kOk \<Longrightarrow> ToString (Some state) = status_type (code_number c) @ joined msg msg2"
    by (simp_all add: CopyState_def ToString_def status_code_def nth_append)
qed

end
