(* ===== verification/Ldb_Env.thy ===== *)
theory Ldb_Env
  imports Ldb_Status
begin

text \<open>
  \<open>leveldb/env.h\<close> and the file classes of \<open>util/env_posix.cc\<close>: \<open>PosixSequentialFile\<close> over \<open>read\<close> and \<open>lseek\<close>, and
  \<open>PosixWritableFile\<close> with its 64 KB buffer over \<open>write\<close>. The interfaces \<open>SequentialFile\<close> and \<open>WritableFile\<close> are
  locales with the laws the log relies on; the two Posix classes are their interpretations.
\<close>

section \<open>File descriptors\<close>

text \<open>
  An open descriptor: the contents of the file, the offset, the outcomes of the coming system calls and the text
  of each error number. A call takes the next outcome: an error, or an upper bound on the bytes it transfers.
  When no outcome is left, calls succeed and transfer all they can.
\<close>

datatype outcome = Fails int | Transfers nat

record fd_state =
  fdata :: "byte list"
  fpos :: nat
  fsched :: "outcome list"
  strerror :: "int \<Rightarrow> byte list"

definition EINTR :: int where "EINTR = 4"
definition ENOENT :: int where "ENOENT = 2"
definition EINVAL :: int where "EINVAL = 22"

text \<open>The result is the error number or the count.\<close>

definition sys_write :: "fd_state \<Rightarrow> byte list \<Rightarrow> (int + nat) \<times> fd_state" where
  "sys_write fd data =
     (let move = (\<lambda>d sch. (Inr (length d),
            fd\<lparr>fdata := take (fpos fd) (fdata fd) @ d @ drop (fpos fd + length d) (fdata fd),
               fpos := fpos fd + length d, fsched := sch\<rparr>))
      in case fsched fd of
           [] \<Rightarrow> move data []
         | Fails e # sch \<Rightarrow> (Inl e, fd\<lparr>fsched := sch\<rparr>)
         | Transfers n # sch \<Rightarrow> move (take n data) sch)"

definition sys_read :: "fd_state \<Rightarrow> nat \<Rightarrow> (int + byte list) \<times> fd_state" where
  "sys_read fd n =
     (let move = (\<lambda>d sch. (Inr d, fd\<lparr>fpos := fpos fd + length d, fsched := sch\<rparr>));
          avail = drop (fpos fd) (fdata fd)
      in case fsched fd of
           [] \<Rightarrow> move (take n avail) []
         | Fails e # sch \<Rightarrow> (Inl e, fd\<lparr>fsched := sch\<rparr>)
         | Transfers k # sch \<Rightarrow> move (take (min k n) avail) sch)"

text \<open>\<open>lseek(fd, n, SEEK_CUR)\<close>; a seek to a negative offset is refused.\<close>

definition sys_lseek :: "fd_state \<Rightarrow> u64 \<Rightarrow> (int + nat) \<times> fd_state" where
  "sys_lseek fd n =
     (let go = (\<lambda>sch. let p = int (fpos fd) + sint n in
            if p < 0 then (Inl EINVAL, fd\<lparr>fsched := sch\<rparr>) else (Inr (nat p), fd\<lparr>fpos := nat p, fsched := sch\<rparr>))
      in case fsched fd of
           [] \<Rightarrow> go []
         | Fails e # sch \<Rightarrow> (Inl e, fd\<lparr>fsched := sch\<rparr>)
         | Transfers k # sch \<Rightarrow> go sch)"

lemma sys_write_sched:
  "sys_write fd data = (r, fd') \<Longrightarrow> fsched fd \<noteq> [] \<Longrightarrow> length (fsched fd') < length (fsched fd)"
  by (auto simp: sys_write_def Let_def split: list.splits outcome.splits)

lemma sys_read_sched:
  "sys_read fd n = (Inl e, fd') \<Longrightarrow> length (fsched fd') < length (fsched fd)"
  by (auto simp: sys_read_def Let_def split: list.splits outcome.splits)

lemma sys_write_all: "sys_write fd data = (r, fd') \<Longrightarrow> fsched fd = [] \<Longrightarrow> r = Inr (length data)"
  by (simp add: sys_write_def)

section \<open>\<open>PosixError\<close>\<close>

definition PosixError :: "fd_state \<Rightarrow> byte list \<Rightarrow> int \<Rightarrow> status" where
  "PosixError fd context error_number =
     (if error_number = ENOENT then NotFound context (strerror fd error_number)
      else IOError context (strerror fd error_number))"

lemma not_ok_PosixError [simp]: "\<not> ok (PosixError fd c e)"
  by (simp add: PosixError_def)

section \<open>\<open>PosixSequentialFile\<close>\<close>

record PosixSequentialFile =
  sfd :: fd_state
  sfilename :: "byte list"

text \<open>\<open>Read\<close> leaves the caller's slice as it was when it fails.\<close>

function PosixSequentialFile_Read :: "PosixSequentialFile \<Rightarrow> nat \<Rightarrow> slice \<Rightarrow> status \<times> slice \<times> PosixSequentialFile" where
  "PosixSequentialFile_Read f n result =
     (case sys_read (sfd f) n of
        (Inl e, fd) \<Rightarrow>
          if e = EINTR then PosixSequentialFile_Read (f\<lparr>sfd := fd\<rparr>) n result
          else (PosixError fd (sfilename f) e, result, f\<lparr>sfd := fd\<rparr>)
      | (Inr d, fd) \<Rightarrow> (OK, d, f\<lparr>sfd := fd\<rparr>))"
  by pat_completeness auto
termination
  by (relation "measure (\<lambda>(f, _, _). length (fsched (sfd f)))") (auto dest: sys_read_sched [OF sym])

declare PosixSequentialFile_Read.simps [simp del]

definition PosixSequentialFile_Skip :: "PosixSequentialFile \<Rightarrow> u64 \<Rightarrow> status \<times> PosixSequentialFile" where
  "PosixSequentialFile_Skip f n =
     (case sys_lseek (sfd f) n of
        (Inl e, fd) \<Rightarrow> (PosixError fd (sfilename f) e, f\<lparr>sfd := fd\<rparr>)
      | (Inr _, fd) \<Rightarrow> (OK, f\<lparr>sfd := fd\<rparr>))"

section \<open>\<open>PosixWritableFile\<close>\<close>

definition kWritableFileBufferSize :: nat where
  "kWritableFileBufferSize = 65536"

text \<open>\<open>buf\<close> is \<open>buf_[0, pos_ - 1]\<close>.\<close>

record PosixWritableFile =
  buf :: "byte list"
  wfd :: fd_state
  wfilename :: "byte list"

function WriteUnbuffered :: "PosixWritableFile \<Rightarrow> byte list \<Rightarrow> status \<times> PosixWritableFile" where
  "WriteUnbuffered f data =
     (if data \<noteq> [] then
        case sys_write (wfd f) data of
          (Inl e, fd) \<Rightarrow>
            if e = EINTR then WriteUnbuffered (f\<lparr>wfd := fd\<rparr>) data
            else (PosixError fd (wfilename f) e, f\<lparr>wfd := fd\<rparr>)
        | (Inr k, fd) \<Rightarrow> WriteUnbuffered (f\<lparr>wfd := fd\<rparr>) (drop k data)
      else (OK, f))"
  by pat_completeness auto
termination
proof (relation "measures [\<lambda>(f, d). length (fsched (wfd f)), \<lambda>(f, d). length d]", goal_cases)
  case 1
  show ?case by simp
next
  case (2 f data x fd e)
  then have "fsched (wfd f) \<noteq> []" by (metis sys_write_all Inl_Inr_False)
  with 2 sys_write_sched [of "wfd f" data "Inl e" fd] show ?case by auto
next
  case (3 f data x fd k)
  show ?case
  proof (cases "fsched (wfd f)")
    case Nil
    with 3 have "k = length data" "fsched fd = []" by (simp_all add: sys_write_def)
    with 3(1) Nil show ?thesis by simp
  next
    case Cons
    with 3 sys_write_sched [of "wfd f" data "Inr k" fd] show ?thesis by auto
  qed
qed

declare WriteUnbuffered.simps [simp del]

definition FlushBuffer :: "PosixWritableFile \<Rightarrow> status \<times> PosixWritableFile" where
  "FlushBuffer f = (case WriteUnbuffered f (buf f) of (status, f) \<Rightarrow> (status, f\<lparr>buf := []\<rparr>))"

definition PosixWritableFile_Append :: "PosixWritableFile \<Rightarrow> slice \<Rightarrow> status \<times> PosixWritableFile" where
  "PosixWritableFile_Append f data =
     (let copy_size = min (length data) (kWritableFileBufferSize - length (buf f));
          f = f\<lparr>buf := buf f @ take copy_size data\<rparr>;
          write_data = drop copy_size data
      in if length write_data = 0 then (OK, f)
         else case FlushBuffer f of (status, f) \<Rightarrow>
           if \<not> ok status then (status, f)
           else if length write_data < kWritableFileBufferSize then (OK, f\<lparr>buf := write_data\<rparr>)
           else WriteUnbuffered f write_data)"

definition PosixWritableFile_Flush :: "PosixWritableFile \<Rightarrow> status \<times> PosixWritableFile" where
  "PosixWritableFile_Flush f = FlushBuffer f"

section \<open>Interfaces\<close>

text \<open>
  A writable file: what has been appended so far (\<open>contents\<close>), how much of it has been handed to the operating
  system (\<open>stored\<close>), and when a few bytes can be appended without any write (\<open>idle\<close>).
\<close>

locale writable_file =
  fixes append :: "'f \<Rightarrow> slice \<Rightarrow> status \<times> 'f" and flush :: "'f \<Rightarrow> status \<times> 'f"
    and contents :: "'f \<Rightarrow> byte list" and stored :: "'f \<Rightarrow> byte list" and idle :: "'f \<Rightarrow> bool" and valid :: "'f \<Rightarrow> bool"
  assumes append_valid: "valid f \<Longrightarrow> append f d = (s, f') \<Longrightarrow> valid f'"
    and flush_valid: "valid f \<Longrightarrow> flush f = (s, f') \<Longrightarrow> valid f'"
    and append_ok: "valid f \<Longrightarrow> append f d = (s, f') \<Longrightarrow> ok s \<Longrightarrow> contents f' = contents f @ d"
    and flush_ok: "valid f \<Longrightarrow> flush f = (s, f') \<Longrightarrow> ok s \<Longrightarrow> contents f' = contents f \<and> stored f' = contents f'"
    and flush_idle: "flush f = (s, f') \<Longrightarrow> idle f'"
    and append_small: "idle f \<Longrightarrow> length d < 4096 \<Longrightarrow> ok (fst (append f d))"

text \<open>A file on which no append and no flush fails.\<close>

locale reliable_file = writable_file +
  fixes reliable :: "'a \<Rightarrow> bool"
  assumes append_reliable: "reliable f \<Longrightarrow> append f d = (s, f') \<Longrightarrow> ok s \<and> reliable f'"
    and flush_reliable: "reliable f \<Longrightarrow> flush f = (s, f') \<Longrightarrow> ok s \<and> reliable f'"

text \<open>A file read from front to back: \<open>remaining\<close> is what has not been read yet.\<close>

locale sequential_file =
  fixes read :: "'f \<Rightarrow> nat \<Rightarrow> slice \<Rightarrow> status \<times> slice \<times> 'f" and remaining :: "'f \<Rightarrow> byte list"
  assumes read_ok: "read f n r = (s, d, f') \<Longrightarrow> ok s \<Longrightarrow> length d \<le> n \<and> remaining f = d @ remaining f'"
    and read_fail: "read f n r = (s, d, f') \<Longrightarrow> \<not> ok s \<Longrightarrow> d = r \<and> remaining f' = remaining f"

text \<open>A file on which no read fails or stops early, except at the end.\<close>

locale steady_file = sequential_file +
  fixes steady :: "'a \<Rightarrow> bool"
  assumes read_steady: "steady f \<Longrightarrow> read f n r = (s, d, f') \<Longrightarrow> ok s \<and> d = take n (remaining f) \<and> steady f'"

section \<open>The Posix classes implement the interfaces\<close>

definition wcontents :: "PosixWritableFile \<Rightarrow> byte list" where
  "wcontents f = take (fpos (wfd f)) (fdata (wfd f)) @ buf f"

definition wstored :: "PosixWritableFile \<Rightarrow> byte list" where
  "wstored f = take (fpos (wfd f)) (fdata (wfd f))"

definition widle :: "PosixWritableFile \<Rightarrow> bool" where
  "widle f \<longleftrightarrow> buf f = []"

definition wvalid :: "PosixWritableFile \<Rightarrow> bool" where
  "wvalid f \<longleftrightarrow> fpos (wfd f) = length (fdata (wfd f)) \<and> length (buf f) \<le> kWritableFileBufferSize"

lemma sys_write_append:
  assumes "sys_write fd d = (r, fd')" and "fpos fd = length (fdata fd)"
  shows "fpos fd' = length (fdata fd')"
    and "r = Inr k \<Longrightarrow> k \<le> length d \<and> fdata fd' = fdata fd @ take k d" and "r = Inl e \<Longrightarrow> fdata fd' = fdata fd"
  using assms by (auto simp: sys_write_def Let_def min_def split: list.splits outcome.splits)

lemma WriteUnbuffered_correct:
  "WriteUnbuffered f d = (s, f') \<Longrightarrow> fpos (wfd f) = length (fdata (wfd f)) \<Longrightarrow>
   fpos (wfd f') = length (fdata (wfd f')) \<and> buf f' = buf f \<and> wfilename f' = wfilename f \<and>
   (ok s \<longrightarrow> fdata (wfd f') = fdata (wfd f) @ d)"
proof (induction f d arbitrary: s f' rule: WriteUnbuffered.induct)
  case (1 f d)
  show ?case
  proof (cases "d = []")
    case True
    with 1(3,4) show ?thesis by (simp add: WriteUnbuffered.simps [of f])
  next
    case False
    obtain r fd where w: "sys_write (wfd f) d = (r, fd)" by fastforce
    note a = sys_write_append [OF w 1(4)]
    show ?thesis
    proof (cases r)
      case (Inl e)
      have w': "sys_write (wfd f) d = (Inl e, fd)" using w Inl by simp
      show ?thesis
        using 1(3) a(1) a(3) [OF Inl] False w' 1(1) [OF False w' [symmetric] refl, of s f']
        by (cases "e = EINTR") (auto simp: WriteUnbuffered.simps [of f])
    next
      case (Inr k)
      have w': "sys_write (wfd f) d = (Inr k, fd)" using w Inr by simp
      show ?thesis
        using 1(3) a(1) a(2) [OF Inr] False w' 1(2) [OF False w' [symmetric] refl, of s f']
        by (auto simp: WriteUnbuffered.simps [of f])
    qed
  qed
qed

lemma FlushBuffer_correct:
  assumes "FlushBuffer f = (s, f')" and "fpos (wfd f) = length (fdata (wfd f))"
  shows "fpos (wfd f') = length (fdata (wfd f'))" "buf f' = []" "ok s \<Longrightarrow> fdata (wfd f') = fdata (wfd f) @ buf f"
proof -
  obtain g where g: "WriteUnbuffered f (buf f) = (s, g)" and f': "f' = g\<lparr>buf := []\<rparr>"
    using assms(1) by (auto simp: FlushBuffer_def split: prod.splits)
  show "fpos (wfd f') = length (fdata (wfd f'))" "buf f' = []" "ok s \<Longrightarrow> fdata (wfd f') = fdata (wfd f) @ buf f"
    using WriteUnbuffered_correct [OF g assms(2)] by (simp_all add: f')
qed

lemma FlushBuffer_empties: "FlushBuffer f = (s, f') \<Longrightarrow> buf f' = []"
  by (auto simp: FlushBuffer_def split: prod.splits)

lemma Append_correct:
  assumes app: "PosixWritableFile_Append f d = (s, f')" and v: "wvalid f"
  shows "wvalid f' \<and> (ok s \<longrightarrow> wcontents f' = wcontents f @ d)"
proof -
  define c where "c = min (length d) (kWritableFileBufferSize - length (buf f))"
  define g where "g = f\<lparr>buf := buf f @ take c d\<rparr>"
  have g: "fpos (wfd g) = length (fdata (wfd g))" "length (buf g) \<le> kWritableFileBufferSize"
    using v by (auto simp: g_def c_def wvalid_def)
  show ?thesis
  proof (cases "drop c d = []")
    case True
    then have "s = OK" "f' = g" "take c d = d"
      using app by (simp_all add: PosixWritableFile_Append_def Let_def c_def [symmetric] g_def)
    with g show ?thesis by (simp add: wvalid_def wcontents_def g_def)
  next
    case False
    obtain s1 h where h: "FlushBuffer g = (s1, h)" by fastforce
    note fb = FlushBuffer_correct [OF h g(1)]
    have res: "\<not> ok s1 \<Longrightarrow> s = s1 \<and> f' = h"
      "ok s1 \<Longrightarrow> length (drop c d) < kWritableFileBufferSize \<Longrightarrow> s = OK \<and> f' = h\<lparr>buf := drop c d\<rparr>"
      "ok s1 \<Longrightarrow> \<not> length (drop c d) < kWritableFileBufferSize \<Longrightarrow> WriteUnbuffered h (drop c d) = (s, f')"
      using app False h
      by (simp_all add: PosixWritableFile_Append_def Let_def c_def [symmetric] g_def [symmetric])
    have cont: "fdata (wfd h) @ drop c d = wcontents f @ d" if "ok s1"
      using fb(3) that v by (simp add: g_def wcontents_def wvalid_def)
    consider "\<not> ok s1" | "ok s1" "length (drop c d) < kWritableFileBufferSize"
      | "ok s1" "\<not> length (drop c d) < kWritableFileBufferSize" by blast
    then show ?thesis
    proof cases
      case 1
      with res(1) fb show ?thesis by (simp add: wvalid_def)
    next
      case 2
      with res(2) fb(1) cont show ?thesis by (simp add: wvalid_def wcontents_def)
    next
      case 3
      with WriteUnbuffered_correct [OF res(3) fb(1)] fb(2) cont v show ?thesis
        by (auto simp: wvalid_def wcontents_def)
    qed
  qed
qed

interpretation wf: writable_file PosixWritableFile_Append PosixWritableFile_Flush wcontents wstored widle wvalid
proof
  show "wvalid f'" if "wvalid f" "PosixWritableFile_Append f d = (s, f')" for f d s f'
    using Append_correct that by blast
  show "wvalid f'" if "wvalid f" "PosixWritableFile_Flush f = (s, f')" for f s f'
    using that FlushBuffer_correct(1,2) [of f s f'] by (simp add: PosixWritableFile_Flush_def wvalid_def)
  show "wcontents f' = wcontents f @ d" if "wvalid f" "PosixWritableFile_Append f d = (s, f')" "ok s" for f d s f'
    using Append_correct that by blast
  show "wcontents f' = wcontents f \<and> wstored f' = wcontents f'"
    if "wvalid f" "PosixWritableFile_Flush f = (s, f')" "ok s" for f s f'
    using that FlushBuffer_correct [of f s f']
    by (simp add: PosixWritableFile_Flush_def wvalid_def wcontents_def wstored_def)
  show "widle f'" if "PosixWritableFile_Flush f = (s, f')" for f s f'
    using that FlushBuffer_empties by (simp add: PosixWritableFile_Flush_def widle_def)
  show "ok (fst (PosixWritableFile_Append f d))" if "widle f" "length d < 4096" for f d
    using that by (simp add: PosixWritableFile_Append_def widle_def kWritableFileBufferSize_def Let_def)
qed

text \<open>No failures but interrupted calls; writes may transfer less than they are asked to, even nothing.\<close>

definition wreliable :: "PosixWritableFile \<Rightarrow> bool" where
  "wreliable f \<longleftrightarrow> list_all (\<lambda>x. \<forall>e. x = Fails e \<longrightarrow> e = EINTR) (fsched (wfd f))"

lemma wreliable_buf [simp]: "wreliable (f\<lparr>buf := b\<rparr>) = wreliable f"
  by (simp add: wreliable_def)

lemma WriteUnbuffered_reliable: "WriteUnbuffered f d = (s, f') \<Longrightarrow> wreliable f \<Longrightarrow> ok s \<and> wreliable f'"
proof (induction f d arbitrary: s f' rule: WriteUnbuffered.induct)
  case (1 f d)
  show ?case
  proof (cases "d = []")
    case True
    with 1(3,4) show ?thesis by (simp add: WriteUnbuffered.simps [of f])
  next
    case False
    obtain r fd where w: "sys_write (wfd f) d = (r, fd)" by fastforce
    have rel: "wreliable (f\<lparr>wfd := fd\<rparr>)" and e: "r = Inl e \<Longrightarrow> e = EINTR" for e
      using w 1(4) by (auto simp: sys_write_def wreliable_def Let_def split: list.splits outcome.splits)
    show ?thesis
      using 1(1) [OF False w [symmetric]] 1(2) [OF False w [symmetric]] 1(3) False w rel e
      by (cases r) (auto simp: WriteUnbuffered.simps [of f])
  qed
qed

lemma FlushBuffer_reliable: "FlushBuffer f = (s, f') \<Longrightarrow> wreliable f \<Longrightarrow> ok s \<and> wreliable f'"
  using WriteUnbuffered_reliable [of f "buf f"] by (auto simp: FlushBuffer_def split: prod.splits)

interpretation wr: reliable_file PosixWritableFile_Append PosixWritableFile_Flush wcontents wstored widle wvalid wreliable
proof
  show "ok s \<and> wreliable f'" if "wreliable f" "PosixWritableFile_Append f d = (s, f')" for f d s f'
    using that FlushBuffer_reliable WriteUnbuffered_reliable
    by (fastforce simp: PosixWritableFile_Append_def Let_def split: prod.splits if_splits)
  show "ok s \<and> wreliable f'" if "wreliable f" "PosixWritableFile_Flush f = (s, f')" for f s f'
    using that FlushBuffer_reliable by (simp add: PosixWritableFile_Flush_def)
qed

definition sremaining :: "PosixSequentialFile \<Rightarrow> byte list" where
  "sremaining f = drop (fpos (sfd f)) (fdata (sfd f))"

text \<open>No failures but interrupted calls, and no early stops.\<close>

definition ssteady :: "PosixSequentialFile \<Rightarrow> bool" where
  "ssteady f \<longleftrightarrow> list_all (\<lambda>x. x = Fails EINTR) (fsched (sfd f))"

lemma sys_read_correct:
  assumes "sys_read fd n = (r, fd')"
  shows "fdata fd' = fdata fd"
    and "r = Inr d \<Longrightarrow> length d \<le> n \<and> drop (fpos fd) (fdata fd) = d @ drop (fpos fd') (fdata fd')"
    and "r = Inl e \<Longrightarrow> fpos fd' = fpos fd"
proof -
  have *: "drop p xs = take m (drop p xs) @ drop (p + length (take m (drop p xs))) xs" for p m and xs :: "byte list"
    by (metis add.commute append_take_drop_id drop_drop length_take min.commute drop_take append_eq_conv_conj length_append)
  show "fdata fd' = fdata fd" "r = Inl e \<Longrightarrow> fpos fd' = fpos fd"
    using assms by (auto simp: sys_read_def Let_def split: list.splits outcome.splits)
  show "length d \<le> n \<and> drop (fpos fd) (fdata fd) = d @ drop (fpos fd') (fdata fd')" if "r = Inr d"
    using assms that * [of "fpos fd" "fdata fd"]
    by (auto simp: sys_read_def Let_def split: list.splits outcome.splits)
qed

lemma Read_correct:
  "PosixSequentialFile_Read f n r = (s, d, f') \<Longrightarrow>
   (if ok s then length d \<le> n \<and> sremaining f = d @ sremaining f' else d = r \<and> sremaining f' = sremaining f) \<and>
   (ssteady f \<longrightarrow> ok s \<and> d = take n (sremaining f) \<and> ssteady f')"
proof (induction f n r arbitrary: s d f' rule: PosixSequentialFile_Read.induct)
  case (1 f n r)
  obtain x fd where w: "sys_read (sfd f) n = (x, fd)" by fastforce
  note a = sys_read_correct [OF w]
  show ?case
  proof (cases x)
    case (Inl e)
    have w': "sys_read (sfd f) n = (Inl e, fd)" using w Inl by simp
    have st: "ssteady f \<Longrightarrow> e = EINTR \<and> ssteady (f\<lparr>sfd := fd\<rparr>)"
      using w' by (auto simp: sys_read_def ssteady_def Let_def split: list.splits outcome.splits)
    have same: "sremaining (f\<lparr>sfd := fd\<rparr>) = sremaining f" using a(1) a(3) [OF Inl] by (simp add: sremaining_def)
    show ?thesis
    proof (cases "e = EINTR")
      case True
      have "PosixSequentialFile_Read (f\<lparr>sfd := fd\<rparr>) n r = (s, d, f')"
        using 1(2) w' True by (simp add: PosixSequentialFile_Read.simps [of f])
      from 1(1) [OF w' [symmetric] refl True this] st show ?thesis unfolding same by blast
    next
      case False
      with 1(2) w' st same show ?thesis by (auto simp: PosixSequentialFile_Read.simps [of f])
    qed
  next
    case (Inr y)
    have w': "sys_read (sfd f) n = (Inr y, fd)" using w Inr by simp
    have st: "ssteady f \<Longrightarrow> y = take n (sremaining f) \<and> ssteady (f\<lparr>sfd := fd\<rparr>)"
      using w' by (auto simp: sys_read_def ssteady_def sremaining_def Let_def split: list.splits outcome.splits)
    with 1(2) w' a(1) a(2) [OF Inr] show ?thesis
      by (auto simp: PosixSequentialFile_Read.simps [of f] sremaining_def)
  qed
qed

interpretation sf: steady_file PosixSequentialFile_Read sremaining ssteady
  by unfold_locales (use Read_correct in \<open>fastforce split: if_splits\<close>)+

end
