(* ===== verification/Ldb_Log.thy ===== *)
theory Ldb_Log
  imports Ldb_Crc32c Ldb_Env
begin

unbundle bit_operations_syntax

text \<open>
  \<open>leveldb/db/log_format.h\<close>, \<open>log_writer.cc\<close> and \<open>log_reader.cc\<close>: the write-ahead log. The writer cuts records
  into fragments that do not cross blocks of 32 KB, each with a masked checksum; the reader puts them together
  again, skips what is damaged and tells a reporter. Both work on the file interfaces of \<open>Ldb_Env\<close>, whose
  operations are arguments here. The proofs are in \<open>Ldb_Log_Proofs\<close>.
\<close>

section \<open>Format\<close>

datatype RecordType = kZeroType | kFullType | kFirstType | kMiddleType | kLastType

fun type_number :: "RecordType \<Rightarrow> nat" where
  "type_number kZeroType = 0"
| "type_number kFullType = 1"
| "type_number kFirstType = 2"
| "type_number kMiddleType = 3"
| "type_number kLastType = 4"

definition kMaxRecordType :: nat where
  "kMaxRecordType = type_number kLastType"

definition kBlockSize :: nat where
  "kBlockSize = 32768"

definition kHeaderSize :: nat where
  "kHeaderSize = 4 + 2 + 1"

lemmas log_consts = kBlockSize_def kHeaderSize_def

section \<open>Writer\<close>

record 'f log_writer =
  dest :: 'f
  block_offset :: int
  type_crc :: "u32 list"

text \<open>\<open>a\<close> is the address of the local variable \<open>t\<close>.\<close>

definition InitTypeCrc :: "addr \<Rightarrow> u32 list" where
  "InitTypeCrc a = map (\<lambda>i. Value a [word_of_nat i]) [0..<kMaxRecordType + 1]"

definition new_Writer :: "addr \<Rightarrow> 'f \<Rightarrow> 'f log_writer" where
  "new_Writer a f = \<lparr>dest = f, block_offset = 0, type_crc = InitTypeCrc a\<rparr>"

text \<open>The constructor for a file that already has \<open>dest_length\<close> bytes.\<close>

definition new_Writer_at :: "addr \<Rightarrow> 'f \<Rightarrow> u64 \<Rightarrow> 'f log_writer" where
  "new_Writer_at a f dest_length =
     \<lparr>dest = f, block_offset = uint (dest_length mod word_of_nat kBlockSize), type_crc = InitTypeCrc a\<rparr>"

text \<open>\<open>app\<close> and \<open>fl\<close> are \<open>dest_->Append\<close> and \<open>dest_->Flush\<close>; \<open>a\<close> is the address of the payload.\<close>

definition EmitPhysicalRecord ::
  "('f \<Rightarrow> slice \<Rightarrow> status \<times> 'f) \<Rightarrow> ('f \<Rightarrow> status \<times> 'f) \<Rightarrow> 'f log_writer \<Rightarrow> RecordType \<Rightarrow> addr \<Rightarrow> slice \<Rightarrow> status \<times> 'f log_writer"
where
  "EmitPhysicalRecord app fl w t a ptr =
     (let len = word_of_nat (length ptr) :: u64;
          crc = Mask (Extend a (type_crc w ! type_number t) ptr);
          hdr = EncodeFixed32 crc @ [ucast (len AND 0xff), ucast (drop_bit 8 len), word_of_nat (type_number t)];
          (s, f) = app (dest w) hdr;
          (s, f) = (if ok s
                    then (case app f ptr of (s, f) \<Rightarrow> if ok s then fl f else (s, f))
                    else (s, f))
      in (s, w\<lparr>dest := f, block_offset := block_offset w + int kHeaderSize + int (length ptr)\<rparr>))"

text \<open>The top of the loop of \<open>AddRecord\<close>: a block with no room for a header is filled with zeros; the status of
  that \<open>Append\<close> is not looked at.\<close>

definition switch_block :: "('f \<Rightarrow> slice \<Rightarrow> status \<times> 'f) \<Rightarrow> 'f log_writer \<Rightarrow> 'f log_writer" where
  "switch_block app w =
     (let leftover = int kBlockSize - block_offset w in
      if leftover < int kHeaderSize
      then (if leftover > 0 then w\<lparr>dest := snd (app (dest w) (replicate (nat leftover) 0))\<rparr> else w)\<lparr>block_offset := 0\<rparr>
      else w)"

definition fragment_type :: "bool \<Rightarrow> bool \<Rightarrow> RecordType" where
  "fragment_type starts ends =
     (if starts \<and> ends then kFullType else if starts then kFirstType else if ends then kLastType else kMiddleType)"

lemma switch_block_offset: "block_offset (switch_block app w) \<le> int kBlockSize - int kHeaderSize"
  by (simp add: switch_block_def Let_def log_consts)

lemma Emit_offset:
  "EmitPhysicalRecord app fl w t a ptr = (s, w') \<Longrightarrow> block_offset w' = block_offset w + int kHeaderSize + int (length ptr)"
  by (auto simp: EmitPhysicalRecord_def Let_def split: prod.splits if_splits)

function add_record_loop ::
  "('f \<Rightarrow> slice \<Rightarrow> status \<times> 'f) \<Rightarrow> ('f \<Rightarrow> status \<times> 'f) \<Rightarrow> bool \<Rightarrow> addr \<Rightarrow> slice \<Rightarrow> 'f log_writer \<Rightarrow> status \<times> 'f log_writer"
where
  "add_record_loop app fl starts a ptr w =
     (let w1 = switch_block app w;
          avail = nat (int kBlockSize - block_offset w1 - int kHeaderSize);
          fragment_length = (if length ptr < avail then length ptr else avail);
          ends = (length ptr = fragment_length)
      in case EmitPhysicalRecord app fl w1 (fragment_type starts ends) a (take fragment_length ptr) of
           (s, w2) \<Rightarrow>
             if ok s \<and> length (drop fragment_length ptr) > 0
             then add_record_loop app fl False (a + fragment_length) (drop fragment_length ptr) w2
             else (s, w2))"
  by pat_completeness auto
termination
proof (relation "measures [\<lambda>(_, _, _, _, p, _). length p,
      \<lambda>(_, _, _, _, _, w). if block_offset w = int kBlockSize - int kHeaderSize then 1 else 0]", goal_cases)
  case 1
  show ?case by simp
next
  case (2 app fl b a ptr w w1 avail n ends s w2)
  have off: "block_offset w2 = block_offset w1 + int kHeaderSize + int (length (take n ptr))"
    by (rule Emit_offset [OF 2(5) [symmetric]])
  show ?case
  proof (cases "avail = 0")
    case True
    then have "block_offset w1 = int kBlockSize - int kHeaderSize"
      using switch_block_offset [of app w] 2(1,2) by simp
    moreover from this have "block_offset w = int kBlockSize - int kHeaderSize"
      using 2(1) by (auto simp: switch_block_def Let_def log_consts split: if_splits)
    ultimately show ?thesis using off 2(3) True 2(6) by (simp add: log_consts)
  next
    case False
    then show ?thesis using 2(3,6) by (auto split: if_splits)
  qed
qed

declare add_record_loop.simps [simp del]

definition AddRecord ::
  "('f \<Rightarrow> slice \<Rightarrow> status \<times> 'f) \<Rightarrow> ('f \<Rightarrow> status \<times> 'f) \<Rightarrow> 'f log_writer \<Rightarrow> addr \<Rightarrow> slice \<Rightarrow> status \<times> 'f log_writer"
where
  "AddRecord app fl w a data = add_record_loop app fl True a data w"

section \<open>Reader\<close>

text \<open>
  \<open>reports\<close> is what the reporter has been told, latest first; \<open>reporter\<close> is whether there is one. \<open>buffer_at\<close> is
  the data pointer of the slice \<open>buffer_\<close>.
\<close>

record 'f log_reader =
  rfile :: 'f
  reporter :: bool
  reports :: "(u64 \<times> status) list"
  checksum :: bool
  backing_store :: addr
  buffer_at :: addr
  buffer :: slice
  eof :: bool
  last_record_offset :: u64
  end_of_buffer_offset :: u64
  initial_offset :: u64
  resyncing :: bool

definition new_Reader :: "'f \<Rightarrow> bool \<Rightarrow> bool \<Rightarrow> addr \<Rightarrow> u64 \<Rightarrow> 'f log_reader" where
  "new_Reader f rep chk store offset =
     \<lparr>rfile = f, reporter = rep, reports = [], checksum = chk, backing_store = store, buffer_at = 0, buffer = [],
      eof = False, last_record_offset = 0, end_of_buffer_offset = 0, initial_offset = offset, resyncing = offset > 0\<rparr>"

definition kEof :: u32 where
  "kEof = word_of_nat (kMaxRecordType + 1)"

definition kBadRecord :: u32 where
  "kBadRecord = word_of_nat (kMaxRecordType + 2)"

definition ReportDrop :: "u64 \<Rightarrow> status \<Rightarrow> 'f log_reader \<Rightarrow> 'f log_reader" where
  "ReportDrop bytes reason r =
     (if reporter r \<and> end_of_buffer_offset r - word_of_nat (length (buffer r)) - bytes \<ge> initial_offset r
      then r\<lparr>reports := (bytes, reason) # reports r\<rparr> else r)"

definition ReportCorruption :: "u64 \<Rightarrow> byte list \<Rightarrow> 'f log_reader \<Rightarrow> 'f log_reader" where
  "ReportCorruption bytes reason r = ReportDrop bytes (Corruption reason []) r"

definition SkipToInitialBlock :: "('f \<Rightarrow> u64 \<Rightarrow> status \<times> 'f) \<Rightarrow> 'f log_reader \<Rightarrow> bool \<times> 'f log_reader" where
  "SkipToInitialBlock skip r =
     (let offset_in_block = initial_offset r mod word_of_nat kBlockSize;
          start = initial_offset r - offset_in_block;
          start = (if offset_in_block > word_of_nat (kBlockSize - 6) then start + word_of_nat kBlockSize else start);
          r = r\<lparr>end_of_buffer_offset := start\<rparr>
      in if start > 0
         then (case skip (rfile r) start of (s, f) \<Rightarrow>
                 let r = r\<lparr>rfile := f\<rparr> in if \<not> ok s then (False, ReportDrop start s r) else (True, r))
         else (True, r))"

text \<open>The fields of a header: length and type. \<open>header[6]\<close> is a signed \<open>char\<close>, widened to \<open>unsigned int\<close>.\<close>

definition header_length :: "slice \<Rightarrow> u32" where
  "header_length header =
     (let a = ucast (header ! 4) AND 0xff; b = ucast (header ! 5) AND 0xff in a OR push_bit 8 b)"

definition header_type :: "slice \<Rightarrow> u32" where
  "header_type header = scast (header ! 6)"

text \<open>The part of \<open>ReadPhysicalRecord\<close> after the buffer is known to hold a header. \<open>result\<close> is the caller's slice.\<close>

definition parse_physical :: "'f log_reader \<Rightarrow> slice \<Rightarrow> u32 \<times> slice \<times> 'f log_reader" where
  "parse_physical r result =
     (let header = buffer r;
          type = header_type header;
          len = unat (header_length header)
      in if kHeaderSize + len > length (buffer r) then
           (let drop_size = word_of_nat (length (buffer r)); r = r\<lparr>buffer := []\<rparr> in
            if \<not> eof r then (kBadRecord, result, ReportCorruption drop_size (str ''bad record length'') r)
            else (kEof, result, r))
         else if type = word_of_nat (type_number kZeroType) \<and> len = 0 then (kBadRecord, result, r\<lparr>buffer := []\<rparr>)
         else if checksum r \<and> Value (buffer_at r + 6) (take (1 + len) (drop 6 header)) \<noteq> Unmask (DecodeFixed32 header) then
           (let drop_size = word_of_nat (length (buffer r)); r = r\<lparr>buffer := []\<rparr> in
            (kBadRecord, result, ReportCorruption drop_size (str ''checksum mismatch'') r))
         else
           (let r = r\<lparr>buffer := remove_prefix (kHeaderSize + len) (buffer r), buffer_at := buffer_at r + (kHeaderSize + len)\<rparr> in
            if end_of_buffer_offset r - word_of_nat (length (buffer r)) - word_of_nat kHeaderSize - word_of_nat len < initial_offset r
            then (kBadRecord, [], r)
            else (type, take len (drop kHeaderSize header), r)))"

text \<open>The rest of the loop fills the buffer; after a read it either holds a whole block or \<open>eof\<close> is set.\<close>

definition fill_buffer :: "('f \<Rightarrow> nat \<Rightarrow> slice \<Rightarrow> status \<times> slice \<times> 'f) \<Rightarrow> 'f log_reader \<Rightarrow> status \<times> 'f log_reader" where
  "fill_buffer rd r =
     (case rd (rfile r) kBlockSize [] of (s, d, f) \<Rightarrow>
        (s, r\<lparr>rfile := f, buffer := d, buffer_at := backing_store r,
              end_of_buffer_offset := end_of_buffer_offset r + word_of_nat (length d)\<rparr>))"

function ReadPhysicalRecord ::
  "('f \<Rightarrow> nat \<Rightarrow> slice \<Rightarrow> status \<times> slice \<times> 'f) \<Rightarrow> 'f log_reader \<Rightarrow> slice \<Rightarrow> u32 \<times> slice \<times> 'f log_reader" where
  "ReadPhysicalRecord rd r result =
     (if length (buffer r) < kHeaderSize then
        if \<not> eof r then
          (case fill_buffer rd r of (s, r) \<Rightarrow>
             if \<not> ok s then (kEof, result, (ReportDrop (word_of_nat kBlockSize) s (r\<lparr>buffer := []\<rparr>))\<lparr>eof := True\<rparr>)
             else ReadPhysicalRecord rd (if length (buffer r) < kBlockSize then r\<lparr>eof := True\<rparr> else r) result)
        else (kEof, result, r\<lparr>buffer := []\<rparr>)
      else parse_physical r result)"
  by pat_completeness auto
termination
  by (relation "measure (\<lambda>(_, r, _). if length (buffer r) < kHeaderSize \<and> \<not> eof r then 1 else 0)")
    (auto simp: log_consts)

declare ReadPhysicalRecord.simps [simp del]

text \<open>The local variables of \<open>ReadRecord\<close> and its reader.\<close>

record 'f read_state =
  in_fragmented_record :: bool
  prospective_record_offset :: u64
  fragment :: slice
  scratch :: "byte list"
  rec_out :: slice
  rdr :: "'f log_reader"

text \<open>The \<open>switch\<close>. \<open>Inl\<close> goes round the loop again, \<open>Inr\<close> returns. \<open>phys\<close> is \<open>physical_record_offset\<close>.\<close>

definition report_partial :: "byte list \<Rightarrow> 'f read_state \<Rightarrow> 'f read_state" where
  "report_partial reason st =
     (if in_fragmented_record st \<and> scratch st \<noteq> []
      then st\<lparr>rdr := ReportCorruption (word_of_nat (length (scratch st))) reason (rdr st)\<rparr> else st)"

definition dispatch :: "u32 \<Rightarrow> u64 \<Rightarrow> 'f read_state \<Rightarrow> 'f read_state + bool \<times> 'f read_state" where
  "dispatch record_type phys st =
     (let size = (\<lambda>xs::byte list. word_of_nat (length xs) :: u64);
          report = (\<lambda>n reason st. st\<lparr>rdr := ReportCorruption n reason (rdr st)\<rparr>)
      in if record_type = word_of_nat (type_number kFullType) then
           (let st = report_partial (str ''partial record without end(1)'') st in
            Inr (True, st\<lparr>prospective_record_offset := phys, scratch := [], rec_out := fragment st,
                          rdr := (rdr st)\<lparr>last_record_offset := phys\<rparr>\<rparr>))
         else if record_type = word_of_nat (type_number kFirstType) then
           (let st = report_partial (str ''partial record without end(2)'') st in
            Inl (st\<lparr>prospective_record_offset := phys, scratch := fragment st, in_fragmented_record := True\<rparr>))
         else if record_type = word_of_nat (type_number kMiddleType) then
           (if \<not> in_fragmented_record st
            then Inl (report (size (fragment st)) (str ''missing start of fragmented record(1)'') st)
            else Inl (st\<lparr>scratch := scratch st @ fragment st\<rparr>))
         else if record_type = word_of_nat (type_number kLastType) then
           (if \<not> in_fragmented_record st
            then Inl (report (size (fragment st)) (str ''missing start of fragmented record(2)'') st)
            else let st = st\<lparr>scratch := scratch st @ fragment st\<rparr> in
                 Inr (True, st\<lparr>rec_out := scratch st,
                               rdr := (rdr st)\<lparr>last_record_offset := prospective_record_offset st\<rparr>\<rparr>))
         else if record_type = kEof then
           Inr (False, if in_fragmented_record st then st\<lparr>scratch := []\<rparr> else st)
         else if record_type = kBadRecord then
           (if in_fragmented_record st
            then Inl ((report (size (scratch st)) (str ''error in middle of record'') st)
                        \<lparr>in_fragmented_record := False, scratch := []\<rparr>)
            else Inl st)
         else
           Inl ((report (size (fragment st) + (if in_fragmented_record st then size (scratch st) else 0))
                   (str ''unknown record type '' @ decimal (unat record_type)) st)
                  \<lparr>in_fragmented_record := False, scratch := []\<rparr>))"

definition read_record_step ::
  "('f \<Rightarrow> nat \<Rightarrow> slice \<Rightarrow> status \<times> slice \<times> 'f) \<Rightarrow> 'f read_state \<Rightarrow> 'f read_state + bool \<times> 'f read_state" where
  "read_record_step rd st =
     (case ReadPhysicalRecord rd (rdr st) (fragment st) of (record_type, frag, r) \<Rightarrow>
        let phys = end_of_buffer_offset r - word_of_nat (length (buffer r)) - word_of_nat kHeaderSize - word_of_nat (length frag);
            st = st\<lparr>fragment := frag, rdr := r\<rparr>
        in if resyncing r then
             if record_type = word_of_nat (type_number kMiddleType) then Inl st
             else if record_type = word_of_nat (type_number kLastType) then Inl (st\<lparr>rdr := r\<lparr>resyncing := False\<rparr>\<rparr>)
             else dispatch record_type phys (st\<lparr>rdr := r\<lparr>resyncing := False\<rparr>\<rparr>)
           else dispatch record_type phys st)"

text \<open>\<open>while (true)\<close>: on an endless file the loop need not end.\<close>

partial_function (option) read_record_loop ::
  "('f \<Rightarrow> nat \<Rightarrow> slice \<Rightarrow> status \<times> slice \<times> 'f) \<Rightarrow> 'f read_state \<Rightarrow> (bool \<times> 'f read_state) option" where
  "read_record_loop rd st =
     (case read_record_step rd st of Inl st' \<Rightarrow> read_record_loop rd st' | Inr res \<Rightarrow> Some res)"

text \<open>The result, \<open>*record\<close>, \<open>*scratch\<close> and the reader.\<close>

definition ReadRecord ::
  "('f \<Rightarrow> nat \<Rightarrow> slice \<Rightarrow> status \<times> slice \<times> 'f) \<Rightarrow> ('f \<Rightarrow> u64 \<Rightarrow> status \<times> 'f) \<Rightarrow> 'f log_reader \<Rightarrow> slice \<Rightarrow> byte list \<Rightarrow>
   (bool \<times> slice \<times> byte list \<times> 'f log_reader) option" where
  "ReadRecord rd skip r out scr =
     (case (if last_record_offset r < initial_offset r then SkipToInitialBlock skip r else (True, r)) of (go, r) \<Rightarrow>
        if \<not> go then Some (False, out, scr, r)
        else map_option (\<lambda>(b, st). (b, rec_out st, scratch st, rdr st))
          (read_record_loop rd
             \<lparr>in_fragmented_record = False, prospective_record_offset = 0, fragment = [], scratch = [], rec_out = [], rdr = r\<rparr>))"

definition LastRecordOffset :: "'f log_reader \<Rightarrow> u64" where
  "LastRecordOffset r = last_record_offset r"

end
