(* ===== verification/Ldb_Log_Proofs.thy ===== *)
theory Ldb_Log_Proofs
  imports Ldb_Log
begin

unbundle bit_operations_syntax

text \<open>
  Correctness of the log of \<open>Ldb_Log\<close>. The layout of a log is an inductive relation between the bytes of a file and
  the records in it. The writer extends the layout by each record (over every \<open>writable_file\<close>), the reader returns
  the records of a layout (over every \<open>steady_file\<close>), and it ends on every finite file (over every
  \<open>sequential_file\<close>).
\<close>

section \<open>The layout of a log\<close>

definition physical :: "RecordType \<Rightarrow> slice \<Rightarrow> byte list" where
  "physical t d =
     EncodeFixed32 (Mask (crc32c_ref 0 (word_of_nat (type_number t) # d))) @
     [word_of_nat (length d), word_of_nat (length d div 256), word_of_nat (type_number t)] @ d"

lemma length_physical [simp]: "length (physical t d) = kHeaderSize + length d"
  by (simp add: physical_def kHeaderSize_def)

definition pad :: "nat \<Rightarrow> nat" where
  "pad p = (let left = kBlockSize - p mod kBlockSize in if left < kHeaderSize then left else 0)"

text \<open>\<open>laid_out F p frs e\<close>: from offset \<open>p\<close> to offset \<open>e\<close> the file \<open>F\<close> holds the physical records \<open>frs\<close>.\<close>

inductive laid_out :: "byte list \<Rightarrow> nat \<Rightarrow> (RecordType \<times> slice) list \<Rightarrow> nat \<Rightarrow> bool" for F where
  laid_nil: "laid_out F p [] p"
| laid_cons: "q = p + pad p \<Longrightarrow> q mod kBlockSize + kHeaderSize + length d \<le> kBlockSize \<Longrightarrow>
    take (kHeaderSize + length d) (drop q F) = physical t d \<Longrightarrow> laid_out F (q + kHeaderSize + length d) frs e \<Longrightarrow>
    laid_out F p ((t, d) # frs) e"

inductive_cases laid_nilE: "laid_out F p [] e"
inductive_cases laid_consE: "laid_out F p ((t, d) # frs) e"

text \<open>The fragments of one record; the flag says whether the first of them starts the record.\<close>

inductive fragments :: "bool \<Rightarrow> (RecordType \<times> slice) list \<Rightarrow> slice \<Rightarrow> bool" where
  whole: "fragments b [(fragment_type b True, d)] d"
| more: "fragments False frs d' \<Longrightarrow> fragments b ((fragment_type b False, d) # frs) (d @ d')"

text \<open>A sequence of records.\<close>

inductive log_holds :: "byte list \<Rightarrow> nat \<Rightarrow> slice list \<Rightarrow> nat \<Rightarrow> bool" for F where
  holds_nil: "log_holds F p [] p"
| holds_cons: "fragments True frs d \<Longrightarrow> laid_out F p frs q \<Longrightarrow> log_holds F q ds e \<Longrightarrow> log_holds F p (d # ds) e"

lemma laid_out_append: "laid_out F p frs e \<Longrightarrow> laid_out (F @ G) p frs e"
proof (induction rule: laid_out.induct)
  case (laid_nil p)
  show ?case by (rule laid_out.laid_nil)
next
  case (laid_cons q p d t frs e)
  have "kHeaderSize + length d = min (length F - q) (kHeaderSize + length d)"
    using arg_cong [OF laid_cons(3), of length] by simp
  then have "take (kHeaderSize + length d) (drop q (F @ G)) = physical t d"
    using laid_cons(3) by (simp add: min_def split: if_splits)
  with laid_cons show ?case by (blast intro: laid_out.laid_cons)
qed

lemma log_holds_append: "log_holds F p ds e \<Longrightarrow> log_holds (F @ G) p ds e"
  by (induction rule: log_holds.induct) (auto intro: log_holds.intros laid_out_append)

lemma log_holds_snoc:
  "log_holds F p ds q \<Longrightarrow> fragments True frs d \<Longrightarrow> laid_out F q frs e \<Longrightarrow> log_holds F p (ds @ [d]) e"
  by (induction rule: log_holds.induct) (auto intro: log_holds.intros)

lemma type_crc: "InitTypeCrc b ! type_number t = crc32c_ref 0 [word_of_nat (type_number t)]"
proof -
  have "type_number t < kMaxRecordType + 1" by (cases t) (simp_all add: kMaxRecordType_def)
  then show ?thesis by (simp add: InitTypeCrc_def Value_def Extend_eq del: upt_Suc)
qed

lemma len_bytes:
  "ucast ((word_of_nat n :: u64) AND 0xff) = (word_of_nat n :: byte)"
  "n < 65536 \<Longrightarrow> ucast (drop_bit 8 (word_of_nat n :: u64)) = (word_of_nat (n div 256) :: byte)"
proof -
  have "(word_of_nat n :: u64) AND 0xff = take_bit 8 (word_of_nat n)"
    by (simp add: take_bit_eq_mask mask_eq_exp_minus_1)
  then show "ucast ((word_of_nat n :: u64) AND 0xff) = (word_of_nat n :: byte)"
    by (intro bit_eqI) (auto simp: bit_ucast_iff bit_take_bit_iff bit_of_nat_iff)
  have "n div 256 = drop_bit 8 n" by (simp add: drop_bit_eq_div)
  then show "ucast (drop_bit 8 (word_of_nat n :: u64)) = (word_of_nat (n div 256) :: byte)"
    by (intro bit_eqI) (auto simp: bit_ucast_iff bit_drop_bit_eq bit_of_nat_iff)
qed

section \<open>The writer produces the layout\<close>

lemma switch_block_simps [simp]: "type_crc (switch_block app w) = type_crc w"
  by (simp add: switch_block_def Let_def)

text \<open>What holds of a writer between two calls: the offset in the block is that of the end of the file.\<close>

definition writer_inv :: "('f \<Rightarrow> bool) \<Rightarrow> ('f \<Rightarrow> byte list) \<Rightarrow> 'f log_writer \<Rightarrow> bool" where
  "writer_inv valid contents w \<longleftrightarrow> valid (dest w) \<and> (\<exists>b. type_crc w = InitTypeCrc b) \<and> 0 \<le> block_offset w \<and>
     block_offset w \<le> int kBlockSize \<and> length (contents (dest w)) mod kBlockSize = nat (block_offset w) mod kBlockSize"

text \<open>One round of the loop: the room left in the block, the length of the next fragment.\<close>

definition room_after :: "'f log_writer \<Rightarrow> nat" where
  "room_after w = nat (int kBlockSize - block_offset w - int kHeaderSize)"

definition next_fragment :: "'f log_writer \<Rightarrow> slice \<Rightarrow> nat" where
  "next_fragment w d = (if length d < room_after w then length d else room_after w)"

lemma add_record_loop_round:
  assumes "EmitPhysicalRecord app fl (switch_block app w)
    (fragment_type b (length d = next_fragment (switch_block app w) d)) a (take (next_fragment (switch_block app w) d) d) = (s2, w2)"
  shows "add_record_loop app fl b a d w =
    (let n = next_fragment (switch_block app w) d in
     if ok s2 \<and> length (drop n d) > 0 then add_record_loop app fl False (a + n) (drop n d) w2 else (s2, w2))"
  using assms unfolding add_record_loop.simps [of app fl b a d w] next_fragment_def room_after_def Let_def by simp

context writable_file
begin

lemma Emit_correct:
  assumes e: "EmitPhysicalRecord append flush w t a d = (s, w')" and s: "ok s" and inv: "writer_inv valid contents w"
    and room: "nat (block_offset w) + kHeaderSize + length d \<le> kBlockSize"
  shows "contents (dest w') = contents (dest w) @ physical t d \<and> stored (dest w') = contents (dest w') \<and>
    writer_inv valid contents w' \<and> idle (dest w')"
proof -
  obtain b where b: "type_crc w = InitTypeCrc b" and v: "valid (dest w)"
    using inv by (auto simp: writer_inv_def)
  define h where "h = EncodeFixed32 (Mask (Extend a (type_crc w ! type_number t) d)) @
    [ucast ((word_of_nat (length d) :: u64) AND 0xff), ucast (drop_bit 8 (word_of_nat (length d) :: u64)), word_of_nat (type_number t)]"
  obtain s1 f1 where 1: "append (dest w) h = (s1, f1)" by fastforce
  obtain s2 f2 where 2: "append f1 d = (s2, f2)" by fastforce
  obtain s3 f3 where 3: "flush f2 = (s3, f3)" by fastforce
  have w': "ok s1" "ok s2" "ok s3" "w' = w\<lparr>dest := f3, block_offset := block_offset w + int kHeaderSize + int (length d)\<rparr>"
    using e s 1 2 3 by (auto simp: EmitPhysicalRecord_def Let_def h_def [symmetric] split: if_splits)
  note v1 = append_valid [OF v 1] and c1 = append_ok [OF v 1 w'(1)]
  note v2 = append_valid [OF v1 2] and c2 = append_ok [OF v1 2 w'(2)]
  note v3 = flush_valid [OF v2 3] and c3 = flush_ok [OF v2 3 w'(3)]
  have "h @ d = physical t d"
    using room by (simp add: h_def physical_def b type_crc Extend_eq crc32c_ref_append len_bytes log_consts)
  with c1 c2 c3 have c: "contents f3 = contents (dest w) @ physical t d" by simp
  have "length (contents f3) mod kBlockSize = (length (contents (dest w)) mod kBlockSize + (kHeaderSize + length d)) mod kBlockSize"
    by (simp add: c mod_add_left_eq)
  also have "\<dots> = (nat (block_offset w) + (kHeaderSize + length d)) mod kBlockSize"
    using inv by (simp add: writer_inv_def mod_add_left_eq)
  finally have "writer_inv valid contents w'"
    using v3 inv b room by (auto simp: writer_inv_def w'(4) nat_add_distrib nat_le_iff add.assoc)
  with c c3 flush_idle [OF 3] show ?thesis by (simp add: w'(4))
qed

lemma switch_block_correct:
  assumes inv: "writer_inv valid contents w" and i: "idle (dest w)"
  shows "contents (dest (switch_block append w)) = contents (dest w) @ replicate (pad (length (contents (dest w)))) 0 \<and>
    writer_inv valid contents (switch_block append w)"
proof -
  let ?c = "contents (dest w)" and ?l = "kBlockSize - nat (block_offset w)"
  have bo: "0 \<le> block_offset w" "block_offset w \<le> int kBlockSize" "length ?c mod kBlockSize = nat (block_offset w) mod kBlockSize"
    using inv by (simp_all add: writer_inv_def)
  consider "block_offset w = int kBlockSize" | "0 < ?l" "?l < kHeaderSize" | "kHeaderSize \<le> ?l"
    using bo by linarith
  then show ?thesis
  proof cases
    case 1
    then have "length ?c mod kBlockSize = 0" using bo by simp
    then show ?thesis using 1 inv bo by (simp add: switch_block_def pad_def writer_inv_def Let_def log_consts)
  next
    case 2
    then have p: "pad (length ?c) = ?l" using bo by (simp add: pad_def Let_def)
    obtain s f where a: "append (dest w) (replicate ?l 0) = (s, f)" by fastforce
    have v: "valid (dest w)" using inv by (simp add: writer_inv_def)
    have "ok s" using append_small [OF i, of "replicate ?l 0"] a 2 by (simp add: log_consts)
    note c = append_ok [OF v a this]
    have sw: "switch_block append w = w\<lparr>dest := f, block_offset := 0\<rparr>"
      using 2 bo a by (auto simp: switch_block_def Let_def nat_diff_distrib)
    have "length (contents f) mod kBlockSize = (length ?c mod kBlockSize + ?l) mod kBlockSize"
      by (simp add: c mod_add_left_eq)
    also have "\<dots> = 0" using bo 2 by simp
    finally show ?thesis using inv append_valid [OF v a] c p by (simp add: sw writer_inv_def)
  next
    case 3
    then have "pad (length ?c) = 0" and "switch_block append w = w"
      using bo by (auto simp: pad_def Let_def log_consts switch_block_def)
    with inv show ?thesis by simp
  qed
qed

lemma add_record_loop_correct:
  "add_record_loop append flush b a d w = (s, w') \<Longrightarrow> ok s \<Longrightarrow> writer_inv valid contents w \<Longrightarrow> idle (dest w) \<Longrightarrow>
   (\<exists>frs X. fragments b frs d \<and> contents (dest w') = contents (dest w) @ X \<and>
      laid_out (contents (dest w')) (length (contents (dest w))) frs (length (contents (dest w')))) \<and>
   stored (dest w') = contents (dest w') \<and> writer_inv valid contents w' \<and> idle (dest w')"
proof (induction app \<equiv> append fl \<equiv> flush b a d w arbitrary: s w' rule: add_record_loop.induct)
  case (1 b a d w)
  define w1 where "w1 = switch_block append w"
  define n where "n = next_fragment w1 d"
  obtain s2 w2 where e: "EmitPhysicalRecord append flush w1 (fragment_type b (length d = n)) a (take n d) = (s2, w2)" by fastforce
  have res: "(s, w') = (if ok s2 \<and> length (drop n d) > 0 then add_record_loop append flush False (a + n) (drop n d) w2 else (s2, w2))"
    using 1(2) [unfolded add_record_loop_round [OF e [unfolded n_def w1_def]] Let_def] by (simp only: n_def w1_def)
  then have s2: "ok s2" using 1(3) by (auto split: if_splits)
  from switch_block_correct [OF 1(4,5)] have
    c1: "contents (dest w1) = contents (dest w) @ replicate (pad (length (contents (dest w)))) 0" and inv1: "writer_inv valid contents w1"
    by (simp_all add: w1_def)
  have bo: "0 \<le> block_offset w1" "nat (block_offset w1) + kHeaderSize \<le> kBlockSize"
    using switch_block_offset [of append w] inv1 by (auto simp: w1_def writer_inv_def)
  then have room: "nat (block_offset w1) + kHeaderSize + length (take n d) \<le> kBlockSize"
    by (auto simp: n_def next_fragment_def room_after_def)
  note em = Emit_correct [OF e s2 inv1 room]
  let ?p = "length (contents (dest w))"
  have block: "(?p + pad ?p) mod kBlockSize + kHeaderSize + length (take n d) \<le> kBlockSize"
    using room inv1 bo by (simp add: writer_inv_def c1 log_consts)
  have phys: "take (kHeaderSize + length (take n d)) (drop (?p + pad ?p) (contents (dest w2) @ X)) =
      physical (fragment_type b (length d = n)) (take n d)" for X
    using em by (simp add: c1)
  show ?case
  proof (cases "length (drop n d) > 0")
    case False
    then have "take n d = d" "length d = n" and w': "w' = w2"
      using res s2 by (auto simp: n_def next_fragment_def split: if_splits)
    then have "laid_out (contents (dest w2)) ?p [(fragment_type b True, d)] (length (contents (dest w2)))"
      using block phys [of "[]"] em
      by (intro laid_out.laid_cons [OF refl]) (auto simp: c1 add.assoc intro: laid_out.laid_nil)
    then show ?thesis using em w' by (auto simp: c1 intro: fragments.whole)
  next
    case True
    then have rest: "add_record_loop append flush False (a + n) (drop n d) w2 = (s, w')" and ne: "length d \<noteq> n"
      using res s2 by auto
    have "ok s2 \<and> 0 < length (drop n d)" using s2 True by simp
    from 1(1) [OF w1_def refl n_def [unfolded next_fragment_def room_after_def] refl e [symmetric] this rest 1(3)] em obtain frs X where
      frs: "fragments False frs (drop n d)" and X: "contents (dest w') = contents (dest w2) @ X"
      and laid: "laid_out (contents (dest w')) (length (contents (dest w2))) frs (length (contents (dest w')))"
      and w': "stored (dest w') = contents (dest w')" "writer_inv valid contents w'" "idle (dest w')"
      by blast
    have "laid_out (contents (dest w')) ?p ((fragment_type b False, take n d) # frs) (length (contents (dest w')))"
      using block phys [of X] laid em ne
      by (intro laid_out.laid_cons [OF refl]) (auto simp: c1 X add.assoc)
    moreover have "fragments b ((fragment_type b False, take n d) # frs) d"
      using fragments.more [OF frs, of b "take n d"] by simp
    ultimately show ?thesis using em X w' by (auto simp: c1)
  qed
qed

end

text \<open>A run of calls of \<open>AddRecord\<close>, and whether all of them succeeded.\<close>

primrec add_records ::
  "('f \<Rightarrow> slice \<Rightarrow> status \<times> 'f) \<Rightarrow> ('f \<Rightarrow> status \<times> 'f) \<Rightarrow> (addr \<times> slice) list \<Rightarrow> 'f log_writer \<Rightarrow> bool \<times> 'f log_writer"
where
  "add_records app fl [] w = (True, w)"
| "add_records app fl (x # xs) w =
     (case AddRecord app fl w (fst x) (snd x) of (s, w') \<Rightarrow> if ok s then add_records app fl xs w' else (False, w'))"

context reliable_file
begin

lemma Emit_reliable:
  assumes "reliable (dest w)" and "EmitPhysicalRecord append flush w t a d = (s, w')"
  shows "ok s \<and> reliable (dest w')"
proof -
  obtain s1 f1 where 1: "append (dest w) (EncodeFixed32 (Mask (Extend a (type_crc w ! type_number t) d)) @
      [ucast ((word_of_nat (length d) :: u64) AND 0xff), ucast (drop_bit 8 (word_of_nat (length d) :: u64)),
       word_of_nat (type_number t)]) = (s1, f1)" by fastforce
  obtain s2 f2 where 2: "append f1 d = (s2, f2)" by fastforce
  obtain s3 f3 where 3: "flush f2 = (s3, f3)" by fastforce
  note r1 = append_reliable [OF assms(1) 1]
  note r2 = append_reliable [OF conjunct2 [OF r1] 2]
  note r3 = flush_reliable [OF conjunct2 [OF r2] 3]
  show ?thesis using assms(2) r1 r2 r3 1 2 3 by (auto simp: EmitPhysicalRecord_def Let_def)
qed

lemma switch_block_reliable: "reliable (dest w) \<Longrightarrow> reliable (dest (switch_block append w))"
  using append_reliable [OF _ surjective_pairing] by (simp add: switch_block_def Let_def)

lemma add_record_loop_reliable:
  "reliable (dest w) \<Longrightarrow> add_record_loop append flush b a d w = (s, w') \<Longrightarrow> ok s \<and> reliable (dest w')"
proof (induction app \<equiv> append fl \<equiv> flush b a d w arbitrary: s w' rule: add_record_loop.induct)
  case (1 b a d w)
  define w1 where "w1 = switch_block append w"
  define n where "n = next_fragment w1 d"
  obtain s2 w2 where e: "EmitPhysicalRecord append flush w1 (fragment_type b (length d = n)) a (take n d) = (s2, w2)" by fastforce
  have res: "(s, w') = (if ok s2 \<and> length (drop n d) > 0 then add_record_loop append flush False (a + n) (drop n d) w2 else (s2, w2))"
    using 1(3) [unfolded add_record_loop_round [OF e [unfolded n_def w1_def]] Let_def] by (simp only: n_def w1_def)
  have em: "ok s2 \<and> reliable (dest w2)"
    using Emit_reliable [OF _ e] switch_block_reliable [OF 1(2)] by (simp add: w1_def)
  from 1(1) [OF w1_def refl n_def [unfolded next_fragment_def room_after_def] refl e [symmetric] _ conjunct2 [OF em], of s w']
  show ?case using res em by (auto split: if_splits)
qed

lemma add_records_reliable:
  "reliable (dest w) \<Longrightarrow> add_records append flush xs w = (b, w') \<Longrightarrow> b \<and> reliable (dest w')"
proof (induction xs arbitrary: w)
  case (Cons x xs)
  obtain s w1 where w1: "add_record_loop append flush True (fst x) (snd x) w = (s, w1)" by fastforce
  from add_record_loop_reliable [OF Cons.prems(1) w1] Cons.IH [of w1] Cons.prems(2) w1
  show ?case by (simp add: AddRecord_def)
qed simp

end

context writable_file
begin

lemma add_records_holds:
  "add_records append flush xs w = (True, w') \<Longrightarrow> writer_inv valid contents w \<Longrightarrow> idle (dest w) \<Longrightarrow>
   stored (dest w) = contents (dest w) \<Longrightarrow> log_holds (contents (dest w)) 0 ds (length (contents (dest w))) \<Longrightarrow>
   writer_inv valid contents w' \<and> idle (dest w') \<and> stored (dest w') = contents (dest w') \<and>
   log_holds (contents (dest w')) 0 (ds @ map snd xs) (length (contents (dest w')))"
proof (induction xs arbitrary: w ds)
  case Nil
  then show ?case by simp
next
  case (Cons x xs)
  obtain s w1 where add: "AddRecord append flush w (fst x) (snd x) = (s, w1)" by fastforce
  with Cons.prems(1) have s: "ok s" and rest: "add_records append flush xs w1 = (True, w')"
    by (auto split: if_splits)
  from add_record_loop_correct [OF add [unfolded AddRecord_def] s Cons.prems(2,3)] obtain frs X where
    frs: "fragments True frs (snd x)" and X: "contents (dest w1) = contents (dest w) @ X"
    and laid: "laid_out (contents (dest w1)) (length (contents (dest w))) frs (length (contents (dest w1)))"
    and w1: "stored (dest w1) = contents (dest w1)" "writer_inv valid contents w1" "idle (dest w1)"
    by blast
  have "log_holds (contents (dest w1)) 0 (ds @ [snd x]) (length (contents (dest w1)))"
    using log_holds_snoc [OF log_holds_append [OF Cons.prems(5), of X, folded X] frs laid] .
  from Cons.IH [OF rest w1(2,3,1) this] show ?case by simp
qed

lemma new_log_holds:
  assumes "valid f" and "contents f = []" and "stored f = []" and "idle f"
    and "add_records append flush xs (new_Writer a f) = (True, w)"
  shows "valid (dest w) \<and> idle (dest w) \<and> stored (dest w) = contents (dest w) \<and>
    log_holds (contents (dest w)) 0 (map snd xs) (length (contents (dest w)))"
proof -
  have "writer_inv valid contents (new_Writer a f)"
    using assms(1,2) by (auto simp: writer_inv_def new_Writer_def log_consts)
  with add_records_holds [OF assms(5), of "[]"] assms(2-4) show ?thesis
    by (simp add: new_Writer_def log_holds.holds_nil writer_inv_def)
qed

end

section \<open>The reader on a well-formed log\<close>

text \<open>The reader has consumed \<open>p\<close> bytes of \<open>F\<close>, and its buffer holds the rest of the block it is in.\<close>

definition reads_at :: "('f \<Rightarrow> byte list) \<Rightarrow> ('f \<Rightarrow> bool) \<Rightarrow> byte list \<Rightarrow> nat \<Rightarrow> 'f log_reader \<Rightarrow> bool" where
  "reads_at rem steady F p r \<longleftrightarrow>
     (\<exists>B. p \<le> B \<and> B \<le> length F \<and> B \<le> (p div kBlockSize + 1) * kBlockSize \<and> buffer r = drop p (take B F) \<and>
        rem (rfile r) = drop B F \<and> (if eof r then B = length F else B mod kBlockSize = 0)) \<and>
     steady (rfile r) \<and> initial_offset r = 0 \<and> \<not> resyncing r"

lemma header_length_physical:
  assumes "length d < 65536"
  shows "unat (header_length (physical t d @ y)) = length d"
proof -
  have "header_length (physical t d @ y) = word_of_nat (length d)"
  proof (rule bit_eqI)
    fix n assume "possible_bit TYPE(u32) n"
    have FF: "(x AND 0xff) = take_bit 8 x" for x :: u32
      by (simp add: take_bit_eq_mask mask_eq_exp_minus_1)
    have "bit (length d) n \<Longrightarrow> n < 16" using bit_nat_less [of "length d" n 16] assms by simp
    moreover have "length d div 256 = drop_bit 8 (length d)" by (simp add: drop_bit_eq_div)
    ultimately show "bit (header_length (physical t d @ y)) n = bit (word_of_nat (length d) :: u32) n"
      using \<open>possible_bit _ n\<close>
      by (cases "n < 8") (auto simp: header_length_def physical_def Let_def nth_append FF bit_or_iff bit_take_bit_iff
          bit_push_bit_iff bit_ucast_iff bit_of_nat_iff bit_drop_bit_eq)
  qed
  then show ?thesis using assms by (simp add: unsigned_of_nat take_bit_nat_eq_self)
qed

lemma header_type_physical: "header_type (physical t d @ y) = word_of_nat (type_number t)"
  by (cases t) (simp_all add: header_type_def physical_def nth_append signed_scast_eq)

lemma parse_physical_correct:
  assumes buf: "buffer r = physical t d @ y" and d: "length d < 65536" and t: "t \<noteq> kZeroType" and "initial_offset r = 0"
  shows "parse_physical r res = (word_of_nat (type_number t), d,
     r\<lparr>buffer := y, buffer_at := buffer_at r + (kHeaderSize + length d)\<rparr>)"
proof -
  have "(word_of_nat (type_number t) :: u32) \<noteq> 0" using t by (cases t) simp_all
  moreover have "take (1 + length d) (drop 6 (physical t d @ y)) = word_of_nat (type_number t) # d"
    by (simp add: physical_def)
  moreover have "DecodeFixed32 (physical t d @ y) = Mask (crc32c_ref 0 (word_of_nat (type_number t) # d))"
    by (simp add: physical_def)
  moreover have "take (length d) (drop kHeaderSize (physical t d @ y)) = d"
    by (simp add: physical_def kHeaderSize_def)
  ultimately show ?thesis
    using assms by (simp add: parse_physical_def Let_def header_length_physical header_type_physical Value_def Extend_eq
        Unmask_Mask remove_prefix_def)
qed

text \<open>When the next physical record is not in the buffer, the buffer is at the end of its block.\<close>

lemma next_block:
  assumes "p \<le> B" "B \<le> (p div kBlockSize + 1) * kBlockSize" "q = p + pad p" "B < q + (kHeaderSize + n) \<or> pad p \<noteq> 0"
    and "q mod kBlockSize + kHeaderSize + n \<le> kBlockSize"
  shows "B < q + (kHeaderSize + n)" and "B mod kBlockSize = 0 \<Longrightarrow> q = B \<and> B - p < kHeaderSize"
proof -
  define a b where "a = p div kBlockSize" and "b = p mod kBlockSize"
  have p: "p = a * 32768 + b" "b < 32768" by (simp_all add: a_def b_def log_consts)
  have B: "B \<le> a * 32768 + 32768" using assms(2) by (simp add: a_def log_consts)
  have pad: "pad p = (if 32768 - b < 7 then 32768 - b else 0)" by (simp add: pad_def b_def log_consts)
  have q: "pad p = 0 \<Longrightarrow> b + 7 + n \<le> 32768" using assms(3,5) by (simp add: b_def log_consts)
  show "B < q + (kHeaderSize + n)"
    using assms(3,4) p B pad by (auto simp: kHeaderSize_def split: if_splits)
  show "q = B \<and> B - p < kHeaderSize" if z: "B mod kBlockSize = 0"
  proof -
    obtain m where m: "B = m * 32768" using z by (auto simp: kBlockSize_def mod_eq_0_iff_dvd dvd_def mult.commute)
    have "m \<le> a + 1" using B m by simp
    then consider "m = a + 1" | "m \<le> a" by linarith
    then show ?thesis
    proof cases
      case 1
      then show ?thesis using assms(3,4) p m pad q by (auto simp: kHeaderSize_def split: if_splits)
    next
      case 2
      then have "m * 32768 \<le> a * 32768" by simp
      then have "b = 0" "B = p" using assms(1) p m by auto
      then show ?thesis using assms(3) pad by (simp add: kHeaderSize_def)
    qed
  qed
qed

context steady_file
begin

lemma fill_buffer_steady:
  assumes st: "steady (rfile r)" and rem: "remaining (rfile r) = drop B F" and B: "B mod kBlockSize = 0" "B \<le> length F"
    and r: "initial_offset r = 0" "\<not> resyncing r" "\<not> eof r"
  obtains s r1 where "fill_buffer read r = (s, r1)" "ok s"
    "reads_at remaining steady F B (if length (buffer r1) < kBlockSize then r1\<lparr>eof := True\<rparr> else r1)"
    "buffer r1 = take kBlockSize (drop B F)" "reports r1 = reports r"
proof -
  obtain s d f where rd: "read (rfile r) kBlockSize [] = (s, d, f)" by (metis prod_cases3)
  note a = read_steady [OF st rd, unfolded rem]
  have rf: "remaining f = drop (B + length d) F"
    using read_ok [OF rd] a rem by (metis append_eq_conv_conj drop_drop add.commute)
  define r1 where "r1 = r\<lparr>rfile := f, buffer := d, buffer_at := backing_store r,
              end_of_buffer_offset := end_of_buffer_offset r + word_of_nat (length d)\<rparr>"
  have fill: "fill_buffer read r = (s, r1)" by (simp add: fill_buffer_def rd r1_def)
  have d: "length d = min kBlockSize (length F - B)" "d = drop B (take (B + length d) F)"
    using a by (auto simp: drop_take min_def)
  have "B div kBlockSize * kBlockSize = B" using B(1) by (metis add.right_neutral div_mult_mod_eq)
  then have div: "(B div kBlockSize + 1) * kBlockSize = B + kBlockSize" by simp
  have "reads_at remaining steady F B (if length (buffer r1) < kBlockSize then r1\<lparr>eof := True\<rparr> else r1)"
    unfolding reads_at_def div
    using a r rf d B by (auto simp: r1_def intro!: exI [of _ "B + length d"])
  moreover have "buffer r1 = take kBlockSize (drop B F)" "reports r1 = reports r" using a by (simp_all add: r1_def)
  ultimately show ?thesis using that fill a by blast
qed

lemma parse_at:
  assumes at: "reads_at remaining steady F q r" and phys: "take (kHeaderSize + length d) (drop q F) = physical t d"
    and len: "length (buffer r) \<ge> kHeaderSize + length d"
    and d: "q mod kBlockSize + kHeaderSize + length d \<le> kBlockSize" and t: "t \<noteq> kZeroType"
  obtains r' where "parse_physical r res = (word_of_nat (type_number t), d, r')"
    "reads_at remaining steady F (q + kHeaderSize + length d) r'" "reports r' = reports r"
proof -
  let ?n = "kHeaderSize + length d"
  obtain B where B: "q \<le> B" "B \<le> length F" "B \<le> (q div kBlockSize + 1) * kBlockSize" "buffer r = drop q (take B F)"
    "remaining (rfile r) = drop B F" "if eof r then B = length F else B mod kBlockSize = 0"
    using at by (auto simp: reads_at_def)
  have qn: "q + ?n \<le> B" using len B(1,2,4) by simp
  have "buffer r = take ?n (buffer r) @ drop ?n (buffer r)" by simp
  also have "take ?n (buffer r) = physical t d"
    using phys B(4) le_diff_conv2 [OF B(1), of ?n] qn by (simp add: drop_take min_def add.commute)
  finally have buf: "buffer r = physical t d @ drop (q + ?n) (take B F)"
    using B(4) by (simp add: add.commute)
  define r' where "r' = r\<lparr>buffer := drop (q + ?n) (take B F), buffer_at := buffer_at r + ?n\<rparr>"
  have "B \<le> ((q + ?n) div kBlockSize + 1) * kBlockSize"
    using B(3) div_le_mono [of q "q + ?n" kBlockSize] by (meson add_le_mono1 le_add1 mult_le_mono1 order_trans)
  then have "reads_at remaining steady F (q + kHeaderSize + length d) r'"
    using at B qn by (auto simp: reads_at_def r'_def add.assoc intro!: exI [of _ B])
  moreover have "parse_physical r res = (word_of_nat (type_number t), d, r')"
    using parse_physical_correct [OF buf _ t] at d by (simp add: reads_at_def r'_def log_consts)
  ultimately show ?thesis using that by (simp add: r'_def)
qed

lemma ReadPhysicalRecord_at:
  assumes at: "reads_at remaining steady F p r" and q: "q = p + pad p"
    and phys: "take (kHeaderSize + length d) (drop q F) = physical t d"
    and d: "q mod kBlockSize + kHeaderSize + length d \<le> kBlockSize" and t: "t \<noteq> kZeroType"
  obtains r' where "ReadPhysicalRecord read r res = (word_of_nat (type_number t), d, r')"
    "reads_at remaining steady F (q + kHeaderSize + length d) r'" "reports r' = reports r"
proof -
  let ?n = "kHeaderSize + length d"
  obtain B where B: "p \<le> B" "B \<le> length F" "B \<le> (p div kBlockSize + 1) * kBlockSize" "buffer r = drop p (take B F)"
    "remaining (rfile r) = drop B F" "if eof r then B = length F else B mod kBlockSize = 0"
    using at by (auto simp: reads_at_def)
  have F: "q + ?n \<le> length F" using arg_cong [OF phys, of length] by (simp add: log_consts)
  show ?thesis
  proof (cases "pad p = 0 \<and> q + ?n \<le> B")
    case True
    then have "q = p" and len: "length (buffer r) \<ge> ?n" using q B by auto
    then obtain r' where "parse_physical r res = (word_of_nat (type_number t), d, r')"
      "reads_at remaining steady F (q + kHeaderSize + length d) r'" "reports r' = reports r"
      using parse_at [OF _ phys _ d t] at by metis
    with len show ?thesis by (intro that [of r']) (simp_all add: ReadPhysicalRecord.simps [of read r])
  next
    case False
    then have "\<not> eof r \<and> q = B \<and> B mod kBlockSize = 0 \<and> B - p < kHeaderSize"
      using next_block [OF B(1,3) q _ d] F B(6) by (cases "eof r") auto
    then have r: "\<not> eof r" "q = B" "B mod kBlockSize = 0" "length (buffer r) < kHeaderSize"
      using B by auto
    obtain s r1 where fill: "fill_buffer read r = (s, r1)" "ok s"
      and at1: "reads_at remaining steady F B (if length (buffer r1) < kBlockSize then r1\<lparr>eof := True\<rparr> else r1)"
        (is "reads_at _ _ _ _ ?r1")
      and buf1: "buffer r1 = take kBlockSize (drop B F)" and rep: "reports r1 = reports r"
      using fill_buffer_steady [OF _ B(5) r(3) B(2) _ _ r(1)] at by (metis reads_at_def)
    have len: "length (buffer ?r1) \<ge> ?n"
      using F r(2) d by (simp add: buf1) linarith
    obtain r' where "parse_physical ?r1 res = (word_of_nat (type_number t), d, r')"
      "reads_at remaining steady F (q + kHeaderSize + length d) r'" "reports r' = reports ?r1"
      using parse_at [OF at1 [folded r(2)] phys len d t] .
    with fill r rep len show ?thesis
      by (intro that [of r']) (simp_all add: ReadPhysicalRecord.simps [of read r] ReadPhysicalRecord.simps [of read ?r1])
  qed
qed

lemma ReadPhysicalRecord_end:
  assumes at: "reads_at remaining steady F (length F) r"
  obtains r' where "ReadPhysicalRecord read r res = (kEof, res, r')" "reports r' = reports r" "\<not> resyncing r'"
proof -
  have buf: "buffer r = []" and rem: "remaining (rfile r) = drop (length F) F" and st: "steady (rfile r)"
    and r: "initial_offset r = 0" "\<not> resyncing r" and blk: "\<not> eof r \<Longrightarrow> length F mod kBlockSize = 0"
    using at by (auto simp: reads_at_def split: if_splits)
  show ?thesis
  proof (cases "eof r")
    case True
    with buf r show ?thesis
      by (intro that [of "r\<lparr>buffer := []\<rparr>"]) (simp_all add: ReadPhysicalRecord.simps [of read r] kHeaderSize_def)
  next
    case False
    obtain s r1 where fill: "fill_buffer read r = (s, r1)" "ok s" and buf1: "buffer r1 = take kBlockSize (drop (length F) F)"
      and rep: "reports r1 = reports r"
      and at1: "reads_at remaining steady F (length F) (if length (buffer r1) < kBlockSize then r1\<lparr>eof := True\<rparr> else r1)"
      using fill_buffer_steady [OF st rem blk [OF False] order_refl r False] by metis
    have "\<not> resyncing r1" using at1 buf1 by (simp add: reads_at_def kBlockSize_def)
    with False buf fill buf1 rep show ?thesis
      by (intro that [of "r1\<lparr>eof := True, buffer := []\<rparr>"])
        (simp_all add: ReadPhysicalRecord.simps [of read r] ReadPhysicalRecord.simps [of read "r1\<lparr>eof := True\<rparr>"] log_consts)
  qed
qed

lemma reads_at_last [simp]: "reads_at rem st F p (r\<lparr>last_record_offset := x\<rparr>) = reads_at rem st F p r"
  by (simp add: reads_at_def)

lemma step_at:
  assumes at: "reads_at remaining steady F p (rdr st)" and q: "q = p + pad p"
    and phys: "take (kHeaderSize + length d) (drop q F) = physical t d"
    and d: "q mod kBlockSize + kHeaderSize + length d \<le> kBlockSize" and t: "t \<noteq> kZeroType"
  obtains r' x where
    "read_record_step read st = dispatch (word_of_nat (type_number t)) x (st\<lparr>fragment := d, rdr := r'\<rparr>)"
    "reads_at remaining steady F (q + kHeaderSize + length d) r'" "reports r' = reports (rdr st)"
proof -
  obtain r' where "ReadPhysicalRecord read (rdr st) (fragment st) = (word_of_nat (type_number t), d, r')"
    and "reads_at remaining steady F (q + kHeaderSize + length d) r'" "reports r' = reports (rdr st)"
    using ReadPhysicalRecord_at [OF at q phys d t] .
  then show ?thesis
    by (intro that [of _ r']) (auto simp: read_record_step_def Let_def reads_at_def)
qed

lemma read_record_loop_at:
  "fragments b frs d \<Longrightarrow> laid_out F p frs e \<Longrightarrow> reads_at remaining steady F p (rdr st) \<Longrightarrow>
   in_fragmented_record st \<longleftrightarrow> \<not> b \<Longrightarrow>
   \<exists>st'. read_record_loop read st = Some (True, st') \<and> rec_out st' = (if b then d else scratch st @ d) \<and>
     reads_at remaining steady F e (rdr st') \<and> reports (rdr st') = reports (rdr st)"
proof (induction arbitrary: p st rule: fragments.induct)
  case (whole b d)
  have t: "fragment_type b True \<noteq> kZeroType" by (simp add: fragment_type_def)
  from whole(1) obtain q where q: "q = p + pad p" "q mod kBlockSize + kHeaderSize + length d \<le> kBlockSize"
    "take (kHeaderSize + length d) (drop q F) = physical (fragment_type b True) d" "e = q + kHeaderSize + length d"
    by (auto elim!: laid_consE laid_nilE)
  obtain r' x where
    "read_record_step read st = dispatch (word_of_nat (type_number (fragment_type b True))) x (st\<lparr>fragment := d, rdr := r'\<rparr>)"
    "reads_at remaining steady F (q + kHeaderSize + length d) r'" "reports r' = reports (rdr st)"
    using step_at [OF whole(2) q(1,3,2) t] .
  with whole(3) q(4) show ?case
    by (cases b) (simp_all add: read_record_loop.simps [of read st] fragment_type_def dispatch_def Let_def report_partial_def)
next
  case (more frs d' b d)
  have t: "fragment_type b False \<noteq> kZeroType" by (simp add: fragment_type_def)
  from more(3) obtain q where q: "q = p + pad p" "q mod kBlockSize + kHeaderSize + length d \<le> kBlockSize"
    "take (kHeaderSize + length d) (drop q F) = physical (fragment_type b False) d"
    "laid_out F (q + kHeaderSize + length d) frs e"
    by (auto elim!: laid_consE)
  obtain r' x where
    st: "read_record_step read st = dispatch (word_of_nat (type_number (fragment_type b False))) x (st\<lparr>fragment := d, rdr := r'\<rparr>)"
    and at: "reads_at remaining steady F (q + kHeaderSize + length d) r'" and rep: "reports r' = reports (rdr st)"
    using step_at [OF more(4) q(1,3,2) t] .
  obtain st2 where st2: "read_record_step read st = Inl st2" "in_fragmented_record st2"
    "scratch st2 = (if b then d else scratch st @ d)" "rdr st2 = r'"
    using st more(5) by (cases b) (auto simp: fragment_type_def dispatch_def Let_def report_partial_def)
  with more(2) [OF q(4), of st2] at rep show ?case
    by (auto simp: read_record_loop.simps [of read st])
qed

lemma ReadRecord_at:
  assumes "fragments True frs d" "laid_out F p frs e" "reads_at remaining steady F p r"
  obtains scr' r' where "ReadRecord read skip r out scr = Some (True, d, scr', r')"
    "reads_at remaining steady F e r'" "reports r' = reports r"
proof -
  have i: "initial_offset r = 0" using assms(3) by (simp add: reads_at_def)
  from read_record_loop_at [OF assms(1,2), of "\<lparr>in_fragmented_record = False, prospective_record_offset = 0,
      fragment = [], scratch = [], rec_out = [], rdr = r\<rparr>"] assms(3)
  show ?thesis by (auto simp: ReadRecord_def i intro: that)
qed

lemma ReadRecord_end:
  assumes "reads_at remaining steady F (length F) r"
  obtains out' scr' r' where "ReadRecord read skip r out scr = Some (False, out', scr', r')" "reports r' = reports r"
proof -
  have i: "initial_offset r = 0" using assms by (simp add: reads_at_def)
  obtain r' where "ReadPhysicalRecord read r [] = (kEof, [], r')" "reports r' = reports r" "\<not> resyncing r'"
    using ReadPhysicalRecord_end [OF assms] .
  then show ?thesis
    by (intro that [of "[]" "[]" r']) (simp_all add: ReadRecord_def i read_record_loop.simps read_record_step_def Let_def
        dispatch_def kEof_def kMaxRecordType_def)
qed

end

text \<open>A client's loop: \<open>while (reader.ReadRecord(&record, &scratch))\<close>.\<close>

partial_function (option) read_all ::
  "('f \<Rightarrow> nat \<Rightarrow> slice \<Rightarrow> status \<times> slice \<times> 'f) \<Rightarrow> ('f \<Rightarrow> u64 \<Rightarrow> status \<times> 'f) \<Rightarrow> 'f log_reader \<Rightarrow> slice \<Rightarrow> byte list \<Rightarrow>
   (slice list \<times> 'f log_reader) option" where
  "read_all rd skip r out scr =
     Option.bind (ReadRecord rd skip r out scr) (\<lambda>(b, out, scr, r).
       if b then Option.bind (read_all rd skip r out scr) (\<lambda>(ds, r). Some (out # ds, r)) else Some ([], r))"

context steady_file
begin

lemma read_all_at:
  "log_holds F p ds e \<Longrightarrow> e = length F \<Longrightarrow> reads_at remaining steady F p r \<Longrightarrow>
   \<exists>r'. read_all read skip r out scr = Some (ds, r') \<and> reports r' = reports r"
proof (induction arbitrary: r out scr rule: log_holds.induct)
  case (holds_nil p)
  then obtain out' scr' r' where "ReadRecord read skip r out scr = Some (False, out', scr', r')" "reports r' = reports r"
    using ReadRecord_end by metis
  then show ?case by (simp add: read_all.simps [of read skip r])
next
  case (holds_cons frs d p q ds e)
  obtain scr' r' where "ReadRecord read skip r out scr = Some (True, d, scr', r')"
    "reads_at remaining steady F q r'" "reports r' = reports r"
    using ReadRecord_at [OF holds_cons(1,2,6)] .
  with holds_cons(4) [OF holds_cons(5), of r' d scr'] show ?case by (auto simp: read_all.simps [of read skip r])
qed

lemma read_all_new:
  assumes "log_holds (remaining f) 0 ds (length (remaining f))" and "steady f"
  shows "\<exists>r'. read_all read skip (new_Reader f b chk store 0) out scr = Some (ds, r') \<and> reports r' = []"
proof -
  have "reads_at remaining steady (remaining f) 0 (new_Reader f b chk store 0)"
    using assms(2) by (auto simp: reads_at_def new_Reader_def intro!: exI [of _ 0])
  from read_all_at [OF assms(1) refl this, of skip out scr] show ?thesis by (simp add: new_Reader_def)
qed

end

section \<open>The reader ends\<close>

text \<open>The bytes that have not been looked at: every physical record takes some of them.\<close>

definition pending :: "('f \<Rightarrow> byte list) \<Rightarrow> 'f log_reader \<Rightarrow> nat" where
  "pending rem r = length (buffer r) + length (rem (rfile r))"

lemma Report_simps [simp]:
  "buffer (ReportDrop n s r) = buffer r" "rfile (ReportDrop n s r) = rfile r" "initial_offset (ReportDrop n s r) = initial_offset r"
  "buffer (ReportCorruption n m r) = buffer r" "rfile (ReportCorruption n m r) = rfile r"
  "initial_offset (ReportCorruption n m r) = initial_offset r"
  by (simp_all add: ReportDrop_def ReportCorruption_def)

lemma parse_physical_pending:
  "parse_physical r res = (t, d, r') \<Longrightarrow> kHeaderSize \<le> length (buffer r) \<Longrightarrow>
   pending rem r' < pending rem r \<and> initial_offset r' = initial_offset r"
  by (auto simp: parse_physical_def Let_def pending_def kHeaderSize_def remove_prefix_def split: if_splits)

context sequential_file
begin

lemma ReadPhysicalRecord_pending:
  "ReadPhysicalRecord read r res = (t, d, r') \<Longrightarrow>
   (t = kEof \<or> pending remaining r' < pending remaining r) \<and> initial_offset r' = initial_offset r"
proof (induction rd \<equiv> read r res arbitrary: t d r' rule: ReadPhysicalRecord.induct)
  case (1 r res)
  consider "kHeaderSize \<le> length (buffer r)" | "length (buffer r) < kHeaderSize" "eof r"
    | "length (buffer r) < kHeaderSize" "\<not> eof r" by linarith
  then show ?case
  proof cases
    case 3
    obtain s x f where rd: "read (rfile r) kBlockSize [] = (s, x, f)" by (metis prod_cases3)
    define r1 where "r1 = r\<lparr>rfile := f, buffer := x, buffer_at := backing_store r,
        end_of_buffer_offset := end_of_buffer_offset r + word_of_nat (length x)\<rparr>"
    have fill: "fill_buffer read r = (s, r1)" by (simp add: fill_buffer_def rd r1_def)
    show ?thesis
    proof (cases "ok s")
      case True
      let ?r1 = "if length (buffer r1) < kBlockSize then r1\<lparr>eof := True\<rparr> else r1"
      have "ReadPhysicalRecord read ?r1 res = (t, d, r')"
        using 1(2) 3 fill True by (simp add: ReadPhysicalRecord.simps [of read r])
      moreover have "pending remaining ?r1 \<le> pending remaining r" "initial_offset ?r1 = initial_offset r"
        using read_ok [OF rd True] by (simp_all add: r1_def pending_def)
      ultimately show ?thesis using 1(1) [OF 3 fill [symmetric], of t d r'] True by auto
    next
      case False
      then show ?thesis using 1(2) 3 fill by (auto simp: ReadPhysicalRecord.simps [of read r] r1_def)
    qed
  qed (use 1(2) parse_physical_pending [of r res t d r' remaining] in \<open>auto simp: ReadPhysicalRecord.simps [of read r]\<close>)
qed

lemma dispatch_pending:
  "dispatch t x st = Inl st' \<Longrightarrow> t \<noteq> kEof \<and> pending rem (rdr st') = pending rem (rdr st) \<and>
     initial_offset (rdr st') = initial_offset (rdr st)"
  "dispatch t x st = Inr (b, st') \<Longrightarrow> (b \<longrightarrow> t \<noteq> kEof) \<and> pending rem (rdr st') = pending rem (rdr st) \<and>
     initial_offset (rdr st') = initial_offset (rdr st)"
  by (auto simp: dispatch_def report_partial_def pending_def Let_def kEof_def kMaxRecordType_def split: if_splits)

lemma read_record_step_pending:
  "read_record_step read st = Inl st' \<Longrightarrow> pending remaining (rdr st') < pending remaining (rdr st) \<and>
     initial_offset (rdr st') = initial_offset (rdr st)"
  "read_record_step read st = Inr (True, st') \<Longrightarrow> pending remaining (rdr st') < pending remaining (rdr st) \<and>
     initial_offset (rdr st') = initial_offset (rdr st)"
proof -
  obtain t d r where rp: "ReadPhysicalRecord read (rdr st) (fragment st) = (t, d, r)" by (metis prod_cases3)
  note p = ReadPhysicalRecord_pending [OF rp]
  have same: "pending remaining (r\<lparr>resyncing := b\<rparr>) = pending remaining r" for b by (simp add: pending_def)
  show "pending remaining (rdr st') < pending remaining (rdr st) \<and> initial_offset (rdr st') = initial_offset (rdr st)"
    if "read_record_step read st = Inl st'"
    using that p rp same
    by (auto simp: read_record_step_def Let_def kEof_def kMaxRecordType_def split: if_splits
        dest!: dispatch_pending(1) [where rem = remaining])
  show "pending remaining (rdr st') < pending remaining (rdr st) \<and> initial_offset (rdr st') = initial_offset (rdr st)"
    if "read_record_step read st = Inr (True, st')"
    using that p rp same
    by (auto simp: read_record_step_def Let_def kEof_def kMaxRecordType_def split: if_splits
        dest!: dispatch_pending(2) [where rem = remaining])
qed

lemma read_record_loop_ends:
  "\<exists>b st'. read_record_loop read st = Some (b, st') \<and> (b \<longrightarrow> pending remaining (rdr st') < pending remaining (rdr st) \<and>
     initial_offset (rdr st') = initial_offset (rdr st))"
proof (induction "pending remaining (rdr st)" arbitrary: st rule: less_induct)
  case less
  show ?case
  proof (cases "read_record_step read st")
    case (Inl st1)
    note p = read_record_step_pending(1) [OF Inl]
    with less [of st1] Inl show ?thesis by (fastforce simp: read_record_loop.simps [of read st])
  next
    case (Inr res)
    with read_record_step_pending(2) [of st "snd res"] show ?thesis
      by (cases res) (auto simp: read_record_loop.simps [of read st])
  qed
qed

lemma ReadRecord_returns: "\<exists>res. ReadRecord read skip r out scr = Some res"
proof -
  obtain go r1 where r1: "(if last_record_offset r < initial_offset r then SkipToInitialBlock skip r else (True, r)) = (go, r1)"
    by fastforce
  show ?thesis
    using read_record_loop_ends [of "\<lparr>in_fragmented_record = False, prospective_record_offset = 0,
      fragment = [], scratch = [], rec_out = [], rdr = r1\<rparr>"] by (cases go) (auto simp: ReadRecord_def r1)
qed

lemma read_all_returns: "initial_offset r = 0 \<Longrightarrow> \<exists>res. read_all read skip r out scr = Some res"
proof (induction "pending remaining r" arbitrary: r out scr rule: less_induct)
  case less
  obtain b st' where st': "read_record_loop read \<lparr>in_fragmented_record = False, prospective_record_offset = 0,
      fragment = [], scratch = [], rec_out = [], rdr = r\<rparr> = Some (b, st')"
    "b \<longrightarrow> pending remaining (rdr st') < pending remaining r \<and> initial_offset (rdr st') = initial_offset r"
    using read_record_loop_ends [of "\<lparr>in_fragmented_record = False, prospective_record_offset = 0,
      fragment = [], scratch = [], rec_out = [], rdr = r\<rparr>"] by auto
  then have "ReadRecord read skip r out scr = Some (b, rec_out st', scratch st', rdr st')"
    using less.prems by (simp add: ReadRecord_def)
  with st' less.hyps [of "rdr st'" "rec_out st'" "scratch st'"] less.prems show ?case
    by (cases b) (auto simp: read_all.simps [of read skip r])
qed

end

end
