(* ===== verification/Ldb_Bloom.thy ===== *)
theory Ldb_Bloom
  imports Ldb_Coding
begin

unbundle bit_operations_syntax

text \<open>
  \<open>leveldb/util/hash.cc\<close> and \<open>util/bloom.cc\<close>: the hash function and the Bloom filter that guards the blocks of a
  table. The interface \<open>FilterPolicy\<close> is a locale with the one law its clients need: a key that was put into a
  filter is never reported absent.
\<close>

section \<open>\<open>Hash\<close>\<close>

text \<open>The loop over whole words: the hash so far and the bytes left.\<close>

function hash_words :: "u32 \<Rightarrow> byte list \<Rightarrow> u32 \<times> byte list" where
  "hash_words h data =
     (if 4 \<le> length data then
        let w = DecodeFixed32 data;
            h = (h + w) * 0xc6a4a793;
            h = h XOR drop_bit 16 h
        in hash_words h (drop 4 data)
      else (h, data))"
  by pat_completeness auto
termination
  by (relation "measure (\<lambda>(_, data). length data)") auto

declare hash_words.simps [simp del]

definition Hash :: "byte list \<Rightarrow> u32 \<Rightarrow> u32" where
  "Hash data seed =
     (let m = 0xc6a4a793 :: u32;
          h = ucast (ucast seed XOR (word_of_nat (length data) * ucast m :: u64));
          (h, data) = hash_words h data;
          h = (if length data = 3 then h + push_bit 16 (ucast (data ! 2)) else h);
          h = (if length data = 3 \<or> length data = 2 then h + push_bit 8 (ucast (data ! 1)) else h)
      in if length data = 3 \<or> length data = 2 \<or> length data = 1
         then (let h = (h + ucast (data ! 0)) * m in h XOR drop_bit 24 h)
         else h)"

section \<open>\<open>BloomFilterPolicy\<close>\<close>

definition BloomHash :: "slice \<Rightarrow> u32" where
  "BloomHash key = Hash key 0xbc9f1d34"

record BloomFilterPolicy =
  bits_per_key :: nat
  probes :: nat

text \<open>
  \<open>bits_per_key * 0.69\<close> is a product of doubles, cut to an integer. The cut of the exact product is the same for
  every \<open>bits_per_key\<close> below 100, where it is never within one hundredth below an integer; from 44 on the limit of
  30 decides.
\<close>

definition new_BloomFilterPolicy :: "nat \<Rightarrow> BloomFilterPolicy" where
  "new_BloomFilterPolicy bpk =
     (let k = bpk * 69 div 100;
          k = (if k < 1 then 1 else k);
          k = (if k > 30 then 30 else k)
      in \<lparr>bits_per_key = bpk, probes = k\<rparr>)"

definition rotate_delta :: "u32 \<Rightarrow> u32" where
  "rotate_delta h = drop_bit 17 h OR push_bit 15 h"

text \<open>\<open>array[bitpos / 8] |= (1 << (bitpos % 8))\<close> and the test of that bit.\<close>

definition set_bit_at :: "byte list \<Rightarrow> nat \<Rightarrow> byte list" where
  "set_bit_at arr bitpos = arr[bitpos div 8 := arr ! (bitpos div 8) OR push_bit (bitpos mod 8) 1]"

definition test_bit_at :: "byte list \<Rightarrow> nat \<Rightarrow> bool" where
  "test_bit_at arr bitpos \<longleftrightarrow> arr ! (bitpos div 8) AND push_bit (bitpos mod 8) 1 \<noteq> 0"

text \<open>\<open>for (size_t j = 0; j < probes; j++)\<close> of \<open>CreateFilter\<close>.\<close>

primrec add_probes :: "nat \<Rightarrow> u32 \<Rightarrow> u32 \<Rightarrow> nat \<Rightarrow> byte list \<Rightarrow> byte list" where
  "add_probes 0 h delta bits arr = arr"
| "add_probes (Suc k) h delta bits arr = add_probes k (h + delta) delta bits (set_bit_at arr (unat h mod bits))"

definition CreateFilter :: "BloomFilterPolicy \<Rightarrow> slice list \<Rightarrow> byte list \<Rightarrow> byte list" where
  "CreateFilter p keys dst =
     (let bits = size_mult (length keys) (bits_per_key p);
          bits = (if bits < 64 then 64 else bits);
          bytes = size_add bits 7 div 8;
          bits = bytes * 8;
          arr = foldl (\<lambda>arr key. let h = BloomHash key in add_probes (probes p) h (rotate_delta h) bits arr)
                  (replicate bytes 0) keys
      in dst @ arr @ [word_of_nat (probes p)])"

text \<open>The loop of \<open>KeyMayMatch\<close>.\<close>

primrec check_probes :: "nat \<Rightarrow> u32 \<Rightarrow> u32 \<Rightarrow> nat \<Rightarrow> byte list \<Rightarrow> bool" where
  "check_probes 0 h delta bits arr = True"
| "check_probes (Suc k) h delta bits arr =
     (if \<not> test_bit_at arr (unat h mod bits) then False else check_probes k (h + delta) delta bits arr)"

text \<open>The last byte is a signed \<open>char\<close> widened to \<open>size_t\<close>.\<close>

definition KeyMayMatch :: "slice \<Rightarrow> slice \<Rightarrow> bool" where
  "KeyMayMatch key bloom_filter =
     (let len = length bloom_filter in
      if len < 2 then False
      else
        let bits = (len - 1) * 8;
            k = unat (scast (bloom_filter ! (len - 1)) :: u64)
        in if k > 30 then True
           else let h = BloomHash key in check_probes k h (rotate_delta h) bits bloom_filter)"

section \<open>The interface\<close>

locale filter_policy =
  fixes create :: "slice list \<Rightarrow> byte list \<Rightarrow> byte list" and may_match :: "slice \<Rightarrow> slice \<Rightarrow> bool"
    and small :: "slice list \<Rightarrow> bool"
  assumes create_appends: "\<exists>f. create keys dst = dst @ f"
    and no_false_negative: "small keys \<Longrightarrow> key \<in> set keys \<Longrightarrow> may_match key (drop (length dst) (create keys dst))"
    and small_shorter: "small keys \<Longrightarrow> length keys' \<le> length keys \<Longrightarrow> small keys'"
begin

lemma absent_is_reliable:
  "small keys \<Longrightarrow> \<not> may_match key (drop (length dst) (create keys dst)) \<Longrightarrow> key \<notin> set keys"
  using no_false_negative by blast

end

section \<open>The Bloom filter implements it\<close>

lemma length_set_bit_at [simp]: "length (set_bit_at arr i) = length arr"
  by (simp add: set_bit_at_def)

lemma test_set: "i div 8 < length arr \<Longrightarrow> test_bit_at (set_bit_at arr i) j \<longleftrightarrow> test_bit_at arr j \<or> i = j"
proof -
  assume i: "i div 8 < length arr"
  have bit: "test_bit_at a j \<longleftrightarrow> bit (a ! (j div 8)) (j mod 8)" for a j
    by (simp add: test_bit_at_def and_exp_eq_0_iff_not_bit)
  have ij: "i div 8 = j div 8 \<Longrightarrow> i = j \<longleftrightarrow> i mod 8 = j mod 8" by (metis div_mult_mod_eq)
  show ?thesis
    using i ij by (cases "i div 8 = j div 8")
      (auto simp: bit set_bit_at_def bit_or_iff bit_push_bit_iff bit_1_iff nth_list_update bit_exp_iff)
qed

lemma add_probes_facts:
  "0 < bits \<Longrightarrow> bits = length arr * 8 \<Longrightarrow> length (add_probes k h delta bits arr) = length arr"
proof (induction k arbitrary: h arr)
  case (Suc k)
  from Suc.IH [where h = "h + delta" and arr = "set_bit_at arr (unat h mod bits)"] Suc.prems show ?case by simp
qed simp

text \<open>Setting bits never clears one, and the probes of a key find the bits set for it.\<close>

lemma add_probes_mono:
  "0 < bits \<Longrightarrow> bits = length arr * 8 \<Longrightarrow> test_bit_at arr j \<Longrightarrow> test_bit_at (add_probes k h delta bits arr) j"
proof (induction k arbitrary: h arr)
  case (Suc k)
  then have "(unat h mod bits) div 8 < length arr" by (simp add: less_mult_imp_div_less)
  then have "test_bit_at (set_bit_at arr (unat h mod bits)) j" using Suc.prems by (simp add: test_set)
  from Suc.IH [OF Suc.prems(1) _ this] Suc.prems show ?case by simp
qed simp

lemma check_probes_mono:
  "check_probes k h delta bits arr \<Longrightarrow> (\<And>j. test_bit_at arr j \<Longrightarrow> test_bit_at arr' j) \<Longrightarrow> check_probes k h delta bits arr'"
  by (induction k arbitrary: h) (auto split: if_splits)

lemma add_then_check:
  "0 < bits \<Longrightarrow> bits = length arr * 8 \<Longrightarrow> check_probes k h delta bits (add_probes k h delta bits arr)"
proof (induction k arbitrary: h arr)
  case (Suc k)
  then have "(unat h mod bits) div 8 < length arr" by (simp add: less_mult_imp_div_less)
  then have "test_bit_at (set_bit_at arr (unat h mod bits)) (unat h mod bits)" by (simp add: test_set)
  then have "test_bit_at (add_probes k (h + delta) delta bits (set_bit_at arr (unat h mod bits))) (unat h mod bits)"
    using Suc.prems by (intro add_probes_mono) simp_all
  with Suc.IH [where h = "h + delta" and arr = "set_bit_at arr (unat h mod bits)"] Suc.prems show ?case by simp
qed simp

definition add_key :: "nat \<Rightarrow> nat \<Rightarrow> byte list \<Rightarrow> slice \<Rightarrow> byte list" where
  "add_key k bits arr key = (let h = BloomHash key in add_probes k h (rotate_delta h) bits arr)"

lemma add_keys:
  assumes "0 < bits"
  shows "bits = length arr * 8 \<Longrightarrow>
    length (foldl (add_key k bits) arr keys) = length arr \<and>
    (\<forall>j. test_bit_at arr j \<longrightarrow> test_bit_at (foldl (add_key k bits) arr keys) j) \<and>
    (\<forall>key \<in> set keys. check_probes k (BloomHash key) (rotate_delta (BloomHash key)) bits (foldl (add_key k bits) arr keys))"
proof (induction keys arbitrary: arr)
  case (Cons key keys)
  let ?h = "BloomHash key" and ?arr = "add_key k bits arr key"
  have len: "length ?arr = length arr"
    using add_probes_facts [OF assms Cons.prems] by (simp add: add_key_def Let_def)
  have mono: "test_bit_at arr j \<Longrightarrow> test_bit_at ?arr j" for j
    using add_probes_mono [OF assms Cons.prems] by (simp add: add_key_def Let_def)
  have "check_probes k ?h (rotate_delta ?h) bits ?arr"
    using add_then_check [OF assms Cons.prems] by (simp add: add_key_def Let_def)
  then have "check_probes k ?h (rotate_delta ?h) bits (foldl (add_key k bits) ?arr keys)"
    by (rule check_probes_mono) (use Cons.IH [of ?arr] Cons.prems len in simp)
  with Cons.IH [of ?arr] Cons.prems len mono show ?case by simp
qed simp

definition policy_ok :: "BloomFilterPolicy \<Rightarrow> bool" where
  "policy_ok p \<longleftrightarrow> 1 \<le> probes p \<and> probes p \<le> 30"

lemma new_policy_ok: "policy_ok (new_BloomFilterPolicy n)"
  by (simp add: policy_ok_def new_BloomFilterPolicy_def Let_def)

definition filter_small :: "BloomFilterPolicy \<Rightarrow> slice list \<Rightarrow> bool" where
  "filter_small p keys \<longleftrightarrow> length keys * bits_per_key p < 2 ^ 63"

lemma test_bit_append: "j div 8 < length arr \<Longrightarrow> test_bit_at (arr @ xs) j = test_bit_at arr j"
  by (simp add: test_bit_at_def nth_append)

lemma check_probes_append:
  "0 < bits \<Longrightarrow> bits = length arr * 8 \<Longrightarrow> check_probes k h delta bits (arr @ xs) = check_probes k h delta bits arr"
proof (induction k arbitrary: h)
  case (Suc k)
  then have "(unat h mod bits) div 8 < length arr" by (simp add: less_mult_imp_div_less)
  with Suc show ?case by (simp add: test_bit_append)
qed simp

lemma KeyMayMatch_CreateFilter:
  assumes p: "policy_ok p" and small: "filter_small p keys" and key: "key \<in> set keys"
  shows "KeyMayMatch key (drop (length dst) (CreateFilter p keys dst))"
proof -
  define bits0 where "bits0 = (let b = size_mult (length keys) (bits_per_key p) in if b < 64 then 64 else b)"
  define bytes where "bytes = size_add bits0 7 div 8"
  define arr where "arr = foldl (add_key (probes p) (bytes * 8)) (replicate bytes 0) keys"
  have b: "64 \<le> bits0" "bits0 < 2 ^ 63 + 64"
    using small by (auto simp: bits0_def filter_small_def size_mult_def Let_def)
  then have bytes: "8 \<le> bytes" by (simp add: bytes_def size_add_small)
  have create: "CreateFilter p keys dst = dst @ arr @ [word_of_nat (probes p)]"
    by (simp add: CreateFilter_def Let_def bits0_def bytes_def arr_def add_key_def [abs_def])
  have "0 < bytes * 8" "bytes * 8 = length (replicate bytes 0 :: byte list) * 8" using bytes by simp_all
  from add_keys [OF this, of "probes p" keys, folded arr_def] key
  have arr: "length arr = bytes" "check_probes (probes p) (BloomHash key) (rotate_delta (BloomHash key)) (bytes * 8) arr"
    by (simp_all only: length_replicate)
  have k: "unat (scast (word_of_nat (probes p) :: byte) :: u64) = probes p"
    using p by (simp add: policy_ok_def signed_of_nat signed_take_bit_int_eq_self unat_of_nat scast_eq)
  have "check_probes (probes p) (BloomHash key) (rotate_delta (BloomHash key)) (bytes * 8) (arr @ [word_of_nat (probes p)])"
    using arr bytes by (subst check_probes_append) simp_all
  then show ?thesis
    using p bytes by (simp add: create KeyMayMatch_def k nth_append Let_def policy_ok_def arr(1))
qed

interpretation bloom: filter_policy "CreateFilter (new_BloomFilterPolicy n)" KeyMayMatch "filter_small (new_BloomFilterPolicy n)" for n
proof
  show "\<exists>f. CreateFilter (new_BloomFilterPolicy n) keys dst = dst @ f" for keys dst
    by (simp add: CreateFilter_def Let_def)
  show "filter_small (new_BloomFilterPolicy n) keys'"
    if "filter_small (new_BloomFilterPolicy n) keys" "length keys' \<le> length keys" for keys keys'
    using that(1) mult_le_mono1 [OF that(2), of "bits_per_key (new_BloomFilterPolicy n)"] unfolding filter_small_def by linarith
qed (rule KeyMayMatch_CreateFilter [OF new_policy_ok])

end
