(* ===== verification/Ldb_Dbformat.thy ===== *)
theory Ldb_Dbformat
  imports Ldb_Bloom Ldb_Status
begin

unbundle bit_operations_syntax

text \<open>
  \<open>leveldb/util/comparator.cc\<close> and \<open>db/dbformat.{h,cc}\<close>: the order of user keys, and internal keys, which carry a
  sequence number and a type after the user key and are ordered by increasing user key and decreasing number.
  The interface \<open>Comparator\<close> is a locale: a total order with separators and successors. The bytewise comparator
  implements it, and the internal comparator does whenever the user comparator does.
\<close>

section \<open>\<open>BytewiseComparatorImpl\<close>\<close>

definition Compare :: "slice \<Rightarrow> slice \<Rightarrow> int" where
  "Compare a b = slice_compare a b"

text \<open>The first index at which the strings differ, or the length of the shorter one.\<close>

fun diff_index :: "byte list \<Rightarrow> slice \<Rightarrow> nat" where
  "diff_index (x # xs) (y # ys) = (if x = y then Suc (diff_index xs ys) else 0)"
| "diff_index _ _ = 0"

definition FindShortestSeparator :: "byte list \<Rightarrow> slice \<Rightarrow> byte list" where
  "FindShortestSeparator start limit =
     (let min_length = min (length start) (length limit);
          i = diff_index start limit
      in if i \<ge> min_length then start
         else if start ! i < 0xff \<and> unat (start ! i) + 1 < unat (limit ! i)
         then take i start @ [start ! i + 1]
         else start)"

fun FindShortSuccessor :: "byte list \<Rightarrow> byte list" where
  "FindShortSuccessor [] = []"
| "FindShortSuccessor (b # key) =
     (if b \<noteq> 0xff then [b + 1]
      else (case FindShortSuccessor key of rest \<Rightarrow> b # rest))"

section \<open>Internal keys\<close>

datatype ValueType = kTypeDeletion | kTypeValue

fun value_type_number :: "ValueType \<Rightarrow> nat" where
  "value_type_number kTypeDeletion = 0"
| "value_type_number kTypeValue = 1"

definition kValueTypeForSeek :: ValueType where
  "kValueTypeForSeek = kTypeValue"

definition kMaxSequenceNumber :: u64 where
  "kMaxSequenceNumber = push_bit 56 1 - 1"

record ParsedInternalKey =
  user_key :: slice
  sequence :: u64
  vtype :: ValueType

definition InternalKeyEncodingLength :: "ParsedInternalKey \<Rightarrow> nat" where
  "InternalKeyEncodingLength key = length (user_key key) + 8"

definition PackSequenceAndType :: "u64 \<Rightarrow> ValueType \<Rightarrow> u64" where
  "PackSequenceAndType seq t = push_bit 8 seq OR word_of_nat (value_type_number t)"

definition AppendInternalKey :: "byte list \<Rightarrow> ParsedInternalKey \<Rightarrow> byte list" where
  "AppendInternalKey result key = PutFixed64 (result @ user_key key) (PackSequenceAndType (sequence key) (vtype key))"

text \<open>\<open>None\<close> is \<open>false\<close>; then the caller's structure is undefined.\<close>

definition ParseInternalKey :: "slice \<Rightarrow> ParsedInternalKey option" where
  "ParseInternalKey internal_key =
     (let n = length internal_key in
      if n < 8 then None
      else
        let num = DecodeFixed64 (drop (n - 8) internal_key);
            c = num AND 0xff
        in if c = 0 then Some \<lparr>user_key = take (n - 8) internal_key, sequence = drop_bit 8 num, vtype = kTypeDeletion\<rparr>
           else if c = 1 then Some \<lparr>user_key = take (n - 8) internal_key, sequence = drop_bit 8 num, vtype = kTypeValue\<rparr>
           else None)"

definition ExtractUserKey :: "slice \<Rightarrow> slice" where
  "ExtractUserKey internal_key = take (length internal_key - 8) internal_key"

definition internal_num :: "slice \<Rightarrow> u64" where
  "internal_num key = DecodeFixed64 (drop (length key - 8) key)"

text \<open>\<open>InternalKeyComparator\<close>; \<open>cmp\<close>, \<open>sep\<close> and \<open>succ\<close> are the operations of the user comparator.\<close>

definition InternalKeyComparator_Compare :: "(slice \<Rightarrow> slice \<Rightarrow> int) \<Rightarrow> slice \<Rightarrow> slice \<Rightarrow> int" where
  "InternalKeyComparator_Compare cmp akey bkey =
     (let r = cmp (ExtractUserKey akey) (ExtractUserKey bkey) in
      if r = 0 then
        let anum = internal_num akey; bnum = internal_num bkey
        in if anum > bnum then -1 else if anum < bnum then 1 else r
      else r)"

definition InternalKeyComparator_FindShortestSeparator ::
  "(slice \<Rightarrow> slice \<Rightarrow> int) \<Rightarrow> (byte list \<Rightarrow> slice \<Rightarrow> byte list) \<Rightarrow> byte list \<Rightarrow> slice \<Rightarrow> byte list" where
  "InternalKeyComparator_FindShortestSeparator cmp sep start limit =
     (let user_start = ExtractUserKey start;
          user_limit = ExtractUserKey limit;
          tmp = sep user_start user_limit
      in if length tmp < length user_start \<and> cmp user_start tmp < 0
         then PutFixed64 tmp (PackSequenceAndType kMaxSequenceNumber kValueTypeForSeek)
         else start)"

definition InternalKeyComparator_FindShortSuccessor ::
  "(slice \<Rightarrow> slice \<Rightarrow> int) \<Rightarrow> (byte list \<Rightarrow> byte list) \<Rightarrow> byte list \<Rightarrow> byte list" where
  "InternalKeyComparator_FindShortSuccessor cmp succ key =
     (let user_key = ExtractUserKey key;
          tmp = succ user_key
      in if length tmp < length user_key \<and> cmp user_key tmp < 0
         then PutFixed64 tmp (PackSequenceAndType kMaxSequenceNumber kValueTypeForSeek)
         else key)"

text \<open>\<open>InternalFilterPolicy\<close>\<close>

definition InternalFilterPolicy_CreateFilter ::
  "(slice list \<Rightarrow> byte list \<Rightarrow> byte list) \<Rightarrow> slice list \<Rightarrow> byte list \<Rightarrow> byte list" where
  "InternalFilterPolicy_CreateFilter create keys dst = create (map ExtractUserKey keys) dst"

definition InternalFilterPolicy_KeyMayMatch :: "(slice \<Rightarrow> slice \<Rightarrow> bool) \<Rightarrow> slice \<Rightarrow> slice \<Rightarrow> bool" where
  "InternalFilterPolicy_KeyMayMatch may_match key f = may_match (ExtractUserKey key) f"

text \<open>
  \<open>LookupKey\<close>: the bytes from \<open>start_\<close> to \<open>end_\<close> and the offset of \<open>kstart_\<close>. The array is the 200 bytes inside the
  object or an allocated one; it is as long as needed.
\<close>

record LookupKey =
  lookup_space :: nat
  lookup_bytes :: "byte list"
  kstart :: nat

definition new_LookupKey :: "slice \<Rightarrow> u64 \<Rightarrow> LookupKey" where
  "new_LookupKey ukey s =
     (let usize = length ukey;
          needed = usize + 13;
          prefix = EncodeVarint32 (word_of_nat (usize + 8))
      in \<lparr>lookup_space = (if needed \<le> 200 then 200 else needed),
          lookup_bytes = prefix @ ukey @ EncodeFixed64 (PackSequenceAndType s kValueTypeForSeek),
          kstart = length prefix\<rparr>)"

definition memtable_key :: "LookupKey \<Rightarrow> slice" where
  "memtable_key k = lookup_bytes k"

definition internal_key :: "LookupKey \<Rightarrow> slice" where
  "internal_key k = drop (kstart k) (lookup_bytes k)"

definition lookup_user_key :: "LookupKey \<Rightarrow> slice" where
  "lookup_user_key k = take (length (lookup_bytes k) - kstart k - 8) (drop (kstart k) (lookup_bytes k))"

section \<open>The interface of comparators\<close>

locale comparator =
  fixes valid :: "slice \<Rightarrow> bool" and cmp :: "slice \<Rightarrow> slice \<Rightarrow> int"
    and sep :: "byte list \<Rightarrow> slice \<Rightarrow> byte list" and succ :: "byte list \<Rightarrow> byte list"
  assumes cmp_eq: "valid a \<Longrightarrow> valid b \<Longrightarrow> cmp a b = 0 \<longleftrightarrow> a = b"
    and cmp_flip: "valid a \<Longrightarrow> valid b \<Longrightarrow> cmp a b < 0 \<longleftrightarrow> 0 < cmp b a"
    and cmp_trans: "valid a \<Longrightarrow> valid b \<Longrightarrow> valid c \<Longrightarrow> cmp a b < 0 \<Longrightarrow> cmp b c < 0 \<Longrightarrow> cmp a c < 0"
    and sep_valid: "valid a \<Longrightarrow> valid b \<Longrightarrow> valid (sep a b)"
    and sep_between: "valid a \<Longrightarrow> valid b \<Longrightarrow> cmp a b < 0 \<Longrightarrow> cmp a (sep a b) \<le> 0 \<and> cmp (sep a b) b < 0"
    and sep_same: "valid a \<Longrightarrow> valid b \<Longrightarrow> \<not> cmp a b < 0 \<Longrightarrow> sep a b = a"
    and succ_valid: "valid a \<Longrightarrow> valid (succ a)"
    and succ_above: "valid a \<Longrightarrow> cmp a (succ a) \<le> 0"
begin

lemma cmp_linear: "valid a \<Longrightarrow> valid b \<Longrightarrow> cmp a b < 0 \<or> a = b \<or> cmp b a < 0"
  using cmp_eq [of a b] cmp_flip [of b a] by linarith

lemma cmp_irrefl: "valid a \<Longrightarrow> \<not> cmp a a < 0"
  using cmp_eq [of a a] by simp

lemma cmp_asym: "valid a \<Longrightarrow> valid b \<Longrightarrow> cmp a b < 0 \<Longrightarrow> \<not> cmp b a < 0"
  using cmp_trans [of a b a] cmp_irrefl by blast

lemma le_less_trans: "valid a \<Longrightarrow> valid b \<Longrightarrow> valid c \<Longrightarrow> cmp a b \<le> 0 \<Longrightarrow> cmp b c < 0 \<Longrightarrow> cmp a c < 0"
  using cmp_trans [of a b c] cmp_eq [of a b] by (cases "cmp a b = 0") auto

end

section \<open>The bytewise order\<close>

lemma memcmp_range: "memcmp a b n \<in> {-1, 0, 1}"
  by (induction a b n rule: memcmp.induct) auto

lemma slice_compare_Cons:
  "slice_compare (x # xs) (y # ys) = (if x < y then -1 else if y < x then 1 else slice_compare xs ys)"
  by (simp add: slice_compare_def Let_def)

lemma slice_compare_Nil [simp]:
  "slice_compare [] [] = 0" "slice_compare [] (y # ys) = -1" "slice_compare (x # xs) [] = 1"
  by (simp_all add: slice_compare_def Let_def)

lemma slice_compare_eq: "slice_compare a b = 0 \<longleftrightarrow> a = b"
  by (induction a b rule: diff_index.induct) (auto simp: slice_compare_Cons slice_compare_def Let_def)

lemma slice_compare_flip: "slice_compare b a = - slice_compare a b"
proof (induction a arbitrary: b)
  case Nil
  show ?case by (cases b) simp_all
next
  case (Cons x a)
  then show ?case by (cases b) (auto simp: slice_compare_Cons)
qed

lemma slice_compare_trans: "slice_compare a b < 0 \<Longrightarrow> slice_compare b c < 0 \<Longrightarrow> slice_compare a c < 0"
proof (induction a arbitrary: b c)
  case Nil
  then show ?case by (cases b; cases c) (auto simp: slice_compare_Cons split: if_splits)
next
  case (Cons x a)
  then obtain y b' z c' where [simp]: "b = y # b'" "c = z # c'"
    by (cases b; cases c) (auto simp: slice_compare_Cons split: if_splits)
  from Cons show ?case by (auto simp: slice_compare_Cons split: if_splits)
qed

lemma byte_inc: "x < 0xff \<Longrightarrow> x < x + 1 \<and> unat (x + 1) = unat x + 1" for x :: byte
  by (simp add: word_less_nat_alt unat_word_ariths)

lemma FindShortestSeparator_cases:
  "FindShortestSeparator [] b = []" "FindShortestSeparator a [] = a"
  "FindShortestSeparator (x # xs) (y # ys) =
     (if x = y then x # FindShortestSeparator xs ys else if x < 0xff \<and> unat x + 1 < unat y then [x + 1] else x # xs)"
  by (simp_all add: FindShortestSeparator_def Let_def)

lemma FindShortestSeparator_between:
  "(slice_compare a b < 0 \<longrightarrow> slice_compare a (FindShortestSeparator a b) \<le> 0 \<and> slice_compare (FindShortestSeparator a b) b < 0) \<and>
   (\<not> slice_compare a b < 0 \<longrightarrow> FindShortestSeparator a b = a)"
proof (induction a b rule: diff_index.induct [case_names both_more left_end right_end])
  case (both_more x xs y ys)
  show ?case
  proof (cases "x = y")
    case True
    with both_more show ?thesis by (auto simp: FindShortestSeparator_cases slice_compare_Cons)
  next
    case False
    then show ?thesis
      using byte_inc [of x] slice_compare_eq [of xs xs]
      by (auto simp: FindShortestSeparator_cases slice_compare_Cons word_less_nat_alt)
  qed
next
  case (left_end b)
  then show ?case using slice_compare_eq [of "[]" "[]"] by (cases b) (auto simp: FindShortestSeparator_cases)
next
  case (right_end a)
  then show ?case using slice_compare_eq [of a a] by (auto simp: FindShortestSeparator_cases)
qed

lemma FindShortSuccessor_above: "slice_compare a (FindShortSuccessor a) \<le> 0"
proof (induction a)
  case (Cons b a)
  have "0xff = (- 1 :: byte)" by simp
  then have "b \<noteq> 0xff \<Longrightarrow> b < 0xff" for b :: byte
    using word_order.extremum_strict by (simp only: order.strict_iff_order word_order.extremum simp_thms)
  with Cons byte_inc [of b] show ?case by (auto simp: slice_compare_Cons)
qed simp

interpretation bytewise: comparator "\<lambda>_. True" Compare FindShortestSeparator FindShortSuccessor
proof (unfold_locales, goal_cases)
  case (1 a b)
  show ?case by (simp add: Compare_def slice_compare_eq)
next
  case (2 a b)
  show ?case by (simp add: Compare_def slice_compare_flip [of b a])
next
  case (3 a b c)
  then show ?case using slice_compare_trans by (simp add: Compare_def)
next
  case (5 a b)
  then show ?case using FindShortestSeparator_between by (simp add: Compare_def)
next
  case (6 a b)
  then show ?case using FindShortestSeparator_between by (simp add: Compare_def)
next
  case (8 a)
  show ?case using FindShortSuccessor_above by (simp add: Compare_def)
qed simp_all

section \<open>Internal keys: encoding\<close>

lemma EncodeFixed64_decode: "length xs = 8 \<Longrightarrow> EncodeFixed64 (DecodeFixed64 xs) = xs"
proof -
  assume n: "length xs = 8"
  have "of_le xs < 2 ^ 64" using of_le_bound [of xs] by (simp add: n)
  then have "unat (word_of_nat (of_le xs) :: u64) = of_le xs" by (simp add: unat_of_nat)
  moreover have "to_le 8 (of_le xs) = xs" using to_le_of_le [of xs] by (simp only: n)
  ultimately show ?thesis by (simp add: EncodeFixed64_def DecodeFixed64_def kLittleEndian_def n)
qed

lemma internal_parts: "8 \<le> length k \<Longrightarrow> k = ExtractUserKey k @ EncodeFixed64 (internal_num k)"
  by (simp add: ExtractUserKey_def internal_num_def EncodeFixed64_decode)

lemma internal_key_inject:
  "8 \<le> length a \<Longrightarrow> 8 \<le> length b \<Longrightarrow> ExtractUserKey a = ExtractUserKey b \<Longrightarrow> internal_num a = internal_num b \<Longrightarrow> a = b"
  using internal_parts by metis

lemma internal_of_parts [simp]:
  "ExtractUserKey (u @ EncodeFixed64 n) = u" "internal_num (u @ EncodeFixed64 n) = n"
  using DecodeFixed64_encode [of n "[]"] by (simp_all add: ExtractUserKey_def internal_num_def)

lemma pack_fields:
  assumes "unat seq < 2 ^ 56"
  shows "PackSequenceAndType seq t AND 0xff = word_of_nat (value_type_number t)"
    and "drop_bit 8 (PackSequenceAndType seq t) = seq"
proof -
  have t: "bit (word_of_nat (value_type_number t) :: u64) n \<Longrightarrow> n = 0" for n
    by (cases t) (auto simp: bit_1_iff)
  have "(PackSequenceAndType seq t AND 0xff) = take_bit 8 (PackSequenceAndType seq t)"
    by (simp add: take_bit_eq_mask mask_eq_exp_minus_1)
  also have "\<dots> = word_of_nat (value_type_number t)"
    by (intro bit_eqI) (auto simp: PackSequenceAndType_def bit_take_bit_iff bit_or_iff bit_push_bit_iff dest: t)
  finally show "PackSequenceAndType seq t AND 0xff = word_of_nat (value_type_number t)" .
  have "bit seq n \<Longrightarrow> n < 56" for n by (rule bit_word_less [OF _ assms])
  then show "drop_bit 8 (PackSequenceAndType seq t) = seq"
    by (intro bit_eqI) (auto simp: PackSequenceAndType_def bit_drop_bit_eq bit_or_iff bit_push_bit_iff dest: t)
qed

lemma Parse_Append:
  assumes "unat (sequence key) < 2 ^ 56"
  shows "ParseInternalKey (AppendInternalKey [] key) = Some key"
  using pack_fields [OF assms, of "vtype key"] DecodeFixed64_encode [of _ "[]"]
  by (cases key, cases "vtype key")
    (simp_all add: ParseInternalKey_def AppendInternalKey_def PutFixed64_def Let_def)

text \<open>Numbers pack in the order of sequence numbers, and the type used for seeks is the greatest.\<close>

lemma unat_pack: "unat seq < 2 ^ 56 \<Longrightarrow> unat (PackSequenceAndType seq t) = unat seq * 256 + value_type_number t"
proof -
  assume s: "unat seq < 2 ^ 56"
  have "push_bit 8 seq AND word_of_nat (value_type_number t) = 0"
    by (cases t) (auto intro!: bit_eqI simp: bit_and_iff bit_push_bit_iff bit_1_iff)
  then have "PackSequenceAndType seq t = push_bit 8 seq + word_of_nat (value_type_number t)"
    by (simp add: PackSequenceAndType_def disjunctive_add_eq_or)
  also have "unat \<dots> = (unat seq * 256 + value_type_number t) mod 2 ^ 64"
    by (cases t) (simp_all add: push_bit_eq_mult unat_word_ariths mod_simps mult.commute)
  also have "\<dots> = unat seq * 256 + value_type_number t"
    using s by (cases t) simp_all
  finally show ?thesis .
qed

section \<open>Internal keys: order\<close>

context comparator
begin

lemma internal_less:
  "InternalKeyComparator_Compare cmp a b < 0 \<longleftrightarrow>
   cmp (ExtractUserKey a) (ExtractUserKey b) < 0 \<or>
   cmp (ExtractUserKey a) (ExtractUserKey b) = 0 \<and> internal_num b < internal_num a"
  by (auto simp: InternalKeyComparator_Compare_def Let_def)

lemma internal_greater:
  "0 < InternalKeyComparator_Compare cmp a b \<longleftrightarrow>
   0 < cmp (ExtractUserKey a) (ExtractUserKey b) \<or>
   cmp (ExtractUserKey a) (ExtractUserKey b) = 0 \<and> internal_num a < internal_num b"
  by (auto simp: InternalKeyComparator_Compare_def Let_def)

lemma internal_equal:
  "InternalKeyComparator_Compare cmp a b = 0 \<longleftrightarrow>
   cmp (ExtractUserKey a) (ExtractUserKey b) = 0 \<and> internal_num a = internal_num b"
  by (auto simp: InternalKeyComparator_Compare_def Let_def)

lemma internal_comparator:
  "comparator (\<lambda>k. 8 \<le> length k \<and> valid (ExtractUserKey k)) (InternalKeyComparator_Compare cmp)
     (InternalKeyComparator_FindShortestSeparator cmp sep) (InternalKeyComparator_FindShortSuccessor cmp succ)"
proof (unfold_locales, goal_cases)
  case (1 a b)
  then show ?case using internal_key_inject [of a b] cmp_eq by (auto simp: internal_equal)
next
  case (2 a b)
  then show ?case
    using cmp_flip [of "ExtractUserKey a" "ExtractUserKey b"] cmp_eq [of "ExtractUserKey a" "ExtractUserKey b"]
      cmp_eq [of "ExtractUserKey b" "ExtractUserKey a"]
    by (auto simp: internal_less internal_greater)
next
  case (3 a b c)
  let ?u = "ExtractUserKey"
  have eq: "cmp (?u a) (?u b) = 0 \<longleftrightarrow> ?u a = ?u b" "cmp (?u b) (?u c) = 0 \<longleftrightarrow> ?u b = ?u c"
    "cmp (?u a) (?u c) = 0 \<longleftrightarrow> ?u a = ?u c"
    using 3(1-3) by (simp_all add: cmp_eq)
  have less: "cmp (?u a) (?u b) < 0 \<Longrightarrow> cmp (?u b) (?u c) < 0 \<Longrightarrow> cmp (?u a) (?u c) < 0"
    using 3(1-3) cmp_trans [of "?u a" "?u b" "?u c"] by simp
  from 3(4,5) consider "cmp (?u a) (?u b) < 0" "cmp (?u b) (?u c) < 0"
    | "cmp (?u a) (?u b) < 0" "?u b = ?u c" | "?u a = ?u b" "cmp (?u b) (?u c) < 0"
    | "?u a = ?u b" "?u b = ?u c" "internal_num c < internal_num a"
    unfolding internal_less eq by (blast intro: less_trans)
  then show ?case
    using cmp_eq [of "?u c" "?u c"] 3(3) by cases (simp_all add: internal_less less)
next
  case (4 a b)
  then show ?case
    by (auto simp: InternalKeyComparator_FindShortestSeparator_def PutFixed64_def Let_def sep_valid)
next
  case (5 a b)
  let ?u = "ExtractUserKey"
  show ?case
  proof (cases "InternalKeyComparator_FindShortestSeparator cmp sep a b = a")
    case True
    then show ?thesis using 5 cmp_eq internal_equal [of a a] by simp
  next
    case False
    let ?t = "sep (?u a) (?u b)"
    from False have t: "length ?t < length (?u a)" "cmp (?u a) ?t < 0"
      and r: "InternalKeyComparator_FindShortestSeparator cmp sep a b =
        ?t @ EncodeFixed64 (PackSequenceAndType kMaxSequenceNumber kValueTypeForSeek)"
      by (auto simp: InternalKeyComparator_FindShortestSeparator_def PutFixed64_def Let_def split: if_splits)
    have "cmp (?u a) (?u b) < 0" using sep_same [of "?u a" "?u b"] t(1) 5 by fastforce
    then have "cmp ?t (?u b) < 0" using sep_between [of "?u a" "?u b"] 5 by blast
    with t(2) show ?thesis by (simp add: r internal_less order.strict_implies_order [OF internal_less [THEN iffD2]])
  qed
next
  case (6 a b)
  then have "\<not> cmp (ExtractUserKey a) (ExtractUserKey b) < 0" by (simp add: internal_less)
  with 6 show ?case
    by (simp add: InternalKeyComparator_FindShortestSeparator_def sep_same Let_def)
next
  case (7 a)
  then show ?case
    by (auto simp: InternalKeyComparator_FindShortSuccessor_def PutFixed64_def Let_def succ_valid)
next
  case (8 a)
  then show ?case
    using cmp_eq internal_equal [of a a]
    by (auto simp: InternalKeyComparator_FindShortSuccessor_def PutFixed64_def Let_def
        intro!: order.strict_implies_order [OF internal_less [THEN iffD2]])
qed

end

definition internal_valid :: "slice \<Rightarrow> bool" where
  "internal_valid k \<longleftrightarrow> 8 \<le> length k"

interpretation internal: comparator internal_valid "InternalKeyComparator_Compare Compare"
  "InternalKeyComparator_FindShortestSeparator Compare FindShortestSeparator"
  "InternalKeyComparator_FindShortSuccessor Compare FindShortSuccessor"
  using bytewise.internal_comparator by (simp add: internal_valid_def [abs_def])

section \<open>Lookups\<close>

lemma LookupKey_parts:
  "lookup_user_key (new_LookupKey u s) = u"
  "internal_key (new_LookupKey u s) = AppendInternalKey [] \<lparr>user_key = u, sequence = s, vtype = kValueTypeForSeek\<rparr>"
  by (simp_all add: lookup_user_key_def internal_key_def new_LookupKey_def AppendInternalKey_def PutFixed64_def Let_def)

lemma LookupKey_fits: "length (lookup_bytes (new_LookupKey u s)) \<le> lookup_space (new_LookupKey u s)"
proof -
  have "length (EncodeVarint32 (word_of_nat (length u + 8))) \<le> 5" by (simp add: EncodeVarint32_def)
  then show ?thesis by (simp add: new_LookupKey_def Let_def)
qed

text \<open>A lookup key at a snapshot comes right before the newest entry of its user key that the snapshot may see.\<close>

lemma lookup_order:
  assumes "unat s < 2 ^ 56" "unat (sequence e) < 2 ^ 56" "user_key e = u"
  shows "InternalKeyComparator_Compare Compare (internal_key (new_LookupKey u s)) (AppendInternalKey [] e) \<le> 0 \<longleftrightarrow>
    sequence e \<le> s"
proof -
  have "\<not> 0 < InternalKeyComparator_Compare Compare (internal_key (new_LookupKey u s)) (AppendInternalKey [] e) \<longleftrightarrow>
      \<not> PackSequenceAndType s kValueTypeForSeek < PackSequenceAndType (sequence e) (vtype e)"
    using assms(3) bytewise.cmp_eq [of u u]
    by (simp add: bytewise.internal_greater LookupKey_parts AppendInternalKey_def PutFixed64_def)
  also have "\<dots> \<longleftrightarrow> unat (sequence e) \<le> unat s"
    using assms(1,2) by (cases "vtype e") (auto simp: word_less_nat_alt unat_pack kValueTypeForSeek_def)
  finally show ?thesis by (simp add: word_le_nat_alt not_less)
qed

section \<open>Filters on internal keys\<close>

interpretation internal_bloom: filter_policy "InternalFilterPolicy_CreateFilter (CreateFilter (new_BloomFilterPolicy n))"
  "InternalFilterPolicy_KeyMayMatch KeyMayMatch" "\<lambda>keys. filter_small (new_BloomFilterPolicy n) (map ExtractUserKey keys)" for n
proof
  show "\<exists>f. InternalFilterPolicy_CreateFilter (CreateFilter (new_BloomFilterPolicy n)) keys dst = dst @ f" for keys dst
    using bloom.create_appends by (simp add: InternalFilterPolicy_CreateFilter_def)
  show "InternalFilterPolicy_KeyMayMatch KeyMayMatch key
      (drop (length dst) (InternalFilterPolicy_CreateFilter (CreateFilter (new_BloomFilterPolicy n)) keys dst))"
    if "filter_small (new_BloomFilterPolicy n) (map ExtractUserKey keys)" "key \<in> set keys" for keys key dst
    using bloom.no_false_negative [OF that(1), of "ExtractUserKey key" dst] that(2)
    by (simp add: InternalFilterPolicy_CreateFilter_def InternalFilterPolicy_KeyMayMatch_def)
  show "filter_small (new_BloomFilterPolicy n) (map ExtractUserKey keys')"
    if "filter_small (new_BloomFilterPolicy n) (map ExtractUserKey keys)" "length keys' \<le> length keys" for keys keys'
    using bloom.small_shorter [OF that(1)] that(2) by simp
qed

end
