(* ===== verification/Ldb_Write_Batch.thy ===== *)
theory Ldb_Write_Batch
  imports Ldb_Dbformat
begin

text \<open>
  \<open>leveldb/db/write_batch.cc\<close>: a batch of updates as one string, a header of sequence number and count followed by
  the records. The abstract batch is the list of its operations; every operation of the class is shown to act on
  that list, and \<open>Iterate\<close> to replay it.
\<close>

section \<open>The class\<close>

record WriteBatch =
  rep :: "byte list"

definition kHeader :: nat where
  "kHeader = 12"

definition Clear :: "WriteBatch \<Rightarrow> WriteBatch" where
  "Clear b = b\<lparr>rep := replicate kHeader 0\<rparr>"

definition new_WriteBatch :: WriteBatch where
  "new_WriteBatch = Clear \<lparr>rep = []\<rparr>"

definition ApproximateSize :: "WriteBatch \<Rightarrow> nat" where
  "ApproximateSize b = length (rep b)"

text \<open>\<open>Count\<close> and \<open>SetCount\<close> convert between \<open>uint32_t\<close> and \<open>int\<close>.\<close>

definition Count :: "WriteBatch \<Rightarrow> int" where
  "Count b = sint (DecodeFixed32 (drop 8 (rep b)))"

definition SetCount :: "WriteBatch \<Rightarrow> int \<Rightarrow> WriteBatch" where
  "SetCount b n = b\<lparr>rep := take 8 (rep b) @ EncodeFixed32 (word_of_int n) @ drop 12 (rep b)\<rparr>"

definition Sequence :: "WriteBatch \<Rightarrow> u64" where
  "Sequence b = DecodeFixed64 (rep b)"

definition SetSequence :: "WriteBatch \<Rightarrow> u64 \<Rightarrow> WriteBatch" where
  "SetSequence b seq = b\<lparr>rep := EncodeFixed64 seq @ drop 8 (rep b)\<rparr>"

definition WriteBatch_Put :: "WriteBatch \<Rightarrow> slice \<Rightarrow> slice \<Rightarrow> WriteBatch" where
  "WriteBatch_Put b key val =
     (let b = SetCount b (Count b + 1);
          r = rep b @ [word_of_nat (value_type_number kTypeValue)]
      in b\<lparr>rep := PutLengthPrefixedSlice (PutLengthPrefixedSlice r key) val\<rparr>)"

definition WriteBatch_Delete :: "WriteBatch \<Rightarrow> slice \<Rightarrow> WriteBatch" where
  "WriteBatch_Delete b key =
     (let b = SetCount b (Count b + 1);
          r = rep b @ [word_of_nat (value_type_number kTypeDeletion)]
      in b\<lparr>rep := PutLengthPrefixedSlice r key\<rparr>)"

definition SetContents :: "WriteBatch \<Rightarrow> slice \<Rightarrow> WriteBatch" where
  "SetContents b contents = b\<lparr>rep := contents\<rparr>"

definition WriteBatch_Append :: "WriteBatch \<Rightarrow> WriteBatch \<Rightarrow> WriteBatch" where
  "WriteBatch_Append dst src =
     (let dst = SetCount dst (Count dst + Count src) in dst\<lparr>rep := rep dst @ drop kHeader (rep src)\<rparr>)"

section \<open>\<open>Iterate\<close>\<close>

lemma varint32_ptr_loop_shorter: "varint32_ptr_loop shift r p = Some (v, q) \<Longrightarrow> length q < length p"
  by (induction shift r p rule: varint32_ptr_loop.induct) (fastforce split: if_splits)+

lemma GetVarint32_shorter: "GetVarint32 p = Some (v, q) \<Longrightarrow> length q < length p"
  by (auto simp: GetVarint32_def GetVarint32Ptr_def GetVarint32PtrFallback_def simp del: varint32_ptr_loop.simps
      split: list.splits if_splits dest!: varint32_ptr_loop_shorter)

lemma GetLengthPrefixedSlice_shorter: "GetLengthPrefixedSlice p = Some (s, q) \<Longrightarrow> length q < length p"
  by (fastforce simp: GetLengthPrefixedSlice_def remove_prefix_def split: option.splits prod.splits if_splits
      dest: GetVarint32_shorter)

text \<open>\<open>put\<close> and \<open>del\<close> are the methods of the handler, \<open>h\<close> its state. The result is the number of records found, or the
  status of an early return.\<close>

function iterate_loop :: "(slice \<Rightarrow> slice \<Rightarrow> 'h \<Rightarrow> 'h) \<Rightarrow> (slice \<Rightarrow> 'h \<Rightarrow> 'h) \<Rightarrow> slice \<Rightarrow> int \<Rightarrow> 'h \<Rightarrow> (status + int) \<times> 'h" where
  "iterate_loop put del input found h =
     (if input = [] then (Inr found, h)
      else
        let found = found + 1; tag = hd input; input = remove_prefix 1 input in
        if tag = word_of_nat (value_type_number kTypeValue) then
          (case GetLengthPrefixedSlice input of
             Some (key, input1) \<Rightarrow>
               (case GetLengthPrefixedSlice input1 of
                  Some (val, input2) \<Rightarrow> iterate_loop put del input2 found (put key val h)
                | None \<Rightarrow> (Inl (Corruption (str ''bad WriteBatch Put'') []), h))
           | None \<Rightarrow> (Inl (Corruption (str ''bad WriteBatch Put'') []), h))
        else if tag = word_of_nat (value_type_number kTypeDeletion) then
          (case GetLengthPrefixedSlice input of
             Some (key, input1) \<Rightarrow> iterate_loop put del input1 found (del key h)
           | None \<Rightarrow> (Inl (Corruption (str ''bad WriteBatch Delete'') []), h))
        else (Inl (Corruption (str ''unknown WriteBatch tag'') []), h))"
  by pat_completeness auto
termination
proof (relation "measure (\<lambda>(_, _, input, _, _). length input)", goal_cases)
  case 1
  show ?case by simp
next
  case (2 put del input found h f tag inp a key input1 b val input2)
  then show ?case
    using GetLengthPrefixedSlice_shorter [of inp key input1] GetLengthPrefixedSlice_shorter [of input1 val input2]
    by (simp add: remove_prefix_def)
next
  case (3 put del input found h f tag inp a key input1)
  then show ?case
    using GetLengthPrefixedSlice_shorter [of inp key input1] by (simp add: remove_prefix_def)
qed

declare iterate_loop.simps [simp del]

definition Iterate :: "(slice \<Rightarrow> slice \<Rightarrow> 'h \<Rightarrow> 'h) \<Rightarrow> (slice \<Rightarrow> 'h \<Rightarrow> 'h) \<Rightarrow> WriteBatch \<Rightarrow> 'h \<Rightarrow> status \<times> 'h" where
  "Iterate put del b h =
     (let input = rep b in
      if length input < kHeader then (Corruption (str ''malformed WriteBatch (too small)'') [], h)
      else case iterate_loop put del (remove_prefix kHeader input) 0 h of
             (Inl s, h) \<Rightarrow> (s, h)
           | (Inr found, h) \<Rightarrow>
               if found \<noteq> Count b then (Corruption (str ''WriteBatch has wrong count'') [], h) else (OK, h))"

section \<open>The abstract batch\<close>

datatype batch_op = BPut slice slice | BDelete slice

fun apply_op :: "(slice \<Rightarrow> slice \<Rightarrow> 'h \<Rightarrow> 'h) \<Rightarrow> (slice \<Rightarrow> 'h \<Rightarrow> 'h) \<Rightarrow> 'h \<Rightarrow> batch_op \<Rightarrow> 'h" where
  "apply_op put del h (BPut k v) = put k v h"
| "apply_op put del h (BDelete k) = del k h"

fun op_bytes :: "batch_op \<Rightarrow> byte list" where
  "op_bytes (BPut k v) = 1 # lps k @ lps v"
| "op_bytes (BDelete k) = 0 # lps k"

fun op_ok :: "batch_op \<Rightarrow> bool" where
  "op_ok (BPut k v) \<longleftrightarrow> length k < 2 ^ 32 \<and> length v < 2 ^ 32"
| "op_ok (BDelete k) \<longleftrightarrow> length k < 2 ^ 32"

definition batch_of :: "u64 \<Rightarrow> batch_op list \<Rightarrow> WriteBatch" where
  "batch_of seq ops = \<lparr>rep = EncodeFixed64 seq @ EncodeFixed32 (word_of_nat (length ops)) @ concat (map op_bytes ops)\<rparr>"

lemma new_batch: "new_WriteBatch = batch_of 0 []"
proof -
  have "replicate 12 0 = EncodeFixed64 0 @ EncodeFixed32 0" by code_simp
  then show ?thesis by (simp add: new_WriteBatch_def Clear_def batch_of_def kHeader_def)
qed

lemma Clear_batch: "Clear b = batch_of 0 []"
  using new_batch by (cases b) (simp add: new_WriteBatch_def Clear_def)

lemma Count_batch: "length ops < 2 ^ 31 \<Longrightarrow> Count (batch_of seq ops) = int (length ops)"
  by (simp add: Count_def batch_of_def sint_small)

lemma Sequence_batch: "Sequence (batch_of seq ops) = seq"
  by (simp add: Sequence_def batch_of_def)

lemma SetSequence_batch: "SetSequence (batch_of seq ops) seq' = batch_of seq' ops"
  by (simp add: SetSequence_def batch_of_def)

lemma SetCount_batch:
  "rep (SetCount (batch_of seq ops) n) = EncodeFixed64 seq @ EncodeFixed32 (word_of_int n) @ concat (map op_bytes ops)"
  by (simp add: SetCount_def batch_of_def)

lemma Put_batch: "length ops < 2 ^ 31 \<Longrightarrow> WriteBatch_Put (batch_of seq ops) k v = batch_of seq (ops @ [BPut k v])"
  by (rule WriteBatch.equality)
    (simp_all add: WriteBatch_Put_def Count_batch SetCount_batch PutLengthPrefixedSlice_lps Let_def, simp add: batch_of_def add.commute)

lemma Delete_batch: "length ops < 2 ^ 31 \<Longrightarrow> WriteBatch_Delete (batch_of seq ops) k = batch_of seq (ops @ [BDelete k])"
  by (rule WriteBatch.equality)
    (simp_all add: WriteBatch_Delete_def Count_batch SetCount_batch PutLengthPrefixedSlice_lps Let_def, simp add: batch_of_def add.commute)

lemma Append_batch:
  "length ops < 2 ^ 31 \<Longrightarrow> length ops' < 2 ^ 31 \<Longrightarrow>
   WriteBatch_Append (batch_of seq ops) (batch_of seq' ops') = batch_of seq (ops @ ops')"
  by (rule WriteBatch.equality)
    (simp_all add: WriteBatch_Append_def Count_batch SetCount_batch Let_def kHeader_def, simp add: batch_of_def)

lemma iterate_ops:
  "list_all op_ok ops \<Longrightarrow>
   iterate_loop put del (concat (map op_bytes ops)) n h = (Inr (n + int (length ops)), foldl (apply_op put del) h ops)"
proof (induction ops arbitrary: n h)
  case Nil
  then show ?case by (simp add: iterate_loop.simps)
next
  case (Cons x ops)
  then show ?case
    by (cases x) (simp_all add: iterate_loop.simps [of put del "_ # _"] remove_prefix_def slice_codec.get_put add.assoc)
qed

lemma Iterate_batch:
  "list_all op_ok ops \<Longrightarrow> length ops < 2 ^ 31 \<Longrightarrow>
   Iterate put del (batch_of seq ops) h = (OK, foldl (apply_op put del) h ops)"
  using Count_batch [of ops seq]
  by (simp add: Iterate_def) (simp add: batch_of_def kHeader_def remove_prefix_def iterate_ops)

end
