(* ===== verification/Ldb_Skiplist.thy ===== *)
theory Ldb_Skiplist
  imports Prelude "HOL-Library.Code_Target_Nat"
begin

unbundle bit_operations_syntax

text \<open>
  \<open>leveldb/util/random.h\<close> and \<open>db/skiplist.h\<close>: the random number generator and the skip list. Nodes live in a list
  and are addressed by their index; the head is node 0. The keys and the comparison are parameters, as in the
  template. The loops walk pointers, so they are partial; on a well-formed list they return.
\<close>

section \<open>\<open>Random\<close>\<close>

definition new_Random :: "u32 \<Rightarrow> u32" where
  "new_Random s = (let seed = s AND 0x7fffffff in if seed = 0 \<or> seed = 2147483647 then 1 else seed)"

text \<open>\<open>Next\<close> returns the new seed.\<close>

definition Random_Next :: "u32 \<Rightarrow> u32" where
  "Random_Next seed =
     (let M = 2147483647 :: u32;
          product = ucast seed * 16807 :: u64;
          seed = ucast (drop_bit 31 product + (product AND ucast M)) :: u32
      in if seed > M then seed - M else seed)"

definition Uniform :: "u32 \<Rightarrow> u32 \<Rightarrow> u32 \<times> u32" where
  "Uniform seed n = (let s = Random_Next seed in (s mod n, s))"

definition OneIn :: "u32 \<Rightarrow> u32 \<Rightarrow> bool \<times> u32" where
  "OneIn seed n = (let s = Random_Next seed in (s mod n = 0, s))"

section \<open>The list\<close>

record 'k node =
  nkey :: 'k
  nnext :: "nat option list"

record 'k skiplist =
  nodes :: "'k node list"
  max_height :: nat
  rnd :: u32

definition kMaxHeight :: nat where
  "kMaxHeight = 12"

definition head :: nat where
  "head = 0"

text \<open>\<open>x->Next(n)\<close> and \<open>x->SetNext(n, y)\<close>, with or without barriers; \<open>None\<close> is a null pointer.\<close>

definition Next :: "'k skiplist \<Rightarrow> nat \<Rightarrow> nat \<Rightarrow> nat option" where
  "Next sl x n = nnext (nodes sl ! x) ! n"

definition SetNext :: "'k skiplist \<Rightarrow> nat \<Rightarrow> nat \<Rightarrow> nat option \<Rightarrow> 'k skiplist" where
  "SetNext sl x n y = sl\<lparr>nodes := (nodes sl)[x := (nodes sl ! x)\<lparr>nnext := (nnext (nodes sl ! x))[n := y]\<rparr>]\<rparr>"

definition key_of :: "'k skiplist \<Rightarrow> nat \<Rightarrow> 'k" where
  "key_of sl x = nkey (nodes sl ! x)"

text \<open>A new node at the end of the store; its links are not initialised.\<close>

definition NewNode :: "'k skiplist \<Rightarrow> 'k \<Rightarrow> nat \<Rightarrow> nat \<times> 'k skiplist" where
  "NewNode sl key height =
     (length (nodes sl), sl\<lparr>nodes := nodes sl @ [\<lparr>nkey = key, nnext = replicate height None\<rparr>]\<rparr>)"

definition new_SkipList :: "'k \<Rightarrow> 'k skiplist" where
  "new_SkipList any_key =
     \<lparr>nodes = [\<lparr>nkey = any_key, nnext = replicate kMaxHeight None\<rparr>], max_height = 1, rnd = new_Random 0xdeadbeef\<rparr>"

text \<open>The loop of \<open>RandomHeight\<close> from \<open>height\<close> on.\<close>

function random_height :: "nat \<Rightarrow> u32 \<Rightarrow> nat \<times> u32" where
  "random_height height seed =
     (if height < kMaxHeight then
        let s = Random_Next seed in if s mod 4 = 0 then random_height (height + 1) s else (height, s)
      else (height, seed))"
  by pat_completeness auto
termination
  by (relation "measure (\<lambda>(h, _). kMaxHeight - h)") (auto simp: kMaxHeight_def)

declare random_height.simps [simp del]

definition RandomHeight :: "'k skiplist \<Rightarrow> nat \<times> 'k skiplist" where
  "RandomHeight sl = (case random_height 1 (rnd sl) of (h, s) \<Rightarrow> (h, sl\<lparr>rnd := s\<rparr>))"

definition KeyIsAfterNode :: "('k \<Rightarrow> 'k \<Rightarrow> int) \<Rightarrow> 'k skiplist \<Rightarrow> 'k \<Rightarrow> nat option \<Rightarrow> bool" where
  "KeyIsAfterNode cmp sl key n = (case n of None \<Rightarrow> False | Some n \<Rightarrow> cmp (key_of sl n) key < 0)"

text \<open>\<open>prev\<close> is the array that receives the last node before the key on each level.\<close>

partial_function (option) find_ge ::
  "('k \<Rightarrow> 'k \<Rightarrow> int) \<Rightarrow> 'k skiplist \<Rightarrow> 'k \<Rightarrow> nat \<Rightarrow> nat \<Rightarrow> nat list \<Rightarrow> (nat option \<times> nat list) option" where
  "find_ge cmp sl key x level prev =
     (let nxt = Next sl x level in
      if KeyIsAfterNode cmp sl key nxt then find_ge cmp sl key (the nxt) level prev
      else
        let prev = prev[level := x] in
        if level = 0 then Some (nxt, prev) else find_ge cmp sl key x (level - 1) prev)"

definition FindGreaterOrEqual ::
  "('k \<Rightarrow> 'k \<Rightarrow> int) \<Rightarrow> 'k skiplist \<Rightarrow> 'k \<Rightarrow> nat list \<Rightarrow> (nat option \<times> nat list) option" where
  "FindGreaterOrEqual cmp sl key prev = find_ge cmp sl key head (max_height sl - 1) prev"

partial_function (option) find_lt :: "('k \<Rightarrow> 'k \<Rightarrow> int) \<Rightarrow> 'k skiplist \<Rightarrow> 'k \<Rightarrow> nat \<Rightarrow> nat \<Rightarrow> nat option" where
  "find_lt cmp sl key x level =
     (let nxt = Next sl x level in
      if nxt = None \<or> cmp (key_of sl (the nxt)) key \<ge> 0
      then (if level = 0 then Some x else find_lt cmp sl key x (level - 1))
      else find_lt cmp sl key (the nxt) level)"

definition FindLessThan :: "('k \<Rightarrow> 'k \<Rightarrow> int) \<Rightarrow> 'k skiplist \<Rightarrow> 'k \<Rightarrow> nat option" where
  "FindLessThan cmp sl key = find_lt cmp sl key head (max_height sl - 1)"

partial_function (option) find_last :: "'k skiplist \<Rightarrow> nat \<Rightarrow> nat \<Rightarrow> nat option" where
  "find_last sl x level =
     (let nxt = Next sl x level in
      if nxt = None then (if level = 0 then Some x else find_last sl x (level - 1))
      else find_last sl (the nxt) level)"

definition FindLast :: "'k skiplist \<Rightarrow> nat option" where
  "FindLast sl = find_last sl head (max_height sl - 1)"

text \<open>One turn of the last loop of \<open>Insert\<close>.\<close>

definition link_level :: "nat list \<Rightarrow> nat \<Rightarrow> 'k skiplist \<Rightarrow> nat \<Rightarrow> 'k skiplist" where
  "link_level prev x sl i =
     (let sl = SetNext sl x i (Next sl (prev ! i) i) in SetNext sl (prev ! i) i (Some x))"

definition Insert :: "('k \<Rightarrow> 'k \<Rightarrow> int) \<Rightarrow> 'k skiplist \<Rightarrow> 'k \<Rightarrow> 'k skiplist option" where
  "Insert cmp sl key =
     (case FindGreaterOrEqual cmp sl key (replicate kMaxHeight 0) of
        None \<Rightarrow> None
      | Some (_, prev) \<Rightarrow>
          let (height, sl) = RandomHeight sl;
              (prev, sl) = (if height > max_height sl
                then (foldl (\<lambda>p i. p[i := head]) prev [max_height sl..<height], sl\<lparr>max_height := height\<rparr>)
                else (prev, sl));
              (x, sl) = NewNode sl key height
          in Some (foldl (link_level prev x) sl [0..<height]))"

definition Contains :: "('k \<Rightarrow> 'k \<Rightarrow> int) \<Rightarrow> 'k skiplist \<Rightarrow> 'k \<Rightarrow> bool option" where
  "Contains cmp sl key =
     map_option (\<lambda>(x, _). case x of None \<Rightarrow> False | Some x \<Rightarrow> cmp key (key_of sl x) = 0)
       (FindGreaterOrEqual cmp sl key [])"

text \<open>The iterator is its node; \<open>None\<close> is not valid. A search that would not return is \<open>None\<close> outside.\<close>

definition Iterator_Next :: "'k skiplist \<Rightarrow> nat \<Rightarrow> nat option" where
  "Iterator_Next sl x = Next sl x 0"

definition Iterator_Prev :: "('k \<Rightarrow> 'k \<Rightarrow> int) \<Rightarrow> 'k skiplist \<Rightarrow> nat \<Rightarrow> nat option option" where
  "Iterator_Prev cmp sl x =
     map_option (\<lambda>y. if y = head then None else Some y) (FindLessThan cmp sl (key_of sl x))"

definition Iterator_Seek :: "('k \<Rightarrow> 'k \<Rightarrow> int) \<Rightarrow> 'k skiplist \<Rightarrow> 'k \<Rightarrow> nat option option" where
  "Iterator_Seek cmp sl target = map_option fst (FindGreaterOrEqual cmp sl target [])"

definition Iterator_SeekToFirst :: "'k skiplist \<Rightarrow> nat option" where
  "Iterator_SeekToFirst sl = Next sl head 0"

definition Iterator_SeekToLast :: "'k skiplist \<Rightarrow> nat option option" where
  "Iterator_SeekToLast sl = map_option (\<lambda>y. if y = head then None else Some y) (FindLast sl)"

section \<open>\<open>Random\<close> computes a Lehmer sequence\<close>

lemma Random_Next_correct:
  assumes "0 < unat seed" "unat seed < 2147483647"
  shows "unat (Random_Next seed) = unat seed * 16807 mod 2147483647"
    and "0 < unat (Random_Next seed)" "unat (Random_Next seed) < 2147483647"
proof -
  let ?P = "ucast seed * 16807 :: u64" and ?M = "2147483647 :: nat"
  define p q r where "p = unat seed * 16807" and "q = p div 2147483648" and "r = p mod 2147483648"
  have P: "unat ?P = p"
    using assms by (simp add: p_def unat_word_ariths unsigned_ucast_eq take_bit_nat_eq_self)
  have q: "q < 16807" and r: "r < 2147483648" and pqr: "p = q * 2147483648 + r"
    using assms by (simp_all add: q_def r_def p_def less_mult_imp_div_less)
  have A: "?P AND ucast (2147483647 :: u32) = take_bit 31 ?P"
    by (simp add: take_bit_eq_mask mask_eq_exp_minus_1)
  have and_M: "unat (?P AND ucast (2147483647 :: u32)) = r"
    unfolding A unsigned_take_bit_eq P r_def by (simp add: take_bit_eq_mod)
  have drop: "unat (drop_bit 31 ?P) = q"
    unfolding unat_drop_bit_eq P q_def by (simp add: drop_bit_eq_div)
  have "unat (drop_bit 31 ?P + (?P AND ucast (2147483647 :: u32))) = q + r"
    using q r by (simp only: unat_word_ariths and_M drop) simp
  then have s: "unat (ucast (drop_bit 31 ?P + (?P AND ucast (2147483647 :: u32))) :: u32) = q + r"
    using q r by (simp only: unsigned_ucast_eq take_bit_eq_mod) simp
  have "\<not> ?M dvd p"
  proof
    assume "?M dvd p"
    moreover have "coprime ?M 16807" by (simp add: coprime_iff_gcd_eq_1 gcd_nat.simps gcd_red_nat)
    ultimately have "?M dvd unat seed" by (simp add: p_def coprime_dvd_mult_left_iff)
    then show False using assms by (auto dest: dvd_imp_le)
  qed
  moreover have "p = q + r + q * ?M" using pqr by simp
  then have mod: "p mod ?M = (q + r) mod ?M" by (simp only: mod_mult_self1)
  ultimately have ne: "q + r \<noteq> ?M" "q + r \<noteq> 0" by (auto simp: dvd_eq_mod_eq_0)
  define w where "w = (ucast (drop_bit 31 ?P + (?P AND ucast (2147483647 :: u32))) :: u32)"
  have rn: "Random_Next seed = (if w > 2147483647 then w - 2147483647 else w)"
    by (simp only: Random_Next_def Let_def w_def)
  have w: "unat w = q + r" using s by (simp only: w_def)
  have gt: "w > 2147483647 \<longleftrightarrow> q + r > ?M"
    unfolding word_less_nat_alt w by simp
  have sub: "w > 2147483647 \<Longrightarrow> unat (w - 2147483647) = q + r - ?M"
    unfolding unat_sub [OF order.strict_implies_order] w by simp
  have next_eq: "unat (Random_Next seed) = (if q + r > ?M then q + r - ?M else q + r)"
  proof (cases "w > 2147483647")
    case True
    then show ?thesis unfolding rn using sub gt by (simp only: if_True)
  next
    case False
    then show ?thesis unfolding rn using w gt by (simp only: if_False)
  qed
  also have "\<dots> = p mod ?M"
    using ne q r unfolding mod by (cases "q + r > ?M") (simp_all add: le_mod_geq)
  finally show "unat (Random_Next seed) = unat seed * 16807 mod ?M" by (simp add: p_def)
  show "0 < unat (Random_Next seed)" "unat (Random_Next seed) < ?M"
    unfolding next_eq using ne q r by auto
qed

end
