(* ===== verification/Ldb_Skiplist_Proofs.thy ===== *)
theory Ldb_Skiplist_Proofs
  imports Ldb_Skiplist
begin

text \<open>
  The skip list of \<open>Ldb_Skiplist\<close> implements a sorted sequence of keys. The invariant says what every link points
  to; from it the searches are computed, insertion is shown to keep it, and the operations are restated on the
  sequence of keys. The laws required of the comparison are the locale \<open>key_order\<close>.
\<close>

section \<open>Well-formed lists\<close>

definition height :: "'k skiplist \<Rightarrow> nat \<Rightarrow> nat" where
  "height sl x = length (nnext (nodes sl ! x))"

text \<open>
  \<open>skip_inv cmp sl ids\<close>: the nodes behind the head are \<open>ids\<close>, in the order of their keys, and on every level each
  node points to the next one that is high enough.
\<close>

definition skip_inv :: "('k \<Rightarrow> 'k \<Rightarrow> int) \<Rightarrow> 'k skiplist \<Rightarrow> nat list \<Rightarrow> bool" where
  "skip_inv cmp sl ids \<longleftrightarrow>
     distinct (head # ids) \<and> (\<forall>x \<in> set (head # ids). x < length (nodes sl)) \<and>
     sorted_wrt (\<lambda>a b. cmp (key_of sl a) (key_of sl b) < 0) ids \<and>
     height sl head = kMaxHeight \<and> 1 \<le> max_height sl \<and> max_height sl \<le> kMaxHeight \<and>
     (\<forall>x \<in> set ids. 1 \<le> height sl x \<and> height sl x \<le> max_height sl) \<and>
     (\<forall>pre x post i. head # ids = pre @ x # post \<longrightarrow> i < height sl x \<longrightarrow> Next sl x i = find (\<lambda>y. i < height sl y) post)"

lemma skip_invD:
  assumes "skip_inv cmp sl ids"
  shows "distinct (head # ids)" "x \<in> set (head # ids) \<Longrightarrow> x < length (nodes sl)"
    "sorted_wrt (\<lambda>a b. cmp (key_of sl a) (key_of sl b) < 0) ids" "height sl head = kMaxHeight" "1 \<le> max_height sl"
    "max_height sl \<le> kMaxHeight" "x \<in> set ids \<Longrightarrow> 1 \<le> height sl x" "x \<in> set ids \<Longrightarrow> height sl x \<le> max_height sl"
    "head # ids = pre @ x # post \<Longrightarrow> i < height sl x \<Longrightarrow> Next sl x i = find (\<lambda>y. i < height sl y) post"
  using assms unfolding skip_inv_def by blast+

lemma skip_inv_new: "skip_inv cmp (new_SkipList k) []"
proof -
  have "Next (new_SkipList k) head i = None" if "i < kMaxHeight" for i
    using that by (simp add: Next_def new_SkipList_def head_def)
  then show ?thesis
    by (auto simp: skip_inv_def height_def new_SkipList_def head_def kMaxHeight_def Cons_eq_append_conv)
qed

lemma find_append: "find P (xs @ ys) = (case find P xs of None \<Rightarrow> find P ys | Some x \<Rightarrow> Some x)"
  by (induction xs) simp_all

lemma find_None: "find P xs = None \<longleftrightarrow> filter P xs = []"
  by (induction xs) simp_all

lemma find_in: "find P xs = Some y \<Longrightarrow> y \<in> set xs \<and> P y"
  by (induction xs) (auto split: if_splits)

lemma find_always: "(\<And>y. y \<in> set ys \<Longrightarrow> P y) \<Longrightarrow> find P ys = (case ys of [] \<Rightarrow> None | y # _ \<Rightarrow> Some y)"
  by (cases ys) simp_all

section \<open>Searches\<close>

text \<open>A cut of the list at a key: the nodes before it and the others.\<close>

definition cut_at :: "('k \<Rightarrow> 'k \<Rightarrow> int) \<Rightarrow> 'k skiplist \<Rightarrow> 'k \<Rightarrow> nat list \<Rightarrow> nat list \<Rightarrow> bool" where
  "cut_at cmp sl key lo hi \<longleftrightarrow> (\<forall>x \<in> set lo. cmp (key_of sl x) key < 0) \<and> (\<forall>x \<in> set hi. \<not> cmp (key_of sl x) key < 0)"

definition pred_at :: "'k skiplist \<Rightarrow> nat list \<Rightarrow> nat \<Rightarrow> nat" where
  "pred_at sl lo i = last (filter (\<lambda>y. i < height sl y) (head # lo))"

text \<open>What a search on level \<open>i\<close> sees from node \<open>x\<close>.\<close>

lemma level_step:
  assumes inv: "skip_inv cmp sl (lo @ hi)" and cut: "cut_at cmp sl key lo hi"
    and x: "head # lo = pre @ x # lo'" and i: "i < height sl x"
  shows "find (\<lambda>y. i < height sl y) lo' = Some y \<Longrightarrow> Next sl x i = Some y \<and> cmp (key_of sl y) key < 0 \<and> i < height sl y"
    and "find (\<lambda>y. i < height sl y) lo' = None \<Longrightarrow>
      Next sl x i = find (\<lambda>y. i < height sl y) hi \<and> \<not> KeyIsAfterNode cmp sl key (Next sl x i) \<and> pred_at sl lo i = x"
    and "find (\<lambda>y. 0 < height sl y) lo' = None \<Longrightarrow> lo' = []"
proof -
  have n: "Next sl x i = find (\<lambda>y. i < height sl y) (lo' @ hi)"
    using skip_invD(9) [OF inv _ i, of pre "lo' @ hi"] x by simp
  have sub: "set lo' \<subseteq> set lo" using x by (cases pre) auto
  show "Next sl x i = Some y \<and> cmp (key_of sl y) key < 0 \<and> i < height sl y"
    if "find (\<lambda>y. i < height sl y) lo' = Some y"
    using that n sub cut find_in [OF that] by (auto simp: find_append cut_at_def)
  show "Next sl x i = find (\<lambda>y. i < height sl y) hi \<and> \<not> KeyIsAfterNode cmp sl key (Next sl x i) \<and> pred_at sl lo i = x"
    if none: "find (\<lambda>y. i < height sl y) lo' = None"
  proof -
    have nx: "Next sl x i = find (\<lambda>y. i < height sl y) hi" using none n by (simp add: find_append)
    moreover have "\<not> KeyIsAfterNode cmp sl key (Next sl x i)"
      unfolding nx using cut by (auto simp: KeyIsAfterNode_def cut_at_def split: option.split dest!: find_in)
    moreover have "pred_at sl lo i = x" using none i by (simp add: pred_at_def x find_None)
    ultimately show ?thesis by simp
  qed
  show "lo' = []" if "find (\<lambda>y. 0 < height sl y) lo' = None"
    using that sub skip_invD(7) [OF inv, of "hd lo'"] by (cases lo') (auto split: if_splits)
qed

lemma find_ge_correct:
  assumes inv: "skip_inv cmp sl (lo @ hi)" and cut: "cut_at cmp sl key lo hi"
  shows "head # lo = pre @ x # lo' \<Longrightarrow> i < height sl x \<Longrightarrow>
    \<exists>prev'. find_ge cmp sl key x i prev = Some (case hi of [] \<Rightarrow> None | y # _ \<Rightarrow> Some y, prev') \<and> length prev' = length prev \<and>
      (\<forall>j < length prev. prev' ! j = (if j \<le> i then pred_at sl lo j else prev ! j))"
proof (induction "length lo' + i" arbitrary: pre x lo' i prev rule: less_induct)
  case less
  note step = level_step [OF inv cut less.prems]
  show ?case
  proof (cases "find (\<lambda>y. i < height sl y) lo'")
    case (Some y)
    then obtain a b where ab: "lo' = a @ y # b"
      using find_in in_set_conv_decomp by metis
    from step(1) [OF Some] have "find_ge cmp sl key x i prev = find_ge cmp sl key y i prev"
      by (subst find_ge.simps) (simp add: KeyIsAfterNode_def)
    moreover have "head # lo = (pre @ x # a) @ y # b" using less.prems(1) ab by simp
    ultimately show ?thesis
      using less.hyps [of b i "pre @ x # a" y prev] step(1) [OF Some] ab by simp
  next
    case None
    note s = step(2) [OF None]
    show ?thesis
    proof (cases i)
      case 0
      with None step(3) have "lo' = []" by simp
      have "find (\<lambda>y. 0 < height sl y) hi = (case hi of [] \<Rightarrow> None | y # _ \<Rightarrow> Some y)"
        using skip_invD(7) [OF inv] by (intro find_always) fastforce
      then show ?thesis using s 0 by (subst find_ge.simps) auto
    next
      case (Suc k)
      have "find_ge cmp sl key x i prev = find_ge cmp sl key x k (prev[i := x])"
        using s [THEN conjunct2] Suc by (subst find_ge.simps) (simp add: Let_def)
      moreover obtain prev' where
        "find_ge cmp sl key x k (prev[i := x]) = Some (case hi of [] \<Rightarrow> None | y # _ \<Rightarrow> Some y, prev')"
        "length prev' = length prev" "\<And>j. j < length prev \<Longrightarrow> prev' ! j = (if j \<le> k then pred_at sl lo j else prev[i := x] ! j)"
        using less.hyps [of lo' k pre x "prev[i := x]"] less.prems Suc by auto
      ultimately show ?thesis using s [THEN conjunct2, THEN conjunct2] Suc
        by (intro exI [of _ prev']) (simp add: nth_list_update le_Suc_eq)
    qed
  qed
qed

lemma find_lt_correct:
  assumes inv: "skip_inv cmp sl (lo @ hi)" and cut: "cut_at cmp sl key lo hi"
  shows "head # lo = pre @ x # lo' \<Longrightarrow> i < height sl x \<Longrightarrow> find_lt cmp sl key x i = Some (last (head # lo))"
proof (induction "length lo' + i" arbitrary: pre x lo' i rule: less_induct)
  case less
  note step = level_step [OF inv cut less.prems]
  show ?case
  proof (cases "find (\<lambda>y. i < height sl y) lo'")
    case (Some y)
    then obtain a b where ab: "lo' = a @ y # b" using find_in in_set_conv_decomp by metis
    from step(1) [OF Some] have "find_lt cmp sl key x i = find_lt cmp sl key y i"
      by (subst find_lt.simps) simp
    moreover have "head # lo = (pre @ x # a) @ y # b" using less.prems(1) ab by simp
    ultimately show ?thesis
      using less.hyps [of b i "pre @ x # a" y] step(1) [OF Some] ab by simp
  next
    case None
    then have stop: "Next sl x i = None \<or> cmp (key_of sl (the (Next sl x i))) key \<ge> 0"
      using step(2) by (auto simp: KeyIsAfterNode_def split: option.splits)
    show ?thesis
    proof (cases i)
      case 0
      with None step(3) have "lo' = []" by simp
      then show ?thesis using stop 0 less.prems(1) by (subst find_lt.simps) (simp add: Let_def)
    next
      case (Suc k)
      then have "find_lt cmp sl key x i = find_lt cmp sl key x k"
        using stop by (subst find_lt.simps) (simp add: Let_def)
      then show ?thesis using less.hyps [of lo' k pre x] less.prems Suc by simp
    qed
  qed
qed

text \<open>\<open>FindLast\<close> makes the walk of a search for a key behind all others.\<close>

lemma find_last_correct:
  assumes inv: "skip_inv cmp sl ids"
  shows "head # ids = pre @ x # lo' \<Longrightarrow> i < height sl x \<Longrightarrow> find_last sl x i = Some (last (head # ids))"
proof (induction "length lo' + i" arbitrary: pre x lo' i rule: less_induct)
  case less
  have n: "Next sl x i = find (\<lambda>y. i < height sl y) lo'" using skip_invD(9) [OF inv less.prems] .
  show ?case
  proof (cases "Next sl x i")
    case (Some y)
    with n find_in [of "\<lambda>y. i < height sl y" lo' y] obtain a b where ab: "lo' = a @ y # b" and y: "i < height sl y"
      by (auto simp: in_set_conv_decomp)
    have "find_last sl x i = find_last sl y i" using Some by (subst find_last.simps) simp
    moreover have "head # ids = (pre @ x # a) @ y # b" using less.prems(1) ab by simp
    ultimately show ?thesis using less.hyps [of b i "pre @ x # a" y] y ab by simp
  next
    case None
    show ?thesis
    proof (cases i)
      case 0
      have "lo' = []"
        using None n 0 skip_invD(7) [OF inv, of "hd lo'"] less.prems(1) by (cases lo'; cases pre) (auto split: if_splits)
      then show ?thesis using None 0 less.prems(1) by (subst find_last.simps) (simp add: Let_def)
    next
      case (Suc k)
      then have "find_last sl x i = find_last sl x k" using None by (subst find_last.simps) (simp add: Let_def)
      then show ?thesis using less.hyps [of lo' k pre x] less.prems Suc by simp
    qed
  qed
qed

section \<open>Insertion\<close>

lemma height_SetNext [simp]: "height (SetNext sl x n y) z = height sl z"
  by (cases "x < length (nodes sl)") (auto simp: height_def SetNext_def nth_list_update list_update_beyond)

lemma key_SetNext [simp]: "key_of (SetNext sl x n y) z = key_of sl z"
  by (cases "x < length (nodes sl)") (auto simp: key_of_def SetNext_def nth_list_update list_update_beyond)

lemma SetNext_simps [simp]:
  "length (nodes (SetNext sl x n y)) = length (nodes sl)" "max_height (SetNext sl x n y) = max_height sl"
  by (simp_all add: SetNext_def)

lemma Next_SetNext:
  "x < length (nodes sl) \<Longrightarrow> n < height sl x \<Longrightarrow> Next (SetNext sl x n y) z m = (if z = x \<and> m = n then y else Next sl z m)"
  by (auto simp: Next_def SetNext_def height_def nth_list_update)

text \<open>The links after the levels below \<open>k\<close> are done.\<close>

lemma link_levels:
  assumes "k \<le> height sl n" "n < length (nodes sl)"
    "\<And>i. i < k \<Longrightarrow> prev ! i < length (nodes sl) \<and> i < height sl (prev ! i) \<and> prev ! i \<noteq> n"
  shows "height (foldl (link_level prev n) sl [0..<k]) z = height sl z \<and>
    key_of (foldl (link_level prev n) sl [0..<k]) z = key_of sl z \<and>
    length (nodes (foldl (link_level prev n) sl [0..<k])) = length (nodes sl) \<and>
    max_height (foldl (link_level prev n) sl [0..<k]) = max_height sl \<and>
    Next (foldl (link_level prev n) sl [0..<k]) z m =
      (if m < k then if z = n then Next sl (prev ! m) m else if z = prev ! m then Some n else Next sl z m else Next sl z m)"
  using assms
proof (induction k arbitrary: z m)
  case 0
  then show ?case by simp
next
  case (Suc k)
  define s where "s = foldl (link_level prev n) sl [0..<k]"
  have IH: "height s z = height sl z" "key_of s z = key_of sl z" "length (nodes s) = length (nodes sl)"
    "max_height s = max_height sl"
    "Next s z m =
      (if m < k then if z = n then Next sl (prev ! m) m else if z = prev ! m then Some n else Next sl z m else Next sl z m)" for z m
    using Suc.IH [of z m] Suc.prems by (auto simp: s_def)
  have k: "prev ! k < length (nodes sl)" "k < height sl (prev ! k)" "prev ! k \<noteq> n" using Suc.prems(3) [of k] by auto
  have fold: "foldl (link_level prev n) sl [0..<Suc k] = link_level prev n s k" by (simp add: s_def)
  have nxt: "Next (link_level prev n s k) z m =
      (if z = prev ! k \<and> m = k then Some n else if z = n \<and> m = k then Next sl (prev ! k) k else Next s z m)"
    using Suc.prems(1,2) k by (simp add: link_level_def Let_def Next_SetNext IH(1,3) IH(5) [of "prev ! k" k])
  show ?case
    unfolding fold nxt using k by (simp add: link_level_def Let_def IH(1-4)) (auto simp: IH(5) less_Suc_eq)
qed

lemma random_height_bounds: "a \<le> kMaxHeight \<Longrightarrow> random_height a seed = (h, s) \<Longrightarrow> a \<le> h \<and> h \<le> kMaxHeight"
proof (induction a seed rule: random_height.induct)
  case (1 a seed)
  show ?case
  proof (cases "a < kMaxHeight \<and> Random_Next seed mod 4 = 0")
    case True
    then have "random_height (a + 1) (Random_Next seed) = (h, s)"
      using 1(3) by (simp add: random_height.simps [of a] Let_def)
    with 1(1) True show ?thesis by (simp add: Let_def)
  next
    case False
    with 1(2,3) show ?thesis by (auto simp: random_height.simps [of a] Let_def split: if_splits)
  qed
qed

lemma fill_heads:
  "length (foldl (\<lambda>p i. p[i := head]) prev [a..<b]) = length prev \<and> (\<forall>j < length prev.
     foldl (\<lambda>p i. p[i := head]) prev [a..<b] ! j = (if a \<le> j \<and> j < b then head else prev ! j))"
proof (induction b)
  case (Suc b)
  let ?f = "foldl (\<lambda>p i. p[i := head]) prev [a..<b]"
  have "?f[b := head] ! j = (if j = b then head else ?f ! j)" if "j < length prev" for j
    using Suc that by (cases "j = b") simp_all
  with Suc show ?case by (auto simp: less_Suc_eq)
qed simp

lemma pred_at_split:
  assumes inv: "skip_inv cmp sl (lo @ hi)" and i: "i < kMaxHeight"
  obtains pre lo' where "head # lo = pre @ pred_at sl lo i # lo'" "find (\<lambda>y. i < height sl y) lo' = None"
    "i < height sl (pred_at sl lo i)"
proof -
  have "\<exists>x \<in> set (head # lo). i < height sl x" using i skip_invD(4) [OF inv] by auto
  from split_list_last_prop [OF this] obtain pre x lo' where
    *: "head # lo = pre @ x # lo'" "i < height sl x" "\<forall>z \<in> set lo'. \<not> i < height sl z" by blast
  then have "pred_at sl lo i = x" by (simp add: pred_at_def filter_empty_conv)
  with * show ?thesis by (intro that) (simp_all add: find_None filter_empty_conv)
qed

text \<open>The heart of \<open>Insert\<close>: a node \<open>n\<close> of height \<open>h\<close>, linked behind its predecessors, lies between \<open>lo\<close> and \<open>hi\<close>.\<close>

lemma insert_links:
  assumes inv: "skip_inv cmp sl (lo @ hi)" and cut: "cut_at cmp sl key lo hi"
    and n: "n \<notin> set (head # lo @ hi)" and h: "1 \<le> h" "h \<le> kMaxHeight"
    and nxt: "\<And>z m. z \<in> set (head # lo @ n # hi) \<Longrightarrow> m < height sl' z \<Longrightarrow> Next sl' z m =
      (if z = n then Next sl (pred_at sl lo m) m else if m < h \<and> z = pred_at sl lo m then Some n else Next sl z m)"
    and hts: "\<And>z. z \<in> set (head # lo @ n # hi) \<Longrightarrow> height sl' z = (if z = n then h else height sl z)"
    and split: "head # lo @ n # hi = pre @ x # post" and i: "i < height sl' x"
  shows "Next sl' x i = find (\<lambda>y. i < height sl' y) post"
proof -
  note dist = skip_invD(1) [OF inv]
  have x_in: "x \<in> set (head # lo @ n # hi)" unfolding split by simp
  note hx = hts [OF x_in] and nx' = nxt [OF x_in i]
  have same: "find (\<lambda>y. i < height sl' y) xs = find (\<lambda>y. i < height sl y) xs"
    if "n \<notin> set xs" "set xs \<subseteq> set (lo @ hi)" for xs
    using that by (induction xs) (auto simp: hts)
  consider (before) lo' where "head # lo = pre @ x # lo'" "post = lo' @ n # hi" | (new) "x = n" "post = hi"
    | (after) h1 where "hi = h1 @ x # post"
  proof -
    from split have "(head # lo) @ n # hi = pre @ x # post" by simp
    then consider us where "head # lo = pre @ us" "us @ n # hi = x # post" | us where "n # hi = us @ x # post"
      using append_eq_append_conv2 [of "head # lo" "n # hi" pre "x # post"] by blast
    then show thesis
    proof cases
      case (1 us)
      then show thesis using before new by (cases us) auto
    next
      case (2 us)
      then show thesis using new after by (cases us) auto
    qed
  qed
  then show ?thesis
  proof cases
    case before
    have "distinct (pre @ x # lo')" "n \<notin> set (pre @ x # lo')"
      unfolding before(1) [symmetric] using dist n by auto
    then have x: "x \<noteq> n" "i < height sl x" "n \<notin> set lo'" "x \<notin> set lo'"
      using i by (auto simp: hx)
    have sub: "set lo' \<subseteq> set (lo @ hi)" using before(1) by (cases pre) auto
    have nx: "Next sl x i = find (\<lambda>y. i < height sl y) (lo' @ hi)"
      using skip_invD(9) [OF inv, of pre x "lo' @ hi" i] before(1) x(2) by simp
    have f: "find (\<lambda>y. i < height sl' y) post = (case find (\<lambda>y. i < height sl y) lo' of None \<Rightarrow>
        if i < h then Some n else find (\<lambda>y. i < height sl y) hi | Some y \<Rightarrow> Some y)"
      using n x(3) sub by (simp add: before(2) find_append same hts split: option.split)
    show ?thesis
    proof (cases "find (\<lambda>y. i < height sl y) lo'")
      case None
      then have "pred_at sl lo i = x" using level_step(2) [OF inv cut before(1) x(2)] by simp
      then show ?thesis using f nx None x(1) by (simp add: nx' find_append)
    next
      case (Some y)
      then have "filter (\<lambda>y. i < height sl y) lo' \<noteq> []" by (simp flip: find_None)
      then have "pred_at sl lo i \<in> set lo'"
        using last_in_set [of "filter (\<lambda>y. i < height sl y) lo'"] by (auto simp: pred_at_def before(1))
      then show ?thesis using f nx Some x(1,4) by (auto simp: nx' find_append)
    qed
  next
    case new
    then have ih: "i < h" using i hx by simp
    have "i < kMaxHeight" using ih h(2) by simp
    from pred_at_split [OF inv this] obtain p1 l1 where
      "head # lo = p1 @ pred_at sl lo i # l1" "find (\<lambda>y. i < height sl y) l1 = None" "i < height sl (pred_at sl lo i)" .
    then have "Next sl (pred_at sl lo i) i = find (\<lambda>y. i < height sl y) hi"
      using level_step(2) [OF inv cut] by blast
    then show ?thesis using new ih n same [of hi] nx' by simp
  next
    case after
    have x: "x \<noteq> n" "n \<notin> set post" using n after by auto
    have "pred_at sl lo i \<noteq> x" if "i < h"
    proof -
      have "i < kMaxHeight" using that h(2) by simp
      from pred_at_split [OF inv this] obtain p1 l1 where "head # lo = p1 @ pred_at sl lo i # l1" .
      then have "pred_at sl lo i \<in> set (head # lo)" by simp
      then show ?thesis using dist after by auto
    qed
    moreover have "Next sl x i = find (\<lambda>y. i < height sl y) post"
      using skip_invD(9) [OF inv, of "head # lo @ h1" x post i] after x i by (simp add: hx)
    moreover have "set post \<subseteq> set (lo @ hi)" using after by auto
    then have "find (\<lambda>y. i < height sl' y) post = find (\<lambda>y. i < height sl y) post" using x(2) same by blast
    ultimately show ?thesis using x(1) by (auto simp: nx')
  qed
qed

lemma height_alloc:
  assumes "NewNode sl key h = (n, sl1)"
  shows "n = length (nodes sl)" "length (nodes sl1) = Suc n" "max_height sl1 = max_height sl"
    "height sl1 n = h" "key_of sl1 n = key" "z \<noteq> n \<Longrightarrow> z < n \<Longrightarrow> height sl1 z = height sl z"
    "z < n \<Longrightarrow> key_of sl1 z = key_of sl z" "z < n \<Longrightarrow> Next sl1 z m = Next sl z m"
  using assms by (auto simp: NewNode_def height_def key_of_def Next_def nth_append)

text \<open>The body of \<open>Insert\<close> after the search, for a height \<open>h\<close>.\<close>

lemma insert_correct:
  assumes inv: "skip_inv cmp sl (lo @ hi)" and cut: "cut_at cmp sl key lo hi" and h: "1 \<le> h" "h \<le> kMaxHeight"
    and above: "\<forall>x \<in> set hi. cmp key (key_of sl x) < 0"
    and prev: "\<And>i. i < h \<Longrightarrow> prev ! i = pred_at sl lo i"
    and node: "NewNode (sl\<lparr>rnd := s, max_height := max (max_height sl) h\<rparr>) key h = (n, sl1)"
    and sl': "sl' = foldl (link_level prev n) sl1 [0..<h]"
  shows "skip_inv cmp sl' (lo @ n # hi) \<and> key_of sl' n = key \<and> (\<forall>x \<in> set (lo @ hi). key_of sl' x = key_of sl x)"
proof -
  let ?sl = "sl\<lparr>rnd := s, max_height := max (max_height sl) h\<rparr>"
  note alloc = height_alloc [OF node]
  have ext: "height ?sl = height sl" "key_of ?sl = key_of sl" "Next ?sl = Next sl"
    by (auto simp: fun_eq_iff height_def key_of_def Next_def)
  have n: "n = length (nodes sl)" "length (nodes sl1) = Suc n" using alloc(1,2) by simp_all
  have old: "x < n" if "x \<in> set (head # lo @ hi)" for x using skip_invD(2) [OF inv that] n(1) by simp
  have p: "prev ! i < n \<and> i < height sl1 (prev ! i) \<and> prev ! i \<noteq> n" if i: "i < h" for i
  proof -
    have "i < kMaxHeight" using i h(2) by simp
    from pred_at_split [OF inv this] obtain p1 l1 where
      "head # lo = p1 @ pred_at sl lo i # l1" "i < height sl (pred_at sl lo i)" .
    moreover from this(1) have "pred_at sl lo i \<in> set (head # lo @ hi)"
      by (metis append_Cons in_set_conv_decomp set_append UnI1)
    ultimately show ?thesis using old [of "pred_at sl lo i"] alloc(6) prev [OF i] ext by auto
  qed
  have links: "height sl' z = height sl1 z" "key_of sl' z = key_of sl1 z" "length (nodes sl') = length (nodes sl1)"
    "max_height sl' = max_height sl1"
    "Next sl' z m = (if m < h then if z = n then Next sl1 (prev ! m) m else if z = prev ! m then Some n else Next sl1 z m
       else Next sl1 z m)" for z m
    using link_levels [of h sl1 n prev z m] alloc(4) n p unfolding sl' by fastforce+
  have keys: "key_of sl' n = key" "\<forall>x \<in> set (lo @ hi). key_of sl' x = key_of sl x"
    using old alloc(5,7) ext by (auto simp: links)
  have hts: "height sl' z = (if z = n then h else height sl z)" if "z \<in> set (head # lo @ n # hi)" for z
    using that old [of z] alloc(4,6) ext by (auto simp: links)
  have nxt: "Next sl' z m = (if z = n then Next sl (pred_at sl lo m) m else if m < h \<and> z = pred_at sl lo m then Some n
      else Next sl z m)" if "z \<in> set (head # lo @ n # hi)" "m < height sl' z" for z m
  proof (cases "z = n")
    case True
    then have "m < h" using that hts by simp
    then show ?thesis using True p [of m] prev alloc(8) ext by (simp add: links)
  next
    case False
    then have "z < n" using that(1) old by auto
    then show ?thesis using False prev alloc(8) ext by (auto simp: links)
  qed
  have new: "n \<notin> set (head # lo @ hi)" using old by blast
  have sorted: "sorted_wrt (\<lambda>a b. cmp (key_of sl' a) (key_of sl' b) < 0) (lo @ n # hi)"
  proof -
    have "sorted_wrt (\<lambda>a b. cmp (key_of sl' a) (key_of sl' b) < 0) (lo @ hi)"
      using skip_invD(3) [OF inv] by (rule sorted_wrt_mono_rel [rotated]) (use keys(2) in auto)
    then show ?thesis using keys cut above by (auto simp: sorted_wrt_append cut_at_def)
  qed
  have "skip_inv cmp sl' (lo @ n # hi)"
    unfolding skip_inv_def
  proof (intro conjI allI impI)
    show "distinct (head # lo @ n # hi)" using skip_invD(1) [OF inv] new by auto
    show "\<forall>x \<in> set (head # lo @ n # hi). x < length (nodes sl')" using old n(2) by (auto simp: links less_SucI)
    show "height sl' head = kMaxHeight" using hts [of head] skip_invD(4) [OF inv] new by auto
    show "1 \<le> max_height sl'" "max_height sl' \<le> kMaxHeight"
      using skip_invD(5,6) [OF inv] h alloc(3) by (simp_all add: links)
    show "\<forall>x \<in> set (lo @ n # hi). 1 \<le> height sl' x \<and> height sl' x \<le> max_height sl'"
      using skip_invD(7,8) [OF inv] h alloc(3) by (auto simp: hts links(4) le_max_iff_disj)
    show "Next sl' x i = find (\<lambda>y. i < height sl' y) post"
      if "head # lo @ n # hi = pre @ x # post" "i < height sl' x" for pre x post i
      by (rule insert_links [OF inv cut new h nxt hts that])
  qed (rule sorted)
  with keys show ?thesis by blast
qed

section \<open>The list as a sorted sequence of keys\<close>

text \<open>What the list needs of its comparison.\<close>

locale key_order =
  fixes valid :: "'k \<Rightarrow> bool" and cmp :: "'k \<Rightarrow> 'k \<Rightarrow> int"
  assumes less_trans: "valid a \<Longrightarrow> valid b \<Longrightarrow> valid c \<Longrightarrow> cmp a b < 0 \<Longrightarrow> cmp b c < 0 \<Longrightarrow> cmp a c < 0"
    and less_equal: "valid a \<Longrightarrow> valid b \<Longrightarrow> valid c \<Longrightarrow> cmp a b < 0 \<Longrightarrow> cmp c b = 0 \<Longrightarrow> cmp a c < 0"
    and less_flip: "valid a \<Longrightarrow> valid b \<Longrightarrow> cmp a b < 0 \<longleftrightarrow> 0 < cmp b a"

text \<open>\<open>holds_keys cmp sl ks\<close>: the keys of the list, in order.\<close>

definition holds_keys :: "('k \<Rightarrow> 'k \<Rightarrow> int) \<Rightarrow> 'k skiplist \<Rightarrow> 'k list \<Rightarrow> bool" where
  "holds_keys cmp sl ks \<longleftrightarrow> (\<exists>ids. skip_inv cmp sl ids \<and> map (key_of sl) ids = ks)"

definition insert_sorted :: "('k \<Rightarrow> 'k \<Rightarrow> int) \<Rightarrow> 'k \<Rightarrow> 'k list \<Rightarrow> 'k list" where
  "insert_sorted cmp key ks = takeWhile (\<lambda>k. cmp k key < 0) ks @ key # dropWhile (\<lambda>k. cmp k key < 0) ks"

lemma set_insert_sorted [simp]: "set (insert_sorted cmp key ks) = insert key (set ks)"
  unfolding insert_sorted_def by (metis Un_insert_right list.simps(15) set_append takeWhile_dropWhile_id)

lemma holds_keys_new: "holds_keys cmp (new_SkipList k) []"
  using skip_inv_new by (fastforce simp: holds_keys_def)

lemma holds_keys_sorted: "holds_keys cmp sl ks \<Longrightarrow> sorted_wrt (\<lambda>a b. cmp a b < 0) ks"
  by (auto simp: holds_keys_def sorted_wrt_map dest: skip_invD(3))

lemma last_in_bounds:
  assumes "skip_inv cmp sl ids" "x \<in> set (head # ids)" shows "0 < height sl x"
  using assms skip_invD(4,7) [OF assms(1)] by (fastforce simp: kMaxHeight_def)

context key_order
begin

lemma cut_exists:
  assumes inv: "skip_inv cmp sl ids" and v: "\<forall>x \<in> set ids. valid (key_of sl x)" "valid key"
  defines "lo \<equiv> takeWhile (\<lambda>x. cmp (key_of sl x) key < 0) ids" and "hi \<equiv> dropWhile (\<lambda>x. cmp (key_of sl x) key < 0) ids"
  shows "ids = lo @ hi" "cut_at cmp sl key lo hi"
proof -
  show ids: "ids = lo @ hi" by (simp add: lo_def hi_def)
  have "\<not> cmp (key_of sl y) key < 0" if y: "y \<in> set hi" for y
  proof (cases hi)
    case (Cons z zs)
    have z: "\<not> cmp (key_of sl z) key < 0"
      by (metis (no_types, lifting) Cons hd_dropWhile hi_def list.distinct(1) list.sel(1))
    show ?thesis
    proof (cases "y = z")
      case False
      then have "y \<in> set zs" using y Cons by simp
      then have "cmp (key_of sl z) (key_of sl y) < 0"
        using skip_invD(3) [OF inv] by (simp add: ids Cons sorted_wrt_append)
      then show ?thesis using less_trans [of "key_of sl z" "key_of sl y" key] z v ids Cons \<open>y \<in> set zs\<close> by auto
    qed (use z in simp)
  qed (use y in simp)
  then show "cut_at cmp sl key lo hi" by (auto simp: cut_at_def lo_def dest: set_takeWhileD)
qed

lemma FindGreaterOrEqual_correct:
  assumes inv: "skip_inv cmp sl ids" and v: "\<forall>x \<in> set ids. valid (key_of sl x)" "valid key"
  defines "lo \<equiv> takeWhile (\<lambda>x. cmp (key_of sl x) key < 0) ids" and "hi \<equiv> dropWhile (\<lambda>x. cmp (key_of sl x) key < 0) ids"
  obtains prev' where
    "FindGreaterOrEqual cmp sl key prev = Some (case hi of [] \<Rightarrow> None | y # _ \<Rightarrow> Some y, prev')" "length prev' = length prev"
    "\<And>j. j < length prev \<Longrightarrow> prev' ! j = (if j \<le> max_height sl - 1 then pred_at sl lo j else prev ! j)"
proof -
  note cut = cut_exists [OF inv v, folded lo_def hi_def]
  have "max_height sl - 1 < height sl head"
    using skip_invD(4,5,6) [OF inv] by simp
  from find_ge_correct [OF inv [unfolded cut(1)] cut(2), of "[]" head lo "max_height sl - 1" prev] this
  show ?thesis by (auto simp: FindGreaterOrEqual_def intro: that)
qed

lemma Insert_correct:
  assumes h: "holds_keys cmp sl ks" and v: "\<forall>k \<in> set ks. valid k" "valid key"
    and fresh: "\<forall>k \<in> set ks. cmp k key \<noteq> 0"
  obtains sl' where "Insert cmp sl key = Some sl'" "holds_keys cmp sl' (insert_sorted cmp key ks)"
proof -
  obtain ids where inv: "skip_inv cmp sl ids" and ks: "ks = map (key_of sl) ids"
    using h by (auto simp: holds_keys_def)
  have vi: "\<forall>x \<in> set ids. valid (key_of sl x)" using v(1) ks by simp
  define lo hi where "lo = takeWhile (\<lambda>x. cmp (key_of sl x) key < 0) ids" and "hi = dropWhile (\<lambda>x. cmp (key_of sl x) key < 0) ids"
  note cut = cut_exists [OF inv vi v(2), folded lo_def hi_def]
  obtain prev where prev: "FindGreaterOrEqual cmp sl key (replicate kMaxHeight 0) = Some (case hi of [] \<Rightarrow> None | y # _ \<Rightarrow> Some y, prev)"
    "length prev = kMaxHeight" "\<And>j. j < kMaxHeight \<Longrightarrow> prev ! j = (if j \<le> max_height sl - 1 then pred_at sl lo j else replicate kMaxHeight 0 ! j)"
    using FindGreaterOrEqual_correct [OF inv vi v(2), of "replicate kMaxHeight 0", folded lo_def hi_def] by auto
  obtain h s where rh: "random_height 1 (rnd sl) = (h, s)" by fastforce
  have hb: "1 \<le> h" "h \<le> kMaxHeight" using random_height_bounds [OF _ rh] by (auto simp: kMaxHeight_def)
  define prev2 where "prev2 = (if h > max_height sl then foldl (\<lambda>p i. p[i := head]) prev [max_height sl..<h] else prev)"
  have p2: "prev2 ! i = pred_at sl lo i" if i: "i < h" for i
  proof (cases "i < max_height sl")
    case True
    then show ?thesis using i hb prev(2,3) fill_heads [of prev "max_height sl" h] by (auto simp: prev2_def)
  next
    case False
    have "filter (\<lambda>y. i < height sl y) lo = []"
      using skip_invD(8) [OF inv] False cut(1) by (fastforce simp: filter_empty_conv)
    then have "pred_at sl lo i = head" using skip_invD(4) [OF inv] i hb by (simp add: pred_at_def)
    moreover have "i < length prev" using i hb prev(2) by simp
    ultimately show ?thesis using i False fill_heads [of prev "max_height sl" h] by (auto simp: prev2_def)
  qed
  obtain n sl1 where node: "NewNode (sl\<lparr>rnd := s, max_height := max (max_height sl) h\<rparr>) key h = (n, sl1)" by fastforce
  define sl' where "sl' = foldl (link_level prev2 n) sl1 [0..<h]"
  have ins: "Insert cmp sl key = Some sl'"
  proof (cases "h > max_height sl")
    case True
    then show ?thesis using node
      by (simp add: Insert_def prev(1) RandomHeight_def rh [unfolded One_nat_def] Let_def prev2_def sl'_def max_def)
  next
    case False
    have "sl\<lparr>rnd := s, max_height := max (max_height sl) h\<rparr> = sl\<lparr>rnd := s\<rparr>" using False by (simp add: max_def)
    then show ?thesis using node False
      by (simp add: Insert_def prev(1) RandomHeight_def rh [unfolded One_nat_def] Let_def prev2_def sl'_def)
  qed
  have "\<forall>x \<in> set hi. cmp key (key_of sl x) < 0"
  proof
    fix x assume x: "x \<in> set hi"
    then have "\<not> cmp (key_of sl x) key < 0" "cmp (key_of sl x) key \<noteq> 0"
      using cut fresh by (auto simp: cut_at_def ks)
    then show "cmp key (key_of sl x) < 0" using less_flip [of key "key_of sl x"] vi v(2) x cut(1) by auto
  qed
  from insert_correct [OF inv [unfolded cut(1)] cut(2) hb this p2 node sl'_def]
  have r: "skip_inv cmp sl' (lo @ n # hi)" "key_of sl' n = key" "\<forall>x \<in> set (lo @ hi). key_of sl' x = key_of sl x" by auto
  have "map (key_of sl') (lo @ n # hi) = insert_sorted cmp key ks"
    unfolding insert_sorted_def ks takeWhile_map dropWhile_map comp_def lo_def [symmetric] hi_def [symmetric]
    using r(2,3) by simp
  with r(1) have "holds_keys cmp sl' (insert_sorted cmp key ks)" unfolding holds_keys_def by blast
  with ins show ?thesis by (rule that)
qed

lemma Seek_correct:
  assumes h: "holds_keys cmp sl ks" and v: "\<forall>k \<in> set ks. valid k" "valid key"
  shows "map_option (map_option (key_of sl)) (Iterator_Seek cmp sl key) =
    Some (case dropWhile (\<lambda>k. cmp k key < 0) ks of [] \<Rightarrow> None | k # _ \<Rightarrow> Some k)"
proof -
  obtain ids where inv: "skip_inv cmp sl ids" and ks: "ks = map (key_of sl) ids"
    using h by (auto simp: holds_keys_def)
  have vi: "\<forall>x \<in> set ids. valid (key_of sl x)" using v(1) ks by simp
  obtain prev' where "FindGreaterOrEqual cmp sl key [] =
      Some (case dropWhile (\<lambda>x. cmp (key_of sl x) key < 0) ids of [] \<Rightarrow> None | y # _ \<Rightarrow> Some y, prev')"
    using FindGreaterOrEqual_correct [OF inv vi v(2), of "[]"] by metis
  then show ?thesis
    by (cases "dropWhile (\<lambda>x. cmp (key_of sl x) key < 0) ids") (simp_all add: Iterator_Seek_def ks dropWhile_map comp_def del: dropWhile_eq_Nil_conv)
qed

lemma Contains_correct:
  assumes h: "holds_keys cmp sl ks" and v: "\<forall>k \<in> set ks. valid k" "valid key"
  shows "Contains cmp sl key = Some (\<exists>k \<in> set ks. cmp key k = 0)"
proof -
  let ?P = "\<lambda>k. cmp k key < 0"
  have "Contains cmp sl key = map_option (\<lambda>x. case x of None \<Rightarrow> False | Some k \<Rightarrow> cmp key k = 0)
      (map_option (map_option (key_of sl)) (Iterator_Seek cmp sl key))"
    by (auto simp: Contains_def Iterator_Seek_def option.map_comp comp_def split: option.splits intro!: option.map_cong0)
  also have "\<dots> = Some (case dropWhile ?P ks of [] \<Rightarrow> False | k # _ \<Rightarrow> cmp key k = 0)"
    unfolding Seek_correct [OF assms] by (cases "dropWhile ?P ks") (simp_all del: dropWhile_eq_Nil_conv)
  also have "(case dropWhile ?P ks of [] \<Rightarrow> False | k # _ \<Rightarrow> cmp key k = 0) \<longleftrightarrow> (\<exists>k \<in> set ks. cmp key k = 0)"
  proof (cases "dropWhile ?P ks")
    case Nil
    then have "cmp k key < 0" if "k \<in> set ks" for k using that by simp
    then have "cmp key k \<noteq> 0" if "k \<in> set ks" for k using that less_flip [of k key] v by force
    then show ?thesis unfolding Nil by auto
  next
    case (Cons y zs)
    have ks: "ks = takeWhile ?P ks @ y # zs" using takeWhile_dropWhile_id [of ?P ks] Cons by simp
    have y: "\<not> ?P y" by (metis Cons hd_dropWhile list.distinct(1) list.sel(1))
    have "cmp key y = 0" if k: "k \<in> set ks" "cmp key k = 0" for k
    proof -
      have "\<not> ?P k" using k less_flip [of k key] v by auto
      then have "k \<in> set (y # zs)" using k(1) ks by (metis UnE set_append set_takeWhileD)
      moreover have "k \<notin> set zs"
      proof
        assume "k \<in> set zs"
        then have "cmp y k < 0" using holds_keys_sorted [OF h] ks by (metis sorted_wrt.simps(2) sorted_wrt_append)
        moreover have "valid y" using v(1) ks by (metis in_set_conv_decomp)
        ultimately show False using less_equal [of y k key] k v y by blast
      qed
      ultimately show ?thesis using k by auto
    qed
    moreover have "y \<in> set ks" using ks by (metis in_set_conv_decomp)
    ultimately show ?thesis using Cons by auto
  qed
  finally show ?thesis .
qed

end

section \<open>Walking the list\<close>

lemma Iterator_Next_correct:
  assumes inv: "skip_inv cmp sl ids" and i: "i < length ids"
  shows "Iterator_Next sl (ids ! i) = (if Suc i < length ids then Some (ids ! Suc i) else None)"
proof -
  have "head # ids = (head # take i ids) @ ids ! i # drop (Suc i) ids" using id_take_nth_drop [OF i] by simp
  from skip_invD(9) [OF inv this, of 0] skip_invD(7) [OF inv nth_mem [OF i]]
  have "Iterator_Next sl (ids ! i) = find (\<lambda>y. 0 < height sl y) (drop (Suc i) ids)" by (simp add: Iterator_Next_def)
  also have "\<dots> = (case drop (Suc i) ids of [] \<Rightarrow> None | y # _ \<Rightarrow> Some y)"
    using skip_invD(7) [OF inv] by (intro find_always) (fastforce dest: in_set_dropD)
  also have "\<dots> = (if Suc i < length ids then Some (ids ! Suc i) else None)"
    by (simp add: Cons_nth_drop_Suc [symmetric])
  finally show ?thesis .
qed

lemma SeekToFirst_correct:
  assumes inv: "skip_inv cmp sl ids"
  shows "Iterator_SeekToFirst sl = (case ids of [] \<Rightarrow> None | y # _ \<Rightarrow> Some y)"
  using skip_invD(9) [OF inv, of "[]" head ids 0] skip_invD(4,7) [OF inv] find_always [of ids "\<lambda>y. 0 < height sl y"]
  by (fastforce simp: Iterator_SeekToFirst_def kMaxHeight_def)

lemma SeekToLast_correct:
  assumes inv: "skip_inv cmp sl ids"
  shows "Iterator_SeekToLast sl = Some (if ids = [] then None else Some (last ids))"
proof -
  have "FindLast sl = Some (last (head # ids))"
    using find_last_correct [OF inv, of "[]" head ids "max_height sl - 1"] skip_invD(4,5,6) [OF inv]
    by (simp add: FindLast_def)
  moreover have "ids \<noteq> [] \<Longrightarrow> last ids \<noteq> head" using skip_invD(1) [OF inv] last_in_set [of ids] by fastforce
  ultimately show ?thesis by (auto simp: Iterator_SeekToLast_def)
qed

end
