(* ===== verification/Ldb_Memtable.thy ===== *)
theory Ldb_Memtable
  imports Ldb_Write_Batch Ldb_Skiplist_Proofs
begin

unbundle bit_operations_syntax

text \<open>
  \<open>leveldb/db/memtable.cc\<close>: the table of recent updates, a skip list of encoded entries, and the part of
  \<open>db/write_batch.cc\<close> that replays a batch into it. Shown here: a lookup at a snapshot finds the newest entry the
  snapshot may see, and a batch that was replayed is read back as the sequence of its operations says.
\<close>

section \<open>Entries\<close>

text \<open>
  A pointer to an entry is the list of the bytes from there on. The length prefix has at most five bytes. Behind the
  slice comes the rest. On bytes that start with no varint the pointer would be null; no entry is like that.
\<close>

definition prefixed :: "byte list \<Rightarrow> slice \<times> byte list" where
  "prefixed data =
     (case GetVarint32Ptr (take 5 data) of
        None \<Rightarrow> ([], [])
      | Some (len, q) \<Rightarrow>
          let p = drop (length (take 5 data) - length q) data in (take (unat len) p, drop (unat len) p))"

text \<open>\<open>KeyComparator\<close>; \<open>cmp\<close> is the comparison of user keys.\<close>

definition KeyComparator :: "(slice \<Rightarrow> slice \<Rightarrow> int) \<Rightarrow> byte list \<Rightarrow> byte list \<Rightarrow> int" where
  "KeyComparator cmp aptr bptr = InternalKeyComparator_Compare cmp (fst (prefixed aptr)) (fst (prefixed bptr))"

definition EncodeKey :: "slice \<Rightarrow> byte list" where
  "EncodeKey target = PutVarint32 [] (word_of_nat (length target)) @ target"

record MemTable =
  refs :: int
  table :: "byte list skiplist"

definition new_MemTable :: MemTable where
  "new_MemTable = \<lparr>refs = 0, table = new_SkipList []\<rparr>"

definition MemTable_Ref :: "MemTable \<Rightarrow> MemTable" where
  "MemTable_Ref m = m\<lparr>refs := refs m + 1\<rparr>"

text \<open>The bytes \<open>Add\<close> writes, and the number of bytes it allocates for them.\<close>

definition encoded_len :: "slice \<Rightarrow> slice \<Rightarrow> nat" where
  "encoded_len key val =
     (let internal_key_size = length key + 8; val_size = length val in
      VarintLength (word_of_nat internal_key_size) + internal_key_size + VarintLength (word_of_nat val_size) + val_size)"

definition entry_bytes :: "u64 \<Rightarrow> ValueType \<Rightarrow> slice \<Rightarrow> slice \<Rightarrow> byte list" where
  "entry_bytes s type key val =
     EncodeVarint32 (word_of_nat (length key + 8)) @ key @
     EncodeFixed64 (push_bit 8 s OR word_of_nat (value_type_number type)) @
     EncodeVarint32 (word_of_nat (length val)) @ val"

definition MemTable_Add :: "(slice \<Rightarrow> slice \<Rightarrow> int) \<Rightarrow> MemTable \<Rightarrow> u64 \<Rightarrow> ValueType \<Rightarrow> slice \<Rightarrow> slice \<Rightarrow> MemTable option" where
  "MemTable_Add cmp m s type key val =
     map_option (\<lambda>t. m\<lparr>table := t\<rparr>) (Insert (KeyComparator cmp) (table m) (entry_bytes s type key val))"

text \<open>\<open>Get\<close> returns its result, \<open>*value\<close> and \<open>*s\<close>.\<close>

definition MemTable_Get ::
  "(slice \<Rightarrow> slice \<Rightarrow> int) \<Rightarrow> MemTable \<Rightarrow> LookupKey \<Rightarrow> byte list \<Rightarrow> status \<Rightarrow> (bool \<times> byte list \<times> status) option" where
  "MemTable_Get cmp m key val s =
     (case Iterator_Seek (KeyComparator cmp) (table m) (memtable_key key) of
        None \<Rightarrow> None
      | Some None \<Rightarrow> Some (False, val, s)
      | Some (Some x) \<Rightarrow>
          let (ikey, rest) = prefixed (key_of (table m) x) in
          if cmp (take (length ikey - 8) ikey) (lookup_user_key key) = 0 then
            let tag = DecodeFixed64 (drop (length ikey - 8) ikey) AND 0xff in
            if tag = word_of_nat (value_type_number kTypeValue) then Some (True, fst (prefixed rest), s)
            else if tag = word_of_nat (value_type_number kTypeDeletion) then Some (True, val, NotFound [] [])
            else Some (False, val, s)
          else Some (False, val, s))"

text \<open>\<open>MemTableIterator\<close>: the position is that of the iterator of the list.\<close>

definition MemTableIterator_Seek :: "(slice \<Rightarrow> slice \<Rightarrow> int) \<Rightarrow> MemTable \<Rightarrow> slice \<Rightarrow> nat option option" where
  "MemTableIterator_Seek cmp m k = Iterator_Seek (KeyComparator cmp) (table m) (EncodeKey k)"

definition MemTableIterator_key :: "MemTable \<Rightarrow> nat \<Rightarrow> slice" where
  "MemTableIterator_key m x = fst (prefixed (key_of (table m) x))"

definition MemTableIterator_value :: "MemTable \<Rightarrow> nat \<Rightarrow> slice" where
  "MemTableIterator_value m x = fst (prefixed (snd (prefixed (key_of (table m) x))))"

section \<open>\<open>WriteBatchInternal::InsertInto\<close>\<close>

text \<open>The state of \<open>MemTableInserter\<close>: its sequence number and the table, \<open>None\<close> if an insertion did not return.\<close>

type_synonym inserter = "u64 \<times> MemTable option"

definition inserter_Put :: "(slice \<Rightarrow> slice \<Rightarrow> int) \<Rightarrow> slice \<Rightarrow> slice \<Rightarrow> inserter \<Rightarrow> inserter" where
  "inserter_Put cmp key val h =
     (case h of (seq, m) \<Rightarrow> (seq + 1, Option.bind m (\<lambda>m. MemTable_Add cmp m seq kTypeValue key val)))"

definition inserter_Delete :: "(slice \<Rightarrow> slice \<Rightarrow> int) \<Rightarrow> slice \<Rightarrow> inserter \<Rightarrow> inserter" where
  "inserter_Delete cmp key h =
     (case h of (seq, m) \<Rightarrow> (seq + 1, Option.bind m (\<lambda>m. MemTable_Add cmp m seq kTypeDeletion key [])))"

definition InsertInto :: "(slice \<Rightarrow> slice \<Rightarrow> int) \<Rightarrow> WriteBatch \<Rightarrow> MemTable \<Rightarrow> status \<times> MemTable option" where
  "InsertInto cmp b m =
     (case Iterate (inserter_Put cmp) (inserter_Delete cmp) b (Sequence b, Some m) of (s, _, m') \<Rightarrow> (s, m'))"

section \<open>The encoding of entries\<close>

record mentry =
  mkey :: slice
  mseq :: u64
  mtype :: ValueType
  mval :: slice

definition entry_ok :: "mentry \<Rightarrow> bool" where
  "entry_ok e \<longleftrightarrow> length (mkey e) + 8 < 2 ^ 32 \<and> length (mval e) < 2 ^ 32 \<and> unat (mseq e) < 2 ^ 56"

definition ikey_of :: "mentry \<Rightarrow> slice" where
  "ikey_of e = mkey e @ EncodeFixed64 (PackSequenceAndType (mseq e) (mtype e))"

definition bytes_of :: "mentry \<Rightarrow> byte list" where
  "bytes_of e = entry_bytes (mseq e) (mtype e) (mkey e) (mval e)"

lemma length_EncodeVarint32: "length (EncodeVarint32 v) \<le> 5"
  by (simp add: EncodeVarint32_def)

lemma prefixed_lps: "length k < 2 ^ 32 \<Longrightarrow> prefixed (lps k @ rest) = (k, rest)"
proof -
  assume k: "length k < 2 ^ 32"
  define v y where "v = EncodeVarint32 (word_of_nat (length k))" and "y = k @ rest"
  have x: "lps k @ rest = v @ y" by (simp add: lps_def PutLengthPrefixedSlice_def PutVarint32_def v_def y_def)
  have t5: "take 5 (v @ y) = v @ take (5 - length v) y" using length_EncodeVarint32 by (simp add: v_def)
  have "GetVarint32Ptr (v @ take (5 - length v) y) = Some (word_of_nat (length k), take (5 - length v) y)"
    using varint32_codec.get_put [of "word_of_nat (length k)"] by (simp add: GetVarint32_def v_def)
  then have "prefixed (v @ y) = (take (unat (word_of_nat (length k) :: u32)) y, drop (unat (word_of_nat (length k) :: u32)) y)"
    unfolding prefixed_def t5 by simp
  then show ?thesis unfolding x using k by (simp add: unat_of_nat y_def)
qed

lemma bytes_of_lps: "bytes_of e = lps (ikey_of e) @ lps (mval e)"
  by (simp add: bytes_of_def entry_bytes_def ikey_of_def lps_def PutLengthPrefixedSlice_def PutVarint32_def
      PackSequenceAndType_def)

lemma prefixed_bytes: "entry_ok e \<Longrightarrow> prefixed (bytes_of e) = (ikey_of e, lps (mval e))"
  by (simp add: bytes_of_lps prefixed_lps entry_ok_def ikey_of_def)

lemma prefixed_value: "entry_ok e \<Longrightarrow> prefixed (lps (mval e)) = (mval e, [])"
  using prefixed_lps [of "mval e" "[]"] by (simp add: entry_ok_def)

lemma memtable_key_lps: "memtable_key (new_LookupKey u s) = lps (u @ EncodeFixed64 (PackSequenceAndType s kValueTypeForSeek))"
  by (simp add: memtable_key_def new_LookupKey_def lps_def PutLengthPrefixedSlice_def PutVarint32_def Let_def)

lemma encoded_len_exact: "entry_ok e \<Longrightarrow> length (bytes_of e) = encoded_len (mkey e) (mval e)"
proof -
  assume "entry_ok e"
  then have "unat (word_of_nat n :: u32) = n \<and> unat (word_of_nat n :: u64) = n"
    if "n = length (mkey e) + 8 \<or> n = length (mval e)" for n
    using that by (auto simp: entry_ok_def unat_of_nat)
  then show ?thesis
    by (simp add: bytes_of_def entry_bytes_def encoded_len_def VarintLength_spec EncodeVarint32_spec EncodeVarint64_spec
        Let_def del: of_nat_add of_nat_numeral)
qed

section \<open>The table as a set of entries\<close>

definition mvalid :: "byte list \<Rightarrow> bool" where
  "mvalid b \<longleftrightarrow> internal_valid (fst (prefixed b))"

interpretation mem_order: key_order mvalid "KeyComparator Compare"
proof
  fix a b c assume v: "mvalid a" "mvalid b" "mvalid c"
  show "KeyComparator Compare a b < 0 \<Longrightarrow> KeyComparator Compare b c < 0 \<Longrightarrow> KeyComparator Compare a c < 0"
    using v unfolding mvalid_def KeyComparator_def by (rule internal.cmp_trans)
  show "KeyComparator Compare a b < 0 \<Longrightarrow> KeyComparator Compare c b = 0 \<Longrightarrow> KeyComparator Compare a c < 0"
    using v internal.cmp_eq by (simp add: mvalid_def KeyComparator_def)
next
  fix a b assume "mvalid a" "mvalid b"
  then show "KeyComparator Compare a b < 0 \<longleftrightarrow> 0 < KeyComparator Compare b a"
    unfolding mvalid_def KeyComparator_def by (rule internal.cmp_flip)
qed

definition mem_holds :: "MemTable \<Rightarrow> mentry set \<Rightarrow> bool" where
  "mem_holds m E \<longleftrightarrow> (\<exists>es. holds_keys (KeyComparator Compare) (table m) (map bytes_of es) \<and> set es = E) \<and> (\<forall>e \<in> E. entry_ok e)"

lemma mem_holds_new: "mem_holds new_MemTable {}"
  using holds_keys_new by (fastforce simp: mem_holds_def new_MemTable_def)

lemma mvalid_bytes: "entry_ok e \<Longrightarrow> mvalid (bytes_of e)"
  by (simp add: mvalid_def prefixed_bytes internal_valid_def ikey_of_def)

lemma ikey_parts [simp]:
  "ExtractUserKey (ikey_of e) = mkey e" "internal_num (ikey_of e) = PackSequenceAndType (mseq e) (mtype e)"
  by (simp_all add: ikey_of_def)

lemma Add_correct:
  assumes m: "mem_holds m E" and e: "entry_ok e" and new: "\<forall>x \<in> E. mkey x = mkey e \<longrightarrow> mseq x \<noteq> mseq e"
  obtains m' where "MemTable_Add Compare m (mseq e) (mtype e) (mkey e) (mval e) = Some m'" "mem_holds m' (insert e E)"
proof -
  obtain es where h: "holds_keys (KeyComparator Compare) (table m) (map bytes_of es)" and E: "set es = E"
    and ok: "\<forall>x \<in> E. entry_ok x"
    using m by (auto simp: mem_holds_def)
  have "KeyComparator Compare (bytes_of x) (bytes_of e) \<noteq> 0" if "x \<in> E" for x
  proof
    assume "KeyComparator Compare (bytes_of x) (bytes_of e) = 0"
    then have "ikey_of x = ikey_of e"
      using internal.cmp_eq [of "ikey_of x" "ikey_of e"] ok e that
      by (simp add: KeyComparator_def prefixed_bytes internal_valid_def) (simp add: ikey_of_def)
    then have "mkey x = mkey e" "PackSequenceAndType (mseq x) (mtype x) = PackSequenceAndType (mseq e) (mtype e)"
      using ikey_parts by metis+
    moreover have "drop_bit 8 (PackSequenceAndType (mseq y) (mtype y)) = mseq y" if "entry_ok y" for y
      using that pack_fields(2) by (simp add: entry_ok_def)
    ultimately show False using new that ok e by metis
  qed
  then obtain t where t: "Insert (KeyComparator Compare) (table m) (bytes_of e) = Some t"
    "holds_keys (KeyComparator Compare) t (insert_sorted (KeyComparator Compare) (bytes_of e) (map bytes_of es))"
    using mem_order.Insert_correct [OF h, of "bytes_of e"] E ok e mvalid_bytes by auto
  let ?es = "takeWhile (\<lambda>x. KeyComparator Compare (bytes_of x) (bytes_of e) < 0) es @ e #
    dropWhile (\<lambda>x. KeyComparator Compare (bytes_of x) (bytes_of e) < 0) es"
  have "insert_sorted (KeyComparator Compare) (bytes_of e) (map bytes_of es) = map bytes_of ?es"
    by (simp add: insert_sorted_def takeWhile_map dropWhile_map comp_def)
  moreover have "set ?es = insert e E"
    unfolding E [symmetric] by (metis Un_insert_right list.simps(15) set_append takeWhile_dropWhile_id)
  ultimately have "mem_holds (m\<lparr>table := t\<rparr>) (insert e E)"
    using t(2) ok e unfolding mem_holds_def by (auto intro!: exI [of _ ?es])
  moreover have "MemTable_Add Compare m (mseq e) (mtype e) (mkey e) (mval e) = Some (m\<lparr>table := t\<rparr>)"
    using t(1) by (simp add: MemTable_Add_def bytes_of_def)
  ultimately show ?thesis using that by blast
qed

text \<open>The newest entry of a key that a snapshot sees.\<close>

definition newest :: "mentry set \<Rightarrow> slice \<Rightarrow> u64 \<Rightarrow> mentry \<Rightarrow> bool" where
  "newest E u s e \<longleftrightarrow> e \<in> E \<and> mkey e = u \<and> mseq e \<le> s \<and> (\<forall>x \<in> E. mkey x = u \<longrightarrow> mseq x \<le> s \<longrightarrow> mseq x \<le> mseq e)"

definition get_result :: "mentry \<Rightarrow> byte list \<Rightarrow> status \<Rightarrow> bool \<times> byte list \<times> status" where
  "get_result e val st = (case mtype e of kTypeValue \<Rightarrow> (True, mval e, st) | kTypeDeletion \<Rightarrow> (True, val, NotFound [] []))"

lemma prefixed_lookup:
  "length u + 8 < 2 ^ 32 \<Longrightarrow> prefixed (memtable_key (new_LookupKey u s)) = (internal_key (new_LookupKey u s), [])"
  using prefixed_lps [of "u @ EncodeFixed64 (PackSequenceAndType s kValueTypeForSeek)" "[]"]
  by (simp add: memtable_key_lps LookupKey_parts AppendInternalKey_def PutFixed64_def)

text \<open>Which entries a seek passes over.\<close>

lemma before_lookup:
  assumes e: "entry_ok e" and u: "length u + 8 < 2 ^ 32" and s: "unat s < 2 ^ 56"
  shows "KeyComparator Compare (bytes_of e) (memtable_key (new_LookupKey u s)) < 0 \<longleftrightarrow>
    (if mkey e = u then s < mseq e else Compare (mkey e) u < 0)"
proof -
  let ?l = "internal_key (new_LookupKey u s)"
  have l: "ExtractUserKey ?l = u" by (simp add: LookupKey_parts AppendInternalKey_def PutFixed64_def)
  have k: "KeyComparator Compare (bytes_of e) (memtable_key (new_LookupKey u s)) = InternalKeyComparator_Compare Compare (ikey_of e) ?l"
    by (simp add: KeyComparator_def prefixed_bytes [OF e] prefixed_lookup [OF u])
  show ?thesis
  proof (cases "mkey e = u")
    case True
    let ?p = "\<lparr>user_key = mkey e, sequence = mseq e, vtype = mtype e\<rparr>"
    have p: "AppendInternalKey [] ?p = ikey_of e" by (simp add: AppendInternalKey_def PutFixed64_def ikey_of_def)
    have "InternalKeyComparator_Compare Compare ?l (ikey_of e) \<le> 0 \<longleftrightarrow> mseq e \<le> s"
      using lookup_order [of s ?p u] e s True p by (simp add: entry_ok_def)
    moreover have "InternalKeyComparator_Compare Compare (ikey_of e) ?l < 0 \<longleftrightarrow> 0 < InternalKeyComparator_Compare Compare ?l (ikey_of e)"
      by (rule internal.cmp_flip) (simp_all add: internal_valid_def ikey_of_def LookupKey_parts AppendInternalKey_def PutFixed64_def)
    ultimately show ?thesis using True by (auto simp: k not_le)
  next
    case False
    then have "Compare (mkey e) u \<noteq> 0" using bytewise.cmp_eq by simp
    then show ?thesis using False by (simp add: k bytewise.internal_less l)
  qed
qed

lemma newest_of_sorted:
  assumes "KeyComparator Compare (bytes_of f) (bytes_of x) < 0" "entry_ok f" "entry_ok x"
  shows "mkey f = mkey x \<Longrightarrow> mseq x \<le> mseq f" and "mkey f \<noteq> mkey x \<Longrightarrow> Compare (mkey f) (mkey x) < 0"
proof -
  have less: "InternalKeyComparator_Compare Compare (ikey_of f) (ikey_of x) < 0"
    using assms by (simp add: KeyComparator_def prefixed_bytes)
  have z: "Compare (mkey f) (mkey x) = 0 \<longleftrightarrow> mkey f = mkey x" using bytewise.cmp_eq by simp
  show "Compare (mkey f) (mkey x) < 0" if "mkey f \<noteq> mkey x"
    using less that z by (simp add: bytewise.internal_less)
  show "mseq x \<le> mseq f" if "mkey f = mkey x"
  proof -
    have "PackSequenceAndType (mseq x) (mtype x) < PackSequenceAndType (mseq f) (mtype f)"
      using less that z bytewise.cmp_irrefl [of "mkey x"] by (simp add: bytewise.internal_less)
    then have "unat (mseq x) * 256 + value_type_number (mtype x) < unat (mseq f) * 256 + value_type_number (mtype f)"
      using assms(2,3) by (simp add: word_less_nat_alt unat_pack entry_ok_def)
    then show ?thesis by (cases "mtype x"; cases "mtype f") (auto simp: word_le_nat_alt)
  qed
qed

lemma Get_correct:
  assumes m: "mem_holds m E" and u: "length u + 8 < 2 ^ 32" and s: "unat s < 2 ^ 56"
  shows "(\<exists>e. newest E u s e \<and> MemTable_Get Compare m (new_LookupKey u s) val st = Some (get_result e val st)) \<or>
    (\<forall>e \<in> E. mkey e = u \<longrightarrow> \<not> mseq e \<le> s) \<and> MemTable_Get Compare m (new_LookupKey u s) val st = Some (False, val, st)"
proof -
  let ?q = "memtable_key (new_LookupKey u s)"
  define P where "P = (\<lambda>e. KeyComparator Compare (bytes_of e) ?q < 0)"
  obtain es where h: "holds_keys (KeyComparator Compare) (table m) (map bytes_of es)" and E: "set es = E"
    and ok: "\<forall>x \<in> E. entry_ok x"
    using m by (auto simp: mem_holds_def)
  have q: "mvalid ?q"
    by (simp add: mvalid_def prefixed_lookup [OF u] internal_valid_def LookupKey_parts AppendInternalKey_def PutFixed64_def)
  have P: "P e \<longleftrightarrow> (if mkey e = u then s < mseq e else Compare (mkey e) u < 0)" if "e \<in> E" for e
    using before_lookup [OF _ u s] ok that by (simp add: P_def)
  have "map_option (map_option (key_of (table m))) (Iterator_Seek (KeyComparator Compare) (table m) ?q) =
      Some (case dropWhile (\<lambda>k. KeyComparator Compare k ?q < 0) (map bytes_of es) of [] \<Rightarrow> None | k # _ \<Rightarrow> Some k)"
    using mem_order.Seek_correct [OF h _ q] ok E mvalid_bytes by auto
  also have "dropWhile (\<lambda>k. KeyComparator Compare k ?q < 0) (map bytes_of es) = map bytes_of (dropWhile P es)"
    by (simp add: P_def dropWhile_map comp_def)
  finally have seek: "map_option (map_option (key_of (table m))) (Iterator_Seek (KeyComparator Compare) (table m) ?q) =
      Some (case map bytes_of (dropWhile P es) of [] \<Rightarrow> None | k # _ \<Rightarrow> Some k)" .
  show ?thesis
  proof (cases "dropWhile P es")
    case Nil
    then have "\<forall>e \<in> E. P e" using E by simp
    then have none: "\<forall>e \<in> E. mkey e = u \<longrightarrow> \<not> mseq e \<le> s" using P by (fastforce simp: not_le)
    have "Iterator_Seek (KeyComparator Compare) (table m) ?q = Some None"
      using seek Nil by (auto simp del: dropWhile_eq_Nil_conv)
    with none show ?thesis by (simp add: MemTable_Get_def)
  next
    case (Cons f fs)
    define tk where "tk = takeWhile P es"
    have es: "es = tk @ f # fs" using takeWhile_dropWhile_id [of P es] Cons by (simp add: tk_def)
    have "f \<in> E" unfolding E [symmetric] es by simp
    then have f: "f \<in> E" "\<not> P f" "entry_ok f"
      using ok hd_dropWhile [of P es] Cons by (auto simp del: dropWhile_eq_Nil_conv)
    have later: "x = f \<or> KeyComparator Compare (bytes_of f) (bytes_of x) < 0" if "x \<in> E" "\<not> P x" for x
    proof -
      have "x \<in> set tk \<Longrightarrow> P x" by (auto simp: tk_def dest: set_takeWhileD)
      then have "x \<in> set (f # fs)" using that unfolding E [symmetric] es by auto
      moreover have "sorted_wrt (\<lambda>a b. KeyComparator Compare (bytes_of a) (bytes_of b) < 0) (f # fs)"
        using holds_keys_sorted [OF h] unfolding es by (simp add: sorted_wrt_append sorted_wrt_map)
      ultimately show ?thesis by auto
    qed
    obtain x where x: "Iterator_Seek (KeyComparator Compare) (table m) ?q = Some (Some x)" "key_of (table m) x = bytes_of f"
      using seek Cons by auto
    have user: "take (length (ikey_of f) - 8) (ikey_of f) = mkey f" "DecodeFixed64 (drop (length (ikey_of f) - 8) (ikey_of f)) =
        PackSequenceAndType (mseq f) (mtype f)"
      using ikey_parts [of f] by (simp_all only: ExtractUserKey_def internal_num_def)
    have tag: "PackSequenceAndType (mseq f) (mtype f) AND 0xff = word_of_nat (value_type_number (mtype f))"
      using pack_fields(1) f(3) by (simp add: entry_ok_def)
    have cmp: "Compare (mkey f) u = 0 \<longleftrightarrow> mkey f = u" using bytewise.cmp_eq by simp
    show ?thesis
    proof (cases "mkey f = u")
      case True
      have "newest E u s f"
        unfolding newest_def
      proof (intro conjI ballI impI)
        show "mseq f \<le> s" using f P True by (simp add: not_less)
        fix y assume y: "y \<in> E" "mkey y = u" "mseq y \<le> s"
        then have "\<not> P y" using P by (simp add: not_less)
        then show "mseq y \<le> mseq f" using later [OF y(1)] newest_of_sorted(1) [of f y] f ok y True by auto
      qed (use f True in auto)
      moreover have "MemTable_Get Compare m (new_LookupKey u s) val st = Some (get_result f val st)"
        using x f(3) True cmp tag by (cases "mtype f")
          (simp_all add: MemTable_Get_def prefixed_bytes user LookupKey_parts get_result_def prefixed_value Let_def)
      ultimately show ?thesis by blast
    next
      case False
      have "\<not> mseq y \<le> s" if y: "y \<in> E" "mkey y = u" for y
      proof
        assume "mseq y \<le> s"
        then have "\<not> P y" using P y by (simp add: not_less)
        then have "Compare (mkey f) (mkey y) < 0"
          using later [OF y(1)] newest_of_sorted(2) [of f y] f(3) ok y False by auto
        then show False using f(1,2) P False y by simp
      qed
      moreover have "MemTable_Get Compare m (new_LookupKey u s) val st = Some (False, val, st)"
        using x f(3) False cmp by (simp add: MemTable_Get_def prefixed_bytes user LookupKey_parts)
      ultimately show ?thesis by blast
    qed
  qed
qed

section \<open>Replaying a batch\<close>

text \<open>What a sequence of operations does to a map: \<open>Some None\<close> is a key whose last operation is a deletion.\<close>

type_synonym db_map = "slice \<Rightarrow> slice option option"

fun run_op :: "db_map \<Rightarrow> batch_op \<Rightarrow> db_map" where
  "run_op M (BPut k v) = M(k := Some (Some v))"
| "run_op M (BDelete k) = M(k := Some None)"

fun op_entry :: "u64 \<Rightarrow> batch_op \<Rightarrow> mentry" where
  "op_entry s (BPut k v) = \<lparr>mkey = k, mseq = s, mtype = kTypeValue, mval = v\<rparr>"
| "op_entry s (BDelete k) = \<lparr>mkey = k, mseq = s, mtype = kTypeDeletion, mval = []\<rparr>"

fun op_entries :: "u64 \<Rightarrow> batch_op list \<Rightarrow> mentry list" where
  "op_entries s [] = []"
| "op_entries s (x # xs) = op_entry s x # op_entries (s + 1) xs"

fun op_small :: "batch_op \<Rightarrow> bool" where
  "op_small (BPut k v) \<longleftrightarrow> length k + 8 < 2 ^ 32 \<and> length v < 2 ^ 32"
| "op_small (BDelete k) \<longleftrightarrow> length k + 8 < 2 ^ 32"

lemma op_entry_seq [simp]: "mseq (op_entry s x) = s"
  by (cases x) simp_all

lemma op_entry_ok: "op_small x \<Longrightarrow> unat s < 2 ^ 56 \<Longrightarrow> entry_ok (op_entry s x)"
  by (cases x) (simp_all add: entry_ok_def)

lemma unat_suc56: "unat (s :: u64) + 1 < 2 ^ 56 \<Longrightarrow> unat (s + 1) = unat s + 1"
  by (simp add: unat_word_ariths)

lemma op_entries_nth:
  "i < length ops \<Longrightarrow> op_entries s ops ! i = op_entry (s + word_of_nat i) (ops ! i)"
  by (induction ops arbitrary: s i) (auto simp: nth_Cons' add.assoc)

lemma length_op_entries [simp]: "length (op_entries s ops) = length ops"
  by (induction ops arbitrary: s) simp_all

lemma apply_op_inserter:
  "apply_op (inserter_Put cmp) (inserter_Delete cmp) (s, Some m) x =
   (s + 1, MemTable_Add cmp m (mseq (op_entry s x)) (mtype (op_entry s x)) (mkey (op_entry s x)) (mval (op_entry s x)))"
  by (cases x) (simp_all add: inserter_Put_def inserter_Delete_def)

lemma replay:
  "mem_holds m E \<Longrightarrow> list_all op_small ops \<Longrightarrow> unat s + length ops < 2 ^ 56 \<Longrightarrow> \<forall>e \<in> E. mseq e < s \<Longrightarrow>
   \<exists>m'. foldl (apply_op (inserter_Put Compare) (inserter_Delete Compare)) (s, Some m) ops = (s + word_of_nat (length ops), Some m') \<and>
     mem_holds m' (E \<union> set (op_entries s ops))"
proof (induction ops arbitrary: m E s)
  case Nil
  then show ?case by auto
next
  case (Cons x ops)
  let ?e = "op_entry s x"
  have ok: "entry_ok ?e" using Cons.prems op_entry_ok by simp
  have u: "unat (s + 1) = unat s + 1" using Cons.prems(3) by (intro unat_suc56) simp
  have "\<forall>y \<in> E. mkey y = mkey ?e \<longrightarrow> mseq y \<noteq> mseq ?e" using Cons.prems(4) by auto
  from Add_correct [OF Cons.prems(1) ok this] obtain m1 where
    m1: "MemTable_Add Compare m (mseq ?e) (mtype ?e) (mkey ?e) (mval ?e) = Some m1" "mem_holds m1 (insert ?e E)" .
  have "\<forall>y \<in> insert ?e E. mseq y < s + 1"
    using Cons.prems(4) u by (auto simp: word_less_nat_alt)
  with Cons.IH [OF m1(2), of "s + 1"] Cons.prems u obtain m' where
    "foldl (apply_op (inserter_Put Compare) (inserter_Delete Compare)) (s + 1, Some m1) ops = (s + 1 + word_of_nat (length ops), Some m')"
    "mem_holds m' (insert ?e E \<union> set (op_entries (s + 1) ops))"
    by auto
  then show ?case using m1(1) by (simp add: apply_op_inserter add.assoc)
qed

lemma InsertInto_correct:
  assumes "mem_holds m E" "list_all op_small ops" "length ops < 2 ^ 31" "unat s + length ops < 2 ^ 56" "\<forall>e \<in> E. mseq e < s"
  obtains m' where "InsertInto Compare (batch_of s ops) m = (OK, Some m')" "mem_holds m' (E \<union> set (op_entries s ops))"
proof -
  have "list_all op_ok ops"
    using assms(2) by (rule list.pred_mono_strong) (metis op_ok.elims(3) op_small.simps add_lessD1)
  with Iterate_batch [of ops "inserter_Put Compare" "inserter_Delete Compare" s] assms(3) replay [OF assms(1,2,4,5)]
  show ?thesis by (auto simp: InsertInto_def Sequence_batch intro: that)
qed

text \<open>The newest entry of a key is the one of the last operation on it.\<close>

definition last_result :: "slice option \<Rightarrow> byte list \<Rightarrow> status \<Rightarrow> bool \<times> byte list \<times> status" where
  "last_result x val st = (case x of Some v \<Rightarrow> (True, v, st) | None \<Rightarrow> (True, val, NotFound [] []))"

lemma op_entries_snoc: "op_entries s (ops @ [x]) = op_entries s ops @ [op_entry (s + word_of_nat (length ops)) x]"
  by (induction ops arbitrary: s) (simp_all add: add.assoc)

lemma op_entries_seq:
  assumes "unat s + length ops < 2 ^ 56" "e \<in> set (op_entries s ops)"
  shows "unat (mseq e) < unat s + length ops"
proof -
  obtain i where i: "i < length ops" "e = op_entries s ops ! i" using assms(2) by (auto simp: in_set_conv_nth)
  have "unat (s + word_of_nat i) = unat s + i" using assms(1) i(1) by (simp add: unat_word_ariths unat_of_nat)
  then show ?thesis using i by (simp add: op_entries_nth)
qed

lemma run_op_entry:
  "run_op M x u = (if mkey (op_entry s x) = u then Some (case mtype (op_entry s x) of kTypeValue \<Rightarrow> Some (mval (op_entry s x))
     | kTypeDeletion \<Rightarrow> None) else M u)"
  by (cases x) simp_all

lemma last_op_entry:
  "unat s + length ops < 2 ^ 56 \<Longrightarrow>
   (case foldl run_op (\<lambda>_. None) ops u of
      None \<Rightarrow> \<forall>e \<in> set (op_entries s ops). mkey e \<noteq> u
    | Some x \<Rightarrow> \<exists>e \<in> set (op_entries s ops). mkey e = u \<and> get_result e val st = last_result x val st \<and>
        (\<forall>y \<in> set (op_entries s ops). mkey y = u \<longrightarrow> mseq y \<le> mseq e))"
proof (induction ops rule: rev_induct)
  case Nil
  then show ?case by simp
next
  case (snoc y ops)
  let ?n = "op_entry (s + word_of_nat (length ops)) y"
  have seq: "unat (mseq ?n) = unat s + length ops"
    using snoc.prems by (simp add: unat_word_ariths unat_of_nat)
  have old: "mseq z \<le> mseq ?n" if "z \<in> set (op_entries s ops)" for z
    using op_entries_seq [OF _ that] snoc.prems seq by (simp add: word_le_nat_alt)
  note run = run_op_entry [of _ y u "s + word_of_nat (length ops)"]
  show ?case
  proof (cases "mkey ?n = u")
    case True
    then obtain x where x: "foldl run_op (\<lambda>_. None) (ops @ [y]) u = Some x" "get_result ?n val st = last_result x val st"
      by (cases "mtype ?n") (auto simp: run get_result_def last_result_def)
    moreover have "\<forall>z \<in> set (op_entries s (ops @ [y])). mkey z = u \<longrightarrow> mseq z \<le> mseq ?n"
      using old by (simp add: op_entries_snoc)
    ultimately show ?thesis using True by (auto simp: op_entries_snoc)
  next
    case False
    then have "foldl run_op (\<lambda>_. None) (ops @ [y]) u = foldl run_op (\<lambda>_. None) ops u" by (simp add: run)
    with snoc False show ?thesis by (auto simp: op_entries_snoc split: option.splits)
  qed
qed

lemma batch_read_back:
  assumes ops: "list_all op_small ops" "length ops < 2 ^ 31" and s: "unat s + length ops < 2 ^ 56"
    and u: "length u + 8 < 2 ^ 32" and snap: "unat t < 2 ^ 56" "unat s + length ops \<le> unat t + 1"
  obtains m where "InsertInto Compare (batch_of s ops) new_MemTable = (OK, Some m)"
    "MemTable_Get Compare m (new_LookupKey u t) val st =
       Some (case foldl run_op (\<lambda>_. None) ops u of None \<Rightarrow> (False, val, st) | Some x \<Rightarrow> last_result x val st)"
proof -
  let ?E = "set (op_entries s ops)"
  obtain m where m: "InsertInto Compare (batch_of s ops) new_MemTable = (OK, Some m)" "mem_holds m ?E"
    using InsertInto_correct [OF mem_holds_new ops s] by auto
  have vis: "mseq e \<le> t" if "e \<in> ?E" for e
    using op_entries_seq [OF s that] snap(2) by (simp add: word_le_nat_alt)
  have uniq: "e = e'" if ee: "e \<in> ?E" "e' \<in> ?E" "mseq e = mseq e'" for e e'
  proof -
    obtain i j where ij: "i < length ops" "e = op_entries s ops ! i" "j < length ops" "e' = op_entries s ops ! j"
      using ee by (auto simp: in_set_conv_nth)
    have "unat (s + word_of_nat k) = unat s + k" if "k < length ops" for k
      using s that by (simp add: unat_word_ariths unat_of_nat)
    then have "i = j" using ij ee(3) by (metis add_left_cancel op_entries_nth op_entry_seq)
    then show ?thesis using ij by simp
  qed
  from Get_correct [OF m(2) u snap(1), of val st]
  have "MemTable_Get Compare m (new_LookupKey u t) val st =
       Some (case foldl run_op (\<lambda>_. None) ops u of None \<Rightarrow> (False, val, st) | Some x \<Rightarrow> last_result x val st)"
  proof (elim disjE exE conjE)
    fix e assume e: "newest ?E u t e" and get: "MemTable_Get Compare m (new_LookupKey u t) val st = Some (get_result e val st)"
    then obtain x where x: "foldl run_op (\<lambda>_. None) ops u = Some x"
      using last_op_entry [OF s, of u val st] by (cases "foldl run_op (\<lambda>_. None) ops u") (auto simp: newest_def)
    with last_op_entry [OF s, of u val st] obtain e' where
      e': "e' \<in> ?E" "mkey e' = u" "get_result e' val st = last_result x val st" "\<forall>y \<in> ?E. mkey y = u \<longrightarrow> mseq y \<le> mseq e'"
      by auto
    then have "e = e'" using e vis by (intro uniq) (auto simp: newest_def intro: order.antisym)
    then show ?thesis using get x e'(3) by simp
  next
    assume none: "\<forall>e \<in> ?E. mkey e = u \<longrightarrow> \<not> mseq e \<le> t"
      and get: "MemTable_Get Compare m (new_LookupKey u t) val st = Some (False, val, st)"
    have "foldl run_op (\<lambda>_. None) ops u = None"
      using last_op_entry [OF s, of u val st] none vis by (auto split: option.splits)
    then show ?thesis using get by simp
  qed
  with m(1) show ?thesis by (rule that)
qed

end
