(* ===== verification/Ldb_Iterator.thy ===== *)
theory Ldb_Iterator
  imports Ldb_Coding Ldb_Status
begin

text \<open>
  \<open>leveldb/include/leveldb/iterator.h\<close>, \<open>table/iterator.cc\<close> and \<open>table/iterator_wrapper.h\<close>: the interface of iterators, the empty
  iterator, and the wrapper that keeps the current key. The virtual methods are a record of functions, the contract of
  the comments of \<open>iterator.h\<close> is the locale \<open>iterator_over\<close>. Registration of cleanup functions is memory management.
\<close>

section \<open>Interface\<close>

text \<open>Operations that move an iterator return it; \<open>None\<close> is a call that does not return.\<close>

record 'it iterator =
  op_Valid :: "'it \<Rightarrow> bool"
  op_SeekToFirst :: "'it \<Rightarrow> 'it option"
  op_SeekToLast :: "'it \<Rightarrow> 'it option"
  op_Seek :: "'it \<Rightarrow> slice \<Rightarrow> 'it option"
  op_Next :: "'it \<Rightarrow> 'it option"
  op_Prev :: "'it \<Rightarrow> 'it option"
  op_key :: "'it \<Rightarrow> slice"
  op_value :: "'it \<Rightarrow> slice"
  op_status :: "'it \<Rightarrow> status"

text \<open>
  An iterator over a list of entries: \<open>pos es i it\<close> is that it stands at entry \<open>i\<close>, or, with \<open>i = length es\<close>, that
  it is not valid. \<open>before\<close> is the order of the source and \<open>proper\<close> says which targets may be sought.
\<close>

locale iterator_over =
  fixes ops :: "'it iterator" and pos :: "(slice \<times> slice) list \<Rightarrow> nat \<Rightarrow> 'it \<Rightarrow> bool"
    and before :: "slice \<Rightarrow> slice \<Rightarrow> bool" and proper :: "slice \<Rightarrow> bool"
  assumes pos_bound: "pos es i it \<Longrightarrow> i \<le> length es"
    and pos_valid: "pos es i it \<Longrightarrow> op_Valid ops it \<longleftrightarrow> i < length es"
    and pos_entry: "pos es i it \<Longrightarrow> i < length es \<Longrightarrow> (op_key ops it, op_value ops it) = es ! i"
    and pos_status: "pos es i it \<Longrightarrow> op_status ops it = OK"
    and SeekToFirst_pos: "pos es i it \<Longrightarrow> \<exists>it'. op_SeekToFirst ops it = Some it' \<and> pos es 0 it'"
    and SeekToLast_pos: "pos es i it \<Longrightarrow> \<exists>it'. op_SeekToLast ops it = Some it' \<and> pos es (length es - 1) it'"
    and Seek_pos: "pos es i it \<Longrightarrow> proper t \<Longrightarrow>
      \<exists>it'. op_Seek ops it t = Some it' \<and> pos es (length (takeWhile (\<lambda>e. before (fst e) t) es)) it'"
    and Next_pos: "pos es i it \<Longrightarrow> i < length es \<Longrightarrow> \<exists>it'. op_Next ops it = Some it' \<and> pos es (Suc i) it'"
    and Prev_pos: "pos es i it \<Longrightarrow> i < length es \<Longrightarrow>
      \<exists>it'. op_Prev ops it = Some it' \<and> pos es (if i = 0 then length es else i - 1) it'"

text \<open>A client's loops over an iterator.\<close>

partial_function (option) read_forward :: "'it iterator \<Rightarrow> 'it \<Rightarrow> (slice \<times> slice) list option" where
  "read_forward ops it =
     (if op_Valid ops it
      then Option.bind (op_Next ops it) (\<lambda>it'. Option.bind (read_forward ops it') (\<lambda>r. Some ((op_key ops it, op_value ops it) # r)))
      else Some [])"

partial_function (option) read_backward :: "'it iterator \<Rightarrow> 'it \<Rightarrow> (slice \<times> slice) list option" where
  "read_backward ops it =
     (if op_Valid ops it
      then Option.bind (op_Prev ops it) (\<lambda>it'. Option.bind (read_backward ops it') (\<lambda>r. Some ((op_key ops it, op_value ops it) # r)))
      else Some [])"

context iterator_over
begin

lemma forward_rest: "pos es i it \<Longrightarrow> read_forward ops it = Some (drop i es)"
proof (induction "length es - i" arbitrary: i it)
  case 0
  then show ?case using pos_bound [OF 0(2)] pos_valid [OF 0(2)] by (simp add: read_forward.simps [of ops it])
next
  case (Suc n)
  then have i: "i < length es" by simp
  from Next_pos [OF Suc.prems i] obtain it' where it': "op_Next ops it = Some it'" "pos es (Suc i) it'" by blast
  with Suc.hyps(1) [of "Suc i" it'] Suc.hyps(2) pos_valid [OF Suc.prems] pos_entry [OF Suc.prems i] i show ?case
    by (simp add: read_forward.simps [of ops it] Cons_nth_drop_Suc)
qed

lemma backward_rest: "pos es i it \<Longrightarrow> i < length es \<Longrightarrow> read_backward ops it = Some (rev (take (Suc i) es))"
proof (induction i arbitrary: it)
  case 0
  from Prev_pos [OF 0] obtain it' where it': "op_Prev ops it = Some it'" "pos es (length es) it'" by auto
  with pos_valid [OF 0(1)] pos_entry [OF 0] pos_valid [OF it'(2)] 0(2) show ?case
    by (cases es) (simp_all add: read_backward.simps [of ops it] read_backward.simps [of ops it'])
next
  case (Suc i)
  from Prev_pos [OF Suc.prems] obtain it' where it': "op_Prev ops it = Some it'" "pos es i it'" by auto
  with Suc.IH [OF it'(2)] pos_valid [OF Suc.prems(1)] pos_entry [OF Suc.prems] Suc.prems(2) show ?case
    by (simp add: read_backward.simps [of ops it] take_Suc_conv_app_nth)
qed

lemma read_all_forward: "pos es i it \<Longrightarrow> Option.bind (op_SeekToFirst ops it) (read_forward ops) = Some es"
  using SeekToFirst_pos [of es i it] forward_rest by fastforce

lemma read_all_backward: "pos es i it \<Longrightarrow> Option.bind (op_SeekToLast ops it) (read_backward ops) = Some (rev es)"
proof -
  assume "pos es i it"
  then obtain it' where it': "op_SeekToLast ops it = Some it'" "pos es (length es - 1) it'"
    using SeekToLast_pos by blast
  show ?thesis
  proof (cases "es = []")
    case True
    with it' pos_valid [OF it'(2)] show ?thesis by (simp add: read_backward.simps [of ops it'])
  next
    case False
    with it' backward_rest [OF it'(2)] show ?thesis by simp
  qed
qed

lemma read_from: "pos es i it \<Longrightarrow> proper t \<Longrightarrow>
    Option.bind (op_Seek ops it t) (read_forward ops) = Some (dropWhile (\<lambda>e. before (fst e) t) es)"
  using Seek_pos [of es i it t] forward_rest by (fastforce simp: dropWhile_eq_drop)

end

section \<open>\<open>EmptyIterator\<close>\<close>

text \<open>The iterator is its status.\<close>

definition EmptyIterator :: "status iterator" where
  "EmptyIterator =
     \<lparr>op_Valid = \<lambda>_. False, op_SeekToFirst = Some, op_SeekToLast = Some, op_Seek = \<lambda>s _. Some s, op_Next = Some,
      op_Prev = Some, op_key = \<lambda>_. [], op_value = \<lambda>_. [], op_status = \<lambda>s. s\<rparr>"

interpretation empty: iterator_over EmptyIterator "\<lambda>es i s. es = [] \<and> i = 0 \<and> s = OK" before "\<lambda>_. True" for before
  by unfold_locales (auto simp: EmptyIterator_def)

section \<open>\<open>IteratorWrapper\<close>\<close>

text \<open>The key and whether there is one are kept beside the iterator; a wrapper is used only after \<open>Set\<close>.\<close>

record 'it IteratorWrapper =
  w_iter :: 'it
  w_valid :: bool
  w_key :: slice

definition wrapper_Update :: "'it iterator \<Rightarrow> 'it IteratorWrapper \<Rightarrow> 'it IteratorWrapper" where
  "wrapper_Update ops w =
     (let w = w\<lparr>w_valid := op_Valid ops (w_iter w)\<rparr> in if w_valid w then w\<lparr>w_key := op_key ops (w_iter w)\<rparr> else w)"

definition wrapper_Set :: "'it iterator \<Rightarrow> 'it \<Rightarrow> 'it IteratorWrapper" where
  "wrapper_Set ops it = wrapper_Update ops \<lparr>w_iter = it, w_valid = False, w_key = []\<rparr>"

definition wrapper_moved :: "'it iterator \<Rightarrow> ('it \<Rightarrow> 'it option) \<Rightarrow> 'it IteratorWrapper \<Rightarrow> 'it IteratorWrapper option" where
  "wrapper_moved ops f w = map_option (\<lambda>it. wrapper_Update ops (w\<lparr>w_iter := it\<rparr>)) (f (w_iter w))"

definition wrapper_Next :: "'it iterator \<Rightarrow> 'it IteratorWrapper \<Rightarrow> 'it IteratorWrapper option" where
  "wrapper_Next ops = wrapper_moved ops (op_Next ops)"

definition wrapper_Prev :: "'it iterator \<Rightarrow> 'it IteratorWrapper \<Rightarrow> 'it IteratorWrapper option" where
  "wrapper_Prev ops = wrapper_moved ops (op_Prev ops)"

definition wrapper_Seek :: "'it iterator \<Rightarrow> slice \<Rightarrow> 'it IteratorWrapper \<Rightarrow> 'it IteratorWrapper option" where
  "wrapper_Seek ops k = wrapper_moved ops (\<lambda>it. op_Seek ops it k)"

definition wrapper_SeekToFirst :: "'it iterator \<Rightarrow> 'it IteratorWrapper \<Rightarrow> 'it IteratorWrapper option" where
  "wrapper_SeekToFirst ops = wrapper_moved ops (op_SeekToFirst ops)"

definition wrapper_SeekToLast :: "'it iterator \<Rightarrow> 'it IteratorWrapper \<Rightarrow> 'it IteratorWrapper option" where
  "wrapper_SeekToLast ops = wrapper_moved ops (op_SeekToLast ops)"

lemmas wrapper_defs = wrapper_Next_def wrapper_Prev_def wrapper_Seek_def wrapper_SeekToFirst_def wrapper_SeekToLast_def

text \<open>The wrapper as an iterator.\<close>

definition wrapper_iterator :: "'it iterator \<Rightarrow> 'it IteratorWrapper iterator" where
  "wrapper_iterator ops =
     \<lparr>op_Valid = w_valid, op_SeekToFirst = wrapper_SeekToFirst ops, op_SeekToLast = wrapper_SeekToLast ops,
      op_Seek = \<lambda>w k. wrapper_Seek ops k w, op_Next = wrapper_Next ops, op_Prev = wrapper_Prev ops, op_key = w_key,
      op_value = \<lambda>w. op_value ops (w_iter w), op_status = \<lambda>w. op_status ops (w_iter w)\<rparr>"

definition wrapper_pos ::
  "'it iterator \<Rightarrow> ((slice \<times> slice) list \<Rightarrow> nat \<Rightarrow> 'it \<Rightarrow> bool) \<Rightarrow> (slice \<times> slice) list \<Rightarrow> nat \<Rightarrow> 'it IteratorWrapper \<Rightarrow> bool"
where
  "wrapper_pos ops pos es i w \<longleftrightarrow> pos es i (w_iter w) \<and> w_valid w = op_Valid ops (w_iter w) \<and>
     (w_valid w \<longrightarrow> w_key w = op_key ops (w_iter w))"

lemma wrapper_Update_pos: "pos es i (w_iter w) \<Longrightarrow> wrapper_pos ops pos es i (wrapper_Update ops w)"
  by (simp add: wrapper_Update_def wrapper_pos_def Let_def)

lemma wrapper_moved_pos:
  "\<exists>it'. f (w_iter w) = Some it' \<and> pos es i it' \<Longrightarrow> \<exists>w'. wrapper_moved ops f w = Some w' \<and> wrapper_pos ops pos es i w'"
  by (auto simp: wrapper_moved_def intro!: wrapper_Update_pos)

context iterator_over
begin

lemma wrapper_over: "iterator_over (wrapper_iterator ops) (wrapper_pos ops pos) before proper"
proof (unfold_locales, goal_cases)
  case (1 es i w)
  then show ?case using pos_bound [of es i "w_iter w"] by (simp add: wrapper_pos_def)
next
  case (2 es i w)
  then show ?case using pos_valid [of es i "w_iter w"] by (simp add: wrapper_pos_def wrapper_iterator_def)
next
  case (3 es i w)
  then show ?case using pos_entry [of es i "w_iter w"] pos_valid [of es i "w_iter w"]
    by (simp add: wrapper_pos_def wrapper_iterator_def)
next
  case (4 es i w)
  then show ?case using pos_status [of es i "w_iter w"] by (simp add: wrapper_pos_def wrapper_iterator_def)
next
  case (5 es i w)
  then have "\<exists>it'. op_SeekToFirst ops (w_iter w) = Some it' \<and> pos es 0 it'"
    using SeekToFirst_pos by (auto simp: wrapper_pos_def)
  from wrapper_moved_pos [of "op_SeekToFirst ops" w pos, OF this] show ?case by (simp add: wrapper_iterator_def wrapper_defs)
next
  case (6 es i w)
  then have "\<exists>it'. op_SeekToLast ops (w_iter w) = Some it' \<and> pos es (length es - 1) it'"
    using SeekToLast_pos by (auto simp: wrapper_pos_def)
  from wrapper_moved_pos [of "op_SeekToLast ops" w pos, OF this] show ?case by (simp add: wrapper_iterator_def wrapper_defs)
next
  case (7 es i w t)
  then have "\<exists>it'. op_Seek ops (w_iter w) t = Some it' \<and> pos es (length (takeWhile (\<lambda>e. before (fst e) t) es)) it'"
    using Seek_pos by (auto simp: wrapper_pos_def)
  from wrapper_moved_pos [of "\<lambda>it. op_Seek ops it t" w pos, OF this] show ?case by (simp add: wrapper_iterator_def wrapper_defs)
next
  case (8 es i w)
  then have "\<exists>it'. op_Next ops (w_iter w) = Some it' \<and> pos es (Suc i) it'"
    using Next_pos by (auto simp: wrapper_pos_def)
  from wrapper_moved_pos [of "op_Next ops" w pos, OF this] show ?case by (simp add: wrapper_iterator_def wrapper_defs)
next
  case (9 es i w)
  then have "\<exists>it'. op_Prev ops (w_iter w) = Some it' \<and> pos es (if i = 0 then length es else i - 1) it'"
    using Prev_pos [of es i "w_iter w"] by (simp add: wrapper_pos_def)
  from wrapper_moved_pos [of "op_Prev ops" w pos, OF this] show ?case by (simp add: wrapper_iterator_def wrapper_defs)
qed

text \<open>The contract over the wrapper, for classes that hold their iterators in one.\<close>

lemma wpos_bound: "wrapper_pos ops pos es i w \<Longrightarrow> i \<le> length es"
  by (rule iterator_over.pos_bound [OF wrapper_over])

lemma wpos_valid: "wrapper_pos ops pos es i w \<Longrightarrow> w_valid w \<longleftrightarrow> i < length es"
  using iterator_over.pos_valid [OF wrapper_over] by (simp add: wrapper_iterator_def)

lemma wpos_entry: "wrapper_pos ops pos es i w \<Longrightarrow> i < length es \<Longrightarrow> w_key w = fst (es ! i) \<and> op_value ops (w_iter w) = snd (es ! i)"
  using iterator_over.pos_entry [OF wrapper_over, of es i w] by (auto simp: wrapper_iterator_def prod_eq_iff)

lemma wpos_status: "wrapper_pos ops pos es i w \<Longrightarrow> op_status ops (w_iter w) = OK"
  using iterator_over.pos_status [OF wrapper_over] by (simp add: wrapper_iterator_def)

lemma wpos_SeekToFirst: "wrapper_pos ops pos es i w \<Longrightarrow> \<exists>w'. wrapper_SeekToFirst ops w = Some w' \<and> wrapper_pos ops pos es 0 w'"
  using iterator_over.SeekToFirst_pos [OF wrapper_over] by (simp add: wrapper_iterator_def)

lemma wpos_SeekToLast:
  "wrapper_pos ops pos es i w \<Longrightarrow> \<exists>w'. wrapper_SeekToLast ops w = Some w' \<and> wrapper_pos ops pos es (length es - 1) w'"
  using iterator_over.SeekToLast_pos [OF wrapper_over] by (simp add: wrapper_iterator_def)

lemma wpos_Seek: "wrapper_pos ops pos es i w \<Longrightarrow> proper t \<Longrightarrow>
    \<exists>w'. wrapper_Seek ops t w = Some w' \<and> wrapper_pos ops pos es (length (takeWhile (\<lambda>e. before (fst e) t) es)) w'"
  using iterator_over.Seek_pos [OF wrapper_over] by (simp add: wrapper_iterator_def)

lemma wpos_Next: "wrapper_pos ops pos es i w \<Longrightarrow> i < length es \<Longrightarrow> \<exists>w'. wrapper_Next ops w = Some w' \<and> wrapper_pos ops pos es (Suc i) w'"
  using iterator_over.Next_pos [OF wrapper_over] by (simp add: wrapper_iterator_def)

lemma wpos_Prev: "wrapper_pos ops pos es i w \<Longrightarrow> i < length es \<Longrightarrow>
    \<exists>w'. wrapper_Prev ops w = Some w' \<and> wrapper_pos ops pos es (if i = 0 then length es else i - 1) w'"
  using iterator_over.Prev_pos [OF wrapper_over, of es i w] by (simp add: wrapper_iterator_def)

lemma wpos_Set: "pos es i it \<Longrightarrow> wrapper_pos ops pos es i (wrapper_Set ops it)"
  by (simp add: wrapper_Set_def wrapper_Update_pos)

end

end
