(* ===== verification/Ldb_Block.thy ===== *)
theory Ldb_Block
  imports Ldb_Iterator Ldb_Dbformat
begin

unbundle bit_operations_syntax

text \<open>
  \<open>leveldb/table/block_builder.cc\<close> and \<open>table/block.cc\<close>: blocks of sorted tables. The builder writes each key without
  the prefix it shares with the key before, except at restart points; an array of their offsets follows the
  entries. The iterator puts the keys together again and finds a key by bisection of the restart points.
  The proofs are in \<open>Ldb_Block_Proofs\<close>.
\<close>

section \<open>Builder\<close>

text \<open>\<open>interval\<close> is \<open>options_->block_restart_interval\<close>; the elements of \<open>restart_points\<close> are 32-bit.\<close>

record BlockBuilder =
  interval :: int
  blk_buffer :: "byte list"
  restart_points :: "u32 list"
  counter :: int
  finished :: bool
  last_key :: "byte list"

definition new_BlockBuilder :: "int \<Rightarrow> BlockBuilder" where
  "new_BlockBuilder n =
     \<lparr>interval = n, blk_buffer = [], restart_points = [0], counter = 0, finished = False, last_key = []\<rparr>"

definition BlockBuilder_Reset :: "BlockBuilder \<Rightarrow> BlockBuilder" where
  "BlockBuilder_Reset b =
     b\<lparr>blk_buffer := [], restart_points := [0], counter := 0, finished := False, last_key := []\<rparr>"

definition CurrentSizeEstimate :: "BlockBuilder \<Rightarrow> nat" where
  "CurrentSizeEstimate b = length (blk_buffer b) + length (restart_points b) * 4 + 4"

definition BlockBuilder_empty :: "BlockBuilder \<Rightarrow> bool" where
  "BlockBuilder_empty b \<longleftrightarrow> blk_buffer b = []"

text \<open>\<open>Finish\<close> returns the contents of the buffer and the builder.\<close>

definition BlockBuilder_Finish :: "BlockBuilder \<Rightarrow> slice \<times> BlockBuilder" where
  "BlockBuilder_Finish b =
     (let buf = foldl PutFixed32 (blk_buffer b) (restart_points b);
          buf = PutFixed32 buf (word_of_nat (length (restart_points b)))
      in (buf, b\<lparr>blk_buffer := buf, finished := True\<rparr>))"

text \<open>The loop that counts the bytes two keys share.\<close>

fun shared_length :: "slice \<Rightarrow> slice \<Rightarrow> nat" where
  "shared_length (x # xs) (y # ys) = (if x = y then Suc (shared_length xs ys) else 0)"
| "shared_length _ _ = 0"

definition BlockBuilder_Add :: "BlockBuilder \<Rightarrow> slice \<Rightarrow> slice \<Rightarrow> BlockBuilder" where
  "BlockBuilder_Add b key val =
     (let (shared, b) =
            (if counter b < interval b then (shared_length (last_key b) key, b)
             else (0, b\<lparr>restart_points := restart_points b @ [word_of_nat (length (blk_buffer b))], counter := 0\<rparr>));
          non_shared = length key - shared;
          buf = PutVarint32 (blk_buffer b) (word_of_nat shared);
          buf = PutVarint32 buf (word_of_nat non_shared);
          buf = PutVarint32 buf (word_of_nat (length val))
      in b\<lparr>blk_buffer := buf @ drop shared key @ val,
           last_key := take shared (last_key b) @ drop shared key,
           counter := counter b + 1\<rparr>)"

section \<open>Block\<close>

text \<open>\<open>bsize\<close> is 0 for contents that cannot be a block; then \<open>restart_offset_\<close> is not initialised.\<close>

record Block =
  bdata :: slice
  bsize :: nat
  restart_offset :: nat

definition wrap32 :: "nat \<Rightarrow> nat" where
  "wrap32 n = n mod 2 ^ 32"

definition NumRestarts :: "slice \<Rightarrow> nat \<Rightarrow> nat" where
  "NumRestarts d n = unat (DecodeFixed32 (drop (n - 4) d))"

definition new_Block :: "slice \<Rightarrow> Block" where
  "new_Block contents =
     (let n = length contents in
      if n < 4 then \<lparr>bdata = contents, bsize = 0, restart_offset = 0\<rparr>
      else
        let max_restarts_allowed = (n - 4) div 4 in
        if NumRestarts contents n > max_restarts_allowed then \<lparr>bdata = contents, bsize = 0, restart_offset = 0\<rparr>
        else \<lparr>bdata = contents, bsize = n, restart_offset = wrap32 (n - (1 + NumRestarts contents n) * 4)\<rparr>)"

text \<open>
  \<open>DecodeEntry\<close> on the bytes from \<open>p\<close> to \<open>limit\<close>: the three lengths and the bytes behind them. The sum in
  the last test is one of 32-bit numbers and may wrap.
\<close>

definition entry_lengths :: "byte list \<Rightarrow> (u32 \<times> u32 \<times> u32 \<times> byte list) option" where
  "entry_lengths p =
     (case GetVarint32Ptr p of None \<Rightarrow> None | Some (shared, p) \<Rightarrow>
      case GetVarint32Ptr p of None \<Rightarrow> None | Some (non_shared, p) \<Rightarrow>
      case GetVarint32Ptr p of None \<Rightarrow> None | Some (value_length, p) \<Rightarrow> Some (shared, non_shared, value_length, p))"

definition DecodeEntry :: "byte list \<Rightarrow> (u32 \<times> u32 \<times> u32 \<times> byte list) option" where
  "DecodeEntry p =
     (if length p < 3 then None
      else
        let shared = ucast (p ! 0); non_shared = ucast (p ! 1); value_length = ucast (p ! 2) in
        case (if (shared OR non_shared OR value_length) < 128 then Some (shared, non_shared, value_length, drop 3 p)
              else entry_lengths p) of
          None \<Rightarrow> None
        | Some (shared, non_shared, value_length, p) \<Rightarrow>
            if word_of_nat (length p) < non_shared + value_length then None
            else Some (shared, non_shared, value_length, p))"

section \<open>Iterator\<close>

text \<open>
  Offsets are natural numbers that are kept below \<open>2 ^ 32\<close> where the code assigns them to \<open>uint32_t\<close>. The slice
  \<open>value_\<close> is its offset in the data and its length; \<open>clear\<close> makes it empty and it is not used
  before it is set again. Reading past the end of the data is undefined in C++; here it stops at the end.
\<close>

record block_iter =
  idata :: slice
  irestarts :: nat
  num_restarts :: nat
  current :: nat
  restart_index :: nat
  ikey :: "byte list"
  value_at :: nat
  value_len :: nat
  istatus :: status

definition NextEntryOffset :: "block_iter \<Rightarrow> nat" where
  "NextEntryOffset it = wrap32 (value_at it + value_len it)"

definition GetRestartPoint :: "block_iter \<Rightarrow> nat \<Rightarrow> nat" where
  "GetRestartPoint it index = unat (DecodeFixed32 (drop (irestarts it + index * 4) (idata it)))"

definition SeekToRestartPoint :: "block_iter \<Rightarrow> nat \<Rightarrow> block_iter" where
  "SeekToRestartPoint it index =
     it\<lparr>ikey := [], restart_index := index, value_at := GetRestartPoint it index, value_len := 0\<rparr>"

definition new_Iter :: "slice \<Rightarrow> nat \<Rightarrow> nat \<Rightarrow> block_iter" where
  "new_Iter d restarts n =
     \<lparr>idata = d, irestarts = restarts, num_restarts = n, current = restarts, restart_index = n, ikey = [],
      value_at = 0, value_len = 0, istatus = OK\<rparr>"

definition Iter_Valid :: "block_iter \<Rightarrow> bool" where
  "Iter_Valid it \<longleftrightarrow> current it < irestarts it"

definition Iter_key :: "block_iter \<Rightarrow> slice" where
  "Iter_key it = ikey it"

definition Iter_value :: "block_iter \<Rightarrow> slice" where
  "Iter_value it = take (value_len it) (drop (value_at it) (idata it))"

definition CorruptionError :: "block_iter \<Rightarrow> block_iter" where
  "CorruptionError it =
     it\<lparr>current := irestarts it, restart_index := num_restarts it,
        istatus := Corruption (str ''bad entry in block'') [], ikey := [], value_at := 0, value_len := 0\<rparr>"

text \<open>
  The loop at the end of \<open>ParseNextKey\<close>. \<open>restart_index_\<close> is a valid index when it starts, and stays one, so adding 1
  does not wrap.
\<close>

function advance_restart :: "block_iter \<Rightarrow> block_iter" where
  "advance_restart it =
     (if restart_index it + 1 < num_restarts it \<and> GetRestartPoint it (restart_index it + 1) < current it
      then advance_restart (it\<lparr>restart_index := restart_index it + 1\<rparr>) else it)"
  by pat_completeness auto
termination
  by (relation "measure (\<lambda>it. num_restarts it - restart_index it)") auto

declare advance_restart.simps [simp del]

definition ParseNextKey :: "block_iter \<Rightarrow> bool \<times> block_iter" where
  "ParseNextKey it =
     (let it = it\<lparr>current := NextEntryOffset it\<rparr> in
      if current it \<ge> irestarts it
      then (False, it\<lparr>current := irestarts it, restart_index := num_restarts it\<rparr>)
      else
        case DecodeEntry (drop (current it) (take (irestarts it) (idata it))) of
          None \<Rightarrow> (False, CorruptionError it)
        | Some (shared, non_shared, value_length, p) \<Rightarrow>
            if length (ikey it) < unat shared then (False, CorruptionError it)
            else
              let at = irestarts it - length p in
              (True, advance_restart
                 (it\<lparr>ikey := take (unat shared) (ikey it) @ take (unat non_shared) (drop at (idata it)),
                     value_at := at + unat non_shared, value_len := unat value_length\<rparr>)))"

definition Iter_Next :: "block_iter \<Rightarrow> block_iter" where
  "Iter_Next it = snd (ParseNextKey it)"

text \<open>The three loops that parse entries until a condition fails; on damaged blocks they need not end.\<close>

partial_function (option) parse_while :: "(block_iter \<Rightarrow> bool) \<Rightarrow> block_iter \<Rightarrow> block_iter option" where
  "parse_while cond it =
     (case ParseNextKey it of (found, it) \<Rightarrow> if found \<and> cond it then parse_while cond it else Some it)"

text \<open>The first loop of \<open>Prev\<close>; \<open>None\<close> if it comes to the front of the restart points.\<close>

fun back_restart :: "block_iter \<Rightarrow> nat \<Rightarrow> nat \<Rightarrow> nat option" where
  "back_restart it original 0 = (if GetRestartPoint it 0 \<ge> original then None else Some 0)"
| "back_restart it original (Suc i) =
     (if GetRestartPoint it (Suc i) \<ge> original then back_restart it original i else Some (Suc i))"

definition Iter_Prev :: "block_iter \<Rightarrow> block_iter option" where
  "Iter_Prev it =
     (let original = current it in
      case back_restart it original (restart_index it) of
        None \<Rightarrow> Some (it\<lparr>current := irestarts it, restart_index := num_restarts it\<rparr>)
      | Some i \<Rightarrow> parse_while (\<lambda>it. NextEntryOffset it < original) (SeekToRestartPoint it i))"

text \<open>The bisection of \<open>Seek\<close>: the index it ends with, or \<open>Inl\<close> if it meets a damaged entry.\<close>

partial_function (option) bisect_restarts ::
  "(slice \<Rightarrow> slice \<Rightarrow> int) \<Rightarrow> block_iter \<Rightarrow> slice \<Rightarrow> nat \<Rightarrow> nat \<Rightarrow> (unit + nat) option" where
  "bisect_restarts cmp it target left right =
     (if left < right then
        let mid = wrap32 (left + right + 1) div 2;
            region_offset = GetRestartPoint it mid
        in case DecodeEntry (drop region_offset (take (irestarts it) (idata it))) of
             None \<Rightarrow> Some (Inl ())
           | Some (shared, non_shared, value_length, p) \<Rightarrow>
               if shared \<noteq> 0 then Some (Inl ())
               else
                 let mid_key = take (unat non_shared) (drop (irestarts it - length p) (idata it)) in
                 if cmp mid_key target < 0 then bisect_restarts cmp it target mid right
                 else bisect_restarts cmp it target left (mid - 1)
      else Some (Inr left))"

definition Iter_Seek :: "(slice \<Rightarrow> slice \<Rightarrow> int) \<Rightarrow> block_iter \<Rightarrow> slice \<Rightarrow> block_iter option" where
  "Iter_Seek cmp it target =
     (case bisect_restarts cmp it target 0 (num_restarts it - 1) of
        None \<Rightarrow> None
      | Some (Inl _) \<Rightarrow> Some (CorruptionError it)
      | Some (Inr left) \<Rightarrow> parse_while (\<lambda>it. \<not> cmp (ikey it) target \<ge> 0) (SeekToRestartPoint it left))"

definition Iter_SeekToFirst :: "block_iter \<Rightarrow> block_iter" where
  "Iter_SeekToFirst it = snd (ParseNextKey (SeekToRestartPoint it 0))"

definition Iter_SeekToLast :: "block_iter \<Rightarrow> block_iter option" where
  "Iter_SeekToLast it =
     parse_while (\<lambda>it. NextEntryOffset it < irestarts it) (SeekToRestartPoint it (num_restarts it - 1))"

text \<open>\<open>NewIterator\<close> returns an iterator that only has an error status, an empty one, or one on the block.\<close>

datatype new_iterator = NewErrorIterator status | NewEmptyIterator | NewIter block_iter

definition NewIterator :: "Block \<Rightarrow> new_iterator" where
  "NewIterator b =
     (if bsize b < 4 then NewErrorIterator (Corruption (str ''bad block contents'') [])
      else if NumRestarts (bdata b) (bsize b) = 0 then NewEmptyIterator
      else NewIter (new_Iter (bdata b) (restart_offset b) (NumRestarts (bdata b) (bsize b))))"

end
