(* ===== verification/Ldb_Block_Proofs.thy ===== *)
theory Ldb_Block_Proofs
  imports Ldb_Block
begin

unbundle bit_operations_syntax

text \<open>
  Blocks are correct: the iterator on the bytes the builder makes is an iterator over the entries that were added. The
  two decoding paths of \<open>DecodeEntry\<close> agree; every operation of the iterator is followed entry by entry; bisection
  finds a restart point from which a linear search may start. The result is stated with the locale \<open>iterator_over\<close>.
\<close>

section \<open>Entries\<close>

lemma GetVarint32Ptr_Encode [simp]: "GetVarint32Ptr (EncodeVarint32 v @ rest) = Some (v, rest)"
  using varint32_codec.get_put [of v rest] by (simp add: GetVarint32_def)

lemma less_128_iff: "w < 128 \<longleftrightarrow> drop_bit 7 w = 0" for w :: u32
proof -
  have "drop_bit 7 w = 0 \<longleftrightarrow> unat w div 128 = 0"
    unfolding word_unat_eq_iff [of "drop_bit 7 w"] unat_drop_bit_eq by (simp add: drop_bit_eq_div)
  then show ?thesis by (simp add: word_less_nat_alt div_eq_0_iff)
qed

lemma or_less_128: "a OR b < 128 \<longleftrightarrow> a < 128 \<and> b < 128" for a b :: u32
  by (simp add: less_128_iff drop_bit_or or_eq_0_iff)

lemma small_byte:
  assumes "(ucast b :: u32) < 128"
  shows "GetVarint32Ptr (b # r) = Some (ucast b, r)"
proof -
  have "bit (ucast b :: u32) 7 = bit (drop_bit 7 (ucast b :: u32)) 0" by (simp add: bit_drop_bit_eq)
  then have "\<not> bit (ucast b :: u32) 7" using assms by (simp add: less_128_iff)
  then have "(ucast b :: u32) AND 2 ^ 7 = 0" by (simp only: and_exp_eq_0_iff_not_bit) simp
  then show ?thesis by (simp add: GetVarint32Ptr_def)
qed

text \<open>The fast path of \<open>DecodeEntry\<close> gives what the slow one would.\<close>

lemma DecodeEntry_slow:
  assumes "3 \<le> length p"
  shows "DecodeEntry p = (case entry_lengths p of None \<Rightarrow> None
    | Some (s, n, l, q) \<Rightarrow> if word_of_nat (length q) < n + l then None else Some (s, n, l, q))"
proof -
  obtain a b c r where p: "p = a # b # c # r"
    using assms by (metis Suc_le_length_iff numeral_3_eq_3)
  show ?thesis
  proof (cases "(ucast a OR ucast b OR ucast c :: u32) < 128")
    case True
    then have "(ucast a :: u32) < 128" "(ucast b :: u32) < 128" "(ucast c :: u32) < 128"
      by (simp_all add: or_less_128)
    then have "entry_lengths p = Some (ucast a, ucast b, ucast c, r)" by (simp add: p entry_lengths_def small_byte)
    with True show ?thesis by (simp add: DecodeEntry_def p Let_def)
  next
    case False
    then show ?thesis by (simp add: DecodeEntry_def p Let_def)
  qed
qed

text \<open>Entries as they are stored: the number of bytes shared with the key before, the key and the value.\<close>

type_synonym entry = "nat \<times> slice \<times> slice"

abbreviation ent_key :: "entry \<Rightarrow> slice" where
  "ent_key e \<equiv> fst (snd e)"

abbreviation ent_val :: "entry \<Rightarrow> slice" where
  "ent_val e \<equiv> snd (snd e)"

definition ent_header :: "entry \<Rightarrow> byte list" where
  "ent_header e = EncodeVarint32 (word_of_nat (fst e)) @ EncodeVarint32 (word_of_nat (length (ent_key e) - fst e)) @
     EncodeVarint32 (word_of_nat (length (ent_val e)))"

definition ent_bytes :: "entry \<Rightarrow> byte list" where
  "ent_bytes e = ent_header e @ drop (fst e) (ent_key e) @ ent_val e"

definition ents_bytes :: "entry list \<Rightarrow> byte list" where
  "ents_bytes T = concat (map ent_bytes T)"

definition ent_off :: "entry list \<Rightarrow> nat \<Rightarrow> nat" where
  "ent_off T i = length (ents_bytes (take i T))"

text \<open>Each key continues the one before.\<close>

primrec chained :: "slice \<Rightarrow> entry list \<Rightarrow> bool" where
  "chained p [] = True"
| "chained p (e # T) = (fst e \<le> length p \<and> fst e \<le> length (ent_key e) \<and> take (fst e) p = take (fst e) (ent_key e) \<and>
     chained (ent_key e) T)"

lemma EncodeVarint32_length: "1 \<le> length (EncodeVarint32 v)"
  by (simp add: EncodeVarint32_def)

lemma ent_header_length: "3 \<le> length (ent_header e)"
  using EncodeVarint32_length [of "word_of_nat (fst e)"] EncodeVarint32_length [of "word_of_nat (length (ent_key e) - fst e)"]
    EncodeVarint32_length [of "word_of_nat (length (ent_val e))"] unfolding ent_header_def length_append by linarith

lemma ent_off_0 [simp]: "ent_off T 0 = 0"
  by (simp add: ent_off_def ents_bytes_def)

lemma ent_off_all: "length T \<le> i \<Longrightarrow> ent_off T i = length (ents_bytes T)"
  by (simp add: ent_off_def)

lemma ent_off_append: "i \<le> length T \<Longrightarrow> ent_off (T @ U) i = ent_off T i"
  by (simp add: ent_off_def)

lemma ents_bytes_drop: "drop (ent_off T i) (ents_bytes T) = ents_bytes (drop i T)"
proof -
  have "ents_bytes T = ents_bytes (take i T) @ ents_bytes (drop i T)"
    unfolding ents_bytes_def by (metis append_take_drop_id concat_append map_append)
  then show ?thesis by (simp add: ent_off_def)
qed

lemma ent_off_Suc: "i < length T \<Longrightarrow> ent_off T (Suc i) = ent_off T i + length (ent_bytes (T ! i))"
  by (simp add: ent_off_def ents_bytes_def take_Suc_conv_app_nth)

lemma ent_bytes_pos: "0 < length (ent_bytes e)"
  using ent_header_length [of e] unfolding ent_bytes_def length_append by linarith

lemma ent_off_less: "i < j \<Longrightarrow> j \<le> length T \<Longrightarrow> ent_off T i < ent_off T j"
proof (induction j)
  case (Suc j)
  then show ?case
    using ent_off_Suc [of j T] ent_bytes_pos [of "T ! j"] by (cases "i = j") (auto simp: less_Suc_eq)
qed simp

lemma ent_off_le: "i \<le> j \<Longrightarrow> j \<le> length T \<Longrightarrow> ent_off T i \<le> ent_off T j"
  using ent_off_less [of i j T] by (cases "i = j") auto

lemma ent_off_less_iff: "i \<le> length T \<Longrightarrow> j \<le> length T \<Longrightarrow> ent_off T i < ent_off T j \<longleftrightarrow> i < j"
  using ent_off_less [of i j T] ent_off_le [of j i T] by (meson leD not_le_imp_less)

lemma chained_append: "chained p (T @ [e]) \<longleftrightarrow> chained p T \<and> chained (if T = [] then p else ent_key (last T)) [e]"
  by (induction T arbitrary: p) auto

lemma chained_nth:
  "chained p T \<Longrightarrow> i < length T \<Longrightarrow> fst (T ! i) \<le> length (ent_key (T ! i)) \<and>
   (let q = (if i = 0 then p else ent_key (T ! (i - 1))) in
    fst (T ! i) \<le> length q \<and> take (fst (T ! i)) q = take (fst (T ! i)) (ent_key (T ! i)))"
proof (induction T arbitrary: p i)
  case (Cons e T)
  then show ?case by (cases i) (force simp: Let_def nth_Cons split: nat.splits if_splits)+
qed simp

lemma ent_key_length: "chained [] T \<Longrightarrow> i < length T \<Longrightarrow> length (ent_key (T ! i)) \<le> ent_off T (Suc i)"
proof (induction i)
  case 0
  then show ?case using chained_nth [OF 0] ent_off_Suc [of 0 T] by (simp add: ent_bytes_def)
next
  case (Suc i)
  then show ?case using chained_nth [OF Suc.prems] ent_off_Suc [of "Suc i" T] by (auto simp: Let_def ent_bytes_def)
qed

lemma DecodeEntry_bytes:
  assumes "fst e \<le> length (ent_key e)" and "length (ent_bytes e @ y) < 2 ^ 32" and "fst e < 2 ^ 32"
  shows "DecodeEntry (ent_bytes e @ y) = Some (word_of_nat (fst e), word_of_nat (length (ent_key e) - fst e),
    word_of_nat (length (ent_val e)), drop (fst e) (ent_key e) @ ent_val e @ y)"
proof -
  let ?q = "drop (fst e) (ent_key e) @ ent_val e @ y"
  have "entry_lengths (ent_bytes e @ y) = Some (word_of_nat (fst e), word_of_nat (length (ent_key e) - fst e),
      word_of_nat (length (ent_val e)), ?q)"
    by (simp add: entry_lengths_def ent_bytes_def ent_header_def)
  moreover have "\<not> (word_of_nat (length ?q) :: u32) < word_of_nat (length (ent_key e) - fst e) + word_of_nat (length (ent_val e))"
  proof -
    have "length ?q < 2 ^ 32" using assms(2) by (simp add: ent_bytes_def)
    then have "unat (word_of_nat (length ?q) :: u32) = length ?q"
      "unat (word_of_nat (length (ent_key e) - fst e + length (ent_val e)) :: u32) = length (ent_key e) - fst e + length (ent_val e)"
      by (simp_all only: unat_of_nat) (simp_all add: assms(1))
    then show ?thesis by (simp only: word_less_nat_alt flip: of_nat_add) simp
  qed
  moreover have "3 \<le> length (ent_bytes e @ y)" using ent_header_length [of e] by (simp add: ent_bytes_def)
  ultimately show ?thesis by (simp only: DecodeEntry_slow option.case prod.case if_False)
qed

section \<open>The contents of a block\<close>

text \<open>Entries \<open>T\<close>, restart points at the entries \<open>J\<close>.\<close>

definition block_of :: "entry list \<Rightarrow> nat list \<Rightarrow> byte list" where
  "block_of T J = ents_bytes T @ concat (map (\<lambda>j. EncodeFixed32 (word_of_nat (ent_off T j))) J) @
     EncodeFixed32 (word_of_nat (length J))"

definition block_ok :: "entry list \<Rightarrow> nat list \<Rightarrow> bool" where
  "block_ok T J \<longleftrightarrow> chained [] T \<and> length (block_of T J) < 2 ^ 32 \<and> J \<noteq> [] \<and> J ! 0 = 0 \<and>
     (if T = [] then J = [0] else \<forall>j \<in> set J. j < length T \<and> fst (T ! j) = 0)"

lemma block_ok_restart: "block_ok T J \<Longrightarrow> i < length J \<Longrightarrow> J ! i \<le> length T \<and> (J ! i < length T \<longrightarrow> fst (T ! (J ! i)) = 0)"
  using nth_mem [of i J] by (auto simp: block_ok_def less_imp_le split: if_splits)

lemma block_ok_restart_less: "block_ok T J \<Longrightarrow> i < length J \<Longrightarrow> T \<noteq> [] \<Longrightarrow> J ! i < length T"
  by (auto simp: block_ok_def split: if_splits)

lemma block_length: "length (block_of T J) = length (ents_bytes T) + 4 * length J + 4"
  by (simp add: block_of_def length_concat_fixed)

lemma ent_off_bound: "block_ok T J \<Longrightarrow> i \<le> length T \<Longrightarrow> ent_off T i \<le> length (ents_bytes T) \<and> length (ents_bytes T) < 2 ^ 32"
  using ent_off_le [of i "length T" T] by (simp add: ent_off_all block_ok_def block_length)

lemma drop_block:
  assumes "i < length T"
  shows "drop (ent_off T i) (take (length (ents_bytes T)) (block_of T J)) = ent_bytes (T ! i) @ ents_bytes (drop (Suc i) T)"
    and "\<exists>r. drop (ent_off T i) (block_of T J) = ent_bytes (T ! i) @ ents_bytes (drop (Suc i) T) @ r"
proof -
  have d: "ents_bytes (drop i T) = ent_bytes (T ! i) @ ents_bytes (drop (Suc i) T)"
    by (simp add: ents_bytes_def Cons_nth_drop_Suc [OF assms, symmetric])
  show "drop (ent_off T i) (take (length (ents_bytes T)) (block_of T J)) = ent_bytes (T ! i) @ ents_bytes (drop (Suc i) T)"
    by (simp add: block_of_def ents_bytes_drop d)
  have "ent_off T i \<le> length (ents_bytes T)" using ent_off_le [of i "length T" T] assms by (simp add: ent_off_all)
  then show "\<exists>r. drop (ent_off T i) (block_of T J) = ent_bytes (T ! i) @ ents_bytes (drop (Suc i) T) @ r"
    by (auto simp: block_of_def ents_bytes_drop d)
qed

lemma decode_at:
  assumes ok: "block_ok T J" and i: "i < length T" and e: "T ! i = (s, k, v)"
  obtains p where "DecodeEntry (drop (ent_off T i) (take (length (ents_bytes T)) (block_of T J))) =
      Some (word_of_nat s, word_of_nat (length k - s), word_of_nat (length v), p)"
    "length (ents_bytes T) - length p + (length k - s) + length v = ent_off T (Suc i)"
    "\<exists>r. drop (length (ents_bytes T) - length p) (block_of T J) = drop s k @ v @ r"
    "unat (word_of_nat s :: u32) = s" "unat (word_of_nat (length k - s) :: u32) = length k - s"
    "unat (word_of_nat (length v) :: u32) = length v"
proof -
  let ?R = "length (ents_bytes T)" and ?D = "block_of T J" and ?y = "ents_bytes (drop (Suc i) T)"
  let ?p = "drop s k @ v @ ?y"
  define h where "h = length (ent_header (T ! i))"
  have len: "?R = ent_off T i + length (ent_bytes (T ! i) @ ?y)"
    using arg_cong [OF drop_block(1) [OF i, of J], of length] ent_off_bound [OF ok, of i] i
    by (auto simp: block_length)
  have R: "?R < 2 ^ 32" using ent_off_bound [OF ok, of i] i by simp
  have ch: "s \<le> length k" "s < 2 ^ 32"
    using ok chained_nth [of "[]" T i] ent_key_length [of T i] ent_off_bound [OF ok, of "Suc i"] i e
    by (auto simp: block_ok_def Let_def)
  have at: "?R - length ?p = ent_off T i + h"
    using len by (simp add: h_def ent_bytes_def e)
  obtain r where "drop (ent_off T i) ?D = ent_bytes (T ! i) @ ?y @ r" using drop_block(2) [OF i] by blast
  then have dat: "drop (ent_off T i + h) ?D = drop s k @ v @ ?y @ r"
    unfolding add.commute [of _ h] drop_drop [symmetric] by (simp add: h_def ent_bytes_def e)
  show ?thesis
  proof (rule that [of ?p])
    show "DecodeEntry (drop (ent_off T i) (take ?R ?D)) =
        Some (word_of_nat s, word_of_nat (length k - s), word_of_nat (length v), ?p)"
      unfolding drop_block(1) [OF i] using DecodeEntry_bytes [of "T ! i" ?y] ch len R by (simp add: e)
    show "?R - length ?p + (length k - s) + length v = ent_off T (Suc i)"
      using ent_off_Suc [OF i] unfolding at by (simp add: h_def ent_bytes_def e)
    show "\<exists>r. drop (?R - length ?p) ?D = drop s k @ v @ r" unfolding at using dat by blast
    show "unat (word_of_nat s :: u32) = s" "unat (word_of_nat (length k - s) :: u32) = length k - s"
      "unat (word_of_nat (length v) :: u32) = length v"
      using ch len R by (simp_all only: unat_of_nat) (simp_all add: ent_bytes_def e)
  qed
qed

section \<open>The iterator, entry by entry\<close>

text \<open>\<open>ready i\<close>: entry \<open>i\<close> comes next; \<open>standing i\<close>: it is the current one.\<close>

definition on_block :: "entry list \<Rightarrow> nat list \<Rightarrow> block_iter \<Rightarrow> bool" where
  "on_block T J it \<longleftrightarrow> idata it = block_of T J \<and> irestarts it = length (ents_bytes T) \<and> num_restarts it = length J \<and>
     istatus it = OK"

definition ready :: "entry list \<Rightarrow> nat list \<Rightarrow> nat \<Rightarrow> block_iter \<Rightarrow> bool" where
  "ready T J i it \<longleftrightarrow> on_block T J it \<and> restart_index it < length J \<and> i \<le> length T \<and> value_at it + value_len it = ent_off T i \<and>
     (i < length T \<longrightarrow> fst (T ! i) \<le> length (ikey it) \<and> take (fst (T ! i)) (ikey it) = take (fst (T ! i)) (ent_key (T ! i)))"

definition standing :: "entry list \<Rightarrow> nat list \<Rightarrow> nat \<Rightarrow> block_iter \<Rightarrow> bool" where
  "standing T J i it \<longleftrightarrow> on_block T J it \<and> restart_index it < length J \<and> i < length T \<and> current it = ent_off T i \<and>
     Iter_key it = ent_key (T ! i) \<and> Iter_value it = ent_val (T ! i) \<and> value_at it + value_len it = ent_off T (Suc i)"

definition at_end :: "entry list \<Rightarrow> nat list \<Rightarrow> block_iter \<Rightarrow> bool" where
  "at_end T J it \<longleftrightarrow> on_block T J it \<and> current it = irestarts it"

lemma advance_restart_frame:
  "\<exists>r. advance_restart it = it\<lparr>restart_index := r\<rparr> \<and> (restart_index it < num_restarts it \<longrightarrow> r < num_restarts it)"
proof (induction it rule: advance_restart.induct)
  case (1 it)
  show ?case
  proof (cases "restart_index it + 1 < num_restarts it \<and> GetRestartPoint it (restart_index it + 1) < current it")
    case True
    with 1 [OF True] show ?thesis by (auto simp: advance_restart.simps [of it])
  next
    case False
    then have "advance_restart it = it" by (subst advance_restart.simps) (simp only: if_False)
    then show ?thesis by (intro exI [of _ "restart_index it"]) simp
  qed
qed

lemma parse_end:
  assumes "block_ok T J" and "ready T J (length T) it"
  shows "\<exists>it'. ParseNextKey it = (False, it') \<and> at_end T J it'"
proof -
  have "wrap32 (length (ents_bytes T)) = length (ents_bytes T)"
    using ent_off_bound [OF assms(1), of "length T"] by (simp add: wrap32_def)
  then show ?thesis
    using assms(2) by (simp add: ParseNextKey_def NextEntryOffset_def ready_def on_block_def at_end_def ent_off_all)
qed

lemma parse_entry:
  assumes ok: "block_ok T J" and it: "ready T J i it" and i: "i < length T"
  shows "\<exists>it'. ParseNextKey it = (True, it') \<and> standing T J i it'"
proof -
  obtain s k v where e: "T ! i = (s, k, v)" by (cases "T ! i")
  let ?R = "length (ents_bytes T)" and ?D = "block_of T J"
  obtain p where dec: "DecodeEntry (drop (ent_off T i) (take ?R ?D)) =
      Some (word_of_nat s, word_of_nat (length k - s), word_of_nat (length v), p)"
    and end_off: "?R - length p + (length k - s) + length v = ent_off T (Suc i)"
    and dat: "\<exists>r. drop (?R - length p) ?D = drop s k @ v @ r"
    and small: "unat (word_of_nat s :: u32) = s" "unat (word_of_nat (length k - s) :: u32) = length k - s"
      "unat (word_of_nat (length v) :: u32) = length v"
    using decode_at [OF ok i e] .
  have w: "wrap32 (ent_off T i) = ent_off T i" using ent_off_bound [OF ok, of i] i by (simp add: wrap32_def)
  have lt: "ent_off T i < ?R" using ent_off_less [of i "length T" T] i by (simp add: ent_off_all)
  let ?it = "it\<lparr>current := ent_off T i, ikey := k, value_at := ?R - length p + (length k - s), value_len := length v\<rparr>"
  have key: "s \<le> length (ikey it)" "take s (ikey it) @ drop s k = k"
    using it i e by (auto simp: ready_def)
  have "ParseNextKey it = (True, advance_restart ?it)"
    using it w lt dec key dat unfolding ready_def on_block_def
    by (auto simp: ParseNextKey_def NextEntryOffset_def Let_def small)
  moreover obtain r where "advance_restart ?it = ?it\<lparr>restart_index := r\<rparr>" "r < length J"
    using advance_restart_frame [of ?it] it by (auto simp: ready_def on_block_def)
  moreover from dat obtain r where "drop (?R - length p) ?D = drop s k @ v @ r" by blast
  then have "drop (?R - length p + (length k - s)) ?D = v @ r"
    unfolding add.commute [of _ "length k - s"] drop_drop [symmetric] by simp
  then have "Iter_value (?it\<lparr>restart_index := r\<rparr>) = v" for r
    using it by (simp add: Iter_value_def ready_def on_block_def)
  ultimately show ?thesis
    using it i e end_off by (auto simp: standing_def ready_def on_block_def Iter_key_def)
qed

lemma standing_ready:
  assumes "block_ok T J" and "standing T J i it"
  shows "ready T J (Suc i) it"
  using assms chained_nth [of "[]" T "Suc i"]
  by (auto simp: standing_def ready_def block_ok_def Iter_key_def Let_def)

lemma GetRestartPoint_block:
  assumes "block_ok T J" and "on_block T J it" and "i < length J"
  shows "GetRestartPoint it i = ent_off T (J ! i)"
proof -
  have "J ! i \<le> length T" using block_ok_restart [OF assms(1,3)] by simp
  then have "unat (word_of_nat (ent_off T (J ! i)) :: u32) = ent_off T (J ! i)"
    using ent_off_bound [OF assms(1), of "J ! i"] by (simp add: unat_of_nat)
  moreover have "drop (length (ents_bytes T) + i * 4) (block_of T J) =
      drop (i * 4) (concat (map (\<lambda>j. EncodeFixed32 (word_of_nat (ent_off T j))) J) @ EncodeFixed32 (word_of_nat (length J)))"
    by (simp add: block_of_def)
  ultimately show ?thesis
    using assms(2,3) by (simp only: GetRestartPoint_def on_block_def drop_concat_fixed DecodeFixed32_encode)
qed

lemma restart_ready:
  assumes "block_ok T J" and "on_block T J it" and "i < length J"
  shows "ready T J (J ! i) (SeekToRestartPoint it i)"
  using assms GetRestartPoint_block [OF assms] block_ok_restart [OF assms(1,3)]
  by (auto simp: SeekToRestartPoint_def ready_def on_block_def)

text \<open>Where an operation leads: to an entry or to the end.\<close>

definition moved :: "entry list \<Rightarrow> nat list \<Rightarrow> nat option \<Rightarrow> block_iter \<Rightarrow> bool" where
  "moved T J x it \<longleftrightarrow> (case x of None \<Rightarrow> at_end T J it | Some i \<Rightarrow> standing T J i it)"

lemma parse_moved:
  assumes "block_ok T J" and "ready T J i it"
  shows "moved T J (if i < length T then Some i else None) (snd (ParseNextKey it))"
  using assms parse_entry [OF assms] parse_end [OF assms(1), of it]
  by (cases "i < length T") (auto simp: moved_def ready_def)

lemma Next_moved:
  assumes "block_ok T J" and "standing T J i it"
  shows "moved T J (if Suc i < length T then Some (Suc i) else None) (Iter_Next it)"
  unfolding Iter_Next_def by (rule parse_moved [OF assms(1) standing_ready [OF assms]])

lemma SeekToFirst_moved:
  assumes "block_ok T J" and "on_block T J it"
  shows "moved T J (if T = [] then None else Some 0) (Iter_SeekToFirst it)"
  using parse_moved [OF assms(1) restart_ready [OF assms, of 0]] assms(1)
  by (auto simp: Iter_SeekToFirst_def block_ok_def split: if_splits)

text \<open>The parsing loops stop at the first entry for which the condition fails, or at the end.\<close>

lemma parse_while_moved:
  assumes ok: "block_ok T J" and it: "ready T J i it"
    and cond: "\<And>j it. standing T J j it \<Longrightarrow> i \<le> j \<Longrightarrow> cond it \<longleftrightarrow> P j"
  shows "\<exists>it'. parse_while cond it = Some it' \<and> moved T J (find (\<lambda>j. \<not> P j) [i..<length T]) it'"
  using it cond
proof (induction "length T - i" arbitrary: i it)
  case 0
  then have "i = length T" by (simp add: ready_def)
  with parse_end [OF ok] 0(2) obtain it' where "ParseNextKey it = (False, it')" "at_end T J it'" by blast
  with \<open>i = length T\<close> show ?case by (simp add: parse_while.simps [of cond it] moved_def)
next
  case (Suc n)
  then have i: "i < length T" by simp
  from parse_entry [OF ok Suc.prems(1) i] obtain it1 where
    p: "ParseNextKey it = (True, it1)" and st: "standing T J i it1" by blast
  have cond1: "cond it1 \<longleftrightarrow> P i" using Suc.prems(2) [OF st] by simp
  have upt: "[i..<length T] = i # [Suc i..<length T]" using i by (simp add: upt_conv_Cons)
  show ?case
  proof (cases "P i")
    case True
    have "\<exists>it'. parse_while cond it1 = Some it' \<and> moved T J (find (\<lambda>j. \<not> P j) [Suc i..<length T]) it'"
      using Suc.hyps(2) Suc.prems(2) by (intro Suc.hyps(1) standing_ready [OF ok st]) auto
    then show ?thesis using p cond1 True by (simp add: parse_while.simps [of cond it] upt)
  next
    case False
    then show ?thesis using p cond1 st by (simp add: parse_while.simps [of cond it] upt moved_def)
  qed
qed

lemma find_upt_pred: "q < i \<Longrightarrow> i \<le> n \<Longrightarrow> find (\<lambda>j. \<not> Suc j < i) [q..<n] = Some (i - 1)"
proof (induction "i - q" arbitrary: q)
  case (Suc m)
  then have "[q..<n] = q # [Suc q..<n]" by (simp add: upt_conv_Cons)
  with Suc show ?case by (cases "Suc q < i") auto
qed simp

lemma find_skip: "\<forall>j < i. P j \<Longrightarrow> i \<le> n \<Longrightarrow> find (\<lambda>j. \<not> P j) [i..<n] = find (\<lambda>j. \<not> P j) [0..<n]"
proof (induction i)
  case (Suc i)
  then have "[i..<n] = i # [Suc i..<n]" by (simp add: upt_conv_Cons)
  with Suc show ?case by simp
qed simp

lemma next_less:
  assumes "block_ok T J" and "standing T J j it" and "i \<le> length T"
  shows "NextEntryOffset it < ent_off T i \<longleftrightarrow> Suc j < i"
proof -
  have j: "Suc j \<le> length T" using assms(2) by (simp add: standing_def)
  have "NextEntryOffset it = ent_off T (Suc j)"
    using ent_off_bound [OF assms(1) j] assms(2) by (auto simp: NextEntryOffset_def standing_def wrap32_def)
  then show ?thesis using ent_off_less_iff [OF j assms(3)] by simp
qed

lemma SeekToLast_moved:
  assumes "block_ok T J" and "on_block T J it"
  shows "\<exists>it'. Iter_SeekToLast it = Some it' \<and> moved T J (if T = [] then None else Some (length T - 1)) it'"
proof -
  let ?r = "num_restarts it - 1"
  have r: "?r < length J" using assms by (cases J) (auto simp: block_ok_def on_block_def)
  have "\<exists>it'. parse_while (\<lambda>it. NextEntryOffset it < irestarts it) (SeekToRestartPoint it ?r) = Some it' \<and>
      moved T J (find (\<lambda>j. \<not> Suc j < length T) [J ! ?r..<length T]) it'"
  proof (rule parse_while_moved [OF assms(1) restart_ready [OF assms r]])
    fix j it assume "standing T J j it"
    then show "NextEntryOffset it < irestarts it \<longleftrightarrow> Suc j < length T"
      using next_less [OF assms(1), of j it "length T"] by (simp add: standing_def on_block_def ent_off_all)
  qed
  then show ?thesis
    using block_ok_restart_less [OF assms(1) r] by (cases "T = []") (auto simp: Iter_SeekToLast_def find_upt_pred)
qed

lemma back_restart_spec:
  assumes "block_ok T J" and "on_block T J it" and "r < length J" and "i \<le> length T"
  shows "case back_restart it (ent_off T i) r of None \<Rightarrow> i = 0 | Some q \<Rightarrow> q < length J \<and> J ! q < i"
  using assms(3)
proof (induction r)
  case 0
  then show ?case
    using GetRestartPoint_block [OF assms(1,2) 0] ent_off_less_iff [of 0 T i] assms(1,4) by (auto simp: block_ok_def)
next
  case (Suc r)
  then show ?case
    using GetRestartPoint_block [OF assms(1,2) Suc.prems] ent_off_less_iff [of "J ! Suc r" T i] assms(4)
      block_ok_restart [OF assms(1) Suc.prems] by auto
qed

lemma Prev_moved:
  assumes "block_ok T J" and "standing T J i it"
  shows "\<exists>it'. Iter_Prev it = Some it' \<and> moved T J (if i = 0 then None else Some (i - 1)) it'"
proof -
  have on: "on_block T J it" "restart_index it < length J" "i < length T" "current it = ent_off T i"
    using assms(2) by (auto simp: standing_def)
  note b = back_restart_spec [OF assms(1) on(1,2), of i]
  show ?thesis
  proof (cases "back_restart it (ent_off T i) (restart_index it)")
    case None
    with b on show ?thesis by (auto simp: Iter_Prev_def moved_def at_end_def on_block_def)
  next
    case (Some q)
    with b on have q: "q < length J" "J ! q < i" by auto
    have "\<exists>it'. parse_while (\<lambda>it. NextEntryOffset it < ent_off T i) (SeekToRestartPoint it q) = Some it' \<and>
        moved T J (find (\<lambda>j. \<not> Suc j < i) [J ! q..<length T]) it'"
      using on(3) by (intro parse_while_moved [OF assms(1) restart_ready [OF assms(1) on(1) q(1)]] next_less [OF assms(1)]) auto
    with q on Some show ?thesis by (auto simp: Iter_Prev_def Let_def find_upt_pred)
  qed
qed

section \<open>Seek\<close>

lemma bisect_correct:
  assumes ok: "block_ok T J" and on: "on_block T J it" and ne: "T \<noteq> []"
  shows "left \<le> right \<Longrightarrow> right < length J \<Longrightarrow> left = 0 \<or> cmp (ent_key (T ! (J ! left))) target < 0 \<Longrightarrow>
    \<exists>l. bisect_restarts cmp it target left right = Some (Inr l) \<and> l < length J \<and>
      (l = 0 \<or> cmp (ent_key (T ! (J ! l))) target < 0)"
proof (induction "right - left" arbitrary: left right rule: less_induct)
  case less
  show ?case
  proof (cases "left < right")
    case False
    with less.prems show ?thesis by (auto simp: bisect_restarts.simps [of cmp it])
  next
    case True
    define mid where "mid = (left + right + 1) div 2"
    have mid: "left < mid" "mid \<le> right" "mid < length J" using True less.prems(2) by (auto simp: mid_def)
    have "4 * length J < 2 ^ 32" using ok by (simp add: block_ok_def block_length)
    then have w: "wrap32 (left + right + 1) div 2 = mid" using less.prems by (simp add: wrap32_def mid_def)
    have J: "J ! mid < length T" "fst (T ! (J ! mid)) = 0"
      using block_ok_restart_less [OF ok mid(3) ne] block_ok_restart [OF ok mid(3)] by auto
    obtain k v where e: "T ! (J ! mid) = (0, k, v)" using J(2) by (cases "T ! (J ! mid)") auto
    from decode_at [OF ok J(1) e] obtain p r where
      dec: "DecodeEntry (drop (ent_off T (J ! mid)) (take (length (ents_bytes T)) (block_of T J))) =
        Some (word_of_nat 0, word_of_nat (length k - 0), word_of_nat (length v), p)"
      and dat: "drop (length (ents_bytes T) - length p) (block_of T J) = drop 0 k @ v @ r"
      and small: "unat (word_of_nat (length k - 0) :: u32) = length k - 0" by metis
    have step: "bisect_restarts cmp it target left right =
        (if cmp k target < 0 then bisect_restarts cmp it target mid right else bisect_restarts cmp it target left (mid - 1))"
      using True on dec dat small GetRestartPoint_block [OF ok on mid(3)]
      by (subst bisect_restarts.simps) (simp add: w [simplified] Let_def on_block_def)
    show ?thesis
    proof (cases "cmp k target < 0")
      case True
      with less.hyps [of right mid] mid less.prems e step show ?thesis by simp
    next
      case False
      with less.hyps [of "mid - 1" left] mid less.prems step show ?thesis by simp
    qed
  qed
qed

context comparator
begin

lemma restart_before:
  assumes ok: "block_ok T J" and on: "on_block T J it" and v: "\<forall>e \<in> set T. valid (ent_key e)" "valid target"
    and sorted: "sorted_wrt (\<lambda>a b. cmp (ent_key a) (ent_key b) < 0) T"
  shows "\<exists>l. bisect_restarts cmp it target 0 (num_restarts it - 1) = Some (Inr l) \<and> l < length J \<and>
    (\<forall>j < J ! l. cmp (ent_key (T ! j)) target < 0)"
proof (cases "T = []")
  case True
  then have "J = [0]" using ok by (simp add: block_ok_def)
  then show ?thesis using on by (simp add: bisect_restarts.simps [of cmp it] on_block_def)
next
  case False
  let ?P = "\<lambda>j. cmp (ent_key (T ! j)) target < 0"
  have J: "0 < length J" "num_restarts it = length J" "J ! 0 = 0" using ok on by (auto simp: block_ok_def on_block_def)
  obtain l where l: "bisect_restarts cmp it target 0 (num_restarts it - 1) = Some (Inr l)" "l < length J"
    "l = 0 \<or> ?P (J ! l)"
    using bisect_correct [OF ok on False, of 0 "num_restarts it - 1" cmp target] J by auto
  have "?P j" if j: "j < J ! l" for j
  proof -
    have "J ! l < length T" by (rule block_ok_restart_less [OF ok l(2) False])
    with j sorted have "cmp (ent_key (T ! j)) (ent_key (T ! (J ! l))) < 0" by (simp add: sorted_wrt_iff_nth_less)
    moreover have "?P (J ! l)" using l(3) j J(3) by auto
    ultimately show ?thesis using v j \<open>J ! l < length T\<close> cmp_trans by (meson nth_mem order.strict_trans)
  qed
  with l show ?thesis by blast
qed

text \<open>\<open>Seek\<close> stops at the first key that is not before the target.\<close>

lemma Seek_moved:
  assumes ok: "block_ok T J" and on: "on_block T J it" and v: "\<forall>e \<in> set T. valid (ent_key e)" "valid target"
    and sorted: "sorted_wrt (\<lambda>a b. cmp (ent_key a) (ent_key b) < 0) T"
  shows "\<exists>it'. Iter_Seek cmp it target = Some it' \<and>
    moved T J (find (\<lambda>j. \<not> cmp (ent_key (T ! j)) target < 0) [0..<length T]) it'"
proof -
  let ?P = "\<lambda>j. cmp (ent_key (T ! j)) target < 0"
  obtain l where l: "bisect_restarts cmp it target 0 (num_restarts it - 1) = Some (Inr l)" "l < length J"
    "\<forall>j < J ! l. ?P j" using restart_before [OF assms] by blast
  have "\<exists>it'. parse_while (\<lambda>it. \<not> cmp (ikey it) target \<ge> 0) (SeekToRestartPoint it l) = Some it' \<and>
      moved T J (find (\<lambda>j. \<not> ?P j) [J ! l..<length T]) it'"
    by (rule parse_while_moved [OF ok restart_ready [OF ok on l(2)]]) (auto simp: standing_def Iter_key_def)
  then show ?thesis
    using l find_skip [of "J ! l" ?P "length T"] block_ok_restart [OF ok l(2)] by (simp add: Iter_Seek_def)
qed

end

section \<open>The builder\<close>

definition builds :: "BlockBuilder \<Rightarrow> entry list \<Rightarrow> nat list \<Rightarrow> bool" where
  "builds b T J \<longleftrightarrow> blk_buffer b = ents_bytes T \<and> restart_points b = map (\<lambda>j. word_of_nat (ent_off T j)) J \<and>
     chained [] T \<and> last_key b = (if T = [] then [] else ent_key (last T)) \<and> J \<noteq> [] \<and> J ! 0 = 0 \<and>
     (if T = [] then J = [0] \<and> counter b = 0 else \<forall>j \<in> set J. j < length T \<and> fst (T ! j) = 0) \<and> 1 \<le> interval b"

lemma builds_new: "1 \<le> n \<Longrightarrow> builds (new_BlockBuilder n) [] [0]"
  by (simp add: builds_def new_BlockBuilder_def ents_bytes_def)

lemma builds_Reset: "builds b T J \<Longrightarrow> builds (BlockBuilder_Reset b) [] [0]"
  by (simp add: builds_def BlockBuilder_Reset_def ents_bytes_def)

lemma shared_length_facts:
  "shared_length xs ys \<le> length xs" "shared_length xs ys \<le> length ys"
  "take (shared_length xs ys) xs = take (shared_length xs ys) ys"
  by (induction xs ys rule: shared_length.induct) auto

lemma builds_Add:
  assumes "builds b T J"
  shows "\<exists>s J'. builds (BlockBuilder_Add b key val) (T @ [(s, key, val)]) J'"
proof (cases "counter b < interval b")
  case True
  let ?s = "shared_length (last_key b) key" and ?b = "BlockBuilder_Add b key val"
  have "builds ?b (T @ [(?s, key, val)]) J"
  proof -
    have "\<forall>j \<in> set J. j \<le> length T" using assms by (auto simp: builds_def split: if_splits)
    then show ?thesis
      using assms True shared_length_facts [of "last_key b" key]
      by (auto simp: builds_def BlockBuilder_Add_def Let_def ents_bytes_def ent_bytes_def ent_header_def PutVarint32_def
          chained_append ent_off_append nth_append split: if_splits)
  qed
  then show ?thesis by blast
next
  case False
  then have ne: "T \<noteq> []" using assms by (auto simp: builds_def)
  have "builds (BlockBuilder_Add b key val) (T @ [(0, key, val)]) (J @ [length T])"
    using assms False ne
    by (auto simp: builds_def BlockBuilder_Add_def Let_def ents_bytes_def ent_bytes_def ent_header_def PutVarint32_def
        chained_append ent_off_append nth_append ent_off_all less_imp_le)
  then show ?thesis by blast
qed

lemma builds_Add_all:
  "builds b T J \<Longrightarrow> \<exists>T' J'. builds (foldl (\<lambda>b e. BlockBuilder_Add b (fst e) (snd e)) b es) T' J' \<and> map snd T' = map snd T @ es"
proof (induction es arbitrary: b T J)
  case (Cons e es)
  from builds_Add [OF Cons.prems, of "fst e" "snd e"] obtain s J1 where
    "builds (BlockBuilder_Add b (fst e) (snd e)) (T @ [(s, fst e, snd e)]) J1" by blast
  from Cons.IH [OF this] show ?case by simp
qed auto

lemma builds_Finish: "builds b T J \<Longrightarrow> fst (BlockBuilder_Finish b) = block_of T J"
  by (simp add: BlockBuilder_Finish_def Let_def builds_def foldl_PutFixed32 block_of_def PutFixed32_def)

lemma builds_ok: "builds b T J \<Longrightarrow> length (block_of T J) < 2 ^ 32 \<Longrightarrow> block_ok T J"
  by (auto simp: builds_def block_ok_def)

text \<open>The size estimate is exact.\<close>

lemma size_estimate: "builds b T J \<Longrightarrow> CurrentSizeEstimate b = length (fst (BlockBuilder_Finish b))"
  by (simp add: builds_Finish block_length) (simp add: builds_def CurrentSizeEstimate_def)

section \<open>Opening a block\<close>

lemma NumRestarts_block: "length (block_of T J) < 2 ^ 32 \<Longrightarrow> NumRestarts (block_of T J) (length (block_of T J)) = length J"
proof -
  assume len: "length (block_of T J) < 2 ^ 32"
  have "drop (length (block_of T J) - 4) (block_of T J) = EncodeFixed32 (word_of_nat (length J))"
    by (simp add: block_length length_concat_fixed) (simp add: block_of_def length_concat_fixed)
  then have "DecodeFixed32 (drop (length (block_of T J) - 4) (block_of T J)) = word_of_nat (length J)"
    using DecodeFixed32_encode [of "word_of_nat (length J)" "[]"] by simp
  moreover have "length J < 2 ^ 32" using len by (simp add: block_length)
  ultimately show ?thesis by (simp add: NumRestarts_def unat_of_nat)
qed

lemma NewIterator_block:
  assumes "block_ok T J"
  obtains it where "NewIterator (new_Block (block_of T J)) = NewIter it" "on_block T J it" "at_end T J it"
proof -
  let ?B = "block_of T J"
  have len: "length ?B < 2 ^ 32" and J: "J \<noteq> []" using assms by (simp_all add: block_ok_def)
  have n: "NumRestarts ?B (length ?B) = length J" by (rule NumRestarts_block [OF len])
  have "length ?B - (1 + length J) * 4 = length (ents_bytes T)" "length J \<le> (length ?B - 4) div 4" "4 \<le> length ?B"
    "wrap32 (length (ents_bytes T)) = length (ents_bytes T)"
    using len by (simp_all add: block_length wrap32_def)
  then have "new_Block ?B = \<lparr>bdata = ?B, bsize = length ?B, restart_offset = length (ents_bytes T)\<rparr>"
    by (simp add: new_Block_def Let_def n)
  then have "NewIterator (new_Block ?B) = NewIter (new_Iter ?B (length (ents_bytes T)) (length J))"
    using J \<open>4 \<le> length ?B\<close> by (simp add: NewIterator_def n)
  then show ?thesis by (rule that) (simp_all add: on_block_def at_end_def new_Iter_def)
qed

section \<open>The interface\<close>

definition block_iterator :: "(slice \<Rightarrow> slice \<Rightarrow> int) \<Rightarrow> block_iter iterator" where
  "block_iterator cmp =
     \<lparr>op_Valid = Iter_Valid, op_SeekToFirst = \<lambda>it. Some (Iter_SeekToFirst it), op_SeekToLast = Iter_SeekToLast,
      op_Seek = Iter_Seek cmp, op_Next = \<lambda>it. Some (Iter_Next it), op_Prev = Iter_Prev, op_key = Iter_key,
      op_value = Iter_value, op_status = istatus\<rparr>"

definition block_pos :: "(slice \<Rightarrow> bool) \<Rightarrow> (slice \<Rightarrow> slice \<Rightarrow> int) \<Rightarrow> (slice \<times> slice) list \<Rightarrow> nat \<Rightarrow> block_iter \<Rightarrow> bool" where
  "block_pos valid cmp es i it \<longleftrightarrow> i \<le> length es \<and> (\<forall>e \<in> set es. valid (fst e)) \<and>
     sorted_wrt (\<lambda>a b. cmp (fst a) (fst b) < 0) es \<and>
     (\<exists>T J. block_ok T J \<and> map snd T = es \<and> moved T J (if i < length es then Some i else None) it)"

lemma block_posE:
  assumes "block_pos valid cmp es i it"
  obtains T J where "block_ok T J" "es = map snd T" "i \<le> length T" "on_block T J it" "i < length T \<Longrightarrow> standing T J i it"
    "\<not> i < length T \<Longrightarrow> at_end T J it" "\<forall>e \<in> set T. valid (ent_key e)"
    "sorted_wrt (\<lambda>a b. cmp (ent_key a) (ent_key b) < 0) T"
  using assms by (auto simp: block_pos_def moved_def at_end_def standing_def sorted_wrt_map split: if_splits)

lemma block_posI:
  assumes "block_pos valid cmp (map snd T) j it" and "block_ok T J" and "moved T J x it'"
    and "x = (if i < length T then Some i else None)" and "i \<le> length T"
  shows "block_pos valid cmp (map snd T) i it'"
  using assms unfolding block_pos_def length_map by blast

lemma takeWhile_holds: "j < length (takeWhile P xs) \<Longrightarrow> P (xs ! j)"
  by (metis nth_mem set_takeWhileD takeWhile_nth)

lemma find_takeWhile: "find (\<lambda>j. \<not> P (xs ! j)) [0..<length xs] =
    (if length (takeWhile P xs) < length xs then Some (length (takeWhile P xs)) else None)"
proof (cases "length (takeWhile P xs) < length xs")
  case True
  with nth_length_takeWhile [OF True] show ?thesis by (auto simp: find_Some_iff takeWhile_holds)
next
  case False
  then have "length (takeWhile P xs) = length xs" using length_takeWhile_le [of P xs] by simp
  then show ?thesis using takeWhile_holds [of _ P xs] by (auto simp: find_None_iff)
qed

context comparator
begin

text \<open>The iterator of a block is an iterator over its entries, for the comparator it was built with.\<close>

lemma block_over: "iterator_over (block_iterator cmp) (block_pos valid cmp) (\<lambda>a b. cmp a b < 0) valid"
proof (unfold_locales, goal_cases)
  case (1 es i it)
  then show ?case by (simp add: block_pos_def)
next
  case (2 es i it)
  from 2 show ?case
  proof (cases rule: block_posE)
    case (1 T J)
    then show ?thesis using ent_off_less [of i "length T" T]
      by (cases "i < length T") (auto simp: block_iterator_def Iter_Valid_def at_end_def standing_def on_block_def ent_off_all)
  qed
next
  case (3 es i it)
  from 3(1) show ?case
  proof (cases rule: block_posE)
    case (1 T J)
    then show ?thesis using 3(2) by (auto simp: block_iterator_def standing_def)
  qed
next
  case (4 es i it)
  from 4 show ?case by (cases rule: block_posE) (auto simp: block_iterator_def on_block_def)
next
  case (5 es i it)
  from 5 show ?case
  proof (cases rule: block_posE)
    case (1 T J)
    have "block_pos valid cmp (map snd T) 0 (Iter_SeekToFirst it)"
      by (rule block_posI [OF 5 [unfolded 1(2)] 1(1) SeekToFirst_moved [OF 1(1,4)]]) auto
    then show ?thesis by (simp add: block_iterator_def 1(2))
  qed
next
  case (6 es i it)
  from 6 show ?case
  proof (cases rule: block_posE)
    case (1 T J)
    obtain it' where it': "Iter_SeekToLast it = Some it'" "moved T J (if T = [] then None else Some (length T - 1)) it'"
      using SeekToLast_moved [OF 1(1,4)] by blast
    have "block_pos valid cmp (map snd T) (length T - 1) it'"
      by (rule block_posI [OF 6 [unfolded 1(2)] 1(1) it'(2)]) auto
    then show ?thesis using it'(1) by (simp add: block_iterator_def 1(2))
  qed
next
  case (7 es i it t)
  from 7(1) show ?case
  proof (cases rule: block_posE)
    case (1 T J)
    from Seek_moved [OF 1(1,4,7) 7(2) 1(8)] obtain it' where it': "Iter_Seek cmp it t = Some it'"
      "moved T J (find (\<lambda>j. \<not> cmp (ent_key (T ! j)) t < 0) [0..<length T]) it'" by blast
    have "length (takeWhile (\<lambda>e. cmp (fst e) t < 0) es) = length (takeWhile (\<lambda>e. cmp (ent_key e) t < 0) T)"
      by (simp add: 1(2) takeWhile_map comp_def)
    moreover have "block_pos valid cmp es (length (takeWhile (\<lambda>e. cmp (ent_key e) t < 0) T)) it'"
      unfolding 1(2) by (rule block_posI [OF _ 1(1) it'(2)])
        (use 7(1) 1(2) length_takeWhile_le [of _ T] find_takeWhile [of "\<lambda>e. cmp (ent_key e) t < 0" T] in auto)
    ultimately show ?thesis using it'(1) by (simp add: block_iterator_def)
  qed
next
  case (8 es i it)
  from 8(1) show ?case
  proof (cases rule: block_posE)
    case (1 T J)
    with 8(2) have i: "i < length T" by simp
    have "block_pos valid cmp (map snd T) (Suc i) (Iter_Next it)"
      by (rule block_posI [OF 8(1) [unfolded 1(2)] 1(1) Next_moved [OF 1(1) 1(5) [OF i]]]) (use i in auto)
    then show ?thesis by (simp add: block_iterator_def 1(2))
  qed
next
  case (9 es i it)
  from 9(1) show ?case
  proof (cases rule: block_posE)
    case (1 T J)
    with 9(2) have i: "i < length T" by simp
    obtain it' where it': "Iter_Prev it = Some it'" "moved T J (if i = 0 then None else Some (i - 1)) it'"
      using Prev_moved [OF 1(1) 1(5) [OF i]] by blast
    have "block_pos valid cmp (map snd T) (if i = 0 then length T else i - 1) it'"
      by (rule block_posI [OF 9(1) [unfolded 1(2)] 1(1) it'(2)]) (use i in auto)
    then show ?thesis using it'(1) by (auto simp: block_iterator_def 1(2) split: if_splits)
  qed
qed

end

sublocale comparator \<subseteq> block: iterator_over "block_iterator cmp" "block_pos valid cmp" "\<lambda>a b. cmp a b < 0" valid
  by (rule block_over)

text \<open>The bytes of a block with given entries, and what opening them gives.\<close>

definition build_block :: "int \<Rightarrow> (slice \<times> slice) list \<Rightarrow> byte list" where
  "build_block n es =
     fst (BlockBuilder_Finish (foldl (\<lambda>b e. BlockBuilder_Add b (fst e) (snd e)) (new_BlockBuilder n) es))"

lemma build_block_of: "1 \<le> n \<Longrightarrow> \<exists>T J. build_block n es = block_of T J \<and> map snd T = es \<and>
    (length (block_of T J) < 2 ^ 32 \<longrightarrow> block_ok T J)"
  using builds_Add_all [OF builds_new, of n es] builds_Finish builds_ok unfolding build_block_def by fastforce

context comparator
begin

lemma open_block:
  assumes "1 \<le> n" and "length (build_block n es) < 2 ^ 32" and "\<forall>e \<in> set es. valid (fst e)"
    and "sorted_wrt (\<lambda>a b. cmp (fst a) (fst b) < 0) es"
  shows "\<exists>it. NewIterator (new_Block (build_block n es)) = NewIter it \<and> block_pos valid cmp es (length es) it"
proof -
  obtain T J where TJ: "build_block n es = block_of T J" "map snd T = es" "block_ok T J"
    using build_block_of [OF assms(1), of es] assms(2) by auto
  obtain it where "NewIterator (new_Block (block_of T J)) = NewIter it" "at_end T J it"
    using NewIterator_block [OF TJ(3)] by blast
  with TJ assms(3,4) show ?thesis by (auto simp: block_pos_def moved_def)
qed

end

end
