(* ===== verification/Ldb_Merger.thy ===== *)
theory Ldb_Merger
  imports Ldb_Block_Proofs
begin

text \<open>
  \<open>leveldb/table/merger.cc\<close>: an iterator over the entries of several iterators. It keeps all children at or after its
  key while it moves forward, at or before it while it moves backward, and repositions them when the direction
  changes. Shown here: if the children are iterators over lists that partition a sorted list, the merging iterator is one over
  that list.
\<close>

section \<open>\<open>MergingIterator\<close>\<close>

datatype Direction = kForward | kReverse

record 'it MergingIterator =
  children :: "'it IteratorWrapper list"
  mcurrent :: "nat option"
  direction :: Direction

definition new_MergingIterator :: "'it iterator \<Rightarrow> 'it list \<Rightarrow> 'it MergingIterator" where
  "new_MergingIterator ops its = \<lparr>children = map (wrapper_Set ops) its, mcurrent = None, direction = kForward\<rparr>"

definition FindSmallest :: "(slice \<Rightarrow> slice \<Rightarrow> int) \<Rightarrow> 'it MergingIterator \<Rightarrow> 'it MergingIterator" where
  "FindSmallest cmp m =
     m\<lparr>mcurrent := foldl (\<lambda>smallest i.
         if w_valid (children m ! i)
         then case smallest of
                None \<Rightarrow> Some i
              | Some j \<Rightarrow> if cmp (w_key (children m ! i)) (w_key (children m ! j)) < 0 then Some i else smallest
         else smallest) None [0..<length (children m)]\<rparr>"

definition FindLargest :: "(slice \<Rightarrow> slice \<Rightarrow> int) \<Rightarrow> 'it MergingIterator \<Rightarrow> 'it MergingIterator" where
  "FindLargest cmp m =
     m\<lparr>mcurrent := foldl (\<lambda>largest i.
         if w_valid (children m ! i)
         then case largest of
                None \<Rightarrow> Some i
              | Some j \<Rightarrow> if cmp (w_key (children m ! i)) (w_key (children m ! j)) > 0 then Some i else largest
         else largest) None (rev [0..<length (children m)])\<rparr>"

text \<open>A loop over the children; \<open>None\<close> if one of the calls does not return.\<close>

definition each_child ::
  "(nat \<Rightarrow> 'it IteratorWrapper \<Rightarrow> 'it IteratorWrapper option) \<Rightarrow> 'it MergingIterator \<Rightarrow> 'it MergingIterator option" where
  "each_child f m =
     map_option (\<lambda>ws. m\<lparr>children := ws\<rparr>) (those (map (\<lambda>i. f i (children m ! i)) [0..<length (children m)]))"

definition merging_Valid :: "'it MergingIterator \<Rightarrow> bool" where
  "merging_Valid m \<longleftrightarrow> mcurrent m \<noteq> None"

definition merging_key :: "'it MergingIterator \<Rightarrow> slice" where
  "merging_key m = w_key (children m ! the (mcurrent m))"

definition merging_value :: "'it iterator \<Rightarrow> 'it MergingIterator \<Rightarrow> slice" where
  "merging_value ops m = op_value ops (w_iter (children m ! the (mcurrent m)))"

fun first_error :: "status list \<Rightarrow> status" where
  "first_error [] = OK"
| "first_error (s # ss) = (if \<not> ok s then s else first_error ss)"

definition merging_status :: "'it iterator \<Rightarrow> 'it MergingIterator \<Rightarrow> status" where
  "merging_status ops m = first_error (map (\<lambda>w. op_status ops (w_iter w)) (children m))"

definition merging_SeekToFirst ::
  "(slice \<Rightarrow> slice \<Rightarrow> int) \<Rightarrow> 'it iterator \<Rightarrow> 'it MergingIterator \<Rightarrow> 'it MergingIterator option" where
  "merging_SeekToFirst cmp ops m =
     map_option (\<lambda>m. (FindSmallest cmp m)\<lparr>direction := kForward\<rparr>) (each_child (\<lambda>_. wrapper_SeekToFirst ops) m)"

definition merging_SeekToLast ::
  "(slice \<Rightarrow> slice \<Rightarrow> int) \<Rightarrow> 'it iterator \<Rightarrow> 'it MergingIterator \<Rightarrow> 'it MergingIterator option" where
  "merging_SeekToLast cmp ops m =
     map_option (\<lambda>m. (FindLargest cmp m)\<lparr>direction := kReverse\<rparr>) (each_child (\<lambda>_. wrapper_SeekToLast ops) m)"

definition merging_Seek ::
  "(slice \<Rightarrow> slice \<Rightarrow> int) \<Rightarrow> 'it iterator \<Rightarrow> 'it MergingIterator \<Rightarrow> slice \<Rightarrow> 'it MergingIterator option" where
  "merging_Seek cmp ops m target =
     map_option (\<lambda>m. (FindSmallest cmp m)\<lparr>direction := kForward\<rparr>) (each_child (\<lambda>_. wrapper_Seek ops target) m)"

text \<open>The bodies of the loops that reposition the children other than the current one, whose key is \<open>key\<close>.\<close>

definition after_key :: "(slice \<Rightarrow> slice \<Rightarrow> int) \<Rightarrow> 'it iterator \<Rightarrow> slice \<Rightarrow> 'it IteratorWrapper \<Rightarrow> 'it IteratorWrapper option" where
  "after_key cmp ops key child =
     Option.bind (wrapper_Seek ops key child) (\<lambda>child.
       if w_valid child \<and> cmp key (w_key child) = 0 then wrapper_Next ops child else Some child)"

definition before_key :: "'it iterator \<Rightarrow> slice \<Rightarrow> 'it IteratorWrapper \<Rightarrow> 'it IteratorWrapper option" where
  "before_key ops key child =
     Option.bind (wrapper_Seek ops key child) (\<lambda>child.
       if w_valid child then wrapper_Prev ops child else wrapper_SeekToLast ops child)"

text \<open>\<open>current_->Next()\<close> and \<open>current_->Prev()\<close>.\<close>

definition move_current ::
  "('it IteratorWrapper \<Rightarrow> 'it IteratorWrapper option) \<Rightarrow> 'it MergingIterator \<Rightarrow> 'it MergingIterator option" where
  "move_current f m =
     (let c = the (mcurrent m) in map_option (\<lambda>w. m\<lparr>children := (children m)[c := w]\<rparr>) (f (children m ! c)))"

definition merging_Next ::
  "(slice \<Rightarrow> slice \<Rightarrow> int) \<Rightarrow> 'it iterator \<Rightarrow> 'it MergingIterator \<Rightarrow> 'it MergingIterator option" where
  "merging_Next cmp ops m =
     Option.bind
       (if direction m \<noteq> kForward
        then map_option (\<lambda>m. m\<lparr>direction := kForward\<rparr>)
          (each_child (\<lambda>i w. if Some i \<noteq> mcurrent m then after_key cmp ops (merging_key m) w else Some w) m)
        else Some m)
       (\<lambda>m. map_option (FindSmallest cmp) (move_current (wrapper_Next ops) m))"

definition merging_Prev ::
  "(slice \<Rightarrow> slice \<Rightarrow> int) \<Rightarrow> 'it iterator \<Rightarrow> 'it MergingIterator \<Rightarrow> 'it MergingIterator option" where
  "merging_Prev cmp ops m =
     Option.bind
       (if direction m \<noteq> kReverse
        then map_option (\<lambda>m. m\<lparr>direction := kReverse\<rparr>)
          (each_child (\<lambda>i w. if Some i \<noteq> mcurrent m then before_key ops (merging_key m) w else Some w) m)
        else Some m)
       (\<lambda>m. map_option (FindLargest cmp) (move_current (wrapper_Prev ops) m))"

definition merging_iterator :: "(slice \<Rightarrow> slice \<Rightarrow> int) \<Rightarrow> 'it iterator \<Rightarrow> 'it MergingIterator iterator" where
  "merging_iterator cmp ops =
     \<lparr>op_Valid = merging_Valid, op_SeekToFirst = merging_SeekToFirst cmp ops, op_SeekToLast = merging_SeekToLast cmp ops,
      op_Seek = merging_Seek cmp ops, op_Next = merging_Next cmp ops, op_Prev = merging_Prev cmp ops,
      op_key = merging_key, op_value = merging_value ops, op_status = merging_status ops\<rparr>"

datatype 'it merged = MergedEmpty status | MergedOne 'it | Merged "'it MergingIterator"

definition NewMergingIterator :: "'it iterator \<Rightarrow> 'it list \<Rightarrow> 'it merged" where
  "NewMergingIterator ops its =
     (case its of [] \<Rightarrow> MergedEmpty OK | [it] \<Rightarrow> MergedOne it | _ \<Rightarrow> Merged (new_MergingIterator ops its))"

section \<open>Selection and loops\<close>

definition pick :: "(nat \<Rightarrow> bool) \<Rightarrow> (nat \<Rightarrow> nat \<Rightarrow> bool) \<Rightarrow> nat option \<Rightarrow> nat \<Rightarrow> nat option" where
  "pick good better s i =
     (if good i then case s of None \<Rightarrow> Some i | Some j \<Rightarrow> if better i j then Some i else s else s)"

lemma pick_simps [simp]:
  "\<not> good i \<Longrightarrow> pick good better s i = s" "good i \<Longrightarrow> pick good better None i = Some i"
  "good i \<Longrightarrow> pick good better (Some j) i = (if better i j then Some i else Some j)"
  by (simp_all add: pick_def)

lemma pick_none: "\<forall>i \<in> set xs. \<not> good i \<Longrightarrow> foldl (pick good better) None xs = None"
  by (induction xs rule: rev_induct) simp_all

lemma pick_member: "foldl (pick good better) None xs = Some j \<Longrightarrow> j \<in> set xs \<and> good j"
proof (induction xs arbitrary: j rule: rev_induct)
  case (snoc x xs)
  show ?case
  proof (cases "foldl (pick good better) None xs")
    case None
    with snoc.prems show ?thesis by (cases "good x") auto
  next
    case (Some i)
    with snoc.prems snoc.IH [OF Some] show ?thesis by (cases "good x"; cases "better x i") auto
  qed
qed simp

lemma pick_keeps:
  "\<forall>i \<in> set xs. good i \<longrightarrow> i \<noteq> c \<longrightarrow> \<not> better i c \<Longrightarrow> foldl (pick good better) (Some c) xs = Some c"
proof (induction xs)
  case (Cons x xs)
  then have "pick good better (Some c) x = Some c" by (cases "good x"; cases "x = c") auto
  with Cons show ?case by simp
qed simp

lemma pick_best:
  assumes c: "c \<in> set xs" "good c" and best: "\<And>i. i \<in> set xs \<Longrightarrow> good i \<Longrightarrow> i \<noteq> c \<Longrightarrow> better c i \<and> \<not> better i c"
  shows "foldl (pick good better) None xs = Some c"
proof -
  obtain ys zs where xs: "xs = ys @ c # zs" using split_list [OF c(1)] by blast
  have "pick good better (foldl (pick good better) None ys) c = Some c"
  proof (cases "foldl (pick good better) None ys")
    case (Some j)
    with pick_member [OF Some] c best [of j] xs show ?thesis by (cases "j = c") auto
  qed (simp add: c)
  with pick_keeps [of zs good c better] best xs show ?thesis by simp
qed

lemma FindSmallest_pick: "FindSmallest cmp m = m\<lparr>mcurrent := foldl (pick (\<lambda>i. w_valid (children m ! i))
    (\<lambda>i j. cmp (w_key (children m ! i)) (w_key (children m ! j)) < 0)) None [0..<length (children m)]\<rparr>"
  by (simp add: FindSmallest_def pick_def [abs_def])

lemma FindLargest_pick: "FindLargest cmp m = m\<lparr>mcurrent := foldl (pick (\<lambda>i. w_valid (children m ! i))
    (\<lambda>i j. cmp (w_key (children m ! i)) (w_key (children m ! j)) > 0)) None (rev [0..<length (children m)])\<rparr>"
  by (simp add: FindLargest_def pick_def [abs_def])

lemma those_map: "(\<And>i. i \<in> set xs \<Longrightarrow> \<exists>y. f i = Some y \<and> P i y) \<Longrightarrow>
    \<exists>ys. those (map f xs) = Some ys \<and> length ys = length xs \<and> (\<forall>i < length xs. P (xs ! i) (ys ! i))"
proof (induction xs)
  case (Cons x xs)
  then obtain y ys where "f x = Some y" "P x y" "those (map f xs) = Some ys" "length ys = length xs"
    "\<forall>i < length xs. P (xs ! i) (ys ! i)" by (metis list.set_intros)
  then show ?case by (auto simp: nth_Cons split: nat.splits)
qed simp

lemma each_child_all:
  assumes "\<And>i. i < length (children m) \<Longrightarrow> \<exists>w. f i (children m ! i) = Some w \<and> P i w"
  shows "\<exists>ws. each_child f m = Some (m\<lparr>children := ws\<rparr>) \<and> length ws = length (children m) \<and>
    (\<forall>i < length ws. P i (ws ! i))"
  using those_map [of "[0..<length (children m)]" "\<lambda>i. f i (children m ! i)" P] assms
  by (auto simp: each_child_def)

section \<open>The merged list\<close>

text \<open>\<open>own\<close> says which child has a key. Positions of the children while the iterator stands at entry \<open>m\<close>: forward, the first
  entry of each from there on; backward, the last entry of each up to there, or not valid.\<close>

definition part :: "(slice \<Rightarrow> nat) \<Rightarrow> nat \<Rightarrow> (slice \<times> slice) list \<Rightarrow> (slice \<times> slice) list" where
  "part own i M = filter (\<lambda>e. own (fst e) = i) M"

definition forward_at :: "(slice \<Rightarrow> nat) \<Rightarrow> (slice \<times> slice) list \<Rightarrow> nat \<Rightarrow> nat \<Rightarrow> nat" where
  "forward_at own M m i = length (part own i (take m M))"

definition backward_at :: "(slice \<Rightarrow> nat) \<Rightarrow> (slice \<times> slice) list \<Rightarrow> nat \<Rightarrow> nat \<Rightarrow> nat" where
  "backward_at own M m i =
     (let q = length (part own i (take m M)) in if q = 0 then length (part own i M) else q - 1)"

lemma part_split: "part own i M = part own i (take m M) @ part own i (drop m M)"
  unfolding part_def by (metis append_take_drop_id filter_append)

lemma part_nth_forward:
  "forward_at own M m i < length (part own i M) \<Longrightarrow> part own i M ! forward_at own M m i \<in> set (part own i (drop m M))"
  using part_split [of own i M m] by (simp add: forward_at_def nth_append)

lemma part_nth_here:
  assumes "m < length M"
  shows "forward_at own M m (own (fst (M ! m))) < length (part own (own (fst (M ! m))) M)"
    and "part own (own (fst (M ! m))) M ! forward_at own M m (own (fst (M ! m))) = M ! m"
  using part_split [of own "own (fst (M ! m))" M m] assms
  by (simp_all add: forward_at_def nth_append part_def Cons_nth_drop_Suc [symmetric])

lemma forward_Suc:
  "m < length M \<Longrightarrow> forward_at own M (Suc m) i = forward_at own M m i + (if own (fst (M ! m)) = i then 1 else 0)"
  by (simp add: forward_at_def part_def take_Suc_conv_app_nth)

lemma part_nth_backward:
  assumes "backward_at own M m i < length (part own i M)"
  shows "part own i M ! backward_at own M m i \<in> set (part own i (take m M))"
proof -
  have ne: "part own i (take m M) \<noteq> []" using assms by (auto simp: backward_at_def Let_def)
  then have "part own i M ! (length (part own i (take m M)) - 1) = last (part own i (take m M))"
    using part_split [of own i M m] by (simp add: nth_append last_conv_nth)
  then show ?thesis using ne by (simp add: backward_at_def Let_def)
qed

lemma backward_Suc:
  assumes "m < length M"
  shows "backward_at own M (Suc m) (own (fst (M ! m))) = forward_at own M m (own (fst (M ! m)))"
    and "i \<noteq> own (fst (M ! m)) \<Longrightarrow> backward_at own M (Suc m) i = backward_at own M m i"
  using assms by (simp_all add: backward_at_def forward_at_def part_def take_Suc_conv_app_nth Let_def)

section \<open>The merging iterator is an iterator over the merged list\<close>

text \<open>A list merged from \<open>n\<close> children, and where the children are.\<close>

definition merges :: "(slice \<Rightarrow> bool) \<Rightarrow> (slice \<Rightarrow> slice \<Rightarrow> int) \<Rightarrow> (slice \<Rightarrow> nat) \<Rightarrow> (slice \<times> slice) list \<Rightarrow> nat \<Rightarrow> bool" where
  "merges valid cmp own M n \<longleftrightarrow>
     (\<forall>e \<in> set M. valid (fst e) \<and> own (fst e) < n) \<and> sorted_wrt (\<lambda>a b. cmp (fst a) (fst b) < 0) M"

definition all_at ::
  "((slice \<times> slice) list \<Rightarrow> nat \<Rightarrow> 'w \<Rightarrow> bool) \<Rightarrow> (slice \<Rightarrow> nat) \<Rightarrow> (slice \<times> slice) list \<Rightarrow> (nat \<Rightarrow> nat) \<Rightarrow> 'w list \<Rightarrow> bool"
where
  "all_at wpos own M p ws \<longleftrightarrow> (\<forall>i < length ws. wpos (part own i M) (p i) (ws ! i))"

definition merge_pos ::
  "(slice \<Rightarrow> bool) \<Rightarrow> (slice \<Rightarrow> slice \<Rightarrow> int) \<Rightarrow> ((slice \<times> slice) list \<Rightarrow> nat \<Rightarrow> 'it IteratorWrapper \<Rightarrow> bool) \<Rightarrow>
   (slice \<times> slice) list \<Rightarrow> nat \<Rightarrow> 'it MergingIterator \<Rightarrow> bool"
where
  "merge_pos valid cmp wpos M m it \<longleftrightarrow> m \<le> length M \<and> (\<exists>own. merges valid cmp own M (length (children it)) \<and>
     (if m < length M
      then mcurrent it = Some (own (fst (M ! m))) \<and>
        all_at wpos own M (if direction it = kForward then forward_at own M m else backward_at own M (Suc m)) (children it)
      else mcurrent it = None \<and> (\<exists>p. all_at wpos own M p (children it))))"

locale merge_sources = comparator valid cmp sep succ + child: iterator_over ops pos "\<lambda>a b. cmp a b < 0" valid
  for valid cmp sep succ and ops :: "'it iterator" and pos
begin

abbreviation wpos :: "(slice \<times> slice) list \<Rightarrow> nat \<Rightarrow> 'it IteratorWrapper \<Rightarrow> bool" where
  "wpos \<equiv> wrapper_pos ops pos"

lemmas wpos_facts = child.wpos_bound child.wpos_valid child.wpos_entry child.wpos_status child.wpos_SeekToFirst
  child.wpos_SeekToLast child.wpos_Seek child.wpos_Next child.wpos_Prev
lemmas wpos_bound = wpos_facts(1) and wpos_valid = wpos_facts(2) and wpos_entry = wpos_facts(3) and wpos_status = wpos_facts(4)
  and wpos_SeekToFirst = wpos_facts(5) and wpos_SeekToLast = wpos_facts(6) and wpos_Seek = wpos_facts(7)
  and wpos_Next = wpos_facts(8) and wpos_Prev = wpos_facts(9)

lemma later_key: "merges valid cmp own M n \<Longrightarrow> i < j \<Longrightarrow> j < length M \<Longrightarrow> cmp (fst (M ! i)) (fst (M ! j)) < 0 \<and> \<not> cmp (fst (M ! j)) (fst (M ! i)) < 0"
proof -
  assume M: "merges valid cmp own M n" and ij: "i < j" "j < length M"
  then have "cmp (fst (M ! i)) (fst (M ! j)) < 0" by (simp add: merges_def sorted_wrt_iff_nth_less)
  moreover have "valid (fst (M ! i))" "valid (fst (M ! j))" using M ij by (simp_all add: merges_def)
  ultimately show ?thesis using cmp_flip [of "fst (M ! j)" "fst (M ! i)"] cmp_flip [of "fst (M ! i)" "fst (M ! j)"] by simp
qed

lemma FindSmallest_current:
  assumes M: "merges valid cmp own M (length (children it))" and at: "all_at wpos own M (forward_at own M m) (children it)" and m: "m \<le> length M"
  shows "mcurrent (FindSmallest cmp it) = (if m < length M then Some (own (fst (M ! m))) else None)"
proof -
  let ?ws = "children it"
  have good: "w_valid (?ws ! i) \<Longrightarrow> \<exists>j. m \<le> j \<and> j < length M \<and> own (fst (M ! j)) = i \<and> w_key (?ws ! i) = fst (M ! j)"
    if i: "i < length ?ws" for i
  proof -
    assume v: "w_valid (?ws ! i)"
    have w: "wpos (part own i M) (forward_at own M m i) (?ws ! i)" using at i by (simp add: all_at_def)
    then have lt: "forward_at own M m i < length (part own i M)" using v wpos_valid by blast
    obtain e where "e \<in> set (part own i (drop m M))" "w_key (?ws ! i) = fst e"
      using part_nth_forward [OF lt] wpos_entry [OF w lt] by auto
    then obtain j where "j < length M - m" "own (fst (M ! (m + j))) = i" "w_key (?ws ! i) = fst (M ! (m + j))"
      by (auto simp: part_def in_set_conv_nth m)
    then show ?thesis by (intro exI [of _ "m + j"]) auto
  qed
  show ?thesis
  proof (cases "m < length M")
    case False
    then have "\<forall>i \<in> set [0..<length ?ws]. \<not> w_valid (?ws ! i)" using good by fastforce
    then show ?thesis using False by (simp add: FindSmallest_pick pick_none)
  next
    case True
    let ?c = "own (fst (M ! m))"
    have c: "?c < length ?ws" using M True by (simp add: merges_def)
    then have w: "wpos (part own ?c M) (forward_at own M m ?c) (?ws ! ?c)" using at by (simp add: all_at_def)
    note here = part_nth_here [OF True, of own]
    have cv: "w_valid (?ws ! ?c)" "w_key (?ws ! ?c) = fst (M ! m)"
      using wpos_valid [OF w] wpos_entry [OF w here(1)] here by auto
    have "foldl (pick (\<lambda>i. w_valid (?ws ! i)) (\<lambda>i j. cmp (w_key (?ws ! i)) (w_key (?ws ! j)) < 0)) None [0..<length ?ws] = Some ?c"
    proof (rule pick_best)
      fix i assume i: "i \<in> set [0..<length ?ws]" "w_valid (?ws ! i)" "i \<noteq> ?c"
      then obtain j where j: "m \<le> j" "j < length M" "own (fst (M ! j)) = i" "w_key (?ws ! i) = fst (M ! j)"
        using good [of i] by auto
      then have "m < j" using i(3) by (cases "m = j") auto
      with later_key [OF M this j(2)] j cv show "cmp (w_key (?ws ! ?c)) (w_key (?ws ! i)) < 0 \<and> \<not> cmp (w_key (?ws ! i)) (w_key (?ws ! ?c)) < 0"
        by simp
    qed (use c cv in auto)
    then show ?thesis using True by (simp add: FindSmallest_pick)
  qed
qed

lemma FindLargest_current:
  assumes M: "merges valid cmp own M (length (children it))" and at: "all_at wpos own M (backward_at own M m) (children it)" and m: "m \<le> length M"
  shows "mcurrent (FindLargest cmp it) = (if m = 0 then None else Some (own (fst (M ! (m - 1)))))"
proof -
  let ?ws = "children it"
  have good: "w_valid (?ws ! i) \<Longrightarrow> \<exists>j < m. own (fst (M ! j)) = i \<and> w_key (?ws ! i) = fst (M ! j)"
    if i: "i < length ?ws" for i
  proof -
    assume v: "w_valid (?ws ! i)"
    have w: "wpos (part own i M) (backward_at own M m i) (?ws ! i)" using at i by (simp add: all_at_def)
    then have lt: "backward_at own M m i < length (part own i M)" using v wpos_valid by blast
    obtain e where "e \<in> set (part own i (take m M))" "w_key (?ws ! i) = fst e"
      using part_nth_backward [OF lt] wpos_entry [OF w lt] by auto
    then show ?thesis by (auto simp: part_def in_set_conv_nth)
  qed
  show ?thesis
  proof (cases m)
    case 0
    then have "\<forall>i \<in> set (rev [0..<length ?ws]). \<not> w_valid (?ws ! i)" using good by fastforce
    then show ?thesis using 0 by (simp add: FindLargest_pick pick_none)
  next
    case (Suc k)
    let ?c = "own (fst (M ! k))"
    have k: "k < length M" using Suc m by simp
    have c: "?c < length ?ws" using M k by (simp add: merges_def)
    then have w: "wpos (part own ?c M) (forward_at own M k ?c) (?ws ! ?c)"
      using at Suc backward_Suc(1) [OF k, of own] unfolding all_at_def by metis
    note here = part_nth_here [OF k, of own]
    have cv: "w_valid (?ws ! ?c)" "w_key (?ws ! ?c) = fst (M ! k)"
      using wpos_valid [OF w] wpos_entry [OF w here(1)] here by auto
    have "foldl (pick (\<lambda>i. w_valid (?ws ! i)) (\<lambda>i j. cmp (w_key (?ws ! i)) (w_key (?ws ! j)) > 0)) None (rev [0..<length ?ws]) = Some ?c"
    proof (rule pick_best)
      fix i assume i: "i \<in> set (rev [0..<length ?ws])" "w_valid (?ws ! i)" "i \<noteq> ?c"
      then obtain j where j: "j < m" "own (fst (M ! j)) = i" "w_key (?ws ! i) = fst (M ! j)"
        using good [of i] by auto
      then have "j < k" using i(3) Suc by (cases "j = k") auto
      moreover have "valid (fst (M ! j))" "valid (fst (M ! k))" using M k \<open>j < k\<close> by (simp_all add: merges_def)
      ultimately show "cmp (w_key (?ws ! ?c)) (w_key (?ws ! i)) > 0 \<and> \<not> cmp (w_key (?ws ! i)) (w_key (?ws ! ?c)) > 0"
        using later_key [OF M _ k] cv j cmp_flip by auto
    qed (use c cv in auto)
    then show ?thesis using Suc by (simp add: FindLargest_pick)
  qed
qed

lemma Find_simps [simp]:
  "children (FindSmallest cmp it) = children it" "direction (FindSmallest cmp it) = direction it"
  "children (FindLargest cmp it) = children it" "direction (FindLargest cmp it) = direction it"
  by (simp_all add: FindSmallest_def FindLargest_def)

lemma settle_forward:
  assumes "merges valid cmp own M (length (children it))" and "all_at wpos own M (forward_at own M m) (children it)"
    and "m \<le> length M" and "direction it' = kForward" and "children it' = children it" and "mcurrent it' = mcurrent (FindSmallest cmp it)"
  shows "merge_pos valid cmp wpos M m it'"
  using assms FindSmallest_current [OF assms(1-3)] by (auto simp: merge_pos_def)

lemma settle_backward:
  assumes "merges valid cmp own M (length (children it))" and "all_at wpos own M (backward_at own M m) (children it)"
    and "m \<le> length M" and "direction it' = kReverse" and "children it' = children it" and "mcurrent it' = mcurrent (FindLargest cmp it)"
  shows "merge_pos valid cmp wpos M (if m = 0 then length M else m - 1) it'"
  using assms FindLargest_current [OF assms(1-3)] by (cases m) (auto simp: merge_pos_def)

lemma takeWhile_part:
  assumes "sorted_wrt (\<lambda>a b. cmp (fst a) (fst b) < 0) M" and "\<forall>e \<in> set M. valid (fst e)" and "valid t"
  shows "takeWhile (\<lambda>e. cmp (fst e) t < 0) (part own i M) = part own i (takeWhile (\<lambda>e. cmp (fst e) t < 0) M)"
  using assms(1,2)
proof (induction M)
  case (Cons e M)
  show ?case
  proof (cases "cmp (fst e) t < 0")
    case True
    with Cons show ?thesis by (simp add: part_def)
  next
    case False
    have "\<not> cmp (fst e') t < 0" if "e' \<in> set M" for e'
    proof
      assume "cmp (fst e') t < 0"
      with that Cons.prems cmp_trans [of "fst e" "fst e'" t] assms(3) False show False by simp
    qed
    then have "\<forall>e' \<in> set (part own i (e # M)). \<not> cmp (fst e') t < 0" using False by (simp add: part_def)
    then have "takeWhile (\<lambda>e. cmp (fst e) t < 0) (part own i (e # M)) = []"
      using hd_in_set unfolding takeWhile_eq_Nil_iff by blast
    with False show ?thesis by (simp add: part_def)
  qed
qed (simp add: part_def)

lemma seek_forward:
  assumes "merges valid cmp own M n" and "valid t"
  shows "length (takeWhile (\<lambda>e. cmp (fst e) t < 0) (part own i M)) = forward_at own M (length (takeWhile (\<lambda>e. cmp (fst e) t < 0) M)) i"
  using takeWhile_part [of M t own i] assms by (simp add: merges_def forward_at_def flip: takeWhile_eq_take)

lemma takeWhile_at:
  assumes "merges valid cmp own M n" and "m < length M"
  shows "length (takeWhile (\<lambda>e. cmp (fst e) (fst (M ! m)) < 0) M) = m"
proof -
  have v: "valid (fst (M ! m))" using assms by (simp add: merges_def)
  have "takeWhile (\<lambda>e. cmp (fst e) (fst (M ! m)) < 0) M = take m M"
  proof (rule takeWhile_eq_take_P_nth)
    show "cmp (fst (M ! i)) (fst (M ! m)) < 0" if "i < m" "i < length M" for i
      using later_key [OF assms(1) that(1) assms(2)] by simp
    show "\<not> cmp (fst (M ! m)) (fst (M ! m)) < 0" using cmp_eq [OF v v] by simp
  qed
  then show ?thesis using assms(2) by simp
qed

lemma merges_nth: "merges valid cmp own M n \<Longrightarrow> m < length M \<Longrightarrow> valid (fst (M ! m)) \<and> own (fst (M ! m)) < n"
  by (simp add: merges_def)

lemma each_child_at:
  assumes "\<And>i. i < length (children it) \<Longrightarrow> \<exists>w. f i (children it ! i) = Some w \<and> wpos (part own i M) (p i) w"
  shows "\<exists>ws. each_child f it = Some (it\<lparr>children := ws\<rparr>) \<and> length ws = length (children it) \<and> all_at wpos own M p ws"
  using each_child_all [of it f "\<lambda>i. wpos (part own i M) (p i)"] assms by (auto simp: all_at_def)

lemma SeekToFirst_merge:
  assumes "merges valid cmp own M (length (children it))" and "all_at wpos own M p (children it)"
  shows "\<exists>it'. merging_SeekToFirst cmp ops it = Some it' \<and> merge_pos valid cmp wpos M 0 it'"
proof -
  have "\<exists>ws. each_child (\<lambda>_. wrapper_SeekToFirst ops) it = Some (it\<lparr>children := ws\<rparr>) \<and> length ws = length (children it) \<and>
      all_at wpos own M (forward_at own M 0) ws"
    using assms(2) wpos_SeekToFirst by (intro each_child_at) (fastforce simp: all_at_def forward_at_def part_def)
  then obtain ws where "each_child (\<lambda>_. wrapper_SeekToFirst ops) it = Some (it\<lparr>children := ws\<rparr>)"
    "length ws = length (children it)" "all_at wpos own M (forward_at own M 0) ws" by blast
  with settle_forward [of own M "it\<lparr>children := ws\<rparr>" 0] assms(1) show ?thesis by (simp add: merging_SeekToFirst_def)
qed

lemma SeekToLast_merge:
  assumes "merges valid cmp own M (length (children it))" and "all_at wpos own M p (children it)"
  shows "\<exists>it'. merging_SeekToLast cmp ops it = Some it' \<and> merge_pos valid cmp wpos M (length M - 1) it'"
proof -
  have "\<exists>ws. each_child (\<lambda>_. wrapper_SeekToLast ops) it = Some (it\<lparr>children := ws\<rparr>) \<and> length ws = length (children it) \<and>
      all_at wpos own M (backward_at own M (length M)) ws"
    using assms(2) wpos_SeekToLast by (intro each_child_at) (fastforce simp: all_at_def backward_at_def Let_def)
  then obtain ws where "each_child (\<lambda>_. wrapper_SeekToLast ops) it = Some (it\<lparr>children := ws\<rparr>)"
    "length ws = length (children it)" "all_at wpos own M (backward_at own M (length M)) ws" by blast
  with settle_backward [of own M "it\<lparr>children := ws\<rparr>" "length M"] assms(1) show ?thesis
    by (cases "M = []") (simp_all add: merging_SeekToLast_def)
qed

lemma Seek_merge:
  assumes "merges valid cmp own M (length (children it))" and "all_at wpos own M p (children it)" and "valid t"
  shows "\<exists>it'. merging_Seek cmp ops it t = Some it' \<and> merge_pos valid cmp wpos M (length (takeWhile (\<lambda>e. cmp (fst e) t < 0) M)) it'"
proof -
  let ?m = "length (takeWhile (\<lambda>e. cmp (fst e) t < 0) M)"
  have "\<exists>ws. each_child (\<lambda>_. wrapper_Seek ops t) it = Some (it\<lparr>children := ws\<rparr>) \<and> length ws = length (children it) \<and>
      all_at wpos own M (forward_at own M ?m) ws"
    using assms(2) wpos_Seek [OF _ assms(3)] seek_forward [OF assms(1,3)] by (intro each_child_at) (fastforce simp: all_at_def)
  then obtain ws where "each_child (\<lambda>_. wrapper_Seek ops t) it = Some (it\<lparr>children := ws\<rparr>)"
    "length ws = length (children it)" "all_at wpos own M (forward_at own M ?m) ws" by blast
  with settle_forward [of own M "it\<lparr>children := ws\<rparr>" ?m] assms(1) length_takeWhile_le [of _ M] show ?thesis
    by (simp add: merging_Seek_def)
qed

lemma current_at:
  assumes "merges valid cmp own M (length ws)" and "m < length M" and "all_at wpos own M p ws" and "c = own (fst (M ! m))"
    and "p c = forward_at own M m c"
  shows "wpos (part own c M) (p c) (ws ! c)" and "c < length ws" and "p c < length (part own c M)"
    and "w_key (ws ! c) = fst (M ! m)" and "op_value ops (w_iter (ws ! c)) = snd (M ! m)"
proof -
  show c: "c < length ws" using merges_nth [OF assms(1,2)] assms(4) by simp
  then show w: "wpos (part own c M) (p c) (ws ! c)" using assms(3) by (simp add: all_at_def)
  show lt: "p c < length (part own c M)" using part_nth_here(1) [OF assms(2), of own] assms(4,5) by simp
  show "w_key (ws ! c) = fst (M ! m)" "op_value ops (w_iter (ws ! c)) = snd (M ! m)"
    using wpos_entry [OF w lt] part_nth_here(2) [OF assms(2), of own] assms(4,5) by simp_all
qed

text \<open>Turning round: the children are put at the positions for the other direction.\<close>

lemma turn_forward:
  assumes M: "merges valid cmp own M (length (children it))" and m: "m < length M" and cur: "mcurrent it = Some (own (fst (M ! m)))"
    and at: "all_at wpos own M (backward_at own M (Suc m)) (children it)"
  shows "\<exists>ws. each_child (\<lambda>i w. if Some i \<noteq> mcurrent it then after_key cmp ops (merging_key it) w else Some w) it =
      Some (it\<lparr>children := ws\<rparr>) \<and> length ws = length (children it) \<and> all_at wpos own M (forward_at own M m) ws"
proof (rule each_child_at)
  fix i assume i: "i < length (children it)"
  let ?c = "own (fst (M ! m))"
  have wi: "wpos (part own i M) (backward_at own M (Suc m) i) (children it ! i)" using at i by (simp add: all_at_def)
  note cur' = current_at [OF M m at refl backward_Suc(1) [OF m]]
  have key: "merging_key it = fst (M ! m)" using cur cur'(4) by (simp add: merging_key_def)
  have v: "valid (fst (M ! m))" using merges_nth [OF M m] by simp
  show "\<exists>w. (if Some i \<noteq> mcurrent it then after_key cmp ops (merging_key it) (children it ! i) else Some (children it ! i)) = Some w \<and>
      wpos (part own i M) (forward_at own M m i) w"
  proof (cases "i = ?c")
    case True
    then show ?thesis using wi cur backward_Suc(1) [OF m, of own] by simp
  next
    case False
    obtain w where w: "wrapper_Seek ops (fst (M ! m)) (children it ! i) = Some w" "wpos (part own i M) (forward_at own M m i) w"
      using wpos_Seek [OF wi v] seek_forward [OF M v, of i] takeWhile_at [OF M m] by auto
    have "\<not> (w_valid w \<and> cmp (fst (M ! m)) (w_key w) = 0)"
    proof
      assume a: "w_valid w \<and> cmp (fst (M ! m)) (w_key w) = 0"
      then have lt: "forward_at own M m i < length (part own i M)" using wpos_valid [OF w(2)] by simp
      let ?e = "part own i M ! forward_at own M m i"
      have e: "?e \<in> set M" "own (fst ?e) = i" "w_key w = fst ?e"
        using wpos_entry [OF w(2) lt] nth_mem [OF lt] by (auto simp: part_def)
      then have "fst (M ! m) = fst ?e" using a v M cmp_eq [of "fst (M ! m)" "fst ?e"] by (simp add: merges_def)
      with e False show False by simp
    qed
    with w False cur show ?thesis by (auto simp: after_key_def key)
  qed
qed

lemma turn_backward:
  assumes M: "merges valid cmp own M (length (children it))" and m: "m < length M" and cur: "mcurrent it = Some (own (fst (M ! m)))"
    and at: "all_at wpos own M (forward_at own M m) (children it)"
  shows "\<exists>ws. each_child (\<lambda>i w. if Some i \<noteq> mcurrent it then before_key ops (merging_key it) w else Some w) it =
      Some (it\<lparr>children := ws\<rparr>) \<and> length ws = length (children it) \<and> all_at wpos own M (backward_at own M (Suc m)) ws"
proof (rule each_child_at)
  fix i assume i: "i < length (children it)"
  let ?c = "own (fst (M ! m))"
  have wi: "wpos (part own i M) (forward_at own M m i) (children it ! i)" using at i by (simp add: all_at_def)
  have key: "merging_key it = fst (M ! m)" using cur current_at(4) [OF M m at refl refl] by (simp add: merging_key_def)
  have v: "valid (fst (M ! m))" using merges_nth [OF M m] by simp
  show "\<exists>w. (if Some i \<noteq> mcurrent it then before_key ops (merging_key it) (children it ! i) else Some (children it ! i)) = Some w \<and>
      wpos (part own i M) (backward_at own M (Suc m) i) w"
  proof (cases "i = ?c")
    case True
    then show ?thesis using wi cur backward_Suc(1) [OF m, of own] by simp
  next
    case False
    obtain w where w: "wrapper_Seek ops (fst (M ! m)) (children it ! i) = Some w" "wpos (part own i M) (forward_at own M m i) w"
      using wpos_Seek [OF wi v] seek_forward [OF M v, of i] takeWhile_at [OF M m] by auto
    have "backward_at own M (Suc m) i = backward_at own M m i" using backward_Suc(2) [OF m] False by simp
    moreover have "backward_at own M m i = (if forward_at own M m i = 0 then length (part own i M) else forward_at own M m i - 1)"
      by (simp add: backward_at_def forward_at_def Let_def)
    ultimately show ?thesis
      using w False cur wpos_Prev [OF w(2)] wpos_SeekToLast [OF w(2)] wpos_valid [OF w(2)] wpos_bound [OF w(2)]
      by (cases "w_valid w") (auto simp: before_key_def key)
  qed
qed

lemma Next_merge:
  assumes "merge_pos valid cmp wpos M m it" and m: "m < length M"
  shows "\<exists>it'. merging_Next cmp ops it = Some it' \<and> merge_pos valid cmp wpos M (Suc m) it'"
proof -
  obtain own where M: "merges valid cmp own M (length (children it))" and cur: "mcurrent it = Some (own (fst (M ! m)))"
    and at: "all_at wpos own M (if direction it = kForward then forward_at own M m else backward_at own M (Suc m)) (children it)"
    using assms by (auto simp: merge_pos_def)
  let ?c = "own (fst (M ! m))"
  have "\<exists>it1. (if direction it \<noteq> kForward
        then map_option (\<lambda>m. m\<lparr>direction := kForward\<rparr>)
          (each_child (\<lambda>i w. if Some i \<noteq> mcurrent it then after_key cmp ops (merging_key it) w else Some w) it)
        else Some it) = Some it1 \<and> direction it1 = kForward \<and> mcurrent it1 = Some ?c \<and>
      length (children it1) = length (children it) \<and> all_at wpos own M (forward_at own M m) (children it1)"
    using at cur turn_forward [OF M m cur] by (cases "direction it = kForward") (use Direction.exhaust in auto)
  then obtain it1 where it1: "(if direction it \<noteq> kForward
        then map_option (\<lambda>m. m\<lparr>direction := kForward\<rparr>)
          (each_child (\<lambda>i w. if Some i \<noteq> mcurrent it then after_key cmp ops (merging_key it) w else Some w) it)
        else Some it) = Some it1" "direction it1 = kForward" "mcurrent it1 = Some ?c"
      "length (children it1) = length (children it)" "all_at wpos own M (forward_at own M m) (children it1)" by blast
  note c = current_at [OF M [folded it1(4)] m it1(5) refl refl]
  obtain w where w: "wrapper_Next ops (children it1 ! ?c) = Some w" "wpos (part own ?c M) (Suc (forward_at own M m ?c)) w"
    using wpos_Next [OF c(1,3)] by blast
  have "all_at wpos own M (forward_at own M (Suc m)) ((children it1)[?c := w])"
    using it1(5) w(2) c(2) by (auto simp: all_at_def forward_Suc [OF m] nth_list_update)
  with it1 w(1) M m settle_forward [of own M "it1\<lparr>children := (children it1)[?c := w]\<rparr>" "Suc m"]
  show ?thesis by (simp add: merging_Next_def move_current_def)
qed

lemma Prev_merge:
  assumes "merge_pos valid cmp wpos M m it" and m: "m < length M"
  shows "\<exists>it'. merging_Prev cmp ops it = Some it' \<and> merge_pos valid cmp wpos M (if m = 0 then length M else m - 1) it'"
proof -
  obtain own where M: "merges valid cmp own M (length (children it))" and cur: "mcurrent it = Some (own (fst (M ! m)))"
    and at: "all_at wpos own M (if direction it = kForward then forward_at own M m else backward_at own M (Suc m)) (children it)"
    using assms by (auto simp: merge_pos_def)
  let ?c = "own (fst (M ! m))"
  have "\<exists>it1. (if direction it \<noteq> kReverse
        then map_option (\<lambda>m. m\<lparr>direction := kReverse\<rparr>)
          (each_child (\<lambda>i w. if Some i \<noteq> mcurrent it then before_key ops (merging_key it) w else Some w) it)
        else Some it) = Some it1 \<and> direction it1 = kReverse \<and> mcurrent it1 = Some ?c \<and>
      length (children it1) = length (children it) \<and> all_at wpos own M (backward_at own M (Suc m)) (children it1)"
    using at cur turn_backward [OF M m cur] by (cases "direction it") auto
  then obtain it1 where it1: "(if direction it \<noteq> kReverse
        then map_option (\<lambda>m. m\<lparr>direction := kReverse\<rparr>)
          (each_child (\<lambda>i w. if Some i \<noteq> mcurrent it then before_key ops (merging_key it) w else Some w) it)
        else Some it) = Some it1" "direction it1 = kReverse" "mcurrent it1 = Some ?c"
      "length (children it1) = length (children it)" "all_at wpos own M (backward_at own M (Suc m)) (children it1)" by blast
  note c = current_at [OF M [folded it1(4)] m it1(5) refl backward_Suc(1) [OF m]]
  obtain w where w: "wrapper_Prev ops (children it1 ! ?c) = Some w"
    "wpos (part own ?c M) (if forward_at own M m ?c = 0 then length (part own ?c M) else forward_at own M m ?c - 1) w"
    using wpos_Prev [OF c(1,3)] unfolding backward_Suc(1) [OF m] by blast
  have "all_at wpos own M (backward_at own M m) ((children it1)[?c := w])"
    using it1(5) w(2) c(2) backward_Suc(2) [OF m, of _ own]
    by (auto simp: all_at_def nth_list_update backward_at_def forward_at_def Let_def)
  with it1 w(1) M m settle_backward [of own M "it1\<lparr>children := (children it1)[?c := w]\<rparr>" m]
  show ?thesis by (simp add: merging_Prev_def move_current_def)
qed

lemma merge_posE:
  assumes "merge_pos valid cmp wpos M m it"
  obtains own p where "merges valid cmp own M (length (children it))" "all_at wpos own M p (children it)" "m \<le> length M"
  using assms unfolding merge_pos_def by metis

lemma merge_pos_here:
  assumes "merge_pos valid cmp wpos M m it" and "m < length M"
  shows "(merging_key it, merging_value ops it) = M ! m"
proof -
  obtain own where M: "merges valid cmp own M (length (children it))" and cur: "mcurrent it = Some (own (fst (M ! m)))"
    and at: "all_at wpos own M (if direction it = kForward then forward_at own M m else backward_at own M (Suc m)) (children it)"
    using assms by (auto simp: merge_pos_def)
  show ?thesis
    using current_at(4,5) [OF M assms(2) at refl] backward_Suc(1) [OF assms(2), of own] cur
    by (simp add: merging_key_def merging_value_def prod_eq_iff split: if_splits)
qed

lemma first_error_OK: "\<forall>s \<in> set ss. s = OK \<Longrightarrow> first_error ss = OK"
  by (induction ss) simp_all

lemma merging_over: "iterator_over (merging_iterator cmp ops) (merge_pos valid cmp wpos) (\<lambda>a b. cmp a b < 0) valid"
proof (unfold_locales, goal_cases)
  case (1 M m it)
  then show ?case by (simp add: merge_pos_def)
next
  case (2 M m it)
  then show ?case by (auto simp: merge_pos_def merging_iterator_def merging_Valid_def split: if_splits)
next
  case (3 M m it)
  then show ?case using merge_pos_here by (simp add: merging_iterator_def)
next
  case (4 M m it)
  then obtain own p where "all_at wpos own M p (children it)" by (rule merge_posE)
  then have "\<forall>s \<in> set (map (\<lambda>w. op_status ops (w_iter w)) (children it)). s = OK"
    using wpos_status by (fastforce simp: all_at_def in_set_conv_nth)
  then show ?case by (simp add: merging_iterator_def merging_status_def first_error_OK)
next
  case (5 M m it)
  then show ?case using SeekToFirst_merge by (elim merge_posE) (simp add: merging_iterator_def)
next
  case (6 M m it)
  then show ?case using SeekToLast_merge by (elim merge_posE) (simp add: merging_iterator_def)
next
  case (7 M m it t)
  then show ?case using Seek_merge by (elim merge_posE) (simp add: merging_iterator_def)
next
  case (8 M m it)
  then show ?case using Next_merge by (simp add: merging_iterator_def)
next
  case (9 M m it)
  then show ?case using Prev_merge [of M m it] by (simp add: merging_iterator_def)
qed

text \<open>A new merging iterator is not positioned; its children may be anywhere.\<close>

lemma new_merging_pos:
  assumes "merges valid cmp own M (length its)" and "\<And>i. i < length its \<Longrightarrow> \<exists>q. pos (part own i M) q (its ! i)"
  shows "merge_pos valid cmp wpos M (length M) (new_MergingIterator ops its)"
proof -
  obtain q where "\<forall>i < length its. pos (part own i M) (q i) (its ! i)" using assms(2) by metis
  then have "all_at wpos own M q (map (wrapper_Set ops) its)"
    by (simp add: all_at_def wrapper_Set_def wrapper_Update_pos)
  then show ?thesis using assms(1) by (auto simp: merge_pos_def new_MergingIterator_def)
qed

end

sublocale merge_sources \<subseteq> merging: iterator_over "merging_iterator cmp ops" "merge_pos valid cmp wpos" "\<lambda>a b. cmp a b < 0" valid
  by (rule merging_over)

text \<open>Merging the blocks of tables of internal keys.\<close>

interpretation block_merge: merge_sources internal_valid "InternalKeyComparator_Compare Compare"
  "InternalKeyComparator_FindShortestSeparator Compare FindShortestSeparator"
  "InternalKeyComparator_FindShortSuccessor Compare FindShortSuccessor"
  "block_iterator (InternalKeyComparator_Compare Compare)" "block_pos internal_valid (InternalKeyComparator_Compare Compare)"
  by unfold_locales

end
