(* ===== verification/Ldb_Db_Iter.thy ===== *)
theory Ldb_Db_Iter
  imports Ldb_Merger Ldb_Skiplist
begin

unbundle bit_operations_syntax

text \<open>
  \<open>leveldb/db/db_iter.cc\<close>: the iterator that clients of a database see. Its source is an iterator over internal keys; it
  shows each user key once, with the newest value that its snapshot may see, and hides deleted keys. The proofs are in
  \<open>Ldb_Db_Iter_Proofs\<close>.
\<close>

section \<open>\<open>DBIter\<close>\<close>

definition kReadBytesPeriod :: u32 where
  "kReadBytesPeriod = 1048576"

text \<open>
  The directions have the names of those of the merging iterator. \<open>read_samples\<close> is the sequence of calls of \<open>DBImpl::RecordReadSample\<close>. The
  capacity of strings is not part of the model, so \<open>ClearSavedValue\<close> makes the value empty.
\<close>

record 'it DBIter =
  iter :: 'it
  snapshot :: u64
  db_status :: status
  saved_key :: "byte list"
  saved_value :: "byte list"
  db_direction :: Direction
  db_valid :: bool
  db_rnd :: u32
  bytes_until_read_sampling :: nat
  read_samples :: "slice list"

definition RandomCompactionPeriod :: "u32 \<Rightarrow> nat \<times> u32" where
  "RandomCompactionPeriod seed = (let (r, seed) = Uniform seed (2 * kReadBytesPeriod) in (unat r, seed))"

definition NewDBIterator :: "'it \<Rightarrow> u64 \<Rightarrow> u32 \<Rightarrow> 'it DBIter" where
  "NewDBIterator internal_iter s seed =
     (let (period, seed) = RandomCompactionPeriod (new_Random seed) in
      \<lparr>iter = internal_iter, snapshot = s, db_status = OK, saved_key = [], saved_value = [], db_direction = kForward, db_valid = False,
       db_rnd = seed, bytes_until_read_sampling = period, read_samples = []\<rparr>)"

definition DBIter_key :: "'it iterator \<Rightarrow> 'it DBIter \<Rightarrow> slice" where
  "DBIter_key ops d = (if db_direction d = kForward then ExtractUserKey (op_key ops (iter d)) else saved_key d)"

definition DBIter_value :: "'it iterator \<Rightarrow> 'it DBIter \<Rightarrow> slice" where
  "DBIter_value ops d = (if db_direction d = kForward then op_value ops (iter d) else saved_value d)"

definition DBIter_status :: "'it iterator \<Rightarrow> 'it DBIter \<Rightarrow> status" where
  "DBIter_status ops d = (if ok (db_status d) then op_status ops (iter d) else db_status d)"

definition ClearSavedValue :: "'it DBIter \<Rightarrow> 'it DBIter" where
  "ClearSavedValue d = d\<lparr>saved_value := []\<rparr>"

partial_function (option) sample_loop :: "slice \<Rightarrow> nat \<Rightarrow> 'it DBIter \<Rightarrow> 'it DBIter option" where
  "sample_loop k bytes_read d =
     (if bytes_until_read_sampling d < bytes_read
      then sample_loop k bytes_read
        (let (period, seed) = RandomCompactionPeriod (db_rnd d)
         in d\<lparr>db_rnd := seed, bytes_until_read_sampling := bytes_until_read_sampling d + period, read_samples := read_samples d @ [k]\<rparr>)
      else Some d)"

definition ParseKey :: "'it iterator \<Rightarrow> 'it DBIter \<Rightarrow> (ParsedInternalKey option \<times> 'it DBIter) option" where
  "ParseKey ops d =
     (let k = op_key ops (iter d); bytes_read = length k + length (op_value ops (iter d)) in
      map_option (\<lambda>d. let d = d\<lparr>bytes_until_read_sampling := bytes_until_read_sampling d - bytes_read\<rparr> in
        case ParseInternalKey k of
          None \<Rightarrow> (None, d\<lparr>db_status := Corruption (str ''corrupted internal key in DBIter'') []\<rparr>)
        | Some pkey \<Rightarrow> (Some pkey, d)) (sample_loop k bytes_read d))"

text \<open>The body of the loop of \<open>FindNextUserEntry\<close>: whether the entry is shown, and the new value of \<open>skipping\<close>. The string
  \<open>skip\<close> is \<open>saved_key_\<close> in all calls.\<close>

definition next_entry :: "(slice \<Rightarrow> slice \<Rightarrow> int) \<Rightarrow> bool \<Rightarrow> ParsedInternalKey option \<times> 'it DBIter \<Rightarrow> bool \<times> bool \<times> 'it DBIter" where
  "next_entry cmp skipping r =
     (case r of
        (Some pkey, d) \<Rightarrow>
          if sequence pkey \<le> snapshot d then
            (case vtype pkey of
               kTypeDeletion \<Rightarrow> (False, True, d\<lparr>saved_key := user_key pkey\<rparr>)
             | kTypeValue \<Rightarrow>
                 if skipping \<and> cmp (user_key pkey) (saved_key d) \<le> 0 then (False, skipping, d)
                 else (True, skipping, d\<lparr>db_valid := True, saved_key := []\<rparr>))
          else (False, skipping, d)
      | (None, d) \<Rightarrow> (False, skipping, d))"

partial_function (option) FindNextUserEntry :: "'it iterator \<Rightarrow> (slice \<Rightarrow> slice \<Rightarrow> int) \<Rightarrow> bool \<Rightarrow> 'it DBIter \<Rightarrow> 'it DBIter option" where
  "FindNextUserEntry ops cmp skipping d =
     Option.bind (map_option (next_entry cmp skipping) (ParseKey ops d)) (\<lambda>(shown, skipping, d).
       if shown then Some d
       else Option.bind (op_Next ops (iter d)) (\<lambda>it.
         if op_Valid ops it then FindNextUserEntry ops cmp skipping (d\<lparr>iter := it\<rparr>)
         else Some (d\<lparr>iter := it, saved_key := [], db_valid := False\<rparr>)))"

definition DBIter_Next :: "'it iterator \<Rightarrow> (slice \<Rightarrow> slice \<Rightarrow> int) \<Rightarrow> 'it DBIter \<Rightarrow> 'it DBIter option" where
  "DBIter_Next ops cmp d =
     (if db_direction d = kReverse then
        Option.bind (if \<not> op_Valid ops (iter d) then op_SeekToFirst ops (iter d) else op_Next ops (iter d)) (\<lambda>it.
          if \<not> op_Valid ops it then Some (d\<lparr>db_direction := kForward, iter := it, db_valid := False, saved_key := []\<rparr>)
          else FindNextUserEntry ops cmp True (d\<lparr>db_direction := kForward, iter := it\<rparr>))
      else FindNextUserEntry ops cmp True (d\<lparr>saved_key := ExtractUserKey (op_key ops (iter d))\<rparr>))"

text \<open>The loop of \<open>FindPrevUserEntry\<close>; the result is the value type at its end.\<close>

definition prev_entry :: "'it iterator \<Rightarrow> ValueType \<Rightarrow> ParsedInternalKey option \<times> 'it DBIter \<Rightarrow> ValueType \<times> 'it DBIter" where
  "prev_entry ops value_type r =
     (case r of
        (Some pkey, d) \<Rightarrow>
          if sequence pkey \<le> snapshot d then
            (vtype pkey,
             (case vtype pkey of
                kTypeDeletion \<Rightarrow> ClearSavedValue (d\<lparr>saved_key := []\<rparr>)
              | kTypeValue \<Rightarrow> d\<lparr>saved_key := ExtractUserKey (op_key ops (iter d)), saved_value := op_value ops (iter d)\<rparr>))
          else (value_type, d)
      | (None, d) \<Rightarrow> (value_type, d))"

definition prev_break :: "(slice \<Rightarrow> slice \<Rightarrow> int) \<Rightarrow> ValueType \<Rightarrow> ParsedInternalKey option \<times> 'it DBIter \<Rightarrow> bool" where
  "prev_break cmp value_type r \<longleftrightarrow>
     (case r of
        (Some pkey, d) \<Rightarrow> sequence pkey \<le> snapshot d \<and> value_type \<noteq> kTypeDeletion \<and> cmp (user_key pkey) (saved_key d) < 0
      | (None, d) \<Rightarrow> False)"

partial_function (option) find_prev_loop ::
  "'it iterator \<Rightarrow> (slice \<Rightarrow> slice \<Rightarrow> int) \<Rightarrow> ValueType \<Rightarrow> 'it DBIter \<Rightarrow> (ValueType \<times> 'it DBIter) option" where
  "find_prev_loop ops cmp value_type d =
     Option.bind (ParseKey ops d) (\<lambda>r.
       if prev_break cmp value_type r then Some (value_type, snd r)
       else (case prev_entry ops value_type r of (value_type, d) \<Rightarrow>
         Option.bind (op_Prev ops (iter d)) (\<lambda>it.
           if op_Valid ops it then find_prev_loop ops cmp value_type (d\<lparr>iter := it\<rparr>) else Some (value_type, d\<lparr>iter := it\<rparr>))))"

definition FindPrevUserEntry :: "'it iterator \<Rightarrow> (slice \<Rightarrow> slice \<Rightarrow> int) \<Rightarrow> 'it DBIter \<Rightarrow> 'it DBIter option" where
  "FindPrevUserEntry ops cmp d =
     map_option (\<lambda>(value_type, d).
       if value_type = kTypeDeletion then (ClearSavedValue (d\<lparr>db_valid := False, saved_key := []\<rparr>))\<lparr>db_direction := kForward\<rparr>
       else d\<lparr>db_valid := True\<rparr>)
     (if op_Valid ops (iter d) then find_prev_loop ops cmp kTypeDeletion d else Some (kTypeDeletion, d))"

text \<open>The loop that leaves the entries of the current key; \<open>None\<close> inside is that there is nothing before them.\<close>

partial_function (option) leave_key ::
  "'it iterator \<Rightarrow> (slice \<Rightarrow> slice \<Rightarrow> int) \<Rightarrow> slice \<Rightarrow> 'it \<Rightarrow> 'it option" where
  "leave_key ops cmp key it =
     Option.bind (op_Prev ops it) (\<lambda>it.
       if \<not> op_Valid ops it then Some it
       else if cmp (ExtractUserKey (op_key ops it)) key < 0 then Some it
       else leave_key ops cmp key it)"

definition DBIter_Prev :: "'it iterator \<Rightarrow> (slice \<Rightarrow> slice \<Rightarrow> int) \<Rightarrow> 'it DBIter \<Rightarrow> 'it DBIter option" where
  "DBIter_Prev ops cmp d =
     (if db_direction d = kForward then
        let key = ExtractUserKey (op_key ops (iter d)) in
        Option.bind (leave_key ops cmp key (iter d)) (\<lambda>it.
          if \<not> op_Valid ops it then Some (ClearSavedValue (d\<lparr>iter := it, db_valid := False, saved_key := []\<rparr>))
          else FindPrevUserEntry ops cmp (d\<lparr>iter := it, saved_key := key, db_direction := kReverse\<rparr>))
      else FindPrevUserEntry ops cmp d)"

definition DBIter_Seek :: "'it iterator \<Rightarrow> (slice \<Rightarrow> slice \<Rightarrow> int) \<Rightarrow> 'it DBIter \<Rightarrow> slice \<Rightarrow> 'it DBIter option" where
  "DBIter_Seek ops cmp d target =
     (let d = (ClearSavedValue (d\<lparr>db_direction := kForward\<rparr>))
            \<lparr>saved_key := AppendInternalKey [] \<lparr>user_key = target, sequence = snapshot d, vtype = kValueTypeForSeek\<rparr>\<rparr>
      in Option.bind (op_Seek ops (iter d) (saved_key d)) (\<lambda>it.
           if op_Valid ops it then FindNextUserEntry ops cmp False (d\<lparr>iter := it\<rparr>) else Some (d\<lparr>iter := it, db_valid := False\<rparr>)))"

definition DBIter_SeekToFirst :: "'it iterator \<Rightarrow> (slice \<Rightarrow> slice \<Rightarrow> int) \<Rightarrow> 'it DBIter \<Rightarrow> 'it DBIter option" where
  "DBIter_SeekToFirst ops cmp d =
     (let d = ClearSavedValue (d\<lparr>db_direction := kForward\<rparr>)
      in Option.bind (op_SeekToFirst ops (iter d)) (\<lambda>it.
           if op_Valid ops it then FindNextUserEntry ops cmp False (d\<lparr>iter := it\<rparr>) else Some (d\<lparr>iter := it, db_valid := False\<rparr>)))"

definition DBIter_SeekToLast :: "'it iterator \<Rightarrow> (slice \<Rightarrow> slice \<Rightarrow> int) \<Rightarrow> 'it DBIter \<Rightarrow> 'it DBIter option" where
  "DBIter_SeekToLast ops cmp d =
     (let d = ClearSavedValue (d\<lparr>db_direction := kReverse\<rparr>)
      in Option.bind (op_SeekToLast ops (iter d)) (\<lambda>it. FindPrevUserEntry ops cmp (d\<lparr>iter := it\<rparr>)))"

definition db_iterator :: "'it iterator \<Rightarrow> (slice \<Rightarrow> slice \<Rightarrow> int) \<Rightarrow> 'it DBIter iterator" where
  "db_iterator ops cmp =
     \<lparr>op_Valid = db_valid, op_SeekToFirst = DBIter_SeekToFirst ops cmp, op_SeekToLast = DBIter_SeekToLast ops cmp,
      op_Seek = DBIter_Seek ops cmp, op_Next = DBIter_Next ops cmp, op_Prev = DBIter_Prev ops cmp,
      op_key = DBIter_key ops, op_value = DBIter_value ops, op_status = DBIter_status ops\<rparr>"

end
