(* ===== verification/Ldb_Random_Access.thy ===== *)
theory Ldb_Random_Access
  imports Ldb_Env
begin

text \<open>
  The files that tables are read from: \<open>Limiter\<close>, \<open>PosixRandomAccessFile\<close> and \<open>PosixMmapReadableFile\<close> of
  \<open>leveldb/util/env_posix.cc\<close>, and the interface \<open>RandomAccessFile\<close> as a locale.
\<close>

section \<open>\<open>Limiter\<close>\<close>

text \<open>The state is \<open>acquires_allowed_\<close>.\<close>

definition Acquire :: "int \<Rightarrow> bool \<times> int" where
  "Acquire acquires_allowed =
     (let old_acquires_allowed = acquires_allowed;
          acquires_allowed = acquires_allowed - 1
      in if old_acquires_allowed > 0 then (True, acquires_allowed) else (False, acquires_allowed + 1))"

definition Release :: "int \<Rightarrow> int" where
  "Release acquires_allowed = acquires_allowed + 1"

section \<open>\<open>PosixRandomAccessFile\<close>\<close>

text \<open>\<open>open\<close> of the file once more, and \<open>pread\<close>, which leaves the offset of the descriptor alone and refuses a negative one.\<close>

definition sys_open :: "fd_state \<Rightarrow> (int + unit) \<times> fd_state" where
  "sys_open fd =
     (case fsched fd of
        [] \<Rightarrow> (Inr (), fd)
      | Fails e # sch \<Rightarrow> (Inl e, fd\<lparr>fsched := sch\<rparr>)
      | Transfers k # sch \<Rightarrow> (Inr (), fd\<lparr>fsched := sch\<rparr>))"

definition sys_pread :: "fd_state \<Rightarrow> nat \<Rightarrow> u64 \<Rightarrow> (int + byte list) \<times> fd_state" where
  "sys_pread fd n off =
     (if sint off < 0 then (Inl EINVAL, fd)
      else
        let avail = drop (unat off) (fdata fd) in
        case fsched fd of
          [] \<Rightarrow> (Inr (take n avail), fd)
        | Fails e # sch \<Rightarrow> (Inl e, fd\<lparr>fsched := sch\<rparr>)
        | Transfers k # sch \<Rightarrow> (Inr (take (min k n) avail), fd\<lparr>fsched := sch\<rparr>))"

record PosixRandomAccessFile =
  has_permanent_fd :: bool
  rfd :: fd_state
  rfilename :: "byte list"

definition new_PosixRandomAccessFile :: "byte list \<Rightarrow> fd_state \<Rightarrow> int \<Rightarrow> PosixRandomAccessFile \<times> int" where
  "new_PosixRandomAccessFile name fd fd_limiter =
     (case Acquire fd_limiter of (permanent, fd_limiter) \<Rightarrow>
        (\<lparr>has_permanent_fd = permanent, rfd = fd, rfilename = name\<rparr>, fd_limiter))"

text \<open>
  Reads return the status, the slice, whether the slice is in the caller's \<open>scratch\<close>, and the file. Where the code
  does not set \<open>*result\<close> it keeps its value.
\<close>

definition PosixRandomAccessFile_Read ::
  "PosixRandomAccessFile \<Rightarrow> u64 \<Rightarrow> nat \<Rightarrow> slice \<Rightarrow> status \<times> slice \<times> bool \<times> PosixRandomAccessFile" where
  "PosixRandomAccessFile_Read f offset n result =
     (case (if has_permanent_fd f then (Inr (), rfd f) else sys_open (rfd f)) of
        (Inl e, fd) \<Rightarrow> (PosixError fd (rfilename f) e, result, True, f\<lparr>rfd := fd\<rparr>)
      | (Inr _, fd) \<Rightarrow>
          (case sys_pread fd n offset of
             (Inl e, fd) \<Rightarrow> (PosixError fd (rfilename f) e, [], True, f\<lparr>rfd := fd\<rparr>)
           | (Inr d, fd) \<Rightarrow> (OK, d, True, f\<lparr>rfd := fd\<rparr>)))"

section \<open>\<open>PosixMmapReadableFile\<close>\<close>

text \<open>
  \<open>mmap_base_[0, length_ - 1]\<close> is a list. \<open>offset + n\<close> is added with 64 bits. A slice outside the mapping is
  undefined; here it is cut at the end of it.
\<close>

record PosixMmapReadableFile =
  mmap_bytes :: "byte list"
  mmap_filename :: "byte list"
  mmap_strerror :: "int \<Rightarrow> byte list"

definition PosixMmapReadableFile_Read ::
  "PosixMmapReadableFile \<Rightarrow> u64 \<Rightarrow> nat \<Rightarrow> slice \<Rightarrow> status \<times> slice \<times> bool \<times> PosixMmapReadableFile" where
  "PosixMmapReadableFile_Read f offset n result =
     (if unat (offset + word_of_nat n) > length (mmap_bytes f)
      then (IOError (mmap_filename f) (mmap_strerror f EINVAL), [], False, f)
      else (OK, take n (drop (unat offset) (mmap_bytes f)), False, f))"

section \<open>The interface\<close>

text \<open>\<open>steady\<close> files are those on which no read fails or stops early.\<close>

locale random_access_file =
  fixes read :: "'f \<Rightarrow> u64 \<Rightarrow> nat \<Rightarrow> slice \<Rightarrow> status \<times> slice \<times> bool \<times> 'f" and contents :: "'f \<Rightarrow> byte list"
    and steady :: "'f \<Rightarrow> bool"
  assumes read_contents: "read f off n r = (s, d, b, f') \<Longrightarrow> contents f' = contents f"
    and read_length: "read f off n r = (s, d, b, f') \<Longrightarrow> ok s \<Longrightarrow> length d \<le> n"
    and read_steady: "steady f \<Longrightarrow> unat off + n \<le> length (contents f) \<Longrightarrow> read f off n r = (s, d, b, f') \<Longrightarrow>
      s = OK \<and> d = take n (drop (unat off) (contents f)) \<and> steady f'"

definition rcontents :: "PosixRandomAccessFile \<Rightarrow> byte list" where
  "rcontents f = fdata (rfd f)"

definition rsteady :: "PosixRandomAccessFile \<Rightarrow> bool" where
  "rsteady f \<longleftrightarrow> fsched (rfd f) = [] \<and> length (fdata (rfd f)) < 2 ^ 63"

lemma sint_below: "unat w < 2 ^ 63 \<Longrightarrow> 0 \<le> sint w" for w :: u64
proof -
  assume "unat w < 2 ^ 63"
  then have "uint w < 2 ^ 63" by (metis nat_less_numeral_power_cancel_iff unat_eq_nat_uint)
  moreover have "- (2 ^ 63) \<le> uint w" by (rule order_trans [of _ 0]) simp_all
  ultimately have "sint w = uint w" by (simp add: sint_uint signed_take_bit_int_eq_self)
  then show ?thesis by simp
qed

interpretation rf: random_access_file PosixRandomAccessFile_Read rcontents rsteady
proof
  show "rcontents f' = rcontents f" if "PosixRandomAccessFile_Read f off n r = (s, d, b, f')" for f off n r s d b f'
    using that by (auto simp: PosixRandomAccessFile_Read_def sys_open_def sys_pread_def Let_def rcontents_def
      split: prod.splits if_splits sum.splits list.splits outcome.splits)
  show "length d \<le> n" if "PosixRandomAccessFile_Read f off n r = (s, d, b, f')" "ok s" for f off n r s d b f'
    using that by (auto simp: PosixRandomAccessFile_Read_def sys_pread_def Let_def
      split: prod.splits if_splits sum.splits list.splits outcome.splits)
  show "s = OK \<and> d = take n (drop (unat off) (rcontents f)) \<and> rsteady f'"
    if "rsteady f" "unat off + n \<le> length (rcontents f)" "PosixRandomAccessFile_Read f off n r = (s, d, b, f')" for f off n r s d b f'
  proof -
    have "unat off < 2 ^ 63" using that(1,2) by (simp add: rsteady_def rcontents_def)
    with that sint_below [of off] show ?thesis
      by (auto simp: PosixRandomAccessFile_Read_def sys_open_def sys_pread_def rsteady_def rcontents_def Let_def split: if_splits)
  qed
qed

interpretation mf: random_access_file PosixMmapReadableFile_Read mmap_bytes "\<lambda>f. length (mmap_bytes f) < 2 ^ 63"
proof
  show "s = OK \<and> d = take n (drop (unat off) (mmap_bytes f)) \<and> length (mmap_bytes f') < 2 ^ 63"
    if "length (mmap_bytes f) < 2 ^ 63" "unat off + n \<le> length (mmap_bytes f)" "PosixMmapReadableFile_Read f off n r = (s, d, b, f')"
    for f off n r s d b f'
  proof -
    have "unat (off + word_of_nat n) \<le> unat off + n" for off :: u64 and n
      unfolding unat_plus_if' unsigned_of_nat using take_bit_nat_less_eq_self [of "LENGTH(64)" n] unfolding of_nat_id by (simp only: split: if_split) linarith
    from this [of off n] that show ?thesis by (auto simp: PosixMmapReadableFile_Read_def split: if_splits)
  qed
qed (auto simp: PosixMmapReadableFile_Read_def split: if_splits)

text \<open>The bound check of the mapped file wraps: a read far outside the mapping is accepted.\<close>

lemma mmap_read_wraps:
  assumes "0 < n" and "n \<le> length (mmap_bytes f)" and "length (mmap_bytes f) < 2 ^ 63"
  shows "\<exists>offset d. PosixMmapReadableFile_Read f offset n r = (OK, d, False, f) \<and> length (mmap_bytes f) < unat offset"
proof -
  have "unat (- 1 :: u64) = 2 ^ 64 - 1" by (simp add: unsigned_minus_1_eq_mask mask_eq_exp_minus_1)
  moreover have "unat (- 1 + word_of_nat n :: u64) \<le> length (mmap_bytes f)"
  proof -
    have "(- 1 + word_of_nat n :: u64) = word_of_nat (n - 1)" using assms(1) by (simp add: of_nat_diff)
    moreover have "unat (word_of_nat (n - 1) :: u64) \<le> n - 1" by (simp add: unsigned_of_nat take_bit_nat_eq_self_iff take_bit_nat_less_eq_self)
    ultimately show ?thesis using assms(2) by simp
  qed
  ultimately show ?thesis using assms by (intro exI [of _ "- 1"]) (simp add: PosixMmapReadableFile_Read_def)
qed

end
