(* ===== verification/Ldb_Format.thy ===== *)
theory Ldb_Format
  imports Ldb_Random_Access Ldb_Crc32c
begin

unbundle bit_operations_syntax

text \<open>
  \<open>leveldb/table/format.cc\<close>: handles that point to blocks of a table file, the footer at its end, and reading a block
  with its trailer. Shown here: handles and footers read back, and \<open>ReadBlock\<close> returns the block that was stored.
\<close>

section \<open>\<open>BlockHandle\<close>\<close>

record BlockHandle =
  h_offset :: u64
  h_size :: u64

definition new_BlockHandle :: BlockHandle where
  "new_BlockHandle = \<lparr>h_offset = NOT 0, h_size = NOT 0\<rparr>"

definition kMaxEncodedLength :: nat where
  "kMaxEncodedLength = 10 + 10"

definition BlockHandle_EncodeTo :: "byte list \<Rightarrow> BlockHandle \<Rightarrow> byte list" where
  "BlockHandle_EncodeTo dst h = PutVarint64 (PutVarint64 dst (h_offset h)) (h_size h)"

text \<open>The status, the handle and the rest of the input; what was read before a failure stays in the handle.\<close>

definition BlockHandle_DecodeFrom :: "BlockHandle \<Rightarrow> slice \<Rightarrow> status \<times> BlockHandle \<times> slice" where
  "BlockHandle_DecodeFrom h input =
     (case GetVarint64 input of
        None \<Rightarrow> (Corruption (str ''bad block handle'') [], h, input)
      | Some (off, input) \<Rightarrow>
          let h = h\<lparr>h_offset := off\<rparr> in
          (case GetVarint64 input of
             None \<Rightarrow> (Corruption (str ''bad block handle'') [], h, input)
           | Some (sz, input) \<Rightarrow> (OK, h\<lparr>h_size := sz\<rparr>, input)))"

section \<open>\<open>Footer\<close>\<close>

record Footer =
  metaindex_handle :: BlockHandle
  index_handle :: BlockHandle

definition new_Footer :: Footer where
  "new_Footer = \<lparr>metaindex_handle = new_BlockHandle, index_handle = new_BlockHandle\<rparr>"

definition kEncodedLength :: nat where
  "kEncodedLength = 2 * kMaxEncodedLength + 8"

definition kTableMagicNumber :: u64 where
  "kTableMagicNumber = 0xdb4775248b80fb57"

text \<open>\<open>resize\<close> cuts the string or fills it with zero bytes.\<close>

definition resize :: "byte list \<Rightarrow> nat \<Rightarrow> byte list" where
  "resize s n = take n s @ replicate (n - length s) 0"

definition Footer_EncodeTo :: "byte list \<Rightarrow> Footer \<Rightarrow> byte list" where
  "Footer_EncodeTo dst f =
     (let dst = BlockHandle_EncodeTo dst (metaindex_handle f);
          dst = BlockHandle_EncodeTo dst (index_handle f);
          dst = resize dst (2 * kMaxEncodedLength);
          dst = PutFixed32 dst (ucast (kTableMagicNumber AND 0xffffffff))
      in PutFixed32 dst (ucast (drop_bit 32 kTableMagicNumber)))"

text \<open>The input has to have \<open>kEncodedLength\<close> bytes; the code does not test it.\<close>

definition Footer_DecodeFrom :: "Footer \<Rightarrow> slice \<Rightarrow> status \<times> Footer \<times> slice" where
  "Footer_DecodeFrom f input =
     (let magic_ptr = drop (kEncodedLength - 8) input;
          magic_lo = DecodeFixed32 magic_ptr;
          magic_hi = DecodeFixed32 (drop 4 magic_ptr);
          magic = push_bit 32 (ucast magic_hi) OR ucast magic_lo
      in if magic \<noteq> kTableMagicNumber
         then (Corruption (str ''not an sstable (bad magic number)'') [], f, input)
         else
           let (result, h, rest) = BlockHandle_DecodeFrom (metaindex_handle f) input;
               f = f\<lparr>metaindex_handle := h\<rparr>;
               (result, h, rest) = (if ok result then BlockHandle_DecodeFrom (index_handle f) rest else (result, index_handle f, rest));
               f = f\<lparr>index_handle := h\<rparr>
           in if ok result then (result, f, drop 8 magic_ptr) else (result, f, rest))"

section \<open>\<open>ReadBlock\<close>\<close>

text \<open>Compression with Snappy, as \<open>port/port.h\<close> declares it, and the port of a build without Snappy.\<close>

record snappy_port =
  Snappy_Compress :: "slice \<Rightarrow> slice option"
  Snappy_GetUncompressedLength :: "slice \<Rightarrow> nat option"
  Snappy_Uncompress :: "slice \<Rightarrow> slice option"

definition port_stdcxx :: snappy_port where
  "port_stdcxx =
     \<lparr>Snappy_Compress = \<lambda>_. None, Snappy_GetUncompressedLength = \<lambda>_. None, Snappy_Uncompress = \<lambda>_. None\<rparr>"

datatype CompressionType = kNoCompression | kSnappyCompression

fun compression_number :: "CompressionType \<Rightarrow> byte" where
  "compression_number kNoCompression = 0"
| "compression_number kSnappyCompression = 1"

definition kBlockTrailerSize :: nat where
  "kBlockTrailerSize = 5"

record BlockContents =
  bc_data :: slice
  cachable :: bool
  heap_allocated :: bool

text \<open>
  \<open>n + kBlockTrailerSize\<close> is added with 64 bits. When it wraps, the code goes on to read outside of the bytes it has; the
  model has zeros there. \<open>a\<close> is the address of the data, on which only the steps of the checksum depend.
\<close>

definition ReadBlock ::
  "addr \<Rightarrow> ('f \<Rightarrow> u64 \<Rightarrow> nat \<Rightarrow> slice \<Rightarrow> status \<times> slice \<times> bool \<times> 'f) \<Rightarrow> snappy_port \<Rightarrow> bool \<Rightarrow> 'f \<Rightarrow> BlockHandle \<Rightarrow>
   status \<times> BlockContents \<times> 'f" where
  "ReadBlock a read port verify_checksums file handle =
     (let result = \<lparr>bc_data = [], cachable = False, heap_allocated = False\<rparr>;
          n = unat (h_size handle);
          (s, contents, in_scratch, file) = read file (h_offset handle) (size_add n kBlockTrailerSize) []
      in if \<not> ok s then (s, result, file)
         else if length contents \<noteq> size_add n kBlockTrailerSize then (Corruption (str ''truncated block read'') [], result, file)
         else if verify_checksums \<and> Value a (take (n + 1) contents) \<noteq> Unmask (DecodeFixed32 (drop (n + 1) contents))
         then (Corruption (str ''block checksum mismatch'') [], result, file)
         else
           let t = (if n < length contents then contents ! n else 0) in
           if t = compression_number kNoCompression then
             (OK, \<lparr>bc_data = take n contents, cachable = in_scratch, heap_allocated = in_scratch\<rparr>, file)
           else if t = compression_number kSnappyCompression then
             (case Snappy_GetUncompressedLength port (take n contents) of
                None \<Rightarrow> (Corruption (str ''corrupted compressed block contents'') [], result, file)
              | Some ulength \<Rightarrow>
                  (case Snappy_Uncompress port (take n contents) of
                     None \<Rightarrow> (Corruption (str ''corrupted compressed block contents'') [], result, file)
                   | Some ubuf \<Rightarrow> (OK, \<lparr>bc_data = take ulength ubuf, cachable = True, heap_allocated = True\<rparr>, file)))
           else (Corruption (str ''bad block type'') [], result, file))"

section \<open>Handles and footers read back\<close>

definition handle_bytes :: "BlockHandle \<Rightarrow> byte list" where
  "handle_bytes h = BlockHandle_EncodeTo [] h"

lemma BlockHandle_EncodeTo_bytes: "BlockHandle_EncodeTo dst h = dst @ handle_bytes h"
  by (simp add: handle_bytes_def BlockHandle_EncodeTo_def PutVarint64_def)

lemma BlockHandle_decode: "BlockHandle_DecodeFrom h0 (handle_bytes h @ rest) = (OK, h, rest)"
  by (simp add: BlockHandle_DecodeFrom_def handle_bytes_def BlockHandle_EncodeTo_def PutVarint64_def
      varint64_codec.get_put)

interpretation handle_codec: put_get handle_bytes
  "\<lambda>input. case BlockHandle_DecodeFrom new_BlockHandle input of (s, h, rest) \<Rightarrow> if ok s then Some (h, rest) else None" "\<lambda>_. True"
  by unfold_locales (simp add: BlockHandle_decode)

lemma varint_spec_length: "v < 128 ^ n \<Longrightarrow> 0 < n \<Longrightarrow> length (varint_spec v) \<le> n"
proof (induction v arbitrary: n rule: varint_spec.induct)
  case (1 v)
  show ?case
  proof (cases "v < 128")
    case True
    with 1(3) show ?thesis by (simp add: varint_spec_last)
  next
    case False
    from 1(3) obtain m where "n = Suc m" by (cases n) auto
    moreover from this 1(2) False have "0 < m" by (cases m) auto
    ultimately have n: "n = Suc m" "0 < m" .
    with 1(2) have "v div 128 < 128 ^ m" by (simp add: less_mult_imp_div_less mult.commute)
    with 1(1) [OF False _ n(2)] False n show ?thesis by (simp add: varint_spec_step)
  qed
qed

lemma handle_bytes_length: "length (handle_bytes h) \<le> kMaxEncodedLength"
proof -
  have "unat v < 128 ^ 10" for v :: u64 using unsigned_less [of v, where 'a = nat] by simp
  from varint_spec_length [OF this] have "length (EncodeVarint64 v) \<le> 10" for v by (simp add: EncodeVarint64_spec)
  from add_mono [OF this [of "h_offset h"] this [of "h_size h"]] show ?thesis
    by (simp add: handle_bytes_def BlockHandle_EncodeTo_def PutVarint64_def kMaxEncodedLength_def)
qed

definition magic_bytes :: "byte list" where
  "magic_bytes = EncodeFixed32 (ucast (kTableMagicNumber AND 0xffffffff)) @ EncodeFixed32 (ucast (drop_bit 32 kTableMagicNumber))"

lemma Footer_EncodeTo_bytes:
  "Footer_EncodeTo [] f = resize (handle_bytes (metaindex_handle f) @ handle_bytes (index_handle f)) 40 @ magic_bytes"
  by (simp add: Footer_EncodeTo_def Let_def BlockHandle_EncodeTo_bytes PutFixed32_def magic_bytes_def kMaxEncodedLength_def)

lemma length_resize [simp]: "length (resize s n) = n"
  by (simp add: resize_def)

lemma Footer_length: "length (Footer_EncodeTo [] f) = kEncodedLength"
  by (simp add: Footer_EncodeTo_bytes magic_bytes_def kEncodedLength_def kMaxEncodedLength_def)

lemma Footer_decode: "Footer_DecodeFrom f0 (Footer_EncodeTo [] f @ rest) = (OK, f, rest)"
proof -
  let ?h = "handle_bytes (metaindex_handle f) @ handle_bytes (index_handle f)"
  have "length ?h \<le> 40"
    using handle_bytes_length [of "metaindex_handle f"] handle_bytes_length [of "index_handle f"] by (simp add: kMaxEncodedLength_def)
  then have pad: "resize ?h 40 = ?h @ replicate (40 - length ?h) 0" by (simp add: resize_def)
  have "DecodeFixed32 (magic_bytes @ rest) = ucast (kTableMagicNumber AND 0xffffffff)"
    "DecodeFixed32 (drop 4 (magic_bytes @ rest)) = ucast (drop_bit 32 kTableMagicNumber)"
    by (simp_all add: magic_bytes_def)
  moreover have "push_bit 32 (ucast (ucast (drop_bit 32 kTableMagicNumber) :: u32)) OR
      ucast (ucast (kTableMagicNumber AND 0xffffffff) :: u32) = kTableMagicNumber"
    unfolding kTableMagicNumber_def by code_simp
  moreover have "length magic_bytes = 8" by (simp add: magic_bytes_def)
  ultimately show ?thesis
    by (simp add: Footer_DecodeFrom_def Let_def kEncodedLength_def kMaxEncodedLength_def Footer_EncodeTo_bytes)
      (simp add: pad BlockHandle_decode)
qed

section \<open>Stored blocks\<close>

text \<open>What the code relies on of Snappy: compression is inverted, and is for data of less than 4 GB.\<close>

definition snappy_ok :: "snappy_port \<Rightarrow> bool" where
  "snappy_ok port \<longleftrightarrow> (\<forall>raw c. Snappy_Compress port raw = Some c \<longrightarrow>
     Snappy_GetUncompressedLength port c = Some (length raw) \<and> Snappy_Uncompress port c = Some raw \<and> length raw < 2 ^ 32)"

lemma port_stdcxx_ok: "snappy_ok port_stdcxx"
  by (simp add: snappy_ok_def port_stdcxx_def)

text \<open>A block as it is stored: its contents, its type and the checksum of both.\<close>

definition stored_bytes :: "byte list \<Rightarrow> CompressionType \<Rightarrow> byte list" where
  "stored_bytes c t = (c @ [compression_number t]) @ EncodeFixed32 (Mask (crc32c_ref 0 (c @ [compression_number t])))"

definition unpacks :: "snappy_port \<Rightarrow> CompressionType \<Rightarrow> byte list \<Rightarrow> byte list \<Rightarrow> bool" where
  "unpacks port t c raw \<longleftrightarrow>
     (case t of
        kNoCompression \<Rightarrow> c = raw
      | kSnappyCompression \<Rightarrow>
          Snappy_GetUncompressedLength port c = Some (length raw) \<and> Snappy_Uncompress port c = Some raw \<and> length raw < 2 ^ 32)"

definition stored_at :: "snappy_port \<Rightarrow> byte list \<Rightarrow> BlockHandle \<Rightarrow> byte list \<Rightarrow> bool" where
  "stored_at port F h raw \<longleftrightarrow> (\<exists>c t x y. F = x @ stored_bytes c t @ y \<and> h_offset h = word_of_nat (length x) \<and>
     h_size h = word_of_nat (length c) \<and> unpacks port t c raw)"

lemma length_stored [simp]: "length (stored_bytes c t) = length c + kBlockTrailerSize"
  by (simp add: stored_bytes_def kBlockTrailerSize_def)

lemma stored_at_short: "stored_at port F h raw \<Longrightarrow> length F < 2 ^ 32 \<Longrightarrow> length raw < 2 ^ 32"
  unfolding stored_at_def
proof (elim exE conjE)
  fix c t x y assume "length F < 2 ^ 32" "F = x @ stored_bytes c t @ y" "unpacks port t c raw"
  then show "length raw < 2 ^ 32" by (cases t) (auto simp: unpacks_def)
qed

lemma stored_at_append: "stored_at port F h raw \<Longrightarrow> stored_at port (F @ z) h raw"
  unfolding stored_at_def by (metis append_assoc)

context random_access_file
begin

text \<open>Whether the checksum is verified or not, a stored block is read back.\<close>

lemma ReadBlock_stored:
  assumes st: "stored_at port (contents f) h raw" and f: "steady f" and len: "length (contents f) < 2 ^ 63"
  shows "\<exists>r f'. ReadBlock a read port verify f h = (OK, r, f') \<and> bc_data r = raw \<and> steady f' \<and> contents f' = contents f"
proof -
  from st obtain c t x y where F: "contents f = x @ stored_bytes c t @ y" and w: "h_offset h = word_of_nat (length x)"
    "h_size h = word_of_nat (length c)" and u: "unpacks port t c raw" by (auto simp: stored_at_def)
  have h: "unat (h_offset h) = length x" "unat (h_size h) = length c"
    using F len by (simp_all add: w unsigned_of_nat take_bit_nat_eq_self)
  have n: "size_add (length c) kBlockTrailerSize = length c + kBlockTrailerSize"
    using F len by (intro size_add_small) simp
  obtain s d b f' where r: "read f (h_offset h) (length c + kBlockTrailerSize) [] = (s, d, b, f')" by (metis prod_cases4)
  from read_steady [OF f _ r] read_contents [OF r] F h
  have d: "s = OK" "d = stored_bytes c t" "steady f'" "contents f' = contents f" by simp_all
  have "take (length c + 1) d = c @ [compression_number t]" "drop (length c + 1) d = EncodeFixed32 (Mask (crc32c_ref 0 (c @ [compression_number t])))"
    by (simp_all add: d stored_bytes_def)
  then have crc: "Value a (take (length c + 1) d) = Unmask (DecodeFixed32 (drop (length c + 1) d))"
    using DecodeFixed32_encode [of _ "[]"] by (simp add: Value_def Extend_eq Unmask_Mask)
  have t: "d ! length c = compression_number t" "length c < length d" "take (length c) d = c" "length d = length c + kBlockTrailerSize"
    by (simp_all add: d stored_bytes_def nth_append kBlockTrailerSize_def)
  show ?thesis
  proof (cases t)
    case kNoCompression
    with u have "raw = c" by (simp add: unpacks_def)
    with kNoCompression d(1,3,4) crc t show ?thesis by (auto simp: ReadBlock_def Let_def h n r)
  next
    case kSnappyCompression
    with u d(1,3,4) crc t show ?thesis by (auto simp: ReadBlock_def Let_def h n r unpacks_def)
  qed
qed

end

end
