(* ===== verification/Ldb_Filter_Block.thy ===== *)
theory Ldb_Filter_Block
  imports Ldb_Dbformat
begin

unbundle bit_operations_syntax

text \<open>
  \<open>leveldb/table/filter_block.cc\<close>: the block of a table that holds the filters of its data blocks, one for each 2 KB
  of file offset. The filter policy is a parameter. Shown here, for every policy that meets the interface
  \<open>filter_policy\<close>: a key that was added for a block is never reported absent from it.
\<close>

section \<open>Builder\<close>

definition kFilterBaseLg :: nat where
  "kFilterBaseLg = 11"

definition kFilterBase :: nat where
  "kFilterBase = 2 ^ kFilterBaseLg"

text \<open>\<open>tmp_keys_\<close> has a value only within \<open>GenerateFilter\<close>. The elements of \<open>filter_offsets\<close> are 32-bit.\<close>

record FilterBlockBuilder =
  flat_keys :: "byte list"
  key_starts :: "nat list"
  filter_result :: "byte list"
  filter_offsets :: "u32 list"

definition new_FilterBlockBuilder :: FilterBlockBuilder where
  "new_FilterBlockBuilder = \<lparr>flat_keys = [], key_starts = [], filter_result = [], filter_offsets = []\<rparr>"

definition AddKey :: "slice \<Rightarrow> FilterBlockBuilder \<Rightarrow> FilterBlockBuilder" where
  "AddKey key b = b\<lparr>key_starts := key_starts b @ [length (flat_keys b)], flat_keys := flat_keys b @ key\<rparr>"

definition tmp_keys :: "nat list \<Rightarrow> byte list \<Rightarrow> slice list" where
  "tmp_keys starts flat =
     (let start = starts @ [length flat]
      in map (\<lambda>i. take (start ! (i + 1) - start ! i) (drop (start ! i) flat)) [0..<length starts])"

definition GenerateFilter :: "(slice list \<Rightarrow> byte list \<Rightarrow> byte list) \<Rightarrow> FilterBlockBuilder \<Rightarrow> FilterBlockBuilder" where
  "GenerateFilter create b =
     (let b' = b\<lparr>filter_offsets := filter_offsets b @ [word_of_nat (length (filter_result b))]\<rparr>
      in if length (key_starts b) = 0 then b'
         else b'\<lparr>filter_result := create (tmp_keys (key_starts b) (flat_keys b)) (filter_result b),
                 flat_keys := [], key_starts := []\<rparr>)"

text \<open>The loop of \<open>StartBlock\<close>.\<close>

function generate_until :: "(slice list \<Rightarrow> byte list \<Rightarrow> byte list) \<Rightarrow> nat \<Rightarrow> FilterBlockBuilder \<Rightarrow> FilterBlockBuilder" where
  "generate_until create filter_index b =
     (if filter_index > length (filter_offsets b) then generate_until create filter_index (GenerateFilter create b) else b)"
  by pat_completeness auto
termination
  by (relation "measure (\<lambda>(_, n, b). n - length (filter_offsets b))") (auto simp: GenerateFilter_def Let_def)

declare generate_until.simps [simp del]

definition StartBlock :: "(slice list \<Rightarrow> byte list \<Rightarrow> byte list) \<Rightarrow> u64 \<Rightarrow> FilterBlockBuilder \<Rightarrow> FilterBlockBuilder" where
  "StartBlock create block_offset b = generate_until create (unat block_offset div kFilterBase) b"

definition FilterBlockBuilder_Finish ::
  "(slice list \<Rightarrow> byte list \<Rightarrow> byte list) \<Rightarrow> FilterBlockBuilder \<Rightarrow> slice \<times> FilterBlockBuilder" where
  "FilterBlockBuilder_Finish create b =
     (let b = (if key_starts b \<noteq> [] then GenerateFilter create b else b);
          array_offset = word_of_nat (length (filter_result b)) :: u32;
          r = foldl PutFixed32 (filter_result b) (filter_offsets b);
          r = PutFixed32 r array_offset @ [word_of_nat kFilterBaseLg]
      in (r, b\<lparr>filter_result := r\<rparr>))"

section \<open>Reader\<close>

text \<open>The byte of the encoding parameter is a signed \<open>char\<close> widened to \<open>size_t\<close>; shifting by 64 and more is undefined in C++.\<close>

record FilterBlockReader =
  fr_data :: slice
  fr_offset :: nat
  fr_num :: nat
  base_lg :: nat

definition new_FilterBlockReader :: "slice \<Rightarrow> FilterBlockReader" where
  "new_FilterBlockReader contents =
     (let n = length contents;
          none = \<lparr>fr_data = [], fr_offset = 0, fr_num = 0, base_lg = 0\<rparr>
      in if n < 5 then none
         else
           let none = none\<lparr>base_lg := unat (scast (contents ! (n - 1)) :: u64)\<rparr>;
               last_word = DecodeFixed32 (drop (n - 5) contents)
           in if unat last_word > n - 5 then none
              else none\<lparr>fr_data := contents, fr_offset := unat last_word, fr_num := (n - 5 - unat last_word) div 4\<rparr>)"

definition FilterBlockReader_KeyMayMatch :: "(slice \<Rightarrow> slice \<Rightarrow> bool) \<Rightarrow> FilterBlockReader \<Rightarrow> u64 \<Rightarrow> slice \<Rightarrow> bool" where
  "FilterBlockReader_KeyMayMatch may_match r block_offset key =
     (let index = unat (drop_bit (base_lg r) block_offset) in
      if index < fr_num r then
        let start = DecodeFixed32 (drop (fr_offset r + index * 4) (fr_data r));
            limit = DecodeFixed32 (drop (fr_offset r + index * 4 + 4) (fr_data r))
        in if start \<le> limit \<and> unat limit \<le> fr_offset r
           then may_match key (take (unat (limit - start)) (drop (unat start) (fr_data r)))
           else if start = limit then False
           else True
      else True)"

section \<open>The groups of keys\<close>

text \<open>
  The abstract builder is a list of finished groups of keys and the group in progress. \<open>filters\<close> is the filter data
  and the offsets for finished groups; an empty group has no data.
\<close>

definition add_filter :: "(slice list \<Rightarrow> byte list \<Rightarrow> byte list) \<Rightarrow> byte list \<times> u32 list \<Rightarrow> slice list \<Rightarrow> byte list \<times> u32 list" where
  "add_filter create acc g = (if g = [] then fst acc else create g (fst acc), snd acc @ [word_of_nat (length (fst acc))])"

definition filters :: "(slice list \<Rightarrow> byte list \<Rightarrow> byte list) \<Rightarrow> slice list list \<Rightarrow> byte list \<times> u32 list" where
  "filters create gs = foldl (add_filter create) ([], []) gs"

definition builds_filters :: "(slice list \<Rightarrow> byte list \<Rightarrow> byte list) \<Rightarrow> FilterBlockBuilder \<Rightarrow> slice list list \<Rightarrow> slice list \<Rightarrow> bool" where
  "builds_filters create b gs pending \<longleftrightarrow>
     flat_keys b = concat pending \<and> key_starts b = map (\<lambda>i. length (concat (take i pending))) [0..<length pending] \<and>
     (filter_result b, filter_offsets b) = filters create gs"

lemma length_filters: "length (snd (filters create gs)) = length gs"
  by (induction gs rule: rev_induct) (simp_all add: filters_def add_filter_def)

lemma builds_offsets: "builds_filters create b gs pending \<Longrightarrow> length (filter_offsets b) = length gs"
  using length_filters [of create gs] by (metis builds_filters_def snd_conv)

lemma new_builds: "builds_filters create new_FilterBlockBuilder [] []"
  by (simp add: builds_filters_def new_FilterBlockBuilder_def filters_def)

lemma AddKey_builds: "builds_filters create b gs pending \<Longrightarrow> builds_filters create (AddKey key b) gs (pending @ [key])"
  by (auto simp: builds_filters_def AddKey_def)

lemma AddKeys_build:
  "builds_filters create b gs pending \<Longrightarrow> builds_filters create (foldl (\<lambda>b k. AddKey k b) b ks) gs (pending @ ks)"
  by (induction ks arbitrary: b pending) (use AddKey_builds in fastforce)+

lemma tmp_keys_pending:
  "tmp_keys (map (\<lambda>i. length (concat (take i pending))) [0..<length pending]) (concat pending) = pending"
proof (rule nth_equalityI)
  fix i assume "i < length (tmp_keys (map (\<lambda>i. length (concat (take i pending))) [0..<length pending]) (concat pending))"
  then have i: "i < length pending" by (simp add: tmp_keys_def Let_def)
  have start: "(map (\<lambda>i. length (concat (take i pending))) [0..<length pending] @ [length (concat pending)]) ! j =
      length (concat (take j pending))" if "j \<le> length pending" for j
    using that by (auto simp: nth_append le_less)
  have whole: "concat pending = concat (take i pending) @ pending ! i @ concat (drop (Suc i) pending)"
    using id_take_nth_drop [OF i] by (metis concat.simps(2) concat_append)
  have "tmp_keys (map (\<lambda>i. length (concat (take i pending))) [0..<length pending]) (concat pending) ! i =
      take (length (concat (take (i + 1) pending)) - length (concat (take i pending))) (drop (length (concat (take i pending))) (concat pending))"
    using i start [of i] start [of "i + 1"] by (simp add: tmp_keys_def Let_def)
  also have "\<dots> = pending ! i" unfolding whole using i by (simp add: take_Suc_conv_app_nth)
  finally show "tmp_keys (map (\<lambda>i. length (concat (take i pending))) [0..<length pending]) (concat pending) ! i = pending ! i" .
qed (simp add: tmp_keys_def Let_def)

lemma GenerateFilter_builds:
  "builds_filters create b gs pending \<Longrightarrow> builds_filters create (GenerateFilter create b) (gs @ [pending]) []"
  by (cases "filters create gs")
    (auto simp: builds_filters_def GenerateFilter_def Let_def tmp_keys_pending filters_def add_filter_def)

text \<open>\<open>StartBlock\<close> finishes the group in progress, if its offset is beyond that group, and adds empty groups.\<close>

definition moves_on :: "slice list list \<Rightarrow> slice list \<Rightarrow> nat \<Rightarrow> slice list list \<Rightarrow> slice list \<Rightarrow> bool" where
  "moves_on gs pending n gs' pending' \<longleftrightarrow> length gs' = n \<and> concat gs' @ pending' = concat gs @ pending \<and>
     (\<forall>i < length gs. gs' ! i = gs ! i) \<and>
     (if n = length gs then pending' = pending else gs' ! length gs = pending \<and> pending' = [])"

lemma generate_until_builds:
  assumes "builds_filters create b gs pending" and "length gs \<le> n"
  shows "\<exists>gs' pending'. builds_filters create (generate_until create n b) gs' pending' \<and> moves_on gs pending n gs' pending'"
  using assms
proof (induction "n - length gs" arbitrary: gs pending b)
  case 0
  then have "generate_until create n b = b" "n = length gs"
    using builds_offsets [OF 0(2)] by (simp_all add: generate_until.simps [of _ _ b])
  with 0 show ?case by (auto simp: moves_on_def)
next
  case (Suc k)
  then have less: "length gs < n" by simp
  then have step: "generate_until create n b = generate_until create n (GenerateFilter create b)"
    using builds_offsets [OF Suc.prems(1)] by (simp add: generate_until.simps [of _ _ b])
  have "k = n - length (gs @ [pending])" "length (gs @ [pending]) \<le> n" using Suc.hyps(2) less by simp_all
  from Suc.hyps(1) [OF this(1) GenerateFilter_builds [OF Suc.prems(1)] this(2)] obtain gs' pending' where
    g: "builds_filters create (generate_until create n b) gs' pending'" "moves_on (gs @ [pending]) [] n gs' pending'"
    by (auto simp: step)
  have "gs' ! i = (gs @ [pending]) ! i" if "i < Suc (length gs)" for i using g(2) that by (simp add: moves_on_def)
  from this [of "length gs"] this have "gs' ! length gs = pending" "\<forall>i < length gs. gs' ! i = gs ! i"
    by (auto simp: nth_append)
  with g less show ?case by (auto simp: moves_on_def split: if_splits)
qed

text \<open>
  A table calls the builder for each data block: \<open>StartBlock\<close> with the offset of the block, and \<open>AddKey\<close> for its keys.
\<close>

definition add_block :: "(slice list \<Rightarrow> byte list \<Rightarrow> byte list) \<Rightarrow> FilterBlockBuilder \<Rightarrow> u64 \<times> slice list \<Rightarrow> FilterBlockBuilder" where
  "add_block create b blk = foldl (\<lambda>b k. AddKey k b) (StartBlock create (fst blk) b) (snd blk)"

definition filter_block :: "(slice list \<Rightarrow> byte list \<Rightarrow> byte list) \<Rightarrow> (u64 \<times> slice list) list \<Rightarrow> byte list" where
  "filter_block create blocks = fst (FilterBlockBuilder_Finish create (foldl (add_block create) new_FilterBlockBuilder blocks))"

text \<open>The number of the group a key of a block is in, and the keys of all groups.\<close>

definition group_of :: "u64 \<Rightarrow> nat" where
  "group_of off = unat off div kFilterBase"

lemma add_block_builds:
  assumes "builds_filters create b gs pending" and "length gs \<le> group_of (fst blk)"
  shows "\<exists>gs' pending'. builds_filters create (add_block create b blk) gs' (pending' @ snd blk) \<and>
    moves_on gs pending (group_of (fst blk)) gs' pending'"
  using generate_until_builds [OF assms] AddKeys_build
  by (fastforce simp: add_block_def StartBlock_def group_of_def)

definition grouped :: "slice list list \<Rightarrow> slice list \<Rightarrow> (u64 \<times> slice list) list \<Rightarrow> bool" where
  "grouped gs pending blocks \<longleftrightarrow> concat gs @ pending = concat (map snd blocks) \<and>
     (\<forall>blk \<in> set blocks. \<forall>k \<in> set (snd blk). group_of (fst blk) \<le> length gs \<and> k \<in> set ((gs @ [pending]) ! group_of (fst blk)))"

lemma moves_on_nth:
  assumes "moves_on gs pending n gs' pending'" and "i \<le> length gs" and "length gs \<le> n"
  shows "(gs' @ [pending' @ ks]) ! i = (gs @ [pending]) ! i \<or>
    (i = length gs \<and> n = length gs \<and> (gs' @ [pending' @ ks]) ! i = pending @ ks)"
  using assms by (cases "i < length gs"; cases "n = length gs") (auto simp: moves_on_def nth_append)

lemma length_nth_concat: "i < length xs \<Longrightarrow> length (xs ! i) \<le> length (concat xs)"
  using member_le_sum_list [of "length (xs ! i)" "map length xs"] by (simp add: length_concat)

lemma blocks_build:
  "sorted (map (unat \<circ> fst) blocks) \<Longrightarrow>
     \<exists>gs pending. builds_filters create (foldl (add_block create) new_FilterBlockBuilder blocks) gs pending \<and>
       grouped gs pending blocks \<and> length gs = (if blocks = [] then 0 else group_of (fst (last blocks)))"
proof (induction blocks rule: rev_induct)
  case Nil
  then show ?case using new_builds by (auto simp: grouped_def)
next
  case (snoc blk blocks)
  then obtain gs pending where b: "builds_filters create (foldl (add_block create) new_FilterBlockBuilder blocks) gs pending"
    "grouped gs pending blocks" "length gs = (if blocks = [] then 0 else group_of (fst (last blocks)))"
    by (auto simp: sorted_append)
  have le: "length gs \<le> group_of (fst blk)"
    using b(3) snoc.prems by (cases blocks rule: rev_cases) (auto simp: sorted_append group_of_def intro: div_le_mono)
  from add_block_builds [OF b(1) le] obtain gs' pending' where
    g: "builds_filters create (add_block create (foldl (add_block create) new_FilterBlockBuilder blocks) blk) gs' (pending' @ snd blk)"
    "moves_on gs pending (group_of (fst blk)) gs' pending'" by blast
  have "grouped gs' (pending' @ snd blk) (blocks @ [blk])"
    unfolding grouped_def
  proof (intro conjI ballI)
    show "concat gs' @ pending' @ snd blk = concat (map snd (blocks @ [blk]))"
      using g(2) b(2) by (simp add: moves_on_def grouped_def flip: append_assoc)
    have len: "length gs' = group_of (fst blk)" using g(2) by (simp add: moves_on_def)
    fix x k assume x: "x \<in> set (blocks @ [blk])" and k: "k \<in> set (snd x)"
    show "group_of (fst x) \<le> length gs'" and "k \<in> set ((gs' @ [pending' @ snd blk]) ! group_of (fst x))"
    proof -
      consider "x = blk" | "x \<in> set blocks" using x by auto
      then have "group_of (fst x) \<le> length gs' \<and> k \<in> set ((gs' @ [pending' @ snd blk]) ! group_of (fst x))"
      proof cases
        case 1
        with len k show ?thesis by (simp add: nth_append)
      next
        case 2
        with b(2) k have "group_of (fst x) \<le> length gs" "k \<in> set ((gs @ [pending]) ! group_of (fst x))"
          by (auto simp: grouped_def)
        with moves_on_nth [OF g(2) this(1) le, of "snd blk"] le len show ?thesis by (auto simp: nth_append)
      qed
      then show "group_of (fst x) \<le> length gs'" "k \<in> set ((gs' @ [pending' @ snd blk]) ! group_of (fst x))" by simp_all
    qed
  qed
  moreover have "length gs' = group_of (fst blk)" using g(2) by (simp add: moves_on_def)
  ultimately show ?case using g(1) by auto
qed

section \<open>No false negatives\<close>

lemma FilterBlockBuilder_Finish_bytes:
  assumes "builds_filters create b gs pending"
  shows "\<exists>r os. filters create (if pending = [] then gs else gs @ [pending]) = (r, os) \<and>
    fst (FilterBlockBuilder_Finish create b) = r @ concat (map EncodeFixed32 os) @ EncodeFixed32 (word_of_nat (length r)) @ [11]"
proof -
  let ?b = "if key_starts b \<noteq> [] then GenerateFilter create b else b"
  have "key_starts b = [] \<longleftrightarrow> pending = []" using assms by (simp add: builds_filters_def)
  with assms GenerateFilter_builds [OF assms]
  have "(filter_result ?b, filter_offsets ?b) = filters create (if pending = [] then gs else gs @ [pending])"
    by (simp add: builds_filters_def)
  then show ?thesis
    using foldl_PutFixed32 [of "filter_result ?b" id "filter_offsets ?b"]
    by (intro exI [of _ "filter_result ?b"] exI [of _ "filter_offsets ?b"])
      (simp add: FilterBlockBuilder_Finish_def Let_def PutFixed32_def kFilterBaseLg_def)
qed

definition filter_bytes :: "byte list \<Rightarrow> u32 list \<Rightarrow> byte list" where
  "filter_bytes r os = r @ concat (map EncodeFixed32 os) @ EncodeFixed32 (word_of_nat (length r)) @ [11]"

lemma filter_bytes_word:
  assumes "i \<le> length os"
  shows "DecodeFixed32 (drop (length r + i * 4) (filter_bytes r os)) = (os @ [word_of_nat (length r)]) ! i"
proof -
  have "filter_bytes r os = r @ concat (map (\<lambda>w. EncodeFixed32 (id w)) (os @ [word_of_nat (length r)])) @ [11]"
    by (simp add: filter_bytes_def)
  then have "drop (length r + i * 4) (filter_bytes r os) =
      drop (i * 4) (concat (map (\<lambda>w. EncodeFixed32 (id w)) (os @ [word_of_nat (length r)])) @ [11])" by simp
  also have "\<dots> = EncodeFixed32 ((os @ [word_of_nat (length r)]) ! i) @
      concat (map (\<lambda>w. EncodeFixed32 (id w)) (drop (Suc i) (os @ [word_of_nat (length r)]))) @ [11]"
    using assms by (subst drop_concat_fixed) simp_all
  finally show ?thesis by (simp only: DecodeFixed32_encode)
qed

lemma new_reader_bytes:
  assumes "length (filter_bytes r os) < 2 ^ 32"
  shows "new_FilterBlockReader (filter_bytes r os) =
    \<lparr>fr_data = filter_bytes r os, fr_offset = length r, fr_num = length os, base_lg = 11\<rparr>"
proof -
  have len: "length (filter_bytes r os) = length r + length os * 4 + 5"
    using length_concat_fixed [of id os] by (simp add: filter_bytes_def)
  have word: "DecodeFixed32 (drop (length r + length os * 4) (filter_bytes r os)) = word_of_nat (length r)"
    using filter_bytes_word [of "length os" os r] by simp
  have lg: "filter_bytes r os ! (length (filter_bytes r os) - 1) = 11"
    by (simp add: filter_bytes_def nth_append flip: append_assoc)
  have "unat (word_of_nat (length r) :: u32) = length r"
    using assms len by (simp add: unsigned_of_nat take_bit_nat_eq_self)
  with len lg show ?thesis
    by (simp add: new_FilterBlockReader_def Let_def word)
qed

lemma reads_filter:
  assumes len: "length (filter_bytes r os) < 2 ^ 32" and i: "group_of off < length os"
    and se: "os ! group_of off = word_of_nat s" "(os @ [word_of_nat (length r)]) ! Suc (group_of off) = word_of_nat e" "s \<le> e" "e \<le> length r"
  shows "FilterBlockReader_KeyMayMatch may_match (new_FilterBlockReader (filter_bytes r os)) off key =
    may_match key (take (e - s) (drop s r))"
proof -
  have lr: "length r < 2 ^ 32" using len by (simp add: filter_bytes_def)
  then have un: "unat (word_of_nat s :: u32) = s" "unat (word_of_nat e :: u32) = e"
    using se by (simp_all add: unsigned_of_nat take_bit_nat_eq_self)
  then have le: "(word_of_nat s :: u32) \<le> word_of_nat e" using se(3) by (simp add: word_le_nat_alt)
  then have "unat (word_of_nat e - word_of_nat s :: u32) = e - s" using un by (simp add: unat_sub)
  moreover have "take (e - s) (drop s (filter_bytes r os)) = take (e - s) (drop s r)"
    using se(3,4) by (simp add: filter_bytes_def)
  moreover have "unat (drop_bit 11 off) = group_of off"
    by (simp add: unat_drop_bit group_of_def kFilterBase_def kFilterBaseLg_def)
  moreover have "DecodeFixed32 (drop (length r + group_of off * 4) (filter_bytes r os)) = word_of_nat s"
    "DecodeFixed32 (drop (length r + group_of off * 4 + 4) (filter_bytes r os)) = word_of_nat e"
    using filter_bytes_word [of "group_of off" os r] filter_bytes_word [of "Suc (group_of off)" os r] i se(1,2)
    by (simp_all add: nth_append add.commute add.left_commute)
  ultimately show ?thesis
    using i un le se(4) by (simp add: FilterBlockReader_KeyMayMatch_def new_reader_bytes [OF len] Let_def)
qed

context filter_policy
begin

lemma filters_snoc:
  "filters create (gs @ [g]) = (if g = [] then fst (filters create gs) else create g (fst (filters create gs)),
     snd (filters create gs) @ [word_of_nat (length (fst (filters create gs)))])"
  by (simp add: filters_def add_filter_def)

lemma filters_grow: "\<exists>x. fst (filters create (gs @ hs)) = fst (filters create gs) @ x"
proof (induction hs rule: rev_induct)
  case (snoc h hs)
  then obtain x where x: "fst (filters create (gs @ hs)) = fst (filters create gs) @ x" ..
  from create_appends [of h "fst (filters create gs) @ x"] x show ?case
    using filters_snoc [of "gs @ hs" h] by auto
qed simp

lemma filters_offset: "snd (filters create (gs @ g # hs)) ! length gs = word_of_nat (length (fst (filters create gs)))"
proof (induction hs rule: rev_induct)
  case Nil
  then show ?case by (simp add: filters_snoc nth_append length_filters)
next
  case (snoc h hs)
  then show ?case using filters_snoc [of "gs @ g # hs" h] length_filters [of create "gs @ g # hs"] by (simp add: nth_append)
qed

lemma filters_next_offset:
  "(snd (filters create (gs @ g # hs)) @ [word_of_nat (length (fst (filters create (gs @ g # hs))))]) ! Suc (length gs) =
     word_of_nat (length (fst (filters create (gs @ [g]))))"
proof (cases hs)
  case Nil
  then show ?thesis using length_filters [of create "gs @ [g]"] by (simp add: nth_append)
next
  case (Cons h hs')
  then show ?thesis
    using filters_offset [of "gs @ [g]" h hs'] length_filters [of create "gs @ g # hs"] by (simp add: nth_append)
qed

lemma group_matches:
  assumes len: "length (filter_bytes (fst (filters create gs)) (snd (filters create gs))) < 2 ^ 32"
    and i: "group_of off < length gs" and key: "key \<in> set (gs ! group_of off)" and small: "small (gs ! group_of off)"
  shows "FilterBlockReader_KeyMayMatch may_match
    (new_FilterBlockReader (filter_bytes (fst (filters create gs)) (snd (filters create gs)))) off key"
proof -
  let ?i = "group_of off"
  let ?r = "fst (filters create gs)" and ?os = "snd (filters create gs)"
  define a g b where "a = take ?i gs" and "g = gs ! ?i" and "b = drop (Suc ?i) gs"
  have gs: "gs = a @ g # b" and la: "length a = ?i" using id_take_nth_drop [OF i] i by (simp_all add: a_def g_def b_def)
  let ?f = "fst (filters create a)"
  from key have ne: "g \<noteq> []" by (auto simp: g_def)
  from create_appends obtain x where x: "create g ?f = ?f @ x" by blast
  from filters_grow [of "a @ [g]" b] ne x obtain y where r: "?r = ?f @ x @ y"
    by (auto simp: gs filters_snoc)
  have "FilterBlockReader_KeyMayMatch may_match (new_FilterBlockReader (filter_bytes ?r ?os)) off key =
      may_match key (take (length (?f @ x) - length ?f) (drop (length ?f) ?r))"
    using len i filters_offset [of a g b] filters_next_offset [of a g b] ne x r la
    by (intro reads_filter) (simp_all add: length_filters filters_snoc flip: gs)
  also have "take (length (?f @ x) - length ?f) (drop (length ?f) ?r) = drop (length ?f) (create g ?f)"
    using x r by simp
  finally show ?thesis using no_false_negative [of g key ?f] small key by (simp add: g_def)
qed

lemma filter_block_matches:
  assumes sorted: "sorted (map (unat \<circ> fst) blocks)" and len: "length (filter_block create blocks) < 2 ^ 32"
    and small: "small (concat (map snd blocks))" and blk: "blk \<in> set blocks" "key \<in> set (snd blk)"
  shows "FilterBlockReader_KeyMayMatch may_match (new_FilterBlockReader (filter_block create blocks)) (fst blk) key"
proof -
  from blocks_build [OF sorted] obtain gs pending where
    b: "builds_filters create (foldl (add_block create) new_FilterBlockBuilder blocks) gs pending" "grouped gs pending blocks" by blast
  let ?gs = "if pending = [] then gs else gs @ [pending]"
  from FilterBlockBuilder_Finish_bytes [OF b(1)]
  have bytes: "filter_block create blocks = filter_bytes (fst (filters create ?gs)) (snd (filters create ?gs))"
    by (auto simp: filter_block_def filter_bytes_def)
  let ?i = "group_of (fst blk)"
  from b(2) blk have k: "?i \<le> length gs" "key \<in> set ((gs @ [pending]) ! ?i)" by (auto simp: grouped_def)
  then have i: "?i < length ?gs" "?gs ! ?i = (gs @ [pending]) ! ?i" by (auto simp: nth_append le_less split: if_splits)
  have "length (?gs ! ?i) \<le> length (concat ?gs)"
    using i(1) by (rule length_nth_concat)
  also have "\<dots> = length (concat (map snd blocks))" using b(2) by (auto simp: grouped_def)
  finally have "small (?gs ! ?i)" by (rule small_shorter [OF small])
  from group_matches [OF _ i(1) _ this] k(2) i(2) len show ?thesis by (simp only: bytes)
qed

end

end
