(* ===== verification/Ldb_Table_Builder.thy ===== *)
theory Ldb_Table_Builder
  imports Ldb_Format Ldb_Filter_Block Ldb_Block_Proofs
begin

unbundle bit_operations_syntax

text \<open>
  \<open>leveldb/table/table_builder.cc\<close>: writing a sorted table. Entries are collected in a data block; a full block is
  written with its trailer, and an entry for it goes to the index block when the next key is known; at the end
  follow the filter block, the index of meta blocks, the index block and the footer. \<open>Ldb_Table_Layout\<close> shows what the
  file consists of.
\<close>

section \<open>Options\<close>

record FilterPolicy =
  fp_Name :: slice
  fp_CreateFilter :: "slice list \<Rightarrow> byte list \<Rightarrow> byte list"
  fp_KeyMayMatch :: "slice \<Rightarrow> slice \<Rightarrow> bool"

record Options =
  o_Compare :: "slice \<Rightarrow> slice \<Rightarrow> int"
  o_FindShortestSeparator :: "byte list \<Rightarrow> slice \<Rightarrow> byte list"
  o_FindShortSuccessor :: "byte list \<Rightarrow> byte list"
  o_block_size :: nat
  o_block_restart_interval :: int
  o_compression :: CompressionType
  o_filter_policy :: "FilterPolicy option"
  o_paranoid_checks :: bool

section \<open>\<open>TableBuilder\<close>\<close>

record 'f TableBuilder =
  t_options :: Options
  t_file :: 'f
  t_offset :: u64
  t_status :: status
  data_block :: BlockBuilder
  index_block :: BlockBuilder
  t_last_key :: "byte list"
  num_entries :: int
  closed :: bool
  filter_builder :: "FilterBlockBuilder option"
  pending_index_entry :: bool
  pending_handle :: BlockHandle

definition create_filter :: "Options \<Rightarrow> slice list \<Rightarrow> byte list \<Rightarrow> byte list" where
  "create_filter opt = (case o_filter_policy opt of None \<Rightarrow> (\<lambda>_ dst. dst) | Some p \<Rightarrow> fp_CreateFilter p)"

definition new_TableBuilder :: "Options \<Rightarrow> 'f \<Rightarrow> 'f TableBuilder" where
  "new_TableBuilder opt f =
     \<lparr>t_options = opt, t_file = f, t_offset = 0, t_status = OK, data_block = new_BlockBuilder (o_block_restart_interval opt),
      index_block = new_BlockBuilder 1, t_last_key = [], num_entries = 0, closed = False,
      filter_builder = map_option (\<lambda>_. StartBlock (create_filter opt) 0 new_FilterBlockBuilder) (o_filter_policy opt),
      pending_index_entry = False, pending_handle = new_BlockHandle\<rparr>"

text \<open>
  \<open>same_comparator\<close> is the comparison of the two pointers. The block builders refer to the options of the table; their
  field for the restart interval changes with them.
\<close>

definition ChangeOptions :: "bool \<Rightarrow> Options \<Rightarrow> 'f TableBuilder \<Rightarrow> status \<times> 'f TableBuilder" where
  "ChangeOptions same_comparator opt tb =
     (if \<not> same_comparator then (InvalidArgument (str ''changing comparator while building table'') [], tb)
      else (OK, tb\<lparr>t_options := opt, data_block := (data_block tb)\<lparr>interval := o_block_restart_interval opt\<rparr>,
                   index_block := (index_block tb)\<lparr>interval := 1\<rparr>\<rparr>))"

text \<open>\<open>app\<close> and \<open>flush\<close> are those of the file, \<open>a\<close> the address of the block data.\<close>

definition WriteRawBlock ::
  "addr \<Rightarrow> ('f \<Rightarrow> slice \<Rightarrow> status \<times> 'f) \<Rightarrow> slice \<Rightarrow> CompressionType \<Rightarrow> 'f TableBuilder \<Rightarrow> BlockHandle \<times> 'f TableBuilder" where
  "WriteRawBlock a app block_contents type tb =
     (let handle = \<lparr>h_offset = t_offset tb, h_size = word_of_nat (length block_contents)\<rparr>;
          (s, f) = app (t_file tb) block_contents;
          tb = tb\<lparr>t_status := s, t_file := f\<rparr>
      in if ok s then
           let crc = Value a block_contents;
               crc = Extend a crc [compression_number type];
               (s, f) = app (t_file tb) (compression_number type # EncodeFixed32 (Mask crc));
               tb = tb\<lparr>t_status := s, t_file := f\<rparr>
           in (handle, if ok s then tb\<lparr>t_offset := t_offset tb + word_of_nat (length block_contents + kBlockTrailerSize)\<rparr> else tb)
         else (handle, tb))"

text \<open>The contents and type that \<open>WriteBlock\<close> chooses for a finished block.\<close>

definition compressed :: "snappy_port \<Rightarrow> CompressionType \<Rightarrow> slice \<Rightarrow> slice \<times> CompressionType" where
  "compressed port type raw =
     (case type of
        kNoCompression \<Rightarrow> (raw, kNoCompression)
      | kSnappyCompression \<Rightarrow>
          (case Snappy_Compress port raw of
             Some c \<Rightarrow> if length c < length raw - length raw div 8 then (c, kSnappyCompression) else (raw, kNoCompression)
           | None \<Rightarrow> (raw, kNoCompression)))"

text \<open>\<open>WriteBlock\<close> returns the handle, the reset block and the table.\<close>

definition WriteBlock ::
  "addr \<Rightarrow> ('f \<Rightarrow> slice \<Rightarrow> status \<times> 'f) \<Rightarrow> snappy_port \<Rightarrow> BlockBuilder \<Rightarrow> 'f TableBuilder \<Rightarrow> BlockHandle \<times> BlockBuilder \<times> 'f TableBuilder" where
  "WriteBlock a app port block tb =
     (let (raw, block) = BlockBuilder_Finish block;
          (block_contents, type) = compressed port (o_compression (t_options tb)) raw;
          (handle, tb) = WriteRawBlock a app block_contents type tb
      in (handle, BlockBuilder_Reset block, tb))"

definition Flush ::
  "addr \<Rightarrow> ('f \<Rightarrow> slice \<Rightarrow> status \<times> 'f) \<Rightarrow> ('f \<Rightarrow> status \<times> 'f) \<Rightarrow> snappy_port \<Rightarrow> 'f TableBuilder \<Rightarrow> 'f TableBuilder" where
  "Flush a app flush port tb =
     (if \<not> ok (t_status tb) then tb
      else if BlockBuilder_empty (data_block tb) then tb
      else
        let (handle, block, tb) = WriteBlock a app port (data_block tb) tb;
            tb = tb\<lparr>data_block := block, pending_handle := handle\<rparr>;
            tb = (if ok (t_status tb)
                  then let (s, f) = flush (t_file tb) in tb\<lparr>pending_index_entry := True, t_status := s, t_file := f\<rparr>
                  else tb)
        in tb\<lparr>filter_builder := map_option (StartBlock (create_filter (t_options tb)) (t_offset tb)) (filter_builder tb)\<rparr>)"

text \<open>The index entry that \<open>Add\<close> and \<open>Finish\<close> write for the last data block, under the key \<open>key\<close>.\<close>

definition add_index_entry :: "byte list \<Rightarrow> 'f TableBuilder \<Rightarrow> 'f TableBuilder" where
  "add_index_entry key tb =
     tb\<lparr>t_last_key := key, index_block := BlockBuilder_Add (index_block tb) key (BlockHandle_EncodeTo [] (pending_handle tb)),
        pending_index_entry := False\<rparr>"

definition TableBuilder_Add ::
  "addr \<Rightarrow> ('f \<Rightarrow> slice \<Rightarrow> status \<times> 'f) \<Rightarrow> ('f \<Rightarrow> status \<times> 'f) \<Rightarrow> snappy_port \<Rightarrow> 'f TableBuilder \<Rightarrow> slice \<Rightarrow> slice \<Rightarrow> 'f TableBuilder" where
  "TableBuilder_Add a app flush port tb key val =
     (if \<not> ok (t_status tb) then tb
      else
        let tb = (if pending_index_entry tb
                  then add_index_entry (o_FindShortestSeparator (t_options tb) (t_last_key tb) key) tb else tb);
            tb = tb\<lparr>filter_builder := map_option (AddKey key) (filter_builder tb), t_last_key := key,
                    num_entries := num_entries tb + 1, data_block := BlockBuilder_Add (data_block tb) key val\<rparr>
        in if CurrentSizeEstimate (data_block tb) \<ge> o_block_size (t_options tb) then Flush a app flush port tb else tb)"

text \<open>The steps of \<open>Finish\<close> after \<open>Flush\<close>; each is made only while the status is good.\<close>

definition finish_filter ::
  "addr \<Rightarrow> ('f \<Rightarrow> slice \<Rightarrow> status \<times> 'f) \<Rightarrow> 'f TableBuilder \<Rightarrow> BlockHandle \<times> 'f TableBuilder" where
  "finish_filter a app tb =
     (case filter_builder tb of
        None \<Rightarrow> (new_BlockHandle, tb)
      | Some fb \<Rightarrow>
          if ok (t_status tb) then
            let (contents, fb) = FilterBlockBuilder_Finish (create_filter (t_options tb)) fb
            in WriteRawBlock a app contents kNoCompression (tb\<lparr>filter_builder := Some fb\<rparr>)
          else (new_BlockHandle, tb))"

definition filter_key :: "Options \<Rightarrow> slice" where
  "filter_key opt = str ''filter.'' @ (case o_filter_policy opt of None \<Rightarrow> [] | Some p \<Rightarrow> fp_Name p)"

definition finish_metaindex ::
  "addr \<Rightarrow> ('f \<Rightarrow> slice \<Rightarrow> status \<times> 'f) \<Rightarrow> snappy_port \<Rightarrow> BlockHandle \<Rightarrow> 'f TableBuilder \<Rightarrow> BlockHandle \<times> 'f TableBuilder" where
  "finish_metaindex a app port filter_block_handle tb =
     (if ok (t_status tb) then
        let meta_index_block = new_BlockBuilder (o_block_restart_interval (t_options tb));
            meta_index_block =
              (if filter_builder tb \<noteq> None
               then BlockBuilder_Add meta_index_block (filter_key (t_options tb)) (BlockHandle_EncodeTo [] filter_block_handle)
               else meta_index_block);
            (handle, _, tb) = WriteBlock a app port meta_index_block tb
        in (handle, tb)
      else (new_BlockHandle, tb))"

definition finish_index ::
  "addr \<Rightarrow> ('f \<Rightarrow> slice \<Rightarrow> status \<times> 'f) \<Rightarrow> snappy_port \<Rightarrow> 'f TableBuilder \<Rightarrow> BlockHandle \<times> 'f TableBuilder" where
  "finish_index a app port tb =
     (if ok (t_status tb) then
        let tb = (if pending_index_entry tb
                  then add_index_entry (o_FindShortSuccessor (t_options tb) (t_last_key tb)) tb else tb);
            (handle, block, tb) = WriteBlock a app port (index_block tb) tb
        in (handle, tb\<lparr>index_block := block\<rparr>)
      else (new_BlockHandle, tb))"

definition finish_footer :: "('f \<Rightarrow> slice \<Rightarrow> status \<times> 'f) \<Rightarrow> Footer \<Rightarrow> 'f TableBuilder \<Rightarrow> 'f TableBuilder" where
  "finish_footer app footer tb =
     (if ok (t_status tb) then
        let footer_encoding = Footer_EncodeTo [] footer;
            (s, f) = app (t_file tb) footer_encoding;
            tb = tb\<lparr>t_status := s, t_file := f\<rparr>
        in if ok s then tb\<lparr>t_offset := t_offset tb + word_of_nat (length footer_encoding)\<rparr> else tb
      else tb)"

definition TableBuilder_Finish ::
  "addr \<Rightarrow> ('f \<Rightarrow> slice \<Rightarrow> status \<times> 'f) \<Rightarrow> ('f \<Rightarrow> status \<times> 'f) \<Rightarrow> snappy_port \<Rightarrow> 'f TableBuilder \<Rightarrow> status \<times> 'f TableBuilder" where
  "TableBuilder_Finish a app flush port tb =
     (let tb = (Flush a app flush port tb)\<lparr>closed := True\<rparr>;
          (filter_block_handle, tb) = finish_filter a app tb;
          (metaindex_block_handle, tb) = finish_metaindex a app port filter_block_handle tb;
          (index_block_handle, tb) = finish_index a app port tb;
          tb = finish_footer app \<lparr>metaindex_handle = metaindex_block_handle, index_handle = index_block_handle\<rparr> tb
      in (t_status tb, tb))"

definition Abandon :: "'f TableBuilder \<Rightarrow> 'f TableBuilder" where
  "Abandon tb = tb\<lparr>closed := True\<rparr>"

definition NumEntries :: "'f TableBuilder \<Rightarrow> u64" where
  "NumEntries tb = word_of_int (num_entries tb)"

definition FileSize :: "'f TableBuilder \<Rightarrow> u64" where
  "FileSize tb = t_offset tb"

end
