(* ===== verification/Ldb_Table_Layout.thy ===== *)
theory Ldb_Table_Layout
  imports Ldb_Table_Builder
begin

unbundle bit_operations_syntax

text \<open>
  What the table builder writes. As long as its status is good, the file is a sequence of stored blocks; the
  entries of the blocks, with those not yet written, are the ones added, in order; the keys of the index separate the blocks; and the filter
  builder has been given the keys of each block under the offset of that block. The result is \<open>table_image\<close>, which is all that a
  reader needs to know of a finished file.
\<close>

section \<open>Block builders by their entries\<close>

definition block_builder :: "int \<Rightarrow> (slice \<times> slice) list \<Rightarrow> BlockBuilder" where
  "block_builder n es = foldl (\<lambda>b e. BlockBuilder_Add b (fst e) (snd e)) (new_BlockBuilder n) es"

lemma block_builder_Nil: "block_builder n [] = new_BlockBuilder n"
  by (simp add: block_builder_def)

lemma block_builder_snoc: "block_builder n (es @ [(k, v)]) = BlockBuilder_Add (block_builder n es) k v"
  by (simp add: block_builder_def)

lemma block_builder_single: "block_builder n [(k, v)] = BlockBuilder_Add (block_builder n []) k v"
  by (simp add: block_builder_def)

lemma Add_interval [simp]: "interval (BlockBuilder_Add b k v) = interval b"
  by (simp add: BlockBuilder_Add_def Let_def)

lemma Add_nonempty: "\<not> BlockBuilder_empty (BlockBuilder_Add b k v)"
  by (simp add: BlockBuilder_Add_def BlockBuilder_empty_def Let_def PutVarint32_def EncodeVarint32_def)

lemma interval_block_builder [simp]: "interval (block_builder n es) = n"
  by (induction es rule: rev_induct) (auto simp: block_builder_def new_BlockBuilder_def)

lemma empty_block_builder: "BlockBuilder_empty (block_builder n es) \<longleftrightarrow> es = []"
proof (cases es rule: rev_cases)
  case (snoc ys y)
  then show ?thesis using Add_nonempty by (simp add: block_builder_def)
qed (simp add: block_builder_def new_BlockBuilder_def BlockBuilder_empty_def)

lemma Finish_block_builder: "fst (BlockBuilder_Finish (block_builder n es)) = build_block n es"
  by (simp add: build_block_def block_builder_def)

lemma Reset_block_builder: "BlockBuilder_Reset (snd (BlockBuilder_Finish (block_builder n es))) = block_builder n []"
proof -
  have "interval (snd (BlockBuilder_Finish b)) = interval b" for b by (simp add: BlockBuilder_Finish_def Let_def)
  from this [of "block_builder n es"] show ?thesis by (simp add: BlockBuilder_Reset_def block_builder_Nil new_BlockBuilder_def)
qed

section \<open>The written blocks\<close>

text \<open>Each written block with its index key, its handle and its entries.\<close>

type_synonym entries = "(slice \<times> slice) list"
type_synonym data_blocks = "(slice \<times> BlockHandle \<times> entries) list"

definition entries_of :: "data_blocks \<Rightarrow> entries" where
  "entries_of D = concat (map (\<lambda>(s, h, es). es) D)"

definition index_of :: "data_blocks \<Rightarrow> entries" where
  "index_of D = map (\<lambda>(s, h, es). (s, handle_bytes h)) D"

definition key_blocks :: "data_blocks \<Rightarrow> (u64 \<times> slice list) list" where
  "key_blocks D = map (\<lambda>(s, h, es). (h_offset h, map fst es)) D"

lemma blocks_snoc [simp]:
  "entries_of (D @ [(s, h, es)]) = entries_of D @ es" "index_of (D @ [(s, h, es)]) = index_of D @ [(s, handle_bytes h)]"
  "key_blocks (D @ [(s, h, es)]) = key_blocks D @ [(h_offset h, map fst es)]"
  by (simp_all add: entries_of_def index_of_def key_blocks_def)

lemma entries_of_Nil [simp]: "entries_of [] = []" "index_of [] = []" "key_blocks [] = []"
  by (simp_all add: entries_of_def index_of_def key_blocks_def)

lemma entries_of_Cons [simp]: "entries_of ((s, h, es) # D) = es @ entries_of D"
  by (simp add: entries_of_def)

text \<open>Index keys separate the blocks: not before any key of their own block, before all later keys.\<close>

fun separated :: "(slice \<Rightarrow> bool) \<Rightarrow> (slice \<Rightarrow> slice \<Rightarrow> int) \<Rightarrow> data_blocks \<Rightarrow> entries \<Rightarrow> bool" where
  "separated valid cmp [] rest = True"
| "separated valid cmp ((s, h, es) # D) rest \<longleftrightarrow> valid s \<and> (\<forall>e \<in> set es. cmp (fst e) s \<le> 0) \<and>
     (\<forall>e \<in> set (entries_of D @ rest). cmp s (fst e) < 0) \<and> separated valid cmp D rest"

lemma separated_snoc:
  "separated valid cmp (D @ [(s, h, es)]) rest \<longleftrightarrow> separated valid cmp D (es @ rest) \<and> valid s \<and>
     (\<forall>e \<in> set es. cmp (fst e) s \<le> 0) \<and> (\<forall>e \<in> set rest. cmp s (fst e) < 0)"
  by (induction D) auto

lemma separated_own: "separated valid cmp D rest \<Longrightarrow> (s, h, es) \<in> set D \<Longrightarrow> valid s \<and> (\<forall>e \<in> set es. cmp (fst e) s \<le> 0)"
proof (induction D)
  case (Cons d D)
  obtain s' h' es' where d: "d = (s', h', es')" by (cases d)
  from Cons.prems(2) consider "(s, h, es) = d" | "(s, h, es) \<in> set D" by auto
  then show ?case using Cons.prems(1) Cons.IH by cases (simp_all add: d)
qed simp

definition stored_blocks :: "snappy_port \<Rightarrow> int \<Rightarrow> byte list \<Rightarrow> data_blocks \<Rightarrow> bool" where
  "stored_blocks port n F D \<longleftrightarrow> (\<forall>(s, h, es) \<in> set D. es \<noteq> [] \<and> stored_at port F h (build_block n es))"

lemma stored_blocks_append: "stored_blocks port n F D \<Longrightarrow> stored_blocks port n (F @ z) D"
  by (auto simp: stored_blocks_def stored_at_append)

lemma stored_blocks_snoc:
  "stored_blocks port n F (D @ [(s, h, es)]) \<longleftrightarrow> stored_blocks port n F D \<and> es \<noteq> [] \<and> stored_at port F h (build_block n es)"
  by (auto simp: stored_blocks_def)

context comparator
begin

abbreviation ordered :: "entries \<Rightarrow> bool" where
  "ordered es \<equiv> (\<forall>e \<in> set es. valid (fst e)) \<and> sorted_wrt (\<lambda>a b. cmp (fst a) (fst b) < 0) es"

lemma ordered_last: "ordered (es @ [x]) \<Longrightarrow> e \<in> set es \<Longrightarrow> cmp (fst e) (fst x) < 0"
  by (simp add: sorted_wrt_append)

lemma last_largest:
  assumes "ordered es" and "es \<noteq> []" and "e \<in> set es"
  shows "cmp (fst e) (fst (last es)) \<le> 0"
proof (cases es rule: rev_cases)
  case (snoc ys y)
  show ?thesis
  proof (cases "e = y")
    case True
    with snoc assms cmp_eq [of "fst e" "fst e"] show ?thesis by simp
  next
    case False
    then have "e \<in> set ys" using snoc assms(3) by simp
    with ordered_last [of ys y e] assms(1) snoc show ?thesis by simp
  qed
qed (use assms(2) in simp)

lemma separated_more:
  assumes "separated valid cmp D rest" and "rest \<noteq> []" and "valid (fst (last rest))" and "valid (fst e)"
    and "cmp (fst (last rest)) (fst e) < 0"
  shows "separated valid cmp D (rest @ [e])"
  using assms
proof (induction D)
  case (Cons d D)
  obtain s h es where d: "d = (s, h, es)" by (cases d)
  from Cons.prems have "cmp s (fst (last rest)) < 0" "valid s" by (simp_all add: d)
  with cmp_trans [of s "fst (last rest)" "fst e"] Cons.prems(3-5) have "cmp s (fst e) < 0" by blast
  with Cons show ?case by (simp add: d)
qed simp

text \<open>The index keys are ordered.\<close>

lemma separated_index_ordered:
  assumes "separated valid cmp D rest" and "\<forall>(s, h, es) \<in> set D. es \<noteq> []" and "\<forall>e \<in> set (entries_of D). valid (fst e)"
  shows "ordered (index_of D)"
  using assms
proof (induction D)
  case (Cons d D)
  obtain s h es where d: "d = (s, h, es)" by (cases d)
  have IH: "ordered (index_of D)" using Cons by (auto simp: d)
  have "cmp s (fst x) < 0" if x: "x \<in> set (index_of D)" for x
  proof -
    from x obtain s' h' es' where m: "(s', h', es') \<in> set D" "x = (s', handle_bytes h')" by (auto simp: index_of_def)
    with Cons.prems(2) obtain e where e: "e \<in> set es'" by (cases es') (auto simp: d)
    with m have eD: "e \<in> set (entries_of D)" by (auto simp: entries_of_def)
    then have "cmp s (fst e) < 0" "valid s" "valid (fst e)" using Cons.prems(1,3) by (auto simp: d)
    moreover have "cmp (fst e) s' \<le> 0" "valid s'"
    proof -
      have "separated valid cmp D rest" using Cons.prems(1) by (simp add: d)
      from separated_own [OF this m(1)] e show "cmp (fst e) s' \<le> 0" "valid s'" by auto
    qed
    ultimately show ?thesis
      using cmp_trans [of s "fst e" s'] cmp_eq [of "fst e" s'] m(2) by (cases "cmp (fst e) s' = 0") auto
  qed
  with IH Cons.prems(1) show ?case by (auto simp: d index_of_def)
qed (simp add: index_of_def)

end

section \<open>Writing a block\<close>

lemma compressed_unpacks: "snappy_ok port \<Longrightarrow> compressed port ty raw = (c, t) \<Longrightarrow> unpacks port t c raw"
  by (auto simp: compressed_def snappy_ok_def unpacks_def split: CompressionType.splits option.splits if_splits)

context writable_file
begin

lemma WriteRawBlock_ok:
  assumes "WriteRawBlock a append c t tb = (h, tb')" and "ok (t_status tb')" and "valid (t_file tb)"
  shows "valid (t_file tb')" "contents (t_file tb') = contents (t_file tb) @ stored_bytes c t"
    "h = \<lparr>h_offset = t_offset tb, h_size = word_of_nat (length c)\<rparr>"
    "tb' = tb\<lparr>t_status := OK, t_file := t_file tb', t_offset := t_offset tb + word_of_nat (length c + kBlockTrailerSize)\<rparr>"
proof -
  obtain s1 f1 where 1: "append (t_file tb) c = (s1, f1)" by fastforce
  define d where "d = compression_number t # EncodeFixed32 (Mask (Extend a (Value a c) [compression_number t]))"
  obtain s2 f2 where 2: "append f1 d = (s2, f2)" by fastforce
  have ok: "ok s1" "ok s2"
    using assms(1,2) 1 2 by (auto simp: WriteRawBlock_def Let_def d_def split: if_splits)
  have "stored_bytes c t = c @ d"
    by (simp add: stored_bytes_def d_def Value_def Extend_eq crc32c_ref_append)
  moreover have r: "h = \<lparr>h_offset = t_offset tb, h_size = word_of_nat (length c)\<rparr>"
    "tb' = tb\<lparr>t_status := s2, t_file := f2, t_offset := t_offset tb + word_of_nat (length c + kBlockTrailerSize)\<rparr>"
    using assms(1) 1 2 ok by (simp_all add: WriteRawBlock_def Let_def d_def)
  moreover have "contents f1 = contents (t_file tb) @ c" "valid f1" using append_ok append_valid 1 ok assms(3) by blast+
  moreover have "contents f2 = contents f1 @ d" "valid f2" using append_ok append_valid 2 ok calculation by blast+
  ultimately show "valid (t_file tb')" "contents (t_file tb') = contents (t_file tb) @ stored_bytes c t"
    "h = \<lparr>h_offset = t_offset tb, h_size = word_of_nat (length c)\<rparr>"
    "tb' = tb\<lparr>t_status := OK, t_file := t_file tb', t_offset := t_offset tb + word_of_nat (length c + kBlockTrailerSize)\<rparr>"
    using ok by (simp_all add: ok_iff_OK)
qed

text \<open>What \<open>WriteBlock\<close> and \<open>WriteRawBlock\<close> have in common: a stored block is appended to the file.\<close>

definition wrote :: "snappy_port \<Rightarrow> byte list \<Rightarrow> BlockHandle \<Rightarrow> 'f TableBuilder \<Rightarrow> 'f TableBuilder \<Rightarrow> bool" where
  "wrote port raw h tb tb' \<longleftrightarrow> valid (t_file tb') \<and> h_offset h = t_offset tb \<and> stored_at port (contents (t_file tb')) h raw \<and>
     (\<exists>z. z \<noteq> [] \<and> contents (t_file tb') = contents (t_file tb) @ z) \<and> t_offset tb' = word_of_nat (length (contents (t_file tb'))) \<and>
     tb' = tb\<lparr>t_status := OK, t_file := t_file tb', t_offset := t_offset tb'\<rparr>"

lemma WriteRawBlock_wrote:
  assumes "WriteRawBlock a append c t tb = (h, tb')" and "ok (t_status tb')" and "valid (t_file tb)"
    and "t_offset tb = word_of_nat (length (contents (t_file tb)))" and "unpacks port t c raw"
  shows "wrote port raw h tb tb'"
proof -
  note w = WriteRawBlock_ok [OF assms(1-3)]
  have "contents (t_file tb') = contents (t_file tb) @ stored_bytes c t @ []" by (simp add: w(2))
  then have "stored_at port (contents (t_file tb')) h raw"
    unfolding stored_at_def using assms(4,5) w(3) by (auto simp del: append_Nil2)
  moreover have "t_offset tb' = t_offset tb + word_of_nat (length c + kBlockTrailerSize)" by (subst w(4)) simp
  moreover have "stored_bytes c t \<noteq> []" by (simp add: stored_bytes_def)
  ultimately show ?thesis using w assms(4) by (simp add: wrote_def)
qed

lemma WriteBlock_wrote:
  assumes "WriteBlock a append port (block_builder n es) tb = (h, b, tb')" and "ok (t_status tb')" and "valid (t_file tb)"
    and "t_offset tb = word_of_nat (length (contents (t_file tb)))" and "snappy_ok port"
  shows "b = block_builder n []" "wrote port (build_block n es) h tb tb'"
proof -
  obtain c t where c: "compressed port (o_compression (t_options tb)) (build_block n es) = (c, t)" by fastforce
  have "fst (BlockBuilder_Finish (block_builder n es)) = build_block n es" by (rule Finish_block_builder)
  then obtain b' where b': "BlockBuilder_Finish (block_builder n es) = (build_block n es, b')" by (metis prod.collapse)
  have w: "WriteRawBlock a append c t tb = (h, tb')" and b: "b = BlockBuilder_Reset b'"
    using assms(1) by (auto simp: WriteBlock_def Let_def b' c split: prod.splits)
  show "b = block_builder n []" using Reset_block_builder [of n es] by (simp add: b b')
  show "wrote port (build_block n es) h tb tb'"
    by (rule WriteRawBlock_wrote [OF w assms(2-4) compressed_unpacks [OF assms(5) c]])
qed

end

text \<open>What all the writes of \<open>Finish\<close> keep.\<close>

context writable_file
begin

definition grown :: "'f TableBuilder \<Rightarrow> 'f TableBuilder \<Rightarrow> bool" where
  "grown tb tb' \<longleftrightarrow> valid (t_file tb') \<and> t_offset tb' = word_of_nat (length (contents (t_file tb'))) \<and>
     (\<exists>z. contents (t_file tb') = contents (t_file tb) @ z) \<and> t_options tb' = t_options tb \<and> index_block tb' = index_block tb \<and>
     pending_index_entry tb' = pending_index_entry tb \<and> pending_handle tb' = pending_handle tb \<and> t_last_key tb' = t_last_key tb \<and>
     (filter_builder tb' = None \<longleftrightarrow> filter_builder tb = None)"

lemma wrote_facts:
  assumes "wrote port raw h tb tb'"
  shows "grown tb tb'" "stored_at port (contents (t_file tb')) h raw" "h_offset h = t_offset tb" "filter_builder tb' = filter_builder tb"
    "num_entries tb' = num_entries tb" "data_block tb' = data_block tb"
proof -
  have e: "tb' = tb\<lparr>t_status := OK, t_file := t_file tb', t_offset := t_offset tb'\<rparr>" using assms unfolding wrote_def by blast
  have "t_options tb' = t_options tb" "index_block tb' = index_block tb" "pending_index_entry tb' = pending_index_entry tb"
    "pending_handle tb' = pending_handle tb" "t_last_key tb' = t_last_key tb" "filter_builder tb' = filter_builder tb"
    "num_entries tb' = num_entries tb" "data_block tb' = data_block tb"
    by (subst e, simp)+
  moreover have "valid (t_file tb')" "t_offset tb' = word_of_nat (length (contents (t_file tb')))"
    "\<exists>z. contents (t_file tb') = contents (t_file tb) @ z" "stored_at port (contents (t_file tb')) h raw" "h_offset h = t_offset tb"
    using assms unfolding wrote_def by blast+
  ultimately show "grown tb tb'" "stored_at port (contents (t_file tb')) h raw" "h_offset h = t_offset tb" "filter_builder tb' = filter_builder tb"
    "num_entries tb' = num_entries tb" "data_block tb' = data_block tb"
    by (simp_all add: grown_def)
qed

lemma grown_trans: "grown tb tb1 \<Longrightarrow> grown tb1 tb2 \<Longrightarrow> grown tb tb2"
  unfolding grown_def by (metis append_assoc)

end

section \<open>The invariant of the builder\<close>

text \<open>
  \<open>D\<close> are the blocks with an index entry, \<open>P\<close> the written block whose index entry is pending, \<open>cur\<close> the entries of the data
  block. \<open>offsets_ok\<close>: blocks were started at increasing offsets.
\<close>

type_synonym pending = "(BlockHandle \<times> entries) option"

definition rest_of :: "pending \<Rightarrow> entries \<Rightarrow> entries" where
  "rest_of P cur = (case P of None \<Rightarrow> [] | Some (h, es) \<Rightarrow> es) @ cur"

definition pending_keys :: "pending \<Rightarrow> (u64 \<times> slice list) list" where
  "pending_keys P = (case P of None \<Rightarrow> [] | Some (h, es) \<Rightarrow> [(h_offset h, map fst es)])"

definition offsets_ok :: "byte list \<Rightarrow> (u64 \<times> slice list) list \<Rightarrow> bool" where
  "offsets_ok F bs \<longleftrightarrow> (\<exists>ks. sorted_wrt (<) ks \<and> map fst bs = map word_of_nat ks \<and> (\<forall>k \<in> set ks. k \<le> length F))"

definition filter_of :: "Options \<Rightarrow> (u64 \<times> slice list) list \<Rightarrow> FilterBlockBuilder option" where
  "filter_of opt bs = map_option (\<lambda>_. foldl (add_block (create_filter opt)) new_FilterBlockBuilder bs) (o_filter_policy opt)"

definition building ::
  "('f \<Rightarrow> byte list) \<Rightarrow> ('f \<Rightarrow> bool) \<Rightarrow> (slice \<Rightarrow> bool) \<Rightarrow> snappy_port \<Rightarrow> Options \<Rightarrow> 'f TableBuilder \<Rightarrow> data_blocks \<Rightarrow> pending \<Rightarrow> entries \<Rightarrow> bool"
where
  "building contents fvalid valid port opt tb D P cur \<longleftrightarrow>
     (let F = contents (t_file tb); n = o_block_restart_interval opt; cmp = o_Compare opt; rest = rest_of P cur in
      t_options tb = opt \<and> fvalid (t_file tb) \<and> t_offset tb = word_of_nat (length F) \<and>
      index_block tb = block_builder 1 (index_of D) \<and> data_block tb = block_builder n cur \<and>
      stored_blocks port n F D \<and>
      (case P of
         None \<Rightarrow> \<not> pending_index_entry tb
       | Some (h, es) \<Rightarrow> pending_index_entry tb \<and> pending_handle tb = h \<and> es \<noteq> [] \<and> stored_at port F h (build_block n es) \<and> cur = []) \<and>
      separated valid cmp D rest \<and> (rest = [] \<longrightarrow> D = []) \<and> (rest \<noteq> [] \<longrightarrow> t_last_key tb = fst (last rest)) \<and>
      (\<forall>e \<in> set (entries_of D @ rest). valid (fst e)) \<and> sorted_wrt (\<lambda>a b. cmp (fst a) (fst b) < 0) (entries_of D @ rest) \<and>
      num_entries tb = int (length (entries_of D @ rest)) \<and>
      filter_builder tb = filter_of opt (key_blocks D @ pending_keys P @ [(word_of_nat (length F), map fst cur)]) \<and>
      offsets_ok F (key_blocks D @ pending_keys P @ [(word_of_nat (length F), map fst cur)]))"

lemma filter_of_StartBlock:
  "map_option (StartBlock (create_filter opt) off) (filter_of opt bs) = filter_of opt (bs @ [(off, [])])"
  by (simp add: filter_of_def add_block_def option.map_comp comp_def)

lemma filter_of_AddKey:
  "map_option (AddKey k) (filter_of opt (bs @ [(off, ks)])) = filter_of opt (bs @ [(off, ks @ [k])])"
  by (simp add: filter_of_def add_block_def option.map_comp comp_def)

lemma offsets_ok_append:
  "z \<noteq> [] \<Longrightarrow> offsets_ok F (bs @ [(off, ks)]) \<Longrightarrow> offsets_ok (F @ z) (bs @ [(off, ks'), (word_of_nat (length (F @ z)), [])])"
  unfolding offsets_ok_def
proof (elim exE conjE)
  fix ns assume z: "z \<noteq> []" and ns: "sorted_wrt (<) ns" "map fst (bs @ [(off, ks)]) = map word_of_nat ns" "\<forall>k \<in> set ns. k \<le> length F"
  show "\<exists>ks. sorted_wrt (<) ks \<and> map fst (bs @ [(off, ks'), (word_of_nat (length (F @ z)), [])]) = map word_of_nat ks \<and>
      (\<forall>k \<in> set ks. k \<le> length (F @ z))"
    using z ns by (intro exI [of _ "ns @ [length (F @ z)]"]) (auto simp: sorted_wrt_append le_imp_less_Suc trans_le_add1 neq_Nil_conv simp flip: ns(2))
qed

lemma offsets_ok_keys: "map fst bs = map fst bs' \<Longrightarrow> offsets_ok F bs \<Longrightarrow> offsets_ok F bs'"
  by (simp add: offsets_ok_def)

lemma offsets_ok_prefix: "offsets_ok F (bs @ [b]) \<Longrightarrow> offsets_ok F bs"
  unfolding offsets_ok_def
proof (elim exE conjE)
  fix ks assume ks: "sorted_wrt (<) ks" "map fst (bs @ [b]) = map word_of_nat ks" "\<forall>k \<in> set ks. k \<le> length F"
  then have "ks \<noteq> []" by auto
  with ks have "sorted_wrt (<) (butlast ks)" "map fst bs = map word_of_nat (butlast ks)"
    by (metis sorted_wrt_append append_butlast_last_id, metis butlast_snoc map_butlast)
  then show "\<exists>ks. sorted_wrt (<) ks \<and> map fst bs = map word_of_nat ks \<and> (\<forall>k \<in> set ks. k \<le> length F)"
    using ks(3) in_set_butlastD by fastforce
qed

lemma offsets_ok_longer: "offsets_ok F bs \<Longrightarrow> offsets_ok (F @ z) bs"
  unfolding offsets_ok_def by (metis length_append trans_le_add1)

section \<open>A finished table\<close>

text \<open>A client that adds entries and finishes the table.\<close>

definition build_table ::
  "addr \<Rightarrow> ('f \<Rightarrow> slice \<Rightarrow> status \<times> 'f) \<Rightarrow> ('f \<Rightarrow> status \<times> 'f) \<Rightarrow> snappy_port \<Rightarrow> Options \<Rightarrow> 'f \<Rightarrow> entries \<Rightarrow> status \<times> 'f TableBuilder"
where
  "build_table a app flush port opt f es = TableBuilder_Finish a app flush port
     (foldl (\<lambda>tb e. TableBuilder_Add a app flush port tb (fst e) (snd e)) (new_TableBuilder opt f) es)"

text \<open>\<open>off\<close> is the offset at which the data blocks end.\<close>

definition table_image :: "(slice \<Rightarrow> bool) \<Rightarrow> snappy_port \<Rightarrow> Options \<Rightarrow> byte list \<Rightarrow> data_blocks \<Rightarrow> bool" where
  "table_image valid port opt F D \<longleftrightarrow>
     (let n = o_block_restart_interval opt; cmp = o_Compare opt in
      stored_blocks port n F D \<and> separated valid cmp D [] \<and> (\<forall>e \<in> set (entries_of D). valid (fst e)) \<and>
      sorted_wrt (\<lambda>a b. cmp (fst a) (fst b) < 0) (entries_of D) \<and> offsets_ok F (key_blocks D) \<and>
      (\<exists>mh ih. (\<exists>x. F = x @ Footer_EncodeTo [] \<lparr>metaindex_handle = mh, index_handle = ih\<rparr>) \<and>
        stored_at port F ih (build_block 1 (index_of D)) \<and>
        (case o_filter_policy opt of
           None \<Rightarrow> stored_at port F mh (build_block n [])
         | Some p \<Rightarrow> \<exists>fh off. stored_at port F mh (build_block n [(filter_key opt, handle_bytes fh)]) \<and>
             stored_at port F fh (filter_block (fp_CreateFilter p) (key_blocks D @ [(off, [])])) \<and>
             offsets_ok F (key_blocks D @ [(off, [])]))))"

locale table_writer = wfile: writable_file app flush contents stored idle fvalid + comparator valid cmp sep succ
  for app :: "'f \<Rightarrow> slice \<Rightarrow> status \<times> 'f" and flush contents stored idle fvalid and valid cmp sep succ
begin

definition options_ok :: "Options \<Rightarrow> bool" where
  "options_ok opt \<longleftrightarrow> o_Compare opt = cmp \<and> o_FindShortestSeparator opt = sep \<and> o_FindShortSuccessor opt = succ \<and>
     1 \<le> o_block_restart_interval opt"

abbreviation builds where "builds \<equiv> building contents fvalid valid"

lemma new_building:
  assumes "fvalid f" and "contents f = []"
  shows "builds port opt (new_TableBuilder opt f) [] None []"
proof -
  have "filter_builder (new_TableBuilder opt f) = filter_of opt [(0, [])]"
    by (simp add: new_TableBuilder_def filter_of_def add_block_def)
  moreover have "offsets_ok [] [(0, [])]" by (simp add: offsets_ok_def) (rule exI [of _ "[0]"], simp)
  ultimately show ?thesis
    using assms by (simp add: building_def Let_def new_TableBuilder_def block_builder_Nil stored_blocks_def rest_of_def pending_keys_def)
qed

lemma Flush_building:
  assumes b: "builds port opt tb D None cur" and "cur \<noteq> []" and "snappy_ok port" and "options_ok opt"
    and "tb' = Flush a app flush port tb" and "ok (t_status tb')" and "ok (t_status tb)"
  shows "\<exists>h. builds port opt tb' D (Some (h, cur)) [] \<and> (\<exists>z. contents (t_file tb') = contents (t_file tb) @ z)"
proof -
  let ?n = "o_block_restart_interval opt"
  obtain h blk tb1 where w: "WriteBlock a app port (data_block tb) tb = (h, blk, tb1)" by (metis prod_cases3)
  obtain s f where fl: "flush (t_file tb1) = (s, f)" by fastforce
  have data: "data_block tb = block_builder ?n cur" using b by (simp add: building_def Let_def)
  then have ne: "\<not> BlockBuilder_empty (data_block tb)" using assms(2) by (simp add: empty_block_builder)
  have ok1: "ok (t_status tb1)" using assms(5-7) ne w by (auto simp: Flush_def Let_def split: if_splits)
  have tb': "tb' = tb1\<lparr>data_block := blk, pending_handle := h, pending_index_entry := True, t_status := s, t_file := f,
      filter_builder := map_option (StartBlock (create_filter (t_options tb1)) (t_offset tb1)) (filter_builder tb1)\<rparr>"
    using assms(5-7) ne w ok1 fl by (simp add: Flush_def Let_def)
  then have "ok s" using assms(6) by simp
  have off: "fvalid (t_file tb)" "t_offset tb = word_of_nat (length (contents (t_file tb)))" using b by (simp_all add: building_def Let_def)
  note wr = wfile.WriteBlock_wrote [OF w [unfolded data] ok1 off assms(3)]
  then have tb1: "fvalid (t_file tb1)" "tb1 = tb\<lparr>t_status := OK, t_file := t_file tb1, t_offset := t_offset tb1\<rparr>"
    "h_offset h = t_offset tb" "t_offset tb1 = word_of_nat (length (contents (t_file tb1)))"
    "stored_at port (contents (t_file tb1)) h (build_block ?n cur)" unfolding wfile.wrote_def by blast+
  from wr(2) obtain z where z: "z \<noteq> []" "contents (t_file tb1) = contents (t_file tb) @ z" unfolding wfile.wrote_def by blast
  have f: "contents f = contents (t_file tb1)" "fvalid f"
    using wfile.flush_ok [OF tb1(1) fl \<open>ok s\<close>] wfile.flush_valid [OF tb1(1) fl] by simp_all
  have same: "t_options tb1 = t_options tb" "index_block tb1 = index_block tb" "t_last_key tb1 = t_last_key tb"
    "num_entries tb1 = num_entries tb" "filter_builder tb1 = filter_builder tb"
    by (subst tb1(2), simp)+
  have "filter_builder tb' = filter_of opt (key_blocks D @ [(h_offset h, map fst cur), (t_offset tb1, [])])"
    using b filter_of_StartBlock [of opt "t_offset tb1" "key_blocks D @ [(word_of_nat (length (contents (t_file tb))), map fst cur)]"]
    by (simp add: tb' same building_def Let_def pending_keys_def tb1(3) off(2))
  moreover have "offsets_ok (contents (t_file tb1)) (key_blocks D @ [(h_offset h, map fst cur), (t_offset tb1, [])])"
  proof -
    have "offsets_ok (contents (t_file tb)) (key_blocks D @ [(word_of_nat (length (contents (t_file tb))), map fst cur)])"
      using b by (simp add: building_def Let_def pending_keys_def)
    from offsets_ok_append [OF z(1) this, of "map fst cur"] show ?thesis by (simp only: z(2) tb1(3,4) off(2))
  qed
  ultimately have "builds port opt tb' D (Some (h, cur)) []"
    using b f tb1 same wr(1) assms(2) stored_blocks_append [of port ?n "contents (t_file tb)" D z]
    by (simp add: building_def Let_def tb' rest_of_def pending_keys_def z(2))
  moreover have "contents (t_file tb') = contents (t_file tb) @ z" using f z(2) by (simp add: tb')
  ultimately show ?thesis by blast
qed

lemma Add_building:
  assumes b: "builds port opt tb D P cur" and key: "valid key"
    and after: "rest_of P cur \<noteq> [] \<Longrightarrow> cmp (fst (last (rest_of P cur))) key < 0" and opt: "options_ok opt" and port: "snappy_ok port"
    and tb': "tb' = TableBuilder_Add a app flush port tb key val" and ok': "ok (t_status tb')"
  shows "ok (t_status tb)" "\<exists>D' P' cur'. builds port opt tb' D' P' cur' \<and>
    entries_of D' @ rest_of P' cur' = entries_of D @ rest_of P cur @ [(key, val)]"
proof -
  let ?n = "o_block_restart_interval opt" and ?off = "word_of_nat (length (contents (t_file tb))) :: u64"
  show ok: "ok (t_status tb)" using tb' ok' by (auto simp: TableBuilder_Add_def split: if_splits)
  define tb1 where "tb1 = (if pending_index_entry tb then add_index_entry (sep (t_last_key tb) key) tb else tb)"
  define tb2 where "tb2 = tb1\<lparr>filter_builder := map_option (AddKey key) (filter_builder tb1), t_last_key := key,
      num_entries := num_entries tb1 + 1, data_block := BlockBuilder_Add (data_block tb1) key val\<rparr>"
  have o: "o_Compare opt = cmp" "o_FindShortestSeparator opt = sep" using opt by (simp_all add: options_ok_def)
  have opt_tb: "t_options tb = opt" using b by (simp add: building_def Let_def)
  have step: "tb' = (if CurrentSizeEstimate (data_block tb2) \<ge> o_block_size (t_options tb2) then Flush a app flush port tb2 else tb2)"
    using tb' ok by (simp add: TableBuilder_Add_def tb1_def tb2_def Let_def opt_tb o)
  have all: "\<forall>e \<in> set (entries_of D @ rest_of P cur). valid (fst e)" using b by (simp add: building_def Let_def)
  have sorted: "sorted_wrt (\<lambda>a b. cmp (fst a) (fst b) < 0) (entries_of D @ rest_of P cur @ [(key, val)])"
  proof (cases "rest_of P cur = []")
    case True
    with b show ?thesis by (simp add: building_def Let_def)
  next
    case False
    have ord: "ordered (entries_of D @ rest_of P cur)" using b by (simp add: building_def Let_def o)
    have last: "last (entries_of D @ rest_of P cur) = last (rest_of P cur)" using False by simp
    have "cmp (fst e) key < 0" if e: "e \<in> set (entries_of D @ rest_of P cur)" for e
    proof -
      have "cmp (fst e) (fst (last (rest_of P cur))) \<le> 0" using last_largest [OF ord _ e] False by (simp add: last)
      moreover have "valid (fst (last (rest_of P cur)))" using all last_in_set [OF False] by simp
      ultimately show ?thesis using le_less_trans [OF _ _ key _ after [OF False]] all e by blast
    qed
    with ord show ?thesis by (auto simp: sorted_wrt_append)
  qed
  have "\<exists>D'. builds port opt tb2 D' None (if P = None then cur @ [(key, val)] else [(key, val)]) \<and>
      entries_of D' @ rest_of None (if P = None then cur @ [(key, val)] else [(key, val)]) = entries_of D @ rest_of P cur @ [(key, val)]"
  proof (cases P)
    case None
    have np: "\<not> pending_index_entry tb" using b None by (simp add: building_def Let_def)
    have sepd: "separated valid cmp D (cur @ [(key, val)])"
    proof (cases "cur = []")
      case True
      with b None show ?thesis by (simp add: building_def Let_def rest_of_def)
    next
      case False
      with b None separated_more [of D cur "(key, val)"] after key all show ?thesis by (simp add: building_def Let_def rest_of_def o)
    qed
    have "builds port opt tb2 D None (cur @ [(key, val)])"
      using b None np sepd key all sorted offsets_ok_keys [of "key_blocks D @ [(?off, map fst cur)]" "key_blocks D @ [(?off, map fst cur @ [key])]" "contents (t_file tb)"]
      by (simp add: building_def Let_def rest_of_def tb2_def tb1_def block_builder_snoc pending_keys_def filter_of_AddKey o)
    with None show ?thesis by (auto simp: rest_of_def)
  next
    case (Some p)
    obtain h es where p: "P = Some (h, es)" using Some by (cases p) simp
    have P: "pending_index_entry tb" "pending_handle tb = h" "es \<noteq> []" "stored_at port (contents (t_file tb)) h (build_block ?n es)" "cur = []"
      "t_last_key tb = fst (last es)" using b p by (simp_all add: building_def Let_def rest_of_def)
    have rest: "rest_of P cur = es" using p P(5) by (simp add: rest_of_def)
    let ?s = "sep (t_last_key tb) key"
    have lt: "cmp (t_last_key tb) key < 0" "valid (t_last_key tb)" using after all P p by (simp_all add: rest_of_def)
    have s: "valid ?s" "cmp (t_last_key tb) ?s \<le> 0" "cmp ?s key < 0"
      using sep_valid [OF lt(2) key] sep_between [OF lt(2) key lt(1)] by simp_all
    have own: "\<forall>e \<in> set es. cmp (fst e) ?s \<le> 0"
    proof
      fix e assume e: "e \<in> set es"
      have "ordered es" using b p P by (simp add: building_def Let_def rest_of_def o sorted_wrt_append)
      from last_largest [OF this P(3) e] P(6) have "cmp (fst e) (t_last_key tb) \<le> 0" by simp
      moreover have "valid (fst e)" using all e p by (simp add: rest_of_def)
      ultimately show "cmp (fst e) ?s \<le> 0"
        using cmp_trans [of "fst e" "t_last_key tb" ?s] cmp_eq [of "fst e" "t_last_key tb"] cmp_eq [of "t_last_key tb" ?s] s lt by force
    qed
    have sepd: "separated valid cmp (D @ [(?s, h, es)]) [(key, val)]"
      using b p P separated_more [of D es "(key, val)"] after key all own s
      by (simp add: separated_snoc building_def Let_def rest_of_def o)
    have B: "fvalid (t_file tb)" "t_offset tb = ?off" "index_block tb = block_builder 1 (index_of D)" "data_block tb = block_builder ?n []"
      "stored_blocks port ?n (contents (t_file tb)) D" "num_entries tb = int (length (entries_of D @ es))"
      "filter_builder tb = filter_of opt (key_blocks D @ [(h_offset h, map fst es), (?off, [])])"
      "offsets_ok (contents (t_file tb)) (key_blocks D @ [(h_offset h, map fst es), (?off, [])])"
      using b p P(5) by (simp_all add: building_def Let_def rest_of_def pending_keys_def)
    have "map_option (AddKey key) (filter_builder tb) = filter_of opt (key_blocks D @ [(h_offset h, map fst es), (?off, [key])])"
      using filter_of_AddKey [of key opt "key_blocks D @ [(h_offset h, map fst es)]" ?off "[]"] B(7) by simp
    moreover have "offsets_ok (contents (t_file tb)) (key_blocks D @ [(h_offset h, map fst es), (?off, [key])])"
      by (rule offsets_ok_keys [OF _ B(8)]) simp
    ultimately have "builds port opt tb2 (D @ [(?s, h, es)]) None [(key, val)]"
      unfolding building_def Let_def rest_of_def pending_keys_def blocks_snoc o option.case append_Nil append_assoc append_Cons
    proof (intro conjI)
      show "separated valid cmp (D @ [(?s, h, es)]) [(key, val)]" by (rule sepd)
      show "\<forall>e \<in> set (entries_of D @ es @ [(key, val)]). valid (fst e)"
      proof
        fix e assume "e \<in> set (entries_of D @ es @ [(key, val)])"
        then have "e \<in> set (entries_of D @ rest_of P cur) \<or> e = (key, val)" by (auto simp: rest)
        then show "valid (fst e)" using all key by (elim disjE) (blast, simp only: fst_conv)
      qed
      show "sorted_wrt (\<lambda>a b. cmp (fst a) (fst b) < 0) (entries_of D @ es @ [(key, val)])" by (rule sorted [unfolded rest])
    qed (simp_all add: tb2_def tb1_def add_index_entry_def B P opt_tb block_builder_snoc block_builder_single stored_blocks_snoc
        BlockHandle_EncodeTo_bytes)
    with p P show ?thesis by (auto simp: rest_of_def)
  qed
  moreover define cur' where "cur' = (if P = None then cur @ [(key, val)] else [(key, val)])"
  ultimately obtain D' where b2: "builds port opt tb2 D' None cur'" "entries_of D' @ rest_of None cur' = entries_of D @ rest_of P cur @ [(key, val)]"
    by blast
  have ne: "cur' \<noteq> []" by (simp add: cur'_def)
  have ok2: "ok (t_status tb2)" using ok by (simp add: tb2_def tb1_def add_index_entry_def)
  show "\<exists>D' P' cur'. builds port opt tb' D' P' cur' \<and> entries_of D' @ rest_of P' cur' = entries_of D @ rest_of P cur @ [(key, val)]"
  proof (cases "tb' = tb2")
    case True
    with b2 show ?thesis by blast
  next
    case False
    with step have "tb' = Flush a app flush port tb2" by (simp split: if_splits)
    from Flush_building [OF b2(1) ne port opt this ok' ok2] obtain h where "builds port opt tb' D' (Some (h, cur')) []" by blast
    moreover have "rest_of (Some (h, cur')) [] = rest_of None cur'" by (simp add: rest_of_def)
    ultimately show ?thesis using b2(2) by metis
  qed
qed

lemma Add_all_building:
  assumes "builds port opt tb D P cur" and "options_ok opt" and "snappy_ok port"
    and "ordered (entries_of D @ rest_of P cur @ es)"
    and "ok (t_status (foldl (\<lambda>tb e. TableBuilder_Add a app flush port tb (fst e) (snd e)) tb es))"
  shows "\<exists>D' P' cur'. builds port opt (foldl (\<lambda>tb e. TableBuilder_Add a app flush port tb (fst e) (snd e)) tb es) D' P' cur' \<and>
    entries_of D' @ rest_of P' cur' = entries_of D @ rest_of P cur @ es"
  using assms(4,5)
proof (induction es rule: rev_induct)
  case Nil
  with assms(1) show ?case by auto
next
  case (snoc e es)
  let ?tb = "foldl (\<lambda>tb e. TableBuilder_Add a app flush port tb (fst e) (snd e)) tb es"
  have ord: "ordered (entries_of D @ rest_of P cur @ es)" using snoc.prems(1) by (auto simp: sorted_wrt_append)
  have ok': "ok (t_status (TableBuilder_Add a app flush port ?tb (fst e) (snd e)))" using snoc.prems(2) by simp
  then have "ok (t_status ?tb)" by (auto simp: TableBuilder_Add_def split: if_splits)
  from snoc.IH [OF ord this] obtain D1 P1 cur1 where b: "builds port opt ?tb D1 P1 cur1"
    "entries_of D1 @ rest_of P1 cur1 = entries_of D @ rest_of P cur @ es" by blast
  have after: "cmp (fst (last (rest_of P1 cur1))) (fst e) < 0" if ne: "rest_of P1 cur1 \<noteq> []"
  proof -
    have "last (rest_of P1 cur1) \<in> set (entries_of D @ rest_of P cur @ es)" using last_in_set [OF ne] by (metis b(2) UnCI set_append)
    moreover have "ordered ((entries_of D @ rest_of P cur @ es) @ [e])" using snoc.prems(1) unfolding append_assoc .
    ultimately show ?thesis by (rule ordered_last [rotated])
  qed
  have "valid (fst e)" using snoc.prems(1) by simp
  from Add_building(2) [OF b(1) this after assms(2,3) refl ok'] b(2) show ?case by (auto simp flip: append_assoc)
qed

lemma Flush_finishes:
  assumes b: "builds port opt tb D P cur" and "options_ok opt" and "snappy_ok port"
    and "tb' = Flush a app flush port tb" and "ok (t_status tb')" and "ok (t_status tb)"
  shows "\<exists>P'. builds port opt tb' D P' [] \<and> rest_of P' [] = rest_of P cur"
proof (cases "cur = []")
  case True
  then have "data_block tb = block_builder (o_block_restart_interval opt) []" using b by (simp add: building_def Let_def)
  then have "tb' = tb" using assms(4) by (simp add: Flush_def empty_block_builder)
  with b True show ?thesis by blast
next
  case False
  then have "P = None" using b by (cases P) (auto simp: building_def Let_def)
  with Flush_building [OF _ False assms(3,2,4,5,6)] b obtain h where "builds port opt tb' D (Some (h, cur)) []" by blast
  with \<open>P = None\<close> show ?thesis by (auto simp: rest_of_def)
qed

lemma Flush_status: "ok (t_status (Flush a app flush port tb)) \<Longrightarrow> ok (t_status tb)"
  by (auto simp: Flush_def split: if_splits)

lemma finish_status:
  "finish_filter a app tb = (fh, tb') \<Longrightarrow> ok (t_status tb') \<Longrightarrow> ok (t_status tb)"
  "finish_metaindex a app port fh tb = (mh, tb') \<Longrightarrow> ok (t_status tb') \<Longrightarrow> ok (t_status tb)"
  "finish_index a app port tb = (ih, tb') \<Longrightarrow> ok (t_status tb') \<Longrightarrow> ok (t_status tb)"
  "ok (t_status (finish_footer app footer tb)) \<Longrightarrow> ok (t_status tb)"
  by (auto simp: finish_filter_def finish_metaindex_def finish_index_def finish_footer_def split: if_splits option.splits)

text \<open>The last index entry.\<close>

lemma succ_separates:
  assumes b: "builds port opt tb D (Some (h, es)) []" and opt: "options_ok opt"
  shows "separated valid cmp (D @ [(succ (t_last_key tb), h, es)]) []"
proof -
  have o: "o_Compare opt = cmp" using opt by (simp add: options_ok_def)
  have es: "es \<noteq> []" "t_last_key tb = fst (last es)" "separated valid cmp D es" and ord: "ordered es"
    using b by (simp_all add: building_def Let_def rest_of_def o sorted_wrt_append)
  have v: "valid (t_last_key tb)" using ord es by simp
  have "cmp (fst e) (succ (t_last_key tb)) \<le> 0" if e: "e \<in> set es" for e
  proof -
    have "cmp (fst e) (t_last_key tb) \<le> 0" using last_largest [OF ord es(1) e] es(2) by simp
    moreover have "valid (fst e)" using ord e by blast
    ultimately show ?thesis
      using cmp_trans [of "fst e" "t_last_key tb" "succ (t_last_key tb)"] cmp_eq [of "fst e" "t_last_key tb"]
        cmp_eq [of "t_last_key tb" "succ (t_last_key tb)"] succ_above [OF v] succ_valid [OF v] v by force
  qed
  with es succ_valid [OF v] show ?thesis by (simp add: separated_snoc)
qed

lemma finish_filter_grown:
  assumes "finish_filter a app tb = (fh, tb')" and "ok (t_status tb')" and "fvalid (t_file tb)"
    and "t_offset tb = word_of_nat (length (contents (t_file tb)))" and "t_options tb = opt" and "filter_builder tb = filter_of opt bs"
  shows "wfile.grown tb tb'"
    "o_filter_policy opt = Some p \<Longrightarrow> stored_at port (contents (t_file tb')) fh (filter_block (fp_CreateFilter p) bs)"
proof -
  have "wfile.grown tb tb' \<and>
      (\<forall>p. o_filter_policy opt = Some p \<longrightarrow> stored_at port (contents (t_file tb')) fh (filter_block (fp_CreateFilter p) bs))"
  proof (cases "o_filter_policy opt")
    case None
    then have "tb' = tb" using assms(1,6) by (simp add: finish_filter_def filter_of_def)
    with None assms show ?thesis by (simp add: wfile.grown_def)
  next
    case (Some p)
    let ?fb = "foldl (add_block (fp_CreateFilter p)) new_FilterBlockBuilder bs"
    obtain c fb' where c: "FilterBlockBuilder_Finish (fp_CreateFilter p) ?fb = (c, fb')" by fastforce
    have fb: "filter_builder tb = Some ?fb" using assms(6) Some by (simp add: filter_of_def create_filter_def)
    note ok = finish_status(1) [OF assms(1,2)]
    let ?tb = "tb\<lparr>filter_builder := Some fb'\<rparr>"
    have w: "WriteRawBlock a app c kNoCompression ?tb = (fh, tb')"
      using assms(1,5) fb ok Some c by (simp add: finish_filter_def create_filter_def)
    have "wfile.wrote port c fh ?tb tb'"
      by (rule wfile.WriteRawBlock_wrote [OF w assms(2)]) (use assms in \<open>simp_all add: unpacks_def\<close>)
    note wr = wfile.wrote_facts [OF this]
    have "c = filter_block (fp_CreateFilter p) bs" by (simp add: filter_block_def c)
    moreover have "wfile.grown tb tb'" using wr(1) fb by (simp add: wfile.grown_def)
    ultimately show ?thesis using wr(2) ok Some by simp
  qed
  then show "wfile.grown tb tb'"
    "o_filter_policy opt = Some p \<Longrightarrow> stored_at port (contents (t_file tb')) fh (filter_block (fp_CreateFilter p) bs)" by blast+
qed

lemma finish_metaindex_grown:
  assumes "finish_metaindex a app port fh tb = (mh, tb')" and "ok (t_status tb')" and "fvalid (t_file tb)"
    and "t_offset tb = word_of_nat (length (contents (t_file tb)))" and "t_options tb = opt" and "snappy_ok port"
  shows "wfile.grown tb tb'" "stored_at port (contents (t_file tb')) mh
    (build_block (o_block_restart_interval opt) (if filter_builder tb = None then [] else [(filter_key opt, handle_bytes fh)]))"
proof -
  note ok = finish_status(2) [OF assms(1,2)]
  let ?n = "o_block_restart_interval opt" and ?es = "if filter_builder tb = None then [] else [(filter_key opt, handle_bytes fh)]"
  obtain b where w: "WriteBlock a app port (block_builder ?n ?es) tb = (mh, b, tb')"
    using assms(1,5) ok by (cases "filter_builder tb = None")
      (auto simp: finish_metaindex_def Let_def block_builder_single block_builder_Nil BlockHandle_EncodeTo_bytes split: prod.splits)
  note wr = wfile.wrote_facts [OF wfile.WriteBlock_wrote(2) [OF w assms(2-4,6)]]
  then show "wfile.grown tb tb'" "stored_at port (contents (t_file tb')) mh (build_block ?n ?es)" by blast+
qed

lemma finish_index_grown:
  assumes "finish_index a app port tb = (ih, tb')" and "ok (t_status tb')" and "fvalid (t_file tb)"
    and "t_offset tb = word_of_nat (length (contents (t_file tb)))" and "options_ok (t_options tb)" and "snappy_ok port"
    and "index_block tb = block_builder 1 ix"
  shows "fvalid (t_file tb')" "t_offset tb' = word_of_nat (length (contents (t_file tb')))"
    "\<exists>z. contents (t_file tb') = contents (t_file tb) @ z"
    "stored_at port (contents (t_file tb')) ih (build_block 1
      (ix @ (if pending_index_entry tb then [(succ (t_last_key tb), handle_bytes (pending_handle tb))] else [])))"
proof -
  note ok = finish_status(3) [OF assms(1,2)]
  let ?tb = "if pending_index_entry tb then add_index_entry (succ (t_last_key tb)) tb else tb"
  let ?ix = "ix @ (if pending_index_entry tb then [(succ (t_last_key tb), handle_bytes (pending_handle tb))] else [])"
  obtain b tb1 where w: "WriteBlock a app port (index_block ?tb) ?tb = (ih, b, tb1)" and tb': "tb' = tb1\<lparr>index_block := b\<rparr>"
    using assms(1,5) ok by (auto simp: finish_index_def Let_def options_ok_def split: prod.splits)
  have ib: "index_block ?tb = block_builder 1 ?ix"
    using assms(7) by (simp add: add_index_entry_def block_builder_snoc BlockHandle_EncodeTo_bytes)
  have "ok (t_status tb1)" using assms(2) tb' by simp
  moreover have "fvalid (t_file ?tb)" "t_offset ?tb = word_of_nat (length (contents (t_file ?tb)))"
    using assms(3,4) by (simp_all add: add_index_entry_def)
  ultimately have "wfile.wrote port (build_block 1 ?ix) ih ?tb tb1"
    using wfile.WriteBlock_wrote(2) [OF w [unfolded ib] _ _ _ assms(6)] by blast
  note wr = wfile.wrote_facts [OF this]
  have "t_file ?tb = t_file tb" by (simp add: add_index_entry_def)
  with wr(1,2) show "fvalid (t_file tb')" "t_offset tb' = word_of_nat (length (contents (t_file tb')))"
    "\<exists>z. contents (t_file tb') = contents (t_file tb) @ z" "stored_at port (contents (t_file tb')) ih (build_block 1 ?ix)"
    by (simp_all add: tb' wfile.grown_def)
qed

text \<open>All written blocks, once the last one has its index entry, in a file that has grown since.\<close>

definition all_blocks :: "'f TableBuilder \<Rightarrow> data_blocks \<Rightarrow> pending \<Rightarrow> data_blocks" where
  "all_blocks tb D P = D @ (case P of None \<Rightarrow> [] | Some (h, es) \<Rightarrow> [(succ (t_last_key tb), h, es)])"

lemma all_blocks_facts:
  assumes b: "builds port opt tb D P []" and opt: "options_ok opt"
  shows "entries_of (all_blocks tb D P) = entries_of D @ rest_of P []"
    "key_blocks (all_blocks tb D P) = key_blocks D @ pending_keys P"
    "index_of (all_blocks tb D P) =
       index_of D @ (if pending_index_entry tb then [(succ (t_last_key tb), handle_bytes (pending_handle tb))] else [])"
    "separated valid cmp (all_blocks tb D P) []"
    "stored_blocks port (o_block_restart_interval opt) (contents (t_file tb) @ z) (all_blocks tb D P)"
proof -
  let ?n = "o_block_restart_interval opt" and ?D = "all_blocks tb D P"
  have o: "o_Compare opt = cmp" using opt by (simp add: options_ok_def)
  have st: "stored_blocks port ?n (contents (t_file tb) @ z) D"
    using b by (simp add: building_def Let_def stored_blocks_append)
  have "entries_of ?D = entries_of D @ rest_of P [] \<and> key_blocks ?D = key_blocks D @ pending_keys P \<and>
    index_of ?D = index_of D @ (if pending_index_entry tb then [(succ (t_last_key tb), handle_bytes (pending_handle tb))] else []) \<and>
    separated valid cmp ?D [] \<and> stored_blocks port ?n (contents (t_file tb) @ z) ?D"
  proof (cases P)
    case None
    with b st show ?thesis by (simp add: all_blocks_def rest_of_def pending_keys_def building_def Let_def o)
  next
    case (Some q)
    obtain h es where q: "P = Some (h, es)" using Some by (cases q) simp
    have "pending_index_entry tb" "pending_handle tb = h" "es \<noteq> []" "stored_at port (contents (t_file tb)) h (build_block ?n es)"
      using b q by (simp_all add: building_def Let_def)
    with q st succ_separates [OF b [unfolded q] opt] show ?thesis
      by (simp add: all_blocks_def rest_of_def pending_keys_def stored_blocks_snoc stored_at_append)
  qed
  then show "entries_of ?D = entries_of D @ rest_of P []" "key_blocks ?D = key_blocks D @ pending_keys P"
    "index_of ?D = index_of D @ (if pending_index_entry tb then [(succ (t_last_key tb), handle_bytes (pending_handle tb))] else [])"
    "separated valid cmp ?D []" "stored_blocks port ?n (contents (t_file tb) @ z) ?D" by blast+
qed

text \<open>The meta blocks: after \<open>finish_filter\<close> and \<open>finish_metaindex\<close>.\<close>

lemma meta_blocks:
  assumes b: "builds port opt tb D P []" and port: "snappy_ok port"
    and 1: "finish_filter a app (tb\<lparr>closed := True\<rparr>) = (fh, tb1)" and 2: "finish_metaindex a app port fh tb1 = (mh, tb2)"
    and ok: "ok (t_status tb2)"
  shows "wfile.grown tb tb2"
    "case o_filter_policy opt of
       None \<Rightarrow> stored_at port (contents (t_file tb2)) mh (build_block (o_block_restart_interval opt) [])
     | Some p \<Rightarrow> \<exists>fh off. stored_at port (contents (t_file tb2)) mh (build_block (o_block_restart_interval opt) [(filter_key opt, handle_bytes fh)]) \<and>
         stored_at port (contents (t_file tb2)) fh (filter_block (fp_CreateFilter p) (key_blocks D @ pending_keys P @ [(off, [])])) \<and>
         offsets_ok (contents (t_file tb2)) (key_blocks D @ pending_keys P @ [(off, [])])"
proof -
  let ?off = "word_of_nat (length (contents (t_file tb))) :: u64"
  let ?bs = "key_blocks D @ pending_keys P @ [(?off, [])]" and ?n = "o_block_restart_interval opt" and ?F = "contents (t_file tb2)"
  have B: "t_options tb = opt" "fvalid (t_file tb)" "t_offset tb = ?off" "filter_builder tb = filter_of opt ?bs"
    "offsets_ok (contents (t_file tb)) ?bs" using b by (simp_all add: building_def Let_def)
  note ok1 = finish_status(2) [OF 2 ok]
  have g: "wfile.grown tb tb1" using finish_filter_grown(1) [OF 1 ok1, of opt ?bs] B by (simp add: wfile.grown_def)
  then have "fvalid (t_file tb1)" "t_offset tb1 = word_of_nat (length (contents (t_file tb1)))" "t_options tb1 = opt"
    using B(1) by (simp_all add: wfile.grown_def)
  note m = finish_metaindex_grown [OF 2 ok this port]
  show grown: "wfile.grown tb tb2" by (rule wfile.grown_trans [OF g m(1)])
  then obtain z where z: "?F = contents (t_file tb) @ z" by (auto simp: wfile.grown_def)
  obtain y where y: "?F = contents (t_file tb1) @ y" using m(1) by (auto simp: wfile.grown_def)
  have none: "filter_builder tb1 = None \<longleftrightarrow> o_filter_policy opt = None" using g B(4) by (simp add: wfile.grown_def filter_of_def)
  show "case o_filter_policy opt of
       None \<Rightarrow> stored_at port ?F mh (build_block ?n [])
     | Some p \<Rightarrow> \<exists>fh off. stored_at port ?F mh (build_block ?n [(filter_key opt, handle_bytes fh)]) \<and>
         stored_at port ?F fh (filter_block (fp_CreateFilter p) (key_blocks D @ pending_keys P @ [(off, [])])) \<and>
         offsets_ok ?F (key_blocks D @ pending_keys P @ [(off, [])])"
  proof (cases "o_filter_policy opt")
    case None
    with m(2) none show ?thesis by simp
  next
    case (Some p)
    have "stored_at port (contents (t_file tb1)) fh (filter_block (fp_CreateFilter p) ?bs)"
      using finish_filter_grown(2) [OF 1 ok1, of opt ?bs, OF _ _ _ _ Some] B by simp
    then have "stored_at port ?F fh (filter_block (fp_CreateFilter p) ?bs)" unfolding y by (rule stored_at_append)
    moreover have "stored_at port ?F mh (build_block ?n [(filter_key opt, handle_bytes fh)])"
      using m(2) unfolding none Some by simp
    moreover have "offsets_ok ?F ?bs" unfolding z by (rule offsets_ok_longer [OF B(5)])
    ultimately show ?thesis unfolding Some option.case by blast
  qed
qed

lemma Finish_image:
  assumes b: "builds port opt tb D P cur" and opt: "options_ok opt" and port: "snappy_ok port"
    and fin: "TableBuilder_Finish a app flush port tb = (s, tb')" and ok: "ok s"
  shows "\<exists>D'. table_image valid port opt (contents (t_file tb')) D' \<and> entries_of D' = entries_of D @ rest_of P cur \<and>
    fvalid (t_file tb') \<and> t_offset tb' = word_of_nat (length (contents (t_file tb')))"
proof -
  define tb0 where "tb0 = Flush a app flush port tb"
  obtain fh tb1 where 1: "finish_filter a app (tb0\<lparr>closed := True\<rparr>) = (fh, tb1)" by fastforce
  obtain mh tb2 where 2: "finish_metaindex a app port fh tb1 = (mh, tb2)" by fastforce
  obtain ih tb3 where 3: "finish_index a app port tb2 = (ih, tb3)" by fastforce
  let ?foot = "\<lparr>metaindex_handle = mh, index_handle = ih\<rparr>"
  have 4: "tb' = finish_footer app ?foot tb3" "s = t_status tb'"
    using fin by (auto simp: TableBuilder_Finish_def Let_def 1 2 3 simp flip: tb0_def)
  have ok3: "ok (t_status tb3)" using finish_status(4) ok 4 by blast
  note ok2 = finish_status(3) [OF 3 ok3]
  from finish_status(1) [OF 1 finish_status(2) [OF 2 ok2]] have ok0: "ok (t_status tb0)" by simp
  then have okb: "ok (t_status tb)" using Flush_status by (simp add: tb0_def)
  from Flush_finishes [OF b opt port tb0_def ok0 okb] obtain P' where P': "builds port opt tb0 D P' []" "rest_of P' [] = rest_of P cur"
    by blast
  let ?F = "contents (t_file tb')" and ?D = "all_blocks tb0 D P'"
  note m = meta_blocks [OF P'(1) port 1 2 ok2]
  have t2: "fvalid (t_file tb2)" "t_offset tb2 = word_of_nat (length (contents (t_file tb2)))" "options_ok (t_options tb2)"
    "index_block tb2 = block_builder 1 (index_of D)" "pending_index_entry tb2 = pending_index_entry tb0"
    "pending_handle tb2 = pending_handle tb0" "t_last_key tb2 = t_last_key tb0"
    using m(1) P'(1) opt by (simp_all add: wfile.grown_def building_def Let_def)
  note ix = finish_index_grown [OF 3 ok3 t2(1-3) port t2(4)]
  obtain s4 f4 where f4: "app (t_file tb3) (Footer_EncodeTo [] ?foot) = (s4, f4)" by fastforce
  have tb': "tb' = tb3\<lparr>t_status := s4, t_file := f4, t_offset := t_offset tb3 + word_of_nat (length (Footer_EncodeTo [] ?foot))\<rparr>" "ok s4"
    using 4 ok ok3 f4 by (auto simp: finish_footer_def Let_def split: if_splits)
  have F: "?F = contents (t_file tb3) @ Footer_EncodeTo [] ?foot" "fvalid (t_file tb')"
    using wfile.append_ok [OF ix(1) f4 tb'(2)] wfile.append_valid [OF ix(1) f4] by (simp_all add: tb'(1))
  obtain z where z: "?F = contents (t_file tb2) @ z" using ix(3) F(1) by auto
  obtain y where y: "?F = contents (t_file tb0) @ y" using m(1) z by (auto simp: wfile.grown_def)
  note D = all_blocks_facts(1-4) [OF P'(1) opt] all_blocks_facts(5) [OF P'(1) opt, of y]
  have ixs: "stored_at port ?F ih (build_block 1 (index_of ?D))"
    using stored_at_append [OF ix(4), of "Footer_EncodeTo [] ?foot"] unfolding F(1) D(3) t2(5-7) .
  have meta: "case o_filter_policy opt of
       None \<Rightarrow> stored_at port ?F mh (build_block (o_block_restart_interval opt) [])
     | Some p \<Rightarrow> \<exists>fh off. stored_at port ?F mh (build_block (o_block_restart_interval opt) [(filter_key opt, handle_bytes fh)]) \<and>
         stored_at port ?F fh (filter_block (fp_CreateFilter p) (key_blocks ?D @ [(off, [])])) \<and>
         offsets_ok ?F (key_blocks ?D @ [(off, [])])"
    using m(2) unfolding z D(2) append_assoc by (cases "o_filter_policy opt") (auto intro: stored_at_append offsets_ok_longer)
  have "table_image valid port opt ?F ?D"
    unfolding table_image_def Let_def
  proof (intro conjI)
    show "stored_blocks port (o_block_restart_interval opt) ?F ?D" using D(5) by (simp only: y)
    show "separated valid (o_Compare opt) ?D []" using D(4) opt by (simp add: options_ok_def)
    have "offsets_ok (contents (t_file tb0)) ((key_blocks D @ pending_keys P') @ [(word_of_nat (length (contents (t_file tb0))), [])])"
      using P'(1) by (simp add: building_def Let_def)
    then show "offsets_ok ?F (key_blocks ?D)" unfolding y D(2) by (intro offsets_ok_longer) (rule offsets_ok_prefix)
    show "\<forall>e \<in> set (entries_of ?D). valid (fst e)" using P'(1) by (simp add: D(1) building_def Let_def)
    show "sorted_wrt (\<lambda>a b. o_Compare opt (fst a) (fst b) < 0) (entries_of ?D)" using P'(1) by (simp add: D(1) building_def Let_def)
  qed (use ixs meta F(1) in blast)
  moreover have "t_offset tb' = word_of_nat (length ?F)" using F(1) ix(2) by (simp add: tb'(1))
  ultimately show ?thesis using D(1) P'(2) F(2) by auto
qed

lemma build_table_image:
  assumes "fvalid f" and "contents f = []" and "options_ok opt" and "snappy_ok port" and "ordered es"
    and "build_table a app flush port opt f es = (s, tb)" and "ok s"
  shows "\<exists>D. table_image valid port opt (contents (t_file tb)) D \<and> entries_of D = es \<and> fvalid (t_file tb) \<and>
    FileSize tb = word_of_nat (length (contents (t_file tb)))"
proof -
  let ?tb = "foldl (\<lambda>tb e. TableBuilder_Add a app flush port tb (fst e) (snd e)) (new_TableBuilder opt f) es"
  have fin: "TableBuilder_Finish a app flush port ?tb = (s, tb)" using assms(6) by (simp add: build_table_def)
  have "ok (t_status ?tb)"
  proof (rule ccontr)
    assume bad: "\<not> ok (t_status ?tb)"
    then have "Flush a app flush port ?tb = ?tb" by (simp add: Flush_def)
    with bad have "s = t_status ?tb"
      using fin by (auto simp: TableBuilder_Finish_def Let_def finish_filter_def finish_metaindex_def finish_index_def finish_footer_def
        split: option.splits)
    with bad assms(7) show False by simp
  qed
  moreover have "ordered (entries_of [] @ rest_of None [] @ es)" using assms(5) by (simp add: rest_of_def)
  ultimately obtain D P cur where b: "builds port opt ?tb D P cur" "entries_of D @ rest_of P cur = entries_of [] @ rest_of None [] @ es"
    using Add_all_building [OF new_building [OF assms(1,2)] assms(3,4)] by blast
  from Finish_image [OF b(1) assms(3,4) fin assms(7)] b(2) show ?thesis by (auto simp: rest_of_def FileSize_def)
qed

end

text \<open>On a file whose calls never fail the table is always finished.\<close>

context reliable_file
begin

lemma append_good: "reliable f \<Longrightarrow> ok (fst (append f d)) \<and> reliable (snd (append f d))"
  using append_reliable [of f d] by (metis prod.collapse)

lemma flush_good: "reliable f \<Longrightarrow> ok (fst (flush f)) \<and> reliable (snd (flush f))"
  using flush_reliable [of f] by (metis prod.collapse)

definition good :: "'a TableBuilder \<Rightarrow> bool" where
  "good tb \<longleftrightarrow> ok (t_status tb) \<and> reliable (t_file tb)"

lemma WriteRawBlock_good: "good tb \<Longrightarrow> good (snd (WriteRawBlock a append c t tb))"
  using append_good by (simp add: good_def WriteRawBlock_def Let_def split_beta)

lemma WriteBlock_good: "good tb \<Longrightarrow> good (snd (snd (WriteBlock a append port b tb)))"
  using WriteRawBlock_good by (simp add: WriteBlock_def Let_def split_beta)

lemma Flush_good: "good tb \<Longrightarrow> good (Flush a append flush port tb)"
proof (cases "BlockBuilder_empty (data_block tb)")
  case False
  assume g: "good tb"
  obtain h b tb1 where w: "WriteBlock a append port (data_block tb) tb = (h, b, tb1)" by (metis prod_cases3)
  with WriteBlock_good [OF g, of a port "data_block tb"] have "good tb1" by simp
  with g w False flush_good show ?thesis by (simp add: Flush_def good_def Let_def split_beta)
qed (simp add: Flush_def)

lemma Add_good: "good tb \<Longrightarrow> good (TableBuilder_Add a append flush port tb key val)"
  by (auto simp: TableBuilder_Add_def Let_def intro!: Flush_good) (simp_all add: good_def add_index_entry_def)

lemma Finish_good: "good tb \<Longrightarrow> ok (fst (TableBuilder_Finish a append flush port tb))"
proof -
  assume g: "good tb"
  define tb0 where "tb0 = (Flush a append flush port tb)\<lparr>closed := True\<rparr>"
  have 0: "good tb0" using Flush_good [OF g] by (simp add: tb0_def good_def)
  have 1: "good (snd (finish_filter a append tb0))"
    using 0 WriteRawBlock_good by (simp add: finish_filter_def good_def split_beta split: option.split)
  obtain fh tb1 where 1: "finish_filter a append tb0 = (fh, tb1)" "good tb1" using 1 by (metis prod.collapse)
  obtain mh tb2 where 2: "finish_metaindex a append port fh tb1 = (mh, tb2)" "good tb2"
    using 1(2) WriteBlock_good [OF 1(2), of a port]
    by (intro that [of "fst (finish_metaindex a append port fh tb1)" "snd (finish_metaindex a append port fh tb1)"])
      (auto simp: finish_metaindex_def good_def Let_def split_beta)
  obtain ih tb3 where 3: "finish_index a append port tb2 = (ih, tb3)" "good tb3"
  proof -
    let ?tb = "if pending_index_entry tb2 then add_index_entry (o_FindShortSuccessor (t_options tb2) (t_last_key tb2)) tb2 else tb2"
    have "good ?tb" using 2(2) by (simp add: good_def add_index_entry_def)
    from WriteBlock_good [OF this, of a port "index_block ?tb"] 2(2) show thesis
      by (intro that [of "fst (finish_index a append port tb2)" "snd (finish_index a append port tb2)"])
        (auto simp: finish_index_def good_def Let_def split_beta)
  qed
  have "ok (t_status (finish_footer append x tb3))" for x
    using 3(2) append_good by (simp add: finish_footer_def good_def Let_def split_beta)
  then show ?thesis by (simp add: TableBuilder_Finish_def Let_def 1 2 3 flip: tb0_def)
qed

lemma build_table_good: "reliable f \<Longrightarrow> ok (fst (build_table a append flush port opt f es))"
proof -
  assume f: "reliable f"
  have "good (foldl (\<lambda>tb e. TableBuilder_Add a append flush port tb (fst e) (snd e)) (new_TableBuilder opt f) es)"
    by (induction es rule: rev_induct) (simp_all add: Add_good, simp add: good_def new_TableBuilder_def f)
  then show ?thesis by (simp add: build_table_def Finish_good)
qed

end

interpretation posix_table: table_writer PosixWritableFile_Append PosixWritableFile_Flush wcontents wstored widle wvalid
  internal_valid "InternalKeyComparator_Compare Compare" "InternalKeyComparator_FindShortestSeparator Compare FindShortestSeparator"
  "InternalKeyComparator_FindShortSuccessor Compare FindShortSuccessor"
  by unfold_locales

end
