(* ===== verification/Ldb_Two_Level.thy ===== *)
theory Ldb_Two_Level
  imports Ldb_Iterator Ldb_Dbformat
begin

text \<open>
  \<open>leveldb/table/two_level_iterator.cc\<close>: an iterator over the blocks that an index iterator names. Blocks are opened
  by a function of the client, one at a time. Shown here: if the index and the blocks are iterators over lists and
  the index keys separate the blocks, the two-level iterator is one over the concatenation of the blocks.
\<close>

section \<open>\<open>TwoLevelIterator\<close>\<close>

text \<open>
  \<open>arg_\<close> is the state that the block function works on, the table with its file and cache; it is part of the
  iterator. A \<open>data_iter_\<close> without iterator is \<open>None\<close>.
\<close>

record ('i, 'd, 'e) TwoLevelIterator =
  tl_arg :: 'e
  tl_status :: status
  index_iter :: "'i IteratorWrapper"
  data_iter :: "'d IteratorWrapper option"
  data_block_handle :: "byte list"

type_synonym ('d, 'e) block_function = "slice \<Rightarrow> 'e \<Rightarrow> 'd \<times> 'e"

definition NewTwoLevelIterator :: "'i iterator \<Rightarrow> 'i \<Rightarrow> 'e \<Rightarrow> ('i, 'd, 'e) TwoLevelIterator" where
  "NewTwoLevelIterator iops index arg =
     \<lparr>tl_arg = arg, tl_status = OK, index_iter = wrapper_Set iops index, data_iter = None, data_block_handle = []\<rparr>"

definition two_Valid :: "('i, 'd, 'e) TwoLevelIterator \<Rightarrow> bool" where
  "two_Valid t \<longleftrightarrow> (case data_iter t of None \<Rightarrow> False | Some w \<Rightarrow> w_valid w)"

text \<open>\<open>key\<close> and \<open>value\<close> are called only on a valid iterator.\<close>

definition two_key :: "('i, 'd, 'e) TwoLevelIterator \<Rightarrow> slice" where
  "two_key t = w_key (the (data_iter t))"

definition two_value :: "'d iterator \<Rightarrow> ('i, 'd, 'e) TwoLevelIterator \<Rightarrow> slice" where
  "two_value dops t = op_value dops (w_iter (the (data_iter t)))"

definition two_status :: "'i iterator \<Rightarrow> 'd iterator \<Rightarrow> ('i, 'd, 'e) TwoLevelIterator \<Rightarrow> status" where
  "two_status iops dops t =
     (if \<not> ok (op_status iops (w_iter (index_iter t))) then op_status iops (w_iter (index_iter t))
      else case data_iter t of
             None \<Rightarrow> tl_status t
           | Some w \<Rightarrow> if \<not> ok (op_status dops (w_iter w)) then op_status dops (w_iter w) else tl_status t)"

definition SaveError :: "status \<Rightarrow> ('i, 'd, 'e) TwoLevelIterator \<Rightarrow> ('i, 'd, 'e) TwoLevelIterator" where
  "SaveError s t = (if ok (tl_status t) \<and> \<not> ok s then t\<lparr>tl_status := s\<rparr> else t)"

definition SetDataIterator :: "'d iterator \<Rightarrow> 'd option \<Rightarrow> ('i, 'd, 'e) TwoLevelIterator \<Rightarrow> ('i, 'd, 'e) TwoLevelIterator" where
  "SetDataIterator dops it t =
     (let t = (case data_iter t of None \<Rightarrow> t | Some w \<Rightarrow> SaveError (op_status dops (w_iter w)) t)
      in t\<lparr>data_iter := map_option (wrapper_Set dops) it\<rparr>)"

definition InitDataBlock ::
  "'i iterator \<Rightarrow> 'd iterator \<Rightarrow> ('d, 'e) block_function \<Rightarrow> ('i, 'd, 'e) TwoLevelIterator \<Rightarrow> ('i, 'd, 'e) TwoLevelIterator"
where
  "InitDataBlock iops dops bf t =
     (if \<not> w_valid (index_iter t) then SetDataIterator dops None t
      else
        let handle = op_value iops (w_iter (index_iter t)) in
        if data_iter t \<noteq> None \<and> slice_compare handle (data_block_handle t) = 0 then t
        else
          let (iter, e) = bf handle (tl_arg t)
          in SetDataIterator dops (Some iter) (t\<lparr>tl_arg := e, data_block_handle := handle\<rparr>))"

text \<open>A call on \<open>data_iter_\<close> if it has an iterator, and one on \<open>index_iter_\<close>.\<close>

definition on_data ::
  "('d IteratorWrapper \<Rightarrow> 'd IteratorWrapper option) \<Rightarrow> ('i, 'd, 'e) TwoLevelIterator \<Rightarrow> ('i, 'd, 'e) TwoLevelIterator option"
where
  "on_data f t =
     (case data_iter t of None \<Rightarrow> Some t | Some w \<Rightarrow> map_option (\<lambda>w. t\<lparr>data_iter := Some w\<rparr>) (f w))"

definition on_index ::
  "('i IteratorWrapper \<Rightarrow> 'i IteratorWrapper option) \<Rightarrow> ('i, 'd, 'e) TwoLevelIterator \<Rightarrow> ('i, 'd, 'e) TwoLevelIterator option"
where
  "on_index f t = map_option (\<lambda>w. t\<lparr>index_iter := w\<rparr>) (f (index_iter t))"

partial_function (option) SkipEmptyDataBlocksForward ::
  "'i iterator \<Rightarrow> 'd iterator \<Rightarrow> ('d, 'e) block_function \<Rightarrow> ('i, 'd, 'e) TwoLevelIterator \<Rightarrow> ('i, 'd, 'e) TwoLevelIterator option"
where
  "SkipEmptyDataBlocksForward iops dops bf t =
     (if two_Valid t then Some t
      else if \<not> w_valid (index_iter t) then Some (SetDataIterator dops None t)
      else
        Option.bind (on_index (wrapper_Next iops) t) (\<lambda>t.
        Option.bind (on_data (wrapper_SeekToFirst dops) (InitDataBlock iops dops bf t)) (\<lambda>t.
        SkipEmptyDataBlocksForward iops dops bf t)))"

partial_function (option) SkipEmptyDataBlocksBackward ::
  "'i iterator \<Rightarrow> 'd iterator \<Rightarrow> ('d, 'e) block_function \<Rightarrow> ('i, 'd, 'e) TwoLevelIterator \<Rightarrow> ('i, 'd, 'e) TwoLevelIterator option"
where
  "SkipEmptyDataBlocksBackward iops dops bf t =
     (if two_Valid t then Some t
      else if \<not> w_valid (index_iter t) then Some (SetDataIterator dops None t)
      else
        Option.bind (on_index (wrapper_Prev iops) t) (\<lambda>t.
        Option.bind (on_data (wrapper_SeekToLast dops) (InitDataBlock iops dops bf t)) (\<lambda>t.
        SkipEmptyDataBlocksBackward iops dops bf t)))"

definition two_Seek ::
  "'i iterator \<Rightarrow> 'd iterator \<Rightarrow> ('d, 'e) block_function \<Rightarrow> ('i, 'd, 'e) TwoLevelIterator \<Rightarrow> slice \<Rightarrow> ('i, 'd, 'e) TwoLevelIterator option"
where
  "two_Seek iops dops bf t target =
     Option.bind (on_index (wrapper_Seek iops target) t) (\<lambda>t.
     Option.bind (on_data (wrapper_Seek dops target) (InitDataBlock iops dops bf t)) (\<lambda>t.
     SkipEmptyDataBlocksForward iops dops bf t))"

definition two_SeekToFirst ::
  "'i iterator \<Rightarrow> 'd iterator \<Rightarrow> ('d, 'e) block_function \<Rightarrow> ('i, 'd, 'e) TwoLevelIterator \<Rightarrow> ('i, 'd, 'e) TwoLevelIterator option"
where
  "two_SeekToFirst iops dops bf t =
     Option.bind (on_index (wrapper_SeekToFirst iops) t) (\<lambda>t.
     Option.bind (on_data (wrapper_SeekToFirst dops) (InitDataBlock iops dops bf t)) (\<lambda>t.
     SkipEmptyDataBlocksForward iops dops bf t))"

definition two_SeekToLast ::
  "'i iterator \<Rightarrow> 'd iterator \<Rightarrow> ('d, 'e) block_function \<Rightarrow> ('i, 'd, 'e) TwoLevelIterator \<Rightarrow> ('i, 'd, 'e) TwoLevelIterator option"
where
  "two_SeekToLast iops dops bf t =
     Option.bind (on_index (wrapper_SeekToLast iops) t) (\<lambda>t.
     Option.bind (on_data (wrapper_SeekToLast dops) (InitDataBlock iops dops bf t)) (\<lambda>t.
     SkipEmptyDataBlocksBackward iops dops bf t))"

definition two_Next ::
  "'i iterator \<Rightarrow> 'd iterator \<Rightarrow> ('d, 'e) block_function \<Rightarrow> ('i, 'd, 'e) TwoLevelIterator \<Rightarrow> ('i, 'd, 'e) TwoLevelIterator option"
where
  "two_Next iops dops bf t =
     Option.bind (on_data (wrapper_Next dops) t) (\<lambda>t. SkipEmptyDataBlocksForward iops dops bf t)"

definition two_Prev ::
  "'i iterator \<Rightarrow> 'd iterator \<Rightarrow> ('d, 'e) block_function \<Rightarrow> ('i, 'd, 'e) TwoLevelIterator \<Rightarrow> ('i, 'd, 'e) TwoLevelIterator option"
where
  "two_Prev iops dops bf t =
     Option.bind (on_data (wrapper_Prev dops) t) (\<lambda>t. SkipEmptyDataBlocksBackward iops dops bf t)"

definition two_level_iterator ::
  "'i iterator \<Rightarrow> 'd iterator \<Rightarrow> ('d, 'e) block_function \<Rightarrow> ('i, 'd, 'e) TwoLevelIterator iterator"
where
  "two_level_iterator iops dops bf =
     \<lparr>op_Valid = two_Valid, op_SeekToFirst = two_SeekToFirst iops dops bf, op_SeekToLast = two_SeekToLast iops dops bf,
      op_Seek = two_Seek iops dops bf, op_Next = two_Next iops dops bf, op_Prev = two_Prev iops dops bf,
      op_key = two_key, op_value = two_value dops, op_status = two_status iops dops\<rparr>"

section \<open>Positions in the concatenation\<close>

definition all_entries :: "('h \<Rightarrow> 'a list) \<Rightarrow> ('k \<times> 'h) list \<Rightarrow> 'a list" where
  "all_entries contents ix = concat (map (\<lambda>x. contents (snd x)) ix)"

definition before_block :: "('h \<Rightarrow> 'a list) \<Rightarrow> ('k \<times> 'h) list \<Rightarrow> nat \<Rightarrow> nat" where
  "before_block contents ix j = length (all_entries contents (take j ix))"

lemma in_all_entries: "e \<in> set (all_entries contents ix) \<longleftrightarrow> (\<exists>y \<in> set ix. e \<in> set (contents (snd y)))"
  by (simp add: all_entries_def)

lemma before_block_0 [simp]: "before_block contents ix 0 = 0"
  by (simp add: before_block_def all_entries_def)

lemma before_block_all: "length ix \<le> j \<Longrightarrow> before_block contents ix j = length (all_entries contents ix)"
  by (simp add: before_block_def)

lemma before_block_Suc:
  "j < length ix \<Longrightarrow> before_block contents ix (Suc j) = before_block contents ix j + length (contents (snd (ix ! j)))"
  by (simp add: before_block_def all_entries_def take_Suc_conv_app_nth)

lemma all_entries_split:
  "j < length ix \<Longrightarrow> all_entries contents ix =
     all_entries contents (take j ix) @ contents (snd (ix ! j)) @ all_entries contents (drop (Suc j) ix)"
  unfolding all_entries_def by (subst id_take_nth_drop [of j ix]) simp_all

lemma before_block_bound:
  "j < length ix \<Longrightarrow> before_block contents ix j + length (contents (snd (ix ! j))) \<le> length (all_entries contents ix)"
  using all_entries_split [of j ix contents] by (simp add: before_block_def)

lemma all_entries_nth:
  "j < length ix \<Longrightarrow> l < length (contents (snd (ix ! j))) \<Longrightarrow>
     all_entries contents ix ! (before_block contents ix j + l) = contents (snd (ix ! j)) ! l"
  using all_entries_split [of j ix contents] by (simp add: before_block_def nth_append)

text \<open>Where a search ends in the concatenation, if block \<open>j\<close> is the first whose index key is not before the target.\<close>

lemma length_takeWhile_append:
  "list_all P xs \<Longrightarrow> length (takeWhile P (xs @ ys)) = length xs + length (takeWhile P ys)"
  by (simp add: list_all_iff)

lemma takeWhile_first_fails: "(\<forall>y \<in> set ys. \<not> P y) \<Longrightarrow> takeWhile P (xs @ ys) = takeWhile P xs"
  by (induction xs) (auto simp: takeWhile_eq_Nil_iff)

lemma search_all_entries:
  assumes "list_all P (all_entries contents (take j ix))" and "\<forall>e \<in> set (all_entries contents (drop (Suc j) ix)). \<not> P e"
    and "j < length ix"
  shows "length (takeWhile P (all_entries contents ix)) = before_block contents ix j + length (takeWhile P (contents (snd (ix ! j))))"
  unfolding all_entries_split [OF assms(3), of contents] before_block_def
  by (simp only: length_takeWhile_append [OF assms(1)] takeWhile_first_fails [OF assms(2)])

section \<open>The two-level iterator is an iterator over all blocks\<close>

text \<open>
  \<open>describes e ix c\<close>: in the state \<open>e\<close> the index has the entries \<open>ix\<close> and the block of handle \<open>h\<close> has the entries \<open>c h\<close>.
  \<open>iw\<close> and \<open>dw\<close> are the positions of the two wrapped iterators. \<open>two_ready\<close>: the index stands at entry \<open>j\<close>, and a data iterator
  belongs to the handle kept beside it. \<open>in_block\<close>: it is that of entry \<open>j\<close>, at its entry \<open>l\<close>.
\<close>

type_synonym 'e description = "'e \<Rightarrow> (slice \<times> slice) list \<Rightarrow> (slice \<Rightarrow> (slice \<times> slice) list) \<Rightarrow> bool"
type_synonym 'it position = "(slice \<times> slice) list \<Rightarrow> nat \<Rightarrow> 'it \<Rightarrow> bool"

definition two_ready ::
  "'e description \<Rightarrow> 'i IteratorWrapper position \<Rightarrow> 'd IteratorWrapper position \<Rightarrow>
   (slice \<times> slice) list \<Rightarrow> (slice \<Rightarrow> (slice \<times> slice) list) \<Rightarrow> nat \<Rightarrow> ('i, 'd, 'e) TwoLevelIterator \<Rightarrow> bool"
where
  "two_ready describes iw dw ix c j t \<longleftrightarrow> describes (tl_arg t) ix c \<and> tl_status t = OK \<and> iw ix j (index_iter t) \<and>
     (\<forall>w. data_iter t = Some w \<longrightarrow> (\<exists>l. dw (c (data_block_handle t)) l w))"

definition in_block ::
  "'e description \<Rightarrow> 'i IteratorWrapper position \<Rightarrow> 'd IteratorWrapper position \<Rightarrow>
   (slice \<times> slice) list \<Rightarrow> (slice \<Rightarrow> (slice \<times> slice) list) \<Rightarrow> nat \<Rightarrow> nat \<Rightarrow> ('i, 'd, 'e) TwoLevelIterator \<Rightarrow> bool"
where
  "in_block describes iw dw ix c j l t \<longleftrightarrow> two_ready describes iw dw ix c j t \<and>
     (if j < length ix
      then data_block_handle t = snd (ix ! j) \<and> (\<exists>w. data_iter t = Some w \<and> dw (c (snd (ix ! j))) l w)
      else data_iter t = None \<and> l = 0)"

definition two_pos ::
  "'e description \<Rightarrow> 'i IteratorWrapper position \<Rightarrow> 'd IteratorWrapper position \<Rightarrow> ('i, 'd, 'e) TwoLevelIterator position"
where
  "two_pos describes iw dw es i t \<longleftrightarrow> (\<exists>ix c j. es = all_entries c ix \<and>
     ((\<exists>l. in_block describes iw dw ix c j l t \<and> j < length ix \<and> l < length (c (snd (ix ! j))) \<and> i = before_block c ix j + l) \<or>
      (two_ready describes iw dw ix c j t \<and> data_iter t = None \<and> i = length es)))"

locale two_level_sources = index: iterator_over iops ipos before proper + data: iterator_over dops dpos before proper
  for iops :: "'i iterator" and ipos and before proper and dops :: "'d iterator" and dpos +
  fixes bf :: "('d, 'e) block_function" and describes :: "'e description"
  assumes opens: "describes e ix c \<Longrightarrow> x \<in> set ix \<Longrightarrow> bf (snd x) e = (d, e') \<Longrightarrow>
      describes e' ix c \<and> (\<exists>l. dpos (c (snd x)) l d)"
    and below: "describes e ix c \<Longrightarrow> j < length ix \<Longrightarrow> x \<in> set (c (snd (ix ! j))) \<Longrightarrow> proper t \<Longrightarrow>
      before (fst (ix ! j)) t \<Longrightarrow> before (fst x) t"
    and above: "describes e ix c \<Longrightarrow> j < k \<Longrightarrow> k < length ix \<Longrightarrow> x \<in> set (c (snd (ix ! k))) \<Longrightarrow> proper t \<Longrightarrow>
      \<not> before (fst (ix ! j)) t \<Longrightarrow> \<not> before (fst x) t"
begin

abbreviation iw :: "'i IteratorWrapper position" where
  "iw \<equiv> wrapper_pos iops ipos"

abbreviation dw :: "'d IteratorWrapper position" where
  "dw \<equiv> wrapper_pos dops dpos"

abbreviation ready where "ready \<equiv> two_ready describes iw dw"
abbreviation inside where "inside \<equiv> in_block describes iw dw"
abbreviation skip_forward where "skip_forward \<equiv> SkipEmptyDataBlocksForward iops dops bf"
abbreviation skip_backward where "skip_backward \<equiv> SkipEmptyDataBlocksBackward iops dops bf"

lemma ready_data_status: "ready ix c j t \<Longrightarrow> data_iter t = Some w \<Longrightarrow> op_status dops (w_iter w) = OK"
  using data.wpos_status by (auto simp: two_ready_def)

lemma SetDataIterator_ready: "ready ix c j t \<Longrightarrow> SetDataIterator dops it t = t\<lparr>data_iter := map_option (wrapper_Set dops) it\<rparr>"
  using ready_data_status by (auto simp: SetDataIterator_def SaveError_def split: option.split)

lemma ready_without: "ready ix c j t \<Longrightarrow> ready ix c j (t\<lparr>data_iter := None\<rparr>)"
  by (simp add: two_ready_def)

lemma Init_inside: "ready ix c j t \<Longrightarrow> \<exists>l. inside ix c j l (InitDataBlock iops dops bf t)"
proof -
  assume r: "ready ix c j t"
  then have i: "iw ix j (index_iter t)" by (simp add: two_ready_def)
  show ?thesis
  proof (cases "j < length ix")
    case False
    with r index.wpos_valid [OF i] show ?thesis
      by (auto simp: InitDataBlock_def SetDataIterator_ready in_block_def intro: ready_without)
  next
    case True
    with index.wpos_entry [OF i] index.wpos_valid [OF i]
    have h: "w_valid (index_iter t)" "op_value iops (w_iter (index_iter t)) = snd (ix ! j)" by simp_all
    obtain d e where bf: "bf (snd (ix ! j)) (tl_arg t) = (d, e)" by fastforce
    have "describes (tl_arg t) ix c" using r by (simp add: two_ready_def)
    from opens [OF this nth_mem [OF True] bf] obtain l where o: "describes e ix c" "dpos (c (snd (ix ! j))) l d" by blast
    have r': "ready ix c j (t\<lparr>tl_arg := e, data_iter := None, data_block_handle := snd (ix ! j)\<rparr>)"
      using r o by (simp add: two_ready_def)
    show ?thesis
    proof (cases "data_iter t \<noteq> None \<and> snd (ix ! j) = data_block_handle t")
      case False
      have "SetDataIterator dops (Some d) (t\<lparr>tl_arg := e, data_block_handle := snd (ix ! j)\<rparr>) =
          t\<lparr>tl_arg := e, data_block_handle := snd (ix ! j), data_iter := Some (wrapper_Set dops d)\<rparr>"
        using r ready_data_status [OF r] by (auto simp: SetDataIterator_def SaveError_def two_ready_def split: option.split)
      with False True h bf r r' data.wpos_Set [OF o(2)] show ?thesis
        by (auto simp: InitDataBlock_def slice_compare_eq in_block_def two_ready_def)
    qed (use r True h in \<open>auto simp: InitDataBlock_def slice_compare_eq in_block_def two_ready_def\<close>)
  qed
qed

lemma on_index_ready:
  "ready ix c j t \<Longrightarrow> \<exists>w. f (index_iter t) = Some w \<and> iw ix k w \<Longrightarrow> \<exists>t'. on_index f t = Some t' \<and> ready ix c k t'"
  by (auto simp: on_index_def two_ready_def)

lemma on_data_inside:
  assumes "inside ix c j l t" and "j < length ix"
    and "\<And>w. dw (c (snd (ix ! j))) l w \<Longrightarrow> \<exists>w'. f w = Some w' \<and> dw (c (snd (ix ! j))) m w'"
  shows "\<exists>t'. on_data f t = Some t' \<and> inside ix c j m t'"
proof -
  from assms(1,2) obtain w where w: "data_iter t = Some w" "dw (c (snd (ix ! j))) l w" by (auto simp: in_block_def)
  from assms(3) [OF w(2)] obtain w' where "f w = Some w'" "dw (c (snd (ix ! j))) m w'" by blast
  with w assms(1,2) show ?thesis by (auto simp: on_data_def in_block_def two_ready_def)
qed

lemma on_data_outside: "inside ix c j l t \<Longrightarrow> \<not> j < length ix \<Longrightarrow> on_data f t = Some t \<and> l = 0"
  by (simp add: in_block_def on_data_def)

text \<open>Opening the block of entry \<open>j\<close> and moving in it.\<close>

lemma load_block:
  assumes r: "ready ix c j t" and f: "\<And>l w. dw (c (snd (ix ! j))) l w \<Longrightarrow> \<exists>w'. f w = Some w' \<and> dw (c (snd (ix ! j))) m w'"
  shows "\<exists>t'. on_data f (InitDataBlock iops dops bf t) = Some t' \<and> inside ix c j (if j < length ix then m else 0) t'"
proof -
  from Init_inside [OF r] obtain l where l: "inside ix c j l (InitDataBlock iops dops bf t)" ..
  show ?thesis
    using on_data_inside [OF l _ f] on_data_outside [OF l] l by (cases "j < length ix") auto
qed

lemma inside_valid: "inside ix c j l t \<Longrightarrow> two_Valid t \<longleftrightarrow> j < length ix \<and> l < length (c (snd (ix ! j)))"
  using data.wpos_valid by (auto simp: in_block_def two_Valid_def split: if_splits)

lemma inside_bound: "inside ix c j l t \<Longrightarrow> j \<le> length ix \<and> (j < length ix \<longrightarrow> l \<le> length (c (snd (ix ! j))))"
  using index.wpos_bound data.wpos_bound by (auto simp: in_block_def two_ready_def)

lemma inside_pos:
  "inside ix c j l t \<Longrightarrow> two_Valid t \<Longrightarrow> two_pos describes iw dw (all_entries c ix) (before_block c ix j + l) t"
  using inside_valid [of ix c j l t] unfolding two_pos_def by blast

lemma end_pos: "ready ix c j t \<Longrightarrow> data_iter t = None \<Longrightarrow> two_pos describes iw dw (all_entries c ix) (length (all_entries c ix)) t"
  unfolding two_pos_def by blast

lemma exhausted_pos:
  "ready ix c j t \<Longrightarrow>
     two_pos describes iw dw (all_entries c ix) (length (all_entries c ix)) (SetDataIterator dops None t)"
  by (simp add: SetDataIterator_ready end_pos [OF ready_without])

lemma inside_index: "inside ix c j l t \<Longrightarrow> ready ix c j t \<and> iw ix j (index_iter t)"
  by (simp add: in_block_def two_ready_def)

lemma skips_forward:
  "inside ix c j l t \<Longrightarrow>
     \<exists>t'. skip_forward t = Some t' \<and> two_pos describes iw dw (all_entries c ix) (before_block c ix j + l) t'"
proof (induction "length ix - j" arbitrary: j l t rule: less_induct)
  case less
  note i = inside_index [OF less.prems] and b = inside_bound [OF less.prems]
  note v = index.wpos_valid [OF conjunct2 [OF i]]
  show ?case
  proof (cases "two_Valid t")
    case True
    with inside_pos [OF less.prems] show ?thesis by (simp add: SkipEmptyDataBlocksForward.simps [of _ _ _ t])
  next
    case invalid: False
    show ?thesis
    proof (cases "j < length ix")
      case False
      with b less.prems have "before_block c ix j + l = length (all_entries c ix)"
        by (simp add: in_block_def before_block_all)
      with invalid False v exhausted_pos [OF conjunct1 [OF i]] show ?thesis
        by (simp add: SkipEmptyDataBlocksForward.simps [of _ _ _ t])
    next
      case True
      with inside_valid [OF less.prems] invalid b have l: "l = length (c (snd (ix ! j)))" by simp
      from on_index_ready [where f = "wrapper_Next iops", OF conjunct1 [OF i] index.wpos_Next [OF conjunct2 [OF i] True]]
      obtain t1 where t1: "on_index (wrapper_Next iops) t = Some t1" "ready ix c (Suc j) t1" by blast
      from load_block [where f = "wrapper_SeekToFirst dops", OF t1(2) data.wpos_SeekToFirst] obtain t2
        where t2: "on_data (wrapper_SeekToFirst dops) (InitDataBlock iops dops bf t1) = Some t2" "inside ix c (Suc j) 0 t2"
        by fastforce
      have "length ix - Suc j < length ix - j" using True by simp
      from less.hyps [OF this t2(2)] True l obtain t3 where
        "skip_forward t2 = Some t3" "two_pos describes iw dw (all_entries c ix) (before_block c ix j + l) t3"
        by (auto simp: before_block_Suc)
      with invalid True v t1 t2 show ?thesis
        by (auto simp: SkipEmptyDataBlocksForward.simps [of _ _ _ t])
    qed
  qed
qed

lemma skips_backward:
  assumes "inside ix c j l t" and "j < length ix" and "l = length (c (snd (ix ! j)))"
  shows "\<exists>t'. skip_backward t = Some t' \<and> two_pos describes iw dw (all_entries c ix)
     (if before_block c ix j = 0 then length (all_entries c ix) else before_block c ix j - 1) t'"
  using assms
proof (induction j arbitrary: l t)
  case 0
  note i = inside_index [OF "0.prems"(1)]
  note v = index.wpos_valid [OF conjunct2 [OF i]]
  have invalid: "\<not> two_Valid t" using inside_valid [OF "0.prems"(1)] "0.prems" by simp
  from on_index_ready [where f = "wrapper_Prev iops", OF conjunct1 [OF i] index.wpos_Prev [OF conjunct2 [OF i] "0.prems"(2)]]
  obtain t1 where t1: "on_index (wrapper_Prev iops) t = Some t1" "ready ix c (length ix) t1" by fastforce
  from load_block [where f = "wrapper_SeekToLast dops", OF t1(2) data.wpos_SeekToLast] obtain t2
    where t2: "on_data (wrapper_SeekToLast dops) (InitDataBlock iops dops bf t1) = Some t2" "inside ix c (length ix) 0 t2"
    by fastforce
  have "skip_backward t2 = Some (SetDataIterator dops None t2)"
    using inside_valid [OF t2(2)] index.wpos_valid [OF conjunct2 [OF inside_index [OF t2(2)]]] by (simp add: SkipEmptyDataBlocksBackward.simps [of _ _ _ t2])
  with invalid v "0.prems"(2) t1 t2 exhausted_pos [OF conjunct1 [OF inside_index [OF t2(2)]]] show ?case
    by (simp add: SkipEmptyDataBlocksBackward.simps [of _ _ _ t])
next
  case (Suc j)
  note i = inside_index [OF Suc.prems(1)]
  note v = index.wpos_valid [OF conjunct2 [OF i]]
  have invalid: "\<not> two_Valid t" using inside_valid [OF Suc.prems(1)] Suc.prems by simp
  from on_index_ready [where f = "wrapper_Prev iops", OF conjunct1 [OF i] index.wpos_Prev [OF conjunct2 [OF i] Suc.prems(2)]]
  obtain t1 where t1: "on_index (wrapper_Prev iops) t = Some t1" "ready ix c j t1" by fastforce
  let ?n = "length (c (snd (ix ! j)))"
  from load_block [where f = "wrapper_SeekToLast dops", OF t1(2) data.wpos_SeekToLast] Suc.prems(2) obtain t2
    where t2: "on_data (wrapper_SeekToLast dops) (InitDataBlock iops dops bf t1) = Some t2" "inside ix c j (?n - 1) t2"
    by fastforce
  have off: "before_block c ix (Suc j) = before_block c ix j + ?n" using Suc.prems(2) by (simp add: before_block_Suc)
  have "\<exists>t3. skip_backward t2 = Some t3 \<and> two_pos describes iw dw (all_entries c ix)
     (if before_block c ix (Suc j) = 0 then length (all_entries c ix) else before_block c ix (Suc j) - 1) t3"
  proof (cases "?n = 0")
    case True
    with Suc.IH [OF t2(2)] Suc.prems(2) off show ?thesis by (auto split: if_splits)
  next
    case False
    with inside_valid [OF t2(2)] Suc.prems(2) have v: "two_Valid t2" by simp
    from inside_pos [OF t2(2) v] False off v show ?thesis by (simp add: SkipEmptyDataBlocksBackward.simps [of _ _ _ t2])
  qed
  with invalid v Suc.prems(2) t1 t2 show ?case
    by (auto simp: SkipEmptyDataBlocksBackward.simps [of _ _ _ t])
qed

lemma two_pos_cases:
  assumes "two_pos describes iw dw es i t"
  obtains (inner) ix c j l where "es = all_entries c ix" "inside ix c j l t" "ready ix c j t" "j < length ix" "l < length (c (snd (ix ! j)))"
      "i = before_block c ix j + l" "i < length es" "two_Valid t"
    | (outer) ix c j where "es = all_entries c ix" "ready ix c j t" "data_iter t = None" "i = length es" "\<not> two_Valid t"
proof -
  from assms obtain ix c j where es: "es = all_entries c ix" and
    *: "(\<exists>l. inside ix c j l t \<and> j < length ix \<and> l < length (c (snd (ix ! j))) \<and> i = before_block c ix j + l) \<or>
      (ready ix c j t \<and> data_iter t = None \<and> i = length es)"
    unfolding two_pos_def by blast
  from * show thesis
  proof (elim disjE exE conjE)
    fix l assume "inside ix c j l t" "j < length ix" "l < length (c (snd (ix ! j)))" "i = before_block c ix j + l"
    with es before_block_bound [of j ix c] inside_valid [of ix c j l t] inside_index [of ix c j l t] show thesis
      by (intro inner [of c ix j l]) simp_all
  qed (use es in \<open>auto intro: outer simp: two_Valid_def\<close>)
qed

lemma two_pos_ready: "two_pos describes iw dw es i t \<Longrightarrow> \<exists>ix c j. es = all_entries c ix \<and> ready ix c j t"
  by (erule two_pos_cases) blast+

text \<open>The operations that reposition the index.\<close>

lemma reposition:
  assumes r: "ready ix c j t" and f: "\<exists>w. f (index_iter t) = Some w \<and> iw ix k w"
    and g: "\<And>l w. dw (c (snd (ix ! k))) l w \<Longrightarrow> \<exists>w'. g w = Some w' \<and> dw (c (snd (ix ! k))) m w'"
    and s: "\<And>t. inside ix c k (if k < length ix then m else 0) t \<Longrightarrow> \<exists>t'. s t = Some t' \<and> two_pos describes iw dw es i t'"
  shows "\<exists>t'. Option.bind (on_index f t) (\<lambda>t. Option.bind (on_data g (InitDataBlock iops dops bf t)) s) = Some t' \<and>
    two_pos describes iw dw es i t'"
proof -
  from on_index_ready [where f = f, OF r f] obtain t1 where t1: "on_index f t = Some t1" "ready ix c k t1" by blast
  have "\<exists>t2. on_data g (InitDataBlock iops dops bf t1) = Some t2 \<and> inside ix c k (if k < length ix then m else 0) t2"
    by (rule load_block [OF t1(2)]) (rule g)
  then obtain t2
    where "on_data g (InitDataBlock iops dops bf t1) = Some t2" "inside ix c k (if k < length ix then m else 0) t2" by blast
  with t1 s [of t2] show ?thesis by simp
qed

lemma ready_index: "ready ix c j t \<Longrightarrow> iw ix j (index_iter t)"
  by (simp add: two_ready_def)

lemma two_SeekToFirst_pos:
  assumes "two_pos describes iw dw es i t"
  shows "\<exists>t'. two_SeekToFirst iops dops bf t = Some t' \<and> two_pos describes iw dw es 0 t'"
proof -
  from two_pos_ready [OF assms] obtain ix c j where es: "es = all_entries c ix" and r: "ready ix c j t" by blast
  show ?thesis unfolding two_SeekToFirst_def
  proof (rule reposition [where f = "wrapper_SeekToFirst iops" and g = "wrapper_SeekToFirst dops", OF r index.wpos_SeekToFirst [OF ready_index [OF r]] data.wpos_SeekToFirst])
    fix t assume "inside ix c 0 (if 0 < length ix then 0 else 0) t"
    then show "\<exists>t'. skip_forward t = Some t' \<and> two_pos describes iw dw es 0 t'"
      using skips_forward [of ix c 0 0 t] es by simp
  qed
qed

lemma two_SeekToLast_pos:
  assumes "two_pos describes iw dw es i t"
  shows "\<exists>t'. two_SeekToLast iops dops bf t = Some t' \<and> two_pos describes iw dw es (length es - 1) t'"
proof -
  from two_pos_ready [OF assms] obtain ix c j where es: "es = all_entries c ix" and r: "ready ix c j t" by blast
  let ?k = "length ix - 1"
  let ?n = "length (c (snd (ix ! ?k)))"
  show ?thesis unfolding two_SeekToLast_def
  proof (rule reposition [where f = "wrapper_SeekToLast iops" and g = "wrapper_SeekToLast dops", OF r index.wpos_SeekToLast [OF ready_index [OF r]] data.wpos_SeekToLast])
    fix t assume t: "inside ix c ?k (if ?k < length ix then ?n - 1 else 0) t"
    show "\<exists>t'. skip_backward t = Some t' \<and> two_pos describes iw dw es (length es - 1) t'"
    proof (cases "ix = []")
      case True
      with t have "ready ix c 0 t" "data_iter t = None" by (simp_all add: in_block_def)
      moreover have "\<not> w_valid (index_iter t)" using index.wpos_valid [OF ready_index [OF calculation(1)]] True by simp
      moreover have "\<not> two_Valid t" using calculation(2) by (simp add: two_Valid_def)
      ultimately show ?thesis
        using exhausted_pos [of ix c 0 t] es True by (simp add: SkipEmptyDataBlocksBackward.simps [of _ _ _ t] all_entries_def)
    next
      case False
      then have k: "?k < length ix" by simp
      with t have t: "inside ix c ?k (?n - 1) t" by simp
      have len: "length es = before_block c ix ?k + ?n"
        using before_block_Suc [OF k, of c] before_block_all [of ix "length ix" c] False es by simp
      show ?thesis
      proof (cases "?n = 0")
        case True
        with skips_backward [OF t k] len es show ?thesis by (simp split: if_splits)
      next
        case False
        with inside_valid [OF t] k have v: "two_Valid t" by simp
        have "length es - 1 = before_block c ix ?k + (?n - 1)" using len False by arith
        with inside_pos [OF t v] es v show ?thesis by (simp add: SkipEmptyDataBlocksBackward.simps [of _ _ _ t])
      qed
    qed
  qed
qed

lemma two_Seek_pos:
  assumes "two_pos describes iw dw es i t" and p: "proper x"
  shows "\<exists>t'. two_Seek iops dops bf t x = Some t' \<and>
    two_pos describes iw dw es (length (takeWhile (\<lambda>e. before (fst e) x) es)) t'"
proof -
  from two_pos_ready [OF assms(1)] obtain ix c j where es: "es = all_entries c ix" and r: "ready ix c j t" by blast
  then have d: "describes (tl_arg t) ix c" by (simp add: two_ready_def)
  let ?P = "\<lambda>e. before (fst e) x"
  let ?k = "length (takeWhile ?P ix)"
  have pre: "list_all ?P (all_entries c (take ?k ix))"
  proof -
    have "?P e" if m: "m < ?k" and e: "e \<in> set (c (snd (ix ! m)))" for m e
    proof -
      have "takeWhile ?P ix ! m = ix ! m" using m by (rule takeWhile_nth)
      with set_takeWhileD [OF nth_mem [OF m]] have "?P (ix ! m)" by simp
      from below [OF d _ e p this] m length_takeWhile_le [of ?P ix] show ?thesis by simp
    qed
    note here = this
    have "?P e" if y: "y \<in> set (take ?k ix)" and e: "e \<in> set (c (snd y))" for y e
    proof -
      from y obtain m where "m < ?k" "y = ix ! m" by (auto simp: in_set_conv_nth)
      with here [of m e] e show ?thesis by simp
    qed
    note block = this
    show ?thesis unfolding list_all_iff
    proof
      fix e assume "e \<in> set (all_entries c (take ?k ix))"
      then obtain y where "y \<in> set (take ?k ix)" "e \<in> set (c (snd y))" by (auto simp: in_all_entries)
      then show "?P e" by (rule block)
    qed
  qed
  have post: "\<forall>e \<in> set (all_entries c (drop (Suc ?k) ix)). \<not> ?P e" if k: "?k < length ix"
  proof
    fix e assume "e \<in> set (all_entries c (drop (Suc ?k) ix))"
    then obtain y where y: "y \<in> set (drop (Suc ?k) ix)" "e \<in> set (c (snd y))" by (auto simp: in_all_entries)
    then obtain m where m: "m < length (drop (Suc ?k) ix)" "e \<in> set (c (snd (drop (Suc ?k) ix ! m)))"
      unfolding in_set_conv_nth [of y] by blast
    have "\<not> ?P (ix ! ?k)" using nth_length_takeWhile [of ?P ix] k by simp
    moreover have "?k < Suc ?k + m" "Suc ?k + m < length ix" "e \<in> set (c (snd (ix ! (Suc ?k + m))))" using m by simp_all
    ultimately show "\<not> ?P e" using above [OF d _ _ _ p, of ?k "Suc ?k + m" e] by blast
  qed
  have len: "length (takeWhile ?P es) = before_block c ix ?k + (if ?k < length ix then length (takeWhile ?P (c (snd (ix ! ?k)))) else 0)"
  proof (cases "?k < length ix")
    case True
    with search_all_entries [OF pre post [OF True] True] es show ?thesis by simp
  next
    case False
    then have "take ?k ix = ix" by simp
    with pre have "list_all ?P es" using es by simp
    then have "takeWhile ?P es = es" by (simp only: list_all_iff takeWhile_eq_all_conv)
    then have "length (takeWhile ?P es) = length es" by (rule arg_cong)
    moreover have "before_block c ix ?k = length es" using False es by (simp only: before_block_all not_less)
    ultimately show ?thesis unfolding if_not_P [OF False] by linarith
  qed
  show ?thesis unfolding two_Seek_def len
  proof (rule reposition [where f = "wrapper_Seek iops x" and g = "wrapper_Seek dops x", OF r index.wpos_Seek [OF ready_index [OF r] p] data.wpos_Seek [OF _ p]])
    fix t assume "inside ix c ?k (if ?k < length ix then length (takeWhile ?P (c (snd (ix ! ?k)))) else 0) t"
    from skips_forward [OF this] es
    show "\<exists>t'. skip_forward t = Some t' \<and> two_pos describes iw dw es (before_block c ix ?k +
        (if ?k < length ix then length (takeWhile ?P (c (snd (ix ! ?k)))) else 0)) t'" by simp
  qed assumption
qed

lemma two_Next_pos:
  assumes "two_pos describes iw dw es i t" and "i < length es"
  shows "\<exists>t'. two_Next iops dops bf t = Some t' \<and> two_pos describes iw dw es (Suc i) t'"
  using assms(1)
proof (cases rule: two_pos_cases)
  case (inner ix c j l)
  from on_data_inside [where f = "wrapper_Next dops", OF inner(2,4) data.wpos_Next] inner(5) obtain t1
    where t1: "on_data (wrapper_Next dops) t = Some t1" "inside ix c j (Suc l) t1" by blast
  from skips_forward [OF t1(2)] t1(1) inner show ?thesis by (simp add: two_Next_def)
qed (use assms(2) in simp)

lemma two_Prev_pos:
  assumes "two_pos describes iw dw es i t" and "i < length es"
  shows "\<exists>t'. two_Prev iops dops bf t = Some t' \<and> two_pos describes iw dw es (if i = 0 then length es else i - 1) t'"
  using assms(1)
proof (cases rule: two_pos_cases)
  case (inner ix c j l)
  let ?m = "if l = 0 then length (c (snd (ix ! j))) else l - 1"
  from on_data_inside [where f = "wrapper_Prev dops", OF inner(2,4) data.wpos_Prev] inner(5) obtain t1
    where t1: "on_data (wrapper_Prev dops) t = Some t1" "inside ix c j ?m t1" by blast
  show ?thesis
  proof (cases "l = 0")
    case True
    with t1(2) have in1: "inside ix c j (length (c (snd (ix ! j)))) t1" by simp
    from skips_backward [OF in1 inner(4) refl] t1(1) inner True show ?thesis by (auto simp: two_Prev_def split: if_splits)
  next
    case False
    with t1(2) have in1: "inside ix c j (l - 1) t1" by simp
    with inside_valid inner(4,5) have v: "two_Valid t1" by fastforce
    from inside_pos [OF in1 v] False t1(1) inner v show ?thesis
      by (simp add: two_Prev_def SkipEmptyDataBlocksBackward.simps [of _ _ _ t1])
  qed
qed (use assms(2) in simp)

lemma two_level_over: "iterator_over (two_level_iterator iops dops bf) (two_pos describes iw dw) before proper"
proof (unfold_locales, goal_cases)
  case (1 es i t)
  then show ?case by (cases rule: two_pos_cases) simp_all
next
  case (2 es i t)
  then show ?case by (cases rule: two_pos_cases) (simp_all add: two_level_iterator_def)
next
  case (3 es i t)
  from 3(1) show ?case
  proof (cases rule: two_pos_cases)
    case (inner ix c j l)
    then obtain w where "data_iter t = Some w" "dw (c (snd (ix ! j))) l w" by (auto simp: in_block_def)
    with data.wpos_entry [of _ l w] inner all_entries_nth [of j ix l c] show ?thesis
      by (simp add: two_level_iterator_def two_key_def two_value_def)
  qed (use 3(2) in simp)
next
  case (4 es i t)
  from two_pos_ready [OF 4] obtain ix c j where r: "ready ix c j t" by blast
  with index.wpos_status [OF ready_index [OF r]] ready_data_status [OF r] show ?case
    by (auto simp: two_level_iterator_def two_status_def two_ready_def split: option.split)
qed (simp_all add: two_level_iterator_def two_SeekToFirst_pos two_SeekToLast_pos [simplified] two_Seek_pos two_Next_pos two_Prev_pos)

lemma new_two_level_pos:
  "describes e ix c \<Longrightarrow> ipos ix j index \<Longrightarrow>
     two_pos describes iw dw (all_entries c ix) (length (all_entries c ix)) (NewTwoLevelIterator iops index e)"
  using index.wpos_Set [of ix j index] by (intro end_pos [of ix c j]) (simp_all add: NewTwoLevelIterator_def two_ready_def)

end

sublocale two_level_sources \<subseteq> two_level: iterator_over "two_level_iterator iops dops bf" "two_pos describes iw dw" before proper
  by (rule two_level_over)

end
