(* ===== verification/Ldb_Table.thy ===== *)
theory Ldb_Table
  imports Ldb_Table_Layout Ldb_Two_Level
begin

unbundle bit_operations_syntax

text \<open>
  \<open>leveldb/table/table.cc\<close>: reading a sorted table. The file is a parameter with the interface \<open>random_access_file\<close>, the block cache
  one with the interface \<open>block_cache\<close>. The proofs are in \<open>Ldb_Table_Proofs\<close>.
\<close>

section \<open>Iterators of blocks\<close>

text \<open>\<open>Block::NewIterator\<close> returns iterators of several classes; calls on them are dispatched.\<close>

definition any_iterator :: "(slice \<Rightarrow> slice \<Rightarrow> int) \<Rightarrow> new_iterator iterator" where
  "any_iterator cmp =
     (let move = (\<lambda>f x. case x of NewIter it \<Rightarrow> map_option NewIter (f it) | _ \<Rightarrow> Some x);
          read = (\<lambda>f x. case x of NewIter it \<Rightarrow> f it | _ \<Rightarrow> [])
      in \<lparr>op_Valid = \<lambda>x. (case x of NewIter it \<Rightarrow> Iter_Valid it | _ \<Rightarrow> False),
          op_SeekToFirst = move (\<lambda>it. Some (Iter_SeekToFirst it)), op_SeekToLast = move Iter_SeekToLast,
          op_Seek = \<lambda>x t. move (\<lambda>it. Iter_Seek cmp it t) x, op_Next = move (\<lambda>it. Some (Iter_Next it)), op_Prev = move Iter_Prev,
          op_key = read Iter_key, op_value = read Iter_value,
          op_status = \<lambda>x. (case x of NewErrorIterator s \<Rightarrow> s | NewEmptyIterator \<Rightarrow> OK | NewIter it \<Rightarrow> istatus it)\<rparr>)"

section \<open>The block cache\<close>

text \<open>
  The operations of \<open>Cache\<close> that tables use. A handle stands for the block it refers to. That it pins the block until the
  iterator on it is deleted is not modelled: the cache may drop any block at any time.
\<close>

record 'c cache_ops =
  cache_Lookup :: "slice \<Rightarrow> 'c \<Rightarrow> Block option \<times> 'c"
  cache_Insert :: "slice \<Rightarrow> Block \<Rightarrow> nat \<Rightarrow> 'c \<Rightarrow> 'c"
  cache_NewId :: "'c \<Rightarrow> u64 \<times> 'c"

section \<open>\<open>Table\<close>\<close>

record ReadOptions =
  verify_checksums :: bool
  fill_cache :: bool

record ('f, 'c) Table =
  tab_options :: Options
  tab_file :: 'f
  tab_cache :: "'c option"
  cache_id :: u64
  tab_filter :: "FilterBlockReader option"
  tab_metaindex_handle :: BlockHandle
  tab_index_block :: Block

type_synonym 'f file_read = "'f \<Rightarrow> u64 \<Rightarrow> nat \<Rightarrow> slice \<Rightarrow> status \<times> slice \<times> bool \<times> 'f"

definition ReadFilter :: "addr \<Rightarrow> 'f file_read \<Rightarrow> snappy_port \<Rightarrow> slice \<Rightarrow> ('f, 'c) Table \<Rightarrow> ('f, 'c) Table" where
  "ReadFilter a read port filter_handle_value tab =
     (let (s, filter_handle, _) = BlockHandle_DecodeFrom new_BlockHandle filter_handle_value in
      if \<not> ok s then tab
      else
        let (s, block, f) = ReadBlock a read port (o_paranoid_checks (tab_options tab)) (tab_file tab) filter_handle;
            tab = tab\<lparr>tab_file := f\<rparr>
        in if \<not> ok s then tab else tab\<lparr>tab_filter := Some (new_FilterBlockReader (bc_data block))\<rparr>)"

text \<open>\<open>None\<close> is a call that does not return.\<close>

definition ReadMeta :: "addr \<Rightarrow> 'f file_read \<Rightarrow> snappy_port \<Rightarrow> Footer \<Rightarrow> ('f, 'c) Table \<Rightarrow> ('f, 'c) Table option" where
  "ReadMeta a read port footer tab =
     (if o_filter_policy (tab_options tab) = None then Some tab
      else
        let (s, contents, f) = ReadBlock a read port (o_paranoid_checks (tab_options tab)) (tab_file tab) (metaindex_handle footer);
            tab = tab\<lparr>tab_file := f\<rparr>
        in if \<not> ok s then Some tab
           else
             let ops = any_iterator Compare;
                 key = filter_key (tab_options tab)
             in map_option (\<lambda>iter. if op_Valid ops iter \<and> op_key ops iter = key then ReadFilter a read port (op_value ops iter) tab else tab)
                  (op_Seek ops (NewIterator (new_Block (bc_data contents))) key))"

definition Table_Open ::
  "addr \<Rightarrow> 'f file_read \<Rightarrow> snappy_port \<Rightarrow> 'c cache_ops \<Rightarrow> Options \<Rightarrow> 'f \<Rightarrow> 'c option \<Rightarrow> u64 \<Rightarrow> (status \<times> ('f, 'c) Table option) option" where
  "Table_Open a read port cops opt f block_cache sz =
     (if unat sz < kEncodedLength then Some (Corruption (str ''file is too short to be an sstable'') [], None)
      else
        let (s, footer_input, _, f) = read f (sz - word_of_nat kEncodedLength) kEncodedLength [] in
        if \<not> ok s then Some (s, None)
        else
          let (s, footer, _) = Footer_DecodeFrom new_Footer footer_input in
          if \<not> ok s then Some (s, None)
          else
            let (s, contents, f) = ReadBlock a read port (o_paranoid_checks opt) f (index_handle footer) in
            if \<not> ok s then Some (s, None)
            else
              let (i, block_cache) = (case block_cache of None \<Rightarrow> (0, None) | Some c \<Rightarrow> (case cache_NewId cops c of (i, c) \<Rightarrow> (i, Some c)));
                  tab = \<lparr>tab_options = opt, tab_file = f, tab_cache = block_cache, cache_id = i, tab_filter = None,
                         tab_metaindex_handle = metaindex_handle footer, tab_index_block = new_Block (bc_data contents)\<rparr>
              in map_option (\<lambda>tab. (s, Some tab)) (ReadMeta a read port footer tab))"

text \<open>Reading a block through the cache: the status, the block and the table.\<close>

definition read_through ::
  "addr \<Rightarrow> 'f file_read \<Rightarrow> snappy_port \<Rightarrow> 'c cache_ops \<Rightarrow> ReadOptions \<Rightarrow> BlockHandle \<Rightarrow> ('f, 'c) Table \<Rightarrow> status \<times> Block option \<times> ('f, 'c) Table" where
  "read_through a read port cops ropt handle tab =
     (case tab_cache tab of
        None \<Rightarrow>
          (let (s, contents, f) = ReadBlock a read port (verify_checksums ropt) (tab_file tab) handle
           in (s, if ok s then Some (new_Block (bc_data contents)) else None, tab\<lparr>tab_file := f\<rparr>))
      | Some c \<Rightarrow>
          (let key = EncodeFixed64 (cache_id tab) @ EncodeFixed64 (h_offset handle);
               (found, c) = cache_Lookup cops key c
           in case found of
                Some block \<Rightarrow> (OK, Some block, tab\<lparr>tab_cache := Some c\<rparr>)
              | None \<Rightarrow>
                  (let (s, contents, f) = ReadBlock a read port (verify_checksums ropt) (tab_file tab) handle
                   in if ok s then
                        let block = new_Block (bc_data contents);
                            c = (if cachable contents \<and> fill_cache ropt then cache_Insert cops key block (bsize block) c else c)
                        in (s, Some block, tab\<lparr>tab_file := f, tab_cache := Some c\<rparr>)
                      else (s, None, tab\<lparr>tab_file := f, tab_cache := Some c\<rparr>))))"

definition BlockReader ::
  "addr \<Rightarrow> 'f file_read \<Rightarrow> snappy_port \<Rightarrow> 'c cache_ops \<Rightarrow> ReadOptions \<Rightarrow> slice \<Rightarrow> ('f, 'c) Table \<Rightarrow> new_iterator \<times> ('f, 'c) Table" where
  "BlockReader a read port cops ropt index_value tab =
     (let (s, handle, _) = BlockHandle_DecodeFrom new_BlockHandle index_value;
          (s, block, tab) = (if ok s then read_through a read port cops ropt handle tab else (s, None, tab))
      in case block of Some b \<Rightarrow> (NewIterator b, tab) | None \<Rightarrow> (NewErrorIterator s, tab))"

type_synonym ('f, 'c) table_iterator = "(new_iterator, new_iterator, ('f, 'c) Table) TwoLevelIterator"

definition Table_NewIterator :: "('f, 'c) Table \<Rightarrow> ('f, 'c) table_iterator" where
  "Table_NewIterator tab =
     NewTwoLevelIterator (any_iterator (o_Compare (tab_options tab))) (NewIterator (tab_index_block tab)) tab"

definition table_iterator ::
  "addr \<Rightarrow> 'f file_read \<Rightarrow> snappy_port \<Rightarrow> 'c cache_ops \<Rightarrow> ReadOptions \<Rightarrow> (slice \<Rightarrow> slice \<Rightarrow> int) \<Rightarrow> ('f, 'c) table_iterator iterator" where
  "table_iterator a read port cops ropt cmp =
     two_level_iterator (any_iterator cmp) (any_iterator cmp) (BlockReader a read port cops ropt)"

text \<open>\<open>InternalGet\<close> returns the status, the arguments with which \<open>handle_result\<close> is called, if it is, and the table.\<close>

definition InternalGet ::
  "addr \<Rightarrow> 'f file_read \<Rightarrow> snappy_port \<Rightarrow> 'c cache_ops \<Rightarrow> ReadOptions \<Rightarrow> slice \<Rightarrow> ('f, 'c) Table \<Rightarrow>
   (status \<times> (slice \<times> slice) option \<times> ('f, 'c) Table) option" where
  "InternalGet a read port cops ropt k tab =
     (let ops = any_iterator (o_Compare (tab_options tab)) in
      Option.bind (op_Seek ops (NewIterator (tab_index_block tab)) k) (\<lambda>iiter.
        let finish = (\<lambda>(s, called, tab). Some (if ok s then op_status ops iiter else s, called, tab)) in
        if op_Valid ops iiter then
          let handle_value = op_value ops iiter;
              (sd, handle, _) = BlockHandle_DecodeFrom new_BlockHandle handle_value;
              absent = (case (tab_filter tab, o_filter_policy (tab_options tab)) of
                          (Some r, Some p) \<Rightarrow> ok sd \<and> \<not> FilterBlockReader_KeyMayMatch (fp_KeyMayMatch p) r (h_offset handle) k
                        | _ \<Rightarrow> False)
          in if absent then finish (OK, None, tab)
             else
               let (block_iter, tab) = BlockReader a read port cops ropt handle_value tab in
               Option.bind (op_Seek ops block_iter k) (\<lambda>block_iter.
                 finish (op_status ops block_iter,
                         if op_Valid ops block_iter then Some (op_key ops block_iter, op_value ops block_iter) else None, tab))
        else finish (OK, None, tab)))"

definition ApproximateOffsetOf :: "slice \<Rightarrow> ('f, 'c) Table \<Rightarrow> u64 option" where
  "ApproximateOffsetOf key tab =
     (let ops = any_iterator (o_Compare (tab_options tab)) in
      map_option (\<lambda>index_iter.
        if op_Valid ops index_iter then
          let (s, handle, _) = BlockHandle_DecodeFrom new_BlockHandle (op_value ops index_iter)
          in if ok s then h_offset handle else h_offset (tab_metaindex_handle tab)
        else h_offset (tab_metaindex_handle tab))
        (op_Seek ops (NewIterator (tab_index_block tab)) key))"

end
