(* ===== verification/Ldb_Table_Proofs.thy ===== *)
theory Ldb_Table_Proofs
  imports Ldb_Table
begin

unbundle bit_operations_syntax

text \<open>
  Tables are correct: a file that the table builder has written can be opened, its iterator is an iterator over the
  entries that were added, and a key that was added is found, with or without a filter and whatever the block cache has
  kept or dropped.
\<close>

section \<open>Iterators of blocks\<close>

definition any_pos :: "(slice \<Rightarrow> bool) \<Rightarrow> (slice \<Rightarrow> slice \<Rightarrow> int) \<Rightarrow> new_iterator position" where
  "any_pos valid cmp es i x \<longleftrightarrow> (\<exists>it. x = NewIter it \<and> block_pos valid cmp es i it)"

lemma any_iterator_simps:
  "op_Valid (any_iterator cmp) (NewIter it) = op_Valid (block_iterator cmp) it"
  "op_SeekToFirst (any_iterator cmp) (NewIter it) = map_option NewIter (op_SeekToFirst (block_iterator cmp) it)"
  "op_SeekToLast (any_iterator cmp) (NewIter it) = map_option NewIter (op_SeekToLast (block_iterator cmp) it)"
  "op_Seek (any_iterator cmp) (NewIter it) t = map_option NewIter (op_Seek (block_iterator cmp) it t)"
  "op_Next (any_iterator cmp) (NewIter it) = map_option NewIter (op_Next (block_iterator cmp) it)"
  "op_Prev (any_iterator cmp) (NewIter it) = map_option NewIter (op_Prev (block_iterator cmp) it)"
  "op_key (any_iterator cmp) (NewIter it) = op_key (block_iterator cmp) it"
  "op_value (any_iterator cmp) (NewIter it) = op_value (block_iterator cmp) it"
  "op_status (any_iterator cmp) (NewIter it) = op_status (block_iterator cmp) it"
  by (simp_all add: any_iterator_def block_iterator_def Let_def)

lemma any_pos_moves: "\<exists>it'. f it = Some it' \<and> block_pos valid cmp es i it' \<Longrightarrow> \<exists>x. map_option NewIter (f it) = Some x \<and> any_pos valid cmp es i x"
  by (auto simp: any_pos_def)

context comparator
begin

lemma any_over: "iterator_over (any_iterator cmp) (any_pos valid cmp) (\<lambda>a b. cmp a b < 0) valid"
proof (unfold_locales, goal_cases)
  case (7 es i x t)
  then obtain it where "x = NewIter it" "block_pos valid cmp es i it" by (auto simp: any_pos_def)
  with block.Seek_pos [OF this(2) 7(2)] show ?case by (auto simp: any_iterator_simps any_pos_def)
next
  case (9 es i x)
  then obtain it where "x = NewIter it" "block_pos valid cmp es i it" by (auto simp: any_pos_def)
  with block.Prev_pos [OF this(2) 9(2)] show ?case by (auto simp: any_iterator_simps any_pos_def)
qed (auto simp: any_iterator_simps any_pos_def dest: block.pos_bound block.pos_valid block.pos_entry block.pos_status
    block.SeekToFirst_pos block.SeekToLast_pos block.Next_pos)

lemma open_block_pos:
  assumes "1 \<le> n" and "length (build_block n es) < 2 ^ 32" and "ordered es"
  shows "any_pos valid cmp es (length es) (NewIterator (new_Block (build_block n es)))"
  using open_block [OF assms(1,2)] assms(3) by (auto simp: any_pos_def)

end

sublocale comparator \<subseteq> any: iterator_over "any_iterator cmp" "any_pos valid cmp" "\<lambda>a b. cmp a b < 0" valid
  by (rule any_over)

section \<open>The interface of the block cache\<close>

text \<open>\<open>holds c k\<close> is the block that a lookup of \<open>k\<close> may return; other blocks may disappear.\<close>

locale block_cache =
  fixes cops :: "'c cache_ops" and holds :: "'c \<Rightarrow> slice \<Rightarrow> Block option" and cvalid :: "'c \<Rightarrow> bool"
  assumes lookup_found: "cvalid c \<Longrightarrow> cache_Lookup cops k c = (Some b, c') \<Longrightarrow> holds c k = Some b"
    and lookup_keeps: "cvalid c \<Longrightarrow> cache_Lookup cops k c = (r, c') \<Longrightarrow> cvalid c' \<and> (\<forall>k b. holds c' k = Some b \<longrightarrow> holds c k = Some b)"
    and insert_holds: "cvalid c \<Longrightarrow> cvalid (cache_Insert cops k b n c) \<and>
      (\<forall>k' b'. holds (cache_Insert cops k b n c) k' = Some b' \<longrightarrow> k' = k \<and> b' = b \<or> holds c k' = Some b')"
    and newid_keeps: "cvalid c \<Longrightarrow> cache_NewId cops c = (i, c') \<Longrightarrow> cvalid c' \<and> (\<forall>k b. holds c' k = Some b \<longrightarrow> holds c k = Some b)"

section \<open>Open tables\<close>

definition cache_key :: "u64 \<Rightarrow> BlockHandle \<Rightarrow> slice" where
  "cache_key i h = EncodeFixed64 i @ EncodeFixed64 (h_offset h)"

text \<open>The cache has only blocks of this table under its keys; the filter was made from its keys.\<close>

definition cache_ok :: "('c \<Rightarrow> slice \<Rightarrow> Block option) \<Rightarrow> ('c \<Rightarrow> bool) \<Rightarrow> int \<Rightarrow> data_blocks \<Rightarrow> u64 \<Rightarrow> 'c option \<Rightarrow> bool" where
  "cache_ok holds cvalid n D i cache \<longleftrightarrow> (\<forall>c. cache = Some c \<longrightarrow> cvalid c \<and>
     (\<forall>(s, h, es) \<in> set D. \<forall>b. holds c (cache_key i h) = Some b \<longrightarrow> b = new_Block (build_block n es)))"

definition filter_ok :: "Options \<Rightarrow> data_blocks \<Rightarrow> FilterBlockReader option \<Rightarrow> bool" where
  "filter_ok opt D flt \<longleftrightarrow> (\<forall>r. flt = Some r \<longrightarrow> (\<exists>p off. o_filter_policy opt = Some p \<and>
     r = new_FilterBlockReader (filter_block (fp_CreateFilter p) (key_blocks D @ [(off, [])])) \<and>
     length (filter_block (fp_CreateFilter p) (key_blocks D @ [(off, [])])) < 2 ^ 32 \<and>
     sorted (map (unat \<circ> fst) (key_blocks D @ [(off, [])]))))"

definition table_ok ::
  "('f \<Rightarrow> byte list) \<Rightarrow> ('f \<Rightarrow> bool) \<Rightarrow> ('c \<Rightarrow> slice \<Rightarrow> Block option) \<Rightarrow> ('c \<Rightarrow> bool) \<Rightarrow> (slice \<Rightarrow> bool) \<Rightarrow> (slice \<Rightarrow> slice \<Rightarrow> int) \<Rightarrow>
   snappy_port \<Rightarrow> ('f, 'c) Table \<Rightarrow> data_blocks \<Rightarrow> bool"
where
  "table_ok contents steady holds cvalid valid cmp port tab D \<longleftrightarrow>
     (let F = contents (tab_file tab); n = o_block_restart_interval (tab_options tab) in
      steady (tab_file tab) \<and> length F < 2 ^ 32 \<and> o_Compare (tab_options tab) = cmp \<and> 1 \<le> n \<and>
      stored_blocks port n F D \<and> separated valid cmp D [] \<and> (\<forall>e \<in> set (entries_of D). valid (fst e)) \<and>
      sorted_wrt (\<lambda>a b. cmp (fst a) (fst b) < 0) (entries_of D) \<and> distinct (map fst (key_blocks D)) \<and>
      length (build_block 1 (index_of D)) < 2 ^ 32 \<and> tab_index_block tab = new_Block (build_block 1 (index_of D)) \<and>
      cache_ok holds cvalid n D (cache_id tab) (tab_cache tab) \<and> filter_ok (tab_options tab) D (tab_filter tab))"

text \<open>The offsets in a file that is not too long, as numbers.\<close>

lemma offsets_ok_sorted:
  assumes "offsets_ok F bs" and "length F < 2 ^ 32"
  shows "sorted (map (unat \<circ> fst) bs)" "distinct (map fst bs)"
proof -
  from assms(1) obtain ks where ks: "sorted_wrt (<) ks" "map fst bs = map word_of_nat ks" "\<forall>k \<in> set ks. k \<le> length F"
    by (auto simp: offsets_ok_def)
  have inv: "unat (word_of_nat k :: u64) = k" if "k \<in> set ks" for k
  proof -
    have "k < 2 ^ 64" using ks(3) that assms(2) by fastforce
    then show ?thesis by (simp add: unsigned_of_nat take_bit_nat_eq_self)
  qed
  have "map (unat \<circ> fst) bs = map unat (map fst bs)" by simp
  also have "\<dots> = ks" unfolding ks(2) map_map using inv by (simp add: map_idI)
  finally have m: "map (unat \<circ> fst) bs = ks" .
  with ks(1) show "sorted (map (unat \<circ> fst) bs)" by (simp add: strict_sorted_imp_sorted)
  have "distinct (map unat (map fst bs))" using m ks(1) by (simp add: strict_sorted_iff)
  then show "distinct (map fst bs)" using distinct_map by blast
qed

text \<open>The entries of the block of a handle, and what the two-level iterator is told.\<close>

definition block_contents :: "data_blocks \<Rightarrow> slice \<Rightarrow> entries" where
  "block_contents D v = (case find (\<lambda>(s, h, es). handle_bytes h = v) D of None \<Rightarrow> [] | Some (s, h, es) \<Rightarrow> es)"

lemma same_offset:
  assumes "distinct (map fst (key_blocks D))" and "x \<in> set D" and "y \<in> set D" and "h_offset (fst (snd x)) = h_offset (fst (snd y))"
  shows "x = y"
proof -
  have "map fst (key_blocks D) = map (\<lambda>x. h_offset (fst (snd x))) D" by (simp add: key_blocks_def split_beta comp_def)
  with assms(1) have "inj_on (\<lambda>x. h_offset (fst (snd x))) (set D)" using distinct_map by metis
  from inj_onD [OF this assms(4,2,3)] show ?thesis .
qed

lemma block_contents_of:
  assumes "distinct (map fst (key_blocks D))" and "(s, h, es) \<in> set D"
  shows "block_contents D (handle_bytes h) = es"
proof -
  let ?P = "\<lambda>(s, h', es). handle_bytes h' = handle_bytes h"
  have "find ?P D \<noteq> None" using assms(2) unfolding find_None_iff by fastforce
  then obtain d where d: "find ?P D = Some d" by blast
  then obtain i where "i < length D" "?P (D ! i)" "d = D ! i" by (auto simp: find_Some_iff)
  then have "d \<in> set D" "handle_bytes (fst (snd d)) = handle_bytes h" by (auto simp: split_beta)
  moreover from this(2) have "fst (snd d) = h" using handle_codec.put_injective by blast
  ultimately have "d = (s, h, es)" using same_offset [OF assms(1) _ assms(2)] by simp
  with d show ?thesis by (simp add: block_contents_def)
qed

lemma all_entries_of:
  assumes "distinct (map fst (key_blocks D))"
  shows "all_entries (block_contents D) (index_of D) = entries_of D"
proof -
  have "map (\<lambda>x. block_contents D (snd x)) (index_of D) = map (\<lambda>(s, h, es). es) D"
    using block_contents_of [OF assms] by (auto simp: index_of_def)
  then show ?thesis by (simp add: all_entries_def entries_of_def)
qed

lemma separated_later: "separated valid cmp D rest \<Longrightarrow> j < k \<Longrightarrow> k < length D \<Longrightarrow> x \<in> set (snd (snd (D ! k))) \<Longrightarrow> cmp (fst (D ! j)) (fst x) < 0"
proof (induction D arbitrary: j k)
  case (Cons d D)
  obtain s h es where d: "d = (s, h, es)" by (cases d)
  obtain m where k: "k = Suc m" using Cons.prems(2) by (cases k) auto
  show ?case
  proof (cases j)
    case 0
    have "D ! m \<in> set D" using Cons.prems(3) k by simp
    then have "x \<in> set (entries_of D)" using Cons.prems(4) k by (force simp: entries_of_def split_beta)
    with Cons.prems(1) 0 show ?thesis by (simp add: d)
  next
    case (Suc i)
    with Cons.IH [of i m] Cons.prems k show ?thesis by (simp add: d)
  qed
qed simp

locale table_reader = rfile: random_access_file read contents steady + cache: block_cache cops holds cvalid +
  comparator valid cmp sep succ
  for read :: "'f file_read" and contents steady and cops :: "'c cache_ops" and holds cvalid and valid cmp sep succ +
  fixes a :: addr and port :: snappy_port and ropt :: ReadOptions
begin

abbreviation opened where "opened \<equiv> table_ok contents steady holds cvalid valid cmp port"

abbreviation reader where "reader \<equiv> BlockReader a read port cops ropt"

definition describes :: "('f, 'c) Table description" where
  "describes tab ix c \<longleftrightarrow> (\<exists>D. opened tab D \<and> ix = index_of D \<and> c = block_contents D)"

lemma opened_entry:
  assumes "opened tab D" and "(s, h, es) \<in> set D"
  shows "stored_at port (contents (tab_file tab)) h (build_block (o_block_restart_interval (tab_options tab)) es)"
    "length (build_block (o_block_restart_interval (tab_options tab)) es) < 2 ^ 32" "ordered es"
    "es \<noteq> []" "valid s" "\<forall>e \<in> set es. cmp (fst e) s \<le> 0"
proof -
  let ?n = "o_block_restart_interval (tab_options tab)"
  have D: "stored_blocks port ?n (contents (tab_file tab)) D" "length (contents (tab_file tab)) < 2 ^ 32"
    "separated valid cmp D []" "ordered (entries_of D)" using assms(1) by (simp_all add: table_ok_def Let_def)
  from D(1) assms(2) show st: "stored_at port (contents (tab_file tab)) h (build_block ?n es)" and "es \<noteq> []"
    by (auto simp: stored_blocks_def)
  show "length (build_block ?n es) < 2 ^ 32" by (rule stored_at_short [OF st D(2)])
  obtain x y where "D = x @ (s, h, es) # y" using split_list [OF assms(2)] by blast
  then have e: "entries_of D = entries_of x @ es @ entries_of y" by (simp add: entries_of_def)
  show "ordered es" using D(4) unfolding e by (simp add: sorted_wrt_append)
  show "valid s" "\<forall>e \<in> set es. cmp (fst e) s \<le> 0" using separated_own [OF D(3) assms(2)] by simp_all
qed

lemma cache_ok_insert:
  assumes "cache_ok holds cvalid n D i (Some c)" and "distinct (map fst (key_blocks D))" and "(s, h, es) \<in> set D"
  shows "cache_ok holds cvalid n D i (Some (cache_Insert cops (cache_key i h) (new_Block (build_block n es)) m c))"
proof -
  have c: "cvalid c" using assms(1) by (simp add: cache_ok_def)
  have "b = new_Block (build_block n es')"
    if D: "(s', h', es') \<in> set D" and b: "holds (cache_Insert cops (cache_key i h) (new_Block (build_block n es)) m c) (cache_key i h') = Some b"
    for s' h' es' b
  proof (cases "cache_key i h' = cache_key i h \<and> b = new_Block (build_block n es)")
    case True
    then have "DecodeFixed64 (EncodeFixed64 (h_offset h') @ []) = DecodeFixed64 (EncodeFixed64 (h_offset h) @ [])" by (simp add: cache_key_def)
    then have "h_offset h' = h_offset h" by (simp only: DecodeFixed64_encode)
    from same_offset [OF assms(2) D assms(3)] this have "es' = es" by simp
    with True show ?thesis by simp
  next
    case False
    with conjunct2 [OF cache.insert_holds [OF c]] b have "holds c (cache_key i h') = Some b" by blast
    with assms(1) D show ?thesis by (auto simp: cache_ok_def)
  qed
  moreover have "cvalid (cache_Insert cops (cache_key i h) (new_Block (build_block n es)) m c)" using cache.insert_holds [OF c] by blast
  ultimately show ?thesis by (auto simp: cache_ok_def)
qed

lemma cache_ok_subset:
  assumes "cache_ok holds cvalid n D i (Some c)" and "cvalid c'" and "\<forall>k b. holds c' k = Some b \<longrightarrow> holds c k = Some b"
  shows "cache_ok holds cvalid n D i (Some c')"
  using assms unfolding cache_ok_def by blast

lemma opened_update:
  assumes "opened tab D" and "contents f = contents (tab_file tab)" and "steady f"
    and "cache_ok holds cvalid (o_block_restart_interval (tab_options tab)) D (cache_id tab) c"
  shows "opened (tab\<lparr>tab_file := f, tab_cache := c\<rparr>) D"
  using assms by (simp add: table_ok_def Let_def)

lemma read_through_block:
  assumes tab: "opened tab D" and D: "(s, h, es) \<in> set D"
  shows "\<exists>f c. read_through a read port cops ropt h tab =
      (OK, Some (new_Block (build_block (o_block_restart_interval (tab_options tab)) es)), tab\<lparr>tab_file := f, tab_cache := c\<rparr>) \<and>
    opened (tab\<lparr>tab_file := f, tab_cache := c\<rparr>) D"
proof -
  let ?n = "o_block_restart_interval (tab_options tab)"
  have T: "steady (tab_file tab)" "cache_ok holds cvalid ?n D (cache_id tab) (tab_cache tab)" "distinct (map fst (key_blocks D))"
    "length (contents (tab_file tab)) < 2 ^ 63" using tab by (simp_all add: table_ok_def Let_def)
  from rfile.ReadBlock_stored [OF opened_entry(1) [OF tab D] T(1,4), of a "verify_checksums ropt"] obtain r f where
    r: "ReadBlock a read port (verify_checksums ropt) (tab_file tab) h = (OK, r, f)" "bc_data r = build_block ?n es" "steady f"
      "contents f = contents (tab_file tab)" by blast
  show ?thesis
  proof (cases "tab_cache tab")
    case None
    have *: "opened (tab\<lparr>tab_file := f, tab_cache := None\<rparr>) D"
      by (rule opened_update [OF tab r(4,3)]) (simp add: cache_ok_def)
    have "tab\<lparr>tab_file := f\<rparr> = tab\<lparr>tab_file := f, tab_cache := None\<rparr>" using None by simp
    then have "read_through a read port cops ropt h tab = (OK, Some (new_Block (build_block ?n es)), tab\<lparr>tab_file := f, tab_cache := None\<rparr>)"
      using None r by (simp add: read_through_def)
    with * show ?thesis by blast
  next
    case (Some c)
    then have c: "cvalid c" "cache_ok holds cvalid ?n D (cache_id tab) (Some c)" using T(2) by (simp_all add: cache_ok_def)
    let ?k = "cache_key (cache_id tab) h"
    obtain found c1 where l: "cache_Lookup cops ?k c = (found, c1)" by fastforce
    have c1: "cache_ok holds cvalid ?n D (cache_id tab) (Some c1)"
      using cache_ok_subset [OF c(2)] cache.lookup_keeps [OF c(1) l] by blast
    show ?thesis
    proof (cases found)
      case (Some b)
      with cache.lookup_found [OF c(1)] l have "holds c ?k = Some b" by blast
      with c(2) D have b: "b = new_Block (build_block ?n es)" by (fastforce simp: cache_ok_def)
      have *: "opened (tab\<lparr>tab_file := tab_file tab, tab_cache := Some c1\<rparr>) D" by (rule opened_update [OF tab refl T(1) c1])
      have "tab\<lparr>tab_cache := Some c1\<rparr> = tab\<lparr>tab_file := tab_file tab, tab_cache := Some c1\<rparr>" by simp
      then have "read_through a read port cops ropt h tab =
          (OK, Some (new_Block (build_block ?n es)), tab\<lparr>tab_file := tab_file tab, tab_cache := Some c1\<rparr>)"
        using Some b \<open>tab_cache tab = Some c\<close> l by (simp add: read_through_def cache_key_def)
      with * show ?thesis by blast
    next
      case None
      let ?b = "new_Block (build_block ?n es)"
      let ?c = "if cachable r \<and> fill_cache ropt then cache_Insert cops ?k ?b (bsize ?b) c1 else c1"
      have "cache_ok holds cvalid ?n D (cache_id tab) (Some ?c)"
        using c1 cache_ok_insert [OF c1 T(3) D] by simp
      from opened_update [OF tab r(4,3) this] have "opened (tab\<lparr>tab_file := f, tab_cache := Some ?c\<rparr>) D" .
      moreover have "read_through a read port cops ropt h tab = (OK, Some ?b, tab\<lparr>tab_file := f, tab_cache := Some ?c\<rparr>)"
        using None \<open>tab_cache tab = Some c\<close> l r(1,2) by (simp add: read_through_def cache_key_def Let_def)
      ultimately show ?thesis by blast
    qed
  qed
qed

lemma BlockReader_opens:
  assumes "opened tab D" and "(s, h, es) \<in> set D"
  shows "\<exists>d f c. reader (handle_bytes h) tab = (d, tab\<lparr>tab_file := f, tab_cache := c\<rparr>) \<and> opened (tab\<lparr>tab_file := f, tab_cache := c\<rparr>) D \<and>
    any_pos valid cmp es (length es) d"
proof -
  from read_through_block [OF assms] obtain f c where r: "read_through a read port cops ropt h tab =
      (OK, Some (new_Block (build_block (o_block_restart_interval (tab_options tab)) es)), tab\<lparr>tab_file := f, tab_cache := c\<rparr>)"
    "opened (tab\<lparr>tab_file := f, tab_cache := c\<rparr>) D" by blast
  have "1 \<le> o_block_restart_interval (tab_options tab)" using assms(1) by (simp add: table_ok_def Let_def)
  from open_block_pos [OF this opened_entry(2,3) [OF assms]] r show ?thesis
    using BlockHandle_decode [of new_BlockHandle h "[]"] by (auto simp: BlockReader_def)
qed

lemma describes_nth:
  assumes "describes tab ix c" and "j < length ix"
  shows "\<exists>D s h es. opened tab D \<and> ix = index_of D \<and> D ! j = (s, h, es) \<and> ix ! j = (s, handle_bytes h) \<and> (s, h, es) \<in> set D \<and>
    c = block_contents D \<and> c (snd (ix ! j)) = es \<and> length ix = length D"
proof -
  from assms obtain D where D: "opened tab D" "ix = index_of D" "c = block_contents D" by (auto simp: describes_def)
  have j: "j < length D" "length ix = length D" using assms(2) D(2) by (simp_all add: index_of_def)
  obtain s h es where d: "D ! j = (s, h, es)" by (cases "D ! j")
  then have "(s, h, es) \<in> set D" "ix ! j = (s, handle_bytes h)" using j nth_mem [OF j(1)] D(2) by (simp_all add: index_of_def)
  moreover have "distinct (map fst (key_blocks D))" using D(1) by (simp add: table_ok_def Let_def)
  ultimately show ?thesis using D d j block_contents_of by auto
qed

lemma describes_valid: "opened tab D \<Longrightarrow> (s, h, es) \<in> set D \<Longrightarrow> x \<in> set es \<Longrightarrow> valid (fst x)"
  using opened_entry(3) by blast

lemma two_level_tables: "two_level_sources (any_iterator cmp) (any_pos valid cmp) (\<lambda>a b. cmp a b < 0) valid
  (any_iterator cmp) (any_pos valid cmp) reader describes"
proof (intro two_level_sources.intro two_level_sources_axioms.intro)
  show "iterator_over (any_iterator cmp) (any_pos valid cmp) (\<lambda>a b. cmp a b < 0) valid" by (rule any_over)
  then show "iterator_over (any_iterator cmp) (any_pos valid cmp) (\<lambda>a b. cmp a b < 0) valid" .
next
  fix e ix c x d e' assume des: "describes e ix c" and x: "x \<in> set ix" and bf: "reader (snd x) e = (d, e')"
  from x obtain j where j: "j < length ix" "x = ix ! j" by (metis in_set_conv_nth)
  from describes_nth [OF des j(1)] obtain D s h es where D: "opened e D" "ix = index_of D" "x = (s, handle_bytes h)" "(s, h, es) \<in> set D"
    "c = block_contents D" "c (snd x) = es" using j(2) by auto
  from BlockReader_opens [OF D(1,4)] bf D show "describes e' ix c \<and> (\<exists>l. any_pos valid cmp (c (snd x)) l d)"
    unfolding describes_def by auto
next
  fix e ix c j x t assume des: "describes e ix c" and j: "j < length ix" and x: "x \<in> set (c (snd (ix ! j)))" and t: "valid t"
    and lt: "cmp (fst (ix ! j)) t < 0"
  from describes_nth [OF des j] obtain D s h es where D: "opened e D" "ix ! j = (s, handle_bytes h)" "(s, h, es) \<in> set D" "x \<in> set es"
    using x by auto
  from opened_entry(5,6) [OF D(1,3)] D(4) have "valid s" "cmp (fst x) s \<le> 0" by auto
  with le_less_trans [OF describes_valid [OF D(1,3,4)] _ t] lt D(2) show "cmp (fst x) t < 0" by simp
next
  fix e ix c j k x t assume des: "describes e ix c" and jk: "j < k" "k < length ix" and x: "x \<in> set (c (snd (ix ! k)))" and t: "valid t"
    and ge: "\<not> cmp (fst (ix ! j)) t < 0"
  from describes_nth [OF des jk(2)] obtain D s h es where D: "opened e D" "ix = index_of D" "D ! k = (s, h, es)" "(s, h, es) \<in> set D" "x \<in> set es"
    using x by auto
  have len: "length ix = length D" using D(2) by (simp add: index_of_def)
  obtain s' h' es' where d: "D ! j = (s', h', es')" by (cases "D ! j")
  then have "(s', h', es') \<in> set D" using nth_mem [of j D] jk len by simp
  then have "valid s'" using opened_entry(5) [OF D(1)] by blast
  moreover have "cmp s' (fst x) < 0"
    using separated_later [of valid cmp D "[]" j k x] D(1,3,5) jk len d by (simp add: table_ok_def Let_def)
  moreover have "fst (ix ! j) = s'" using d jk len D(2) by (simp add: index_of_def)
  ultimately show "\<not> cmp (fst x) t < 0" using cmp_trans [of s' "fst x" t] describes_valid [OF D(1,4,5)] t ge by auto
qed

end

sublocale table_reader \<subseteq> tables: two_level_sources "any_iterator cmp" "any_pos valid cmp" "\<lambda>a b. cmp a b < 0" valid
  "any_iterator cmp" "any_pos valid cmp" reader describes
  by (rule two_level_tables)

section \<open>Opening a table\<close>

lemma find_in_append: "find P (xs @ ys) = (case find P xs of None \<Rightarrow> find P ys | Some x \<Rightarrow> Some x)"
  by (induction xs) auto

text \<open>A block with one entry, which is sought.\<close>

lemma seek_single:
  assumes "1 \<le> n" and "length (build_block n [(k, v)]) < 2 ^ 32"
  shows "\<exists>it. op_Seek (any_iterator Compare) (NewIterator (new_Block (build_block n [(k, v)]))) k = Some it \<and>
    op_Valid (any_iterator Compare) it \<and> op_key (any_iterator Compare) it = k \<and> op_value (any_iterator Compare) it = v"
proof -
  have "any_pos (\<lambda>_. True) Compare [(k, v)] (length [(k, v)]) (NewIterator (new_Block (build_block n [(k, v)])))"
    by (rule bytewise.open_block_pos [OF assms]) simp
  from bytewise.any.Seek_pos [OF this, of k] bytewise.cmp_eq [of k k] obtain it where
    it: "op_Seek (any_iterator Compare) (NewIterator (new_Block (build_block n [(k, v)]))) k = Some it"
      "any_pos (\<lambda>_. True) Compare [(k, v)] 0 it" by auto
  with bytewise.any.pos_valid [OF it(2)] bytewise.any.pos_entry [OF it(2)] show ?thesis by simp
qed

context table_reader
begin

lemma ReadFilter_opens:
  assumes "stored_at port (contents (tab_file tab)) fh raw" and "steady (tab_file tab)" and "length (contents (tab_file tab)) < 2 ^ 63"
  shows "\<exists>f. ReadFilter a read port (handle_bytes fh) tab = tab\<lparr>tab_file := f, tab_filter := Some (new_FilterBlockReader raw)\<rparr> \<and>
    steady f \<and> contents f = contents (tab_file tab)"
proof -
  from rfile.ReadBlock_stored [OF assms, of a "o_paranoid_checks (tab_options tab)"] obtain r f where
    "ReadBlock a read port (o_paranoid_checks (tab_options tab)) (tab_file tab) fh = (OK, r, f)" "bc_data r = raw" "steady f"
    "contents f = contents (tab_file tab)" by blast
  then show ?thesis using BlockHandle_decode [of new_BlockHandle fh "[]"] by (auto simp: ReadFilter_def)
qed

lemma ReadMeta_opens:
  assumes meta: "case o_filter_policy (tab_options tab) of
      None \<Rightarrow> True
    | Some p \<Rightarrow> \<exists>fh off. stored_at port (contents (tab_file tab)) (metaindex_handle footer) (build_block n [(filter_key (tab_options tab), handle_bytes fh)]) \<and>
        stored_at port (contents (tab_file tab)) fh (filter_block (fp_CreateFilter p) (key_blocks D @ [(off, [])])) \<and>
        offsets_ok (contents (tab_file tab)) (key_blocks D @ [(off, [])])"
    and "steady (tab_file tab)" and len: "length (contents (tab_file tab)) < 2 ^ 32" and "1 \<le> n" and "tab_filter tab = None"
  shows "\<exists>f flt. ReadMeta a read port footer tab = Some (tab\<lparr>tab_file := f, tab_filter := flt\<rparr>) \<and> steady f \<and> contents f = contents (tab_file tab) \<and>
    filter_ok (tab_options tab) D flt \<and> (flt = None \<longleftrightarrow> o_filter_policy (tab_options tab) = None)"
proof (cases "o_filter_policy (tab_options tab)")
  case None
  have "tab = tab\<lparr>tab_file := tab_file tab, tab_filter := None\<rparr>" using assms(5) by simp
  with None assms(2) show ?thesis
    by (intro exI [of _ "tab_file tab"] exI [of _ None]) (simp add: ReadMeta_def filter_ok_def)
next
  case (Some p)
  with meta obtain fh off where m: "stored_at port (contents (tab_file tab)) (metaindex_handle footer) (build_block n [(filter_key (tab_options tab), handle_bytes fh)])"
    "stored_at port (contents (tab_file tab)) fh (filter_block (fp_CreateFilter p) (key_blocks D @ [(off, [])]))"
    "offsets_ok (contents (tab_file tab)) (key_blocks D @ [(off, [])])" by auto
  let ?raw = "filter_block (fp_CreateFilter p) (key_blocks D @ [(off, [])])"
  have len63: "length (contents (tab_file tab)) < 2 ^ 63" using len by simp
  from rfile.ReadBlock_stored [OF m(1) assms(2) len63, of a "o_paranoid_checks (tab_options tab)"] obtain r f where
    r: "ReadBlock a read port (o_paranoid_checks (tab_options tab)) (tab_file tab) (metaindex_handle footer) = (OK, r, f)"
      "bc_data r = build_block n [(filter_key (tab_options tab), handle_bytes fh)]" "steady f" "contents f = contents (tab_file tab)" by blast
  from seek_single [OF assms(4) stored_at_short [OF m(1) len]] obtain it where
    it: "op_Seek (any_iterator Compare) (NewIterator (new_Block (bc_data r))) (filter_key (tab_options tab)) = Some it"
      "op_Valid (any_iterator Compare) it" "op_key (any_iterator Compare) it = filter_key (tab_options tab)"
      "op_value (any_iterator Compare) it = handle_bytes fh" by (auto simp: r(2))
  have "stored_at port (contents (tab_file (tab\<lparr>tab_file := f\<rparr>))) fh ?raw" using m(2) r(4) by simp
  from ReadFilter_opens [OF this] r(3,4) len63 obtain f' where
    f': "ReadFilter a read port (handle_bytes fh) (tab\<lparr>tab_file := f\<rparr>) = tab\<lparr>tab_file := f', tab_filter := Some (new_FilterBlockReader ?raw)\<rparr>"
      "steady f'" "contents f' = contents (tab_file tab)" by auto
  have "ReadMeta a read port footer tab = Some (tab\<lparr>tab_file := f', tab_filter := Some (new_FilterBlockReader ?raw)\<rparr>)"
    using Some r(1) it f'(1) by (simp add: ReadMeta_def Let_def)
  moreover have "filter_ok (tab_options tab) D (Some (new_FilterBlockReader ?raw))"
    unfolding filter_ok_def using Some stored_at_short [OF m(2) len] offsets_ok_sorted(1) [OF m(3) len] by blast
  ultimately show ?thesis using f'(2,3) unfolding Some by (metis option.distinct(1))
qed

text \<open>A new identifier whose keys the cache does not have yet.\<close>

definition fresh_id :: "'c \<Rightarrow> bool" where
  "fresh_id c \<longleftrightarrow> cvalid c \<and> (\<forall>h. holds c (cache_key (fst (cache_NewId cops c)) h) = None)"

lemma Table_Open_ok:
  assumes img: "table_image valid port opt (contents f) D" and f: "steady f" and len: "length (contents f) < 2 ^ 32"
    and opt: "o_Compare opt = cmp" "1 \<le> o_block_restart_interval opt" and cache: "\<forall>c. cache = Some c \<longrightarrow> fresh_id c"
  shows "\<exists>tab. Table_Open a read port cops opt f cache (word_of_nat (length (contents f))) = Some (OK, Some tab) \<and> opened tab D \<and>
    tab_options tab = opt \<and> (tab_filter tab = None \<longleftrightarrow> o_filter_policy opt = None)"
proof -
  let ?F = "contents f" and ?n = "o_block_restart_interval opt"
  from img obtain mh ih x where foot: "?F = x @ Footer_EncodeTo [] \<lparr>metaindex_handle = mh, index_handle = ih\<rparr>"
    and ix: "stored_at port ?F ih (build_block 1 (index_of D))"
    and meta: "case o_filter_policy opt of
           None \<Rightarrow> stored_at port ?F mh (build_block ?n [])
         | Some p \<Rightarrow> \<exists>fh off. stored_at port ?F mh (build_block ?n [(filter_key opt, handle_bytes fh)]) \<and>
             stored_at port ?F fh (filter_block (fp_CreateFilter p) (key_blocks D @ [(off, [])])) \<and> offsets_ok ?F (key_blocks D @ [(off, [])])"
    unfolding table_image_def Let_def by blast
  let ?foot = "\<lparr>metaindex_handle = mh, index_handle = ih\<rparr>" and ?sz = "word_of_nat (length ?F) :: u64"
  have lx: "length ?F = length x + kEncodedLength" using arg_cong [OF foot, of length] by (simp add: Footer_length)
  have "unat ?sz = length ?F" using len by (simp add: unsigned_of_nat take_bit_nat_eq_self)
  with lx have sz: "unat ?sz = length x + kEncodedLength" by simp
  have "?sz - word_of_nat kEncodedLength = word_of_nat (length x)" using lx by simp
  then have off: "unat (?sz - word_of_nat kEncodedLength) = length x" using lx len by (simp add: unsigned_of_nat take_bit_nat_eq_self)
  obtain s d b f1 where r: "read f (?sz - word_of_nat kEncodedLength) kEncodedLength [] = (s, d, b, f1)" by (metis prod_cases4)
  from rfile.read_steady [OF f _ r] rfile.read_contents [OF r] lx off
  have d: "s = OK" "d = Footer_EncodeTo [] ?foot" "steady f1" "contents f1 = ?F"
    using foot Footer_length [of ?foot] by (simp_all add: lx)
  have dec: "Footer_DecodeFrom new_Footer d = (OK, ?foot, [])" using Footer_decode [of new_Footer ?foot "[]"] by (simp add: d(2))
  have "stored_at port (contents f1) ih (build_block 1 (index_of D))" "length (contents f1) < 2 ^ 63" using ix d(4) len by simp_all
  from rfile.ReadBlock_stored [OF this(1) d(3) this(2), of a "o_paranoid_checks opt"] obtain br f2 where
    br: "ReadBlock a read port (o_paranoid_checks opt) f1 ih = (OK, br, f2)" "bc_data br = build_block 1 (index_of D)" "steady f2"
      "contents f2 = ?F" using d(4) by auto
  define ic where "ic = (case cache of None \<Rightarrow> (0, None) | Some c \<Rightarrow> (case cache_NewId cops c of (i, c) \<Rightarrow> (i, Some c)))"
  let ?tab = "\<lparr>tab_options = opt, tab_file = f2, tab_cache = snd ic, cache_id = fst ic, tab_filter = None,
    tab_metaindex_handle = mh, tab_index_block = new_Block (build_block 1 (index_of D))\<rparr> :: ('f, 'c) Table"
  have cok: "cache_ok holds cvalid ?n D (fst ic) (snd ic)"
  proof (cases cache)
    case (Some c)
    obtain i c' where nid: "cache_NewId cops c = (i, c')" by fastforce
    have "fresh_id c" using cache Some by blast
    then have "cvalid c" "\<forall>h. holds c (cache_key i h) = None" by (simp_all add: fresh_id_def nid)
    with cache.newid_keeps [OF _ nid] have "cvalid c'" "\<forall>h. holds c' (cache_key i h) = None" by (metis option.distinct(1) not_None_eq)+
    then show ?thesis by (simp add: ic_def Some nid cache_ok_def)
  qed (simp add: ic_def cache_ok_def)
  have "\<exists>f flt. ReadMeta a read port ?foot ?tab = Some (?tab\<lparr>tab_file := f, tab_filter := flt\<rparr>) \<and> steady f \<and> contents f = contents (tab_file ?tab) \<and>
    filter_ok (tab_options ?tab) D flt \<and> (flt = None \<longleftrightarrow> o_filter_policy (tab_options ?tab) = None)"
    by (rule ReadMeta_opens [where n = ?n]) (use meta br(3,4) len opt(2) in \<open>simp_all split: option.splits\<close>)
  then obtain f3 flt where rm: "ReadMeta a read port ?foot ?tab = Some (?tab\<lparr>tab_file := f3, tab_filter := flt\<rparr>)" "steady f3" "contents f3 = ?F"
    "filter_ok opt D flt" "flt = None \<longleftrightarrow> o_filter_policy opt = None" using br(4) by auto
  have "Table_Open a read port cops opt f cache ?sz = Some (OK, Some (?tab\<lparr>tab_file := f3, tab_filter := flt\<rparr>))"
    using rm(1) by (simp add: Table_Open_def sz r d(1) dec br(1,2) Let_def split_beta ic_def [symmetric])
  moreover have "opened (?tab\<lparr>tab_file := f3, tab_filter := flt\<rparr>) D"
    using img rm(2-4) len opt cok stored_at_short [OF ix len] offsets_ok_sorted(2) [of ?F "key_blocks D"]
    by (simp add: table_ok_def table_image_def Let_def)
  ultimately show ?thesis using rm(5) by auto
qed

section \<open>Reading a table\<close>

lemma opened_index: "opened tab D \<Longrightarrow> any_pos valid cmp (index_of D) (length (index_of D)) (NewIterator (tab_index_block tab))"
proof -
  assume tab: "opened tab D"
  have "\<forall>(s, h, es) \<in> set D. es \<noteq> []" using opened_entry(4) [OF tab] by blast
  then have "ordered (index_of D)" using tab by (intro separated_index_ordered [of D "[]"]) (simp_all add: table_ok_def Let_def)
  moreover have "length (build_block 1 (index_of D)) < 2 ^ 32" "tab_index_block tab = new_Block (build_block 1 (index_of D))"
    using tab by (simp_all add: table_ok_def Let_def)
  ultimately show ?thesis using open_block_pos [of 1 "index_of D"] by simp
qed

lemma Table_NewIterator_pos:
  assumes "opened tab D"
  shows "two_pos describes (wrapper_pos (any_iterator cmp) (any_pos valid cmp)) (wrapper_pos (any_iterator cmp) (any_pos valid cmp))
    (entries_of D) (length (entries_of D)) (Table_NewIterator tab)"
proof -
  have "distinct (map fst (key_blocks D))" "o_Compare (tab_options tab) = cmp" using assms by (simp_all add: table_ok_def Let_def)
  moreover have "describes tab (index_of D) (block_contents D)" using assms by (auto simp: describes_def)
  note tables.new_two_level_pos [OF this opened_index [OF assms]]
  ultimately show ?thesis using all_entries_of [of D] by (simp add: Table_NewIterator_def)
qed

text \<open>The iterator of a table reads its entries, from the front, from the back and from any key.\<close>

lemma table_reads:
  assumes "opened tab D"
  shows "Option.bind (op_SeekToFirst (table_iterator a read port cops ropt cmp) (Table_NewIterator tab))
      (read_forward (table_iterator a read port cops ropt cmp)) = Some (entries_of D)"
    and "Option.bind (op_SeekToLast (table_iterator a read port cops ropt cmp) (Table_NewIterator tab))
      (read_backward (table_iterator a read port cops ropt cmp)) = Some (rev (entries_of D))"
    and "valid k \<Longrightarrow> Option.bind (op_Seek (table_iterator a read port cops ropt cmp) (Table_NewIterator tab) k)
      (read_forward (table_iterator a read port cops ropt cmp)) = Some (dropWhile (\<lambda>e. cmp (fst e) k < 0) (entries_of D))"
  using tables.two_level.read_all_forward [OF Table_NewIterator_pos [OF assms]]
    tables.two_level.read_all_backward [OF Table_NewIterator_pos [OF assms]]
    tables.two_level.read_from [OF Table_NewIterator_pos [OF assms]]
  by (simp_all add: table_iterator_def)

text \<open>Whether the filter excludes a key from a block.\<close>

definition excluded :: "('f, 'c) Table \<Rightarrow> BlockHandle \<Rightarrow> slice \<Rightarrow> bool" where
  "excluded tab h k \<longleftrightarrow> (case (tab_filter tab, o_filter_policy (tab_options tab)) of
     (Some r, Some p) \<Rightarrow> \<not> FilterBlockReader_KeyMayMatch (fp_KeyMayMatch p) r (h_offset h) k | _ \<Rightarrow> False)"

lemma InternalGet_beyond:
  assumes tab: "opened tab D" and k: "valid k" and j: "length (takeWhile (\<lambda>x. cmp (fst x) k < 0) (index_of D)) = length D"
  shows "InternalGet a read port cops ropt k tab = Some (OK, None, tab)"
proof -
  from any.Seek_pos [OF opened_index [OF tab] k] j obtain it where
    it: "op_Seek (any_iterator cmp) (NewIterator (tab_index_block tab)) k = Some it" "any_pos valid cmp (index_of D) (length D) it" by auto
  have "length (index_of D) = length D" by (simp add: index_of_def)
  with any.pos_valid [OF it(2)] any.pos_status [OF it(2)] it(1) tab show ?thesis
    by (simp add: InternalGet_def Let_def table_ok_def)
qed

lemma InternalGet_block:
  assumes tab: "opened tab D" and k: "valid k" and j: "length (takeWhile (\<lambda>x. cmp (fst x) k < 0) (index_of D)) = j"
    and D: "j < length D" "D ! j = (s, h, es)"
  shows "\<exists>tab'. InternalGet a read port cops ropt k tab = Some (OK,
      if excluded tab h k then None else find (\<lambda>e. \<not> cmp (fst e) k < 0) es, tab') \<and> opened tab' D"
proof -
  from any.Seek_pos [OF opened_index [OF tab] k] j obtain it where
    it: "op_Seek (any_iterator cmp) (NewIterator (tab_index_block tab)) k = Some it" "any_pos valid cmp (index_of D) j it" by auto
  have len: "j < length (index_of D)" "index_of D ! j = (s, handle_bytes h)" using D by (simp_all add: index_of_def)
  note v = any.pos_valid [OF it(2)] any.pos_status [OF it(2)] any.pos_entry [OF it(2) len(1)]
  have o: "o_Compare (tab_options tab) = cmp" using tab by (simp add: table_ok_def Let_def)
  have dec: "BlockHandle_DecodeFrom new_BlockHandle (handle_bytes h) = (OK, h, [])" using BlockHandle_decode [of new_BlockHandle h "[]"] by simp
  have mem: "(s, h, es) \<in> set D" using nth_mem [OF D(1)] D(2) by simp
  from BlockReader_opens [OF tab mem] obtain d f c where rd: "reader (handle_bytes h) tab = (d, tab\<lparr>tab_file := f, tab_cache := c\<rparr>)"
    "opened (tab\<lparr>tab_file := f, tab_cache := c\<rparr>) D" "any_pos valid cmp es (length es) d" by blast
  let ?l = "length (takeWhile (\<lambda>e. cmp (fst e) k < 0) es)"
  from any.Seek_pos [OF rd(3) k] obtain d' where d': "op_Seek (any_iterator cmp) d k = Some d'" "any_pos valid cmp es ?l d'" by blast
  have fnd: "find (\<lambda>e. \<not> cmp (fst e) k < 0) es = (if ?l < length es then Some (es ! ?l) else None)"
    by (induction es) auto
  show ?thesis
  proof (cases "excluded tab h k")
    case True
    with it(1) v len dec o have "InternalGet a read port cops ropt k tab = Some (OK, None, tab)"
      by (auto simp: InternalGet_def Let_def excluded_def split: option.splits)
    with True tab show ?thesis by auto
  next
    case False
    with it(1) v len dec o rd(1) d' any.pos_valid [OF d'(2)] any.pos_status [OF d'(2)] any.pos_entry [OF d'(2)] fnd
    have "InternalGet a read port cops ropt k tab = Some (OK, find (\<lambda>e. \<not> cmp (fst e) k < 0) es, tab\<lparr>tab_file := f, tab_cache := c\<rparr>)"
      by (auto simp: InternalGet_def Let_def excluded_def split: option.splits)
    with False rd(2) show ?thesis by auto
  qed
qed

lemma index_key_before:
  assumes "i < length (takeWhile (\<lambda>x. cmp (fst x) k < 0) (index_of D))"
  shows "cmp (fst (D ! i)) k < 0" "i < length D"
proof -
  have len: "length (index_of D) = length D" by (simp add: index_of_def)
  with assms length_takeWhile_le [of "\<lambda>x. cmp (fst x) k < 0" "index_of D"] show i: "i < length D" by simp
  from takeWhile_holds [OF assms] i show "cmp (fst (D ! i)) k < 0" by (simp add: index_of_def split_beta)
qed

lemma earlier_blocks:
  assumes tab: "opened tab D" and k: "valid k" and j: "j \<le> length (takeWhile (\<lambda>x. cmp (fst x) k < 0) (index_of D))"
    and e: "e \<in> set (entries_of (take j D))"
  shows "cmp (fst e) k < 0"
proof -
  from e obtain d where d: "d \<in> set (take j D)" "e \<in> set (snd (snd d))" by (auto simp: entries_of_def)
  then obtain i where i: "i < j" "i < length D" "D ! i = d" by (auto simp: in_set_conv_nth)
  then have lt: "cmp (fst d) k < 0" using index_key_before(1) [of i k D] j by simp
  obtain s h es where des: "d = (s, h, es)" by (cases d)
  have mem: "(s, h, es) \<in> set D" using i des nth_mem by metis
  have "cmp (fst e) s \<le> 0" "valid s" "valid (fst e)"
    using opened_entry(5,6) [OF tab mem] describes_valid [OF tab mem] d(2) des by auto
  from le_less_trans [OF this(3,2) k this(1)] lt show ?thesis by (simp add: des)
qed

text \<open>Whatever \<open>InternalGet\<close> reports is the first entry at or after the key.\<close>

lemma InternalGet_first:
  assumes tab: "opened tab D" and k: "valid k" and get: "InternalGet a read port cops ropt k tab = Some (s, Some e, tab')"
  shows "find (\<lambda>e. \<not> cmp (fst e) k < 0) (entries_of D) = Some e"
proof -
  define j where "j = length (takeWhile (\<lambda>x. cmp (fst x) k < 0) (index_of D))"
  have "j \<noteq> length D" using InternalGet_beyond [OF tab k] get by (auto simp: j_def)
  moreover have "j \<le> length D" using length_takeWhile_le [of _ "index_of D"] by (simp add: j_def index_of_def)
  ultimately have j: "j < length D" by simp
  obtain s' h es where d: "D ! j = (s', h, es)" by (cases "D ! j")
  from InternalGet_block [OF tab k j_def [symmetric] j d] get have es: "find (\<lambda>e. \<not> cmp (fst e) k < 0) es = Some e"
    by (auto split: if_splits)
  have "find (\<lambda>e. \<not> cmp (fst e) k < 0) (entries_of (take j D)) = None"
    unfolding find_None_iff j_def using earlier_blocks [OF tab k order_refl] by blast
  moreover have "entries_of D = entries_of (take j D) @ es @ entries_of (drop (Suc j) D)"
  proof -
    have "D = take j D @ (s', h, es) # drop (Suc j) D" using id_take_nth_drop [OF j] d by simp
    then have "entries_of D = entries_of (take j D @ (s', h, es) # drop (Suc j) D)" by simp
    then show ?thesis by (simp add: entries_of_def)
  qed
  ultimately show ?thesis using es by (simp add: find_in_append)
qed

text \<open>A key of the table is found. If there is a filter, its policy must keep its promise.\<close>

lemma InternalGet_present:
  assumes tab: "opened tab D" and kv: "(k, v) \<in> set (entries_of D)"
    and pol: "\<And>p. o_filter_policy (tab_options tab) = Some p \<Longrightarrow>
      filter_policy (fp_CreateFilter p) (fp_KeyMayMatch p) small \<and> small (map fst (entries_of D))"
  shows "\<exists>tab'. InternalGet a read port cops ropt k tab = Some (OK, Some (k, v), tab') \<and> opened tab' D"
proof -
  from kv obtain d where d: "d \<in> set D" "(k, v) \<in> set (snd (snd d))" by (auto simp: entries_of_def)
  then obtain b where b: "b < length D" "D ! b = d" by (auto simp: in_set_conv_nth)
  obtain s h es where des: "d = (s, h, es)" by (cases d)
  have mem: "(s, h, es) \<in> set D" "(k, v) \<in> set es" using d des by simp_all
  have k: "valid k" using describes_valid [OF tab mem] by simp
  have ks: "cmp k s \<le> 0" "valid s" using opened_entry(5,6) [OF tab mem(1)] mem(2) by auto
  define j where "j = length (takeWhile (\<lambda>x. cmp (fst x) k < 0) (index_of D))"
  have "\<not> b < j"
  proof
    assume "b < j"
    then have "cmp s k < 0" using index_key_before(1) [of b k D] b des by (simp add: j_def)
    with le_less_trans [OF k ks(2) k ks(1)] cmp_irrefl [OF k] show False by blast
  qed
  moreover have "\<not> j < b"
  proof
    assume jb: "j < b"
    have "j < length (index_of D)" using jb b(1) by (simp add: index_of_def)
    then have "\<not> cmp (fst (D ! j)) k < 0"
      using nth_length_takeWhile [of "\<lambda>x. cmp (fst x) k < 0" "index_of D"] by (simp add: j_def index_of_def split_beta)
    moreover have "cmp (fst (D ! j)) (fst (k, v)) < 0"
      using separated_later [of valid cmp D "[]" j b "(k, v)"] tab jb b des mem(2) by (simp add: table_ok_def Let_def)
    ultimately show False by simp
  qed
  ultimately have jb: "j = b" by simp
  have "\<not> excluded tab h k"
  proof -
    have "FilterBlockReader_KeyMayMatch (fp_KeyMayMatch p) r (h_offset h) k"
      if r: "tab_filter tab = Some r" and p: "o_filter_policy (tab_options tab) = Some p" for r p
    proof -
      have "filter_ok (tab_options tab) D (Some r)" using tab r by (simp add: table_ok_def Let_def)
      then obtain off where off: "r = new_FilterBlockReader (filter_block (fp_CreateFilter p) (key_blocks D @ [(off, [])]))"
        "length (filter_block (fp_CreateFilter p) (key_blocks D @ [(off, [])])) < 2 ^ 32" "sorted (map (unat \<circ> fst) (key_blocks D @ [(off, [])]))"
        using p by (auto simp: filter_ok_def)
      have "concat (map snd (key_blocks D @ [(off, [])])) = map fst (entries_of D)"
        by (simp add: key_blocks_def entries_of_def map_concat split_beta comp_def)
      moreover have "(h_offset h, map fst es) \<in> set (key_blocks D @ [(off, [])])" using mem(1) by (force simp: key_blocks_def)
      moreover have "k \<in> set (map fst es)" using mem(2) by force
      ultimately show ?thesis
        using filter_policy.filter_block_matches [OF conjunct1 [OF pol [OF p]] off(3,2)] pol [OF p] off(1) by (metis fst_conv snd_conv)
    qed
    then show ?thesis by (auto simp: excluded_def split: option.splits)
  qed
  moreover have "find (\<lambda>e. \<not> cmp (fst e) k < 0) es = Some (k, v)"
  proof -
    from split_list [OF mem(2)] obtain x y where es: "es = x @ (k, v) # y" by blast
    have "ordered es" by (rule opened_entry(3) [OF tab mem(1)])
    then have "\<forall>e \<in> set x. cmp (fst e) k < 0" by (simp add: es sorted_wrt_append)
    then have "find (\<lambda>e. \<not> cmp (fst e) k < 0) x = None" unfolding find_None_iff by blast
    with cmp_irrefl [OF k] show ?thesis by (simp add: es find_in_append)
  qed
  ultimately show ?thesis
    using InternalGet_block [OF tab k j_def [symmetric]] jb b des by auto
qed

end

end
