(* ===== verification/Ldb_Cache.thy ===== *)
theory Ldb_Cache
  imports Ldb_Bloom "HOL-Library.Multiset"
begin

unbundle bit_operations_syntax

text \<open>
  \<open>leveldb/util/cache.cc\<close>: the cache of blocks and open tables. Handles are allocated on a heap; the chains of the hash table and
  the two circular lists are lists of handles, the order of a circular list starting behind its dummy head. Mutexes only
  serialise the operations. The proofs are in \<open>Ldb_Cache_Proofs\<close>.
\<close>

section \<open>Handles\<close>

type_synonym handle = nat

record 'v LRUHandle =
  lh_value :: 'v
  lh_key :: slice
  lh_charge :: nat
  in_cache :: bool
  refs :: nat
  lh_hash :: u32

type_synonym 'v handles = "handle \<Rightarrow> 'v LRUHandle option"

definition is_entry :: "'v handles \<Rightarrow> slice \<Rightarrow> u32 \<Rightarrow> handle \<Rightarrow> bool" where
  "is_entry hp key hash p = (case hp p of None \<Rightarrow> False | Some e \<Rightarrow> lh_hash e = hash \<and> lh_key e = key)"

section \<open>\<open>HandleTable\<close>\<close>

text \<open>\<open>length_\<close> is the number of buckets.\<close>

record HandleTable =
  elems :: nat
  buckets :: "handle list list"

definition bucket_of :: "u32 \<Rightarrow> nat \<Rightarrow> nat" where
  "bucket_of hash len = unat (hash AND (word_of_nat len - 1))"

text \<open>\<open>FindPointer\<close>: the bucket and the place in its chain, which is its end if there is no such entry.\<close>

definition FindPointer :: "'v handles \<Rightarrow> slice \<Rightarrow> u32 \<Rightarrow> HandleTable \<Rightarrow> nat \<times> nat" where
  "FindPointer hp key hash t =
     (let b = bucket_of hash (length (buckets t))
      in (b, length (takeWhile (\<lambda>p. \<not> is_entry hp key hash p) (buckets t ! b))))"

definition at_pointer :: "HandleTable \<Rightarrow> nat \<times> nat \<Rightarrow> handle option" where
  "at_pointer t ptr = (if snd ptr < length (buckets t ! fst ptr) then Some (buckets t ! fst ptr ! snd ptr) else None)"

definition HandleTable_Lookup :: "'v handles \<Rightarrow> slice \<Rightarrow> u32 \<Rightarrow> HandleTable \<Rightarrow> handle option" where
  "HandleTable_Lookup hp key hash t = at_pointer t (FindPointer hp key hash t)"

function grow_length :: "nat \<Rightarrow> nat \<Rightarrow> nat" where
  "grow_length new_length n = (if 0 < new_length \<and> new_length < n then grow_length (new_length * 2) n else new_length)"
  by pat_completeness auto
termination by (relation "measure (\<lambda>(l, n). n - l)") auto

declare grow_length.simps [simp del]

definition push_bucket :: "'v handles \<Rightarrow> handle list list \<Rightarrow> handle \<Rightarrow> handle list list" where
  "push_bucket hp l p = (let b = bucket_of (lh_hash (the (hp p))) (length l) in l[b := p # l ! b])"

definition Resize :: "'v handles \<Rightarrow> HandleTable \<Rightarrow> HandleTable" where
  "Resize hp t =
     (let new_length = grow_length 4 (elems t)
      in t\<lparr>buckets := foldl (push_bucket hp) (replicate new_length []) (concat (buckets t))\<rparr>)"

definition new_HandleTable :: HandleTable where
  "new_HandleTable = \<lparr>elems = 0, buckets = replicate 4 []\<rparr>"

definition HandleTable_Insert :: "'v handles \<Rightarrow> handle \<Rightarrow> HandleTable \<Rightarrow> handle option \<times> HandleTable" where
  "HandleTable_Insert hp p t =
     (let e = the (hp p);
          (b, i) = FindPointer hp (lh_key e) (lh_hash e) t;
          chain = buckets t ! b
      in if i < length chain then (Some (chain ! i), t\<lparr>buckets := (buckets t)[b := chain[i := p]]\<rparr>)
         else
           let t = t\<lparr>buckets := (buckets t)[b := chain @ [p]], elems := elems t + 1\<rparr>
           in (None, if elems t > length (buckets t) then Resize hp t else t))"

definition HandleTable_Remove :: "'v handles \<Rightarrow> slice \<Rightarrow> u32 \<Rightarrow> HandleTable \<Rightarrow> handle option \<times> HandleTable" where
  "HandleTable_Remove hp key hash t =
     (let (b, i) = FindPointer hp key hash t; chain = buckets t ! b
      in if i < length chain
         then (Some (chain ! i), t\<lparr>buckets := (buckets t)[b := take i chain @ drop (Suc i) chain], elems := elems t - 1\<rparr>)
         else (None, t))"

section \<open>\<open>LRUCache\<close>\<close>

text \<open>\<open>next_handle\<close> is where \<open>malloc\<close> places the next handle; \<open>deleted\<close> records the calls of the deleters.\<close>

record 'v LRUCache =
  capacity :: nat
  usage :: nat
  lru :: "handle list"
  in_use :: "handle list"
  table :: HandleTable
  hp :: "'v handles"
  next_handle :: handle
  deleted :: "(slice \<times> 'v) list"

definition new_LRUCache :: "nat \<Rightarrow> 'v LRUCache" where
  "new_LRUCache cap =
     \<lparr>capacity = cap, usage = 0, lru = [], in_use = [], table = new_HandleTable, hp = (\<lambda>_. None), next_handle = 0, deleted = []\<rparr>"

definition LRU_Remove :: "handle \<Rightarrow> 'v LRUCache \<Rightarrow> 'v LRUCache" where
  "LRU_Remove p c = c\<lparr>lru := remove1 p (lru c), in_use := remove1 p (in_use c)\<rparr>"

definition set_refs :: "handle \<Rightarrow> nat \<Rightarrow> 'v LRUCache \<Rightarrow> 'v LRUCache" where
  "set_refs p n c = c\<lparr>hp := (hp c)(p := map_option (\<lambda>e. e\<lparr>refs := n\<rparr>) (hp c p))\<rparr>"

definition Ref :: "handle \<Rightarrow> 'v LRUCache \<Rightarrow> 'v LRUCache" where
  "Ref p c =
     (let e = the (hp c p);
          c = (if refs e = 1 \<and> in_cache e then (let c = LRU_Remove p c in c\<lparr>in_use := in_use c @ [p]\<rparr>) else c)
      in set_refs p (refs e + 1) c)"

definition Unref :: "handle \<Rightarrow> 'v LRUCache \<Rightarrow> 'v LRUCache" where
  "Unref p c =
     (let e = the (hp c p);
          n = refs e - 1;
          c = set_refs p n c
      in if n = 0 then c\<lparr>deleted := deleted c @ [(lh_key e, lh_value e)], hp := (hp c)(p := None)\<rparr>
         else if in_cache e \<and> n = 1 then (let c = LRU_Remove p c in c\<lparr>lru := lru c @ [p]\<rparr>)
         else c)"

definition LRUCache_Lookup :: "slice \<Rightarrow> u32 \<Rightarrow> 'v LRUCache \<Rightarrow> handle option \<times> 'v LRUCache" where
  "LRUCache_Lookup key hash c =
     (case HandleTable_Lookup (hp c) key hash (table c) of None \<Rightarrow> (None, c) | Some p \<Rightarrow> (Some p, Ref p c))"

definition LRUCache_Release :: "handle \<Rightarrow> 'v LRUCache \<Rightarrow> 'v LRUCache" where
  "LRUCache_Release p c = Unref p c"

definition FinishErase :: "handle option \<Rightarrow> 'v LRUCache \<Rightarrow> 'v LRUCache" where
  "FinishErase x c =
     (case x of None \<Rightarrow> c
      | Some p \<Rightarrow>
          let e = the (hp c p);
              c = LRU_Remove p c;
              c = c\<lparr>hp := (hp c)(p \<mapsto> e\<lparr>in_cache := False\<rparr>), usage := usage c - lh_charge e\<rparr>
          in Unref p c)"

definition erase_entry :: "slice \<Rightarrow> u32 \<Rightarrow> 'v LRUCache \<Rightarrow> 'v LRUCache" where
  "erase_entry key hash c =
     (let (x, t) = HandleTable_Remove (hp c) key hash (table c) in FinishErase x (c\<lparr>table := t\<rparr>))"

text \<open>The loop at the end of \<open>Insert\<close>, and that of \<open>Prune\<close>: they end only if the entry that is erased leaves the list.\<close>

partial_function (option) evict :: "('v LRUCache \<Rightarrow> bool) \<Rightarrow> 'v LRUCache \<Rightarrow> 'v LRUCache option" where
  "evict cond c =
     (if cond c \<and> lru c \<noteq> []
      then let e = the (hp c (hd (lru c))) in evict cond (erase_entry (lh_key e) (lh_hash e) c)
      else Some c)"

definition LRUCache_Insert :: "slice \<Rightarrow> u32 \<Rightarrow> 'v \<Rightarrow> nat \<Rightarrow> 'v LRUCache \<Rightarrow> (handle \<times> 'v LRUCache) option" where
  "LRUCache_Insert key hash val charge c =
     (let p = next_handle c;
          e = \<lparr>lh_value = val, lh_key = key, lh_charge = charge, in_cache = False, refs = 1, lh_hash = hash\<rparr>;
          c = c\<lparr>hp := (hp c)(p \<mapsto> e), next_handle := p + 1\<rparr>;
          c = (if capacity c > 0 then
                 let c = c\<lparr>hp := (hp c)(p \<mapsto> e\<lparr>refs := 2, in_cache := True\<rparr>), in_use := in_use c @ [p], usage := usage c + charge\<rparr>;
                     (old, t) = HandleTable_Insert (hp c) p (table c)
                 in FinishErase old (c\<lparr>table := t\<rparr>)
               else c)
      in map_option (\<lambda>c. (p, c)) (evict (\<lambda>c. usage c > capacity c) c))"

definition LRUCache_Erase :: "slice \<Rightarrow> u32 \<Rightarrow> 'v LRUCache \<Rightarrow> 'v LRUCache" where
  "LRUCache_Erase key hash c = erase_entry key hash c"

definition LRUCache_Prune :: "'v LRUCache \<Rightarrow> 'v LRUCache option" where
  "LRUCache_Prune c = evict (\<lambda>_. True) c"

section \<open>\<open>ShardedLRUCache\<close>\<close>

definition kNumShardBits :: nat where
  "kNumShardBits = 4"

definition kNumShards :: nat where
  "kNumShards = 2 ^ kNumShardBits"

text \<open>A handle of the sharded cache is its shard and its handle there.\<close>

record 'v ShardedLRUCache =
  shards :: "'v LRUCache list"
  last_id :: u64

definition HashSlice :: "slice \<Rightarrow> u32" where
  "HashSlice s = Hash s 0"

definition Shard :: "u32 \<Rightarrow> nat" where
  "Shard hash = unat (drop_bit (32 - kNumShardBits) hash)"

definition NewLRUCache :: "nat \<Rightarrow> 'v ShardedLRUCache" where
  "NewLRUCache cap =
     \<lparr>shards = replicate kNumShards (new_LRUCache ((cap + (kNumShards - 1)) div kNumShards)), last_id = 0\<rparr>"

definition Sharded_Insert :: "slice \<Rightarrow> 'v \<Rightarrow> nat \<Rightarrow> 'v ShardedLRUCache \<Rightarrow> ((nat \<times> handle) \<times> 'v ShardedLRUCache) option" where
  "Sharded_Insert key val charge c =
     (let hash = HashSlice key; i = Shard hash
      in map_option (\<lambda>(p, s). ((i, p), c\<lparr>shards := (shards c)[i := s]\<rparr>)) (LRUCache_Insert key hash val charge (shards c ! i)))"

definition Sharded_Lookup :: "slice \<Rightarrow> 'v ShardedLRUCache \<Rightarrow> (nat \<times> handle) option \<times> 'v ShardedLRUCache" where
  "Sharded_Lookup key c =
     (let hash = HashSlice key; i = Shard hash;
          (p, s) = LRUCache_Lookup key hash (shards c ! i)
      in (map_option (\<lambda>p. (i, p)) p, c\<lparr>shards := (shards c)[i := s]\<rparr>))"

definition Sharded_Release :: "nat \<times> handle \<Rightarrow> 'v ShardedLRUCache \<Rightarrow> 'v ShardedLRUCache" where
  "Sharded_Release h c = c\<lparr>shards := (shards c)[fst h := LRUCache_Release (snd h) (shards c ! fst h)]\<rparr>"

definition Sharded_Erase :: "slice \<Rightarrow> 'v ShardedLRUCache \<Rightarrow> 'v ShardedLRUCache" where
  "Sharded_Erase key c =
     (let hash = HashSlice key; i = Shard hash in c\<lparr>shards := (shards c)[i := LRUCache_Erase key hash (shards c ! i)]\<rparr>)"

definition Sharded_Value :: "nat \<times> handle \<Rightarrow> 'v ShardedLRUCache \<Rightarrow> 'v" where
  "Sharded_Value h c = lh_value (the (hp (shards c ! fst h) (snd h)))"

definition NewId :: "'v ShardedLRUCache \<Rightarrow> u64 \<times> 'v ShardedLRUCache" where
  "NewId c = (last_id c + 1, c\<lparr>last_id := last_id c + 1\<rparr>)"

definition Sharded_Prune :: "'v ShardedLRUCache \<Rightarrow> 'v ShardedLRUCache option" where
  "Sharded_Prune c = map_option (\<lambda>s. c\<lparr>shards := s\<rparr>) (those (map LRUCache_Prune (shards c)))"

definition TotalCharge :: "'v ShardedLRUCache \<Rightarrow> nat" where
  "TotalCharge c = sum_list (map usage (shards c))"

end
