(* ===== verification/Ldb_Cache_Proofs.thy ===== *)
theory Ldb_Cache_Proofs
  imports Ldb_Cache
begin

unbundle bit_operations_syntax

text \<open>
  The cache is correct. The invariants of the hash table and of a shard are kept by every operation; the loops end;
  after an insertion the usage is within the capacity unless everything is in use; and lookups follow the insertions.
\<close>

section \<open>Buckets\<close>

lemma bucket_less:
  assumes "0 < len"
  shows "bucket_of hash len < len"
proof -
  have "unat (hash AND (word_of_nat len - 1)) \<le> unat (word_of_nat len - 1 :: u32)"
    using word_and_le1 [of hash "word_of_nat len - 1"] by (simp add: word_le_nat_alt)
  also have "\<dots> < len"
  proof (cases "len \<le> 2 ^ 32")
    case True
    have "(word_of_nat len - 1 :: u32) = word_of_nat (len - 1)" using assms by (simp add: of_nat_diff)
    moreover have "unat (word_of_nat (len - 1) :: u32) \<le> len - 1" by (simp add: unsigned_of_nat take_bit_nat_less_eq_self)
    ultimately show ?thesis using assms by simp
  next
    case False
    have "unat (word_of_nat len - 1 :: u32) < 2 ^ 32" using unsigned_less [of "word_of_nat len - 1 :: u32", where 'a = nat] by simp
    with False show ?thesis by simp
  qed
  finally show ?thesis by (simp add: bucket_of_def)
qed

definition chains_ok :: "'v handles \<Rightarrow> handle list list \<Rightarrow> bool" where
  "chains_ok h bs \<longleftrightarrow> 0 < length bs \<and>
     (\<forall>b < length bs. \<forall>p \<in> set (bs ! b). \<exists>e. h p = Some e \<and> bucket_of (lh_hash e) (length bs) = b)"

text \<open>No two entries have the same key and hash.\<close>

definition unique_entries :: "'v handles \<Rightarrow> handle set \<Rightarrow> bool" where
  "unique_entries h P \<longleftrightarrow> (\<forall>p \<in> P. \<forall>q \<in> P. \<forall>key hash. is_entry h key hash p \<longrightarrow> is_entry h key hash q \<longrightarrow> p = q)"

definition entries_in :: "HandleTable \<Rightarrow> handle list" where
  "entries_in t = concat (buckets t)"

definition table_inv :: "'v handles \<Rightarrow> HandleTable \<Rightarrow> bool" where
  "table_inv h t \<longleftrightarrow> chains_ok h (buckets t) \<and> elems t = length (entries_in t) \<and> distinct (entries_in t) \<and>
     unique_entries h (set (entries_in t))"

lemma in_entries: "p \<in> set (entries_in t) \<longleftrightarrow> (\<exists>b < length (buckets t). p \<in> set (buckets t ! b))"
  by (auto simp: entries_in_def in_set_conv_nth) (metis nth_mem)+

lemma mset_concat_update:
  "b < length bs \<Longrightarrow> mset (concat (bs[b := xs])) + mset (bs ! b) = mset (concat bs) + mset xs"
proof (induction bs arbitrary: b)
  case (Cons y ys)
  then show ?case by (cases b) (auto simp: ac_simps)
qed simp

lemma mset_exchange:
  assumes "M + C = E + add_mset p (C - {#q#})" and "q \<in># C" and "q \<in># E"
  shows "M = add_mset p (E - {#q#})"
proof -
  obtain C' E' where "C = add_mset q C'" "E = add_mset q E'" using assms(2,3) by (metis multi_member_split)
  with assms(1) show ?thesis by simp
qed

lemma FindPointer_bucket: "table_inv h t \<Longrightarrow> fst (FindPointer h key hash t) < length (buckets t)"
  using bucket_less by (auto simp: FindPointer_def Let_def table_inv_def chains_ok_def)

lemma entry_in_bucket:
  assumes "table_inv h t" and "p \<in> set (entries_in t)" and "is_entry h key hash p"
  shows "p \<in> set (buckets t ! fst (FindPointer h key hash t))"
proof -
  from assms(2) obtain b where b: "b < length (buckets t)" "p \<in> set (buckets t ! b)" by (auto simp: in_entries)
  with assms(1) obtain e where "h p = Some e" "bucket_of (lh_hash e) (length (buckets t)) = b"
    by (auto simp: table_inv_def chains_ok_def)
  with assms(3) b show ?thesis by (auto simp: FindPointer_def Let_def is_entry_def)
qed

lemma is_entry_fun: "is_entry h k x p \<Longrightarrow> is_entry h k' x' p \<Longrightarrow> k = k' \<and> x = x'"
  by (auto simp: is_entry_def split: option.splits)

lemma entry_unique:
  "table_inv h t \<Longrightarrow> p \<in> set (entries_in t) \<Longrightarrow> q \<in> set (entries_in t) \<Longrightarrow> is_entry h k x p \<Longrightarrow> is_entry h k x q \<Longrightarrow> p = q"
  unfolding table_inv_def unique_entries_def by blast

lemma at_pointer_entry:
  assumes "table_inv h t"
  shows "at_pointer t (FindPointer h key hash t) = Some p \<longleftrightarrow> p \<in> set (entries_in t) \<and> is_entry h key hash p"
proof -
  let ?b = "fst (FindPointer h key hash t)" and ?i = "snd (FindPointer h key hash t)"
  let ?chain = "buckets t ! ?b"
  have i: "?i = length (takeWhile (\<lambda>p. \<not> is_entry h key hash p) ?chain)" by (simp add: FindPointer_def Let_def)
  have hit: "is_entry h key hash (?chain ! ?i)" "?chain ! ?i \<in> set (entries_in t)" if "?i < length ?chain"
  proof -
    show "is_entry h key hash (?chain ! ?i)" using nth_length_takeWhile [of "\<lambda>p. \<not> is_entry h key hash p" ?chain] that i by simp
    show "?chain ! ?i \<in> set (entries_in t)" using FindPointer_bucket [OF assms] that unfolding in_entries by (metis nth_mem)
  qed
  show ?thesis
  proof
    assume "at_pointer t (FindPointer h key hash t) = Some p"
    with hit show "p \<in> set (entries_in t) \<and> is_entry h key hash p" by (auto simp: at_pointer_def split: if_splits)
  next
    assume p: "p \<in> set (entries_in t) \<and> is_entry h key hash p"
    then have "p \<in> set ?chain" using entry_in_bucket [OF assms] by blast
    then have "?i < length ?chain" using p i by (metis (mono_tags, lifting) length_takeWhile_le nat_less_le set_takeWhileD takeWhile_eq_take take_all_iff order_refl)
    moreover have "?chain ! ?i = p"
      using hit [OF calculation] p assms unfolding table_inv_def unique_entries_def by blast
    ultimately show "at_pointer t (FindPointer h key hash t) = Some p" by (simp add: at_pointer_def)
  qed
qed

lemma HandleTable_Lookup_entry:
  "table_inv h t \<Longrightarrow> HandleTable_Lookup h key hash t = Some p \<longleftrightarrow> p \<in> set (entries_in t) \<and> is_entry h key hash p"
  by (simp add: HandleTable_Lookup_def at_pointer_entry)

lemma HandleTable_Lookup_None:
  "table_inv h t \<Longrightarrow> HandleTable_Lookup h key hash t = None \<longleftrightarrow> (\<forall>p \<in> set (entries_in t). \<not> is_entry h key hash p)"
  using HandleTable_Lookup_entry by (metis not_None_eq)

section \<open>Resizing\<close>

lemma push_bucket_ok:
  assumes "chains_ok h bs" and "h p = Some e"
  shows "chains_ok h (push_bucket h bs p)" "mset (concat (push_bucket h bs p)) = add_mset p (mset (concat bs))"
    "length (push_bucket h bs p) = length bs"
proof -
  let ?b = "bucket_of (lh_hash e) (length bs)"
  have b: "?b < length bs" using assms(1) bucket_less by (simp add: chains_ok_def)
  have push: "push_bucket h bs p = bs[?b := p # bs ! ?b]" by (simp add: push_bucket_def assms(2) Let_def)
  show "length (push_bucket h bs p) = length bs" by (simp add: push)
  show "chains_ok h (push_bucket h bs p)"
    using assms b by (auto simp: push chains_ok_def nth_list_update)
  show "mset (concat (push_bucket h bs p)) = add_mset p (mset (concat bs))"
    using mset_concat_update [OF b, of "p # bs ! ?b"] by (simp add: push)
qed

lemma push_all:
  "chains_ok h bs \<Longrightarrow> \<forall>p \<in> set ps. \<exists>e. h p = Some e \<Longrightarrow>
     chains_ok h (foldl (push_bucket h) bs ps) \<and> mset (concat (foldl (push_bucket h) bs ps)) = mset (concat bs) + mset ps"
proof (induction ps arbitrary: bs)
  case (Cons p ps)
  then obtain e where "h p = Some e" by auto
  note push = push_bucket_ok [OF Cons.prems(1) this]
  from Cons.IH [OF push(1)] Cons.prems(2) push(2) show ?case by simp
qed simp

lemma grow_length_ge: "4 \<le> l \<Longrightarrow> 4 \<le> grow_length l n"
  by (induction l n rule: grow_length.induct) (subst grow_length.simps, simp)

lemma same_entries:
  assumes "mset (entries_in t') = mset (entries_in t)"
  shows "set (entries_in t') = set (entries_in t)" "length (entries_in t') = length (entries_in t)"
    "distinct (entries_in t') = distinct (entries_in t)"
  using mset_eq_setD [OF assms] mset_eq_length [OF assms] mset_eq_imp_distinct_iff [OF assms] by simp_all

lemma entries_known: "table_inv h t \<Longrightarrow> p \<in> set (entries_in t) \<Longrightarrow> \<exists>e. h p = Some e"
  by (auto simp: in_entries table_inv_def chains_ok_def)

lemma Resize_inv:
  assumes "table_inv h t"
  shows "table_inv h (Resize h t)" "mset (entries_in (Resize h t)) = mset (entries_in t)"
proof -
  let ?bs = "replicate (grow_length 4 (elems t)) []"
  have "chains_ok h ?bs" using grow_length_ge [of 4 "elems t"] by (auto simp: chains_ok_def)
  from push_all [OF this, of "entries_in t"] entries_known [OF assms]
  have p: "chains_ok h (buckets (Resize h t))" "mset (entries_in (Resize h t)) = mset (entries_in t)"
    by (simp_all add: Resize_def entries_in_def Let_def)
  show "mset (entries_in (Resize h t)) = mset (entries_in t)" by (rule p(2))
  from p(1) same_entries [OF p(2)] assms show "table_inv h (Resize h t)" by (simp add: table_inv_def Resize_def Let_def)
qed

section \<open>Insertion into and removal from the table\<close>

lemma table_inv_new: "table_inv h new_HandleTable"
  by (auto simp: table_inv_def new_HandleTable_def entries_in_def chains_ok_def unique_entries_def)

lemma table_inv_add:
  assumes "table_inv h t" and "chains_ok h (buckets t')" and "mset (entries_in t') = mset (p # ps)" and "distinct ps"
    and "set ps \<subseteq> set (entries_in t)" and "p \<notin> set ps" and "h p = Some e" and "\<forall>q \<in> set ps. \<not> is_entry h (lh_key e) (lh_hash e) q"
    and "elems t' = Suc (length ps)"
  shows "table_inv h t'"
proof -
  note m = mset_eq_setD [OF assms(3)] mset_eq_length [OF assms(3)] mset_eq_imp_distinct_iff [OF assms(3)]
  have "\<not> is_entry h key hash q" if "q \<in> set ps" "is_entry h key hash p" for q key hash
    using assms(7,8) that by (auto simp: is_entry_def)
  then have "unique_entries h (set (p # ps))"
    using assms(1,5) unfolding unique_entries_def table_inv_def by (metis set_ConsD subset_iff)
  with assms m show ?thesis by (simp add: table_inv_def)
qed

lemma chains_ok_update:
  assumes "chains_ok h bs"
    and "\<And>p. p \<in> set xs \<Longrightarrow> p \<in> set (bs ! b) \<or> (\<exists>e. h p = Some e \<and> bucket_of (lh_hash e) (length bs) = b)"
  shows "chains_ok h (bs[b := xs])"
proof -
  have "\<exists>e. h p = Some e \<and> bucket_of (lh_hash e) (length bs) = i" if "i < length bs" "p \<in> set (bs[b := xs] ! i)" for i p
  proof (cases "i = b")
    case True
    with that have "p \<in> set xs" by simp
    from assms(2) [OF this] True that(1) assms(1) show ?thesis unfolding chains_ok_def by blast
  next
    case False
    with that assms(1) show ?thesis unfolding chains_ok_def by simp
  qed
  with assms(1) show ?thesis unfolding chains_ok_def by simp
qed

lemma HandleTable_Insert_inv:
  assumes inv: "table_inv h t" and p: "h p = Some e" "p \<notin> set (entries_in t)" and ins: "HandleTable_Insert h p t = (old, t')"
  shows "table_inv h t'" "old = HandleTable_Lookup h (lh_key e) (lh_hash e) t"
    "mset (entries_in t') = mset (p # (case old of None \<Rightarrow> entries_in t | Some q \<Rightarrow> remove1 q (entries_in t)))"
proof -
  obtain b i where ptr: "FindPointer h (lh_key e) (lh_hash e) t = (b, i)" by fastforce
  let ?chain = "buckets t ! b" and ?bs = "buckets t"
  have b: "b < length ?bs" "bucket_of (lh_hash e) (length ?bs) = b"
    using FindPointer_bucket [OF inv, of "lh_key e" "lh_hash e"] ptr by (auto simp: FindPointer_def Let_def)
  have ok: "chains_ok h ?bs" and d: "distinct (entries_in t)" and n: "elems t = length (entries_in t)"
    using inv by (simp_all add: table_inv_def)
  have "table_inv h t' \<and> old = HandleTable_Lookup h (lh_key e) (lh_hash e) t \<and>
    mset (entries_in t') = mset (p # (case old of None \<Rightarrow> entries_in t | Some q \<Rightarrow> remove1 q (entries_in t)))"
  proof (cases "i < length ?chain")
    case True
    let ?q = "?chain ! i"
    have r: "old = Some ?q" "t' = t\<lparr>buckets := ?bs[b := ?chain[i := p]]\<rparr>"
      using ins True by (simp_all add: HandleTable_Insert_def p ptr Let_def)
    have look: "HandleTable_Lookup h (lh_key e) (lh_hash e) t = Some ?q" using True by (simp add: HandleTable_Lookup_def ptr at_pointer_def)
    then have q: "?q \<in> set (entries_in t)" "is_entry h (lh_key e) (lh_hash e) ?q" using HandleTable_Lookup_entry [OF inv] by simp_all
    have "mset (entries_in t') + mset ?chain = mset (entries_in t) + add_mset p (mset ?chain - {#?q#})"
      using mset_concat_update [OF b(1), of "?chain[i := p]"] by (simp add: r entries_in_def mset_update [OF True])
    from mset_exchange [OF this] q(1) True have m: "mset (entries_in t') = mset (p # remove1 ?q (entries_in t))" by simp
    have "chains_ok h (?bs[b := ?chain[i := p]])"
      by (rule chains_ok_update [OF ok]) (use p(1) b(2) set_update_subset_insert [of ?chain i p] in auto)
    then have "table_inv h t'"
    proof (intro table_inv_add [OF inv _ m])
      show "\<forall>r \<in> set (remove1 ?q (entries_in t)). \<not> is_entry h (lh_key e) (lh_hash e) r"
        using q inv d unfolding table_inv_def unique_entries_def by (metis set_remove1_eq DiffE singletonI)
      show "elems t' = Suc (length (remove1 ?q (entries_in t)))"
        using q(1) n by (simp add: r length_remove1) (metis Suc_pred length_pos_if_in_set)
    qed (use p d in \<open>auto simp: r distinct_remove1 dest: notin_set_remove1 set_remove1_subset [THEN subsetD]\<close>)
    with m look r(1) show ?thesis by simp
  next
    case False
    let ?t = "t\<lparr>buckets := ?bs[b := ?chain @ [p]], elems := elems t + 1\<rparr>"
    have r: "old = None" "t' = ?t \<or> t' = Resize h ?t" using ins False by (auto simp: HandleTable_Insert_def p ptr Let_def split: if_splits)
    have look: "HandleTable_Lookup h (lh_key e) (lh_hash e) t = None" using False by (simp add: HandleTable_Lookup_def ptr at_pointer_def)
    have m: "mset (entries_in ?t) = mset (p # entries_in t)"
      using mset_concat_update [OF b(1), of "?chain @ [p]"] by (simp add: entries_in_def)
    have "chains_ok h (?bs[b := ?chain @ [p]])" by (rule chains_ok_update [OF ok]) (use p(1) b(2) in auto)
    then have inv': "table_inv h ?t"
      using HandleTable_Lookup_None [OF inv] look p d n by (intro table_inv_add [OF inv _ m]) auto
    from Resize_inv [OF inv'] m r(2) inv' have "table_inv h t'" "mset (entries_in t') = mset (p # entries_in t)" by auto
    with look r(1) show ?thesis by simp
  qed
  then show "table_inv h t'" "old = HandleTable_Lookup h (lh_key e) (lh_hash e) t"
    "mset (entries_in t') = mset (p # (case old of None \<Rightarrow> entries_in t | Some q \<Rightarrow> remove1 q (entries_in t)))" by blast+
qed

lemma HandleTable_Remove_inv:
  assumes inv: "table_inv h t" and rem: "HandleTable_Remove h key hash t = (x, t')"
  shows "table_inv h t'" "x = HandleTable_Lookup h key hash t"
    "mset (entries_in t') = mset (case x of None \<Rightarrow> entries_in t | Some q \<Rightarrow> remove1 q (entries_in t))"
proof -
  obtain b i where ptr: "FindPointer h key hash t = (b, i)" by fastforce
  let ?chain = "buckets t ! b" and ?bs = "buckets t"
  have b: "b < length ?bs" using FindPointer_bucket [OF inv, of key hash] ptr by simp
  have ok: "chains_ok h ?bs" and d: "distinct (entries_in t)" and n: "elems t = length (entries_in t)" and u: "unique_entries h (set (entries_in t))"
    using inv by (simp_all add: table_inv_def)
  have "table_inv h t' \<and> x = HandleTable_Lookup h key hash t \<and>
    mset (entries_in t') = mset (case x of None \<Rightarrow> entries_in t | Some q \<Rightarrow> remove1 q (entries_in t))"
  proof (cases "i < length ?chain")
    case True
    let ?q = "?chain ! i" and ?rest = "take i ?chain @ drop (Suc i) ?chain"
    have r: "x = Some ?q" "t' = t\<lparr>buckets := ?bs[b := ?rest], elems := elems t - 1\<rparr>"
      using rem True by (simp_all add: HandleTable_Remove_def ptr Let_def)
    have look: "HandleTable_Lookup h key hash t = Some ?q" using True by (simp add: HandleTable_Lookup_def ptr at_pointer_def)
    then have q: "?q \<in> set (entries_in t)" using HandleTable_Lookup_entry [OF inv] by simp
    have "mset ?chain = add_mset ?q (mset ?rest)" by (subst id_take_nth_drop [OF True]) simp
    with mset_concat_update [OF b, of ?rest] have "add_mset ?q (mset (entries_in t')) = mset (entries_in t)"
      by (simp add: r entries_in_def)
    then have m: "mset (entries_in t') = mset (remove1 ?q (entries_in t))" by (metis add_mset_remove_trivial mset_remove1)
    have "chains_ok h (?bs[b := ?rest])"
      by (rule chains_ok_update [OF ok]) (use set_take_subset [of i ?chain] set_drop_subset [of "Suc i" ?chain] in auto)
    moreover have "set (remove1 ?q (entries_in t)) \<subseteq> set (entries_in t)" by (rule set_remove1_subset)
    ultimately have "table_inv h t'"
      using mset_eq_setD [OF m] mset_eq_length [OF m] mset_eq_imp_distinct_iff [OF m] d n u q
      by (auto simp: table_inv_def unique_entries_def r length_remove1)
    with m look r(1) show ?thesis by simp
  next
    case False
    then have "HandleTable_Lookup h key hash t = None" by (simp add: HandleTable_Lookup_def ptr at_pointer_def)
    with False rem inv show ?thesis by (auto simp: HandleTable_Remove_def ptr Let_def)
  qed
  then show "table_inv h t'" "x = HandleTable_Lookup h key hash t"
    "mset (entries_in t') = mset (case x of None \<Rightarrow> entries_in t | Some q \<Rightarrow> remove1 q (entries_in t))" by blast+
qed

section \<open>The invariant of a shard\<close>

definition cached :: "'v LRUCache \<Rightarrow> handle set" where
  "cached c = set (lru c) \<union> set (in_use c)"

text \<open>
  What is known of a handle: it is marked as cached exactly if it is on one of the lists, and on the list \<open>lru\<close> exactly if the cache has
  the only reference.
\<close>

definition handle_ok :: "'v LRUCache \<Rightarrow> handle \<Rightarrow> bool" where
  "handle_ok c p = (case hp c p of None \<Rightarrow> p \<notin> set (lru c) \<and> p \<notin> set (in_use c)
     | Some e \<Rightarrow> p < next_handle c \<and> 1 \<le> refs e \<and> (p \<in> set (lru c) \<longleftrightarrow> in_cache e \<and> refs e = 1) \<and>
         (p \<in> set (in_use c) \<longleftrightarrow> in_cache e \<and> 2 \<le> refs e))"

definition charges :: "'v LRUCache \<Rightarrow> handle set \<Rightarrow> nat" where
  "charges c P = (\<Sum>p \<in> P. lh_charge (the (hp c p)))"

definition lists_inv :: "'v LRUCache \<Rightarrow> bool" where
  "lists_inv c \<longleftrightarrow> distinct (lru c @ in_use c) \<and> (\<forall>p. handle_ok c p) \<and> usage c = charges c (cached c)"

definition lru_inv :: "'v LRUCache \<Rightarrow> bool" where
  "lru_inv c \<longleftrightarrow> lists_inv c \<and> table_inv (hp c) (table c) \<and> set (entries_in (table c)) = cached c"

text \<open>The references that are held by the clients.\<close>

definition pins :: "'v LRUCache \<Rightarrow> handle \<Rightarrow> nat" where
  "pins c p = (case hp c p of None \<Rightarrow> 0 | Some e \<Rightarrow> refs e - (if in_cache e then 1 else 0))"

definition handle_value :: "'v LRUCache \<Rightarrow> handle \<Rightarrow> 'v option" where
  "handle_value c p = map_option lh_value (hp c p)"

text \<open>What the cache holds.\<close>

definition content :: "'v LRUCache \<Rightarrow> slice \<Rightarrow> u32 \<Rightarrow> 'v option" where
  "content c key hash = Option.bind (HandleTable_Lookup (hp c) key hash (table c)) (handle_value c)"

lemma handle_okD: "lists_inv c \<Longrightarrow> handle_ok c p"
  by (simp add: lists_inv_def)

lemma cached_known: "lists_inv c \<Longrightarrow> p \<in> cached c \<Longrightarrow> \<exists>e. hp c p = Some e \<and> in_cache e \<and> 1 \<le> refs e"
  using handle_okD [of c p] by (auto simp: handle_ok_def cached_def split: option.splits)

lemma finite_cached [simp]: "finite (cached c)"
  by (simp add: cached_def)

lemma charges_cong: "(\<And>p. p \<in> P \<Longrightarrow> map_option lh_charge (hp c' p) = map_option lh_charge (hp c p)) \<Longrightarrow>
  (\<And>p. p \<in> P \<Longrightarrow> hp c p \<noteq> None) \<Longrightarrow> charges c' P = charges c P"
  unfolding charges_def by (rule sum.cong) force+

text \<open>Only the keys and the hashes of the handles matter to the table.\<close>

definition same_key :: "'v LRUHandle option \<Rightarrow> 'v LRUHandle option \<Rightarrow> bool" where
  "same_key x y \<longleftrightarrow> map_option (\<lambda>e. (lh_key e, lh_hash e)) x = map_option (\<lambda>e. (lh_key e, lh_hash e)) y"

lemma is_entry_same: "same_key (h' p) (h p) \<Longrightarrow> is_entry h' key hash p = is_entry h key hash p"
  by (cases "h p"; cases "h' p") (simp_all add: same_key_def is_entry_def)

lemma table_inv_frame:
  assumes "table_inv h t" and same: "\<And>p. p \<in> set (entries_in t) \<Longrightarrow> same_key (h' p) (h p)"
  shows "table_inv h' t" "HandleTable_Lookup h' key hash t = HandleTable_Lookup h key hash t"
proof -
  have "\<exists>e. h' p = Some e \<and> bucket_of (lh_hash e) (length (buckets t)) = b"
    if "b < length (buckets t)" "p \<in> set (buckets t ! b)" for b p
  proof -
    from assms(1) that obtain e where "h p = Some e" "bucket_of (lh_hash e) (length (buckets t)) = b"
      by (auto simp: table_inv_def chains_ok_def)
    moreover have "same_key (h' p) (h p)" using that by (intro same) (auto simp: in_entries)
    ultimately show ?thesis by (cases "h' p") (auto simp: same_key_def)
  qed
  moreover have "0 < length (buckets t)" using assms(1) by (simp add: table_inv_def chains_ok_def)
  moreover have entry: "is_entry h' k x p = is_entry h k x p" if "p \<in> set (entries_in t)" for p k x
    using same [OF that] by (rule is_entry_same)
  moreover have "unique_entries h' (set (entries_in t)) = unique_entries h (set (entries_in t))"
    using entry unfolding unique_entries_def by blast
  ultimately show inv': "table_inv h' t" using assms(1) by (simp add: table_inv_def chains_ok_def)
  have "HandleTable_Lookup h' key hash t = Some p \<longleftrightarrow> HandleTable_Lookup h key hash t = Some p" for p
    using HandleTable_Lookup_entry [OF inv'] HandleTable_Lookup_entry [OF assms(1)] entry by blast
  then show "HandleTable_Lookup h' key hash t = HandleTable_Lookup h key hash t"
    by (metis not_None_eq)
qed

lemma new_LRUCache_inv: "lru_inv (new_LRUCache cap)"
  by (auto simp: lru_inv_def lists_inv_def new_LRUCache_def cached_def handle_ok_def charges_def table_inv_new)
    (simp_all add: entries_in_def new_HandleTable_def)

section \<open>References\<close>

lemma Ref_simps:
  assumes "hp c p = Some e"
  shows "hp (Ref p c) = (hp c)(p \<mapsto> e\<lparr>refs := refs e + 1\<rparr>)"
    "lru (Ref p c) = (if refs e = 1 \<and> in_cache e then remove1 p (lru c) else lru c)"
    "in_use (Ref p c) = (if refs e = 1 \<and> in_cache e then remove1 p (in_use c) @ [p] else in_use c)"
    "table (Ref p c) = table c" "usage (Ref p c) = usage c" "next_handle (Ref p c) = next_handle c" "capacity (Ref p c) = capacity c"
    "deleted (Ref p c) = deleted c"
  using assms by (simp_all add: Ref_def Let_def LRU_Remove_def set_refs_def)

lemma Unref_simps:
  assumes "hp c p = Some e"
  shows "hp (Unref p c) = (hp c)(p := (if refs e \<le> 1 then None else Some (e\<lparr>refs := refs e - 1\<rparr>)))"
    "lru (Unref p c) = (if refs e = 2 \<and> in_cache e then remove1 p (lru c) @ [p] else lru c)"
    "in_use (Unref p c) = (if refs e = 2 \<and> in_cache e then remove1 p (in_use c) else in_use c)"
    "table (Unref p c) = table c" "usage (Unref p c) = usage c" "next_handle (Unref p c) = next_handle c"
    "capacity (Unref p c) = capacity c"
    "deleted (Unref p c) = deleted c @ (if refs e \<le> 1 then [(lh_key e, lh_value e)] else [])"
proof -
  have n: "refs e - 1 = 0 \<longleftrightarrow> refs e \<le> 1" "in_cache e \<and> refs e - 1 = 1 \<longleftrightarrow> refs e = 2 \<and> in_cache e" by auto
  have "Unref p c = (let c = set_refs p (refs e - 1) c
      in if refs e \<le> 1 then c\<lparr>deleted := deleted c @ [(lh_key e, lh_value e)], hp := (hp c)(p := None)\<rparr>
         else if refs e = 2 \<and> in_cache e then (let c = LRU_Remove p c in c\<lparr>lru := lru c @ [p]\<rparr>)
         else c)" unfolding Unref_def Let_def assms option.sel n ..
  then show "hp (Unref p c) = (hp c)(p := (if refs e \<le> 1 then None else Some (e\<lparr>refs := refs e - 1\<rparr>)))"
    "lru (Unref p c) = (if refs e = 2 \<and> in_cache e then remove1 p (lru c) @ [p] else lru c)"
    "in_use (Unref p c) = (if refs e = 2 \<and> in_cache e then remove1 p (in_use c) else in_use c)"
    "table (Unref p c) = table c" "usage (Unref p c) = usage c" "next_handle (Unref p c) = next_handle c"
    "capacity (Unref p c) = capacity c"
    "deleted (Unref p c) = deleted c @ (if refs e \<le> 1 then [(lh_key e, lh_value e)] else [])"
    using assms by (simp_all add: Let_def LRU_Remove_def set_refs_def)
qed

lemma lists_invI:
  assumes "distinct (lru c' @ in_use c')" and "\<And>p. handle_ok c' p" and "usage c' = usage c" and "lists_inv c" and "cached c' = cached c"
    and "\<And>p. p \<in> cached c \<Longrightarrow> map_option lh_charge (hp c' p) = map_option lh_charge (hp c p)"
  shows "lists_inv c'"
proof -
  have "charges c' (cached c) = charges c (cached c)"
    by (rule charges_cong [OF assms(6)]) (use cached_known [OF assms(4)] in auto)
  with assms show ?thesis by (simp add: lists_inv_def)
qed

lemma Ref_inv:
  assumes inv: "lists_inv c" and p: "hp c p = Some e"
  shows "lists_inv (Ref p c)" "cached (Ref p c) = cached c"
proof -
  note s = Ref_simps [OF p]
  have d: "distinct (lru c @ in_use c)" using inv by (simp add: lists_inv_def)
  have ep: "handle_ok c p" by (rule handle_okD [OF inv])
  show cached: "cached (Ref p c) = cached c"
    using ep p d by (auto simp: cached_def s handle_ok_def)
  show "lists_inv (Ref p c)"
  proof (rule lists_invI [OF _ _ s(5) inv cached])
    show "distinct (lru (Ref p c) @ in_use (Ref p c))" using d by (auto simp: s)
    show "handle_ok (Ref p c) q" for q
      using handle_okD [OF inv, of q] p d unfolding handle_ok_def s by (cases "q = p") (auto split: option.splits)
  qed (use p in \<open>auto simp: s\<close>)
qed

lemma Unref_inv:
  assumes inv: "lists_inv c" and p: "0 < pins c p"
  shows "lists_inv (Unref p c)" "cached (Unref p c) = cached c"
proof -
  obtain e where e: "hp c p = Some e" "0 < refs e - (if in_cache e then 1 else 0)" using p by (auto simp: pins_def split: option.splits)
  note s = Unref_simps [OF e(1)]
  have d: "distinct (lru c @ in_use c)" using inv by (simp add: lists_inv_def)
  have ep: "handle_ok c p" by (rule handle_okD [OF inv])
  show cached: "cached (Unref p c) = cached c"
    using ep e d by (auto simp: cached_def s handle_ok_def)
  show "lists_inv (Unref p c)"
  proof (rule lists_invI [OF _ _ s(5) inv cached])
    show "distinct (lru (Unref p c) @ in_use (Unref p c))" using d ep e by (auto simp: s handle_ok_def)
    show "handle_ok (Unref p c) q" for q
      using handle_okD [OF inv, of q] e d unfolding handle_ok_def s by (cases "q = p") (auto split: option.splits if_splits)
    show "map_option lh_charge (hp (Unref p c) q) = map_option lh_charge (hp c q)" if "q \<in> cached c" for q
      using that ep e by (auto simp: s handle_ok_def cached_def)
  qed
qed

lemma pins_Ref: "hp c p = Some e \<Longrightarrow> lists_inv c \<Longrightarrow> pins (Ref p c) = (pins c)(p := pins c p + 1)"
  using handle_okD [of c p] by (auto simp: pins_def Ref_simps handle_ok_def fun_eq_iff)

lemma pins_Unref: "0 < pins c p \<Longrightarrow> pins (Unref p c) = (pins c)(p := pins c p - 1)"
  by (auto simp: pins_def Unref_simps fun_eq_iff split: option.splits)

text \<open>The last part of taking an entry out of the cache, before its reference is dropped.\<close>

definition detach :: "handle \<Rightarrow> 'v LRUCache \<Rightarrow> 'v LRUCache" where
  "detach p c = (let e = the (hp c p); c = LRU_Remove p c
     in c\<lparr>hp := (hp c)(p \<mapsto> e\<lparr>in_cache := False\<rparr>), usage := usage c - lh_charge e\<rparr>)"

lemma FinishErase_detach: "FinishErase (Some p) c = Unref p (detach p c)"
  by (simp add: FinishErase_def detach_def Let_def)

lemma detach_inv:
  assumes inv: "lists_inv c" and p: "p \<in> cached c"
  shows "lists_inv (detach p c)" "cached (detach p c) = cached c - {p}" "pins (detach p c) p = Suc (pins c p)"
    "q \<noteq> p \<Longrightarrow> hp (detach p c) q = hp c q"
proof -
  obtain e where e: "hp c p = Some e" "in_cache e" "1 \<le> refs e" using cached_known [OF inv p] by blast
  have d: "distinct (lru c)" "distinct (in_use c)" "distinct (lru c @ in_use c)" using inv by (simp_all add: lists_inv_def)
  have s: "hp (detach p c) = (hp c)(p \<mapsto> e\<lparr>in_cache := False\<rparr>)" "lru (detach p c) = remove1 p (lru c)"
    "in_use (detach p c) = remove1 p (in_use c)" "usage (detach p c) = usage c - lh_charge e" "next_handle (detach p c) = next_handle c"
    using e by (simp_all add: detach_def Let_def LRU_Remove_def)
  show c: "cached (detach p c) = cached c - {p}" using d(1,2) by (auto simp: cached_def s)
  have "charges (detach p c) (cached c - {p}) = charges c (cached c - {p})"
    by (rule charges_cong) (use cached_known [OF inv] in \<open>auto simp: s\<close>)
  also have "\<dots> = usage c - lh_charge e"
    using inv p e(1) by (simp add: lists_inv_def charges_def sum_diff1_nat)
  finally have "usage (detach p c) = charges (detach p c) (cached (detach p c))" by (simp add: c s)
  moreover have "handle_ok (detach p c) q" for q
    using handle_okD [OF inv, of q] e d(1,2) unfolding handle_ok_def s by (cases "q = p") (auto split: option.splits)
  ultimately show "lists_inv (detach p c)" using d(3) by (auto simp: lists_inv_def s)
  show "pins (detach p c) p = Suc (pins c p)" using e by (simp add: pins_def s)
  show "q \<noteq> p \<Longrightarrow> hp (detach p c) q = hp c q" by (simp add: s)
qed

lemma FinishErase_inv:
  assumes inv: "lists_inv c" and p: "p \<in> cached c"
  shows "lists_inv (FinishErase (Some p) c)" "cached (FinishErase (Some p) c) = cached c - {p}"
    "pins (FinishErase (Some p) c) = pins c" "q \<noteq> p \<Longrightarrow> hp (FinishErase (Some p) c) q = hp c q"
proof -
  note d = detach_inv [OF inv p]
  have pin: "0 < pins (detach p c) p" by (simp add: d(3))
  show "lists_inv (FinishErase (Some p) c)" "cached (FinishErase (Some p) c) = cached c - {p}"
    using Unref_inv [OF d(1) pin] d(2) by (simp_all add: FinishErase_detach)
  have "pins (detach p c) q = pins c q" if "q \<noteq> p" for q using d(4) [OF that] by (simp add: pins_def)
  then show "pins (FinishErase (Some p) c) = pins c"
    using d(3) by (auto simp: FinishErase_detach pins_Unref [OF pin])
  obtain e where "hp (detach p c) p = Some e" using pin by (auto simp: pins_def split: option.splits)
  then show "q \<noteq> p \<Longrightarrow> hp (FinishErase (Some p) c) q = hp c q"
    using d(4) [of q] by (simp add: FinishErase_detach Unref_simps)
qed

section \<open>What the cache holds\<close>

definition stored :: "'v LRUCache \<Rightarrow> handle \<Rightarrow> slice \<Rightarrow> u32 \<Rightarrow> 'v \<Rightarrow> bool" where
  "stored c p key hash v \<longleftrightarrow> p \<in> cached c \<and> is_entry (hp c) key hash p \<and> handle_value c p = Some v"

lemma content_iff:
  assumes "lru_inv c"
  shows "content c key hash = Some v \<longleftrightarrow> (\<exists>p. stored c p key hash v)"
proof -
  have "table_inv (hp c) (table c)" "set (entries_in (table c)) = cached c" using assms by (simp_all add: lru_inv_def)
  from HandleTable_Lookup_entry [OF this(1)] this(2) show ?thesis
    by (auto simp: content_def stored_def Option.bind_eq_Some_conv)
qed

lemma lookup_cached:
  "lru_inv c \<Longrightarrow> HandleTable_Lookup (hp c) key hash (table c) = Some p \<longleftrightarrow> p \<in> cached c \<and> is_entry (hp c) key hash p"
  by (auto simp: lru_inv_def HandleTable_Lookup_entry)

lemma stored_cong: "hp c' p = hp c p \<Longrightarrow> (p \<in> cached c' \<longleftrightarrow> p \<in> cached c) \<Longrightarrow> stored c' p = stored c p"
  by (auto simp: stored_def fun_eq_iff is_entry_def handle_value_def)

lemma lists_inv_table [simp]: "lists_inv (c\<lparr>table := t\<rparr>) = lists_inv c"
proof -
  have "handle_ok (c\<lparr>table := t\<rparr>) p = handle_ok c p" for p by (cases "hp c p") (simp_all add: handle_ok_def)
  then show ?thesis by (simp add: lists_inv_def cached_def charges_def)
qed

lemma table_update_simps [simp]: "cached (c\<lparr>table := t\<rparr>) = cached c" "pins (c\<lparr>table := t\<rparr>) = pins c" "handle_value (c\<lparr>table := t\<rparr>) = handle_value c"
  by (simp_all add: cached_def pins_def handle_value_def fun_eq_iff)

lemma FinishErase_fields:
  assumes "lists_inv c" and "p \<in> cached c"
  shows "table (FinishErase (Some p) c) = table c" "capacity (FinishErase (Some p) c) = capacity c"
    "next_handle (FinishErase (Some p) c) = next_handle c" "usage (FinishErase (Some p) c) \<le> usage c"
    "lru (FinishErase (Some p) c) = remove1 p (lru c)"
    "\<exists>e. hp c p = Some e \<and> deleted (FinishErase (Some p) c) = deleted c @ (if pins c p = 0 then [(lh_key e, lh_value e)] else [])"
    "0 < pins c q \<Longrightarrow> handle_value (FinishErase (Some p) c) q = handle_value c q"
proof -
  obtain e where e: "hp c p = Some e" "in_cache e" "1 \<le> refs e" using cached_known [OF assms] by blast
  let ?e = "e\<lparr>in_cache := False\<rparr>"
  have d: "hp (detach p c) p = Some ?e" "lru (detach p c) = remove1 p (lru c)" "table (detach p c) = table c" "capacity (detach p c) = capacity c"
    "next_handle (detach p c) = next_handle c" "usage (detach p c) = usage c - lh_charge e" "deleted (detach p c) = deleted c"
    using e by (simp_all add: detach_def Let_def LRU_Remove_def)
  note u = Unref_simps [OF d(1), folded FinishErase_detach]
  show "table (FinishErase (Some p) c) = table c" "capacity (FinishErase (Some p) c) = capacity c"
    "next_handle (FinishErase (Some p) c) = next_handle c" "usage (FinishErase (Some p) c) \<le> usage c"
    "lru (FinishErase (Some p) c) = remove1 p (lru c)" using d by (simp_all add: u)
  show "\<exists>e. hp c p = Some e \<and> deleted (FinishErase (Some p) c) = deleted c @ (if pins c p = 0 then [(lh_key e, lh_value e)] else [])"
    using e d by (auto simp: u pins_def)
  show "handle_value (FinishErase (Some p) c) q = handle_value c q" if "0 < pins c q"
  proof (cases "q = p")
    case True
    with that e have "1 < refs e" by (simp add: pins_def)
    with True e show ?thesis by (simp add: handle_value_def u)
  next
    case False
    then show ?thesis using FinishErase_inv(4) [OF assms False] by (simp add: handle_value_def)
  qed
qed

lemma drop_entry:
  assumes "lists_inv c" and "p \<in> cached c" and "table_inv (hp c) (table c)" and "set (entries_in (table c)) = cached c - {p}"
  shows "lru_inv (FinishErase (Some p) c)"
    "stored (FinishErase (Some p) c) q key hash v \<longleftrightarrow> q \<noteq> p \<and> stored c q key hash v"
proof -
  note f = FinishErase_inv [OF assms(1,2)] and t = FinishErase_fields [OF assms(1,2)]
  have "table_inv (hp (FinishErase (Some p) c)) (table c)"
    by (rule table_inv_frame [OF assms(3)]) (use assms(4) f(4) in \<open>auto simp: same_key_def\<close>)
  with f(1,2) t(1) assms(4) show "lru_inv (FinishErase (Some p) c)" by (simp add: lru_inv_def)
  show "stored (FinishErase (Some p) c) q key hash v \<longleftrightarrow> q \<noteq> p \<and> stored c q key hash v"
  proof (cases "q = p")
    case True
    then show ?thesis using f(2) by (simp add: stored_def)
  next
    case False
    with stored_cong [OF f(4) [OF False]] f(2) show ?thesis by simp
  qed
qed

text \<open>Entries with the same key are the same.\<close>

lemma stored_unique:
  assumes "lru_inv c" and "stored c p k h v" and "is_entry (hp c) key hash q" and "q \<in> cached c"
  shows "p = q \<longleftrightarrow> k = key \<and> h = hash"
proof -
  have t: "table_inv (hp c) (table c)" "set (entries_in (table c)) = cached c" using assms(1) by (simp_all add: lru_inv_def)
  have p: "p \<in> cached c" "is_entry (hp c) k h p" using assms(2) by (simp_all add: stored_def)
  show ?thesis
  proof
    assume "p = q"
    then show "k = key \<and> h = hash" using is_entry_fun [OF p(2), of key hash] assms(3) by simp
  next
    assume "k = key \<and> h = hash"
    then show "p = q" using entry_unique [OF t(1), of p q k h] p assms(3,4) t(2) by simp
  qed
qed

lemma erase_entry_inv:
  assumes inv: "lru_inv c"
  shows "lru_inv (erase_entry key hash c)"
    "stored (erase_entry key hash c) q k h v \<longleftrightarrow> \<not> (k = key \<and> h = hash) \<and> stored c q k h v"
    "pins (erase_entry key hash c) = pins c" "0 < pins c q \<Longrightarrow> handle_value (erase_entry key hash c) q = handle_value c q"
    "capacity (erase_entry key hash c) = capacity c" "usage (erase_entry key hash c) \<le> usage c"
    "lru (erase_entry key hash c) = (case HandleTable_Lookup (hp c) key hash (table c) of None \<Rightarrow> lru c | Some p \<Rightarrow> remove1 p (lru c))"
proof -
  obtain x t where r: "HandleTable_Remove (hp c) key hash (table c) = (x, t)" by fastforce
  have tinv: "table_inv (hp c) (table c)" and entries: "set (entries_in (table c)) = cached c" and "lists_inv c"
    using inv by (simp_all add: lru_inv_def)
  note rem = HandleTable_Remove_inv [OF tinv r]
  let ?c = "c\<lparr>table := t\<rparr>" and ?r = "erase_entry key hash c"
  have er: "?r = FinishErase x ?c" by (simp add: erase_entry_def r)
  have "lru_inv ?r \<and> (stored ?r q k h v \<longleftrightarrow> \<not> (k = key \<and> h = hash) \<and> stored c q k h v) \<and>
    pins ?r = pins c \<and> (0 < pins c q \<longrightarrow> handle_value ?r q = handle_value c q) \<and> capacity ?r = capacity c \<and> usage ?r \<le> usage c \<and>
    lru ?r = (case HandleTable_Lookup (hp c) key hash (table c) of None \<Rightarrow> lru c | Some p \<Rightarrow> remove1 p (lru c))"
  proof (cases x)
    case None
    with r have "t = table c" by (auto simp: HandleTable_Remove_def Let_def split: prod.splits if_splits)
    then have same: "?r = c" using None by (simp add: er FinishErase_def)
    have "\<not> stored c q key hash v" using None rem(2) lookup_cached [OF inv, of key hash q] by (auto simp: stored_def)
    then show ?thesis using inv None rem(2) same by auto
  next
    case (Some p)
    have p: "p \<in> cached c" "is_entry (hp c) key hash p" using Some rem(2) lookup_cached [OF inv] by simp_all
    have d: "distinct (entries_in (table c))" using tinv by (simp add: table_inv_def)
    have set_t: "set (entries_in t) = cached c - {p}" using mset_eq_setD [OF rem(3)] Some entries d by simp
    have l: "lists_inv ?c" "p \<in> cached ?c" using \<open>lists_inv c\<close> p by simp_all
    note f = FinishErase_inv [OF l] FinishErase_fields [OF l] and de = drop_entry [OF l, simplified, OF rem(1) set_t]
    have inv': "lru_inv ?r" using de(1) Some by (simp add: er)
    have "stored ?r q k h v \<longleftrightarrow> q \<noteq> p \<and> stored c q k h v"
      using de(2) Some stored_cong [of ?c q c] by (simp add: er)
    then have st: "stored ?r q k h v \<longleftrightarrow> \<not> (k = key \<and> h = hash) \<and> stored c q k h v" using stored_unique [OF inv _ p(2,1)] by blast
    from inv' st f Some rem(2) show ?thesis by (simp add: er)
  qed
  then show "lru_inv ?r" "stored ?r q k h v \<longleftrightarrow> \<not> (k = key \<and> h = hash) \<and> stored c q k h v" "pins ?r = pins c"
    "0 < pins c q \<Longrightarrow> handle_value ?r q = handle_value c q" "capacity ?r = capacity c" "usage ?r \<le> usage c"
    "lru ?r = (case HandleTable_Lookup (hp c) key hash (table c) of None \<Rightarrow> lru c | Some p \<Rightarrow> remove1 p (lru c))" by blast+
qed

section \<open>Eviction\<close>

text \<open>Entries may go that no client holds.\<close>

definition evicted :: "'v LRUCache \<Rightarrow> 'v LRUCache \<Rightarrow> bool" where
  "evicted c c' \<longleftrightarrow> lru_inv c' \<and> capacity c' = capacity c \<and> usage c' \<le> usage c \<and> pins c' = pins c \<and>
     (\<forall>q. 0 < pins c q \<longrightarrow> handle_value c' q = handle_value c q) \<and>
     (\<forall>p k h v. stored c' p k h v \<longrightarrow> stored c p k h v) \<and>
     (\<forall>p k h v. stored c p k h v \<longrightarrow> 0 < pins c p \<longrightarrow> stored c' p k h v)"

lemma evicted_refl: "lru_inv c \<Longrightarrow> evicted c c"
  by (simp add: evicted_def)

lemma evictedD:
  assumes "evicted c c'"
  shows "lru_inv c'" "capacity c' = capacity c" "usage c' \<le> usage c" "pins c' = pins c" "0 < pins c q \<Longrightarrow> handle_value c' q = handle_value c q"
    "stored c' p k h v \<Longrightarrow> stored c p k h v" "stored c p k h v \<Longrightarrow> 0 < pins c p \<Longrightarrow> stored c' p k h v"
  using assms unfolding evicted_def by blast+

lemma evicted_trans:
  assumes a: "evicted c d" and b: "evicted d e"
  shows "evicted c e"
proof -
  note a = evictedD [OF a] and b = evictedD [OF b]
  have "handle_value e q = handle_value c q" if "0 < pins c q" for q using b(5) [of q] a(5) [OF that] that by (simp add: a(4))
  moreover have "stored e p k h v" if "stored c p k h v" "0 < pins c p" for p k h v
    using b(7) [OF a(7) [OF that]] that(2) by (simp add: a(4))
  moreover have "stored c p k h v" if "stored e p k h v" for p k h v by (rule a(6) [OF b(6) [OF that]])
  ultimately show ?thesis using a(2-4) b(1-4) unfolding evicted_def by (metis order_trans)
qed

lemma evict_step:
  assumes inv: "lru_inv c" and "lru c = p # ps" and e: "e = the (hp c p)"
  shows "evicted c (erase_entry (lh_key e) (lh_hash e) c)" "lru (erase_entry (lh_key e) (lh_hash e) c) = ps"
proof -
  have l: "lists_inv c" using inv by (simp add: lru_inv_def)
  have p: "p \<in> cached c" using assms(2) by (simp add: cached_def)
  then obtain e' where "hp c p = Some e'" "in_cache e'" using cached_known [OF l] by blast
  with e have pe: "hp c p = Some e" "in_cache e" by simp_all
  have "refs e = 1" using handle_okD [OF l, of p] pe assms(2) by (simp add: handle_ok_def)
  then have pin: "pins c p = 0" using pe by (simp add: pins_def)
  have ise: "is_entry (hp c) (lh_key e) (lh_hash e) p" using pe by (simp add: is_entry_def)
  note er = erase_entry_inv [OF inv, where key = "lh_key e" and hash = "lh_hash e"]
  have "\<not> (k = lh_key e \<and> h = lh_hash e)" if "stored c q k h v" "0 < pins c q" for q k h v
    using stored_unique [OF inv that(1) ise p] that(2) pin by auto
  then show "evicted c (erase_entry (lh_key e) (lh_hash e) c)" unfolding evicted_def using er by blast
  have "HandleTable_Lookup (hp c) (lh_key e) (lh_hash e) (table c) = Some p" using lookup_cached [OF inv] ise p by simp
  with er(7) assms(2) show "lru (erase_entry (lh_key e) (lh_hash e) c) = ps" by simp
qed

lemma evict_ends: "lru_inv c \<Longrightarrow> \<exists>c'. evict cond c = Some c' \<and> evicted c c' \<and> (cond c' \<longrightarrow> lru c' = [])"
proof (induction "lru c" arbitrary: c)
  case Nil
  then have "evict cond c = Some c" by (subst evict.simps) simp
  with Nil evicted_refl [of c] show ?case by auto
next
  case (Cons p ps)
  show ?case
  proof (cases "cond c")
    case True
    let ?e = "the (hp c p)" let ?c = "erase_entry (lh_key ?e) (lh_hash ?e) c"
    note st = evict_step [OF Cons.prems Cons.hyps(2) [symmetric] refl]
    have "evict cond c = evict cond ?c" using True Cons.hyps(2) by (subst evict.simps) (simp add: Cons.hyps(2) [symmetric] Let_def)
    moreover obtain c' where "evict cond ?c = Some c'" "evicted ?c c'" "cond c' \<longrightarrow> lru c' = []"
      using Cons.hyps(1) [OF st(2) [symmetric] evictedD(1) [OF st(1)]] by blast
    ultimately show ?thesis using evicted_trans [OF st(1), of c'] by auto
  next
    case False
    then have "evict cond c = Some c" by (subst evict.simps) simp
    with False evicted_refl [OF Cons.prems] show ?thesis by auto
  qed
qed

section \<open>The operations of a shard\<close>

lemma unused_handle:
  assumes "lists_inv c"
  shows "hp c (next_handle c) = None" "next_handle c \<notin> cached c" "pins c (next_handle c) = 0"
  using handle_okD [OF assms, of "next_handle c"] by (auto simp: handle_ok_def cached_def pins_def split: option.splits)

text \<open>A new handle that goes into the cache: before the table is updated.\<close>

definition with_entry :: "'v LRUHandle \<Rightarrow> 'v LRUCache \<Rightarrow> 'v LRUCache" where
  "with_entry e c = c\<lparr>next_handle := next_handle c + 1, hp := (hp c)(next_handle c \<mapsto> e), in_use := in_use c @ [next_handle c],
     usage := usage c + lh_charge e\<rparr>"

lemma with_entry_inv:
  assumes inv: "lists_inv c" and e: "refs e = 2" "in_cache e"
  shows "lists_inv (with_entry e c)" "cached (with_entry e c) = insert (next_handle c) (cached c)"
    "pins (with_entry e c) = (pins c)(next_handle c := 1)"
proof -
  let ?p = "next_handle c" and ?c = "with_entry e c"
  have s: "hp ?c = (hp c)(?p \<mapsto> e)" "next_handle ?c = ?p + 1" "in_use ?c = in_use c @ [?p]" "lru ?c = lru c" "usage ?c = usage c + lh_charge e"
    by (simp_all add: with_entry_def)
  note un = unused_handle [OF inv]
  show c: "cached ?c = insert ?p (cached c)" by (auto simp: cached_def s)
  show "pins ?c = (pins c)(?p := 1)" using e by (auto simp: pins_def s fun_eq_iff)
  have "charges ?c (cached c) = charges c (cached c)"
    by (rule charges_cong) (use un(2) cached_known [OF inv] in \<open>auto simp: s\<close>)
  then have "usage ?c = charges ?c (cached ?c)" using inv un(2) unfolding c by (simp add: lists_inv_def charges_def s)
  moreover have "handle_ok ?c q" for q
    using handle_okD [OF inv, of q] e un by (cases "q = ?p") (auto simp: handle_ok_def s cached_def split: option.splits)
  moreover have "distinct (lru ?c @ in_use ?c)" using inv un(2) by (auto simp: lists_inv_def s cached_def)
  ultimately show "lists_inv ?c" by (simp add: lists_inv_def)
qed

text \<open>The entry with the same key, if there is one, is replaced.\<close>

lemma insert_entry:
  assumes inv: "lru_inv c" and e: "refs e = 2" "in_cache e"
    and ins: "HandleTable_Insert (hp (with_entry e c)) (next_handle c) (table c) = (old, t)"
  defines "r \<equiv> FinishErase old ((with_entry e c)\<lparr>table := t\<rparr>)"
  shows "lru_inv r" "capacity r = capacity c" "pins r = (pins c)(next_handle c := 1)"
    "0 < pins c q \<Longrightarrow> handle_value r q = handle_value c q" "handle_value r (next_handle c) = Some (lh_value e)"
    "stored r q k h v \<longleftrightarrow> (if k = lh_key e \<and> h = lh_hash e then q = next_handle c \<and> v = lh_value e else stored c q k h v)"
proof -
  let ?p = "next_handle c" and ?c = "with_entry e c" let ?d = "?c\<lparr>table := t\<rparr>"
  have l: "lists_inv c" "table_inv (hp c) (table c)" "set (entries_in (table c)) = cached c" using inv by (simp_all add: lru_inv_def)
  note un = unused_handle [OF l(1)] and w = with_entry_inv [OF l(1) e]
  have hp: "hp ?c = (hp c)(?p \<mapsto> e)" and cap: "capacity ?c = capacity c" "table ?c = table c" by (simp_all add: with_entry_def)
  have frame: "table_inv (hp ?c) (table c)" "HandleTable_Lookup (hp ?c) key hash (table c) = HandleTable_Lookup (hp c) key hash (table c)" for key hash
    by (rule table_inv_frame [OF l(2)], use l(3) un(2) in \<open>force simp: same_key_def hp\<close>)+
  have p: "hp ?c ?p = Some e" "?p \<notin> set (entries_in (table c))" using un(2) l(3) by (simp_all add: hp)
  note i = HandleTable_Insert_inv [OF frame(1) p ins]
  have d: "lists_inv ?d" "cached ?d = insert ?p (cached c)" "pins ?d = (pins c)(?p := 1)" "hp ?d = (hp c)(?p \<mapsto> e)" "table ?d = t"
    using w by (simp_all add: hp)
  have std: "stored ?d q k h v \<longleftrightarrow> (if q = ?p then k = lh_key e \<and> h = lh_hash e \<and> v = lh_value e else stored c q k h v)" for q k h v
    using un(2) by (auto simp: stored_def w(2) hp is_entry_def handle_value_def)
  have vd: "handle_value ?d q = (if q = ?p then Some (lh_value e) else handle_value c q)" for q by (simp add: handle_value_def hp)
  have "lru_inv r \<and> capacity r = capacity c \<and> pins r = (pins c)(?p := 1) \<and> (0 < pins c q \<longrightarrow> handle_value r q = handle_value c q) \<and>
    handle_value r ?p = Some (lh_value e) \<and>
    (stored r q k h v \<longleftrightarrow> (if k = lh_key e \<and> h = lh_hash e then q = ?p \<and> v = lh_value e else stored c q k h v))"
  proof (cases old)
    case None
    then have r: "r = ?d" by (simp add: r_def FinishErase_def)
    have "set (entries_in t) = insert ?p (cached c)" using mset_eq_setD [OF i(3)] None l(3) by simp
    then have "lru_inv r" using d i(1) hp by (simp add: r lru_inv_def)
    moreover have "\<not> stored c q (lh_key e) (lh_hash e) v" for q v
      using i(2) None frame(2) [of "lh_key e" "lh_hash e"] lookup_cached [OF inv, of "lh_key e" "lh_hash e" q] by (auto simp: stored_def)
    moreover have "\<not> stored c ?p k h v" for k h v using un(2) by (simp add: stored_def)
    ultimately show ?thesis using d(3) un(3) cap std [of q k h v] vd [of q] vd [of ?p] by (auto simp: r)
  next
    case (Some q')
    have look: "HandleTable_Lookup (hp c) (lh_key e) (lh_hash e) (table c) = Some q'" using i(2) Some frame(2) by simp
    then have q': "q' \<in> cached c" "is_entry (hp c) (lh_key e) (lh_hash e) q'" using lookup_cached [OF inv] by simp_all
    then have "q' \<noteq> ?p" using un(2) by blast
    have dist: "distinct (entries_in (table c))" using l(2) by (simp add: table_inv_def)
    have ent: "set (entries_in t) = insert ?p (cached c) - {q'}"
      using mset_eq_setD [OF i(3)] Some l(3) dist \<open>q' \<noteq> ?p\<close> by auto
    have qd: "q' \<in> cached ?d" using q' d(2) by simp
    have r: "r = FinishErase (Some q') ?d" by (simp add: r_def Some)
    have td: "table_inv (hp ?d) (table ?d)" "set (entries_in (table ?d)) = cached ?d - {q'}" using i(1) hp ent d by simp_all
    note de = drop_entry [OF d(1) qd td, folded r] and f = FinishErase_inv [OF d(1) qd, folded r] FinishErase_fields [OF d(1) qd, folded r]
    have u: "stored c x k h v \<Longrightarrow> x = q' \<longleftrightarrow> k = lh_key e \<and> h = lh_hash e" for x k h v by (rule stored_unique [OF inv _ q'(2,1)])
    have np: "\<not> stored c ?p k h v" for k h v using un(2) by (simp add: stored_def)
    have "stored r q k h v \<longleftrightarrow> (if k = lh_key e \<and> h = lh_hash e then q = ?p \<and> v = lh_value e else stored c q k h v)"
      using de(2) [of q k h v] std [of q k h v] u [of q k h v] np [of k h v] \<open>q' \<noteq> ?p\<close> by (cases "q = ?p") auto
    moreover have "0 < pins c q \<Longrightarrow> handle_value r q = handle_value c q"
      using f(11) [of q] vd [of q] un(3) d(3) by (cases "q = ?p") auto
    moreover have "handle_value r ?p = Some (lh_value e)" using f(11) [of ?p] vd [of ?p] d(3) by simp
    ultimately show ?thesis using de(1) f(3,6) d(3) cap by simp
  qed
  then show "lru_inv r" "capacity r = capacity c" "pins r = (pins c)(?p := 1)" "0 < pins c q \<Longrightarrow> handle_value r q = handle_value c q"
    "handle_value r ?p = Some (lh_value e)"
    "stored r q k h v \<longleftrightarrow> (if k = lh_key e \<and> h = lh_hash e then q = ?p \<and> v = lh_value e else stored c q k h v)" by blast+
qed

text \<open>A new handle that does not go into the cache.\<close>

lemma uncached_entry:
  assumes inv: "lru_inv c" and e: "refs e = 1" "\<not> in_cache e"
  defines "r \<equiv> c\<lparr>hp := (hp c)(next_handle c \<mapsto> e), next_handle := next_handle c + 1\<rparr>"
  shows "lru_inv r" "capacity r = capacity c" "pins r = (pins c)(next_handle c := 1)"
    "0 < pins c q \<Longrightarrow> handle_value r q = handle_value c q" "handle_value r (next_handle c) = Some (lh_value e)" "stored r q = stored c q"
proof -
  let ?p = "next_handle c"
  have l: "lists_inv c" "table_inv (hp c) (table c)" "set (entries_in (table c)) = cached c" using inv by (simp_all add: lru_inv_def)
  note un = unused_handle [OF l(1)]
  have s: "hp r = (hp c)(?p \<mapsto> e)" "lru r = lru c" "in_use r = in_use c" "usage r = usage c" "table r = table c" "next_handle r = ?p + 1"
    by (simp_all add: r_def)
  have c: "cached r = cached c" by (simp add: cached_def s)
  have "lists_inv r"
  proof (rule lists_invI [OF _ _ s(4) l(1) c])
    show "distinct (lru r @ in_use r)" using l(1) by (simp add: s lists_inv_def)
    show "handle_ok r q" for q
      using handle_okD [OF l(1), of q] e un by (cases "q = ?p") (auto simp: handle_ok_def s cached_def split: option.splits)
  qed (use un(2) in \<open>auto simp: s\<close>)
  moreover have "table_inv (hp r) (table c)"
    by (rule table_inv_frame [OF l(2)]) (use l(3) un(2) in \<open>auto simp: same_key_def s\<close>)
  ultimately show "lru_inv r" using l(3) c by (simp add: lru_inv_def s)
  show "capacity r = capacity c" by (simp add: r_def)
  show "pins r = (pins c)(?p := 1)" using e by (auto simp: pins_def s)
  show "handle_value r ?p = Some (lh_value e)" by (simp add: handle_value_def s)
  show "0 < pins c q \<Longrightarrow> handle_value r q = handle_value c q" using un(3) by (cases "q = ?p") (auto simp: handle_value_def s)
  show "stored r q = stored c q" using un(2) by (cases "q = ?p") (auto simp: fun_eq_iff stored_def c s is_entry_def handle_value_def)
qed

text \<open>\<open>Insert\<close>: it returns, the usage is within the capacity unless everything is in use, and the entry is found under its key.\<close>

lemma LRUCache_Insert_inv:
  assumes inv: "lru_inv c"
  obtains c' where "LRUCache_Insert key hash v charge c = Some (next_handle c, c')" "lru_inv c'" "capacity c' = capacity c"
    "usage c' \<le> capacity c' \<or> lru c' = []" "pins c' = (pins c)(next_handle c := 1)" "handle_value c' (next_handle c) = Some v"
    "\<And>q. 0 < pins c q \<Longrightarrow> handle_value c' q = handle_value c q" "0 < capacity c \<Longrightarrow> content c' key hash = Some v"
    "\<And>k h w. content c' k h = Some w \<Longrightarrow> (k = key \<and> h = hash \<and> w = v) \<or> content c k h = Some w \<and> (0 < capacity c \<longrightarrow> \<not> (k = key \<and> h = hash))"
proof -
  let ?p = "next_handle c"
  let ?e = "\<lparr>lh_value = v, lh_key = key, lh_charge = charge, in_cache = False, refs = 1, lh_hash = hash\<rparr>"
  let ?e2 = "?e\<lparr>refs := 2, in_cache := True\<rparr>"
  obtain d where d: "LRUCache_Insert key hash v charge c = map_option (\<lambda>c. (?p, c)) (evict (\<lambda>c. usage c > capacity c) d)" "lru_inv d"
    "capacity d = capacity c" "pins d = (pins c)(?p := 1)" "\<And>q. 0 < pins c q \<Longrightarrow> handle_value d q = handle_value c q" "handle_value d ?p = Some v"
    "\<And>q k h w. stored d q k h w \<longleftrightarrow> (if 0 < capacity c \<and> k = key \<and> h = hash then q = ?p \<and> w = v else stored c q k h w)"
  proof (cases "0 < capacity c")
    case True
    obtain old t where ins: "HandleTable_Insert (hp (with_entry ?e2 c)) ?p (table c) = (old, t)" by fastforce
    have "refs ?e2 = 2" "in_cache ?e2" by simp_all
    note i = insert_entry [OF inv this ins]
    show thesis
    proof (rule that [OF _ i(1-4)])
      show "LRUCache_Insert key hash v charge c =
        map_option (\<lambda>c. (?p, c)) (evict (\<lambda>c. usage c > capacity c) (FinishErase old ((with_entry ?e2 c)\<lparr>table := t\<rparr>)))"
        using True ins by (simp add: LRUCache_Insert_def with_entry_def Let_def fun_upd_upd)
      show "stored (FinishErase old ((with_entry ?e2 c)\<lparr>table := t\<rparr>)) q k h w \<longleftrightarrow>
        (if 0 < capacity c \<and> k = key \<and> h = hash then q = ?p \<and> w = v else stored c q k h w)" for q k h w
        using i(6) [of q k h w] True by simp
      show "handle_value (FinishErase old ((with_entry ?e2 c)\<lparr>table := t\<rparr>)) ?p = Some v" using i(5) by simp
    qed
  next
    case False
    have "refs ?e = 1" "\<not> in_cache ?e" by simp_all
    note u = uncached_entry [OF inv this]
    show thesis
      by (rule that [OF _ u(1-4)]) (use False u(5,6) in \<open>simp_all add: LRUCache_Insert_def Let_def\<close>)
  qed
  obtain c' where c': "evict (\<lambda>c. usage c > capacity c) d = Some c'" "evicted d c'" "usage c' > capacity c' \<longrightarrow> lru c' = []"
    using evict_ends [OF d(2)] by blast
  note ev = evictedD [OF c'(2)]
  show thesis
  proof (rule that)
    show "LRUCache_Insert key hash v charge c = Some (?p, c')" by (simp add: d(1) c'(1))
    show "lru_inv c'" "capacity c' = capacity c" "pins c' = (pins c)(?p := 1)" using ev(1,2,4) d(3,4) by simp_all
    show "usage c' \<le> capacity c' \<or> lru c' = []" using c'(3) by auto
    show "handle_value c' ?p = Some v" using ev(5) [of ?p] d(4,6) by simp
    show "handle_value c' q = handle_value c q" if "0 < pins c q" for q
      using ev(5) [of q] d(4) d(5) [OF that] that by (cases "q = ?p") auto
    show "content c' key hash = Some v" if "0 < capacity c"
    proof -
      have "stored d ?p key hash v" using d(7) that by simp
      then have "stored c' ?p key hash v" using ev(7) d(4) by simp
      then show ?thesis using content_iff [OF ev(1)] by blast
    qed
    show "(k = key \<and> h = hash \<and> w = v) \<or> content c k h = Some w \<and> (0 < capacity c \<longrightarrow> \<not> (k = key \<and> h = hash))"
      if cw: "content c' k h = Some w" for k h w
    proof -
      obtain q where "stored d q k h w" using cw content_iff [OF ev(1)] ev(6) by blast
      then show ?thesis using d(7) [of q k h w] content_iff [OF inv] by (auto split: if_splits)
    qed
  qed
qed

lemma table_frame_value:
  assumes "lru_inv c" and "lists_inv d" and "cached d = cached c" and "table d = table c"
    and "\<And>p. p \<in> cached c \<Longrightarrow> same_key (hp d p) (hp c p) \<and> handle_value d p = handle_value c p"
  shows "lru_inv d" "content d = content c"
proof -
  have t: "table_inv (hp c) (table c)" "set (entries_in (table c)) = cached c" using assms(1) by (simp_all add: lru_inv_def)
  have "same_key (hp d p) (hp c p)" if "p \<in> set (entries_in (table c))" for p using assms(5) that t(2) by simp
  note f = table_inv_frame [OF t(1) this]
  show inv: "lru_inv d" using assms(2-4) f(1) t(2) by (simp add: lru_inv_def)
  have "content d k h = content c k h" for k h
    using assms(4,5) lookup_cached [OF assms(1), of k h]
    by (cases "HandleTable_Lookup (hp c) k h (table c)") (auto simp: content_def f(2))
  then show "content d = content c" by blast
qed

lemma LRUCache_Lookup_inv:
  assumes inv: "lru_inv c" and look: "LRUCache_Lookup key hash c = (r, c')"
  shows "lru_inv c'" "content c' = content c" "capacity c' = capacity c" "usage c' = usage c"
    "case r of None \<Rightarrow> content c key hash = None \<and> c' = c
     | Some p \<Rightarrow> \<exists>v. content c key hash = Some v \<and> handle_value c' p = Some v \<and> pins c' = (pins c)(p := pins c p + 1)"
    "handle_value c' q = handle_value c q"
proof -
  have l: "lists_inv c" using inv by (simp add: lru_inv_def)
  have "lru_inv c' \<and> content c' = content c \<and> capacity c' = capacity c \<and> usage c' = usage c \<and>
    (case r of None \<Rightarrow> content c key hash = None \<and> c' = c
     | Some p \<Rightarrow> \<exists>v. content c key hash = Some v \<and> handle_value c' p = Some v \<and> pins c' = (pins c)(p := pins c p + 1)) \<and> handle_value c' q = handle_value c q"
  proof (cases "HandleTable_Lookup (hp c) key hash (table c)")
    case None
    with look inv show ?thesis by (auto simp: LRUCache_Lookup_def content_def)
  next
    case (Some p)
    then have r: "r = Some p" "c' = Ref p c" using look by (simp_all add: LRUCache_Lookup_def)
    have "p \<in> cached c" using Some lookup_cached [OF inv, of key hash p] by blast
    then obtain e where e: "hp c p = Some e" using cached_known [OF l] by blast
    note s = Ref_simps [OF e, folded r(2)] and i = Ref_inv [OF l e, folded r(2)]
    have v: "handle_value c' x = handle_value c x" for x using e by (simp add: handle_value_def s)
    have "same_key (hp c' x) (hp c x) \<and> handle_value c' x = handle_value c x" for x using e v by (simp add: same_key_def s)
    note t = table_frame_value [OF inv i s(4) this]
    have "content c key hash = Some (lh_value e)" using Some e by (simp add: content_def handle_value_def)
    with t s v r pins_Ref [OF e l] e show ?thesis by (simp add: handle_value_def)
  qed
  then show "lru_inv c'" "content c' = content c" "capacity c' = capacity c" "usage c' = usage c"
    "case r of None \<Rightarrow> content c key hash = None \<and> c' = c
     | Some p \<Rightarrow> \<exists>v. content c key hash = Some v \<and> handle_value c' p = Some v \<and> pins c' = (pins c)(p := pins c p + 1)"
    "handle_value c' q = handle_value c q" by blast+
qed

lemma LRUCache_Release_inv:
  assumes inv: "lru_inv c" and p: "0 < pins c p"
  shows "lru_inv (LRUCache_Release p c)" "content (LRUCache_Release p c) = content c" "capacity (LRUCache_Release p c) = capacity c"
    "usage (LRUCache_Release p c) = usage c" "pins (LRUCache_Release p c) = (pins c)(p := pins c p - 1)"
    "0 < pins (LRUCache_Release p c) q \<Longrightarrow> handle_value (LRUCache_Release p c) q = handle_value c q"
proof -
  have l: "lists_inv c" using inv by (simp add: lru_inv_def)
  obtain e where e: "hp c p = Some e" using p by (auto simp: pins_def split: option.splits)
  let ?c = "LRUCache_Release p c"
  have r: "?c = Unref p c" by (simp add: LRUCache_Release_def)
  note s = Unref_simps [OF e, folded r] and i = Unref_inv [OF l p, folded r]
  have "same_key (hp ?c x) (hp c x) \<and> handle_value ?c x = handle_value c x" if x: "x \<in> cached c" for x
  proof (cases "x = p")
    case True
    then have "1 < refs e" using cached_known [OF l x] e p by (auto simp: pins_def)
    with True e show ?thesis by (simp add: same_key_def handle_value_def s)
  qed (simp add: same_key_def handle_value_def s)
  note t = table_frame_value [OF inv i s(4) this]
  show "lru_inv ?c" "content ?c = content c" using t by simp_all
  show "capacity ?c = capacity c" "usage ?c = usage c" by (simp_all add: s)
  show pins: "pins ?c = (pins c)(p := pins c p - 1)" using pins_Unref [OF p] by (simp add: r)
  show "handle_value ?c q = handle_value c q" if "0 < pins ?c q"
    using that e by (cases "q = p") (auto simp: handle_value_def s pins_def split: if_splits)
qed

lemma option_eqI: "(\<And>v. x = Some v \<longleftrightarrow> y = Some v) \<Longrightarrow> x = y"
  by (cases x) (metis option.exhaust)+

lemma LRUCache_Erase_inv:
  assumes inv: "lru_inv c"
  shows "lru_inv (LRUCache_Erase key hash c)" "content (LRUCache_Erase key hash c) = (content c)(key := (content c key)(hash := None))"
    "pins (LRUCache_Erase key hash c) = pins c" "0 < pins c q \<Longrightarrow> handle_value (LRUCache_Erase key hash c) q = handle_value c q"
proof -
  note e = erase_entry_inv [OF inv, where key = key and hash = hash, folded LRUCache_Erase_def]
  show "lru_inv (LRUCache_Erase key hash c)" "pins (LRUCache_Erase key hash c) = pins c"
    "0 < pins c q \<Longrightarrow> handle_value (LRUCache_Erase key hash c) q = handle_value c q" by (fact e)+
  have "content (LRUCache_Erase key hash c) k h = Some v \<longleftrightarrow> \<not> (k = key \<and> h = hash) \<and> content c k h = Some v" for k h v
    unfolding content_iff [OF e(1)] content_iff [OF inv] e(2) by blast
  then have "content (LRUCache_Erase key hash c) k h = ((content c)(key := (content c key)(hash := None))) k h" for k h
    by (intro option_eqI) simp
  then show "content (LRUCache_Erase key hash c) = (content c)(key := (content c key)(hash := None))" by blast
qed

lemma LRUCache_Prune_inv:
  assumes inv: "lru_inv c"
  obtains c' where "LRUCache_Prune c = Some c'" "lru_inv c'" "lru c' = []" "pins c' = pins c"
    "\<And>q. 0 < pins c q \<Longrightarrow> handle_value c' q = handle_value c q"
  using evict_ends [OF inv, of "\<lambda>_. True"] evictedD that by (metis LRUCache_Prune_def)

section \<open>The sharded cache\<close>

definition sharded_inv :: "'v ShardedLRUCache \<Rightarrow> bool" where
  "sharded_inv c \<longleftrightarrow> length (shards c) = kNumShards \<and> (\<forall>s \<in> set (shards c). lru_inv s)"

definition shard_of :: "slice \<Rightarrow> nat" where
  "shard_of key = Shard (HashSlice key)"

definition holds_value :: "'v ShardedLRUCache \<Rightarrow> slice \<Rightarrow> 'v option" where
  "holds_value c key = content (shards c ! shard_of key) key (HashSlice key)"

definition held :: "'v ShardedLRUCache \<Rightarrow> nat \<times> handle \<Rightarrow> bool" where
  "held c h \<longleftrightarrow> fst h < kNumShards \<and> 0 < pins (shards c ! fst h) (snd h)"

lemma shard_of_less [simp]: "shard_of key < kNumShards"
proof -
  have "unat (drop_bit 28 w) < 2 ^ 4" for w :: u32
    using unsigned_less [of w, where 'a = nat] by (simp add: unat_drop_bit_eq drop_bit_eq_div [where 'a = nat] less_mult_imp_div_less)
  from this [of "HashSlice key"] show ?thesis by (simp add: shard_of_def Shard_def kNumShards_def kNumShardBits_def)
qed

lemma shard_inv: "sharded_inv c \<Longrightarrow> i < kNumShards \<Longrightarrow> lru_inv (shards c ! i)"
  by (simp add: sharded_inv_def)

lemma sharded_update: "sharded_inv c \<Longrightarrow> lru_inv s \<Longrightarrow> sharded_inv (c\<lparr>shards := (shards c)[i := s]\<rparr>)"
  using set_update_subset_insert [of "shards c" i s] by (auto simp: sharded_inv_def)

lemma shard_updated: "sharded_inv c \<Longrightarrow> i < kNumShards \<Longrightarrow> shards (c\<lparr>shards := (shards c)[i := s]\<rparr>) ! j = (if j = i then s else shards c ! j)"
  by (simp add: sharded_inv_def nth_list_update)

lemma NewLRUCache_inv: "sharded_inv (NewLRUCache cap)"
  using new_LRUCache_inv by (auto simp: sharded_inv_def NewLRUCache_def)

lemma held_value: "held c h \<Longrightarrow> Sharded_Value h c = the (handle_value (shards c ! fst h) (snd h))"
  by (auto simp: held_def Sharded_Value_def handle_value_def pins_def split: option.splits)

text \<open>Every call of the interface. What is held remains valid until it is released.\<close>

datatype 'v cache_op = Op_Insert slice 'v nat | Op_Lookup slice | Op_Release "nat \<times> handle" | Op_Erase slice | Op_Prune | Op_NewId

inductive cache_step :: "'v cache_op \<Rightarrow> 'v ShardedLRUCache \<Rightarrow> 'v ShardedLRUCache \<Rightarrow> bool" where
  insert: "Sharded_Insert key v n c = Some (h, c') \<Longrightarrow> cache_step (Op_Insert key v n) c c'"
| lookup: "Sharded_Lookup key c = (r, c') \<Longrightarrow> cache_step (Op_Lookup key) c c'"
| release: "held c h \<Longrightarrow> cache_step (Op_Release h) c (Sharded_Release h c)"
| erase: "cache_step (Op_Erase key) c (Sharded_Erase key c)"
| prune: "Sharded_Prune c = Some c' \<Longrightarrow> cache_step Op_Prune c c'"
| new_id: "cache_step Op_NewId c (snd (NewId c))"

inductive cache_reach :: "nat \<Rightarrow> 'v ShardedLRUCache \<Rightarrow> bool" for cap where
  start: "cache_reach cap (NewLRUCache cap)"
| step: "cache_reach cap c \<Longrightarrow> cache_step op c c' \<Longrightarrow> cache_reach cap c'"

text \<open>What a shard keeps for its clients.\<close>

definition keeps_held :: "'v LRUCache \<Rightarrow> 'v LRUCache \<Rightarrow> handle \<Rightarrow> bool" where
  "keeps_held s s' p \<longleftrightarrow> 0 < pins s' p \<and> handle_value s' p = handle_value s p"

lemma Sharded_Insert_shard:
  assumes inv: "sharded_inv c"
  obtains s where "Sharded_Insert key v n c = Some ((shard_of key, next_handle (shards c ! shard_of key)), c\<lparr>shards := (shards c)[shard_of key := s]\<rparr>)"
    "lru_inv s" "capacity s = capacity (shards c ! shard_of key)" "usage s \<le> capacity s \<or> lru s = []"
    "\<And>p. 0 < pins (shards c ! shard_of key) p \<Longrightarrow> keeps_held (shards c ! shard_of key) s p"
    "0 < pins s (next_handle (shards c ! shard_of key))" "handle_value s (next_handle (shards c ! shard_of key)) = Some v"
    "0 < capacity s \<Longrightarrow> content s key (HashSlice key) = Some v"
    "\<And>k h w. content s k h = Some w \<Longrightarrow> k = key \<and> h = HashSlice key \<and> w = v \<or> content (shards c ! shard_of key) k h = Some w"
proof -
  let ?s = "shards c ! shard_of key"
  have l: "lru_inv ?s" by (rule shard_inv [OF inv shard_of_less])
  then have un: "pins ?s (next_handle ?s) = 0" by (intro unused_handle) (simp add: lru_inv_def)
  from l show thesis
  proof (rule LRUCache_Insert_inv)
    fix s
    assume a: "LRUCache_Insert key (HashSlice key) v n ?s = Some (next_handle ?s, s)" "lru_inv s" "capacity s = capacity ?s"
      "usage s \<le> capacity s \<or> lru s = []" "pins s = (pins ?s)(next_handle ?s := 1)" "handle_value s (next_handle ?s) = Some v"
      "\<And>q. 0 < pins ?s q \<Longrightarrow> handle_value s q = handle_value ?s q" "0 < capacity ?s \<Longrightarrow> content s key (HashSlice key) = Some v"
      "\<And>k h w. content s k h = Some w \<Longrightarrow>
        (k = key \<and> h = HashSlice key \<and> w = v) \<or> content ?s k h = Some w \<and> (0 < capacity ?s \<longrightarrow> \<not> (k = key \<and> h = HashSlice key))"
    show thesis
    proof (rule that [of s])
      show "Sharded_Insert key v n c = Some ((shard_of key, next_handle ?s), c\<lparr>shards := (shards c)[shard_of key := s]\<rparr>)"
        using a(1) by (simp add: Sharded_Insert_def Let_def shard_of_def)
      show "0 < pins s (next_handle ?s)" by (simp add: a(5))
      show "keeps_held ?s s p" if "0 < pins ?s p" for p using a(5) a(7) [OF that] that un by (auto simp: keeps_held_def)
      show "content s key (HashSlice key) = Some v" if "0 < capacity s" using a(3,8) that by simp
      show "k = key \<and> h = HashSlice key \<and> w = v \<or> content ?s k h = Some w" if "content s k h = Some w" for k h w
        using a(9) [OF that] by blast
    qed (fact a)+
  qed
qed

lemma Sharded_Lookup_shard:
  assumes inv: "sharded_inv c" and look: "Sharded_Lookup key c = (r, c')"
  obtains s where "c' = c\<lparr>shards := (shards c)[shard_of key := s]\<rparr>" "lru_inv s" "capacity s = capacity (shards c ! shard_of key)"
    "content s = content (shards c ! shard_of key)" "\<And>p. 0 < pins (shards c ! shard_of key) p \<Longrightarrow> keeps_held (shards c ! shard_of key) s p"
    "case r of None \<Rightarrow> holds_value c key = None | Some h \<Rightarrow> held c' h \<and> fst h = shard_of key \<and> holds_value c key = Some (Sharded_Value h c')"
proof -
  let ?s = "shards c ! shard_of key"
  have l: "lru_inv ?s" by (rule shard_inv [OF inv shard_of_less])
  obtain p s where s: "LRUCache_Lookup key (HashSlice key) ?s = (p, s)" by fastforce
  note i = LRUCache_Lookup_inv [OF l s]
  have r: "r = map_option (\<lambda>p. (shard_of key, p)) p" "c' = c\<lparr>shards := (shards c)[shard_of key := s]\<rparr>"
    using look s by (simp_all add: Sharded_Lookup_def Let_def shard_of_def)
  have sh: "shards c' ! shard_of key = s" using shard_updated [OF inv shard_of_less, of key s "shard_of key"] by (simp add: r(2))
  have pins: "pins ?s q \<le> pins s q" for q using i(5) by (cases p) auto
  show thesis
  proof (rule that [OF r(2) i(1,3,2)])
    show "keeps_held ?s s q" if "0 < pins ?s q" for q using pins [of q] that i(6) by (simp add: keeps_held_def)
    show "case r of None \<Rightarrow> holds_value c key = None | Some h \<Rightarrow> held c' h \<and> fst h = shard_of key \<and> holds_value c key = Some (Sharded_Value h c')"
    proof (cases p)
      case None
      with i(5) show ?thesis by (simp add: r(1) holds_value_def)
    next
      case (Some q)
      with i(5) obtain v where v: "content ?s key (HashSlice key) = Some v" "handle_value s q = Some v" "pins s = (pins ?s)(q := pins ?s q + 1)" by auto
      have "held c' (shard_of key, q)" using v(3) by (simp add: held_def sh)
      with v(1,2) Some show ?thesis by (simp add: r(1) holds_value_def held_value sh)
    qed
  qed
qed

lemma keeps_heldD:
  assumes "sharded_inv c" and "i < kNumShards" and "held c h" and "fst h = i \<Longrightarrow> keeps_held (shards c ! i) s (snd h)"
  shows "held (c\<lparr>shards := (shards c)[i := s]\<rparr>) h" "Sharded_Value h (c\<lparr>shards := (shards c)[i := s]\<rparr>) = Sharded_Value h c"
proof -
  let ?c = "c\<lparr>shards := (shards c)[i := s]\<rparr>"
  note u = shard_updated [OF assms(1,2), of s]
  show h: "held ?c h" using assms(3,4) u [of "fst h"] by (auto simp: held_def keeps_held_def)
  show "Sharded_Value h ?c = Sharded_Value h c"
    using held_value [OF h] held_value [OF assms(3)] assms(4) u [of "fst h"] by (cases "fst h = i") (auto simp: keeps_held_def)
qed

lemma Sharded_Release_shard:
  assumes inv: "sharded_inv c" and h: "held c h"
  shows "sharded_inv (Sharded_Release h c)" "holds_value (Sharded_Release h c) = holds_value c"
    "held c g \<Longrightarrow> g \<noteq> h \<Longrightarrow> held (Sharded_Release h c) g \<and> Sharded_Value g (Sharded_Release h c) = Sharded_Value g c"
    "map capacity (shards (Sharded_Release h c)) = map capacity (shards c)"
proof -
  let ?s = "shards c ! fst h" let ?r = "LRUCache_Release (snd h) ?s"
  have i: "fst h < kNumShards" "0 < pins ?s (snd h)" using h by (simp_all add: held_def)
  note r = LRUCache_Release_inv [OF shard_inv [OF inv i(1)] i(2)]
  show "sharded_inv (Sharded_Release h c)" using sharded_update [OF inv r(1)] by (simp add: Sharded_Release_def)
  show "holds_value (Sharded_Release h c) = holds_value c"
    using shard_updated [OF inv i(1), of ?r] r(2) by (auto simp: holds_value_def Sharded_Release_def fun_eq_iff)
  show "held (Sharded_Release h c) g \<and> Sharded_Value g (Sharded_Release h c) = Sharded_Value g c" if "held c g" "g \<noteq> h"
  proof -
    have "keeps_held ?s ?r (snd g)" if "fst g = fst h"
    proof -
      have "snd g \<noteq> snd h" using that \<open>g \<noteq> h\<close> by (auto simp: prod_eq_iff)
      then have "0 < pins ?r (snd g)" using r(5) \<open>held c g\<close> that by (simp add: held_def)
      then show ?thesis using r(6) by (simp add: keeps_held_def)
    qed
    from keeps_heldD [OF inv i(1) \<open>held c g\<close> this] show ?thesis by (simp add: Sharded_Release_def)
  qed
  show "map capacity (shards (Sharded_Release h c)) = map capacity (shards c)"
    using i(1) inv r(3) by (simp add: Sharded_Release_def map_update list_update_same_conv sharded_inv_def)
qed

lemma Sharded_Erase_shard:
  assumes inv: "sharded_inv c"
  shows "sharded_inv (Sharded_Erase key c)" "holds_value (Sharded_Erase key c) = (holds_value c)(key := None)"
    "held c h \<Longrightarrow> held (Sharded_Erase key c) h \<and> Sharded_Value h (Sharded_Erase key c) = Sharded_Value h c"
    "map capacity (shards (Sharded_Erase key c)) = map capacity (shards c)"
proof -
  let ?s = "shards c ! shard_of key" let ?r = "LRUCache_Erase key (HashSlice key) ?s"
  have l: "lru_inv ?s" by (rule shard_inv [OF inv shard_of_less])
  note r = LRUCache_Erase_inv [OF l, where key = key and hash = "HashSlice key"]
  have e: "Sharded_Erase key c = c\<lparr>shards := (shards c)[shard_of key := ?r]\<rparr>" by (simp add: Sharded_Erase_def Let_def shard_of_def)
  show "sharded_inv (Sharded_Erase key c)" using sharded_update [OF inv r(1)] by (simp add: e)
  show "holds_value (Sharded_Erase key c) = (holds_value c)(key := None)"
    using shard_updated [OF inv shard_of_less, of key ?r] r(2) by (auto simp: holds_value_def e fun_eq_iff)
  show "held (Sharded_Erase key c) h \<and> Sharded_Value h (Sharded_Erase key c) = Sharded_Value h c" if h: "held c h"
  proof -
    have "keeps_held ?s ?r (snd h)" if "fst h = shard_of key" using h that r(3,4) by (simp add: keeps_held_def held_def)
    from keeps_heldD [OF inv shard_of_less h this] show ?thesis by (simp add: e)
  qed
  have "capacity ?r = capacity ?s" using erase_entry_inv(5) [OF l] by (simp add: LRUCache_Erase_def)
  then show "map capacity (shards (Sharded_Erase key c)) = map capacity (shards c)"
    using inv by (simp add: e map_update list_update_same_conv sharded_inv_def)
qed

definition pruned :: "'v LRUCache \<Rightarrow> 'v LRUCache \<Rightarrow> bool" where
  "pruned s r \<longleftrightarrow> lru_inv r \<and> lru r = [] \<and> capacity r = capacity s \<and> (\<forall>p. 0 < pins s p \<longrightarrow> keeps_held s r p)"

lemma Prune_all: "\<forall>s \<in> set ss. lru_inv s \<Longrightarrow> \<exists>rs. those (map LRUCache_Prune ss) = Some rs \<and> list_all2 pruned ss rs"
proof (induction ss)
  case (Cons s ss)
  then obtain rs where rs: "those (map LRUCache_Prune ss) = Some rs" "list_all2 pruned ss rs" by auto
  obtain r where r: "evict (\<lambda>_. True) s = Some r" "evicted s r" "lru r = []" using evict_ends [of s "\<lambda>_. True"] Cons.prems by auto
  note ev = evictedD [OF r(2)]
  have "keeps_held s r p" if "0 < pins s p" for p using ev(4) ev(5) [OF that] that by (simp add: keeps_held_def)
  then have "pruned s r" using r(3) ev(1,2) by (simp add: pruned_def)
  moreover have "LRUCache_Prune s = Some r" by (simp add: LRUCache_Prune_def r(1))
  ultimately show ?case using rs by simp
qed simp

lemma Sharded_Prune_shards:
  assumes inv: "sharded_inv c"
  obtains rs where "Sharded_Prune c = Some (c\<lparr>shards := rs\<rparr>)" "sharded_inv (c\<lparr>shards := rs\<rparr>)" "\<forall>s \<in> set rs. lru s = []"
    "map capacity rs = map capacity (shards c)"
    "\<And>h. held c h \<Longrightarrow> held (c\<lparr>shards := rs\<rparr>) h \<and> Sharded_Value h (c\<lparr>shards := rs\<rparr>) = Sharded_Value h c"
proof -
  have len: "length (shards c) = kNumShards" and all: "\<forall>s \<in> set (shards c). lru_inv s" using inv by (simp_all add: sharded_inv_def)
  obtain rs where rs: "those (map LRUCache_Prune (shards c)) = Some rs" "list_all2 pruned (shards c) rs"
    using Prune_all [OF all] by blast
  have rlen: "length rs = kNumShards" using len list_all2_lengthD [OF rs(2)] by simp
  have "pruned (shards c ! i) (rs ! i)" if "i < kNumShards" for i using list_all2_nthD [OF rs(2), of i] that len by simp
  then have at: "lru_inv (rs ! i)" "lru (rs ! i) = []" "capacity (rs ! i) = capacity (shards c ! i)"
    "0 < pins (shards c ! i) p \<Longrightarrow> keeps_held (shards c ! i) (rs ! i) p" if "i < kNumShards" for i p
    using that unfolding pruned_def by blast+
  show thesis
  proof (rule that)
    show "Sharded_Prune c = Some (c\<lparr>shards := rs\<rparr>)" by (simp add: Sharded_Prune_def rs(1))
    show "sharded_inv (c\<lparr>shards := rs\<rparr>)" using rlen at(1) by (auto simp: sharded_inv_def in_set_conv_nth)
    show "\<forall>s \<in> set rs. lru s = []" using rlen at(2) by (auto simp: in_set_conv_nth)
    show "map capacity rs = map capacity (shards c)" using rlen len at(3) by (auto intro: nth_equalityI)
    show "held (c\<lparr>shards := rs\<rparr>) h \<and> Sharded_Value h (c\<lparr>shards := rs\<rparr>) = Sharded_Value h c" if h: "held c h" for h
    proof -
      have k: "keeps_held (shards c ! fst h) (rs ! fst h) (snd h)" using h at(4) by (simp add: held_def)
      then have "held (c\<lparr>shards := rs\<rparr>) h" using h by (simp add: held_def keeps_held_def)
      with k h show ?thesis by (simp add: held_value keeps_held_def)
    qed
  qed
qed

section \<open>Every reachable state\<close>

lemma cache_step_inv:
  assumes inv: "sharded_inv c" and st: "cache_step op c c'"
  shows "sharded_inv c'" "map capacity (shards c') = map capacity (shards c)"
    "held c g \<Longrightarrow> op \<noteq> Op_Release g \<Longrightarrow> held c' g \<and> Sharded_Value g c' = Sharded_Value g c"
proof -
  have cap: "map capacity (shards (c\<lparr>shards := (shards c)[i := s]\<rparr>)) = map capacity (shards c)"
    if "i < kNumShards" "capacity s = capacity (shards c ! i)" for i s
    using that inv by (simp add: map_update list_update_same_conv sharded_inv_def)
  from st have "sharded_inv c' \<and> map capacity (shards c') = map capacity (shards c) \<and>
    (held c g \<longrightarrow> op \<noteq> Op_Release g \<longrightarrow> held c' g \<and> Sharded_Value g c' = Sharded_Value g c)"
  proof cases
    case (insert key v n h)
    obtain s where s: "c' = c\<lparr>shards := (shards c)[shard_of key := s]\<rparr>" "lru_inv s" "capacity s = capacity (shards c ! shard_of key)"
      "\<And>p. 0 < pins (shards c ! shard_of key) p \<Longrightarrow> keeps_held (shards c ! shard_of key) s p"
      using Sharded_Insert_shard [OF inv, of key v n] insert(2) by (metis Pair_inject option.inject)
    have "held c' g \<and> Sharded_Value g c' = Sharded_Value g c" if g: "held c g"
      using keeps_heldD [OF inv shard_of_less g] s(4) g unfolding s(1) held_def by metis
    with s cap [OF shard_of_less s(3)] sharded_update [OF inv s(2)] show ?thesis by blast
  next
    case (lookup key r)
    obtain s where s: "c' = c\<lparr>shards := (shards c)[shard_of key := s]\<rparr>" "lru_inv s" "capacity s = capacity (shards c ! shard_of key)"
      "\<And>p. 0 < pins (shards c ! shard_of key) p \<Longrightarrow> keeps_held (shards c ! shard_of key) s p"
      using Sharded_Lookup_shard [OF inv lookup(2)] by metis
    have "held c' g \<and> Sharded_Value g c' = Sharded_Value g c" if g: "held c g"
      using keeps_heldD [OF inv shard_of_less g] s(4) g unfolding s(1) held_def by metis
    with s cap [OF shard_of_less s(3)] sharded_update [OF inv s(2)] show ?thesis by blast
  next
    case (release h)
    with Sharded_Release_shard [OF inv release(3)] show ?thesis by blast
  next
    case (erase key)
    with Sharded_Erase_shard [OF inv] show ?thesis by blast
  next
    case prune
    then show ?thesis using Sharded_Prune_shards [OF inv] by (metis LRUCache.select_convs(1) ShardedLRUCache.select_convs(1) ShardedLRUCache.surjective ShardedLRUCache.update_convs(1) option.inject)
  next
    case new_id
    then show ?thesis using inv by (simp add: NewId_def sharded_inv_def held_def Sharded_Value_def)
  qed
  then show "sharded_inv c'" "map capacity (shards c') = map capacity (shards c)"
    "held c g \<Longrightarrow> op \<noteq> Op_Release g \<Longrightarrow> held c' g \<and> Sharded_Value g c' = Sharded_Value g c" by blast+
qed

lemma cache_reach_inv:
  assumes "cache_reach cap c"
  shows "sharded_inv c" "\<forall>s \<in> set (shards c). capacity s = (cap + 15) div 16"
proof -
  from assms have "sharded_inv c \<and> map capacity (shards c) = map capacity (shards (NewLRUCache cap :: 'a ShardedLRUCache))"
  proof induction
    case start
    then show ?case using NewLRUCache_inv by blast
  next
    case (step c op c')
    then show ?case using cache_step_inv [of c op c'] by simp
  qed
  then have inv: "sharded_inv c" and m: "map capacity (shards c) = replicate 16 ((cap + 15) div 16)"
    by (simp_all add: NewLRUCache_def new_LRUCache_def kNumShards_def kNumShardBits_def)
  show "sharded_inv c" by (rule inv)
  show "\<forall>s \<in> set (shards c). capacity s = (cap + 15) div 16"
  proof
    fix s
    assume "s \<in> set (shards c)"
    then have "capacity s \<in> set (map capacity (shards c))" by simp
    then show "capacity s = (cap + 15) div 16" by (simp add: m)
  qed
qed

text \<open>An insertion is found by the next lookup of its key, even if the cache is full.\<close>

lemma insert_then_lookup:
  assumes "cache_reach cap c" and "0 < cap"
  obtains h c' h' c'' where "Sharded_Insert key v n c = Some (h, c')" "held c' h" "Sharded_Value h c' = v"
    "usage (shards c' ! fst h) \<le> (cap + 15) div 16 \<or> lru (shards c' ! fst h) = []"
    "Sharded_Lookup key c' = (Some h', c'')" "held c'' h'" "Sharded_Value h' c'' = v"
proof -
  note inv = cache_reach_inv [OF assms(1)]
  have len: "shard_of key < length (shards c)" using inv(1) by (simp add: sharded_inv_def)
  obtain s where s: "Sharded_Insert key v n c = Some ((shard_of key, next_handle (shards c ! shard_of key)), c\<lparr>shards := (shards c)[shard_of key := s]\<rparr>)"
    "lru_inv s" "capacity s = capacity (shards c ! shard_of key)" "usage s \<le> capacity s \<or> lru s = []"
    "0 < pins s (next_handle (shards c ! shard_of key))" "handle_value s (next_handle (shards c ! shard_of key)) = Some v"
    "0 < capacity s \<Longrightarrow> content s key (HashSlice key) = Some v"
    by (rule Sharded_Insert_shard [OF inv(1), of key v n]) (rule that; assumption)
  let ?h = "(shard_of key, next_handle (shards c ! shard_of key))" and ?c = "c\<lparr>shards := (shards c)[shard_of key := s]\<rparr>"
  have sh: "shards ?c ! shard_of key = s" using len by simp
  have cap: "capacity s = (cap + 15) div 16" using inv(2) s(3) nth_mem [OF len] by simp
  with assms(2) have "holds_value ?c key = Some v" using s(7) sh by (simp add: holds_value_def)
  moreover have h: "held ?c ?h" using s(5) sh by (simp add: held_def)
  moreover have "Sharded_Value ?h ?c = v" using held_value [OF h] s(6) sh by simp
  moreover obtain r c'' where look: "Sharded_Lookup key ?c = (r, c'')" by fastforce
  moreover have "case r of None \<Rightarrow> holds_value ?c key = None | Some h \<Rightarrow> held c'' h \<and> fst h = shard_of key \<and> holds_value ?c key = Some (Sharded_Value h c'')"
    by (rule Sharded_Lookup_shard [OF sharded_update [OF inv(1) s(2)] look])
  ultimately show thesis using s(1,4) cap sh by (cases r) (auto intro!: that)
qed

end
