(* ===== verification/Ldb_Table_Cache.thy ===== *)
theory Ldb_Table_Cache
  imports Ldb_Table_Proofs Ldb_Cache_Proofs
begin

text \<open>
  The tables over the cache and the files of the library: \<open>ShardedLRUCache\<close> with blocks as its values is a block cache, and
  both kinds of random access files can be read through it. A table that reads a block holds its handle while the iterator on
  the block lives; as iterators own their block in the model, the handle is released at once, which leaves the cache more
  freedom to evict than the code gives it.
\<close>

section \<open>The cache of a table\<close>

definition lookup_block :: "slice \<Rightarrow> Block ShardedLRUCache \<Rightarrow> Block option \<times> Block ShardedLRUCache" where
  "lookup_block key c =
     (let (r, c) = Sharded_Lookup key c
      in case r of None \<Rightarrow> (None, c) | Some h \<Rightarrow> (Some (Sharded_Value h c), Sharded_Release h c))"

definition insert_block :: "slice \<Rightarrow> Block \<Rightarrow> nat \<Rightarrow> Block ShardedLRUCache \<Rightarrow> Block ShardedLRUCache" where
  "insert_block key b charge c = (case Sharded_Insert key b charge c of None \<Rightarrow> c | Some (h, c) \<Rightarrow> Sharded_Release h c)"

definition sharded_ops :: "Block ShardedLRUCache cache_ops" where
  "sharded_ops = \<lparr>cache_Lookup = lookup_block, cache_Insert = insert_block, cache_NewId = NewId\<rparr>"

lemma lookup_block_holds:
  assumes inv: "sharded_inv c" and look: "lookup_block key c = (r, c')"
  shows "sharded_inv c'" "holds_value c' = holds_value c" "r = holds_value c key"
proof -
  obtain r1 c1 where l: "Sharded_Lookup key c = (r1, c1)" by fastforce
  obtain s where s: "c1 = c\<lparr>shards := (shards c)[shard_of key := s]\<rparr>" "lru_inv s" "content s = content (shards c ! shard_of key)"
    "case r1 of None \<Rightarrow> holds_value c key = None | Some h \<Rightarrow> held c1 h \<and> fst h = shard_of key \<and> holds_value c key = Some (Sharded_Value h c1)"
    by (rule Sharded_Lookup_shard [OF inv l]) (rule that; assumption)
  have inv1: "sharded_inv c1" using sharded_update [OF inv s(2)] by (simp add: s(1))
  have same: "holds_value c1 = holds_value c"
    using shard_updated [OF inv shard_of_less, of key s] s(3) by (auto simp: holds_value_def s(1) fun_eq_iff)
  have "sharded_inv c' \<and> holds_value c' = holds_value c \<and> r = holds_value c key"
  proof (cases r1)
    case None
    with look l inv1 same s(4) show ?thesis by (auto simp: lookup_block_def)
  next
    case (Some h)
    then have r: "r = Some (Sharded_Value h c1)" "c' = Sharded_Release h c1" using look l by (simp_all add: lookup_block_def)
    have "held c1 h" using s(4) Some by simp
    from Sharded_Release_shard [OF inv1 this] r same s(4) Some show ?thesis by simp
  qed
  then show "sharded_inv c'" "holds_value c' = holds_value c" "r = holds_value c key" by blast+
qed

lemma insert_block_holds:
  assumes inv: "sharded_inv c"
  shows "sharded_inv (insert_block key b n c)"
    "holds_value (insert_block key b n c) k = Some w \<Longrightarrow> k = key \<and> w = b \<or> holds_value c k = Some w"
proof -
  let ?s = "shards c ! shard_of key"
  obtain s where s: "Sharded_Insert key b n c = Some ((shard_of key, next_handle ?s), c\<lparr>shards := (shards c)[shard_of key := s]\<rparr>)"
    "lru_inv s" "0 < pins s (next_handle ?s)"
    "\<And>k h w. content s k h = Some w \<Longrightarrow> k = key \<and> h = HashSlice key \<and> w = b \<or> content ?s k h = Some w"
    by (rule Sharded_Insert_shard [OF inv, of key b n]) (rule that; assumption)
  let ?c = "c\<lparr>shards := (shards c)[shard_of key := s]\<rparr>" and ?h = "(shard_of key, next_handle ?s)"
  have inv1: "sharded_inv ?c" by (rule sharded_update [OF inv s(2)])
  note u = shard_updated [OF inv shard_of_less, of key s]
  have h: "held ?c ?h" using s(3) u [of "shard_of key"] by (simp add: held_def)
  have r: "insert_block key b n c = Sharded_Release ?h ?c" by (simp add: insert_block_def s(1))
  note rel = Sharded_Release_shard [OF inv1 h]
  show "sharded_inv (insert_block key b n c)" using rel(1) r by simp
  show "k = key \<and> w = b \<or> holds_value c k = Some w" if "holds_value (insert_block key b n c) k = Some w"
  proof -
    have "content (shards ?c ! shard_of k) k (HashSlice k) = Some w" using that rel(2) r by (simp add: holds_value_def)
    then show ?thesis using s(4) [of k "HashSlice k" w] u [of "shard_of k"] by (cases "shard_of k = shard_of key") (auto simp: holds_value_def)
  qed
qed

interpretation sharded: block_cache sharded_ops holds_value sharded_inv
proof
  fix c :: "Block ShardedLRUCache" and k b c' r n i
  show "holds_value c k = Some b" if "sharded_inv c" "cache_Lookup sharded_ops k c = (Some b, c')"
    using lookup_block_holds(3) [OF that(1), of k "Some b" c'] that(2) by (simp add: sharded_ops_def)
  show "sharded_inv c' \<and> (\<forall>k b. holds_value c' k = Some b \<longrightarrow> holds_value c k = Some b)"
    if "sharded_inv c" "cache_Lookup sharded_ops k c = (r, c')"
    using lookup_block_holds(1,2) [OF that(1), of k r c'] that(2) by (simp add: sharded_ops_def)
  show "sharded_inv (cache_Insert sharded_ops k b n c) \<and>
      (\<forall>k' b'. holds_value (cache_Insert sharded_ops k b n c) k' = Some b' \<longrightarrow> k' = k \<and> b' = b \<or> holds_value c k' = Some b')"
    if "sharded_inv c"
    using insert_block_holds [OF that, of k b n] unfolding sharded_ops_def cache_ops.select_convs by blast
  show "sharded_inv c' \<and> (\<forall>k b. holds_value c' k = Some b \<longrightarrow> holds_value c k = Some b)"
    if "sharded_inv c" "cache_NewId sharded_ops c = (i, c')"
    using that by (auto simp: sharded_ops_def NewId_def sharded_inv_def holds_value_def)
qed

section \<open>Tables in files of the operating system\<close>

interpretation posix_reader: table_reader PosixRandomAccessFile_Read rcontents rsteady sharded_ops holds_value sharded_inv
  internal_valid "InternalKeyComparator_Compare Compare" "InternalKeyComparator_FindShortestSeparator Compare FindShortestSeparator"
  "InternalKeyComparator_FindShortSuccessor Compare FindShortSuccessor" a port ropt for a port ropt
  by unfold_locales

interpretation mmap_reader: table_reader PosixMmapReadableFile_Read mmap_bytes "\<lambda>f. length (mmap_bytes f) < 2 ^ 63" sharded_ops holds_value
  sharded_inv internal_valid "InternalKeyComparator_Compare Compare" "InternalKeyComparator_FindShortestSeparator Compare FindShortestSeparator"
  "InternalKeyComparator_FindShortSuccessor Compare FindShortSuccessor" a port ropt for a port ropt
  by unfold_locales

text \<open>The options of a database: the comparator of internal keys, and a restart interval that the code asserts.\<close>

definition internal_options :: "Options \<Rightarrow> bool" where
  "internal_options opt \<longleftrightarrow> o_Compare opt = InternalKeyComparator_Compare Compare \<and>
     o_FindShortestSeparator opt = InternalKeyComparator_FindShortestSeparator Compare FindShortestSeparator \<and>
     o_FindShortSuccessor opt = InternalKeyComparator_FindShortSuccessor Compare FindShortSuccessor \<and> 1 \<le> o_block_restart_interval opt"

text \<open>Entries as a table takes them: internal keys in strictly increasing order.\<close>

definition table_entries :: "entries \<Rightarrow> bool" where
  "table_entries es \<longleftrightarrow> (\<forall>e \<in> set es. internal_valid (fst e)) \<and> sorted_wrt (\<lambda>a b. InternalKeyComparator_Compare Compare (fst a) (fst b) < 0) es"

text \<open>A cache without entries under the number that the next table gets.\<close>

definition cache_fresh :: "Block ShardedLRUCache option \<Rightarrow> bool" where
  "cache_fresh cache \<longleftrightarrow> (\<forall>c. cache = Some c \<longrightarrow> sharded_inv c \<and> (\<forall>h. holds_value c (cache_key (fst (NewId c)) h) = None))"

lemma new_cache_fresh: "cache_fresh (Some (NewLRUCache cap))"
proof -
  have "holds_value (NewLRUCache cap :: Block ShardedLRUCache) k = None" for k
  proof -
    have "shards (NewLRUCache cap :: Block ShardedLRUCache) ! shard_of k = new_LRUCache ((cap + (kNumShards - 1)) div kNumShards)"
      by (simp add: NewLRUCache_def)
    moreover have "HandleTable_Lookup (\<lambda>_. None :: Block LRUHandle option) k h new_HandleTable = None" for h
      using HandleTable_Lookup_None [OF table_inv_new [of "\<lambda>_. None :: Block LRUHandle option"], of k h] by (simp add: is_entry_def)
    ultimately show ?thesis by (simp add: holds_value_def content_def new_LRUCache_def)
  qed
  then show ?thesis using NewLRUCache_inv by (auto simp: cache_fresh_def)
qed

lemma posix_table_opens:
  assumes "wvalid f" and "wcontents f = []" and opt: "internal_options opt" and port: "snappy_ok port" and es: "table_entries es"
    and built: "build_table a PosixWritableFile_Append PosixWritableFile_Flush port opt f es = (s, tb)" "ok s"
    and g: "rsteady g" "rcontents g = wcontents (t_file tb)" "length (rcontents g) < 2 ^ 32" and cache: "cache_fresh cache"
  obtains tab D where "Table_Open a' PosixRandomAccessFile_Read port sharded_ops opt g cache (FileSize tb) = Some (OK, Some tab)"
    "posix_reader.opened port tab D" "entries_of D = es" "tab_options tab = opt"
proof -
  have o: "posix_table.options_ok opt" using opt by (simp add: internal_options_def posix_table.options_ok_def)
  obtain D where D: "table_image internal_valid port opt (wcontents (t_file tb)) D" "entries_of D = es"
    "FileSize tb = word_of_nat (length (wcontents (t_file tb)))"
    using posix_table.build_table_image [OF assms(1,2) o port _ built] es by (auto simp: table_entries_def)
  have "\<forall>c. cache = Some c \<longrightarrow> posix_reader.fresh_id c"
    unfolding posix_reader.fresh_id_def using cache by (simp add: cache_fresh_def sharded_ops_def)
  from posix_reader.Table_Open_ok [OF D(1) [folded g(2)] g(1,3) _ _ this, of a'] opt D(2,3) g(2) that show thesis
    by (auto simp: internal_options_def)
qed

section \<open>A small table\<close>

context reliable_file
begin

lemma WriteBlock_grows:
  assumes g: "good tb" and v: "valid (t_file tb)" and w: "WriteBlock a append port_stdcxx (block_builder n es) tb = (h, b, tb')"
  shows "good tb'" "valid (t_file tb')" "length (contents (t_file tb')) = length (contents (t_file tb)) + length (build_block n es) + 5"
    "h = \<lparr>h_offset = t_offset tb, h_size = word_of_nat (length (build_block n es))\<rparr>"
    "tb' = tb\<lparr>t_status := OK, t_file := t_file tb', t_offset := t_offset tb + word_of_nat (length (build_block n es) + kBlockTrailerSize)\<rparr>"
proof -
  have "fst (BlockBuilder_Finish (block_builder n es)) = build_block n es" by (rule Finish_block_builder)
  then obtain b' where b': "BlockBuilder_Finish (block_builder n es) = (build_block n es, b')" by (metis prod.collapse)
  have "compressed port_stdcxx t raw = (raw, kNoCompression)" for t raw by (cases t) (simp_all add: compressed_def port_stdcxx_def)
  with w have r: "WriteRawBlock a append (build_block n es) kNoCompression tb = (h, tb')"
    by (auto simp: WriteBlock_def Let_def b' split: prod.splits)
  show g': "good tb'" using WriteRawBlock_good [OF g, of a "build_block n es" kNoCompression] r by simp
  then have "ok (t_status tb')" by (simp add: good_def)
  note o = WriteRawBlock_ok [OF r this v]
  show "valid (t_file tb')" "h = \<lparr>h_offset = t_offset tb, h_size = word_of_nat (length (build_block n es))\<rparr>"
    "tb' = tb\<lparr>t_status := OK, t_file := t_file tb', t_offset := t_offset tb + word_of_nat (length (build_block n es) + kBlockTrailerSize)\<rparr>"
    by (fact o)+
  show "length (contents (t_file tb')) = length (contents (t_file tb)) + length (build_block n es) + 5"
    using o(2) by (simp add: length_stored kBlockTrailerSize_def)
qed

text \<open>The size of a table with one entry, without a filter and without compression.\<close>

lemma single_entry_table_length:
  assumes f: "reliable f" "valid f" "contents f = []" and opt: "o_filter_policy opt = None"
    "CurrentSizeEstimate (block_builder (o_block_restart_interval opt) [(k, v)]) < o_block_size opt"
  defines "n \<equiv> o_block_restart_interval opt"
  shows "length (contents (t_file (snd (build_table a append flush port_stdcxx opt f [(k, v)])))) =
    length (build_block n [(k, v)]) + length (build_block n []) +
    length (build_block 1 [(o_FindShortSuccessor opt k, handle_bytes \<lparr>h_offset = 0, h_size = word_of_nat (length (build_block n [(k, v)]))\<rparr>)]) + 63"
proof -
  let ?tb = "(new_TableBuilder opt f)\<lparr>t_last_key := k, num_entries := 1, data_block := block_builder n [(k, v)]\<rparr>"
  have add: "TableBuilder_Add a append flush port_stdcxx (new_TableBuilder opt f) k v = ?tb"
    using opt by (simp add: TableBuilder_Add_def new_TableBuilder_def Let_def n_def block_builder_def)
  have tb: "good ?tb" "valid (t_file ?tb)" using f by (simp_all add: good_def new_TableBuilder_def)
  obtain h b tb1 where w1: "WriteBlock a append port_stdcxx (block_builder n [(k, v)]) ?tb = (h, b, tb1)" by (metis prod_cases3)
  note g1 = WriteBlock_grows [OF tb w1]
  have h: "h = \<lparr>h_offset = 0, h_size = word_of_nat (length (build_block n [(k, v)]))\<rparr>" using g1(4) by (simp add: new_TableBuilder_def)
  obtain s f2 where fl: "flush (t_file tb1) = (s, f2)" by fastforce
  have s: "ok s" "reliable f2" "valid f2" "contents f2 = contents (t_file tb1)"
    using flush_reliable [OF _ fl] flush_valid [OF _ fl] flush_ok [OF _ fl] g1(1,2) by (auto simp: good_def)
  define tb2 where "tb2 = tb1\<lparr>data_block := b, pending_handle := h, pending_index_entry := True, t_status := s, t_file := f2, closed := True\<rparr>"
  have keep: "t_options tb1 = opt" "filter_builder tb1 = None" "index_block tb1 = new_BlockBuilder 1" "t_last_key tb1 = k"
    by (subst g1(5), simp add: new_TableBuilder_def opt(1))+
  have "\<not> BlockBuilder_empty (block_builder n [(k, v)])" by (simp add: empty_block_builder)
  moreover have "ok (t_status tb1)" using g1(1) by (simp add: good_def)
  ultimately have flush: "(Flush a append flush port_stdcxx ?tb)\<lparr>closed := True\<rparr> = tb2"
    using w1 fl keep(2) by (simp add: Flush_def tb2_def new_TableBuilder_def)
  have tb2: "good tb2" "valid (t_file tb2)" "filter_builder tb2 = None" "t_options tb2 = opt" "pending_index_entry tb2" "index_block tb2 = new_BlockBuilder 1"
      "t_last_key tb2 = k" "pending_handle tb2 = h" "ok (t_status tb2)" "length (contents (t_file tb2)) = length (build_block n [(k, v)]) + 5"
    using s keep g1(3) f(3) by (simp_all add: tb2_def good_def new_TableBuilder_def)
  obtain mh b3 tb3 where w3: "WriteBlock a append port_stdcxx (block_builder n []) tb2 = (mh, b3, tb3)" by (metis prod_cases3)
  note g3 = WriteBlock_grows [OF tb2(1,2) w3]
  have tb3: "t_options tb3 = opt" "pending_index_entry tb3" "index_block tb3 = new_BlockBuilder 1" "t_last_key tb3 = k" "pending_handle tb3 = h"
    by (subst g3(5), simp add: tb2)+
  have meta: "finish_metaindex a append port_stdcxx new_BlockHandle tb2 = (mh, tb3)"
    using w3 tb2 by (simp add: finish_metaindex_def block_builder_Nil n_def)
  define tb4 where "tb4 = add_index_entry (o_FindShortSuccessor opt k) tb3"
  let ?ix = "[(o_FindShortSuccessor opt k, handle_bytes h)]"
  have tb4: "good tb4" "valid (t_file tb4)" "index_block tb4 = block_builder 1 ?ix" "contents (t_file tb4) = contents (t_file tb3)"
    using g3(1,2) tb3 by (simp_all add: tb4_def add_index_entry_def good_def block_builder_def BlockHandle_EncodeTo_bytes)
  obtain ih b5 tb5 where w5: "WriteBlock a append port_stdcxx (block_builder 1 ?ix) tb4 = (ih, b5, tb5)" by (metis prod_cases3)
  note g5 = WriteBlock_grows [OF tb4(1,2) w5]
  have "ok (t_status tb3)" using g3(1) by (simp add: good_def)
  then have index: "finish_index a append port_stdcxx tb3 = (ih, tb5\<lparr>index_block := b5\<rparr>)"
    using w5 tb3 tb4(3) by (simp add: finish_index_def tb4_def [symmetric])
  let ?foot = "\<lparr>metaindex_handle = mh, index_handle = ih\<rparr>"
  obtain s6 f6 where ap: "append (t_file tb5) (Footer_EncodeTo [] ?foot) = (s6, f6)" by fastforce
  have f6: "ok s6" "contents f6 = contents (t_file tb5) @ Footer_EncodeTo [] ?foot"
    using append_reliable [OF _ ap] append_ok [OF g5(2) ap] g5(1) by (auto simp: good_def)
  have "snd (build_table a append flush port_stdcxx opt f [(k, v)]) = finish_footer append ?foot (tb5\<lparr>index_block := b5\<rparr>)"
    by (simp add: build_table_def add TableBuilder_Finish_def flush finish_filter_def tb2(3) meta index Let_def)
  moreover have "ok (t_status tb5)" using g5(1) by (simp add: good_def)
  ultimately have "contents (t_file (snd (build_table a append flush port_stdcxx opt f [(k, v)]))) = contents (t_file tb5) @ Footer_EncodeTo [] ?foot"
    using ap f6 by (simp add: finish_footer_def)
  then show ?thesis using g5(3) g3(3) tb2(10) tb4(4) h by (simp add: Footer_length kEncodedLength_def kMaxEncodedLength_def)
qed

end

text \<open>The options of a database with the default sizes, and a new file.\<close>

definition default_options :: Options where
  "default_options = \<lparr>o_Compare = InternalKeyComparator_Compare Compare,
     o_FindShortestSeparator = InternalKeyComparator_FindShortestSeparator Compare FindShortestSeparator,
     o_FindShortSuccessor = InternalKeyComparator_FindShortSuccessor Compare FindShortSuccessor, o_block_size = 4096,
     o_block_restart_interval = 16, o_compression = kSnappyCompression, o_filter_policy = None, o_paranoid_checks = False\<rparr>"

definition new_file :: PosixWritableFile where
  "new_file = \<lparr>buf = [], wfd = \<lparr>fdata = [], fpos = 0, fsched = [Transfers 3, Fails EINTR], strerror = \<lambda>_. []\<rparr>, wfilename = []\<rparr>"

definition file_with :: "byte list \<Rightarrow> PosixRandomAccessFile" where
  "file_with d = \<lparr>has_permanent_fd = True, rfd = \<lparr>fdata = d, fpos = 0, fsched = [], strerror = \<lambda>_. []\<rparr>, rfilename = []\<rparr>"

lemma new_file_good: "wvalid new_file" "wcontents new_file = []" "wreliable new_file"
  by (simp_all add: new_file_def wvalid_def wcontents_def wreliable_def kWritableFileBufferSize_def)

lemma default_options_internal: "internal_options default_options"
  by (simp add: internal_options_def default_options_def)

lemma file_with_good: "length d < 2 ^ 32 \<Longrightarrow> rsteady (file_with d)" "rcontents (file_with d) = d"
  by (simp_all add: rsteady_def rcontents_def file_with_def)

lemma small_entries: "table_entries [([1, 1, 5, 0, 0, 0, 0, 0, 0], [3])]"
  by (simp add: table_entries_def internal_valid_def)

lemma small_table:
  obtains tb where "build_table 0 PosixWritableFile_Append PosixWritableFile_Flush port_stdcxx default_options new_file
      [([1, 1, 5, 0, 0, 0, 0, 0, 0], [3])] = (OK, tb)" "length (wcontents (t_file tb)) < 2 ^ 32"
proof -
  let ?e = "([1, 1, 5, 0, 0, 0, 0, 0, 0], [3]) :: slice \<times> slice"
  obtain s tb where b: "build_table 0 PosixWritableFile_Append PosixWritableFile_Flush port_stdcxx default_options new_file [?e] = (s, tb)" by fastforce
  have "ok s" using wr.build_table_good [OF new_file_good(3), of 0 port_stdcxx default_options "[?e]"] b by simp
  moreover have "length (wcontents (t_file tb)) < 2 ^ 32"
  proof -
    have size: "CurrentSizeEstimate (block_builder 16 [?e]) < 4096" by code_simp
    have blocks: "length (build_block 16 [?e]) = 21" "length (build_block 16 []) = 8" by code_simp+
    have ix: "length (build_block 1 [(InternalKeyComparator_FindShortSuccessor Compare FindShortSuccessor (fst ?e),
        handle_bytes \<lparr>h_offset = 0, h_size = 21\<rparr>)]) = 22" by code_simp
    have "length (wcontents (t_file tb)) = 114"
      using wr.single_entry_table_length [OF new_file_good(3,1,2), of default_options "fst ?e" "snd ?e" 0] b size blocks ix
      by (simp add: default_options_def)
    then show ?thesis by simp
  qed
  ultimately show thesis using b that by (simp add: ok_iff_OK)
qed

end
