(* ===== verification/Ldb_Table_Merge.thy ===== *)
theory Ldb_Table_Merge
  imports Ldb_Table_Cache Ldb_Merger
begin

text \<open>
  Merging the blocks of several tables: blocks of internal keys, all different, are what the merging iterator expects of its
  children.
\<close>

section \<open>Merging blocks\<close>

context comparator
begin

lemma sorted_same_mset:
  "sorted_wrt (\<lambda>a b. cmp (fst a) (fst b) < 0) xs \<Longrightarrow> sorted_wrt (\<lambda>a b. cmp (fst a) (fst b) < 0) ys \<Longrightarrow> \<forall>e \<in> set xs. valid (fst e) \<Longrightarrow>
     mset xs = mset ys \<Longrightarrow> xs = ys"
proof (induction xs arbitrary: ys)
  case (Cons x xs)
  then obtain y ys' where ys: "ys = y # ys'" by (cases ys) auto
  have set: "set (x # xs) = set (y # ys')" using mset_eq_setD [OF Cons.prems(4)] ys by simp
  have "x = y"
  proof (rule ccontr)
    assume "x \<noteq> y"
    with set have "x \<in> set ys'" "y \<in> set xs" by auto
    then have "cmp (fst y) (fst x) < 0" "cmp (fst x) (fst y) < 0" using Cons.prems(1,2) ys by simp_all
    moreover have "valid (fst x)" "valid (fst y)" using Cons.prems(3) \<open>y \<in> set xs\<close> by simp_all
    ultimately show False using cmp_flip [of "fst x" "fst y"] by simp
  qed
  with Cons.IH [of ys'] Cons.prems ys show ?case by simp
qed simp

lemma sorted_distinct_keys:
  assumes "sorted_wrt (\<lambda>a b. cmp (fst a) (fst b) < 0) xs" and "\<forall>e \<in> set xs. valid (fst e)"
  shows "distinct (map fst xs)"
  using assms
proof (induction xs)
  case (Cons x xs)
  then have "fst x \<noteq> fst e" if "e \<in> set xs" for e using that cmp_irrefl [of "fst x"] by auto
  with Cons show ?case by auto
qed simp

end

lemma distinct_concat_index:
  "distinct (concat xss) \<Longrightarrow> i < length xss \<Longrightarrow> j < length xss \<Longrightarrow> x \<in> set (xss ! i) \<Longrightarrow> x \<in> set (xss ! j) \<Longrightarrow> i = j"
proof (induction xss arbitrary: i j)
  case (Cons xs xss)
  have "x \<notin> set (xss ! k)" if "x \<in> set xs" "k < length xss" for k using Cons.prems(1) that by (auto simp: disjoint_iff)
  with Cons show ?case by (cases i; cases j) auto
qed simp

lemma filter_concat_index:
  assumes "i < length xss" and "\<And>j e. j < length xss \<Longrightarrow> e \<in> set (xss ! j) \<Longrightarrow> P e \<longleftrightarrow> j = i"
  shows "filter P (concat xss) = xss ! i"
proof -
  have none: "filter P (concat yss) = []" if "\<And>ys. ys \<in> set yss \<Longrightarrow> \<exists>j < length xss. j \<noteq> i \<and> ys = xss ! j" for yss
    using that assms(2) by (fastforce simp: filter_empty_conv)
  have "filter P (concat (take i xss)) = []"
  proof (rule none)
    fix ys
    assume "ys \<in> set (take i xss)"
    then obtain j where "j < i" "ys = xss ! j" by (auto simp: in_set_conv_nth)
    with assms(1) show "\<exists>j < length xss. j \<noteq> i \<and> ys = xss ! j" by (intro exI [of _ j]) simp
  qed
  moreover have "filter P (concat (drop (Suc i) xss)) = []"
  proof (rule none)
    fix ys
    assume "ys \<in> set (drop (Suc i) xss)"
    then obtain j where "j < length xss - Suc i" "ys = xss ! (Suc i + j)" by (auto simp: in_set_conv_nth)
    then show "\<exists>j < length xss. j \<noteq> i \<and> ys = xss ! j" by (intro exI [of _ "Suc i + j"]) simp
  qed
  moreover have "filter P (xss ! i) = xss ! i" using assms by (simp add: filter_id_conv)
  ultimately show ?thesis using id_take_nth_drop [OF assms(1)] by (metis append_Nil append_Nil2 concat.simps(2) concat_append filter_append)
qed

text \<open>Blocks with different keys are the parts of the merged list.\<close>

lemma merged_blocks_pos:
  assumes n: "1 \<le> n" and len: "length ess = length its" and M: "table_entries M" "mset M = mset (concat ess)"
    and blocks: "\<forall>i < length its. table_entries (ess ! i) \<and> length (build_block n (ess ! i)) < 2 ^ 32 \<and>
      NewIterator (new_Block (build_block n (ess ! i))) = NewIter (its ! i)"
  shows "merge_pos internal_valid (InternalKeyComparator_Compare Compare) block_merge.wpos M (length M)
    (new_MergingIterator (block_iterator (InternalKeyComparator_Compare Compare)) its)"
proof -
  let ?cmp = "InternalKeyComparator_Compare Compare"
  define own where "own k = (LEAST i. i < length ess \<and> k \<in> fst ` set (ess ! i))" for k
  have sM: "sorted_wrt (\<lambda>a b. ?cmp (fst a) (fst b) < 0) M" "\<forall>e \<in> set M. internal_valid (fst e)" using M(1) by (simp_all add: table_entries_def)
  have "distinct (map fst M)" by (rule internal.sorted_distinct_keys [OF sM])
  moreover have "mset (map fst M) = mset (map fst (concat ess))" using M(2) by simp
  ultimately have d: "distinct (concat (map (map fst) ess))" using mset_eq_imp_distinct_iff by (metis map_concat)
  have own: "own (fst e) = j" if "j < length ess" "e \<in> set (ess ! j)" for j e
    unfolding own_def
  proof (rule Least_equality)
    show "j < length ess \<and> fst e \<in> fst ` set (ess ! j)" using that by simp
    show "j \<le> i" if i: "i < length ess \<and> fst e \<in> fst ` set (ess ! i)" for i
      using distinct_concat_index [OF d, of j i "fst e"] i \<open>j < length ess\<close> \<open>e \<in> set (ess ! j)\<close> by simp
  qed
  have "own (fst e) < length its" if "e \<in> set M" for e
  proof -
    have "e \<in> set (concat ess)" using mset_eq_setD [OF M(2)] that by simp
    then obtain j where "j < length ess" "e \<in> set (ess ! j)" by (auto simp: in_set_conv_nth) (metis nth_mem)
    with own len show ?thesis by simp
  qed
  then have "merges internal_valid ?cmp own M (length its)" using sM by (simp add: merges_def)
  moreover have "\<exists>q. block_pos internal_valid ?cmp (part own i M) q (its ! i)" if i: "i < length its" for i
  proof -
    note b = blocks [rule_format, OF i]
    have e: "sorted_wrt (\<lambda>a b. ?cmp (fst a) (fst b) < 0) (ess ! i)" "\<forall>e \<in> set (ess ! i). internal_valid (fst e)" using b by (simp_all add: table_entries_def)
    have "filter (\<lambda>e. own (fst e) = i) (concat ess) = ess ! i" by (rule filter_concat_index) (use i len own in auto)
    then have "mset (part own i M) = mset (ess ! i)" unfolding part_def mset_filter M(2) by (simp flip: mset_filter)
    moreover have "sorted_wrt (\<lambda>a b. ?cmp (fst a) (fst b) < 0) (part own i M)" "\<forall>e \<in> set (part own i M). internal_valid (fst e)"
      using sM by (simp_all add: part_def sorted_wrt_filter)
    ultimately have "part own i M = ess ! i" using internal.sorted_same_mset e(1) by blast
    with internal.open_block [OF n _ e(2,1)] b show ?thesis by auto
  qed
  ultimately show ?thesis by (rule block_merge.new_merging_pos)
qed

end
