(* ===== verification/Ldb_Db_Iter_Proofs.thy ===== *)
theory Ldb_Db_Iter_Proofs
  imports Ldb_Db_Iter Ldb_Table_Merge
begin

unbundle bit_operations_syntax

text \<open>
  The iterator of a database is correct: over any source that meets the contract of iterators it is an iterator over the
  snapshot, in both directions and across changes of direction, and its loops end, that of the read samples included. The
  snapshot has, in the order of the user keys, the keys whose newest visible entry is a value.
\<close>

section \<open>Read samples\<close>

definition seed_ok :: "u32 \<Rightarrow> bool" where
  "seed_ok seed \<longleftrightarrow> 0 < unat seed \<and> unat seed < 2147483647"

lemma period_eq: "RandomCompactionPeriod seed = (unat (Random_Next seed) mod 2097152, Random_Next seed)"
  by (simp add: RandomCompactionPeriod_def Uniform_def kReadBytesPeriod_def unat_mod Let_def)

lemma seed_ok_new: "seed_ok (new_Random s)"
proof -
  let ?t = "s AND 0x7fffffff"
  have "?t = take_bit 31 s" by (simp add: take_bit_eq_mask mask_eq_exp_minus_1)
  then have "unat ?t < 2 ^ 31" using take_bit_nat_less_exp [of 31 "unat s"] by (simp add: unsigned_take_bit_eq)
  moreover have "unat ?t = 0 \<longleftrightarrow> ?t = 0" by (rule unat_eq_0)
  moreover have "unat ?t = 2147483647 \<longleftrightarrow> ?t = 2147483647" by (simp add: word_unat_eq_iff)
  ultimately show ?thesis by (auto simp: seed_ok_def new_Random_def Let_def)
qed

lemma seed_ok_next: "seed_ok seed \<Longrightarrow> seed_ok (Random_Next seed)"
  using Random_Next_correct [of seed] by (simp add: seed_ok_def)

text \<open>A seed that is a multiple of \<open>2 ^ 21\<close> is never followed by another one, so two draws cannot both be zero: multiplying
  \<open>k * 2 ^ 21\<close> by 16807 leaves the upper part of \<open>16807 * k\<close> in the lower bits.\<close>

lemma two_draws:
  assumes "seed_ok seed" and "unat seed mod 2097152 = 0"
  shows "unat (Random_Next seed) mod 2097152 \<noteq> 0"
proof -
  obtain k where k: "unat seed = 2097152 * k" using assms(2) by (metis mod_0_imp_dvd dvdE)
  have bounds: "1 \<le> k" "k \<le> 1023" using assms(1) k by (simp_all add: seed_ok_def)
  define a b where "a = 16807 * k div 1024" and "b = 16807 * k mod 1024"
  have ab: "16807 * k = 1024 * a + b" "b \<le> 1023" by (simp_all add: a_def b_def less_Suc_eq_le [symmetric])
  have a: "0 < a" "a < 16807" using bounds ab by linarith+
  have "unat seed * 16807 = (a + 2097152 * b) + 2147483647 * a" using k ab(1) by linarith
  then have "unat seed * 16807 mod 2147483647 = (a + 2097152 * b) mod 2147483647" by (simp only: mod_mult_self2)
  also have "\<dots> = a + 2097152 * b" using a(2) ab(2) by (intro mod_less) linarith
  finally have "unat (Random_Next seed) = a + 2097152 * b" using Random_Next_correct(1) [of seed] assms(1) by (simp add: seed_ok_def)
  then show ?thesis using a by simp
qed

lemma sample_loop_returns:
  assumes "seed_ok (db_rnd d)"
  shows "\<exists>seed b smp. sample_loop k n d = Some (d\<lparr>db_rnd := seed, bytes_until_read_sampling := b, read_samples := smp\<rparr>) \<and> seed_ok seed \<and> n \<le> b"
  using assms
proof (induction "2 * (n - bytes_until_read_sampling d) + (if unat (Random_Next (db_rnd d)) mod 2097152 = 0 then 1 else 0)"
    arbitrary: d rule: less_induct)
  case less
  show ?case
  proof (cases "bytes_until_read_sampling d < n")
    case True
    define p s where "p = unat (Random_Next (db_rnd d)) mod 2097152" and "s = Random_Next (db_rnd d)"
    let ?d = "d\<lparr>db_rnd := s, bytes_until_read_sampling := bytes_until_read_sampling d + p, read_samples := read_samples d @ [k]\<rparr>"
    have ok: "seed_ok s" using seed_ok_next [OF less.prems] by (simp add: s_def)
    have "p = 0 \<Longrightarrow> unat (Random_Next s) mod 2097152 \<noteq> 0" using two_draws [OF ok] by (simp add: p_def s_def)
    then have "2 * (n - bytes_until_read_sampling ?d) + (if unat (Random_Next (db_rnd ?d)) mod 2097152 = 0 then 1 else 0) <
        2 * (n - bytes_until_read_sampling d) + (if unat (Random_Next (db_rnd d)) mod 2097152 = 0 then 1 else 0)"
      using True by (cases "p = 0") (auto simp: p_def [symmetric])
    from less.hyps [OF this] ok have "\<exists>seed b smp. sample_loop k n ?d =
        Some (?d\<lparr>db_rnd := seed, bytes_until_read_sampling := b, read_samples := smp\<rparr>) \<and> seed_ok seed \<and> n \<le> b" by simp
    with True show ?thesis by (simp add: sample_loop.simps [of k n d] period_eq p_def s_def)
  next
    case False
    with less.prems show ?thesis
      by (intro exI [of _ "db_rnd d"] exI [of _ "bytes_until_read_sampling d"] exI [of _ "read_samples d"])
        (simp add: sample_loop.simps [of k n d])
  qed
qed

section \<open>What a snapshot shows\<close>

text \<open>The entries of the source in the order of internal keys, all with well-formed keys.\<close>

definition db_entries :: "(slice \<Rightarrow> slice \<Rightarrow> int) \<Rightarrow> (slice \<times> slice) list \<Rightarrow> bool" where
  "db_entries cmp E \<longleftrightarrow> sorted_wrt (\<lambda>a b. InternalKeyComparator_Compare cmp (fst a) (fst b) < 0) E \<and>
     (\<forall>e \<in> set E. ParseInternalKey (fst e) \<noteq> None)"

definition ukey :: "slice \<times> slice \<Rightarrow> slice" where
  "ukey e = ExtractUserKey (fst e)"

definition parsed :: "slice \<times> slice \<Rightarrow> ParsedInternalKey" where
  "parsed e = the (ParseInternalKey (fst e))"

definition visible :: "u64 \<Rightarrow> slice \<times> slice \<Rightarrow> bool" where
  "visible s e \<longleftrightarrow> sequence (parsed e) \<le> s"

text \<open>An entry is shown if it is a value, visible, and the first visible one of its user key.\<close>

definition yields :: "u64 \<Rightarrow> (slice \<times> slice) list \<Rightarrow> nat \<Rightarrow> bool" where
  "yields s E j \<longleftrightarrow> visible s (E ! j) \<and> vtype (parsed (E ! j)) = kTypeValue \<and>
     (\<forall>i < j. visible s (E ! i) \<longrightarrow> ukey (E ! i) \<noteq> ukey (E ! j))"

definition shown :: "u64 \<Rightarrow> (slice \<times> slice) list \<Rightarrow> nat list" where
  "shown s E = filter (yields s E) [0..<length E]"

definition user_view :: "u64 \<Rightarrow> (slice \<times> slice) list \<Rightarrow> (slice \<times> slice) list" where
  "user_view s E = map (\<lambda>j. (ukey (E ! j), snd (E ! j))) (shown s E)"

lemma parsed_facts:
  assumes "ParseInternalKey (fst e) \<noteq> None"
  shows "ParseInternalKey (fst e) = Some (parsed e)" "user_key (parsed e) = ukey e" "8 \<le> length (fst e)"
    "sequence (parsed e) = drop_bit 8 (internal_num (fst e))"
    "internal_num (fst e) AND 0xff = (if vtype (parsed e) = kTypeDeletion then 0 else 1)"
  using assms by (auto simp: parsed_def ParseInternalKey_def ukey_def ExtractUserKey_def internal_num_def Let_def split: if_splits)

lemma shown_facts:
  "sorted_wrt (<) (shown s E)" "y \<in> set (shown s E) \<longleftrightarrow> y < length E \<and> yields s E y" "length (user_view s E) = length (shown s E)"
  by (auto simp: shown_def user_view_def sorted_wrt_filter)

text \<open>Positions in a strictly increasing list.\<close>

lemma index_unique: "sorted_wrt (<) Y \<Longrightarrow> i < length Y \<Longrightarrow> j < length Y \<Longrightarrow> Y ! i < Y ! j \<longleftrightarrow> i < j" for Y :: "nat list"
  by (metis linorder_neqE_nat order.asym sorted_wrt_nth_less)

section \<open>The order of the entries\<close>

text \<open>User comparators accept all keys.\<close>

locale user_order = comparator "\<lambda>_. True" cmp sep succ for cmp sep succ
begin

lemma order_facts:
  "\<not> cmp a b < 0 \<longleftrightarrow> cmp b a \<le> 0" "\<not> cmp a b \<le> 0 \<longleftrightarrow> cmp b a < 0" "cmp a a = 0" "cmp a b \<le> 0 \<longleftrightarrow> cmp a b < 0 \<or> a = b"
  using cmp_flip [of b a] cmp_eq [of a a] cmp_linear [of a b] cmp_flip [of a b] cmp_eq [of a b] cmp_eq [of b a] by auto

lemma key_le_trans: "cmp a b \<le> 0 \<Longrightarrow> cmp b c \<le> 0 \<Longrightarrow> cmp a c \<le> 0"
  using cmp_trans [of a b c] by (auto simp: order_facts(4))

lemma key_antisym: "cmp a b \<le> 0 \<Longrightarrow> cmp b a \<le> 0 \<Longrightarrow> a = b"
  using order_facts(1) [of a b] order_facts(4) [of a b] by blast

lemma user_key_order:
  assumes "db_entries cmp E" and "i < j" and "j < length E"
  shows "cmp (ukey (E ! i)) (ukey (E ! j)) \<le> 0"
proof -
  have "InternalKeyComparator_Compare cmp (fst (E ! i)) (fst (E ! j)) < 0"
    using assms sorted_wrt_nth_less [of _ E i j] by (auto simp: db_entries_def)
  then show ?thesis by (auto simp: internal_less ukey_def)
qed

end

interpretation users: user_order Compare FindShortestSeparator FindShortSuccessor
  by unfold_locales

section \<open>Sources\<close>

locale db_source = user_order cmp sep succ + child: iterator_over ops pos "\<lambda>a b. InternalKeyComparator_Compare cmp a b < 0" internal_valid
  for cmp sep succ and ops :: "'it iterator" and pos
begin

text \<open>The parts of the iterator that only its owner changes.\<close>

definition sound :: "u64 \<Rightarrow> 'it DBIter \<Rightarrow> bool" where
  "sound s d \<longleftrightarrow> unat s < 2 ^ 56 \<and> snapshot d = s \<and> db_status d = OK \<and> seed_ok (db_rnd d)"

lemma ParseKey_sound:
  assumes "db_entries cmp E" and "pos E j (iter d)" and "j < length E" and "sound s d"
  shows "\<exists>seed b smp. ParseKey ops d = Some (Some (parsed (E ! j)), d\<lparr>db_rnd := seed, bytes_until_read_sampling := b, read_samples := smp\<rparr>) \<and> seed_ok seed"
proof -
  have "op_key ops (iter d) = fst (E ! j)" using child.pos_entry [OF assms(2,3)] by (metis fst_conv)
  moreover have "ParseInternalKey (fst (E ! j)) = Some (parsed (E ! j))"
    using assms(1,3) parsed_facts(1) [of "E ! j"] by (simp add: db_entries_def)
  moreover obtain seed b smp where
    "sample_loop (fst (E ! j)) (length (fst (E ! j)) + length (op_value ops (iter d))) d =
       Some (d\<lparr>db_rnd := seed, bytes_until_read_sampling := b, read_samples := smp\<rparr>)" "seed_ok seed"
    using sample_loop_returns [of d "fst (E ! j)" "length (fst (E ! j)) + length (op_value ops (iter d))"] assms(4) by (auto simp: sound_def)
  ultimately show ?thesis
    by (intro exI [of _ seed] exI [of _ "b - (length (fst (E ! j)) + length (op_value ops (iter d)))"] exI [of _ smp]) (simp add: ParseKey_def Let_def)
qed

text \<open>
  What \<open>FindNextUserEntry\<close> looks for. \<open>W\<close> are the wanted positions; from \<open>j\<close> on they are the visible values that are not hidden by the
  key to skip nor by an entry from \<open>j\<close> on, and the key to skip is not behind \<open>j\<close>.
\<close>

definition seeking :: "(nat \<Rightarrow> bool) \<Rightarrow> u64 \<Rightarrow> (slice \<times> slice) list \<Rightarrow> nat \<Rightarrow> bool \<Rightarrow> slice \<Rightarrow> bool" where
  "seeking W s E j skipping skip \<longleftrightarrow>
     (\<forall>k < length E. j \<le> k \<longrightarrow> (W k \<longleftrightarrow> visible s (E ! k) \<and> vtype (parsed (E ! k)) = kTypeValue \<and>
        (skipping \<longrightarrow> cmp skip (ukey (E ! k)) < 0) \<and> (\<forall>i < k. j \<le> i \<longrightarrow> visible s (E ! i) \<longrightarrow> ukey (E ! i) \<noteq> ukey (E ! k)))) \<and>
     (skipping \<longrightarrow> (\<forall>k < length E. j \<le> k \<longrightarrow> visible s (E ! k) \<longrightarrow> cmp skip (ukey (E ! k)) \<le> 0))"

lemma seekingD:
  assumes "seeking W s E j skipping skip" and "k < length E" and "j \<le> k"
  shows "W k \<longleftrightarrow> visible s (E ! k) \<and> vtype (parsed (E ! k)) = kTypeValue \<and>
        (skipping \<longrightarrow> cmp skip (ukey (E ! k)) < 0) \<and> (\<forall>i < k. j \<le> i \<longrightarrow> visible s (E ! i) \<longrightarrow> ukey (E ! i) \<noteq> ukey (E ! k))"
    and "skipping \<Longrightarrow> visible s (E ! k) \<Longrightarrow> cmp skip (ukey (E ! k)) \<le> 0"
  using assms unfolding seeking_def by blast+

lemma seeking_invisible:
  assumes "seeking W s E j skipping skip" and "\<not> visible s (E ! j)"
  shows "seeking W s E (Suc j) skipping skip"
  unfolding seeking_def
proof (intro conjI allI impI, goal_cases)
  case (1 k)
  then show ?case using seekingD(1) [OF assms(1) 1(1)] assms(2) by (auto simp: Suc_le_eq)
next
  case (2 k)
  then show ?case using seekingD(2) [OF assms(1)] by simp
qed

lemma seeking_hidden:
  assumes "seeking W s E j True skip" and "ukey (E ! j) = skip"
  shows "seeking W s E (Suc j) True skip"
  unfolding seeking_def
proof (intro conjI allI impI, goal_cases)
  case (1 k)
  have "cmp skip (ukey (E ! k)) < 0 \<Longrightarrow> ukey (E ! j) \<noteq> ukey (E ! k)" using assms(2) order_facts(3) by auto
  then show ?case using seekingD(1) [OF assms(1) 1(1)] 1(2) by (auto simp: Suc_le_eq)
next
  case (2 k)
  then show ?case using seekingD(2) [OF assms(1)] by simp
qed

lemma seeking_deleted:
  assumes E: "db_entries cmp E" and sk: "seeking W s E j skipping skip" and j: "j < length E" "visible s (E ! j)"
  shows "seeking W s E (Suc j) True (ukey (E ! j))"
  unfolding seeking_def
proof (intro conjI allI impI, goal_cases)
  case (1 k)
  then have jk: "j < k" by simp
  have le: "cmp (ukey (E ! j)) (ukey (E ! k)) \<le> 0" by (rule user_key_order [OF E jk 1(1)])
  have "cmp skip (ukey (E ! k)) < 0" if "skipping" "cmp (ukey (E ! j)) (ukey (E ! k)) < 0"
    using le_less_trans [of skip "ukey (E ! j)"] seekingD(2) [OF sk j(1) _ that(1) j(2)] that(2) by simp
  moreover have "cmp (ukey (E ! j)) (ukey (E ! k)) < 0 \<longleftrightarrow> ukey (E ! j) \<noteq> ukey (E ! k)"
    using le order_facts(3) [of "ukey (E ! k)"] order_facts(4) [of "ukey (E ! j)" "ukey (E ! k)"] by auto
  ultimately show ?case
    using seekingD(1) [OF sk 1(1)] jk j(2) by (auto simp: Suc_le_eq)
next
  case (2 k)
  then show ?case using user_key_order [OF E, of j k] by simp
qed

text \<open>The result of a search forward: the first wanted position from \<open>j\<close> on, or the end.\<close>

definition found_next :: "(nat \<Rightarrow> bool) \<Rightarrow> u64 \<Rightarrow> (slice \<times> slice) list \<Rightarrow> nat \<Rightarrow> 'it DBIter \<Rightarrow> bool" where
  "found_next W s E j d \<longleftrightarrow> sound s d \<and> db_direction d = kForward \<and>
     (db_valid d \<and> (\<exists>m < length E. j \<le> m \<and> W m \<and> (\<forall>k < m. j \<le> k \<longrightarrow> \<not> W k) \<and> pos E m (iter d)) \<or>
      \<not> db_valid d \<and> (\<forall>k < length E. j \<le> k \<longrightarrow> \<not> W k) \<and> pos E (length E) (iter d))"

lemma found_next_Suc: "found_next W s E (Suc j) d \<Longrightarrow> \<not> W j \<Longrightarrow> found_next W s E j d"
  unfolding found_next_def by (metis Suc_leD Suc_leI le_neq_implies_less)

lemma next_entry_step:
  assumes E: "db_entries cmp E" and p: "pos E j (iter d)" "j < length E" and d: "sound s d" "db_direction d = kForward"
    and sk: "seeking W s E j skipping (saved_key d)"
  obtains shown skipping' d' where "map_option (next_entry cmp skipping) (ParseKey ops d) = Some (shown, skipping', d')"
    and "sound s d'" and "db_direction d' = kForward" and "iter d' = iter d"
    and "shown \<longrightarrow> db_valid d' \<and> W j" and "\<not> shown \<longrightarrow> \<not> W j \<and> seeking W s E (Suc j) skipping' (saved_key d')"
proof -
  let ?k = "parsed (E ! j)"
  obtain seed b smp where pk: "ParseKey ops d = Some (Some ?k, d\<lparr>db_rnd := seed, bytes_until_read_sampling := b, read_samples := smp\<rparr>)"
    "seed_ok seed" using ParseKey_sound [OF E p d(1)] by blast
  have u: "user_key ?k = ukey (E ! j)" using parsed_facts(2) [of "E ! j"] E p(2) by (simp add: db_entries_def)
  have vis: "sequence ?k \<le> snapshot d \<longleftrightarrow> visible s (E ! j)" using d(1) by (simp add: visible_def sound_def)
  have W: "W j \<longleftrightarrow> visible s (E ! j) \<and> vtype ?k = kTypeValue \<and> (skipping \<longrightarrow> cmp (saved_key d) (ukey (E ! j)) < 0)"
    using seekingD(1) [OF sk p(2)] by auto
  consider (invisible) "\<not> visible s (E ! j)" | (deleted) "visible s (E ! j)" "vtype ?k = kTypeDeletion"
    | (hidden) "visible s (E ! j)" "vtype ?k = kTypeValue" "skipping" "cmp (ukey (E ! j)) (saved_key d) \<le> 0"
    | (good) "visible s (E ! j)" "vtype ?k = kTypeValue" "skipping \<longrightarrow> \<not> cmp (ukey (E ! j)) (saved_key d) \<le> 0"
    by (cases "vtype ?k") auto
  then show thesis
  proof cases
    case invisible
    show thesis by (rule that [of False skipping "d\<lparr>db_rnd := seed, bytes_until_read_sampling := b, read_samples := smp\<rparr>"])
      (use pk d vis W invisible seeking_invisible [OF sk] in \<open>simp_all add: next_entry_def sound_def\<close>)
  next
    case deleted
    show thesis by (rule that [of False True "d\<lparr>db_rnd := seed, bytes_until_read_sampling := b, read_samples := smp, saved_key := ukey (E ! j)\<rparr>"])
      (use pk d vis W u deleted seeking_deleted [OF E sk p(2)] in \<open>simp_all add: next_entry_def sound_def\<close>)
  next
    case hidden
    have "cmp (saved_key d) (ukey (E ! j)) \<le> 0" by (rule seekingD(2) [OF sk p(2) _ hidden(3,1)]) simp
    with hidden(4) have eq: "ukey (E ! j) = saved_key d" by (intro key_antisym)
    show thesis by (rule that [of False skipping "d\<lparr>db_rnd := seed, bytes_until_read_sampling := b, read_samples := smp\<rparr>"])
      (use pk d vis W u hidden eq seeking_hidden [of W s E j "saved_key d"] sk order_facts(3) in \<open>simp_all add: next_entry_def sound_def\<close>)
  next
    case good
    show thesis by (rule that [of True skipping "d\<lparr>db_rnd := seed, bytes_until_read_sampling := b, read_samples := smp, db_valid := True, saved_key := []\<rparr>"])
      (use pk d vis W u good order_facts(2) in \<open>auto simp add: next_entry_def sound_def\<close>)
  qed
qed

lemma FindNext_found:
  "db_entries cmp E \<Longrightarrow> pos E j (iter d) \<Longrightarrow> j < length E \<Longrightarrow> sound s d \<Longrightarrow> db_direction d = kForward \<Longrightarrow> seeking W s E j skipping (saved_key d) \<Longrightarrow>
     \<exists>d'. FindNextUserEntry ops cmp skipping d = Some d' \<and> found_next W s E j d'"
proof (induction "length E - j" arbitrary: j d skipping)
  case (Suc n)
  obtain shown skipping' d' where step: "map_option (next_entry cmp skipping) (ParseKey ops d) = Some (shown, skipping', d')"
    "sound s d'" "db_direction d' = kForward" "iter d' = iter d" "shown \<longrightarrow> db_valid d' \<and> W j"
    "\<not> shown \<longrightarrow> \<not> W j \<and> seeking W s E (Suc j) skipping' (saved_key d')"
    by (rule next_entry_step [OF Suc.prems]) (rule that; assumption)
  obtain it where it: "op_Next ops (iter d') = Some it" "pos E (Suc j) it" using child.Next_pos [OF Suc.prems(2,3)] step(4) by auto
  have unfold: "FindNextUserEntry ops cmp skipping d = (if shown then Some d' else
      if op_Valid ops it then FindNextUserEntry ops cmp skipping' (d'\<lparr>iter := it\<rparr>) else Some (d'\<lparr>iter := it, saved_key := [], db_valid := False\<rparr>))"
    unfolding FindNextUserEntry.simps [of ops cmp skipping d] step(1) by (simp add: it(1))
  have valid: "op_Valid ops it \<longleftrightarrow> Suc j < length E" by (rule child.pos_valid [OF it(2)])
  consider (shown) shown | (more) "\<not> shown" "Suc j < length E" | (last) "\<not> shown" "Suc j = length E" using Suc.prems(3) by linarith
  then show ?case
  proof cases
    case shown
    then have "found_next W s E j d'" using step Suc.prems(2,3) by (auto simp: found_next_def)
    with shown show ?thesis by (simp add: unfold)
  next
    case more
    have "\<exists>d''. FindNextUserEntry ops cmp skipping' (d'\<lparr>iter := it\<rparr>) = Some d'' \<and> found_next W s E (Suc j) d''"
      by (rule Suc.hyps(1)) (use Suc.prems(1) Suc.hyps(2) it(2) more step in \<open>simp_all add: sound_def\<close>)
    with more step(6) valid found_next_Suc [of W s E j] show ?thesis by (auto simp: unfold)
  next
    case last
    then have "\<not> W j" using step(6) by blast
    then have "found_next W s E j (d'\<lparr>iter := it, saved_key := [], db_valid := False\<rparr>)"
      using step(2,3) it(2) last(2) le_antisym by (fastforce simp: found_next_def sound_def less_Suc_eq_le)
    with last valid show ?thesis by (simp add: unfold)
  qed
qed simp

text \<open>
  Moving backward. The source stands at the last visible entry before the position that is shown, or nowhere if there
  is none; what is shown is saved.
\<close>

definition just_before :: "u64 \<Rightarrow> (slice \<times> slice) list \<Rightarrow> nat \<Rightarrow> 'it \<Rightarrow> bool" where
  "just_before s E m it \<longleftrightarrow>
     pos E (length E) it \<and> (\<forall>k < m. \<not> visible s (E ! k)) \<or>
     (\<exists>c < m. pos E c it \<and> visible s (E ! c) \<and> (\<forall>k < m. c < k \<longrightarrow> \<not> visible s (E ! k)))"

definition saved :: "(slice \<times> slice) list \<Rightarrow> nat \<Rightarrow> 'it DBIter \<Rightarrow> bool" where
  "saved E m d \<longleftrightarrow> saved_key d = ukey (E ! m) \<and> saved_value d = snd (E ! m)"

text \<open>The loop of \<open>FindPrevUserEntry\<close>, which started below \<open>P\<close>, has seen the entries from \<open>n\<close> on.\<close>

definition prev_inv :: "u64 \<Rightarrow> (slice \<times> slice) list \<Rightarrow> nat \<Rightarrow> nat \<Rightarrow> ValueType \<Rightarrow> 'it DBIter \<Rightarrow> bool" where
  "prev_inv s E P n vt d \<longleftrightarrow>
     (case vt of
        kTypeDeletion \<Rightarrow> \<forall>k < P. n \<le> k \<longrightarrow> \<not> yields s E k
      | kTypeValue \<Rightarrow> \<exists>m < P. n \<le> m \<and> visible s (E ! m) \<and> vtype (parsed (E ! m)) = kTypeValue \<and>
          (\<forall>k < m. n \<le> k \<longrightarrow> \<not> visible s (E ! k)) \<and> (\<forall>k < P. m < k \<longrightarrow> \<not> yields s E k) \<and> saved E m d)"

definition prev_done :: "u64 \<Rightarrow> (slice \<times> slice) list \<Rightarrow> nat \<Rightarrow> ValueType \<Rightarrow> 'it DBIter \<Rightarrow> bool" where
  "prev_done s E P vt d \<longleftrightarrow>
     (case vt of
        kTypeDeletion \<Rightarrow> (\<forall>k < P. \<not> yields s E k) \<and> (\<exists>c. pos E c (iter d))
      | kTypeValue \<Rightarrow> \<exists>m < P. yields s E m \<and> (\<forall>k < P. m < k \<longrightarrow> \<not> yields s E k) \<and> just_before s E m (iter d) \<and> saved E m d)"

lemma prev_inv_start: "prev_inv s E P P kTypeDeletion d"
  by (simp add: prev_inv_def)

lemma prev_inv_invisible: "prev_inv s E P (Suc c) vt d \<Longrightarrow> \<not> visible s (E ! c) \<Longrightarrow> prev_inv s E P c vt d"
proof (cases vt)
  case kTypeDeletion
  assume "prev_inv s E P (Suc c) vt d" "\<not> visible s (E ! c)"
  with kTypeDeletion show ?thesis by (auto simp: prev_inv_def yields_def Suc_le_eq le_less)
next
  case kTypeValue
  assume "prev_inv s E P (Suc c) vt d" "\<not> visible s (E ! c)"
  with kTypeValue obtain m where m: "m < P" "Suc c \<le> m" "visible s (E ! m)" "vtype (parsed (E ! m)) = kTypeValue"
    "\<forall>k < m. Suc c \<le> k \<longrightarrow> \<not> visible s (E ! k)" "\<forall>k < P. m < k \<longrightarrow> \<not> yields s E k" "saved E m d" by (auto simp: prev_inv_def)
  have "\<forall>k < m. c \<le> k \<longrightarrow> \<not> visible s (E ! k)" using m(5) \<open>\<not> visible s (E ! c)\<close> by (auto simp: Suc_le_eq le_less)
  with m kTypeValue show ?thesis by (auto simp: prev_inv_def intro!: exI [of _ m])
qed

lemma prev_no_break:
  assumes E: "db_entries cmp E" and inv: "prev_inv s E P (Suc c) vt d" and c: "c < length E" "visible s (E ! c)" and P: "P \<le> length E"
    and nb: "vt = kTypeDeletion \<or> \<not> cmp (ukey (E ! c)) (saved_key d) < 0"
  shows "\<forall>k < P. c < k \<longrightarrow> \<not> yields s E k"
proof (cases vt)
  case kTypeDeletion
  with inv show ?thesis by (auto simp: prev_inv_def)
next
  case kTypeValue
  with inv obtain m where m: "m < P" "Suc c \<le> m" "\<forall>k < m. Suc c \<le> k \<longrightarrow> \<not> visible s (E ! k)" "\<forall>k < P. m < k \<longrightarrow> \<not> yields s E k"
    "saved E m d" by (auto simp: prev_inv_def)
  have "cmp (ukey (E ! c)) (ukey (E ! m)) \<le> 0" by (rule user_key_order [OF E]) (use m P in simp_all)
  moreover have "cmp (ukey (E ! m)) (ukey (E ! c)) \<le> 0" using nb kTypeValue m(5) order_facts(1) by (simp add: saved_def)
  ultimately have "ukey (E ! c) = ukey (E ! m)" by (rule key_antisym)
  then have "\<not> yields s E m" using c(2) m(2) by (auto simp: yields_def Suc_le_eq)
  moreover have "\<not> yields s E k" if "c < k" "k < m" for k using m(3) that by (simp add: yields_def)
  ultimately show ?thesis using m(4) by (metis linorder_neqE_nat)
qed

lemma prev_broken:
  assumes E: "db_entries cmp E" and inv: "prev_inv s E P (Suc c) kTypeValue d" and c: "pos E c (iter d)" "visible s (E ! c)" and P: "P \<le> length E"
    and less: "cmp (ukey (E ! c)) (saved_key d) < 0"
  shows "prev_done s E P kTypeValue d"
proof -
  obtain m where m: "m < P" "Suc c \<le> m" "visible s (E ! m)" "vtype (parsed (E ! m)) = kTypeValue"
    "\<forall>k < m. Suc c \<le> k \<longrightarrow> \<not> visible s (E ! k)" "\<forall>k < P. m < k \<longrightarrow> \<not> yields s E k" "saved E m d" using inv by (auto simp: prev_inv_def)
  have cm: "c < length E" "cmp (ukey (E ! c)) (ukey (E ! m)) < 0" using m P less by (simp_all add: saved_def)
  have "ukey (E ! i) \<noteq> ukey (E ! m)" if "i < m" "visible s (E ! i)" for i
  proof -
    have "i \<le> c" using m(5) that by (meson not_less_eq_eq)
    then have "cmp (ukey (E ! i)) (ukey (E ! c)) \<le> 0" using user_key_order [OF E _ cm(1), of i] order_facts(3) by (cases "i = c") auto
    then have "cmp (ukey (E ! i)) (ukey (E ! m)) < 0" using le_less_trans [of "ukey (E ! i)"] cm(2) by simp
    then show ?thesis using order_facts(3) by auto
  qed
  then have "yields s E m" using m(3,4) by (simp add: yields_def)
  moreover have "just_before s E m (iter d)" unfolding just_before_def using c m(2,5) by (auto simp: Suc_le_eq)
  ultimately show ?thesis using m(1,6,7) by (auto simp: prev_done_def)
qed

lemma prev_end:
  assumes "prev_inv s E P 0 vt d" and "pos E (length E) (iter d)"
  shows "prev_done s E P vt d"
proof (cases vt)
  case kTypeDeletion
  with assms show ?thesis by (auto simp: prev_inv_def prev_done_def)
next
  case kTypeValue
  with assms show ?thesis by (auto simp: prev_inv_def prev_done_def yields_def just_before_def)
qed

lemma prev_inv_same: "saved_key d' = saved_key d \<Longrightarrow> saved_value d' = saved_value d \<Longrightarrow> prev_inv s E P n vt d' \<longleftrightarrow> prev_inv s E P n vt d"
  by (cases vt) (simp_all add: prev_inv_def saved_def)

lemma prev_entry_step:
  assumes E: "db_entries cmp E" and c: "pos E c (iter d)" "c < P" and P: "P \<le> length E" and d: "sound s d" "db_direction d = kReverse"
    and inv: "prev_inv s E P (Suc c) vt d"
  obtains r d' where "ParseKey ops d = Some r" and "sound s d'" and "db_direction d' = kReverse" and "iter d' = iter d"
    and "prev_break cmp vt r \<and> snd r = d' \<and> prev_done s E P vt d' \<or>
      \<not> prev_break cmp vt r \<and> (\<exists>vt'. prev_entry ops vt r = (vt', d') \<and> prev_inv s E P c vt' d')"
proof -
  let ?k = "parsed (E ! c)"
  have p: "pos E c (iter d)" "c < length E" using c P by simp_all
  obtain seed b smp where pk: "ParseKey ops d = Some (Some ?k, d\<lparr>db_rnd := seed, bytes_until_read_sampling := b, read_samples := smp\<rparr>)"
    "seed_ok seed" using ParseKey_sound [OF E p d(1)] by blast
  define d1 where "d1 = d\<lparr>db_rnd := seed, bytes_until_read_sampling := b, read_samples := smp\<rparr>"
  have d1: "sound s d1" "db_direction d1 = kReverse" "iter d1 = iter d" "saved_key d1 = saved_key d" "snapshot d1 = s"
    using d pk(2) by (simp_all add: d1_def sound_def)
  have inv1: "prev_inv s E P (Suc c) vt d1" using inv prev_inv_same [of d1 d] by (simp add: d1_def)
  have u: "user_key ?k = ukey (E ! c)" using parsed_facts(2) [of "E ! c"] E p(2) by (simp add: db_entries_def)
  have vis: "sequence ?k \<le> s \<longleftrightarrow> visible s (E ! c)" by (simp add: visible_def)
  have entry: "op_key ops (iter d) = fst (E ! c)" "op_value ops (iter d) = snd (E ! c)" using child.pos_entry [OF p] by (metis fst_conv snd_conv)+
  have brk: "prev_break cmp vt (Some ?k, d1) \<longleftrightarrow> visible s (E ! c) \<and> vt \<noteq> kTypeDeletion \<and> cmp (ukey (E ! c)) (saved_key d) < 0"
    by (simp add: prev_break_def u d1 vis)
  note that1 = that [OF pk(1) [folded d1_def]]
  consider (invisible) "\<not> visible s (E ! c)" | (break) "prev_break cmp vt (Some ?k, d1)"
    | (go) "visible s (E ! c)" "\<not> prev_break cmp vt (Some ?k, d1)" by blast
  then show thesis
  proof cases
    case invisible
    have "prev_inv s E P c vt d1" by (rule prev_inv_invisible [OF inv1 invisible])
    with that1 [OF d1(1-3)] invisible show thesis by (simp add: brk prev_entry_def d1 vis)
  next
    case break
    then have "vt \<noteq> kTypeDeletion" and vc: "visible s (E ! c)" "cmp (ukey (E ! c)) (saved_key d1) < 0"
      unfolding brk d1(4) by blast+
    then have vt: "vt = kTypeValue" by (cases vt) simp_all
    have "pos E c (iter d1)" using p(1) d1(3) by simp
    from prev_broken [OF E inv1 [unfolded vt] this vc(1) P vc(2)] vt have "prev_done s E P vt d1" by simp
    with that1 [OF d1(1-3)] break show thesis by simp
  next
    case go
    have none: "\<forall>k < P. c < k \<longrightarrow> \<not> yields s E k"
      by (rule prev_no_break [OF E inv1 p(2) go(1) P]) (use go in \<open>auto simp: brk d1(4)\<close>)
    show thesis
    proof (cases "vtype ?k")
      case kTypeDeletion
      then have "\<not> yields s E c" by (simp add: yields_def)
      with none have "prev_inv s E P c kTypeDeletion (ClearSavedValue (d1\<lparr>saved_key := []\<rparr>))" by (auto simp: prev_inv_def le_less)
      with that1 [of "ClearSavedValue (d1\<lparr>saved_key := []\<rparr>)"] go d1 kTypeDeletion vis show thesis
        by (simp add: prev_entry_def ClearSavedValue_def sound_def)
    next
      case kTypeValue
      let ?d = "d1\<lparr>saved_key := ukey (E ! c), saved_value := snd (E ! c)\<rparr>"
      have "prev_inv s E P c kTypeValue ?d" using none c(2) go(1) kTypeValue by (auto simp: prev_inv_def saved_def intro!: exI [of _ c])
      with that1 [of ?d] go d1 kTypeValue vis entry show thesis by (simp add: prev_entry_def sound_def ukey_def)
    qed
  qed
qed

lemma find_prev_loop_done:
  "db_entries cmp E \<Longrightarrow> pos E c (iter d) \<Longrightarrow> c < P \<Longrightarrow> P \<le> length E \<Longrightarrow> sound s d \<Longrightarrow> db_direction d = kReverse \<Longrightarrow> prev_inv s E P (Suc c) vt d \<Longrightarrow>
     \<exists>vt' d'. find_prev_loop ops cmp vt d = Some (vt', d') \<and> sound s d' \<and> db_direction d' = kReverse \<and> prev_done s E P vt' d'"
proof (induction c arbitrary: d vt)
  case (0 d vt)
  obtain r d' where step: "ParseKey ops d = Some r" "sound s d'" "db_direction d' = kReverse" "iter d' = iter d"
    "prev_break cmp vt r \<and> snd r = d' \<and> prev_done s E P vt d' \<or>
      \<not> prev_break cmp vt r \<and> (\<exists>vt'. prev_entry ops vt r = (vt', d') \<and> prev_inv s E P 0 vt' d')"
    by (rule prev_entry_step [OF 0]) (rule that; assumption)
  have "0 < length E" using 0(3,4) by (rule less_le_trans)
  with child.Prev_pos [OF 0(2)] obtain it where it: "op_Prev ops (iter d) = Some it" "pos E (length E) it" by auto
  have "prev_done s E P vt' (d'\<lparr>iter := it\<rparr>)" if "prev_inv s E P 0 vt' d'" for vt'
    by (rule prev_end) (use that it(2) prev_inv_same [of "d'\<lparr>iter := it\<rparr>" d'] in simp_all)
  with step it child.pos_valid [OF it(2)] show ?case by (auto simp: find_prev_loop.simps [of ops cmp vt d] sound_def)
next
  case (Suc c d vt)
  obtain r d' where step: "ParseKey ops d = Some r" "sound s d'" "db_direction d' = kReverse" "iter d' = iter d"
    "prev_break cmp vt r \<and> snd r = d' \<and> prev_done s E P vt d' \<or>
      \<not> prev_break cmp vt r \<and> (\<exists>vt'. prev_entry ops vt r = (vt', d') \<and> prev_inv s E P (Suc c) vt' d')"
    by (rule prev_entry_step [OF Suc.prems]) (rule that; assumption)
  have "Suc c < length E" using Suc.prems by simp
  with child.Prev_pos [OF Suc.prems(2)] obtain it where it: "op_Prev ops (iter d) = Some it" "pos E c it" by auto
  have valid: "op_Valid ops it" using child.pos_valid [OF it(2)] \<open>Suc c < length E\<close> by simp
  have rec: "\<exists>vt'' d''. find_prev_loop ops cmp vt' (d'\<lparr>iter := it\<rparr>) = Some (vt'', d'') \<and> sound s d'' \<and> db_direction d'' = kReverse \<and> prev_done s E P vt'' d''"
    if "prev_inv s E P (Suc c) vt' d'" for vt'
    by (rule Suc.IH) (use Suc.prems that it(2) step(2,3) prev_inv_same [of "d'\<lparr>iter := it\<rparr>" d'] in \<open>simp_all add: sound_def\<close>)
  from step(5) show ?case
  proof (elim disjE conjE exE)
    assume "prev_break cmp vt r" "snd r = d'" "prev_done s E P vt d'"
    with step(1-3) show ?thesis by (simp add: find_prev_loop.simps [of ops cmp vt d])
  next
    fix vt'
    assume "\<not> prev_break cmp vt r" "prev_entry ops vt r = (vt', d')" "prev_inv s E P (Suc c) vt' d'"
    with step(1,4) it valid rec [of vt'] show ?thesis by (simp add: find_prev_loop.simps [of ops cmp vt d])
  qed
qed

definition found_prev :: "u64 \<Rightarrow> (slice \<times> slice) list \<Rightarrow> nat \<Rightarrow> 'it DBIter \<Rightarrow> bool" where
  "found_prev s E P d \<longleftrightarrow> sound s d \<and>
     (db_valid d \<and> db_direction d = kReverse \<and>
        (\<exists>m < P. yields s E m \<and> (\<forall>k < P. m < k \<longrightarrow> \<not> yields s E k) \<and> just_before s E m (iter d) \<and> saved E m d) \<or>
      \<not> db_valid d \<and> (\<forall>k < P. \<not> yields s E k) \<and> (\<exists>c. pos E c (iter d)))"

lemma FindPrev_found:
  assumes E: "db_entries cmp E" and c: "pos E c (iter d)" and d: "sound s d" "db_direction d = kReverse"
  shows "\<exists>d'. FindPrevUserEntry ops cmp d = Some d' \<and> found_prev s E (if c < length E then Suc c else 0) d'"
proof (cases "c < length E")
  case True
  have "Suc c \<le> length E" using True by simp
  from find_prev_loop_done [OF E c _ this d prev_inv_start] obtain vt d' where
    l: "find_prev_loop ops cmp kTypeDeletion d = Some (vt, d')" "sound s d'" "db_direction d' = kReverse" "prev_done s E (Suc c) vt d'" by blast
  have "op_Valid ops (iter d)" using child.pos_valid [OF c] True by simp
  with l True show ?thesis
    by (cases vt) (simp_all add: FindPrevUserEntry_def found_prev_def prev_done_def ClearSavedValue_def sound_def saved_def)
next
  case False
  then have "\<not> op_Valid ops (iter d)" using child.pos_valid [OF c] by simp
  with False c d show ?thesis by (auto simp: FindPrevUserEntry_def found_prev_def ClearSavedValue_def sound_def)
qed

lemma leave_key_returns:
  "pos E m it \<Longrightarrow> m < length E \<Longrightarrow> \<exists>it'. leave_key ops cmp key it = Some it' \<and>
     (pos E (length E) it' \<and> (\<forall>k < m. cmp key (ukey (E ! k)) \<le> 0) \<or>
      (\<exists>c < m. pos E c it' \<and> cmp (ukey (E ! c)) key < 0 \<and> (\<forall>k < m. c < k \<longrightarrow> cmp key (ukey (E ! k)) \<le> 0)))"
proof (induction m arbitrary: it)
  case 0
  from child.Prev_pos [OF 0] obtain it' where it': "op_Prev ops it = Some it'" "pos E (length E) it'" by auto
  with child.pos_valid [OF it'(2)] show ?case by (simp add: leave_key.simps [of ops cmp key it])
next
  case (Suc m)
  from child.Prev_pos [OF Suc.prems] obtain it' where it': "op_Prev ops it = Some it'" "pos E m it'" by auto
  have m: "m < length E" using Suc.prems by simp
  have key: "op_Valid ops it'" "ExtractUserKey (op_key ops it') = ukey (E ! m)"
    using child.pos_valid [OF it'(2)] child.pos_entry [OF it'(2) m] m by (simp_all add: ukey_def) (metis fst_conv)
  show ?case
  proof (cases "cmp (ukey (E ! m)) key < 0")
    case True
    with it' key show ?thesis by (auto simp: leave_key.simps [of ops cmp key it] intro!: exI [of _ m])
  next
    case False
    then have "cmp key (ukey (E ! m)) \<le> 0" by (simp only: order_facts(1))
    with Suc.IH [OF it'(2) m] it' key False show ?thesis
      by (auto simp: leave_key.simps [of ops cmp key it] less_Suc_eq)
  qed
qed

text \<open>The position of the iterator in the snapshot.\<close>

definition db_pos :: "u64 \<Rightarrow> (slice \<times> slice) list \<Rightarrow> nat \<Rightarrow> 'it DBIter \<Rightarrow> bool" where
  "db_pos s V i d \<longleftrightarrow> (\<exists>E. V = user_view s E \<and> db_entries cmp E \<and> sound s d \<and>
     (i < length V \<and> db_valid d \<and> db_direction d = kForward \<and> pos E (shown s E ! i) (iter d) \<or>
      i < length V \<and> db_valid d \<and> db_direction d = kReverse \<and> just_before s E (shown s E ! i) (iter d) \<and> saved E (shown s E ! i) d \<or>
      i = length V \<and> \<not> db_valid d \<and> (\<exists>c. pos E c (iter d))))"

lemma next_pos:
  assumes E: "db_entries cmp E" and f: "found_next W s E j d" and W: "\<And>k. k < length E \<Longrightarrow> j \<le> k \<Longrightarrow> W k \<Longrightarrow> yields s E k"
    and n: "n \<le> length (shown s E)" "\<And>q. q < length (shown s E) \<Longrightarrow> j \<le> shown s E ! q \<and> W (shown s E ! q) \<longleftrightarrow> n \<le> q"
  shows "db_pos s (user_view s E) n d"
proof -
  let ?Y = "shown s E"
  have mem: "?Y ! q < length E" if "q < length ?Y" for q using that nth_mem shown_facts(2) by blast
  have d: "sound s d" "db_direction d = kForward" using f by (simp_all add: found_next_def)
  from f consider (hit) m where "db_valid d" "m < length E" "j \<le> m" "W m" "\<forall>k < m. j \<le> k \<longrightarrow> \<not> W k" "pos E m (iter d)"
    | (miss) "\<not> db_valid d" "\<forall>k < length E. j \<le> k \<longrightarrow> \<not> W k" "pos E (length E) (iter d)" unfolding found_next_def by blast
  then show ?thesis
  proof cases
    case hit
    then have "m \<in> set ?Y" using W by (simp add: shown_facts(2))
    then obtain q where q: "q < length ?Y" "?Y ! q = m" by (auto simp: in_set_conv_nth)
    with n(2) [OF q(1)] hit have "n \<le> q" by simp
    moreover have "\<not> n < q"
    proof
      assume "n < q"
      with index_unique [OF shown_facts(1) [of s E], of n q] q have "?Y ! n < m" by simp
      moreover have "j \<le> ?Y ! n \<and> W (?Y ! n)" using n(2) [of n] \<open>n < q\<close> q(1) by simp
      ultimately show False using hit(5) by blast
    qed
    ultimately have "q = n" by simp
    with q hit E d show ?thesis by (auto simp: db_pos_def shown_facts(3))
  next
    case miss
    have "n = length ?Y"
    proof (rule ccontr)
      assume "n \<noteq> length ?Y"
      then have "n < length ?Y" using n(1) by simp
      with n(2) [of n] mem miss(2) show False by blast
    qed
    with miss E d show ?thesis by (auto simp: db_pos_def shown_facts(3))
  qed
qed

lemma prev_pos:
  assumes E: "db_entries cmp E" and f: "found_prev s E P d" and P: "P \<le> length E"
    and n: "n \<le> length (shown s E)" "\<And>q. q < length (shown s E) \<Longrightarrow> shown s E ! q < P \<longleftrightarrow> q < n"
  shows "db_pos s (user_view s E) (if n = 0 then length (user_view s E) else n - 1) d"
proof -
  let ?Y = "shown s E"
  have d: "sound s d" using f by (simp add: found_prev_def)
  from f consider (hit) m where "db_valid d" "db_direction d = kReverse" "m < P" "yields s E m" "\<forall>k < P. m < k \<longrightarrow> \<not> yields s E k"
      "just_before s E m (iter d)" "saved E m d"
    | (miss) c where "\<not> db_valid d" "\<forall>k < P. \<not> yields s E k" "pos E c (iter d)" unfolding found_prev_def by blast
  then show ?thesis
  proof cases
    case hit
    then have "m \<in> set ?Y" using P by (simp add: shown_facts(2))
    then obtain q where q: "q < length ?Y" "?Y ! q = m" by (auto simp: in_set_conv_nth)
    with n(2) [OF q(1)] hit(3) have "q < n" by simp
    moreover have "\<not> Suc q < n"
    proof
      assume a: "Suc q < n"
      then have "m < ?Y ! Suc q" using index_unique [OF shown_facts(1) [of s E], of q "Suc q"] q n(1) by simp
      moreover have "?Y ! Suc q < P" "yields s E (?Y ! Suc q)" using n(2) [of "Suc q"] n(1) a nth_mem [of "Suc q" ?Y] shown_facts(2) by auto
      ultimately show False using hit(5) by blast
    qed
    ultimately have "n = Suc q" by simp
    with q hit E d show ?thesis by (auto simp: db_pos_def shown_facts(3))
  next
    case miss
    have "n = 0"
    proof (rule ccontr)
      assume "n \<noteq> 0"
      then have "0 < length ?Y" using n(1) by linarith
      moreover from this have "?Y ! 0 < P" using n(2) [of 0] \<open>n \<noteq> 0\<close> by simp
      ultimately show False using miss(2) nth_mem [of 0 ?Y] by (auto simp: shown_facts(2))
    qed
    with miss E d show ?thesis by (auto simp: db_pos_def)
  qed
qed

lemma db_posE:
  assumes "db_pos s V i d"
  obtains E c where "V = user_view s E" and "db_entries cmp E" and "sound s d" and "pos E c (iter d)"
    and "i < length V \<and> db_valid d \<and> db_direction d = kForward \<and> c = shown s E ! i \<or>
      i < length V \<and> db_valid d \<and> db_direction d = kReverse \<and> just_before s E (shown s E ! i) (iter d) \<and> saved E (shown s E ! i) d \<or>
      i = length V \<and> \<not> db_valid d"
  using assms unfolding db_pos_def just_before_def by blast

lemma shown_entry:
  assumes "i < length (user_view s E)"
  shows "shown s E ! i < length E" "yields s E (shown s E ! i)" "user_view s E ! i = (ukey (E ! (shown s E ! i)), snd (E ! (shown s E ! i)))"
  using assms nth_mem [of i "shown s E"] by (auto simp: shown_facts(2,3) user_view_def)

lemma SeekToFirst_db_pos:
  assumes "db_pos s V i d"
  shows "\<exists>d'. DBIter_SeekToFirst ops cmp d = Some d' \<and> db_pos s V 0 d'"
proof -
  obtain E c where E: "V = user_view s E" "db_entries cmp E" "sound s d" "pos E c (iter d)" using db_posE [OF assms] by blast
  obtain it where it: "op_SeekToFirst ops (iter d) = Some it" "pos E 0 it" using child.SeekToFirst_pos [OF E(4)] by blast
  let ?d = "(ClearSavedValue (d\<lparr>db_direction := kForward\<rparr>))\<lparr>iter := it\<rparr>"
  have d: "pos E 0 (iter ?d)" "sound s ?d" "db_direction ?d = kForward" using E(3) it(2) by (simp_all add: ClearSavedValue_def sound_def)
  show ?thesis
  proof (cases "E = []")
    case True
    then have "db_pos s V 0 (?d\<lparr>db_valid := False\<rparr>)" using d E(1,2)
      by (intro db_pos_def [THEN iffD2] exI [of _ E]) (auto simp: user_view_def shown_def sound_def)
    moreover have "\<not> op_Valid ops it" using child.pos_valid [OF it(2)] True by simp
    ultimately show ?thesis using it(1) by (simp add: DBIter_SeekToFirst_def ClearSavedValue_def Let_def)
  next
    case False
    have "seeking (yields s E) s E 0 False (saved_key ?d)" by (simp add: seeking_def yields_def)
    with FindNext_found [OF E(2) d(1) _ d(2,3)] False obtain d' where
      d': "FindNextUserEntry ops cmp False ?d = Some d'" "found_next (yields s E) s E 0 d'" by blast
    have "db_pos s (user_view s E) 0 d'"
      by (rule next_pos [OF E(2) d'(2)]) (use shown_entry(2) [of _ s E] in \<open>simp_all add: shown_facts(3)\<close>)
    moreover have "op_Valid ops it" using child.pos_valid [OF it(2)] False by simp
    ultimately show ?thesis using it(1) d'(1) E(1) by (simp add: DBIter_SeekToFirst_def ClearSavedValue_def Let_def)
  qed
qed

lemma SeekToLast_db_pos:
  assumes "db_pos s V i d"
  shows "\<exists>d'. DBIter_SeekToLast ops cmp d = Some d' \<and> db_pos s V (length V - 1) d'"
proof -
  obtain E c where E: "V = user_view s E" "db_entries cmp E" "sound s d" "pos E c (iter d)" using db_posE [OF assms] by blast
  obtain it where it: "op_SeekToLast ops (iter d) = Some it" "pos E (length E - 1) it" using child.SeekToLast_pos [OF E(4)] by blast
  let ?d = "(ClearSavedValue (d\<lparr>db_direction := kReverse\<rparr>))\<lparr>iter := it\<rparr>"
  have d: "pos E (length E - 1) (iter ?d)" "sound s ?d" "db_direction ?d = kReverse" using E(3) it(2) by (simp_all add: ClearSavedValue_def sound_def)
  have P: "(if length E - 1 < length E then Suc (length E - 1) else 0) = length E" by (cases E) simp_all
  from FindPrev_found [OF E(2) d] obtain d' where d': "FindPrevUserEntry ops cmp ?d = Some d'" "found_prev s E (length E) d'" unfolding P by blast
  have "db_pos s (user_view s E) (if length V = 0 then length (user_view s E) else length V - 1) d'"
    by (rule prev_pos [OF E(2) d'(2)]) (use shown_entry(1) [of _ s E] in \<open>simp_all add: E(1) shown_facts(3)\<close>)
  then have "db_pos s V (length V - 1) d'" using E(1) by (simp split: if_splits)
  with it(1) d'(1) show ?thesis by (simp add: DBIter_SeekToLast_def ClearSavedValue_def Let_def)
qed

lemma shown_less: "q < length (user_view s E) \<Longrightarrow> i < length (user_view s E) \<Longrightarrow> shown s E ! i < shown s E ! q \<longleftrightarrow> i < q"
  using index_unique [OF shown_facts(1) [of s E], of i q] by (simp add: shown_facts(3))

text \<open>From the current position on, skipping its key leads to the next position.\<close>

lemma next_from_current:
  assumes E: "db_entries cmp E" and i: "i < length (user_view s E)" and d: "sound s d" "db_direction d = kForward"
    and j: "pos E j (iter d)" "j \<le> shown s E ! i" "\<forall>k < shown s E ! i. j \<le> k \<longrightarrow> \<not> visible s (E ! k)" and key: "saved_key d = ukey (E ! (shown s E ! i))"
  shows "\<exists>d'. FindNextUserEntry ops cmp True d = Some d' \<and> db_pos s (user_view s E) (Suc i) d'"
proof -
  let ?m = "shown s E ! i"
  note m = shown_entry(1,2) [OF i]
  have le: "cmp (ukey (E ! ?m)) (ukey (E ! k)) \<le> 0" if "k < length E" "?m \<le> k" for k
    using user_key_order [OF E _ that(1), of ?m] order_facts(3) that(2) by (cases "?m = k") auto
  have sk: "seeking (\<lambda>k. yields s E k \<and> ?m < k) s E j True (ukey (E ! ?m))"
    unfolding seeking_def
  proof (intro conjI allI impI, goal_cases)
    case (1 k)
    show ?case
    proof (cases "?m < k")
      case True
      have vm: "visible s (E ! ?m)" using m(2) by (simp add: yields_def)
      have "cmp (ukey (E ! ?m)) (ukey (E ! k)) < 0 \<longleftrightarrow> ukey (E ! ?m) \<noteq> ukey (E ! k)"
        using le [OF 1(1)] True order_facts(3) [of "ukey (E ! k)"] order_facts(4) [of "ukey (E ! ?m)" "ukey (E ! k)"] by auto
      moreover have low: "ukey (E ! l) \<noteq> ukey (E ! k)" if "cmp (ukey (E ! ?m)) (ukey (E ! k)) < 0" "l < ?m" for l
      proof -
        have "cmp (ukey (E ! l)) (ukey (E ! k)) < 0" using le_less_trans [of "ukey (E ! l)"] user_key_order [OF E that(2) m(1)] that(1) by simp
        then show ?thesis using order_facts(3) by auto
      qed
      ultimately have "(\<forall>l < k. visible s (E ! l) \<longrightarrow> ukey (E ! l) \<noteq> ukey (E ! k)) \<longleftrightarrow>
          cmp (ukey (E ! ?m)) (ukey (E ! k)) < 0 \<and> (\<forall>l < k. j \<le> l \<longrightarrow> visible s (E ! l) \<longrightarrow> ukey (E ! l) \<noteq> ukey (E ! k))"
        using True vm j(2) by (meson less_or_eq_imp_le not_less order_trans)
      then show ?thesis using True by (auto simp: yields_def)
    next
      case False
      then have "k = ?m \<or> \<not> visible s (E ! k)" using j(3) 1(2) by (cases "k = ?m") auto
      with False show ?thesis using order_facts(3) by auto
    qed
  next
    case (2 k)
    then show ?case using le [of k] j(3) by (cases "?m \<le> k") auto
  qed
  have "j < length E" using j(2) m(1) by simp
  from FindNext_found [OF E j(1) this d sk [folded key]] obtain d' where
    d': "FindNextUserEntry ops cmp True d = Some d'" "found_next (\<lambda>k. yields s E k \<and> ?m < k) s E j d'" by blast
  have "db_pos s (user_view s E) (Suc i) d'"
  proof (rule next_pos [OF E d'(2)], goal_cases)
    case (3 q)
    then show ?case using shown_less [of q s E i] shown_entry(2) [of q s E] i j(2) by (auto simp: shown_facts(3) Suc_le_eq)
  qed (use i in \<open>simp_all add: shown_facts(3)\<close>)
  with d'(1) show ?thesis by blast
qed

lemma Next_db_pos:
  assumes "db_pos s V i d" and "i < length V"
  shows "\<exists>d'. DBIter_Next ops cmp d = Some d' \<and> db_pos s V (Suc i) d'"
proof -
  obtain E c where E: "V = user_view s E" "db_entries cmp E" "sound s d" "pos E c (iter d)"
    and at: "db_direction d = kForward \<and> c = shown s E ! i \<or>
      db_direction d = kReverse \<and> just_before s E (shown s E ! i) (iter d) \<and> saved E (shown s E ! i) d" using db_posE [OF assms(1)] assms(2) by blast
  let ?m = "shown s E ! i"
  have i: "i < length (user_view s E)" using assms(2) E(1) by simp
  note m = shown_entry(1) [OF i]
  from at show ?thesis
  proof (elim disjE conjE)
    assume f: "db_direction d = kForward" and c: "c = ?m"
    have "ExtractUserKey (op_key ops (iter d)) = ukey (E ! ?m)" using child.pos_entry [OF E(4)] m c by (simp add: ukey_def) (metis fst_conv)
    moreover have "\<exists>d'. FindNextUserEntry ops cmp True (d\<lparr>saved_key := ukey (E ! ?m)\<rparr>) = Some d' \<and> db_pos s (user_view s E) (Suc i) d'"
      by (rule next_from_current [OF E(2) i, where j = c]) (use E(3,4) f c in \<open>simp_all add: sound_def\<close>)
    ultimately show ?thesis using f E(1) by (simp add: DBIter_Next_def)
  next
    assume r: "db_direction d = kReverse" and b: "just_before s E ?m (iter d)" and sv: "saved E ?m d"
    have move: "\<exists>it j. (if \<not> op_Valid ops (iter d) then op_SeekToFirst ops (iter d) else op_Next ops (iter d)) = Some it \<and> pos E j it \<and> j \<le> ?m \<and>
        (\<forall>k < ?m. j \<le> k \<longrightarrow> \<not> visible s (E ! k))"
      using b unfolding just_before_def
    proof (elim disjE exE conjE)
      assume p: "pos E (length E) (iter d)" "\<forall>k < ?m. \<not> visible s (E ! k)"
      with child.SeekToFirst_pos [OF p(1)] child.pos_valid [OF p(1)] show ?thesis by auto
    next
      fix c
      assume c: "c < ?m" "pos E c (iter d)" "\<forall>k < ?m. c < k \<longrightarrow> \<not> visible s (E ! k)"
      with child.Next_pos [OF c(2)] child.pos_valid [OF c(2)] m show ?thesis by (auto simp: Suc_le_eq intro!: exI [of _ "Suc c"])
    qed
    then obtain it j where it: "(if \<not> op_Valid ops (iter d) then op_SeekToFirst ops (iter d) else op_Next ops (iter d)) = Some it"
      "pos E j it" "j \<le> ?m" "\<forall>k < ?m. j \<le> k \<longrightarrow> \<not> visible s (E ! k)" by blast
    have "op_Valid ops it" using child.pos_valid [OF it(2)] it(3) m by simp
    moreover have "\<exists>d'. FindNextUserEntry ops cmp True (d\<lparr>db_direction := kForward, iter := it\<rparr>) = Some d' \<and> db_pos s (user_view s E) (Suc i) d'"
      by (rule next_from_current [OF E(2) i, where j = j]) (use E(3) it sv in \<open>simp_all add: sound_def saved_def\<close>)
    ultimately show ?thesis unfolding DBIter_Next_def it(1) using r E(1) by simp
  qed
qed

text \<open>The positions before the current one are those before the entries of its key.\<close>

lemma prev_below:
  assumes E: "db_entries cmp E" and i: "i < length (user_view s E)" and d: "pos E p (iter d)" "sound s d" "db_direction d = kReverse"
    and P: "P = (if p < length E then Suc p else 0)" and below: "P \<le> shown s E ! i" "\<And>y. P \<le> y \<Longrightarrow> y < shown s E ! i \<Longrightarrow> \<not> yields s E y"
  shows "\<exists>d'. FindPrevUserEntry ops cmp d = Some d' \<and>
    db_pos s (user_view s E) (if i = 0 then length (user_view s E) else i - 1) d'"
proof -
  from FindPrev_found [OF E d] obtain d' where d': "FindPrevUserEntry ops cmp d = Some d'" "found_prev s E P d'" unfolding P by blast
  have "db_pos s (user_view s E) (if i = 0 then length (user_view s E) else i - 1) d'"
  proof (rule prev_pos [OF E d'(2)], goal_cases)
    case (3 q)
    then have q: "q < length (user_view s E)" by (simp add: shown_facts(3))
    have "shown s E ! q < P \<longleftrightarrow> shown s E ! q < shown s E ! i" using below shown_entry(2) [OF q] by (meson less_le_trans not_le)
    with shown_less [OF i q] show ?case by simp
  qed (use i below(1) shown_entry(1) [OF i] in \<open>simp_all add: shown_facts(3)\<close>)
  with d'(1) show ?thesis by blast
qed

lemma Prev_db_pos:
  assumes "db_pos s V i d" and "i < length V"
  shows "\<exists>d'. DBIter_Prev ops cmp d = Some d' \<and> db_pos s V (if i = 0 then length V else i - 1) d'"
proof -
  obtain E c where E: "V = user_view s E" "db_entries cmp E" "sound s d" "pos E c (iter d)"
    and at: "db_direction d = kForward \<and> c = shown s E ! i \<or>
      db_direction d = kReverse \<and> just_before s E (shown s E ! i) (iter d) \<and> saved E (shown s E ! i) d" using db_posE [OF assms(1)] assms(2) by blast
  let ?m = "shown s E ! i"
  have i: "i < length (user_view s E)" using assms(2) E(1) by simp
  note m = shown_entry(1,2) [OF i]
  note prev = prev_below [OF E(2) i, folded E(1)]
  from at show ?thesis
  proof (elim disjE conjE)
    assume f: "db_direction d = kForward" and c: "c = ?m"
    have key: "ExtractUserKey (op_key ops (iter d)) = ukey (E ! ?m)" using child.pos_entry [OF E(4)] m(1) c by (simp add: ukey_def) (metis fst_conv)
    have other: "\<not> yields s E y" if "y < ?m" "cmp (ukey (E ! ?m)) (ukey (E ! y)) \<le> 0" for y
      using key_antisym [OF user_key_order [OF E(2) that(1) m(1)] that(2)] m(2) that(1) by (auto simp: yields_def)
    obtain it where l: "leave_key ops cmp (ukey (E ! ?m)) (iter d) = Some it" and it: "pos E (length E) it \<and> (\<forall>k < ?m. cmp (ukey (E ! ?m)) (ukey (E ! k)) \<le> 0) \<or>
      (\<exists>c < ?m. pos E c it \<and> cmp (ukey (E ! c)) (ukey (E ! ?m)) < 0 \<and> (\<forall>k < ?m. c < k \<longrightarrow> cmp (ukey (E ! ?m)) (ukey (E ! k)) \<le> 0))"
      using leave_key_returns [of E ?m "iter d" "ukey (E ! ?m)"] E(4) c m(1) by blast
    from it show ?thesis
    proof (elim disjE conjE exE)
      assume p: "pos E (length E) it" "\<forall>k < ?m. cmp (ukey (E ! ?m)) (ukey (E ! k)) \<le> 0"
      have "i = 0"
      proof (rule ccontr)
        assume "i \<noteq> 0"
        moreover have "0 < length (user_view s E)" using i by linarith
        ultimately have "shown s E ! 0 < ?m" "yields s E (shown s E ! 0)" using shown_less [OF i, of 0] shown_entry(2) [of 0 s E] by simp_all
        with other p(2) show False by blast
      qed
      then have "db_pos s V (if i = 0 then length V else i - 1) (ClearSavedValue (d\<lparr>iter := it, db_valid := False, saved_key := []\<rparr>))"
        using E(1-3) p(1) by (intro db_pos_def [THEN iffD2] exI [of _ E]) (auto simp: ClearSavedValue_def sound_def)
      moreover have "\<not> op_Valid ops it" using child.pos_valid [OF p(1)] by simp
      ultimately show ?thesis using f l key by (simp add: DBIter_Prev_def Let_def)
    next
      fix c'
      assume c': "c' < ?m" "pos E c' it" "cmp (ukey (E ! c')) (ukey (E ! ?m)) < 0" "\<forall>k < ?m. c' < k \<longrightarrow> cmp (ukey (E ! ?m)) (ukey (E ! k)) \<le> 0"
      let ?d = "d\<lparr>iter := it, saved_key := ukey (E ! ?m), db_direction := kReverse\<rparr>"
      have "\<exists>d'. FindPrevUserEntry ops cmp ?d = Some d' \<and> db_pos s V (if i = 0 then length V else i - 1) d'"
        by (rule prev [where p = c' and P = "Suc c'"]) (use c' E(3) m(1) other in \<open>simp_all add: sound_def Suc_le_eq\<close>)
      moreover have "op_Valid ops it" using child.pos_valid [OF c'(2)] c'(1) m(1) by simp
      ultimately show ?thesis using f l key by (simp add: DBIter_Prev_def Let_def)
    qed
  next
    assume r: "db_direction d = kReverse" and b: "just_before s E ?m (iter d)"
    from b have "\<exists>d'. FindPrevUserEntry ops cmp d = Some d' \<and> db_pos s V (if i = 0 then length V else i - 1) d'"
      unfolding just_before_def
    proof (elim disjE conjE exE)
      assume p: "pos E (length E) (iter d)" "\<forall>k < ?m. \<not> visible s (E ! k)"
      show ?thesis by (rule prev [where p = "length E" and P = 0]) (use p E(3) r in \<open>simp_all add: yields_def\<close>)
    next
      fix c'
      assume c': "c' < ?m" "pos E c' (iter d)" "visible s (E ! c')" "\<forall>k < ?m. c' < k \<longrightarrow> \<not> visible s (E ! k)"
      show ?thesis by (rule prev [where p = c' and P = "Suc c'"]) (use c' E(3) r m(1) in \<open>simp_all add: yields_def Suc_le_eq\<close>)
    qed
    with r show ?thesis by (simp add: DBIter_Prev_def)
  qed
qed

end

lemma unat_internal_num:
  assumes "ParseInternalKey (fst e) \<noteq> None"
  shows "unat (internal_num (fst e)) = unat (sequence (parsed e)) * 256 + value_type_number (vtype (parsed e))"
proof -
  let ?n = "internal_num (fst e)"
  have "?n AND 0xff = take_bit 8 ?n" by (simp add: take_bit_eq_mask mask_eq_exp_minus_1)
  then have "unat ?n mod 256 = unat (?n AND 0xff)" by (simp add: take_bit_eq_mod unat_mod)
  also have "\<dots> = value_type_number (vtype (parsed e))" using parsed_facts(5) [OF assms] by (cases "vtype (parsed e)") simp_all
  finally have "unat ?n mod 256 = value_type_number (vtype (parsed e))" .
  moreover have "unat (sequence (parsed e)) = unat ?n div 256" using parsed_facts(4) [OF assms] by (simp add: drop_bit_eq_div unat_div)
  ultimately show ?thesis by (metis div_mult_mod_eq)
qed

lemma takeWhile_index:
  assumes "\<And>p q. p < q \<Longrightarrow> q < length xs \<Longrightarrow> P (xs ! q) \<Longrightarrow> P (xs ! p)" and "q < length xs"
  shows "length (takeWhile P xs) \<le> q \<longleftrightarrow> \<not> P (xs ! q)"
proof -
  let ?n = "length (takeWhile P xs)"
  have "P (xs ! q)" if "q < ?n" using that set_takeWhileD [of "takeWhile P xs ! q" P xs] nth_mem [of q "takeWhile P xs"] by (simp add: takeWhile_nth)
  moreover have "\<not> P (xs ! q)" if "?n \<le> q"
  proof
    assume "P (xs ! q)"
    moreover have "\<not> P (xs ! ?n)" using nth_length_takeWhile [of P xs] that assms(2) by simp
    ultimately show False using assms(1) [of ?n q] assms(2) that by (cases "?n = q") auto
  qed
  ultimately show ?thesis by (meson not_le)
qed

context db_source
begin

text \<open>An entry before the target of a seek is hidden from the snapshot or has a smaller user key.\<close>

lemma before_target:
  assumes "ParseInternalKey (fst e) \<noteq> None" and "unat s < 2 ^ 56" and "visible s e"
    and "InternalKeyComparator_Compare cmp (fst e) (AppendInternalKey [] \<lparr>user_key = t, sequence = s, vtype = kValueTypeForSeek\<rparr>) < 0"
  shows "cmp (ukey e) t < 0"
proof (rule ccontr)
  assume "\<not> cmp (ukey e) t < 0"
  then have "PackSequenceAndType s kTypeValue < internal_num (fst e)"
    using assms(4) by (simp add: internal_less ukey_def AppendInternalKey_def PutFixed64_def kValueTypeForSeek_def)
  then have "unat s * 256 + 1 < unat (sequence (parsed e)) * 256 + value_type_number (vtype (parsed e))"
    unfolding word_less_nat_alt unat_pack [OF assms(2)] unat_internal_num [OF assms(1)] by simp
  moreover have "unat (sequence (parsed e)) \<le> unat s" using assms(3) by (simp add: visible_def word_le_nat_alt)
  ultimately show False by (cases "vtype (parsed e)") simp_all
qed

lemma Seek_db_pos:
  assumes "db_pos s V i d"
  shows "\<exists>d'. DBIter_Seek ops cmp d t = Some d' \<and> db_pos s V (length (takeWhile (\<lambda>e. cmp (fst e) t < 0) V)) d'"
proof -
  obtain E c where E: "V = user_view s E" "db_entries cmp E" "sound s d" "pos E c (iter d)" using db_posE [OF assms] by blast
  define K where "K = AppendInternalKey [] \<lparr>user_key = t, sequence = s, vtype = kValueTypeForSeek\<rparr>"
  let ?b = "\<lambda>e. InternalKeyComparator_Compare cmp (fst e) K < 0"
  define j where "j = length (takeWhile ?b E)"
  have "internal_valid K" by (simp add: K_def AppendInternalKey_def PutFixed64_def internal_valid_def)
  from child.Seek_pos [OF E(4) this] obtain it where it: "op_Seek ops (iter d) K = Some it" "pos E j it" by (auto simp: j_def)
  have low: "cmp (ukey (E ! k)) t < 0" if "k < j" "visible s (E ! k)" for k
  proof (rule before_target [OF _ _ that(2)])
    have "k < length E" using that(1) length_takeWhile_le [of ?b E] by (simp add: j_def)
    then show "ParseInternalKey (fst (E ! k)) \<noteq> None" using E(2) by (simp add: db_entries_def)
    show "InternalKeyComparator_Compare cmp (fst (E ! k)) (AppendInternalKey [] \<lparr>user_key = t, sequence = s, vtype = kValueTypeForSeek\<rparr>) < 0"
      using nth_length_takeWhile [of ?b E] that(1) set_takeWhileD [of "takeWhile ?b E ! k" ?b E] nth_mem [of k "takeWhile ?b E"]
      by (simp add: j_def K_def takeWhile_nth)
  qed (use E(3) in \<open>simp add: sound_def\<close>)
  have high: "cmp t (ukey (E ! k)) \<le> 0" if "j \<le> k" "k < length E" for k
  proof -
    have "j < length E" using that by simp
    then have "\<not> ?b (E ! j)" using nth_length_takeWhile [of ?b E] by (simp add: j_def)
    then have "\<not> cmp (ukey (E ! j)) t < 0" by (simp add: internal_less K_def AppendInternalKey_def PutFixed64_def ukey_def)
    then have "cmp t (ukey (E ! j)) \<le> 0" by (simp only: order_facts(1))
    with user_key_order [OF E(2) _ that(2), of j] that(1) key_le_trans show ?thesis by (cases "j = k") auto
  qed
  let ?n = "length (takeWhile (\<lambda>e. cmp (fst e) t < 0) (user_view s E))"
  have less: "cmp (fst (user_view s E ! q)) t < 0 \<longleftrightarrow> shown s E ! q < j" if q: "q < length (user_view s E)" for q
  proof (cases "shown s E ! q < j")
    case True
    with low shown_entry(2,3) [OF q] show ?thesis by (simp add: yields_def)
  next
    case False
    then have "cmp t (ukey (E ! (shown s E ! q))) \<le> 0" using high shown_entry(1) [OF q] by simp
    with False shown_entry(3) [OF q] order_facts(1) show ?thesis by simp
  qed
  have at: "j \<le> shown s E ! q \<longleftrightarrow> ?n \<le> q" if q: "q < length (user_view s E)" for q
  proof -
    have "?n \<le> q \<longleftrightarrow> \<not> cmp (fst (user_view s E ! q)) t < 0"
    proof (rule takeWhile_index [OF _ q])
      fix p q
      assume a: "p < q" "q < length (user_view s E)" "cmp (fst (user_view s E ! q)) t < 0"
      then have "shown s E ! p < shown s E ! q" "shown s E ! q < j" "p < length (user_view s E)" using shown_less [of q s E p] less [of q] by simp_all
      then show "cmp (fst (user_view s E ! p)) t < 0" using less [of p] by simp
    qed
    with less [OF q] show ?thesis by (simp add: not_less)
  qed
  let ?d = "(ClearSavedValue (d\<lparr>db_direction := kForward\<rparr>))\<lparr>saved_key := K, iter := it\<rparr>"
  have d: "pos E j (iter ?d)" "sound s ?d" "db_direction ?d = kForward" using E(3) it(2) by (simp_all add: ClearSavedValue_def sound_def)
  have s: "snapshot d = s" using E(3) by (simp add: sound_def)
  show ?thesis
  proof (cases "j < length E")
    case True
    have "seeking (yields s E) s E j False K" unfolding seeking_def
    proof (intro conjI allI impI, goal_cases)
      case (1 k)
      have "ukey (E ! l) \<noteq> ukey (E ! k)" if "l < j" "visible s (E ! l)" for l
        using low [OF that] high [OF 1(2,1)] order_facts(1) [of "ukey (E ! k)" t] by auto
      with 1(2) show ?case by (auto simp: yields_def not_less)
    qed simp
    with FindNext_found [OF E(2) d(1) True d(2,3)] obtain d' where
      d': "FindNextUserEntry ops cmp False ?d = Some d'" "found_next (yields s E) s E j d'" by (auto simp: ClearSavedValue_def)
    have "db_pos s (user_view s E) ?n d'"
    proof (rule next_pos [OF E(2) d'(2)], goal_cases)
      case 2
      then show ?case by (metis length_takeWhile_le shown_facts(3))
    next
      case (3 q)
      then show ?case using at [of q] shown_entry(2) [of q s E] by (simp add: shown_facts(3))
    qed
    moreover have "op_Valid ops it" using child.pos_valid [OF it(2)] True by simp
    ultimately show ?thesis using it(1) d'(1) E(1) s by (simp add: DBIter_Seek_def ClearSavedValue_def K_def [symmetric] Let_def)
  next
    case False
    then have "j = length E" using child.pos_bound [OF it(2)] by simp
    then have "?n = length (user_view s E)" using at [of ?n] shown_entry(1) [of ?n s E] length_takeWhile_le [of _ "user_view s E"]
      by (metis (no_types, lifting) le_neq_implies_less linorder_not_less order_refl)
    then have "db_pos s (user_view s E) ?n (?d\<lparr>db_valid := False\<rparr>)" using d E(2)
      by (intro db_pos_def [THEN iffD2] exI [of _ E]) (auto simp: sound_def)
    moreover have "\<not> op_Valid ops it" using child.pos_valid [OF it(2)] False by simp
    ultimately show ?thesis using it(1) E(1) s by (simp add: DBIter_Seek_def ClearSavedValue_def K_def [symmetric] Let_def)
  qed
qed

lemma db_over: "iterator_over (db_iterator ops cmp) (db_pos s) (\<lambda>a b. cmp a b < 0) (\<lambda>_. True)"
proof (unfold_locales, goal_cases)
  case (1 V i d)
  then show ?case by (auto simp: db_pos_def)
next
  case (2 V i d)
  then show ?case by (auto simp: db_pos_def db_iterator_def)
next
  case (3 V i d)
  obtain E c where E: "V = user_view s E" "pos E c (iter d)" and at: "db_direction d = kForward \<and> c = shown s E ! i \<or>
      db_direction d = kReverse \<and> saved E (shown s E ! i) d" using db_posE [OF 3(1)] 3(2) by blast
  have i: "i < length (user_view s E)" using 3(2) E(1) by simp
  from at show ?case
  proof (elim disjE conjE)
    assume "db_direction d = kForward" "c = shown s E ! i"
    with child.pos_entry [OF E(2)] shown_entry(1,3) [OF i] E(1) show ?thesis
      by (simp add: db_iterator_def DBIter_key_def DBIter_value_def ukey_def) (metis fst_conv snd_conv)
  next
    assume "db_direction d = kReverse" "saved E (shown s E ! i) d"
    with shown_entry(3) [OF i] E(1) show ?thesis by (simp add: db_iterator_def DBIter_key_def DBIter_value_def saved_def)
  qed
next
  case (4 V i d)
  then obtain E c where "sound s d" "pos E c (iter d)" using db_posE by blast
  with child.pos_status [of E c "iter d"] show ?case by (simp add: db_iterator_def DBIter_status_def sound_def ok_OK)
next
  case (5 V i d)
  with SeekToFirst_db_pos show ?case by (simp add: db_iterator_def)
next
  case (6 V i d)
  with SeekToLast_db_pos show ?case by (simp add: db_iterator_def)
next
  case (7 V i d t)
  with Seek_db_pos show ?case by (simp add: db_iterator_def)
next
  case (8 V i d)
  with Next_db_pos show ?case by (simp add: db_iterator_def)
next
  case (9 V i d)
  then show ?case unfolding db_iterator_def using Prev_db_pos [of s V i d] by simp
qed

lemma new_db_pos:
  assumes "db_entries cmp E" and "unat s < 2 ^ 56" and "pos E c it"
  shows "db_pos s (user_view s E) (length (user_view s E)) (NewDBIterator it s seed)"
  using assms seed_ok_next [OF seed_ok_new [of seed]]
  by (intro db_pos_def [THEN iffD2] exI [of _ E]) (auto simp: NewDBIterator_def sound_def period_eq)

end

sublocale db_source \<subseteq> db: iterator_over "db_iterator ops cmp" "db_pos s" "\<lambda>a b. cmp a b < 0" "\<lambda>_. True" for s
  by (rule db_over)

section \<open>The snapshot\<close>

lemma bex_nth: "(\<exists>x \<in> set xs. P x) \<longleftrightarrow> (\<exists>j < length xs. P (xs ! j))"
  by (metis in_set_conv_nth)

context user_order
begin

lemma newer_first:
  assumes "db_entries cmp E" and "i < j" and "j < length E" and "ukey (E ! i) = ukey (E ! j)"
  shows "unat (sequence (parsed (E ! j))) * 256 + value_type_number (vtype (parsed (E ! j))) <
    unat (sequence (parsed (E ! i))) * 256 + value_type_number (vtype (parsed (E ! i)))"
proof -
  have "InternalKeyComparator_Compare cmp (fst (E ! i)) (fst (E ! j)) < 0"
    using assms(1-3) sorted_wrt_nth_less [of _ E i j] by (auto simp: db_entries_def)
  then have "internal_num (fst (E ! j)) < internal_num (fst (E ! i))" using assms(4) order_facts(3) by (simp add: internal_less ukey_def)
  with assms(1-3) unat_internal_num [of "E ! i"] unat_internal_num [of "E ! j"] show ?thesis by (simp add: db_entries_def word_less_nat_alt)
qed

lemma yields_newest:
  assumes E: "db_entries cmp E" and j: "j < length E"
  shows "yields s E j \<longleftrightarrow> vtype (parsed (E ! j)) = kTypeValue \<and> visible s (E ! j) \<and>
    (\<forall>e \<in> set E. ukey e = ukey (E ! j) \<longrightarrow> visible s e \<longrightarrow> sequence (parsed e) \<le> sequence (parsed (E ! j)))"
proof (intro iffI conjI ballI impI)
  fix e
  assume y: "yields s E j" and e: "e \<in> set E" "ukey e = ukey (E ! j)" "visible s e"
  then obtain k where k: "k < length E" "e = E ! k" by (auto simp: in_set_conv_nth)
  with y e have "\<not> k < j" by (auto simp: yields_def)
  then show "sequence (parsed e) \<le> sequence (parsed (E ! j))"
    using newer_first [OF E _ k(1), of j] k(2) e(2)
    by (cases "k = j"; cases "vtype (parsed (E ! j))"; cases "vtype (parsed e)") (simp_all add: word_le_nat_alt)
next
  assume r: "vtype (parsed (E ! j)) = kTypeValue \<and> visible s (E ! j) \<and>
    (\<forall>e \<in> set E. ukey e = ukey (E ! j) \<longrightarrow> visible s e \<longrightarrow> sequence (parsed e) \<le> sequence (parsed (E ! j)))"
  have "ukey (E ! i) \<noteq> ukey (E ! j)" if i: "i < j" "visible s (E ! i)" for i
  proof
    assume same: "ukey (E ! i) = ukey (E ! j)"
    with r i j have "sequence (parsed (E ! i)) \<le> sequence (parsed (E ! j))" by simp
    with newer_first [OF E i(1) j same] r show False by (cases "vtype (parsed (E ! i))") (simp_all add: word_le_nat_alt)
  qed
  with r show "yields s E j" by (simp add: yields_def)
qed (simp_all add: yields_def)

lemma snapshot_member:
  assumes "db_entries cmp E"
  shows "(u, v) \<in> set (user_view s E) \<longleftrightarrow>
    (\<exists>e \<in> set E. ukey e = u \<and> snd e = v \<and> vtype (parsed e) = kTypeValue \<and> visible s e \<and>
       (\<forall>e' \<in> set E. ukey e' = u \<longrightarrow> visible s e' \<longrightarrow> sequence (parsed e') \<le> sequence (parsed e)))"
proof -
  have "(u, v) \<in> set (user_view s E) \<longleftrightarrow> (\<exists>j < length E. yields s E j \<and> ukey (E ! j) = u \<and> snd (E ! j) = v)"
    by (auto simp: user_view_def shown_facts(2))
  also have "\<dots> \<longleftrightarrow> (\<exists>j < length E. ukey (E ! j) = u \<and> snd (E ! j) = v \<and> vtype (parsed (E ! j)) = kTypeValue \<and> visible s (E ! j) \<and>
      (\<forall>e' \<in> set E. ukey e' = u \<longrightarrow> visible s e' \<longrightarrow> sequence (parsed e') \<le> sequence (parsed (E ! j))))"
    using yields_newest [OF assms] by blast
  finally show ?thesis unfolding bex_nth .
qed

lemma snapshot_sorted:
  assumes "db_entries cmp E"
  shows "sorted_wrt (\<lambda>a b. cmp (fst a) (fst b) < 0) (user_view s E)"
proof -
  have "cmp (ukey (E ! i)) (ukey (E ! j)) < 0" if "i < j" "i \<in> set (shown s E)" "j \<in> set (shown s E)" for i j
  proof -
    have j: "j < length E" "ukey (E ! i) \<noteq> ukey (E ! j)" using that by (auto simp: shown_facts(2) yields_def)
    with user_key_order [OF assms that(1)] order_facts(4) show ?thesis by blast
  qed
  then show ?thesis unfolding user_view_def sorted_wrt_map fst_conv
    by (intro sorted_wrt_mono_rel [OF _ shown_facts(1) [of s E]])
qed

end

definition snapshot_of :: "u64 \<Rightarrow> (slice \<times> slice) list \<Rightarrow> (slice \<times> slice) list \<Rightarrow> bool" where
  "snapshot_of s E V \<longleftrightarrow> sorted_wrt (\<lambda>a b. Compare (fst a) (fst b) < 0) V \<and>
     (\<forall>u v. (u, v) \<in> set V \<longleftrightarrow>
        (\<exists>e \<in> set E. ukey e = u \<and> snd e = v \<and> vtype (parsed e) = kTypeValue \<and> visible s e \<and>
           (\<forall>e' \<in> set E. ukey e' = u \<longrightarrow> visible s e' \<longrightarrow> sequence (parsed e') \<le> sequence (parsed e))))"

lemma user_view_snapshot: "db_entries Compare E \<Longrightarrow> snapshot_of s E (user_view s E)"
  using users.snapshot_member users.snapshot_sorted by (simp add: snapshot_of_def)

section \<open>Database iterators over the iterators of the library\<close>

interpretation merged_db: db_source Compare FindShortestSeparator FindShortSuccessor
  "merging_iterator (InternalKeyComparator_Compare Compare) (block_iterator (InternalKeyComparator_Compare Compare))"
  "merge_pos internal_valid (InternalKeyComparator_Compare Compare) block_merge.wpos"
  by (intro db_source.intro users.user_order_axioms block_merge.merging.iterator_over_axioms)

interpretation table_db: db_source Compare FindShortestSeparator FindShortSuccessor
  "table_iterator a PosixRandomAccessFile_Read port sharded_ops ropt (InternalKeyComparator_Compare Compare)"
  "two_pos (posix_reader.describes port)
     (wrapper_pos (any_iterator (InternalKeyComparator_Compare Compare)) (any_pos internal_valid (InternalKeyComparator_Compare Compare)))
     (wrapper_pos (any_iterator (InternalKeyComparator_Compare Compare)) (any_pos internal_valid (InternalKeyComparator_Compare Compare)))" for a port ropt
  unfolding table_iterator_def
  by (intro db_source.intro users.user_order_axioms posix_reader.tables.two_level.iterator_over_axioms)

end
