(* ===== verification/Ldb_Version_Edit.thy ===== *)
theory Ldb_Version_Edit
  imports Ldb_Write_Batch "HOL-Library.Product_Lexorder"
begin

text \<open>
  \<open>leveldb/db/version_edit.cc\<close>: the changes between two versions of the database, as they are written to the manifest. Shown here: an edit is
  the sequence of its fields; decoding applies the fields of the input one after the other and always ends; what is encoded is decoded to
  the same edit, except that \<open>Clear\<close> keeps the compaction pointers.
\<close>

section \<open>Data\<close>

definition kNumLevels :: nat where
  "kNumLevels = 7"

record FileMetaData =
  f_refs :: int
  allowed_seeks :: int
  f_number :: u64
  f_file_size :: u64
  f_smallest :: slice
  f_largest :: slice

definition new_FileMetaData :: "u64 \<Rightarrow> u64 \<Rightarrow> slice \<Rightarrow> slice \<Rightarrow> FileMetaData" where
  "new_FileMetaData number sz smallest largest =
     \<lparr>f_refs = 0, allowed_seeks = 2 ^ 30, f_number = number, f_file_size = sz, f_smallest = smallest, f_largest = largest\<rparr>"

text \<open>An \<open>InternalKey\<close> is its string; the set of deleted files is the list of its elements in their order.\<close>

record VersionEdit =
  ve_comparator :: slice
  log_number :: u64
  prev_log_number :: u64
  next_file_number :: u64
  last_sequence :: u64
  has_comparator :: bool
  has_log_number :: bool
  has_prev_log_number :: bool
  has_next_file_number :: bool
  has_last_sequence :: bool
  compact_pointers :: "(nat \<times> slice) list"
  deleted_files :: "(nat \<times> u64) list"
  new_files :: "(nat \<times> FileMetaData) list"

definition VersionEdit_Clear :: "VersionEdit \<Rightarrow> VersionEdit" where
  "VersionEdit_Clear e =
     e\<lparr>ve_comparator := [], log_number := 0, prev_log_number := 0, last_sequence := 0, next_file_number := 0,
       has_comparator := False, has_log_number := False, has_prev_log_number := False, has_next_file_number := False,
       has_last_sequence := False, deleted_files := [], new_files := []\<rparr>"

definition new_VersionEdit :: VersionEdit where
  "new_VersionEdit =
     \<lparr>ve_comparator = [], log_number = 0, prev_log_number = 0, next_file_number = 0, last_sequence = 0,
      has_comparator = False, has_log_number = False, has_prev_log_number = False, has_next_file_number = False,
      has_last_sequence = False, compact_pointers = [], deleted_files = [], new_files = []\<rparr>"

definition SetComparatorName :: "slice \<Rightarrow> VersionEdit \<Rightarrow> VersionEdit" where
  "SetComparatorName name e = e\<lparr>has_comparator := True, ve_comparator := name\<rparr>"

definition SetLogNumber :: "u64 \<Rightarrow> VersionEdit \<Rightarrow> VersionEdit" where
  "SetLogNumber n e = e\<lparr>has_log_number := True, log_number := n\<rparr>"

definition SetPrevLogNumber :: "u64 \<Rightarrow> VersionEdit \<Rightarrow> VersionEdit" where
  "SetPrevLogNumber n e = e\<lparr>has_prev_log_number := True, prev_log_number := n\<rparr>"

definition SetNextFile :: "u64 \<Rightarrow> VersionEdit \<Rightarrow> VersionEdit" where
  "SetNextFile n e = e\<lparr>has_next_file_number := True, next_file_number := n\<rparr>"

definition SetLastSequence :: "u64 \<Rightarrow> VersionEdit \<Rightarrow> VersionEdit" where
  "SetLastSequence n e = e\<lparr>has_last_sequence := True, last_sequence := n\<rparr>"

definition SetCompactPointer :: "nat \<Rightarrow> slice \<Rightarrow> VersionEdit \<Rightarrow> VersionEdit" where
  "SetCompactPointer level key e = e\<lparr>compact_pointers := compact_pointers e @ [(level, key)]\<rparr>"

definition AddFile :: "nat \<Rightarrow> u64 \<Rightarrow> u64 \<Rightarrow> slice \<Rightarrow> slice \<Rightarrow> VersionEdit \<Rightarrow> VersionEdit" where
  "AddFile level number sz smallest largest e =
     e\<lparr>new_files := new_files e @ [(level, new_FileMetaData number sz smallest largest)]\<rparr>"

definition VersionEdit_DeleteFile :: "nat \<Rightarrow> u64 \<Rightarrow> VersionEdit \<Rightarrow> VersionEdit" where
  "VersionEdit_DeleteFile level number e = e\<lparr>deleted_files := insort_insert (level, number) (deleted_files e)\<rparr>"

section \<open>Encoding\<close>

datatype Tag = kComparator | kLogNumber | kNextFileNumber | kLastSequence | kCompactPointer | kDeletedFile | kNewFile | kPrevLogNumber

fun tag_number :: "Tag \<Rightarrow> u32" where
  "tag_number kComparator = 1"
| "tag_number kLogNumber = 2"
| "tag_number kNextFileNumber = 3"
| "tag_number kLastSequence = 4"
| "tag_number kCompactPointer = 5"
| "tag_number kDeletedFile = 6"
| "tag_number kNewFile = 7"
| "tag_number kPrevLogNumber = 9"

definition put_compact_pointer :: "byte list \<Rightarrow> nat \<times> slice \<Rightarrow> byte list" where
  "put_compact_pointer dst p =
     PutLengthPrefixedSlice (PutVarint32 (PutVarint32 dst (tag_number kCompactPointer)) (word_of_nat (fst p))) (snd p)"

definition put_deleted_file :: "byte list \<Rightarrow> nat \<times> u64 \<Rightarrow> byte list" where
  "put_deleted_file dst p = PutVarint64 (PutVarint32 (PutVarint32 dst (tag_number kDeletedFile)) (word_of_nat (fst p))) (snd p)"

definition put_new_file :: "byte list \<Rightarrow> nat \<times> FileMetaData \<Rightarrow> byte list" where
  "put_new_file dst p =
     (let f = snd p;
          dst = PutVarint32 dst (tag_number kNewFile);
          dst = PutVarint32 dst (word_of_nat (fst p));
          dst = PutVarint64 dst (f_number f);
          dst = PutVarint64 dst (f_file_size f);
          dst = PutLengthPrefixedSlice dst (f_smallest f)
      in PutLengthPrefixedSlice dst (f_largest f))"

definition VersionEdit_EncodeTo :: "VersionEdit \<Rightarrow> byte list \<Rightarrow> byte list" where
  "VersionEdit_EncodeTo e dst =
     (let dst = (if has_comparator e then PutLengthPrefixedSlice (PutVarint32 dst (tag_number kComparator)) (ve_comparator e) else dst);
          dst = (if has_log_number e then PutVarint64 (PutVarint32 dst (tag_number kLogNumber)) (log_number e) else dst);
          dst = (if has_prev_log_number e then PutVarint64 (PutVarint32 dst (tag_number kPrevLogNumber)) (prev_log_number e) else dst);
          dst = (if has_next_file_number e then PutVarint64 (PutVarint32 dst (tag_number kNextFileNumber)) (next_file_number e) else dst);
          dst = (if has_last_sequence e then PutVarint64 (PutVarint32 dst (tag_number kLastSequence)) (last_sequence e) else dst);
          dst = foldl put_compact_pointer dst (compact_pointers e);
          dst = foldl put_deleted_file dst (deleted_files e)
      in foldl put_new_file dst (new_files e))"

section \<open>Decoding\<close>

definition GetInternalKey :: "slice \<Rightarrow> (slice \<times> slice) option" where
  "GetInternalKey input = GetLengthPrefixedSlice input"

definition GetLevel :: "slice \<Rightarrow> (nat \<times> slice) option" where
  "GetLevel input =
     (case GetVarint32 input of None \<Rightarrow> None | Some (v, input) \<Rightarrow> if unat v < kNumLevels then Some (unat v, input) else None)"

text \<open>
  One round of the loop: the message of an error, or the rest of the input and the edit. The temporary \<open>f\<close> of the code keeps the
  values of earlier entries, but every field of it is set before it is pushed.
\<close>

definition get_number :: "string \<Rightarrow> (u64 \<Rightarrow> VersionEdit \<Rightarrow> VersionEdit) \<Rightarrow> slice \<Rightarrow> VersionEdit \<Rightarrow> slice + slice \<times> VersionEdit" where
  "get_number msg setter input e = (case GetVarint64 input of None \<Rightarrow> Inl (str msg) | Some (n, input) \<Rightarrow> Inr (input, setter n e))"

definition get_new_file :: "slice \<Rightarrow> VersionEdit \<Rightarrow> (slice \<times> VersionEdit) option" where
  "get_new_file input e =
     (case GetLevel input of None \<Rightarrow> None | Some (level, input) \<Rightarrow>
      case GetVarint64 input of None \<Rightarrow> None | Some (number, input) \<Rightarrow>
      case GetVarint64 input of None \<Rightarrow> None | Some (sz, input) \<Rightarrow>
      case GetInternalKey input of None \<Rightarrow> None | Some (smallest, input) \<Rightarrow>
      case GetInternalKey input of None \<Rightarrow> None | Some (largest, input) \<Rightarrow> Some (input, AddFile level number sz smallest largest e))"

definition decode_edit_field :: "u32 \<Rightarrow> slice \<Rightarrow> VersionEdit \<Rightarrow> slice + slice \<times> VersionEdit" where
  "decode_edit_field tag input e =
     (if tag = tag_number kComparator then
        (case GetLengthPrefixedSlice input of None \<Rightarrow> Inl (str ''comparator name'') | Some (s, input) \<Rightarrow> Inr (input, SetComparatorName s e))
      else if tag = tag_number kLogNumber then get_number ''log number'' SetLogNumber input e
      else if tag = tag_number kPrevLogNumber then get_number ''previous log number'' SetPrevLogNumber input e
      else if tag = tag_number kNextFileNumber then get_number ''next file number'' SetNextFile input e
      else if tag = tag_number kLastSequence then get_number ''last sequence number'' SetLastSequence input e
      else if tag = tag_number kCompactPointer then
        (case GetLevel input of None \<Rightarrow> Inl (str ''compaction pointer'') | Some (level, input) \<Rightarrow>
         case GetInternalKey input of None \<Rightarrow> Inl (str ''compaction pointer'') | Some (key, input) \<Rightarrow> Inr (input, SetCompactPointer level key e))
      else if tag = tag_number kDeletedFile then
        (case GetLevel input of None \<Rightarrow> Inl (str ''deleted file'') | Some (level, input) \<Rightarrow>
         case GetVarint64 input of None \<Rightarrow> Inl (str ''deleted file'') | Some (number, input) \<Rightarrow> Inr (input, VersionEdit_DeleteFile level number e))
      else if tag = tag_number kNewFile then
        (case get_new_file input e of None \<Rightarrow> Inl (str ''new-file entry'') | Some r \<Rightarrow> Inr r)
      else Inl (str ''unknown tag''))"

lemma varint64_ptr_loop_shorter: "varint64_ptr_loop shift result p = Some (v, q) \<Longrightarrow> length q < length p"
  by (induction shift result p rule: varint64_ptr_loop.induct) (auto simp: Let_def split: if_splits)

lemma GetVarint64_shorter: "GetVarint64 p = Some (v, q) \<Longrightarrow> length q < length p"
  by (simp add: GetVarint64_def GetVarint64Ptr_def varint64_ptr_loop_shorter)

lemmas shorter = GetVarint32_shorter GetVarint64_shorter GetLengthPrefixedSlice_shorter

lemma GetLevel_shorter: "GetLevel p = Some (v, q) \<Longrightarrow> length q < length p"
  by (auto simp: GetLevel_def split: option.splits if_splits dest: shorter)

lemma get_new_file_shorter: "get_new_file p e = Some (q, e') \<Longrightarrow> length q < length p"
  by (auto simp: get_new_file_def GetInternalKey_def split: option.splits dest!: GetLevel_shorter shorter)

lemma get_number_shorter: "get_number msg setter p e = Inr (q, e') \<Longrightarrow> length q < length p"
  by (auto simp: get_number_def split: option.splits dest: shorter)

lemma decode_edit_field_shorter: "decode_edit_field tag p e = Inr (q, e') \<Longrightarrow> length q < length p"
  by (auto simp: decode_edit_field_def GetInternalKey_def split: if_splits option.splits
      dest!: GetLevel_shorter shorter get_number_shorter get_new_file_shorter)

function decode_edit_loop :: "slice \<Rightarrow> VersionEdit \<Rightarrow> status \<times> VersionEdit" where
  "decode_edit_loop input e =
     (case GetVarint32 input of
        None \<Rightarrow> (if input = [] then OK else Corruption (str ''VersionEdit'') (str ''invalid tag''), e)
      | Some (tag, input) \<Rightarrow>
          (case decode_edit_field tag input e of
             Inl msg \<Rightarrow> (Corruption (str ''VersionEdit'') msg, e)
           | Inr (input, e) \<Rightarrow> decode_edit_loop input e))"
  by pat_completeness auto
termination
  by (relation "measure (\<lambda>(input, _). length input)") (auto dest!: decode_edit_field_shorter GetVarint32_shorter)

declare decode_edit_loop.simps [simp del]

definition VersionEdit_DecodeFrom :: "VersionEdit \<Rightarrow> slice \<Rightarrow> status \<times> VersionEdit" where
  "VersionEdit_DecodeFrom e src = decode_edit_loop src (VersionEdit_Clear e)"

section \<open>An edit is the sequence of its fields\<close>

datatype edit_field = Comparator_Name slice | Log_Number u64 | Prev_Log_Number u64 | Next_File u64 | Last_Sequence u64
  | Compact_Pointer nat slice | Deleted_File nat u64 | New_File nat u64 u64 slice slice

fun edit_field_bytes :: "edit_field \<Rightarrow> byte list" where
  "edit_field_bytes (Comparator_Name s) = EncodeVarint32 1 @ lps s"
| "edit_field_bytes (Log_Number n) = EncodeVarint32 2 @ EncodeVarint64 n"
| "edit_field_bytes (Prev_Log_Number n) = EncodeVarint32 9 @ EncodeVarint64 n"
| "edit_field_bytes (Next_File n) = EncodeVarint32 3 @ EncodeVarint64 n"
| "edit_field_bytes (Last_Sequence n) = EncodeVarint32 4 @ EncodeVarint64 n"
| "edit_field_bytes (Compact_Pointer l k) = EncodeVarint32 5 @ EncodeVarint32 (word_of_nat l) @ lps k"
| "edit_field_bytes (Deleted_File l n) = EncodeVarint32 6 @ EncodeVarint32 (word_of_nat l) @ EncodeVarint64 n"
| "edit_field_bytes (New_File l n s a b) =
     EncodeVarint32 7 @ EncodeVarint32 (word_of_nat l) @ EncodeVarint64 n @ EncodeVarint64 s @ lps a @ lps b"

fun apply_field :: "VersionEdit \<Rightarrow> edit_field \<Rightarrow> VersionEdit" where
  "apply_field e (Comparator_Name s) = SetComparatorName s e"
| "apply_field e (Log_Number n) = SetLogNumber n e"
| "apply_field e (Prev_Log_Number n) = SetPrevLogNumber n e"
| "apply_field e (Next_File n) = SetNextFile n e"
| "apply_field e (Last_Sequence n) = SetLastSequence n e"
| "apply_field e (Compact_Pointer l k) = SetCompactPointer l k e"
| "apply_field e (Deleted_File l n) = VersionEdit_DeleteFile l n e"
| "apply_field e (New_File l n s a b) = AddFile l n s a b e"

fun field_ok :: "edit_field \<Rightarrow> bool" where
  "field_ok (Comparator_Name s) \<longleftrightarrow> length s < 2 ^ 32"
| "field_ok (Compact_Pointer l k) \<longleftrightarrow> l < kNumLevels \<and> length k < 2 ^ 32"
| "field_ok (Deleted_File l n) \<longleftrightarrow> l < kNumLevels"
| "field_ok (New_File l n s a b) \<longleftrightarrow> l < kNumLevels \<and> length a < 2 ^ 32 \<and> length b < 2 ^ 32"
| "field_ok _ \<longleftrightarrow> True"

lemma GetLevel_put: "l < kNumLevels \<Longrightarrow> GetLevel (EncodeVarint32 (word_of_nat l) @ rest) = Some (l, rest)"
  by (simp add: GetLevel_def varint32_codec.get_put unsigned_of_nat take_bit_nat_eq_self kNumLevels_def)

lemmas get_puts = varint32_codec.get_put varint64_codec.get_put slice_codec.get_put GetLevel_put

lemma decode_one_field:
  "field_ok f \<Longrightarrow> \<exists>tag. GetVarint32 (edit_field_bytes f @ rest) = Some (tag, drop (length (EncodeVarint32 tag)) (edit_field_bytes f @ rest)) \<and>
     decode_edit_field tag (drop (length (EncodeVarint32 tag)) (edit_field_bytes f @ rest)) e = Inr (rest, apply_field e f)"
  by (cases f) (simp_all add: get_puts decode_edit_field_def get_number_def get_new_file_def GetInternalKey_def)

lemma decode_fields:
  "list_all field_ok fs \<Longrightarrow> decode_edit_loop (concat (map edit_field_bytes fs)) e = (OK, foldl apply_field e fs)"
proof (induction fs arbitrary: e)
  case Nil
  have "GetVarint32 [] = None" by (simp add: GetVarint32_def GetVarint32Ptr_def GetVarint32PtrFallback_def)
  then show ?case by (simp add: decode_edit_loop.simps)
next
  case (Cons f fs)
  then obtain tag p where "GetVarint32 (edit_field_bytes f @ concat (map edit_field_bytes fs)) = Some (tag, p)"
    "decode_edit_field tag p e = Inr (concat (map edit_field_bytes fs), apply_field e f)"
    using decode_one_field [of f "concat (map edit_field_bytes fs)" e] by auto
  with Cons show ?case by (simp add: decode_edit_loop.simps [of "edit_field_bytes f @ concat (map edit_field_bytes fs)"])
qed

definition fields_of :: "VersionEdit \<Rightarrow> edit_field list" where
  "fields_of e =
     (if has_comparator e then [Comparator_Name (ve_comparator e)] else []) @
     (if has_log_number e then [Log_Number (log_number e)] else []) @
     (if has_prev_log_number e then [Prev_Log_Number (prev_log_number e)] else []) @
     (if has_next_file_number e then [Next_File (next_file_number e)] else []) @
     (if has_last_sequence e then [Last_Sequence (last_sequence e)] else []) @
     map (\<lambda>(l, k). Compact_Pointer l k) (compact_pointers e) @ map (\<lambda>(l, n). Deleted_File l n) (deleted_files e) @
     map (\<lambda>(l, f). New_File l (f_number f) (f_file_size f) (f_smallest f) (f_largest f)) (new_files e)"

lemma foldl_put:
  assumes "\<And>dst x. put dst x = dst @ edit_field_bytes (field x)"
  shows "foldl put dst xs = dst @ concat (map (\<lambda>x. edit_field_bytes (field x)) xs)"
  by (induction xs arbitrary: dst) (simp_all add: assms)

lemma EncodeTo_fields: "VersionEdit_EncodeTo e dst = dst @ concat (map edit_field_bytes (fields_of e))"
proof -
  have c: "foldl put_compact_pointer dst xs = dst @ concat (map (\<lambda>x. edit_field_bytes (case x of (l, k) \<Rightarrow> Compact_Pointer l k)) xs)" for dst xs
    by (rule foldl_put) (simp add: put_compact_pointer_def PutVarint32_def PutLengthPrefixedSlice_lps split: prod.split)
  have d: "foldl put_deleted_file dst xs = dst @ concat (map (\<lambda>x. edit_field_bytes (case x of (l, n) \<Rightarrow> Deleted_File l n)) xs)" for dst xs
    by (rule foldl_put) (simp add: put_deleted_file_def PutVarint32_def PutVarint64_def split: prod.split)
  have f: "foldl put_new_file dst xs =
      dst @ concat (map (\<lambda>x. edit_field_bytes (case x of (l, f) \<Rightarrow> New_File l (f_number f) (f_file_size f) (f_smallest f) (f_largest f))) xs)" for dst xs
    by (rule foldl_put) (simp add: put_new_file_def Let_def PutVarint32_def PutVarint64_def PutLengthPrefixedSlice_lps split: prod.split)
  show ?thesis
    by (simp add: VersionEdit_EncodeTo_def fields_of_def Let_def c d f PutVarint32_def PutVarint64_def PutLengthPrefixedSlice_lps comp_def)
qed

text \<open>Edits as the setters make them.\<close>

definition edit_ok :: "VersionEdit \<Rightarrow> bool" where
  "edit_ok e \<longleftrightarrow> list_all field_ok (fields_of e) \<and>
     (\<not> has_comparator e \<longrightarrow> ve_comparator e = []) \<and> (\<not> has_log_number e \<longrightarrow> log_number e = 0) \<and>
     (\<not> has_prev_log_number e \<longrightarrow> prev_log_number e = 0) \<and> (\<not> has_next_file_number e \<longrightarrow> next_file_number e = 0) \<and>
     (\<not> has_last_sequence e \<longrightarrow> last_sequence e = 0) \<and> sorted_wrt (<) (deleted_files e) \<and>
     (\<forall>(l, f) \<in> set (new_files e). f_refs f = 0 \<and> allowed_seeks f = 2 ^ 30)"

lemma apply_compact_pointers:
  "foldl apply_field e (map (\<lambda>(l, k). Compact_Pointer l k) ps) = e\<lparr>compact_pointers := compact_pointers e @ ps\<rparr>"
  by (induction ps arbitrary: e) (auto simp: SetCompactPointer_def)

lemma apply_deleted_files:
  "sorted_wrt (<) (deleted_files e @ ps) \<Longrightarrow>
     foldl apply_field e (map (\<lambda>(l, n). Deleted_File l n) ps) = e\<lparr>deleted_files := deleted_files e @ ps\<rparr>"
proof (induction ps arbitrary: e)
  case (Cons p ps)
  obtain l n where p: "p = (l, n)" by fastforce
  have less: "\<forall>q \<in> set (deleted_files e). q < p" using Cons.prems by (auto simp: sorted_wrt_append)
  then have "p \<notin> set (deleted_files e)" by auto
  moreover have "insort p (deleted_files e) = deleted_files e @ [p]"
    using less Cons.prems by (intro sorted_insort_is_snoc) (auto simp: sorted_wrt_append strict_sorted_iff less_imp_le)
  ultimately have "VersionEdit_DeleteFile l n e = e\<lparr>deleted_files := deleted_files e @ [p]\<rparr>"
    by (simp add: VersionEdit_DeleteFile_def insort_insert_key_def p)
  with Cons show ?case by (simp add: p)
qed simp

lemma apply_new_files:
  "\<forall>(l, f) \<in> set ps. f_refs f = 0 \<and> allowed_seeks f = 2 ^ 30 \<Longrightarrow>
     foldl apply_field e (map (\<lambda>(l, f). New_File l (f_number f) (f_file_size f) (f_smallest f) (f_largest f)) ps) =
     e\<lparr>new_files := new_files e @ ps\<rparr>"
proof (induction ps arbitrary: e)
  case (Cons p ps)
  obtain l f where p: "p = (l, f)" by fastforce
  have "new_FileMetaData (f_number f) (f_file_size f) (f_smallest f) (f_largest f) = f"
    using Cons.prems p by (cases f) (simp add: new_FileMetaData_def)
  with Cons p show ?case by (simp add: AddFile_def)
qed simp

lemma apply_fields_of:
  assumes "edit_ok e"
  shows "foldl apply_field (VersionEdit_Clear e0) (fields_of e) = e\<lparr>compact_pointers := compact_pointers e0 @ compact_pointers e\<rparr>"
proof -
  have "sorted_wrt (<) (deleted_files e)" "\<forall>(l, f) \<in> set (new_files e). f_refs f = 0 \<and> allowed_seeks f = 2 ^ 30"
    using assms by (simp_all add: edit_ok_def)
  then show ?thesis
    using assms unfolding fields_of_def foldl_append
    by (cases e) (simp add: apply_compact_pointers apply_deleted_files apply_new_files edit_ok_def VersionEdit_Clear_def SetComparatorName_def
        SetLogNumber_def SetPrevLogNumber_def SetNextFile_def SetLastSequence_def)
qed

lemma DecodeFrom_EncodeTo:
  "edit_ok e \<Longrightarrow> VersionEdit_DecodeFrom e0 (VersionEdit_EncodeTo e []) =
     (OK, e\<lparr>compact_pointers := compact_pointers e0 @ compact_pointers e\<rparr>)"
  using decode_fields [of "fields_of e" "VersionEdit_Clear e0"] apply_fields_of [of e e0]
  by (simp add: VersionEdit_DecodeFrom_def EncodeTo_fields edit_ok_def)

end
