(* ===== verification/Ldb_Filename.thy ===== *)
theory Ldb_Filename
  imports Ldb_Coding Ldb_Status
begin

text \<open>
  \<open>leveldb/util/logging.cc\<close> and \<open>leveldb/db/filename.cc\<close>: printing and parsing of numbers, and the names of the files of a database. Shown
  here: the parser of numbers accepts exactly those that fit into 64 bits, and every name that is made is parsed back to
  its number and type.
\<close>

section \<open>\<open>util/logging.cc\<close>\<close>

definition AppendNumberTo :: "byte list \<Rightarrow> u64 \<Rightarrow> byte list" where
  "AppendNumberTo s num = s @ decimal (unat num)"

definition hex_digit :: "nat \<Rightarrow> byte" where
  "hex_digit n = word_of_nat (if n < 10 then 48 + n else 87 + n)"

text \<open>A \<open>char\<close> is signed: bytes from 128 on are below the space.\<close>

definition AppendEscapedStringTo :: "byte list \<Rightarrow> slice \<Rightarrow> byte list" where
  "AppendEscapedStringTo s value =
     foldl (\<lambda>s c. if 32 \<le> sint c \<and> sint c \<le> 126 then s @ [c] else s @ [92, 120, hex_digit (unat c div 16), hex_digit (unat c mod 16)]) s value"

definition NumberToString :: "u64 \<Rightarrow> byte list" where
  "NumberToString num = AppendNumberTo [] num"

definition EscapeString :: "slice \<Rightarrow> byte list" where
  "EscapeString value = AppendEscapedStringTo [] value"

text \<open>The loop of \<open>ConsumeDecimalNumber\<close>; \<open>None\<close> is the early return on overflow.\<close>

fun consume_digits :: "u64 \<Rightarrow> byte list \<Rightarrow> (u64 \<times> byte list) option" where
  "consume_digits v [] = Some (v, [])"
| "consume_digits v (ch # p) =
     (if ch < 48 \<or> 57 < ch then Some (v, ch # p)
      else if 1844674407370955161 < v \<or> v = 1844674407370955161 \<and> 53 < ch then None
      else consume_digits (v * 10 + ucast (ch - 48)) p)"

text \<open>The result, the number if it is assigned, and the slice.\<close>

definition ConsumeDecimalNumber :: "slice \<Rightarrow> bool \<times> u64 option \<times> slice" where
  "ConsumeDecimalNumber input =
     (case consume_digits 0 input of
        None \<Rightarrow> (False, None, input)
      | Some (v, rest) \<Rightarrow> (length input - length rest \<noteq> 0, Some v, rest))"

section \<open>\<open>db/filename.cc\<close>\<close>

datatype FileType = kLogFile | kDBLockFile | kTableFile | kDescriptorFile | kCurrentFile | kTempFile | kInfoLogFile

text \<open>\<open>%06llu\<close>\<close>

definition padded6 :: "u64 \<Rightarrow> byte list" where
  "padded6 number = replicate (6 - length (decimal (unat number))) 48 @ decimal (unat number)"

definition MakeFileName :: "byte list \<Rightarrow> u64 \<Rightarrow> string \<Rightarrow> byte list" where
  "MakeFileName dbname number suffix = dbname @ str ''/'' @ padded6 number @ str ''.'' @ str suffix"

definition LogFileName :: "byte list \<Rightarrow> u64 \<Rightarrow> byte list" where
  "LogFileName dbname number = MakeFileName dbname number ''log''"

definition TableFileName :: "byte list \<Rightarrow> u64 \<Rightarrow> byte list" where
  "TableFileName dbname number = MakeFileName dbname number ''ldb''"

definition SSTTableFileName :: "byte list \<Rightarrow> u64 \<Rightarrow> byte list" where
  "SSTTableFileName dbname number = MakeFileName dbname number ''sst''"

definition DescriptorFileName :: "byte list \<Rightarrow> u64 \<Rightarrow> byte list" where
  "DescriptorFileName dbname number = dbname @ str ''/MANIFEST-'' @ padded6 number"

definition CurrentFileName :: "byte list \<Rightarrow> byte list" where
  "CurrentFileName dbname = dbname @ str ''/CURRENT''"

definition LockFileName :: "byte list \<Rightarrow> byte list" where
  "LockFileName dbname = dbname @ str ''/LOCK''"

definition TempFileName :: "byte list \<Rightarrow> u64 \<Rightarrow> byte list" where
  "TempFileName dbname number = MakeFileName dbname number ''dbtmp''"

definition InfoLogFileName :: "byte list \<Rightarrow> byte list" where
  "InfoLogFileName dbname = dbname @ str ''/LOG''"

definition OldInfoLogFileName :: "byte list \<Rightarrow> byte list" where
  "OldInfoLogFileName dbname = dbname @ str ''/LOG.old''"

definition ParseFileName :: "byte list \<Rightarrow> (u64 \<times> FileType) option" where
  "ParseFileName filename =
     (let rest = filename in
      if rest = str ''CURRENT'' then Some (0, kCurrentFile)
      else if rest = str ''LOCK'' then Some (0, kDBLockFile)
      else if rest = str ''LOG'' \<or> rest = str ''LOG.old'' then Some (0, kInfoLogFile)
      else if starts_with rest (str ''MANIFEST-'') then
        (case ConsumeDecimalNumber (remove_prefix 9 rest) of
           (True, Some num, rest) \<Rightarrow> if rest \<noteq> [] then None else Some (num, kDescriptorFile)
         | _ \<Rightarrow> None)
      else
        (case ConsumeDecimalNumber rest of
           (True, Some num, suffix) \<Rightarrow>
             if suffix = str ''.log'' then Some (num, kLogFile)
             else if suffix = str ''.sst'' \<or> suffix = str ''.ldb'' then Some (num, kTableFile)
             else if suffix = str ''.dbtmp'' then Some (num, kTempFile)
             else None
         | _ \<Rightarrow> None))"

section \<open>Numbers\<close>

definition is_digit :: "byte \<Rightarrow> bool" where
  "is_digit ch \<longleftrightarrow> 48 \<le> ch \<and> ch \<le> 57"

definition digits_value :: "nat \<Rightarrow> byte list \<Rightarrow> nat" where
  "digits_value n ds = foldl (\<lambda>n d. n * 10 + (unat d - 48)) n ds"

lemma digits_value_simps [simp]: "digits_value n [] = n" "digits_value n (d # ds) = digits_value (n * 10 + (unat d - 48)) ds"
  by (simp_all add: digits_value_def)

lemma digits_value_ge: "n \<le> digits_value n ds"
proof (induction ds arbitrary: n)
  case (Cons d ds)
  from Cons [of "n * 10 + (unat d - 48)"] show ?case by simp
qed simp

lemma digits_value_append: "digits_value n (xs @ ys) = digits_value (digits_value n xs) ys"
  by (simp add: digits_value_def)

lemma overflow_check:
  fixes v :: u64
  assumes "is_digit ch"
  shows "1844674407370955161 < v \<or> v = 1844674407370955161 \<and> 53 < ch \<longleftrightarrow> 2 ^ 64 \<le> unat v * 10 + (unat ch - 48)"
    "unat v * 10 + (unat ch - 48) < 2 ^ 64 \<Longrightarrow> unat (v * 10 + ucast (ch - 48)) = unat v * 10 + (unat ch - 48)"
proof -
  have ch: "48 \<le> unat ch" "unat ch \<le> 57" using assms by (simp_all add: is_digit_def word_le_nat_alt)
  have v: "v = 1844674407370955161 \<longleftrightarrow> unat v = 1844674407370955161" by (simp add: word_unat_eq_iff)
  show "1844674407370955161 < v \<or> v = 1844674407370955161 \<and> 53 < ch \<longleftrightarrow> 2 ^ 64 \<le> unat v * 10 + (unat ch - 48)"
    unfolding v using ch by (simp add: word_less_nat_alt) linarith
  assume fits: "unat v * 10 + (unat ch - 48) < 2 ^ 64"
  have d: "unat (ucast (ch - 48) :: u64) = unat ch - 48"
    using ch by (simp add: unat_sub word_le_nat_alt unsigned_ucast_eq take_bit_nat_eq_self)
  have m: "unat (v * 10) = unat v * 10" using fits by (simp add: unat_word_ariths(2))
  show "unat (v * 10 + ucast (ch - 48)) = unat v * 10 + (unat ch - 48)"
    using fits by (simp add: unat_word_ariths(1) m d)
qed

lemma consume_digits_spec:
  "list_all is_digit ds \<Longrightarrow> rest = [] \<or> \<not> is_digit (hd rest) \<Longrightarrow>
     consume_digits v (ds @ rest) =
       (if digits_value (unat v) ds < 2 ^ 64 then Some (word_of_nat (digits_value (unat v) ds), rest) else None)"
proof (induction ds arbitrary: v)
  case Nil
  then show ?case using unsigned_less [of v, where 'a = nat] by (cases rest) (auto simp: is_digit_def not_le)
next
  case (Cons d ds)
  then have d: "is_digit d" "\<not> (d < 48 \<or> 57 < d)" by (simp_all add: is_digit_def not_less)
  show ?case
  proof (cases "2 ^ 64 \<le> unat v * 10 + (unat d - 48)")
    case True
    then have "\<not> digits_value (unat v * 10 + (unat d - 48)) ds < 2 ^ 64"
      using digits_value_ge [of "unat v * 10 + (unat d - 48)" ds] by linarith
    with True d overflow_check(1) [OF d(1), of v] show ?thesis by simp
  next
    case False
    then have fits: "\<not> (1844674407370955161 < v \<or> v = 1844674407370955161 \<and> 53 < d)" using overflow_check(1) [OF d(1), of v] by blast
    have "unat (v * 10 + ucast (d - 48)) = unat v * 10 + (unat d - 48)" using overflow_check(2) [OF d(1)] False by simp
    with Cons.IH [of "v * 10 + ucast (d - 48)"] Cons.prems show ?thesis
      by (simp only: append_Cons consume_digits.simps(2) d(2) fits if_False digits_value_simps list.pred_inject(2))
  qed
qed

lemma decimal_digits: "list_all is_digit (decimal n)" "digits_value 0 (decimal n) = n"
proof -
  define dg :: "nat \<Rightarrow> byte" where "dg m = word_of_nat (48 + m mod 10)" for m
  have u: "unat (dg m) = 48 + m mod 10" for m
  proof -
    have "48 + m mod 10 < 256" using mod_less_divisor [of 10 m] by linarith
    moreover have "unat (word_of_nat k :: byte) = k" if "k < 256" for k using that by (simp add: unsigned_of_nat take_bit_nat_eq_self)
    ultimately show ?thesis unfolding dg_def by blast
  qed
  have d: "is_digit (dg m)" for m unfolding is_digit_def word_le_nat_alt u using mod_less_divisor [of 10 m] by simp
  have step: "decimal m = (if m < 10 then [] else decimal (m div 10)) @ [dg m]" for m unfolding dg_def by (rule decimal.simps)
  show "list_all is_digit (decimal n)"
    by (induction n rule: decimal.induct) (subst step, simp add: d)
  show "digits_value 0 (decimal n) = n"
    by (induction n rule: decimal.induct) (subst step, simp add: u digits_value_append)
qed

lemma padded_digits: "list_all is_digit (padded6 n)" "digits_value 0 (padded6 n) = unat n" "padded6 n \<noteq> []"
proof -
  have z: "list_all is_digit (replicate k 48)" "digits_value 0 (replicate k 48) = 0" for k
    by (induction k) (simp_all add: is_digit_def)
  show "list_all is_digit (padded6 n)" "digits_value 0 (padded6 n) = unat n" "padded6 n \<noteq> []"
    using decimal_digits [of "unat n"] by (simp_all add: padded6_def z digits_value_append)
qed

text \<open>The parser accepts a numeral exactly if its value fits.\<close>

lemma ConsumeDecimalNumber_spec:
  assumes "list_all is_digit ds" and "rest = [] \<or> \<not> is_digit (hd rest)"
  shows "ConsumeDecimalNumber (ds @ rest) =
    (if digits_value 0 ds < 2 ^ 64 then (ds \<noteq> [], Some (word_of_nat (digits_value 0 ds)), rest) else (False, None, ds @ rest))"
  using consume_digits_spec [OF assms, of 0] by (simp add: ConsumeDecimalNumber_def)

lemma ConsumeDecimalNumber_padded:
  assumes "rest = [] \<or> \<not> is_digit (hd rest)"
  shows "ConsumeDecimalNumber (padded6 n @ rest) = (True, Some n, rest)"
  using ConsumeDecimalNumber_spec [OF padded_digits(1) [of n] assms] padded_digits(2,3) [of n] unsigned_less [of n, where 'a = nat] by simp

section \<open>File names\<close>

text \<open>A name that starts with a digit is none of the fixed names.\<close>

lemma Parse_numbered:
  assumes "rest = [] \<or> \<not> is_digit (hd rest)"
  shows "ParseFileName (padded6 n @ rest) =
    (if rest = str ''.log'' then Some (n, kLogFile)
     else if rest = str ''.sst'' \<or> rest = str ''.ldb'' then Some (n, kTableFile)
     else if rest = str ''.dbtmp'' then Some (n, kTempFile) else None)"
proof -
  have "is_digit (hd (padded6 n))" using padded_digits(1,3) [of n] by (cases "padded6 n") simp_all
  then have first: "is_digit (hd (padded6 n @ rest))" using padded_digits(3) [of n] by simp
  have ne: "padded6 n @ rest \<noteq> str s" if "\<not> is_digit (of_char (hd s))" "s \<noteq> []" for s
    using first that by (metis hd_map)
  have "\<not> starts_with (padded6 n @ rest) (str ''MANIFEST-'')"
    using first by (cases "padded6 n @ rest") (auto simp: starts_with_def is_digit_def)
  moreover have "padded6 n @ rest \<noteq> str ''CURRENT''" "padded6 n @ rest \<noteq> str ''LOCK''" "padded6 n @ rest \<noteq> str ''LOG''"
    "padded6 n @ rest \<noteq> str ''LOG.old''" by (rule ne; simp add: is_digit_def)+
  ultimately show ?thesis using ConsumeDecimalNumber_padded [OF assms, of n] by (simp add: ParseFileName_def)
qed

lemma Parse_descriptor: "ParseFileName (str ''MANIFEST-'' @ padded6 n) = Some (n, kDescriptorFile)"
  using ConsumeDecimalNumber_padded [of "[]" n] by (simp add: ParseFileName_def starts_with_def remove_prefix_def)

end
