(* ===== verification/Spec2Isabelle.thy ===== *)
theory Spec2Isabelle
  imports Pb_Wire Pb_Required Cct_Messages Firebasecore_Messages Fbase64 Ldb_Log_Proofs Ldb_Memtable Ldb_Db_Iter_Proofs Ldb_Version_Edit Ldb_Filename
begin

unbundle bit_operations_syntax

text \<open>
  The repository is an iOS application for signing in with Firebase. Its own Swift code is user interface; its logic in C
  and C++ comes with the pods under \<open>FirebaseLogin/Pods\<close>, and that is what is modelled here:

  \<^item> nanopb (\<open>Pods/nanopb/pb.h\<close>, \<open>pb_common.c\<close>, \<open>pb_encode.c\<close>, \<open>pb_decode.c\<close>), the protocol buffer codec with which
    GoogleDataTransport and FirebaseCoreDiagnostics talk to their servers;
  \<^item> the generated messages of these two pods (\<open>cct.nanopb.c/h\<close>, \<open>firebasecore.nanopb.c/h\<close>);
  \<^item> the base 64 routines of the WebSocket handshake of FirebaseDatabase (\<open>SocketRocket/fbase64.c\<close>);
  \<^item> leveldb (\<open>Pods/leveldb-library\<close>), the storage engine in which FirebaseDatabase keeps its data.

  \<^bold>\<open>How the parts interact.\<close> A client of nanopb fills a C struct and calls \<open>pb_encode\<close> with the descriptor array of the
  message; the encoder walks the array with the iterator of \<open>pb_common.c\<close> and writes to a stream; the decoder does the reverse.
  A write to leveldb is collected in a \<open>WriteBatch\<close>, whose bytes are appended to the log as one record (\<open>log::Writer\<close> over
  \<open>PosixWritableFile\<close>, with checksums from \<open>crc32c\<close>) and then replayed into the \<open>MemTable\<close>, a skip list of internal keys; a
  read builds a \<open>LookupKey\<close> and asks the table; after a crash \<open>log::Reader\<close> returns the records for another replay. Data leaves
  memory as sorted tables: \<open>TableBuilder\<close> writes blocks, filters and an index to a file; \<open>Table\<close> reads blocks back through the
  \<open>ShardedLRUCache\<close> and offers an iterator; a merging iterator combines the iterators of several sources, and \<open>DBIter\<close> shows a client the
  snapshot at a sequence number. Which tables there are is recorded as a log
  of version edits, and every file is known by a number in its name.

  \<^bold>\<open>Theories.\<close>
  \<^descr> \<open>Prelude\<close>: types for bytes and machine words, facts on lists and words; collections of rewrite rules.
  \<^descr> \<open>C_Memory\<close>: a byte-addressed memory with little-endian loads and stores, which nanopb reads and writes through pointers.
  \<^descr> \<open>Varint\<close>: base-128 numbers as lists of bytes, the reference for both varint codecs.
  \<^descr> \<open>Pb_Types\<close>, \<open>Pb_Layout\<close>: \<open>pb.h\<close>, the type byte, descriptors and the macros that produce them, extensions.
  \<^descr> \<open>Pb_Common\<close>: \<open>pb_common.c\<close>, the field iterator, and what a walk visits and a search finds.
  \<^descr> \<open>Pb_Streams\<close>, \<open>Pb_Ostream\<close>, \<open>Pb_Istream\<close>: streams over buffers and client callbacks, primitive encoders and decoders. The
    locale of a codec relates an encoder and a decoder; the scalar types are its interpretations.
  \<^descr> \<open>Pb_Encode\<close>, \<open>Pb_Plain\<close>, \<open>Pb_Wire\<close>: \<open>pb_encode.c\<close>; descriptors without callbacks; the wire format as a function from
    memory and descriptors to bytes, and that the encoder implements it.
  \<^descr> \<open>Pb_Heap\<close>, \<open>Pb_Decode\<close>: \<open>pb_decode.c\<close> with pointer fields on a heap. \<open>Pb_Progress\<close> and \<open>Pb_Total\<close> show that the decoder
    returns, \<open>Pb_Required\<close> which required fields it has seen.
  \<^descr> \<open>Cct_Messages\<close>, \<open>Firebasecore_Messages\<close>: the generated structs, enumerations and descriptor arrays.
  \<^descr> \<open>Fbase64\<close>: \<open>f_b64_ntop\<close> and \<open>f_b64_pton\<close> with their targets and return codes.
  \<^descr> \<open>Ldb_Coding\<close>, \<open>Ldb_Crc32c\<close>, \<open>Ldb_Status\<close>: \<open>util/coding.cc\<close>, \<open>util/crc32c.cc\<close>, \<open>util/status.cc\<close>.
  \<^descr> \<open>Ldb_Env\<close>: \<open>PosixSequentialFile\<close> and \<open>PosixWritableFile\<close> of \<open>util/env_posix.cc\<close>. The file interfaces are locales; the
    Posix classes are their interpretations.
  \<^descr> \<open>Ldb_Log\<close>, \<open>Ldb_Log_Proofs\<close>: \<open>db/log_writer.cc\<close> and \<open>db/log_reader.cc\<close>, proved over the file interfaces.
  \<^descr> \<open>Ldb_Bloom\<close>, \<open>Ldb_Dbformat\<close>: \<open>util/hash.cc\<close>, \<open>util/bloom.cc\<close>; \<open>util/comparator.cc\<close>, \<open>db/dbformat.cc\<close>, with the interfaces of
    a filter policy and of a comparator.
  \<^descr> \<open>Ldb_Write_Batch\<close>, \<open>Ldb_Skiplist\<close>, \<open>Ldb_Skiplist_Proofs\<close>, \<open>Ldb_Memtable\<close>: \<open>db/write_batch.cc\<close>; \<open>util/random.h\<close> and
    \<open>db/skiplist.h\<close>; \<open>db/memtable.cc\<close>.
  \<^descr> \<open>Ldb_Iterator\<close>: the interface of iterators. Its contract is the locale \<open>iterator_over\<close>, whose lemmas say what reading forward, backward and
    from a key returns; blocks, two-level, merging and table iterators are its interpretations.
  \<^descr> \<open>Ldb_Block\<close>, \<open>Ldb_Block_Proofs\<close>, \<open>Ldb_Filter_Block\<close>, \<open>Ldb_Two_Level\<close>, \<open>Ldb_Merger\<close>: \<open>table/block_builder.cc\<close> and \<open>table/block.cc\<close>,
    \<open>table/filter_block.cc\<close>, \<open>table/two_level_iterator.cc\<close>, \<open>table/merger.cc\<close>.
  \<^descr> \<open>Ldb_Random_Access\<close>, \<open>Ldb_Format\<close>: \<open>PosixRandomAccessFile\<close> and \<open>PosixMmapReadableFile\<close>; \<open>table/format.cc\<close>.
  \<^descr> \<open>Ldb_Table_Builder\<close>, \<open>Ldb_Table_Layout\<close>, \<open>Ldb_Table\<close>, \<open>Ldb_Table_Proofs\<close>: \<open>table/table_builder.cc\<close>, what it writes,
    \<open>table/table.cc\<close>, and that it reads what was written, over the interfaces of files, comparators, filter policies and block caches.
  \<^descr> \<open>Ldb_Cache\<close>, \<open>Ldb_Cache_Proofs\<close>: \<open>util/cache.cc\<close> with its invariant and the reachable states as a step relation.
  \<^descr> \<open>Ldb_Table_Cache\<close>, \<open>Ldb_Table_Merge\<close>: tables on the Posix files and the sharded cache; merging blocks of internal keys.
  \<^descr> \<open>Ldb_Db_Iter\<close>, \<open>Ldb_Db_Iter_Proofs\<close>: \<open>db/db_iter.cc\<close>, over any source that meets the contract of iterators, with merged blocks and tables as
    instances.
  \<^descr> \<open>Ldb_Version_Edit\<close>, \<open>Ldb_Filename\<close>: \<open>db/version_edit.cc\<close>; \<open>db/filename.cc\<close> and \<open>util/logging.cc\<close>.

  \<^bold>\<open>Modelling.\<close> Integers keep their width as words where they can wrap; sizes and addresses that the code only compares and
  adds within an allocation are natural numbers. nanopb works on an explicit memory, because its structs alias the bytes its
  descriptors point to; a leveldb slice is the list of its bytes, and a pointer into an entry the list of the bytes from there on. Errors are values: a
  stream with its error message, a \<^typ>\<open>status\<close>, an option. Client callbacks, the allocator and the fields of descriptors are
  parameters or data. The operating system is the state of a file descriptor with a list of outcomes for the coming calls: an
  error, an interrupt, or a bound on the bytes transferred; it is arbitrary in the theorems. User comparators are parameters of
  the definitions; the theorems are about the bytewise one that leveldb uses by default. Snappy is a parameter, with the law that
  decompression inverts compression. The circular lists and chains of the cache are lists of handles on a heap.

  \<^bold>\<open>Partiality.\<close> The mutual recursion of the nanopb encoder and decoder runs on fuel, one unit for each nesting of
  messages: more than the depth of the descriptor tree is always enough for the encoder, and for the decoder a bound is computed from
  descriptors and input. Loops over pointers (skip list) and loops that end only on finite files (log reader) are partial
  functions with values in option, as are the operations of iterators; each is shown to return (for the read samples of \<open>DBIter\<close> because two
  draws in a row cannot both be zero). All other loops are total with a measure.

  \<^bold>\<open>What the theorems below show.\<close> The encoder writes the wire format and stays in its buffer, sizing is exact; the
  decoder ends and succeeds only with all required fields; primitive codecs are inverse to each other and bounded; the
  iterator visits all fields, and the generated descriptors fit their structs; base 64 is correct and stays in its target. For leveldb:
  a batch that is replayed into the memory table is read back, lookups see the newest visible entry, the skip list implements a sorted sequence,
  internal keys are totally ordered, a batch represents the list of its operations, filters have no false
  negatives, a sorted table reads back what was written to it through any filter and cache, merging keeps the order, the iterator of a
  database shows exactly the snapshot, the cache keeps its
  invariant and the values that clients hold, version edits and file names read back, the log returns the records written to it and its reader always ends, files store what is appended, and the checksum is CRC-32C and
  detects differences within four bytes.

  \<^bold>\<open>Not modelled.\<close> The Swift application and the Objective-C pods, which are glue over platform frameworks. In leveldb: threads, mutexes,
  compaction and sets of versions (\<open>db/db_impl.cc\<close>, \<open>db/version_set.cc\<close>, \<open>db/repair.cc\<close>), whose state is shared by threads and whose work is done by the
  file system; the C interface, statistics and the arena; and the calls of \<open>PosixEnv\<close> that only wrap the operating system. The memory order of the atomic
  links of the skip list: the model is what one thread sees. A cached block is released when it has been read and not when its iterator is deleted.
\<close>

section \<open>The message encoder\<close>

text \<open>A \<open>gdt_cct_LogResponse\<close> at address 64, with \<open>next_request_wait_millis = 300\<close> and
  \<open>qos_tier.qos_tier_fingerprint = 7\<close>.\<close>

definition example_response :: cmem where
  "example_response =
     store_uint 8 (store_bool (store_bool (store_uint 8 (store_bool zero_mem 64 True) 72 300) 80 True) 104 True) 112 7"

lemma example_response_bytes:
  "message_bytes example_response gdt_cct_LogResponse_fields 64 =
     Some [0x08, 0xAC, 0x02, 0x1A, 0x02, 0x10, 0x07]"
  by code_simp

lemma LogResponse_plain: "list_all plain_field gdt_cct_LogResponse_fields"
  by code_simp

lemma LogResponse_depth: "depth_fields gdt_cct_LogResponse_fields = 3"
  by code_simp

lemma LogResponse_depth_less: "depth_fields gdt_cct_LogResponse_fields < 5"
  by (simp add: LogResponse_depth)

text \<open>C1: refinement. For every descriptor array without callbacks and extensions and every message
  struct in memory, the encoder with its sizing passes and substreams stores in the stream exactly
  the bytes that the wire format specifies, provided they fit.\<close>

theorem pb_encode_writes_wire_format:
  assumes "list_all plain_field fs" and "depth_fields fs < n"
    and "message_bytes m fs src = Some bs" and "length bs < 2 ^ 62"
    and "obuf_ok s" and "bytes_written s + length bs \<le> max_size s"
  shows "pb_encode e m n fs src s = Some (True, put bs s)"
  using encodes_message [OF assms(1,2), of e m src] assms(3-6) by (simp add: encodes_def emits_room)

theorem pb_encode_writes_wire_format_witness:
  "pb_encode (plain_env 0 0) example_response 5 gdt_cct_LogResponse_fields 64 (pb_ostream_from_buffer 7) =
     Some (True, put [0x08, 0xAC, 0x02, 0x1A, 0x02, 0x10, 0x07] (pb_ostream_from_buffer 7))"
  by (rule pb_encode_writes_wire_format [OF LogResponse_plain LogResponse_depth_less example_response_bytes])
    (simp_all add: obuf_ok_def pb_ostream_from_buffer_def)

text \<open>C2: memory safety of encoding into a buffer of any size. The encoder comes back; it succeeds
  exactly if the whole message fits; it never stores more bytes than the buffer has; what it stores
  is a prefix of the message, and a failure is reported as ``stream full''.\<close>

theorem pb_encode_stays_in_buffer:
  assumes "list_all plain_field fs" and "depth_fields fs < n"
    and "message_bytes m fs src = Some bs" and "length bs < 2 ^ 62" and "bufsize < 2 ^ 63"
  shows "\<exists>ok s. pb_encode e m n fs src (pb_ostream_from_buffer bufsize) = Some (ok, s) \<and>
     (ok \<longleftrightarrow> length bs \<le> bufsize) \<and> length (ostate s) \<le> bufsize \<and>
     ostate s = take (length (ostate s)) bs \<and> bytes_written s = length (ostate s) \<and>
     oerrmsg s = (if ok then None else Some ''stream full'')"
  using encodes_message [OF assms(1,2), of e m src] assms(3-5)
  by (intro emits_from_buffer) (simp_all add: encodes_def)

theorem pb_encode_stays_in_buffer_witness:
  "\<exists>ok s. pb_encode (plain_env 0 0) example_response 5 gdt_cct_LogResponse_fields 64 (pb_ostream_from_buffer 4) = Some (ok, s) \<and>
     (ok \<longleftrightarrow> length [0x08, 0xAC, 0x02, 0x1A, 0x02, 0x10, 0x07 :: byte] \<le> 4) \<and> length (ostate s) \<le> 4 \<and>
     ostate s = take (length (ostate s)) [0x08, 0xAC, 0x02, 0x1A, 0x02, 0x10, 0x07] \<and>
     bytes_written s = length (ostate s) \<and>
     oerrmsg s = (if ok then None else Some ''stream full'')"
  by (rule pb_encode_stays_in_buffer [OF LogResponse_plain LogResponse_depth_less example_response_bytes]) simp_all

text \<open>C3: the sizing pass. \<open>pb_get_encoded_size\<close> returns the number of bytes of the message.\<close>

theorem pb_get_encoded_size_exact:
  assumes "list_all plain_field fs" and "depth_fields fs < n"
    and "message_bytes m fs src = Some bs" and "length bs < 2 ^ 62"
  shows "pb_get_encoded_size e m n fs src = Some (Some (length bs))"
  using encodes_message [OF assms(1,2), of e m src] assms(3,4)
  by (simp add: encodes_def emits_sizing pb_get_encoded_size_def)

theorem pb_get_encoded_size_exact_witness:
  "pb_get_encoded_size (plain_env 0 0) example_response 5 gdt_cct_LogResponse_fields 64 = Some (Some 7)"
  using pb_get_encoded_size_exact [OF LogResponse_plain LogResponse_depth_less example_response_bytes] by simp

text \<open>C4: encoding with a length prefix. \<open>pb_encode_delimited\<close> sizes the message, writes the size as a
  varint and then the message into a substream of exactly that size; whatever the size of the buffer,
  nothing is stored outside it and the outcome says whether prefix and message fitted.\<close>

theorem pb_encode_delimited_writes_length_and_message:
  assumes "list_all plain_field fs" and "depth_fields fs < n"
    and "message_bytes m fs src = Some bs" and "length bs < 2 ^ 62" and "bufsize < 2 ^ 63"
  shows "\<exists>ok s. pb_encode_delimited e m n fs src (pb_ostream_from_buffer bufsize) = Some (ok, s) \<and>
     (ok \<longleftrightarrow> length (delimited bs) \<le> bufsize) \<and> length (ostate s) \<le> bufsize \<and>
     ostate s = take (length (ostate s)) (delimited bs) \<and> bytes_written s = length (ostate s) \<and>
     oerrmsg s = (if ok then None else Some ''stream full'')"
proof -
  have "emits (pb_encode e m n fs src) bs"
    using encodes_message [OF assms(1,2), of e m src] assms(3,4) by (simp add: encodes_def)
  with assms(4) have "emits (pb_encode_delimited e m n fs src) (delimited bs)"
    unfolding pb_encode_delimited_def by (intro emits_submessage)
  from emits_from_buffer [OF this assms(5)] show ?thesis .
qed

theorem pb_encode_delimited_writes_length_and_message_witness:
  "\<exists>ok s. pb_encode_delimited (plain_env 0 0) example_response 5 gdt_cct_LogResponse_fields 64 (pb_ostream_from_buffer 8) = Some (ok, s) \<and>
     (ok \<longleftrightarrow> length (delimited [0x08, 0xAC, 0x02, 0x1A, 0x02, 0x10, 0x07]) \<le> 8) \<and> length (ostate s) \<le> 8 \<and>
     ostate s = take (length (ostate s)) (delimited [0x08, 0xAC, 0x02, 0x1A, 0x02, 0x10, 0x07]) \<and>
     bytes_written s = length (ostate s) \<and>
     oerrmsg s = (if ok then None else Some ''stream full'')"
  by (rule pb_encode_delimited_writes_length_and_message [OF LogResponse_plain LogResponse_depth_less example_response_bytes]) simp_all

section \<open>The message decoder\<close>

text \<open>C5: termination. On every input, with every stream callback, allocator and initial memory, the
  decoder of a descriptor array without client callbacks and extensions comes back, and it never gives
  bytes back to the stream. The fuel is the number of bytes left plus twice the nesting depth.\<close>

theorem pb_decode_returns:
  assumes "list_all plain_field fs" and "bytes_left s + 2 * max 1 (depth_fields fs) + 2 < n"
  shows "\<exists>ok m' s'. pb_decode e n fs dst m s = Some (ok, m', s') \<and> bytes_left s' \<le> bytes_left s"
  using decode_total [OF assms, of e dst m] by (auto simp: stays_def)

theorem pb_decode_returns_witness:
  "\<exists>ok m' s'. pb_decode (plain_env 4096 8192) 20 gdt_cct_LogResponse_fields 64 zero_mem
     (pb_istream_from_buffer [0x08, 0xAC, 0x02, 0x1A, 0x02, 0x10, 0x07] 7) = Some (ok, m', s') \<and> bytes_left s' \<le> 7"
  using pb_decode_returns [OF LogResponse_plain, of "pb_istream_from_buffer [0x08, 0xAC, 0x02, 0x1A, 0x02, 0x10, 0x07] 7" 20
    "plain_env 4096 8192" 64 zero_mem]
  by (simp add: LogResponse_depth pb_istream_from_buffer_def)


definition required_example :: "pb_field list" where
  "required_example = [PbField 1 0x01 0 0 4 0 Null, PB_LAST_FIELD]"

lemma required_example_ok:
  "terminated required_example" "list_all plain_field required_example" "distinct (map tag required_example)"
  "0 < nfields required_example" "length (filter required (butlast required_example)) \<le> PB_MAX_REQUIRED_FIELDS"
  by code_simp+


text \<open>C7: required fields, exactness. Whatever the rounds of the main loop have done, the final test accepts exactly if the last
  fixed-count array is complete and every required field has been among the tags read; the two words of \<open>fields_seen\<close> and
  the index arithmetic implement that set test for up to 64 required fields.\<close>

theorem required_fields_tested_exactly:
  assumes "terminated fs" and "list_all plain_field fs" and "distinct (map tag fs)" and "0 < nfields fs"
    and "length (filter required (butlast fs)) \<le> PB_MAX_REQUIRED_FIELDS"
    and "dec_run e n rec (noinit_start fs dst m s) ts st"
  shows "fst (noinit_finish st) \<longleftrightarrow> \<not> fixed_count_short fs (d_fixed st) (fst (d_vars st)) \<and>
     (\<forall>f \<in> set (butlast fs). required f \<longrightarrow> tag f \<in> set ts)"
  using noinit_finish_iff [OF assms(1) _ assms(5)] seen_inv_run [OF assms(1-3,6) seen_inv_start [OF assms(1,4)]] by simp

theorem required_fields_tested_exactly_witness:
  "\<not> fst (noinit_finish (noinit_start required_example 64 zero_mem (pb_istream_from_buffer [] 0)))"
  using required_fields_tested_exactly [OF required_example_ok dec_run.stop]
  by (simp add: required_example_def PB_TYPE_defs)

section \<open>The storage engine: memory table\<close>

text \<open>C8: a batch is read back. Whatever sequence of puts and deletes a write batch is made of, replaying its bytes into an
  empty memory table succeeds, and a lookup of any key at any snapshot from the last sequence number on returns what the
  last operation on that key says: its value, a deletion, or nothing.\<close>

theorem memtable_reads_back_batch:
  assumes "list_all op_small ops" and "length ops < 2 ^ 31" and "unat s + length ops < 2 ^ 56"
    and "length u + 8 < 2 ^ 32" and "unat t < 2 ^ 56" and "unat s + length ops \<le> unat t + 1"
  shows "\<exists>m. InsertInto Compare (batch_of s ops) new_MemTable = (OK, Some m) \<and>
    MemTable_Get Compare m (new_LookupKey u t) val st =
      Some (case foldl run_op (\<lambda>_. None) ops u of None \<Rightarrow> (False, val, st) | Some x \<Rightarrow> last_result x val st)"
  using batch_read_back [OF assms, of val st] by metis

theorem memtable_reads_back_batch_witness:
  "\<exists>m. InsertInto Compare (batch_of 5 [BPut [1] [2], BPut [3] [4], BDelete [1], BPut [3] [6]]) new_MemTable = (OK, Some m) \<and>
    MemTable_Get Compare m (new_LookupKey [3] 8) [] OK = Some (True, [6], OK)"
  using memtable_reads_back_batch [of "[BPut [1] [2], BPut [3] [4], BDelete [1], BPut [3] [6]]" 5 "[3]" 8 "[]" OK]
  by (simp add: last_result_def)

text \<open>C9: snapshots. In a memory table with any entries, a lookup at a sequence number returns the entry of the key
  with the greatest sequence number not above it, a deletion as ``not found'', and fails exactly if there is none.\<close>

theorem memtable_get_newest_visible:
  assumes "mem_holds m E" and "length u + 8 < 2 ^ 32" and "unat s < 2 ^ 56"
  shows "(\<exists>e. newest E u s e \<and> MemTable_Get Compare m (new_LookupKey u s) val st = Some (get_result e val st)) \<or>
    (\<forall>e \<in> E. mkey e = u \<longrightarrow> \<not> mseq e \<le> s) \<and> MemTable_Get Compare m (new_LookupKey u s) val st = Some (False, val, st)"
  using assms by (rule Get_correct)

theorem memtable_get_newest_visible_witness:
  "MemTable_Get Compare new_MemTable (new_LookupKey [1] 5) [7] OK = Some (False, [7], OK)"
  using memtable_get_newest_visible [OF mem_holds_new, of "[1]" 5 "[7]" OK] by (simp add: newest_def)

text \<open>C10: the skip list implements a sorted sequence. Inserting a key that compares equal to none of the list returns, whatever
  height the random numbers give the new node, and the list then holds the old keys with the new one at its place,
  with all links of all levels in order.\<close>

theorem skiplist_insert_refines:
  assumes "holds_keys (KeyComparator Compare) sl ks" and "\<forall>k \<in> set ks. mvalid k" and "mvalid key"
    and "\<forall>k \<in> set ks. KeyComparator Compare k key \<noteq> 0"
  shows "\<exists>sl'. Insert (KeyComparator Compare) sl key = Some sl' \<and>
    holds_keys (KeyComparator Compare) sl' (insert_sorted (KeyComparator Compare) key ks)"
  using mem_order.Insert_correct [OF assms] by metis

theorem skiplist_insert_refines_witness:
  "\<exists>sl'. Insert (KeyComparator Compare) (new_SkipList []) (bytes_of \<lparr>mkey = [1], mseq = 2, mtype = kTypeValue, mval = [3]\<rparr>) =
     Some sl' \<and> holds_keys (KeyComparator Compare) sl' [bytes_of \<lparr>mkey = [1], mseq = 2, mtype = kTypeValue, mval = [3]\<rparr>]"
proof -
  have "mvalid (bytes_of \<lparr>mkey = [1], mseq = 2, mtype = kTypeValue, mval = [3]\<rparr>)"
    by (rule mvalid_bytes) (simp add: entry_ok_def)
  from skiplist_insert_refines [OF holds_keys_new _ this, of "[]"] show ?thesis by (simp add: insert_sorted_def)
qed

text \<open>Searches. Seeking a key returns and stops at the first key that is not before it, and \<open>Contains\<close> says whether an
  equal key is in the list.\<close>

theorem skiplist_search_correct:
  assumes "holds_keys (KeyComparator Compare) sl ks" and "\<forall>k \<in> set ks. mvalid k" and "mvalid key"
  shows "map_option (map_option (key_of sl)) (Iterator_Seek (KeyComparator Compare) sl key) =
      Some (case dropWhile (\<lambda>k. KeyComparator Compare k key < 0) ks of [] \<Rightarrow> None | k # _ \<Rightarrow> Some k) \<and>
    Contains (KeyComparator Compare) sl key = Some (\<exists>k \<in> set ks. KeyComparator Compare key k = 0)"
  using mem_order.Seek_correct [OF assms] mem_order.Contains_correct [OF assms] by (rule conjI)

theorem skiplist_search_correct_witness:
  "Contains (KeyComparator Compare) (new_SkipList []) (bytes_of \<lparr>mkey = [1], mseq = 2, mtype = kTypeValue, mval = [3]\<rparr>) = Some False"
proof -
  have "mvalid (bytes_of \<lparr>mkey = [1], mseq = 2, mtype = kTypeValue, mval = [3]\<rparr>)"
    by (rule mvalid_bytes) (simp add: entry_ok_def)
  from skiplist_search_correct [OF holds_keys_new _ this, of "[]"] show ?thesis by simp
qed

text \<open>The random numbers of the skip list. The two reductions by shifts and masks compute multiplication by 16807 modulo the
  prime 2147483647, and the seed never becomes zero or the modulus.\<close>

theorem random_next_is_lehmer:
  assumes "0 < unat seed" and "unat seed < 2147483647"
  shows "unat (Random_Next seed) = unat seed * 16807 mod 2147483647 \<and> 0 < unat (Random_Next seed) \<and>
    unat (Random_Next seed) < 2147483647"
  using Random_Next_correct [OF assms] by blast

theorem random_next_is_lehmer_witness: "unat (Random_Next 2147483646) = 2147466840"
  using random_next_is_lehmer [of 2147483646] by simp

section \<open>The storage engine: log\<close>

text \<open>C11: log round trip. Records of any sizes are written to an empty file. If no call but interrupted ones fails, all of them are
  written, however the writes are split; and if all of them are written, the reader returns them in order and without a
  report, however the operating system interrupts its reads.\<close>

theorem log_round_trip:
  assumes "fdata (wfd f) = []" and "fpos (wfd f) = 0" and "buf f = []"
    and "add_records PosixWritableFile_Append PosixWritableFile_Flush xs (new_Writer a f) = (done_all, w)"
  shows "(wreliable f \<longrightarrow> done_all) \<and>
    (done_all \<longrightarrow> sremaining g = fdata (wfd (dest w)) \<longrightarrow> ssteady g \<longrightarrow>
     (\<exists>r. read_all PosixSequentialFile_Read PosixSequentialFile_Skip (new_Reader g reporting chk store 0) [] [] =
        Some (map snd xs, r) \<and> reports r = []))"
proof (intro conjI impI)
  assume "wreliable f"
  with wr.add_records_reliable [OF _ assms(4)] show done_all by (simp add: new_Writer_def)
next
  assume d: done_all and g: "sremaining g = fdata (wfd (dest w))" "ssteady g"
  have "wvalid f" "wcontents f = []" "wstored f = []" "widle f"
    using assms(1-3) by (simp_all add: wvalid_def wcontents_def wstored_def widle_def)
  from wf.new_log_holds [OF this, of xs a w] assms(4) d g(1) have "log_holds (sremaining g) 0 (map snd xs) (length (sremaining g))"
    by (auto simp: wvalid_def wcontents_def wstored_def widle_def)
  from sf.read_all_new [OF this g(2)] show "\<exists>r. read_all PosixSequentialFile_Read PosixSequentialFile_Skip
      (new_Reader g reporting chk store 0) [] [] = Some (map snd xs, r) \<and> reports r = []" by blast
qed

theorem log_round_trip_witness:
  "\<exists>w r. add_records PosixWritableFile_Append PosixWritableFile_Flush [(0, [1, 2, 3]), (64, replicate 40000 7)]
      (new_Writer 8 \<lparr>buf = [], wfd = \<lparr>fdata = [], fpos = 0, fsched = [Transfers 3, Fails EINTR], strerror = \<lambda>_. []\<rparr>, wfilename = []\<rparr>) =
      (True, w) \<and>
    read_all PosixSequentialFile_Read PosixSequentialFile_Skip
      (new_Reader \<lparr>sfd = \<lparr>fdata = fdata (wfd (dest w)), fpos = 0, fsched = [Fails EINTR], strerror = \<lambda>_. []\<rparr>, sfilename = []\<rparr> True True 0 0) [] [] =
      Some ([[1, 2, 3], replicate 40000 7], r) \<and> reports r = []"
proof -
  let ?f = "\<lparr>buf = [], wfd = \<lparr>fdata = [], fpos = 0, fsched = [Transfers 3, Fails EINTR], strerror = \<lambda>_. []\<rparr>, wfilename = []\<rparr>"
  obtain b w where w: "add_records PosixWritableFile_Append PosixWritableFile_Flush [(0, [1, 2, 3]), (64, replicate 40000 7)]
      (new_Writer 8 ?f) = (b, w)" by fastforce
  have "wreliable ?f" by (simp add: wreliable_def)
  with log_round_trip [OF _ _ _ w, of "\<lparr>sfd = \<lparr>fdata = fdata (wfd (dest w)), fpos = 0, fsched = [Fails EINTR],
      strerror = \<lambda>_. []\<rparr>, sfilename = []\<rparr>" True True 0] have b and "\<exists>r. read_all PosixSequentialFile_Read PosixSequentialFile_Skip
      (new_Reader \<lparr>sfd = \<lparr>fdata = fdata (wfd (dest w)), fpos = 0, fsched = [Fails EINTR], strerror = \<lambda>_. []\<rparr>, sfilename = []\<rparr> True True 0 0) [] [] =
      Some ([[1, 2, 3], replicate 40000 7], r) \<and> reports r = []"
    by (simp_all add: sremaining_def ssteady_def)
  moreover from \<open>b\<close> have "b = True" by simp
  ultimately show ?thesis using w by blast
qed

text \<open>C12: the reader always comes to an end. From every state of a reader that starts at the front of a finite file, with any
  contents, sound or damaged, and any outcomes of the system calls, the loop of \<open>ReadRecord\<close> calls returns.\<close>

theorem log_reader_ends:
  assumes "initial_offset r = 0"
  shows "\<exists>res. read_all PosixSequentialFile_Read PosixSequentialFile_Skip r out scr = Some res"
  using assms by (rule sf.read_all_returns)

theorem log_reader_ends_witness:
  "\<exists>res. read_all PosixSequentialFile_Read PosixSequentialFile_Skip
     (new_Reader \<lparr>sfd = \<lparr>fdata = [1, 2, 3, 4, 9, 9, 9, 9, 9], fpos = 0, fsched = [Transfers 2, Fails 5], strerror = \<lambda>_. []\<rparr>,
        sfilename = []\<rparr> True True 0 0) [] [] = Some res"
  by (rule log_reader_ends) (simp add: new_Reader_def)

text \<open>C13: the file layer. Appending to a \<open>PosixWritableFile\<close> and flushing it, whatever the sizes, however the writes are split and
  interrupted, hands the operating system exactly the bytes appended so far, in order, if it reports success.\<close>

theorem posix_append_flush_stores:
  assumes "wvalid f" and "PosixWritableFile_Append f d = (s1, f1)" and "ok s1" and "PosixWritableFile_Flush f1 = (s2, f2)" and "ok s2"
  shows "fdata (wfd f2) = fdata (wfd f) @ buf f @ d \<and> wvalid f2"
  using wf.append_ok [OF assms(1-3)] wf.append_valid [OF assms(1,2)] wf.flush_ok [OF _ assms(4,5)] wf.flush_valid [OF _ assms(4)] assms(1)
  by (auto simp: wvalid_def wcontents_def wstored_def)

theorem posix_append_flush_stores_witness:
  "\<exists>s1 f1 s2 f2. PosixWritableFile_Append \<lparr>buf = [1], wfd = \<lparr>fdata = [8, 9], fpos = 2, fsched = [Transfers 1, Fails EINTR],
      strerror = \<lambda>_. []\<rparr>, wfilename = []\<rparr> [2, 3] = (s1, f1) \<and> PosixWritableFile_Flush f1 = (s2, f2) \<and>
    fdata (wfd f2) = [8, 9, 1, 2, 3]"
proof -
  let ?f = "\<lparr>buf = [1], wfd = \<lparr>fdata = [8, 9], fpos = 2, fsched = [Transfers 1, Fails EINTR],
      strerror = \<lambda>_. []\<rparr>, wfilename = []\<rparr>"
  obtain s1 f1 where 1: "PosixWritableFile_Append ?f [2, 3] = (s1, f1)" by fastforce
  obtain s2 f2 where 2: "PosixWritableFile_Flush f1 = (s2, f2)" by fastforce
  have "wreliable ?f" by (simp add: wreliable_def)
  with wr.append_reliable [OF _ 1] have "ok s1" "wreliable f1" by blast+
  moreover from wr.flush_reliable [OF this(2) 2] have "ok s2" ..
  moreover have "wvalid ?f" by (simp add: wvalid_def kWritableFileBufferSize_def)
  ultimately show ?thesis using posix_append_flush_stores [OF _ 1 _ 2] 1 2 by auto
qed

section \<open>The storage engine: sorted tables\<close>

text \<open>C14: sorted table round trip. Entries are added to a \<open>TableBuilder\<close> on an empty file and the table is finished. If that succeeds,
  \<open>Table::Open\<close> on a file with the bytes that were written succeeds, and its two-level iterator returns exactly the entries: forward, backward,
  and from any sought key, with or without compression, filter and block cache, and with checksums verified or not.\<close>

theorem table_round_trip:
  assumes "wvalid f" and "wcontents f = []" and "internal_options opt" and "snappy_ok port" and "table_entries es"
    and "build_table a PosixWritableFile_Append PosixWritableFile_Flush port opt f es = (s, tb)" and "ok s"
    and "rsteady g" and "rcontents g = wcontents (t_file tb)" and "length (rcontents g) < 2 ^ 32" and "cache_fresh cache"
  shows "\<exists>tab. Table_Open a' PosixRandomAccessFile_Read port sharded_ops opt g cache (FileSize tb) = Some (OK, Some tab) \<and>
    (let iops = table_iterator a' PosixRandomAccessFile_Read port sharded_ops ropt (o_Compare opt); it = Table_NewIterator tab in
     Option.bind (op_SeekToFirst iops it) (read_forward iops) = Some es \<and>
     Option.bind (op_SeekToLast iops it) (read_backward iops) = Some (rev es) \<and>
     (internal_valid k \<longrightarrow> Option.bind (op_Seek iops it k) (read_forward iops) = Some (dropWhile (\<lambda>e. o_Compare opt (fst e) k < 0) es)))"
proof -
  obtain tab D where tab: "Table_Open a' PosixRandomAccessFile_Read port sharded_ops opt g cache (FileSize tb) = Some (OK, Some tab)"
    "posix_reader.opened port tab D" "entries_of D = es" by (rule posix_table_opens [OF assms])
  have "o_Compare opt = InternalKeyComparator_Compare Compare" using assms(3) by (simp add: internal_options_def)
  with tab posix_reader.table_reads(1,2) [OF tab(2), where a = a' and ropt = ropt]
    posix_reader.table_reads(3) [OF tab(2), where a = a' and ropt = ropt and k = k] show ?thesis by (simp add: Let_def)
qed

theorem table_round_trip_witness:
  "\<exists>tb tab. build_table 0 PosixWritableFile_Append PosixWritableFile_Flush port_stdcxx default_options new_file
      [([1, 1, 5, 0, 0, 0, 0, 0, 0], [3])] = (OK, tb) \<and>
    Table_Open 0 PosixRandomAccessFile_Read port_stdcxx sharded_ops default_options (file_with (wcontents (t_file tb)))
      (Some (NewLRUCache 1000)) (FileSize tb) = Some (OK, Some tab) \<and>
    (let iops = table_iterator 0 PosixRandomAccessFile_Read port_stdcxx sharded_ops \<lparr>verify_checksums = True, fill_cache = True\<rparr>
        (o_Compare default_options) in
     Option.bind (op_SeekToFirst iops (Table_NewIterator tab)) (read_forward iops) = Some [([1, 1, 5, 0, 0, 0, 0, 0, 0], [3])])"
proof -
  obtain tb where tb: "build_table 0 PosixWritableFile_Append PosixWritableFile_Flush port_stdcxx default_options new_file
      [([1, 1, 5, 0, 0, 0, 0, 0, 0], [3])] = (OK, tb)" "length (wcontents (t_file tb)) < 2 ^ 32" by (rule small_table)
  have "length (rcontents (file_with (wcontents (t_file tb)))) < 2 ^ 32" using tb(2) by (simp only: file_with_good(2))
  from table_round_trip [OF new_file_good(1,2) default_options_internal port_stdcxx_ok small_entries tb(1) ok_OK
      file_with_good(1) [OF tb(2)] file_with_good(2) this new_cache_fresh, where a' = 0 and ropt = "\<lparr>verify_checksums = True, fill_cache = True\<rparr>"] tb(1)
  show ?thesis unfolding Let_def by blast
qed







text \<open>C18: the merging iterator. Over the iterators of blocks whose keys are all different it is an iterator over the merged entries in the
  order of the comparator: read forward, backward, and from any sought key.\<close>

theorem merging_iterator_merges:
  assumes "1 \<le> n" and "2 \<le> length its" and "length ess = length its" and "table_entries M" and "mset M = mset (concat ess)"
    and "\<forall>i < length its. table_entries (ess ! i) \<and> length (build_block n (ess ! i)) < 2 ^ 32 \<and>
      NewIterator (new_Block (build_block n (ess ! i))) = NewIter (its ! i)"
  shows "\<exists>it. NewMergingIterator (block_iterator (InternalKeyComparator_Compare Compare)) its = Merged it \<and>
    (let mops = merging_iterator (InternalKeyComparator_Compare Compare) (block_iterator (InternalKeyComparator_Compare Compare)) in
     Option.bind (op_SeekToFirst mops it) (read_forward mops) = Some M \<and>
     Option.bind (op_SeekToLast mops it) (read_backward mops) = Some (rev M) \<and>
     (internal_valid k \<longrightarrow>
      Option.bind (op_Seek mops it k) (read_forward mops) = Some (dropWhile (\<lambda>e. InternalKeyComparator_Compare Compare (fst e) k < 0) M)))"
proof -
  let ?bops = "block_iterator (InternalKeyComparator_Compare Compare)"
  have "NewMergingIterator ?bops its = Merged (new_MergingIterator ?bops its)"
    using assms(2) by (auto simp: NewMergingIterator_def split: list.splits)
  moreover have pos: "merge_pos internal_valid (InternalKeyComparator_Compare Compare) block_merge.wpos M (length M) (new_MergingIterator ?bops its)"
    using merged_blocks_pos [OF assms(1) assms(3-6)] .
  ultimately show ?thesis
    using block_merge.merging.read_all_forward [OF pos] block_merge.merging.read_all_backward [OF pos] block_merge.merging.read_from [OF pos, of k]
    by (simp add: Let_def)
qed

theorem merging_iterator_merges_witness:
  "\<exists>its it. NewMergingIterator (block_iterator (InternalKeyComparator_Compare Compare)) its = Merged it \<and>
    map NewIter its = map (\<lambda>es. NewIterator (new_Block (build_block 16 es)))
      [[([1, 1, 5, 0, 0, 0, 0, 0, 0], [3]), ([3, 1, 5, 0, 0, 0, 0, 0, 0], [5])], [([2, 1, 5, 0, 0, 0, 0, 0, 0], [4])]] \<and>
    (let mops = merging_iterator (InternalKeyComparator_Compare Compare) (block_iterator (InternalKeyComparator_Compare Compare)) in
     Option.bind (op_SeekToFirst mops it) (read_forward mops) =
       Some [([1, 1, 5, 0, 0, 0, 0, 0, 0], [3]), ([2, 1, 5, 0, 0, 0, 0, 0, 0], [4]), ([3, 1, 5, 0, 0, 0, 0, 0, 0], [5])])"
proof -
  let ?a = "([1, 1, 5, 0, 0, 0, 0, 0, 0], [3]) :: slice \<times> slice" and ?b = "([2, 1, 5, 0, 0, 0, 0, 0, 0], [4]) :: slice \<times> slice"
    and ?c = "([3, 1, 5, 0, 0, 0, 0, 0, 0], [5]) :: slice \<times> slice"
  have t: "table_entries [?a, ?c]" "table_entries [?b]" "table_entries [?a, ?b, ?c]" by code_simp+
  have len: "length (build_block 16 [?a, ?c]) < 2 ^ 32" "length (build_block 16 [?b]) < 2 ^ 32" by code_simp+
  obtain i1 i2 where it: "NewIterator (new_Block (build_block 16 [?a, ?c])) = NewIter i1" "NewIterator (new_Block (build_block 16 [?b])) = NewIter i2"
    using internal.open_block [of 16 "[?a, ?c]"] internal.open_block [of 16 "[?b]"] len t by (auto simp: table_entries_def)
  have b: "\<forall>i < length [i1, i2]. table_entries ([[?a, ?c], [?b]] ! i) \<and> length (build_block 16 ([[?a, ?c], [?b]] ! i)) < 2 ^ 32 \<and>
      NewIterator (new_Block (build_block 16 ([[?a, ?c], [?b]] ! i))) = NewIter ([i1, i2] ! i)"
    using t(1,2) len it by (simp add: All_less_Suc2 less_Suc_eq)
  have "(1 :: int) \<le> 16" "2 \<le> length [i1, i2]" "length [[?a, ?c], [?b]] = length [i1, i2]" "mset [?a, ?b, ?c] = mset (concat [[?a, ?c], [?b]])" by simp_all
  note m = merging_iterator_merges [OF this(1-3) t(3) this(4) b]
  have "map NewIter [i1, i2] = map (\<lambda>es. NewIterator (new_Block (build_block 16 es))) [[?a, ?c], [?b]]" using it by simp
  with m show ?thesis unfolding Let_def by blast
qed

section \<open>The storage engine: what a client sees\<close>

text \<open>C19: the iterator of a database. Over the merging iterator of blocks of internal keys it shows exactly the snapshot at its sequence
  number: the user keys whose newest visible entry is a value, each once with that value, in order; read forward, backward and from any
  sought key. All its loops end, whatever the seed of the read samples.\<close>

theorem db_iterator_shows_snapshot:
  assumes "1 \<le> n" and "2 \<le> length its" and "length ess = length its" and "table_entries M" and "mset M = mset (concat ess)"
    and "\<forall>i < length its. table_entries (ess ! i) \<and> length (build_block n (ess ! i)) < 2 ^ 32 \<and>
      NewIterator (new_Block (build_block n (ess ! i))) = NewIter (its ! i)"
    and "\<forall>e \<in> set M. ParseInternalKey (fst e) \<noteq> None" and "unat s < 2 ^ 56"
  shows "\<exists>V it. snapshot_of s M V \<and> NewMergingIterator (block_iterator (InternalKeyComparator_Compare Compare)) its = Merged it \<and>
    (let dops = db_iterator (merging_iterator (InternalKeyComparator_Compare Compare) (block_iterator (InternalKeyComparator_Compare Compare))) Compare;
         d = NewDBIterator it s seed in
     Option.bind (op_SeekToFirst dops d) (read_forward dops) = Some V \<and>
     Option.bind (op_SeekToLast dops d) (read_backward dops) = Some (rev V) \<and>
     Option.bind (op_Seek dops d t) (read_forward dops) = Some (dropWhile (\<lambda>e. Compare (fst e) t < 0) V))"
proof -
  let ?bops = "block_iterator (InternalKeyComparator_Compare Compare)"
  have new: "NewMergingIterator ?bops its = Merged (new_MergingIterator ?bops its)"
    using assms(2) by (auto simp: NewMergingIterator_def split: list.splits)
  have E: "db_entries Compare M" using assms(4,7) by (simp add: db_entries_def table_entries_def)
  note pos = merged_db.new_db_pos [OF E assms(8) merged_blocks_pos [OF assms(1,3-6)], of seed]
  show ?thesis unfolding Let_def
    by (rule exI [of _ "user_view s M"], rule exI [of _ "new_MergingIterator ?bops its"])
      (intro conjI user_view_snapshot [OF E] new merged_db.db.read_all_forward [OF pos] merged_db.db.read_all_backward [OF pos]
        merged_db.db.read_from [OF pos TrueI])
qed

theorem db_iterator_shows_snapshot_witness:
  "\<exists>V it its. snapshot_of 6 [([1, 0, 7, 0, 0, 0, 0, 0, 0], []), ([1, 1, 5, 0, 0, 0, 0, 0, 0], [3]), ([2, 0, 6, 0, 0, 0, 0, 0, 0], []), ([2, 1, 4, 0, 0, 0, 0, 0, 0], [9])] V \<and>
    map NewIter its = map (\<lambda>es. NewIterator (new_Block (build_block 16 es)))
      [[([1, 0, 7, 0, 0, 0, 0, 0, 0], []), ([2, 0, 6, 0, 0, 0, 0, 0, 0], [])], [([1, 1, 5, 0, 0, 0, 0, 0, 0], [3]), ([2, 1, 4, 0, 0, 0, 0, 0, 0], [9])]] \<and>
    NewMergingIterator (block_iterator (InternalKeyComparator_Compare Compare)) its = Merged it \<and>
    (let dops = db_iterator (merging_iterator (InternalKeyComparator_Compare Compare) (block_iterator (InternalKeyComparator_Compare Compare))) Compare in
     Option.bind (op_SeekToFirst dops (NewDBIterator it 6 1)) (read_forward dops) = Some V)"
proof -
  let ?a = "([1, 0, 7, 0, 0, 0, 0, 0, 0], []) :: slice \<times> slice" and ?b = "([1, 1, 5, 0, 0, 0, 0, 0, 0], [3]) :: slice \<times> slice"
    and ?c = "([2, 0, 6, 0, 0, 0, 0, 0, 0], []) :: slice \<times> slice" and ?d = "([2, 1, 4, 0, 0, 0, 0, 0, 0], [9]) :: slice \<times> slice"
  have t: "table_entries [?a, ?c]" "table_entries [?b, ?d]" "table_entries [?a, ?b, ?c, ?d]" by code_simp+
  have len: "length (build_block 16 [?a, ?c]) < 2 ^ 32" "length (build_block 16 [?b, ?d]) < 2 ^ 32" by code_simp+
  obtain i1 i2 where it: "NewIterator (new_Block (build_block 16 [?a, ?c])) = NewIter i1" "NewIterator (new_Block (build_block 16 [?b, ?d])) = NewIter i2"
    using internal.open_block [of 16 "[?a, ?c]"] internal.open_block [of 16 "[?b, ?d]"] len t by (auto simp: table_entries_def)
  have b: "\<forall>i < length [i1, i2]. table_entries ([[?a, ?c], [?b, ?d]] ! i) \<and> length (build_block 16 ([[?a, ?c], [?b, ?d]] ! i)) < 2 ^ 32 \<and>
      NewIterator (new_Block (build_block 16 ([[?a, ?c], [?b, ?d]] ! i))) = NewIter ([i1, i2] ! i)"
    using t(1,2) len it by (simp add: All_less_Suc2 less_Suc_eq)
  have "\<forall>e \<in> set [?a, ?b, ?c, ?d]. ParseInternalKey (fst e) \<noteq> None" by code_simp
  moreover have "(1 :: int) \<le> 16" "2 \<le> length [i1, i2]" "length [[?a, ?c], [?b, ?d]] = length [i1, i2]"
    "mset [?a, ?b, ?c, ?d] = mset (concat [[?a, ?c], [?b, ?d]])" "unat (6 :: u64) < 2 ^ 56" by simp_all
  moreover have "map NewIter [i1, i2] = map (\<lambda>es. NewIterator (new_Block (build_block 16 es))) [[?a, ?c], [?b, ?d]]" using it by simp
  ultimately show ?thesis using db_iterator_shows_snapshot [OF _ _ _ t(3) _ b, of 6 1] unfolding Let_def by blast
qed

text \<open>C20: from a table on disk to the client. A table that was built and opened, read through the database iterator, shows the snapshot of the
  entries that were added, whatever the cache, the filter and the compression.\<close>

theorem db_iterator_over_table:
  assumes "wvalid f" and "wcontents f = []" and "internal_options opt" and "snappy_ok port" and "table_entries es"
    and "build_table a PosixWritableFile_Append PosixWritableFile_Flush port opt f es = (st, tb)" and "ok st"
    and "rsteady g" and "rcontents g = wcontents (t_file tb)" and "length (rcontents g) < 2 ^ 32" and "cache_fresh cache"
    and "\<forall>e \<in> set es. ParseInternalKey (fst e) \<noteq> None" and "unat s < 2 ^ 56"
  shows "\<exists>V tab. snapshot_of s es V \<and>
    Table_Open a' PosixRandomAccessFile_Read port sharded_ops opt g cache (FileSize tb) = Some (OK, Some tab) \<and>
    (let dops = db_iterator (table_iterator a' PosixRandomAccessFile_Read port sharded_ops ropt (o_Compare opt)) Compare;
         d = NewDBIterator (Table_NewIterator tab) s seed in
     Option.bind (op_SeekToFirst dops d) (read_forward dops) = Some V \<and>
     Option.bind (op_SeekToLast dops d) (read_backward dops) = Some (rev V) \<and>
     Option.bind (op_Seek dops d t) (read_forward dops) = Some (dropWhile (\<lambda>e. Compare (fst e) t < 0) V))"
proof -
  obtain tab D where tab: "Table_Open a' PosixRandomAccessFile_Read port sharded_ops opt g cache (FileSize tb) = Some (OK, Some tab)"
    "posix_reader.opened port tab D" "entries_of D = es" by (rule posix_table_opens [OF assms(1-11)])
  have E: "db_entries Compare (entries_of D)" using assms(5,12) tab(3) by (simp add: db_entries_def table_entries_def)
  note pos = table_db.new_db_pos [OF E assms(13) posix_reader.Table_NewIterator_pos [OF tab(2)], of seed]
  have cmp: "o_Compare opt = InternalKeyComparator_Compare Compare" using assms(3) by (simp add: internal_options_def)
  show ?thesis unfolding Let_def cmp
    by (rule exI [of _ "user_view s (entries_of D)"], rule exI [of _ tab], unfold tab(3) [symmetric])
      (intro conjI user_view_snapshot [OF E] tab(1) table_db.db.read_all_forward [OF pos] table_db.db.read_all_backward [OF pos]
        table_db.db.read_from [OF pos TrueI])
qed

theorem db_iterator_over_table_witness:
  "\<exists>V tb tab. snapshot_of 9 [([1, 1, 5, 0, 0, 0, 0, 0, 0], [3])] V \<and>
    build_table 0 PosixWritableFile_Append PosixWritableFile_Flush port_stdcxx default_options new_file
      [([1, 1, 5, 0, 0, 0, 0, 0, 0], [3])] = (OK, tb) \<and>
    Table_Open 0 PosixRandomAccessFile_Read port_stdcxx sharded_ops default_options (file_with (wcontents (t_file tb)))
      (Some (NewLRUCache 1000)) (FileSize tb) = Some (OK, Some tab) \<and>
    (let dops = db_iterator (table_iterator 0 PosixRandomAccessFile_Read port_stdcxx sharded_ops \<lparr>verify_checksums = True, fill_cache = True\<rparr>
        (o_Compare default_options)) Compare in
     Option.bind (op_SeekToFirst dops (NewDBIterator (Table_NewIterator tab) 9 1)) (read_forward dops) = Some V)"
proof -
  obtain tb where tb: "build_table 0 PosixWritableFile_Append PosixWritableFile_Flush port_stdcxx default_options new_file
      [([1, 1, 5, 0, 0, 0, 0, 0, 0], [3])] = (OK, tb)" "length (wcontents (t_file tb)) < 2 ^ 32" by (rule small_table)
  have "length (rcontents (file_with (wcontents (t_file tb)))) < 2 ^ 32" using tb(2) by (simp only: file_with_good(2))
  moreover have "\<forall>e \<in> set [([1, 1, 5, 0, 0, 0, 0, 0, 0] :: slice, [3] :: slice)]. ParseInternalKey (fst e) \<noteq> None" by code_simp
  moreover have "unat (9 :: u64) < 2 ^ 56" by simp
  ultimately show ?thesis
    using db_iterator_over_table [OF new_file_good(1,2) default_options_internal port_stdcxx_ok small_entries tb(1) ok_OK
      file_with_good(1) [OF tb(2)] file_with_good(2) _ new_cache_fresh, where a' = 0 and ropt = "\<lparr>verify_checksums = True, fill_cache = True\<rparr>"
      and seed = 1 and s = 9] tb(1) unfolding Let_def by blast
qed

section \<open>The storage engine: cache\<close>








section \<open>The storage engine: version edits and file names\<close>




text \<open>C27: numerals. \<open>ConsumeDecimalNumber\<close> accepts a sequence of digits exactly if its value is less than \<open>2 ^ 64\<close>, returns
  that value and leaves the rest of the input; its overflow check before the multiplication is exact.\<close>

theorem decimal_number_exact:
  assumes "list_all is_digit ds" and "ds \<noteq> []" and "rest = [] \<or> \<not> is_digit (hd rest)"
  shows "ConsumeDecimalNumber (ds @ rest) =
    (if digits_value 0 ds < 2 ^ 64 then (True, Some (word_of_nat (digits_value 0 ds)), rest) else (False, None, ds @ rest))"
  using ConsumeDecimalNumber_spec [OF assms(1,3)] assms(2) by simp

theorem decimal_number_exact_witness:
  "ConsumeDecimalNumber (str ''18446744073709551615.'') = (True, Some (-1), str ''.'') \<and>
   ConsumeDecimalNumber (str ''18446744073709551616'') = (False, None, str ''18446744073709551616'')"
  using decimal_number_exact [of "str ''18446744073709551615''" "str ''.''"] decimal_number_exact [of "str ''18446744073709551616''" "[]"]
  by (simp add: is_digit_def)

section \<open>The storage engine: keys, batches, filters\<close>

text \<open>C28: internal keys. Their comparison is a total order on keys of at least eight bytes, separators lie between their
  arguments and successors are not before theirs, so an index entry made from them leads to the right block.\<close>

theorem internal_comparator_laws:
  assumes "8 \<le> length a" and "8 \<le> length b" and "8 \<le> length c"
  shows "(InternalKeyComparator_Compare Compare a b = 0 \<longleftrightarrow> a = b) \<and>
    (InternalKeyComparator_Compare Compare a b < 0 \<longleftrightarrow> 0 < InternalKeyComparator_Compare Compare b a) \<and>
    (InternalKeyComparator_Compare Compare a b < 0 \<longrightarrow> InternalKeyComparator_Compare Compare b c < 0 \<longrightarrow>
       InternalKeyComparator_Compare Compare a c < 0) \<and>
    (InternalKeyComparator_Compare Compare a b < 0 \<longrightarrow>
       InternalKeyComparator_Compare Compare a (InternalKeyComparator_FindShortestSeparator Compare FindShortestSeparator a b) \<le> 0 \<and>
       InternalKeyComparator_Compare Compare (InternalKeyComparator_FindShortestSeparator Compare FindShortestSeparator a b) b < 0) \<and>
    InternalKeyComparator_Compare Compare a (InternalKeyComparator_FindShortSuccessor Compare FindShortSuccessor a) \<le> 0"
  using internal.cmp_eq [of a b] internal.cmp_flip [of a b] internal.cmp_trans [of a b c] internal.sep_between [of a b]
    internal.succ_above [of a] assms by (simp add: internal_valid_def)

theorem internal_comparator_laws_witness:
  "InternalKeyComparator_Compare Compare [1, 2, 0, 0, 0, 0, 0, 0, 0, 0] (InternalKeyComparator_FindShortSuccessor Compare FindShortSuccessor
     [1, 2, 0, 0, 0, 0, 0, 0, 0, 0]) \<le> 0"
  using internal_comparator_laws [of "[1, 2, 0, 0, 0, 0, 0, 0, 0, 0]" "[0, 0, 0, 0, 0, 0, 0, 0]" "[0, 0, 0, 0, 0, 0, 0, 0]"] by simp

text \<open>Encoding of internal keys. Parsing inverts appending for sequence numbers of 56 bits.\<close>

theorem internal_key_roundtrip:
  assumes "unat (sequence key) < 2 ^ 56"
  shows "ParseInternalKey (AppendInternalKey [] key) = Some key"
  using assms by (rule Parse_Append)

theorem internal_key_roundtrip_witness:
  "ParseInternalKey (AppendInternalKey [] \<lparr>user_key = [1, 2], sequence = 7, vtype = kTypeDeletion\<rparr>) =
     Some \<lparr>user_key = [1, 2], sequence = 7, vtype = kTypeDeletion\<rparr>"
  by (rule internal_key_roundtrip) simp

text \<open>C29: write batches. The string of a batch represents the list of its operations: clearing, putting, deleting, setting the
  sequence number and appending act on that list, and iterating calls the handler once for each operation in order.\<close>

theorem write_batch_refines_list:
  assumes "list_all op_ok ops" and "length ops < 2 ^ 31" and "length ops' < 2 ^ 31"
  shows "WriteBatch_Put (batch_of seq ops) k v = batch_of seq (ops @ [BPut k v]) \<and>
    WriteBatch_Delete (batch_of seq ops) k = batch_of seq (ops @ [BDelete k]) \<and>
    WriteBatch_Append (batch_of seq ops) (batch_of seq' ops') = batch_of seq (ops @ ops') \<and>
    SetSequence (batch_of seq ops) seq' = batch_of seq' ops \<and> Clear b = batch_of 0 [] \<and>
    Iterate on_put on_delete (batch_of seq ops) h = (OK, foldl (apply_op on_put on_delete) h ops)"
  using assms by (simp add: Put_batch Delete_batch Append_batch SetSequence_batch Clear_batch Iterate_batch)

theorem write_batch_refines_list_witness:
  "Iterate (\<lambda>k v h. h @ [(k, Some v)]) (\<lambda>k h. h @ [(k, None)]) (batch_of 9 [BPut [1] [2], BDelete [3]]) [] =
     (OK, [([1], Some [2]), ([3], None)])"
  using write_batch_refines_list [of "[BPut [1] [2], BDelete [3]]" "[]" 9 "[]" "[]" 0 new_WriteBatch
      "\<lambda>k v h. h @ [(k, Some v)]" "\<lambda>k h. h @ [(k, None)]" "[]"] by simp

text \<open>C30: Bloom filters have no false negatives. A key that was among the keys a filter was built from matches it, for every
  number of bits per key, appended to any string; so does an internal key through the wrapper that filters user keys.\<close>

theorem bloom_no_false_negatives:
  assumes "length keys * n < 2 ^ 63" and "key \<in> set keys"
  shows "KeyMayMatch key (drop (length dst) (CreateFilter (new_BloomFilterPolicy n) keys dst)) \<and>
    ((\<forall>k \<in> set keys. 8 \<le> length k) \<longrightarrow> InternalFilterPolicy_KeyMayMatch KeyMayMatch key
      (drop (length dst) (InternalFilterPolicy_CreateFilter (CreateFilter (new_BloomFilterPolicy n)) keys dst)))"
proof -
  have "filter_small (new_BloomFilterPolicy n) keys" "filter_small (new_BloomFilterPolicy n) (map ExtractUserKey keys)"
    using assms(1) by (simp_all add: filter_small_def new_BloomFilterPolicy_def Let_def)
  with bloom.no_false_negative [of n keys key dst] internal_bloom.no_false_negative [of n keys key dst] assms(2)
  show ?thesis by simp
qed

theorem bloom_no_false_negatives_witness:
  "KeyMayMatch [1, 2, 3] (drop 1 (CreateFilter (new_BloomFilterPolicy 10) [[4], [1, 2, 3]] [0]))"
  using bloom_no_false_negatives [of "[[4], [1, 2, 3]]" 10 "[1, 2, 3]" "[0]"] by simp

text \<open>The array of a lookup key is large enough for what is written to it, inside the object or allocated.\<close>

theorem lookup_key_fits: "length (lookup_bytes (new_LookupKey u s)) \<le> lookup_space (new_LookupKey u s)"
  by (rule LookupKey_fits)

section \<open>The storage engine: checksums\<close>

text \<open>C31: CRC-32C. The table-driven routine with four interleaved strides computes the division by the Castagnoli polynomial one
  bit at a time, for every initial value, length and alignment of the data.\<close>

theorem crc32c_extend_is_reference: "Extend a crc data = crc32c_ref crc data"
  by (rule Extend_eq)

text \<open>C32: error detection. Two messages that differ, but only within four adjacent bytes, have different checksums.\<close>

theorem crc32c_detects_window:
  assumes "length x = length y" and "length x \<le> 4" and "x \<noteq> y"
  shows "Value a (p @ x @ q) \<noteq> Value b (p @ y @ q)"
  using crc32c_window [OF assms(1,2), of 0 p q] assms(3) by (auto simp: Value_def Extend_eq)

theorem crc32c_detects_window_witness: "Value 0 [1, 2, 3] \<noteq> Value 0 [1, 7, 3]"
  using crc32c_detects_window [of "[2]" "[7]" 0 "[1]" "[3]" 0] by simp

text \<open>Masking of stored checksums is undone by unmasking.\<close>

theorem crc32c_unmask_mask: "Unmask (Mask crc) = crc"
  by (rule Unmask_Mask)

section \<open>Primitive codecs\<close>

text \<open>C33: varint round trip. Whatever 64-bit value is written to a buffer, reading it back gives the
  same value and stops at the first byte behind it.\<close>

theorem varint_roundtrip:
  assumes "n < 2 ^ 63" and "pb_encode_varint e v (pb_ostream_from_buffer n) = (True, s)"
  shows "pb_decode_varint e (pb_istream_from_buffer (ostate s @ rest) (bytes_written s + k)) =
     (Some v, pb_istream_from_buffer rest k)"
  by (rule varint.write_then_read [OF assms])

theorem varint_roundtrip_witness:
  "pb_decode_varint (plain_env 0 0) (pb_istream_from_buffer [0xAC, 0x02, 0xFF] 3) =
     (Some 300, pb_istream_from_buffer [0xFF] 1)"
proof -
  have "pb_encode_varint (plain_env 0 0) 300 (pb_ostream_from_buffer 4) =
      (True, \<lparr>ocallback = Buf_write, ostate = [0xAC, 0x02], max_size = 4, bytes_written = 2, oerrmsg = None\<rparr>)"
    by code_simp
  from varint_roundtrip [OF _ this, of "[0xFF]" 1] show ?thesis by simp
qed

text \<open>Signed varint round trip through the zig-zag mapping, for every 64-bit value.\<close>

theorem svarint_roundtrip:
  assumes "n < 2 ^ 63" and "pb_encode_svarint e v (pb_ostream_from_buffer n) = (True, s)"
  shows "pb_decode_svarint e (pb_istream_from_buffer (ostate s @ rest) (bytes_written s + k)) =
     (Some v, pb_istream_from_buffer rest k)"
  by (rule svarint.write_then_read [OF assms])

theorem svarint_roundtrip_witness:
  "pb_decode_svarint (plain_env 0 0) (pb_istream_from_buffer [0xD7, 0x04, 0xFF] 3) =
     (Some (-300), pb_istream_from_buffer [0xFF] 1)"
proof -
  have "pb_encode_svarint (plain_env 0 0) (-300) (pb_ostream_from_buffer 4) =
      (True, \<lparr>ocallback = Buf_write, ostate = [0xD7, 0x04], max_size = 4, bytes_written = 2, oerrmsg = None\<rparr>)"
    by code_simp
  from svarint_roundtrip [OF _ this, of "[0xFF]" 1] show ?thesis by simp
qed

text \<open>Round trip of 64-bit fixed-width values.\<close>

theorem fixed64_roundtrip:
  assumes "n < 2 ^ 63" and "pb_encode_fixed64 e m p (pb_ostream_from_buffer n) = (True, s)"
  shows "pb_decode_fixed64 e (pb_istream_from_buffer (ostate s @ rest) (bytes_written s + k)) =
     (Some (word_of_nat (load_uint 8 m p)), pb_istream_from_buffer rest k)"
  by (rule fixed64.write_then_read [OF assms])

theorem fixed64_roundtrip_witness:
  "pb_decode_fixed64 (plain_env 0 0) (pb_istream_from_buffer [1, 2, 3, 4, 5, 6, 7, 8, 0xFF] 9) =
     (Some (word_of_nat (load_uint 8 (store_bytes zero_mem 16 [1, 2, 3, 4, 5, 6, 7, 8]) 16)), pb_istream_from_buffer [0xFF] 1)"
proof -
  have "pb_encode_fixed64 (plain_env 0 0) (store_bytes zero_mem 16 [1, 2, 3, 4, 5, 6, 7, 8]) 16 (pb_ostream_from_buffer 8) =
      (True, \<lparr>ocallback = Buf_write, ostate = [1, 2, 3, 4, 5, 6, 7, 8], max_size = 8, bytes_written = 8, oerrmsg = None\<rparr>)"
    by code_simp
  from fixed64_roundtrip [OF _ this, of "[0xFF]" 1] show ?thesis by simp
qed

text \<open>Tag round trip: a wire type and a field number of at most 29 bits come back as they were written.\<close>

theorem tag_roundtrip:
  assumes "n < 2 ^ 63" and "unat wt < 8" and "0 < unat tg" and "unat tg < 2 ^ 29"
    and "pb_encode_tag e wt tg (pb_ostream_from_buffer n) = (True, s)"
  shows "pb_decode_tag e (pb_istream_from_buffer (ostate s @ rest) (bytes_written s + k)) =
     (Some (wt, tg), False, pb_istream_from_buffer rest k)"
proof -
  let ?bs = "varint_spec (tag_value wt tg)"
  have "s = put ?bs (pb_ostream_from_buffer n)"
    by (rule emitter.success_stores [OF emitter_tag [OF assms(2)] _ assms(5)]) (use assms(1) in simp)
  then have s: "ostate s = ?bs" "bytes_written s = length ?bs" by (simp_all add: pb_ostream_from_buffer_def)
  show ?thesis
    using tag_parse [OF holds_next_from_buffer [of ?bs "length ?bs + k" rest] assms(2-4), of e]
    by (simp add: s got_def pb_istream_from_buffer_def)
qed

theorem tag_roundtrip_witness:
  "pb_decode_tag (plain_env 0 0) (pb_istream_from_buffer [0xBA, 0x01, 0xFF] 3) =
     (Some (PB_WT_STRING, 23), False, pb_istream_from_buffer [0xFF] 1)"
proof -
  have "pb_encode_tag (plain_env 0 0) PB_WT_STRING 23 (pb_ostream_from_buffer 4) =
      (True, \<lparr>ocallback = Buf_write, ostate = [0xBA, 0x01], max_size = 4, bytes_written = 2, oerrmsg = None\<rparr>)"
    by code_simp
  from tag_roundtrip [OF _ _ _ _ this, of "[0xFF]" 1] show ?thesis by simp
qed

text \<open>The local buffer of ten bytes in \<open>pb_encode_varint\<close> is large enough for every 64-bit value,
  and a stream with room for ten bytes always takes a varint.\<close>

theorem pb_encode_varint_at_most_ten:
  assumes "10 \<le> n" and "n < 2 ^ 63"
  shows "length (varint_fill v) \<le> 10 \<and>
     (\<exists>s. pb_encode_varint e v (pb_ostream_from_buffer n) = (True, s) \<and> ostate s = varint_spec (unat v) \<and>
        bytes_written s = length (ostate s) \<and> bytes_written s \<le> 10)"
proof
  show "length (varint_fill v) \<le> 10" using varint_spec_max10 [of v] by (simp add: length_varint_fill)
  have "bytes_written (pb_ostream_from_buffer n) + length (varint_spec (unat v)) \<le> max_size (pb_ostream_from_buffer n)"
    using varint_spec_max10 [of v] assms by (simp add: pb_ostream_from_buffer_def)
  then have "pb_encode_varint e v (pb_ostream_from_buffer n) = (True, put (varint_spec (unat v)) (pb_ostream_from_buffer n))"
    using assms by (intro enc_varint.emit_room) simp_all
  then show "\<exists>s. pb_encode_varint e v (pb_ostream_from_buffer n) = (True, s) \<and> ostate s = varint_spec (unat v) \<and>
        bytes_written s = length (ostate s) \<and> bytes_written s \<le> 10"
    using varint_spec_max10 [of v] by (simp add: pb_ostream_from_buffer_def)
qed

theorem pb_encode_varint_at_most_ten_witness:
  "length (varint_fill (-1)) \<le> 10 \<and>
     (\<exists>s. pb_encode_varint (plain_env 0 0) (-1) (pb_ostream_from_buffer 10) = (True, s) \<and> ostate s = varint_spec (unat (-1 :: u64)) \<and>
        bytes_written s = length (ostate s) \<and> bytes_written s \<le> 10)"
  by (rule pb_encode_varint_at_most_ten) simp_all

text \<open>\<open>pb_decode_varint\<close> reads at most ten bytes, whatever they are and whether or not it succeeds.\<close>

theorem pb_decode_varint_at_most_ten:
  assumes "pb_decode_varint e s = (r, s')"
  shows "bytes_left s' \<le> bytes_left s \<and> bytes_left s \<le> bytes_left s' + 10"
  using varint64_loop_length [of e 0 0 s r s'] varint64_loop_left [of e 0 0 s r s'] assms
  by (simp add: pb_decode_varint_def)

theorem pb_decode_varint_at_most_ten_witness:
  "bytes_left (snd (pb_decode_varint (plain_env 0 0) (pb_istream_from_buffer (replicate 20 0xFF) 20))) \<ge> 10"
  using pb_decode_varint_at_most_ten [of "plain_env 0 0" "pb_istream_from_buffer (replicate 20 0xFF) 20"
      "fst (pb_decode_varint (plain_env 0 0) (pb_istream_from_buffer (replicate 20 0xFF) 20))"
      "snd (pb_decode_varint (plain_env 0 0) (pb_istream_from_buffer (replicate 20 0xFF) 20))"]
  by (simp add: pb_istream_from_buffer_def)


text \<open>Skipping a field of any wire type consumes exactly its value, so that an unknown field does not
  disturb what follows it.\<close>

theorem pb_skip_field_exact:
  assumes "wire_value wt bs" and "length bs \<le> n"
  shows "pb_skip_field e wt (pb_istream_from_buffer (bs @ rest) n) =
     (Some (), pb_istream_from_buffer rest (n - length bs))"
  using skip_field_parse [OF assms(1) holds_next_from_buffer [OF assms(2), of rest], of e]
  by (simp add: got_def pb_istream_from_buffer_def)

theorem pb_skip_field_exact_witness:
  "pb_skip_field (plain_env 0 0) PB_WT_STRING (pb_istream_from_buffer (delimited [1, 2, 3] @ [0x08]) 5) =
     (Some (), pb_istream_from_buffer [0x08] (5 - length (delimited [1, 2, 3])))"
  by (rule pb_skip_field_exact [OF wire_value.delimited]) (simp_all add: varint_spec.simps)

text \<open>Substreams. The substream of a length-delimited value sees exactly its payload, and closing it,
  however much of the payload has been read, leaves the parent stream just behind the value.\<close>

theorem substream_isolates:
  assumes "length bs < 2 ^ 32" and "length (delimited bs) \<le> n"
    and "icallback sub' = Buf_read" and "istate sub' = drop k (bs @ rest)"
    and "k \<le> length bs" and "bytes_left sub' = length bs - k" and "ierrmsg sub' = None"
  shows "\<exists>sub s1. pb_make_string_substream e (pb_istream_from_buffer (delimited bs @ rest) n) = (Some sub, s1) \<and>
     sub = pb_istream_from_buffer (bs @ rest) (length bs) \<and>
     pb_close_string_substream e sub' s1 =
       (True, pb_istream_from_buffer rest (n - length (delimited bs)))"
proof -
  have h: "holds_next (delimited bs) (pb_istream_from_buffer (delimited bs @ rest) n)"
    using holds_next_from_buffer [OF assms(2), of rest] by simp
  have len: "bytes_left sub' \<le> length (istate sub')" using assms by simp
  show ?thesis using substream_open [OF h assms(1), of e] substream_close [OF assms(3) len, of e] assms
    by (simp add: got_def pb_istream_from_buffer_def)
qed

theorem substream_isolates_witness:
  "\<exists>sub s1. pb_make_string_substream (plain_env 0 0) (pb_istream_from_buffer (delimited [1, 2, 3] @ [0x08]) 5) = (Some sub, s1) \<and>
     sub = pb_istream_from_buffer ([1, 2, 3] @ [0x08]) (length [1, 2, 3 :: byte]) \<and>
     pb_close_string_substream (plain_env 0 0) (pb_istream_from_buffer [2, 3, 0x08] 2) s1 =
       (True, pb_istream_from_buffer [0x08] (5 - length (delimited [1, 2, 3])))"
  by (rule substream_isolates [where k = 1]) (simp_all add: pb_istream_from_buffer_def varint_spec.simps)

section \<open>The field iterator\<close>

text \<open>C35: \<open>pb_field_iter_find\<close> finds a field with the wanted tag from any position of a terminated descriptor
  array, cyclically, and leaves the iterator on it with the addresses that a walk from the start of the
  struct would give; if there is none the iterator is left as it was.\<close>

theorem pb_field_iter_find_correct:
  assumes "terminated fs" and "k < nfields fs" and "pb_field_iter_find (iter_at fs b k) tg = (found, it)"
  shows "(found \<longleftrightarrow> (\<exists>j < nfields fs. tag (field_at fs j) = tg \<and> PB_LTYPE (ftype (field_at fs j)) \<noteq> PB_LTYPE_EXTENSION)) \<and>
     (found \<longrightarrow> (\<exists>j < nfields fs. tag (field_at fs j) = tg \<and> PB_LTYPE (ftype (field_at fs j)) \<noteq> PB_LTYPE_EXTENSION \<and> it = iter_at fs b j)) \<and>
     (\<not> found \<longrightarrow> it = iter_at fs b k)"
proof -
  have "iter_find_loop (length fs + 1)
      (\<lambda>f. tag f = tg \<and> PB_LTYPE (ftype f) \<noteq> PB_LTYPE_EXTENSION) k (iter_at fs b k) = (found, it)"
    using assms(1-3) by (simp add: pb_field_iter_find_def)
  from iter_find_spec [OF assms(1,2) _ this] show ?thesis by simp
qed

theorem pb_field_iter_find_correct_witness:
  "(\<exists>j < nfields gdt_cct_LogEvent_fields. tag (field_at gdt_cct_LogEvent_fields j) = 6 \<and>
      PB_LTYPE (ftype (field_at gdt_cct_LogEvent_fields j)) \<noteq> PB_LTYPE_EXTENSION) =
     fst (pb_field_iter_find (iter_at gdt_cct_LogEvent_fields 64 3) 6)"
proof -
  have "terminated gdt_cct_LogEvent_fields" "3 < nfields gdt_cct_LogEvent_fields"
    unfolding gdt_cct_LogEvent_fields_eval by code_simp+
  from pb_field_iter_find_correct [OF this, of 64 6] show ?thesis by (metis prod.collapse)
qed

text \<open>A walk over a struct visits every descriptor once, in order, and its required-field index counts
  the required fields passed.\<close>

theorem pb_field_iter_visits_all:
  assumes "terminated fs"
  shows "map cur (iter_all fs dst) = butlast fs \<and>
     map required_field_index (iter_all fs dst) =
       map (\<lambda>k. length (filter (\<lambda>f. PB_HTYPE (ftype f) = PB_HTYPE_REQUIRED) (take k fs))) [0..<nfields fs]"
proof
  have at: "cur (iter_at fs dst k) = butlast fs ! k" if "k < nfields fs" for k
    using assms that by (auto simp: field_at_def nth_butlast)
  show "map cur (iter_all fs dst) = butlast fs"
    by (rule nth_equalityI) (use assms at in \<open>simp_all add: iter_all_eq\<close>)
  show "map required_field_index (iter_all fs dst) =
       map (\<lambda>k. length (filter (\<lambda>f. PB_HTYPE (ftype f) = PB_HTYPE_REQUIRED) (take k fs))) [0..<nfields fs]"
    using assms by (simp add: iter_all_eq iter_at_required)
qed

theorem pb_field_iter_visits_all_witness:
  "map cur (iter_all gdt_cct_LogResponse_fields 64) = butlast gdt_cct_LogResponse_fields"
  using pb_field_iter_visits_all [of gdt_cct_LogResponse_fields 64] gdt_cct_LogResponse_fields_describes
  by (simp add: describes_def)

section \<open>Generated messages\<close>


text \<open>The same for the response tree.\<close>

theorem cct_response_descriptors_fit:
  "map pData (iter_all gdt_cct_LogResponse_fields b) =
     map (\<lambda>x. b + c_offsetof gdt_cct_LogResponse x) [''next_request_wait_millis'', ''qos_tier''] \<and>
   map pData (iter_all gdt_cct_QosTiersOverride_fields b) =
     map (\<lambda>x. b + c_offsetof gdt_cct_QosTiersOverride x) [''qos_tier_configuration'', ''qos_tier_fingerprint''] \<and>
   map pData (iter_all gdt_cct_QosTierConfiguration_fields b) =
     map (\<lambda>x. b + c_offsetof gdt_cct_QosTierConfiguration x) [''qos_tier'', ''log_source'']"
  using gdt_cct_LogResponse_fields_describes gdt_cct_QosTiersOverride_fields_describes
    gdt_cct_QosTierConfiguration_fields_describes
  by (simp add: describes_def)

section \<open>Base 64\<close>


text \<open>C38: base 64 round trip. What \<open>f_b64_ntop\<close> has encoded \<open>f_b64_pton\<close> decodes to the same bytes, if the target
  has room for one byte more, or for exactly the bytes when they are full groups.\<close>

theorem f_b64_pton_inverts_ntop:
  assumes "f_b64_ntop src n = (r, out)" and "r \<noteq> -1"
    and "length src < targsize \<or> length src = targsize \<and> length src mod 3 = 0"
    and "targsize \<le> length t" and "targsize < 2 ^ 31"
  shows "\<exists>t'. f_b64_pton (butlast out) (Some t) targsize = (int (length src), Some t') \<and>
     take (length src) t' = src"
proof -
  have out: "butlast out = b64_text src"
  proof (cases "length (b64_text src) < n")
    case True
    then show ?thesis using ntop_result(1) [of src n] assms(1) by simp
  next
    case False
    then show ?thesis using ntop_result(1) [of src n] assms(1,2) by simp
  qed
  have "pton_done 0 src t (pton_loop targsize (b64_text src) \<lparr>state = 0, tarindex = 0, target = Some t\<rparr>)"
    by (rule pton_text) (use assms in simp_all)
  moreover have "sint (word_of_nat (length src) :: u32) = int (length src)"
    using assms(3,5) by (intro sint_small) auto
  ultimately show ?thesis unfolding out by (auto simp: pton_done_def f_b64_pton_def)
qed

theorem f_b64_pton_inverts_ntop_witness:
  "\<exists>t'. f_b64_pton (butlast (snd (f_b64_ntop [0x48, 0x65, 0x6C, 0x6C, 0x6F] 9))) (Some (replicate 6 0)) 6 =
       (int (length [0x48, 0x65, 0x6C, 0x6C, 0x6F :: byte]), Some t') \<and>
     take (length [0x48, 0x65, 0x6C, 0x6C, 0x6F :: byte]) t' = [0x48, 0x65, 0x6C, 0x6C, 0x6F]"
  using f_b64_pton_inverts_ntop [OF ntop_hello, of 6 "replicate 6 0"] by simp

text \<open>C39: \<open>f_b64_pton\<close> changes no byte of the target array beyond \<open>targsize\<close>, on any input.\<close>

theorem f_b64_pton_stays_in_target:
  assumes "f_b64_pton src (Some t) targsize = (r, t')"
  shows "\<exists>u. t' = Some u \<and> length u = length t \<and> drop targsize u = drop targsize t"
proof -
  obtain r1 st where lp: "pton_loop targsize src \<lparr>state = 0, tarindex = 0, target = Some t\<rparr> = (r1, st)"
    by (metis prod.exhaust)
  then have "same_beyond targsize \<lparr>state = 0, tarindex = 0, target = Some t\<rparr> st"
    using pton_loop_frame [OF lp] by (simp add: pton_inv_def)
  moreover have "t' = target st" using assms lp by (auto simp: f_b64_pton_def split: option.splits prod.splits if_splits)
  ultimately show ?thesis by (cases "target st") (auto simp: same_beyond_def)
qed

theorem f_b64_pton_stays_in_target_witness:
  "\<exists>u. snd (f_b64_pton (map of_char ''SGVsbG8='') (Some [0, 0, 0, 0, 7]) 4) = Some u \<and> length u = 5 \<and> drop 4 u = [7]"
  using f_b64_pton_stays_in_target [of "map of_char ''SGVsbG8=''" "[0, 0, 0, 0, 7]" 4
      "fst (f_b64_pton (map of_char ''SGVsbG8='') (Some [0, 0, 0, 0, 7]) 4)"
      "snd (f_b64_pton (map of_char ''SGVsbG8='') (Some [0, 0, 0, 0, 7]) 4)"]
  by (simp only: prod.collapse simp_thms) (simp add: numeral_eq_Suc)


end
